(* ===== verification/HV_Prelude.thy ===== *)
theory HV_Prelude
  imports Main "HOL-Library.Word" "HOL-Library.Monad_Syntax"
begin

text \<open>
  Shared vocabulary of the development: the widths of the C integer types, the status codes of
  \<^verbatim>\<open>top/include/lk/err.h\<close>, the bit helpers of \<^verbatim>\<open>top/include/lk/bits.h\<close> and
  \<^verbatim>\<open>top/include/lk/pow2.h\<close>, little-endian byte views of machine words, and the generic lemmas on
  words, lists and array updates that the component theories use. A pointer is a 64-bit word and
  NULL is 0, as on the AArch64 target.
\<close>

unbundle bit_operations_syntax

named_theorems hv_simps \<open>equations that the component proofs unfold together\<close>
named_theorems frame_simps \<open>fields that an operation leaves unchanged\<close>

section \<open>Machine types\<close>

type_synonym u8 = "8 word"
type_synonym u16 = "16 word"
type_synonym u32 = "32 word"
type_synonym u64 = "64 word"
type_synonym ptr = "64 word"
type_synonym paddr = "64 word"

section \<open>Status codes\<close>

abbreviation (input) NO_ERROR :: int where "NO_ERROR \<equiv> 0"
abbreviation (input) ERR_NOT_FOUND :: int where "ERR_NOT_FOUND \<equiv> -2"
abbreviation (input) ERR_NOT_READY :: int where "ERR_NOT_READY \<equiv> -3"
abbreviation (input) ERR_NO_MEMORY :: int where "ERR_NO_MEMORY \<equiv> -5"
abbreviation (input) ERR_INVALID_ARGS :: int where "ERR_INVALID_ARGS \<equiv> -8"
abbreviation (input) ERR_ALREADY_EXISTS :: int where "ERR_ALREADY_EXISTS \<equiv> -14"
abbreviation (input) ERR_IO :: int where "ERR_IO \<equiv> -20"
abbreviation (input) ERR_NOT_SUPPORTED :: int where "ERR_NOT_SUPPORTED \<equiv> -24"
abbreviation (input) ERR_BUSY :: int where "ERR_BUSY \<equiv> -33"

section \<open>Bit helpers\<close>

text \<open>
  \<^verbatim>\<open>__builtin_clz\<close> on a nonzero 32-bit value: the zero bits above the highest set one.
\<close>

definition builtin_clz :: "u32 \<Rightarrow> nat" where
  "builtin_clz w = length (takeWhile (\<lambda>i. \<not> bit w i) (rev [0..<32]))"

definition log2_uint :: "u32 \<Rightarrow> u32" where
  "log2_uint v = (if v = 0 then 0 else of_nat (4 * 8 - 1 - builtin_clz v))"

definition valpow2 :: "u32 \<Rightarrow> u32" where
  "valpow2 valp2 = push_bit (unat valp2) 1"

definition modpow2 :: "u32 \<Rightarrow> u32 \<Rightarrow> u32" where
  "modpow2 v modp2 = ucast ((ucast v :: u64) AND (push_bit (unat modp2) 1 - 1))"

definition ispow2 :: "u32 \<Rightarrow> bool" where
  "ispow2 v \<longleftrightarrow> (v - 1) AND v = 0"

definition round_up_pow2_u32 :: "u32 \<Rightarrow> u32" where
  "round_up_pow2_u32 v0 =
     (let v = v0 - 1;
          v = v OR drop_bit 1 v;
          v = v OR drop_bit 2 v;
          v = v OR drop_bit 4 v;
          v = v OR drop_bit 8 v;
          v = v OR drop_bit 16 v
      in v + 1)"

definition BITS :: "u64 \<Rightarrow> nat \<Rightarrow> nat \<Rightarrow> u64" where
  "BITS x high low = x AND ((push_bit (high + 1) 1 - 1) AND NOT (push_bit low 1 - 1))"

definition BITS_SHIFT :: "u64 \<Rightarrow> nat \<Rightarrow> nat \<Rightarrow> u64" where
  "BITS_SHIFT x high low = drop_bit low x AND (push_bit (high - low + 1) 1 - 1)"

text \<open>\<^verbatim>\<open>bitfield w lo n\<close> reads the \<open>n\<close>-bit C bit-field at bit \<open>lo\<close>; \<open>set_bitfield\<close> assigns it.\<close>

definition bitfield :: "'a::len word \<Rightarrow> nat \<Rightarrow> nat \<Rightarrow> 'a word" where
  "bitfield w lo n = take_bit n (drop_bit lo w)"

definition set_bitfield :: "'a::len word \<Rightarrow> nat \<Rightarrow> nat \<Rightarrow> 'a word \<Rightarrow> 'a word" where
  "set_bitfield w lo n v = (w AND NOT (push_bit lo (mask n))) OR push_bit lo (take_bit n v)"

lemma bit_bitfield [bit_simps]:
  "bit (bitfield w lo n) i \<longleftrightarrow> i < n \<and> bit w (lo + i)"
  for w :: "'a::len word"
  by (simp add: bitfield_def bit_simps add.commute)

lemma bit_set_bitfield:
  "bit (set_bitfield w lo n v) i \<longleftrightarrow>
     i < LENGTH('a) \<and> (if lo \<le> i \<and> i < lo + n then bit v (i - lo) else bit w i)"
  for w :: "'a::len word"
  by (auto simp: set_bitfield_def bit_simps)

lemma bitfield_set_same:
  "lo + n \<le> LENGTH('a) \<Longrightarrow> bitfield (set_bitfield w lo n v) lo n = take_bit n v"
  for w :: "'a::len word"
  by (rule bit_word_eqI) (auto simp: bit_bitfield bit_set_bitfield bit_simps)

lemma bitfield_set_other:
  "lo + n \<le> lo' \<or> lo' + n' \<le> lo \<Longrightarrow> lo' + n' \<le> LENGTH('a) \<Longrightarrow>
     bitfield (set_bitfield w lo n v) lo' n' = bitfield w lo' n'"
  for w :: "'a::len word"
  by (rule bit_word_eqI) (auto simp: bit_bitfield bit_set_bitfield)

lemma bitfield_zero [simp]: "bitfield 0 lo n = 0"
  by (simp add: bitfield_def)

lemma ucast_through:
  "LENGTH('c) \<le> LENGTH('b) \<Longrightarrow> ucast (ucast w :: 'b::len word) = (ucast w :: 'c::len word)"
  for w :: "'a::len word"
  by (rule bit_word_eqI) (auto simp: bit_simps)

section \<open>Powers of two as unsigned words\<close>

lemma push_bit_one_minus_one: "n < LENGTH('a) \<Longrightarrow> push_bit n 1 - 1 = (mask n :: 'a::len word)"
  by (simp add: mask_eq_exp_minus_1 push_bit_eq_mult)

lemma unat_exp: "n < LENGTH('a) \<Longrightarrow> unat (2 ^ n :: 'a::len word) = 2 ^ n"
proof -
  assume n: "n < LENGTH('a)"
  have "unat (word_of_nat (2 ^ n) :: 'a word) = 2 ^ n mod 2 ^ LENGTH('a)"
    by (rule unat_of_nat)
  with n show ?thesis by (simp add: power_strict_increasing)
qed

lemma unat_valpow2: "unat p < 32 \<Longrightarrow> unat (valpow2 p) = 2 ^ unat p"
  by (simp add: valpow2_def unat_exp)

lemma unat_modpow2:
  assumes "unat p < 32"
  shows "unat (modpow2 v p) = unat v mod 2 ^ unat p"
proof -
  have "(ucast v :: u64) AND (push_bit (unat p) 1 - 1) = take_bit (unat p) (ucast v)"
    using assms by (simp add: mask_eq_exp_minus_1 take_bit_eq_mask)
  moreover have "ucast (take_bit (unat p) (ucast v :: u64)) = take_bit (unat p) v"
    by (rule bit_word_eqI) (auto simp: bit_simps)
  ultimately have "modpow2 v p = take_bit (unat p) v"
    by (simp add: modpow2_def)
  then have "unat (modpow2 v p) = take_bit (unat p) (unat v)"
    by (simp add: unsigned_take_bit_eq)
  then show ?thesis by (simp add: take_bit_eq_mod)
qed

section \<open>The highest set bit\<close>

lemma takeWhile_rev_upt:
  assumes "m < n" "P m" "\<forall>i<n. m < i \<longrightarrow> \<not> P i"
  shows "takeWhile (\<lambda>i. \<not> P i) (rev [0..<n]) = rev [Suc m..<n]"
proof -
  have "[0..<n] = [0..<m] @ m # [Suc m..<n]"
    using assms(1) by (metis upt_conv_Cons upt_add_eq_append le0 less_imp_le plus_nat.add_0 le_add_diff_inverse)
  then have "rev [0..<n] = rev [Suc m..<n] @ m # rev [0..<m]" by simp
  with assms(2,3) show ?thesis by (simp only: takeWhile_append2) (auto simp: takeWhile_append)
qed

lemma clz_highest:
  assumes "w \<noteq> 0"
  shows "31 - builtin_clz w < 32" "bit w (31 - builtin_clz w)" "\<And>i. 31 - builtin_clz w < i \<Longrightarrow> \<not> bit w i"
proof -
  define m where "m = Max {i. bit w i}"
  have f: "finite {i. bit w i}" by (rule finite_subset [of _ "{..<32}"]) (auto dest: bit_imp_le_length)
  have "{i. bit w i} \<noteq> {}" using assms by (metis Collect_empty_eq bit_0_eq bit_eqI bot_apply bot_bool_def)
  then have m: "bit w m" "\<forall>i. bit w i \<longrightarrow> i \<le> m" using f Max_in [of "{i. bit w i}"] by (auto simp: m_def)
  then have "m < 32" using bit_imp_le_length [of w m] by simp
  with m have "builtin_clz w = 31 - m"
    unfolding builtin_clz_def by (subst takeWhile_rev_upt [of m]) (auto simp: not_le)
  then have "31 - builtin_clz w = m" using \<open>m < 32\<close> by simp
  with m \<open>m < 32\<close> show "31 - builtin_clz w < 32" "bit w (31 - builtin_clz w)"
    "\<And>i. 31 - builtin_clz w < i \<Longrightarrow> \<not> bit w i" by (auto simp: not_le)
qed

section \<open>Little-endian bytes\<close>

fun le_bytes :: "nat \<Rightarrow> u64 \<Rightarrow> u8 list" where
  "le_bytes 0 w = []"
| "le_bytes (Suc n) w = ucast w # le_bytes n (drop_bit 8 w)"

fun of_le_bytes :: "u8 list \<Rightarrow> u64" where
  "of_le_bytes [] = 0"
| "of_le_bytes (b # bs) = ucast b OR push_bit 8 (of_le_bytes bs)"

lemma length_le_bytes [simp]: "length (le_bytes n w) = n"
  by (induction n arbitrary: w) auto

lemma of_le_bytes_le_bytes: "of_le_bytes (le_bytes n w) = take_bit (8 * n) w"
proof (induction n arbitrary: w)
  case 0
  then show ?case by simp
next
  case (Suc n)
  show ?case
    by (rule bit_word_eqI)
      (auto simp: Suc.IH bit_simps)
qed

lemma of_le_bytes_le_bytes_8 [simp]: "of_le_bytes (le_bytes 8 w) = w"
  by (simp add: of_le_bytes_le_bytes take_bit_word_eq_self)

section \<open>Array writes\<close>

text \<open>\<open>blit buf off bs\<close> is \<^verbatim>\<open>memcpy(buf + off, bs, |bs|)\<close> on an array that holds the range.\<close>

definition blit :: "'a list \<Rightarrow> nat \<Rightarrow> 'a list \<Rightarrow> 'a list" where
  "blit buf off bs = take off buf @ bs @ drop (off + length bs) buf"

lemma length_blit [simp]:
  "off + length bs \<le> length buf \<Longrightarrow> length (blit buf off bs) = length buf"
  by (simp add: blit_def)

lemma nth_blit:
  assumes "off + length bs \<le> length buf" "i < length buf"
  shows "blit buf off bs ! i = (if off \<le> i \<and> i < off + length bs then bs ! (i - off) else buf ! i)"
  using assms by (auto simp: blit_def nth_append)

end
