(* ===== verification/Cbuf.thy ===== *)
theory Cbuf
  imports HV_Prelude
begin

text \<open>
  The byte ring buffer of \<^verbatim>\<open>lib/cbuf/cbuf.c\<close>. The record is \<^verbatim>\<open>struct cbuf\<close>: the indices and the
  size exponent keep their C width, \<open>cb_buf\<close> is the array the \<^verbatim>\<open>char *\<close> points to and
  \<open>cb_event\<close> is whether the embedded event is signalled. The spin lock has no effect on a single
  call and is left out; the blocking forms of the reads (\<^verbatim>\<open>event_wait\<close> before the lock) are
  called by no part of the hypervisor and are not modelled. The abstraction is the list of bytes
  between tail and head, and every operation is proved to act on that list as a bounded queue.
\<close>

record cbuf =
  cb_head :: u32
  cb_tail :: u32
  cb_len_pow2 :: u32
  cb_buf :: "u8 list"
  cb_event :: bool

section \<open>Operations\<close>

definition INC_POINTER :: "cbuf \<Rightarrow> u32 \<Rightarrow> nat \<Rightarrow> u32" where
  "INC_POINTER c p inc = modpow2 (p + of_nat inc) (cb_len_pow2 c)"

definition cbuf_initialize_etc :: "nat \<Rightarrow> u8 list \<Rightarrow> cbuf" where
  "cbuf_initialize_etc len buf =
     \<lparr>cb_head = 0, cb_tail = 0, cb_len_pow2 = log2_uint (of_nat len), cb_buf = buf,
      cb_event = False\<rparr>"

definition cbuf_space_avail :: "cbuf \<Rightarrow> nat" where
  "cbuf_space_avail c =
     (let consumed = modpow2 (cb_head c - cb_tail c) (cb_len_pow2 c)
      in unat (valpow2 (cb_len_pow2 c) - consumed - 1))"

definition cbuf_space_used :: "cbuf \<Rightarrow> nat" where
  "cbuf_space_used c = unat (modpow2 (cb_head c - cb_tail c) (cb_len_pow2 c))"

definition cbuf_size :: "cbuf \<Rightarrow> nat" where
  "cbuf_size c = unat (push_bit (unat (cb_len_pow2 c)) 1 :: u64)"

text \<open>The length one pass of the write loop copies (lines 66 to 81).\<close>

definition write_len :: "cbuf \<Rightarrow> nat \<Rightarrow> nat" where
  "write_len c rest =
     (if cb_tail c \<le> cb_head c then
        (if cb_tail c = 0
         then min (unat (valpow2 (cb_len_pow2 c) - cb_head c - 1)) rest
         else min (unat (valpow2 (cb_len_pow2 c) - cb_head c)) rest)
      else min (unat (cb_tail c - cb_head c - 1)) rest)"

text \<open>A source of \<open>None\<close> is the NULL pointer, for which zeros are written.\<close>

definition write_chunk :: "u8 list option \<Rightarrow> nat \<Rightarrow> nat \<Rightarrow> u8 list" where
  "write_chunk src pos n =
     (case src of None \<Rightarrow> replicate n 0 | Some bs \<Rightarrow> take n (drop pos bs))"

function cbuf_write_loop :: "u8 list option \<Rightarrow> nat \<Rightarrow> cbuf \<Rightarrow> nat \<Rightarrow> cbuf \<times> nat" where
  "cbuf_write_loop src len c pos =
     (if pos < len \<and> cbuf_space_avail c > 0 then
        (let n = write_len c (len - pos) in
         if n = 0 then (c, pos)
         else cbuf_write_loop src len
                (c\<lparr>cb_buf := blit (cb_buf c) (unat (cb_head c)) (write_chunk src pos n),
                   cb_head := INC_POINTER c (cb_head c) n\<rparr>) (pos + n))
      else (c, pos))"
  by pat_completeness auto
termination
  by (relation "measure (\<lambda>(src, len, c, pos). len - pos)") auto

definition cbuf_write :: "cbuf \<Rightarrow> u8 list option \<Rightarrow> nat \<Rightarrow> cbuf \<times> nat" where
  "cbuf_write c src len =
     (let (c', pos) = cbuf_write_loop src len c 0
      in (if cb_head c' \<noteq> cb_tail c' then c'\<lparr>cb_event := True\<rparr> else c', pos))"

definition read_len :: "cbuf \<Rightarrow> nat \<Rightarrow> nat" where
  "read_len c rest =
     (if cb_tail c < cb_head c then min (unat (cb_head c - cb_tail c)) rest
      else min (unat (valpow2 (cb_len_pow2 c) - cb_tail c)) rest)"

text \<open>
  The read loop of lines 131 to 148. Under the invariant each pass reads at least one byte; fuel
  \<open>buflen + 1\<close> covers the passes.
\<close>

fun cbuf_read_loop :: "nat \<Rightarrow> nat \<Rightarrow> cbuf \<Rightarrow> nat \<Rightarrow> u8 list \<Rightarrow> (cbuf \<times> nat \<times> u8 list) option" where
  "cbuf_read_loop 0 buflen c pos acc = None"
| "cbuf_read_loop (Suc fuel) buflen c pos acc =
     (if pos < buflen \<and> cb_tail c \<noteq> cb_head c then
        (let n = read_len c (buflen - pos) in
         cbuf_read_loop fuel buflen (c\<lparr>cb_tail := INC_POINTER c (cb_tail c) n\<rparr>) (pos + n)
           (acc @ take n (drop (unat (cb_tail c)) (cb_buf c))))
      else Some (c, pos, acc))"

definition cbuf_read :: "cbuf \<Rightarrow> nat \<Rightarrow> (cbuf \<times> nat \<times> u8 list) option" where
  "cbuf_read c buflen =
     (if cb_tail c \<noteq> cb_head c then
        (case cbuf_read_loop (buflen + 1) buflen c 0 [] of
           None \<Rightarrow> None
         | Some (c', pos, bs) \<Rightarrow>
             Some (if cb_tail c' = cb_head c' then c'\<lparr>cb_event := False\<rparr> else c', pos, bs))
      else Some (c, 0, []))"

definition cbuf_reset :: "cbuf \<Rightarrow> cbuf option" where
  "cbuf_reset c = map_option fst (cbuf_read c (cbuf_size c))"

text \<open>\<^verbatim>\<open>cbuf_peek\<close> returns two regions as (offset, length), the first absent when empty.\<close>

definition cbuf_peek :: "cbuf \<Rightarrow> nat \<times> (nat option \<times> nat) \<times> (nat option \<times> nat)" where
  "cbuf_peek c =
     (let ret = cbuf_space_used c; sz = cbuf_size c;
          base = (if ret \<noteq> 0 then Some (unat (cb_tail c)) else None)
      in if ret + unat (cb_tail c) > sz
         then (ret, (base, sz - unat (cb_tail c)), (Some 0, ret - (sz - unat (cb_tail c))))
         else (ret, (base, ret), (None, 0)))"

definition cbuf_write_char :: "cbuf \<Rightarrow> u8 \<Rightarrow> cbuf \<times> nat" where
  "cbuf_write_char c ch =
     (if cbuf_space_avail c > 0 then
        (let c' = c\<lparr>cb_buf := (cb_buf c)[unat (cb_head c) := ch],
                    cb_head := INC_POINTER c (cb_head c) 1\<rparr>
         in (if cb_head c' \<noteq> cb_tail c' then c'\<lparr>cb_event := True\<rparr> else c', 1))
      else (c, 0))"

definition cbuf_read_char :: "cbuf \<Rightarrow> cbuf \<times> u8 option" where
  "cbuf_read_char c =
     (if cb_tail c \<noteq> cb_head c then
        (let ch = cb_buf c ! unat (cb_tail c);
             c' = c\<lparr>cb_tail := INC_POINTER c (cb_tail c) 1\<rparr>
         in (if cb_tail c' = cb_head c' then c'\<lparr>cb_event := False\<rparr> else c', Some ch))
      else (c, None))"

section \<open>Invariant and abstraction\<close>

definition cbuf_inv :: "cbuf \<Rightarrow> bool" where
  "cbuf_inv c \<longleftrightarrow>
     unat (cb_len_pow2 c) < 32 \<and> length (cb_buf c) = 2 ^ unat (cb_len_pow2 c) \<and>
     unat (cb_head c) < 2 ^ unat (cb_len_pow2 c) \<and> unat (cb_tail c) < 2 ^ unat (cb_len_pow2 c) \<and>
     (cb_event c \<longleftrightarrow> cb_head c \<noteq> cb_tail c)"

definition capacity :: "cbuf \<Rightarrow> nat" where
  "capacity c = 2 ^ unat (cb_len_pow2 c) - 1"

definition contents :: "cbuf \<Rightarrow> u8 list" where
  "contents c =
     map (\<lambda>i. cb_buf c ! ((unat (cb_tail c) + i) mod 2 ^ unat (cb_len_pow2 c)))
       [0..<cbuf_space_used c]"

text \<open>The part of the invariant that holds inside the loops, where the event lags behind.\<close>

definition ring_inv :: "cbuf \<Rightarrow> bool" where
  "ring_inv c \<longleftrightarrow>
     unat (cb_len_pow2 c) < 32 \<and> length (cb_buf c) = 2 ^ unat (cb_len_pow2 c) \<and>
     unat (cb_head c) < 2 ^ unat (cb_len_pow2 c) \<and> unat (cb_tail c) < 2 ^ unat (cb_len_pow2 c)"

section \<open>Index arithmetic\<close>

lemma unat_sub_mod:
  fixes a b :: u32
  assumes "p < 32" "unat a < 2 ^ p" "unat b < 2 ^ p"
  shows "unat (a - b) mod 2 ^ p = (if unat b \<le> unat a then unat a - unat b else unat a + 2 ^ p - unat b)"
proof (cases "unat b \<le> unat a")
  case True
  then have "unat (a - b) = unat a - unat b" by (simp add: unat_sub word_le_nat_alt)
  with True assms show ?thesis by simp
next
  case False
  have N: "(2::nat) ^ p * 2 ^ (32 - p) = 2 ^ 32"
    using assms(1) by (simp flip: power_add)
  have "unat (a - b) = unat a + 2 ^ 32 - unat b"
    using False by (simp add: unat_sub_if_size word_le_nat_alt word_size)
  also have "\<dots> = (unat a + 2 ^ p - unat b) + 2 ^ p * (2 ^ (32 - p) - 1)"
  proof -
    have "(2::nat) ^ p * (2 ^ (32 - p) - 1) + 2 ^ p = 2 ^ p * 2 ^ (32 - p)"
      by (simp add: diff_mult_distrib2 mult_le_cancel1)
    then have "(2::nat) ^ p * (2 ^ (32 - p) - 1) + 2 ^ p = 2 ^ 32"
      by (simp only: N)
    moreover have "unat b \<le> 2 ^ p" using assms(3) by simp
    ultimately show ?thesis by simp
  qed
  finally have "unat (a - b) mod 2 ^ p = (unat a + 2 ^ p - unat b) mod 2 ^ p"
    by (simp only: mod_mult_self2)
  with False assms show ?thesis by simp
qed

lemma used_eq:
  assumes "ring_inv c"
  shows "cbuf_space_used c =
     (if unat (cb_tail c) \<le> unat (cb_head c) then unat (cb_head c) - unat (cb_tail c)
      else unat (cb_head c) + 2 ^ unat (cb_len_pow2 c) - unat (cb_tail c))"
  using assms by (simp add: cbuf_space_used_def ring_inv_def unat_modpow2 unat_sub_mod)

lemma used_less: "ring_inv c \<Longrightarrow> cbuf_space_used c < 2 ^ unat (cb_len_pow2 c)"
  by (auto simp: used_eq ring_inv_def)

lemma avail_eq:
  assumes "ring_inv c"
  shows "cbuf_space_avail c = 2 ^ unat (cb_len_pow2 c) - 1 - cbuf_space_used c"
proof -
  let ?N = "valpow2 (cb_len_pow2 c)" and ?u = "modpow2 (cb_head c - cb_tail c) (cb_len_pow2 c)"
  have N: "unat ?N = 2 ^ unat (cb_len_pow2 c)"
    using assms by (simp add: ring_inv_def unat_valpow2)
  have u: "unat ?u < unat ?N"
    using used_less [OF assms] by (simp add: cbuf_space_used_def N)
  then have "?u \<le> ?N" by (simp add: word_le_nat_alt)
  then have d: "unat (?N - ?u) = unat ?N - unat ?u" by (simp add: unat_sub word_le_nat_alt)
  with u have "1 \<le> ?N - ?u" by (simp add: word_le_nat_alt)
  then have "unat (?N - ?u - 1) = unat ?N - unat ?u - 1" by (simp add: unat_sub word_le_nat_alt d)
  then show ?thesis by (simp add: cbuf_space_avail_def cbuf_space_used_def N Let_def)
qed

lemma pow2_le_32: "p < 32 \<Longrightarrow> (2::nat) ^ p \<le> 2 ^ 31"
  by (rule power_increasing) auto

lemma unat_INC_POINTER:
  assumes "unat (cb_len_pow2 c) < 32" "unat p + n \<le> 2 ^ unat (cb_len_pow2 c)"
  shows "unat (INC_POINTER c p n) = (unat p + n) mod 2 ^ unat (cb_len_pow2 c)"
proof -
  have "(2::nat) ^ unat (cb_len_pow2 c) \<le> 2 ^ 31" by (rule pow2_le_32) (rule assms(1))
  with assms(2) have b: "unat p + n \<le> 2 ^ 31" by linarith
  then have "unat (p + of_nat n) = unat p + n"
    by (simp add: unat_word_ariths unat_of_nat)
  then show ?thesis using assms(1) by (simp add: INC_POINTER_def unat_modpow2)
qed

section \<open>One pass of a loop on the abstract queue\<close>

definition push_chunk :: "cbuf \<Rightarrow> u8 list \<Rightarrow> cbuf" where
  "push_chunk c bs = c\<lparr>cb_buf := blit (cb_buf c) (unat (cb_head c)) bs,
                       cb_head := INC_POINTER c (cb_head c) (length bs)\<rparr>"

definition pop_chunk :: "cbuf \<Rightarrow> nat \<Rightarrow> cbuf" where
  "pop_chunk c n = c\<lparr>cb_tail := INC_POINTER c (cb_tail c) n\<rparr>"

lemma push_chunk_fields [simp]:
  "cb_len_pow2 (push_chunk c bs) = cb_len_pow2 c" "cb_tail (push_chunk c bs) = cb_tail c"
  "cb_event (push_chunk c bs) = cb_event c"
  by (simp_all add: push_chunk_def)

lemma pop_chunk_fields [simp]:
  "cb_len_pow2 (pop_chunk c n) = cb_len_pow2 c" "cb_head (pop_chunk c n) = cb_head c"
  "cb_event (pop_chunk c n) = cb_event c" "cb_buf (pop_chunk c n) = cb_buf c"
  by (simp_all add: pop_chunk_def)

lemma push_chunk_used:
  assumes "ring_inv c" "unat (cb_head c) + length bs \<le> 2 ^ unat (cb_len_pow2 c)"
    and "cbuf_space_used c + length bs < 2 ^ unat (cb_len_pow2 c)"
  shows "ring_inv (push_chunk c bs)" "cbuf_space_used (push_chunk c bs) = cbuf_space_used c + length bs"
proof -
  let ?N = "2 ^ unat (cb_len_pow2 c) :: nat"
  have h: "unat (cb_head (push_chunk c bs)) = (unat (cb_head c) + length bs) mod ?N"
    using assms by (simp add: push_chunk_def unat_INC_POINTER ring_inv_def)
  show inv: "ring_inv (push_chunk c bs)"
    using assms h by (simp add: ring_inv_def push_chunk_def)
  show "cbuf_space_used (push_chunk c bs) = cbuf_space_used c + length bs"
  proof (cases "unat (cb_head c) + length bs = ?N")
    case True
    with h have "unat (cb_head (push_chunk c bs)) = 0" by simp
    with True assms inv show ?thesis
      by (auto simp: used_eq [OF inv] used_eq [OF assms(1)] ring_inv_def split: if_splits)
  next
    case False
    with assms(2) have "unat (cb_head c) + length bs < ?N" by simp
    with h have "unat (cb_head (push_chunk c bs)) = unat (cb_head c) + length bs" by simp
    with False assms inv show ?thesis
      by (auto simp: used_eq [OF inv] used_eq [OF assms(1)] ring_inv_def split: if_splits)
  qed
qed

lemma contents_nth:
  "i < cbuf_space_used c \<Longrightarrow>
     contents c ! i = cb_buf c ! ((unat (cb_tail c) + i) mod 2 ^ unat (cb_len_pow2 c))"
  by (simp add: contents_def)

lemma length_contents [simp]: "length (contents c) = cbuf_space_used c"
  by (simp add: contents_def)

lemma tail_index:
  assumes "ring_inv c" "i < 2 ^ unat (cb_len_pow2 c)"
  shows "(unat (cb_tail c) + i) mod 2 ^ unat (cb_len_pow2 c) =
     (if unat (cb_tail c) + i < 2 ^ unat (cb_len_pow2 c) then unat (cb_tail c) + i
      else unat (cb_tail c) + i - 2 ^ unat (cb_len_pow2 c))"
  using assms by (auto simp: ring_inv_def mod_if)

lemma push_chunk_contents:
  assumes inv: "ring_inv c" and fit: "unat (cb_head c) + length bs \<le> 2 ^ unat (cb_len_pow2 c)"
    and room: "cbuf_space_used c + length bs < 2 ^ unat (cb_len_pow2 c)"
  shows "contents (push_chunk c bs) = contents c @ bs"
proof (rule nth_equalityI)
  note used = push_chunk_used [OF assms]
  show "length (contents (push_chunk c bs)) = length (contents c @ bs)"
    by (simp add: used(2))
  fix i
  assume "i < length (contents (push_chunk c bs))"
  then have i: "i < cbuf_space_used c + length bs" by (simp add: used(2))
  let ?N = "2 ^ unat (cb_len_pow2 c) :: nat"
  let ?j = "(unat (cb_tail c) + i) mod ?N"
  have len: "length (cb_buf c) = ?N" using inv by (simp add: ring_inv_def)
  have j: "?j < ?N" by simp
  have "contents (push_chunk c bs) ! i = blit (cb_buf c) (unat (cb_head c)) bs ! ?j"
    using i used(2) by (simp add: contents_nth) (simp add: push_chunk_def)
  also have "\<dots> = (if unat (cb_head c) \<le> ?j \<and> ?j < unat (cb_head c) + length bs
                    then bs ! (?j - unat (cb_head c)) else cb_buf c ! ?j)"
    using fit len j by (simp add: nth_blit)
  also have "\<dots> = (contents c @ bs) ! i"
  proof (cases "i < cbuf_space_used c")
    case True
    then have "\<not> (unat (cb_head c) \<le> ?j \<and> ?j < unat (cb_head c) + length bs)"
      using inv room i by (auto simp: tail_index [OF inv] used_eq [OF inv] ring_inv_def split: if_splits)
    with True show ?thesis by (auto simp: nth_append contents_nth)
  next
    case False
    then have "?j = unat (cb_head c) + (i - cbuf_space_used c)"
      using inv room i fit by (auto simp: tail_index [OF inv] used_eq [OF inv] ring_inv_def split: if_splits)
    with False i show ?thesis by (auto simp: nth_append)
  qed
  finally show "contents (push_chunk c bs) ! i = (contents c @ bs) ! i" .
qed

lemma pop_chunk_used:
  assumes "ring_inv c" "unat (cb_tail c) + n \<le> 2 ^ unat (cb_len_pow2 c)" "n \<le> cbuf_space_used c"
  shows "ring_inv (pop_chunk c n)" "cbuf_space_used (pop_chunk c n) = cbuf_space_used c - n"
proof -
  let ?N = "2 ^ unat (cb_len_pow2 c) :: nat"
  have t: "unat (cb_tail (pop_chunk c n)) = (unat (cb_tail c) + n) mod ?N"
    using assms by (simp add: pop_chunk_def unat_INC_POINTER ring_inv_def)
  show inv: "ring_inv (pop_chunk c n)"
    using assms t by (simp add: ring_inv_def pop_chunk_def)
  show "cbuf_space_used (pop_chunk c n) = cbuf_space_used c - n"
  proof (cases "unat (cb_tail c) + n = ?N")
    case True
    with t have "unat (cb_tail (pop_chunk c n)) = 0" by simp
    with True assms inv show ?thesis
      by (auto simp: used_eq [OF inv] used_eq [OF assms(1)] ring_inv_def split: if_splits)
  next
    case False
    with assms(2) have "unat (cb_tail c) + n < ?N" by simp
    with t have "unat (cb_tail (pop_chunk c n)) = unat (cb_tail c) + n" by simp
    with False assms inv show ?thesis
      by (auto simp: used_eq [OF inv] used_eq [OF assms(1)] ring_inv_def split: if_splits)
  qed
qed

lemma pop_chunk_contents:
  assumes inv: "ring_inv c" and fit: "unat (cb_tail c) + n \<le> 2 ^ unat (cb_len_pow2 c)"
    and room: "n \<le> cbuf_space_used c"
  shows "contents (pop_chunk c n) = drop n (contents c)"
    and "take n (drop (unat (cb_tail c)) (cb_buf c)) = take n (contents c)"
proof -
  let ?N = "2 ^ unat (cb_len_pow2 c) :: nat"
  note used = pop_chunk_used [OF assms]
  have t: "unat (cb_tail (pop_chunk c n)) = (unat (cb_tail c) + n) mod ?N"
    using assms by (simp add: pop_chunk_def unat_INC_POINTER ring_inv_def)
  show "contents (pop_chunk c n) = drop n (contents c)"
  proof (rule nth_equalityI)
    show "length (contents (pop_chunk c n)) = length (drop n (contents c))"
      by (simp add: used(2))
    fix i
    assume "i < length (contents (pop_chunk c n))"
    then have i: "i < cbuf_space_used c - n" by (simp add: used(2))
    then show "contents (pop_chunk c n) ! i = drop n (contents c) ! i"
      using used(2) room by (simp add: contents_nth t mod_add_left_eq add.assoc)
  qed
  show "take n (drop (unat (cb_tail c)) (cb_buf c)) = take n (contents c)"
    using inv fit room used_less [OF inv]
    by (intro nth_equalityI) (auto simp: ring_inv_def contents_nth)
qed

section \<open>The loops as bounded-queue operations\<close>

lemma write_len_bounds:
  assumes inv: "ring_inv c" and "cbuf_space_avail c > 0" "rest > 0"
  shows "0 < write_len c rest" "write_len c rest \<le> rest" "write_len c rest \<le> cbuf_space_avail c"
    "unat (cb_head c) + write_len c rest \<le> 2 ^ unat (cb_len_pow2 c)"
proof -
  let ?N = "2 ^ unat (cb_len_pow2 c) :: nat"
  let ?h = "unat (cb_head c)" and ?t = "unat (cb_tail c)"
  have N: "unat (valpow2 (cb_len_pow2 c)) = ?N"
    using inv by (simp add: ring_inv_def unat_valpow2)
  have hN: "?h < ?N" "?t < ?N" using inv by (simp_all add: ring_inv_def)
  have e1: "unat (valpow2 (cb_len_pow2 c) - cb_head c) = ?N - ?h"
    using hN by (simp add: unat_sub word_le_nat_alt N)
  have e2: "unat (valpow2 (cb_len_pow2 c) - cb_head c - 1) = ?N - ?h - 1"
    using hN e1 by (simp add: unat_sub word_le_nat_alt)
  have e3: "?h < ?t \<Longrightarrow> unat (cb_tail c - cb_head c - 1) = ?t - ?h - 1"
  proof -
    assume "?h < ?t"
    then have "unat (cb_tail c - cb_head c) = ?t - ?h" by (simp add: unat_sub word_le_nat_alt)
    with \<open>?h < ?t\<close> show ?thesis by (simp add: unat_sub word_le_nat_alt)
  qed
  have z: "cb_tail c = 0 \<longleftrightarrow> ?t = 0" by (simp add: unat_eq_0)
  show "0 < write_len c rest" "write_len c rest \<le> rest" "write_len c rest \<le> cbuf_space_avail c"
    "?h + write_len c rest \<le> ?N"
    using assms hN
    by (auto simp: write_len_def word_le_nat_alt avail_eq used_eq [OF inv] e1 e2 e3 z not_le
        split: if_splits)
qed

lemma length_write_chunk:
  "(\<And>bs. src = Some bs \<Longrightarrow> pos + n \<le> length bs) \<Longrightarrow> length (write_chunk src pos n) = n"
  by (cases src) (auto simp: write_chunk_def)

lemma write_chunk_append:
  "(\<And>bs. src = Some bs \<Longrightarrow> pos + n + m \<le> length bs) \<Longrightarrow>
     write_chunk src pos n @ write_chunk src (pos + n) m = write_chunk src pos (n + m)"
  by (cases src) (auto simp: write_chunk_def replicate_add take_add add.commute [of n pos])

declare cbuf_write_loop.simps [simp del]

lemma cbuf_write_loop_spec:
  assumes "ring_inv c" "pos \<le> len" "\<And>bs. src = Some bs \<Longrightarrow> len \<le> length bs"
    and "cbuf_write_loop src len c pos = (c', pos')"
  shows "ring_inv c' \<and> pos' = pos + min (len - pos) (cbuf_space_avail c) \<and>
     contents c' = contents c @ write_chunk src pos (pos' - pos) \<and>
     cb_len_pow2 c' = cb_len_pow2 c \<and> cb_tail c' = cb_tail c \<and> cb_event c' = cb_event c"
  using assms
proof (induction src len c pos arbitrary: c' pos' rule: cbuf_write_loop.induct)
  case (1 src len c pos)
  show ?case
  proof (cases "pos < len \<and> cbuf_space_avail c > 0")
    case False
    then have "cbuf_write_loop src len c pos = (c, pos)"
      by (auto simp: cbuf_write_loop.simps [of src len c pos])
    moreover have "min (len - pos) (cbuf_space_avail c) = 0" using False by auto
    moreover have "write_chunk src pos 0 = []" by (cases src) (auto simp: write_chunk_def)
    ultimately show ?thesis using "1.prems" by simp
  next
    case True
    define n where "n = write_len c (len - pos)"
    note b = write_len_bounds [OF "1.prems"(1), of "len - pos", folded n_def]
    from True have n: "0 < n" "n \<le> len - pos" "n \<le> cbuf_space_avail c"
      "unat (cb_head c) + n \<le> 2 ^ unat (cb_len_pow2 c)"
      using b by auto
    let ?bs = "write_chunk src pos n"
    have lbs: "length ?bs = n"
      using n(2) True "1.prems"(3) by (intro length_write_chunk) fastforce
    have eq: "cbuf_write_loop src len c pos = cbuf_write_loop src len (push_chunk c ?bs) (pos + n)"
      using True n(1) lbs
      by (simp add: cbuf_write_loop.simps [of src len c pos] Let_def push_chunk_def flip: n_def)
    have room: "cbuf_space_used c + length ?bs < 2 ^ unat (cb_len_pow2 c)"
      using n(3) used_less [OF "1.prems"(1)] by (simp add: lbs avail_eq [OF "1.prems"(1)])
    have fit: "unat (cb_head c) + length ?bs \<le> 2 ^ unat (cb_len_pow2 c)"
      using n(4) by (simp add: lbs)
    note pc = push_chunk_used [OF "1.prems"(1) fit room]
      push_chunk_contents [OF "1.prems"(1) fit room]
    have IH: "ring_inv c' \<and> pos' = pos + n + min (len - (pos + n)) (cbuf_space_avail (push_chunk c ?bs)) \<and>
       contents c' = contents (push_chunk c ?bs) @ write_chunk src (pos + n) (pos' - (pos + n)) \<and>
       cb_len_pow2 c' = cb_len_pow2 (push_chunk c ?bs) \<and> cb_tail c' = cb_tail (push_chunk c ?bs) \<and>
       cb_event c' = cb_event (push_chunk c ?bs)"
      using "1.IH" [OF True n_def, of c' pos'] True n pc(1) "1.prems"(3,4) eq lbs
      by (auto simp: push_chunk_def)
    have av: "cbuf_space_avail (push_chunk c ?bs) = cbuf_space_avail c - n"
      using n(3) by (simp add: avail_eq [OF pc(1)] avail_eq [OF "1.prems"(1)] pc(2) lbs)
    have pos': "pos' = pos + min (len - pos) (cbuf_space_avail c)"
      using IH av n True by auto
    have "write_chunk src pos n @ write_chunk src (pos + n) (pos' - (pos + n)) =
        write_chunk src pos (n + (pos' - (pos + n)))"
      using "1.prems"(3) pos' True n(2) by (intro write_chunk_append) fastforce
    moreover have "n + (pos' - (pos + n)) = pos' - pos" using pos' n True by auto
    ultimately show ?thesis using IH pos' pc(3) by simp
  qed
qed

lemma ring_inv_event [simp]: "ring_inv (c\<lparr>cb_event := b\<rparr>) = ring_inv c"
  by (simp add: ring_inv_def)

lemma contents_event [simp]: "contents (c\<lparr>cb_event := b\<rparr>) = contents c"
  by (simp add: contents_def cbuf_space_used_def)

lemma cbuf_inv_ring: "cbuf_inv c \<longleftrightarrow> ring_inv c \<and> (cb_event c \<longleftrightarrow> cb_head c \<noteq> cb_tail c)"
  by (auto simp: cbuf_inv_def ring_inv_def)

lemma contents_empty_iff: "ring_inv c \<Longrightarrow> contents c = [] \<longleftrightarrow> cb_head c = cb_tail c"
  by (auto simp: contents_def used_eq ring_inv_def word_unat_eq_iff)

lemma avail_contents: "ring_inv c \<Longrightarrow> cbuf_space_avail c = capacity c - length (contents c)"
  by (simp add: avail_eq capacity_def)

lemma read_len_bounds:
  assumes inv: "ring_inv c" and "cb_tail c \<noteq> cb_head c" "rest > 0"
  shows "0 < read_len c rest" "read_len c rest \<le> rest" "read_len c rest \<le> cbuf_space_used c"
    "unat (cb_tail c) + read_len c rest \<le> 2 ^ unat (cb_len_pow2 c)"
proof -
  let ?N = "2 ^ unat (cb_len_pow2 c) :: nat"
  let ?h = "unat (cb_head c)" and ?t = "unat (cb_tail c)"
  have N: "unat (valpow2 (cb_len_pow2 c)) = ?N"
    using inv by (simp add: ring_inv_def unat_valpow2)
  have hN: "?h < ?N" "?t < ?N" using inv by (simp_all add: ring_inv_def)
  have e1: "unat (valpow2 (cb_len_pow2 c) - cb_tail c) = ?N - ?t"
    using hN by (simp add: unat_sub word_le_nat_alt N)
  have e2: "?t < ?h \<Longrightarrow> unat (cb_head c - cb_tail c) = ?h - ?t"
    by (simp add: unat_sub word_le_nat_alt)
  have ne: "?h \<noteq> ?t" using assms(2) by (simp add: word_unat_eq_iff)
  show "0 < read_len c rest" "read_len c rest \<le> rest" "read_len c rest \<le> cbuf_space_used c"
    "?t + read_len c rest \<le> ?N"
    using assms hN ne
    by (auto simp: read_len_def word_less_nat_alt used_eq [OF inv] e1 e2 split: if_splits)
qed

lemma cbuf_read_loop_spec:
  assumes "ring_inv c" "pos \<le> buflen" "buflen - pos < fuel"
  shows "\<exists>c' pos'. cbuf_read_loop fuel buflen c pos acc =
       Some (c', pos', acc @ take (pos' - pos) (contents c)) \<and>
     ring_inv c' \<and> pos' = pos + min (buflen - pos) (length (contents c)) \<and>
     contents c' = drop (pos' - pos) (contents c) \<and>
     cb_len_pow2 c' = cb_len_pow2 c \<and> cb_head c' = cb_head c \<and> cb_event c' = cb_event c"
  using assms
proof (induction fuel arbitrary: c pos acc)
  case 0
  then show ?case by simp
next
  case (Suc fuel)
  show ?case
  proof (cases "pos < buflen \<and> cb_tail c \<noteq> cb_head c")
    case False
    have "buflen - pos = 0 \<or> contents c = []"
      using False contents_empty_iff [OF Suc.prems(1)] by auto
    then have "min (buflen - pos) (length (contents c)) = 0"
      by (auto simp del: length_contents)
    with False Suc.prems show ?thesis by auto
  next
    case True
    define n where "n = read_len c (buflen - pos)"
    note b = read_len_bounds [OF Suc.prems(1), of "buflen - pos", folded n_def]
    from True have n: "0 < n" "n \<le> buflen - pos" "n \<le> cbuf_space_used c"
      "unat (cb_tail c) + n \<le> 2 ^ unat (cb_len_pow2 c)"
      using b by auto
    note pc = pop_chunk_used [OF Suc.prems(1) n(4) n(3)] pop_chunk_contents [OF Suc.prems(1) n(4) n(3)]
    have eq: "cbuf_read_loop (Suc fuel) buflen c pos acc =
        cbuf_read_loop fuel buflen (pop_chunk c n) (pos + n) (acc @ take n (contents c))"
      using True pc(4) by (simp add: Let_def pop_chunk_def flip: n_def)
    have "pos + n \<le> buflen" "buflen - (pos + n) < fuel" using n True Suc.prems by auto
    from Suc.IH [OF pc(1) this, of "acc @ take n (contents c)"] obtain c' pos' where r:
      "cbuf_read_loop fuel buflen (pop_chunk c n) (pos + n) (acc @ take n (contents c)) =
         Some (c', pos', (acc @ take n (contents c)) @ take (pos' - (pos + n)) (contents (pop_chunk c n)))"
      "ring_inv c'" "pos' = pos + n + min (buflen - (pos + n)) (length (contents (pop_chunk c n)))"
      "contents c' = drop (pos' - (pos + n)) (contents (pop_chunk c n))"
      "cb_len_pow2 c' = cb_len_pow2 (pop_chunk c n)" "cb_head c' = cb_head (pop_chunk c n)"
      "cb_event c' = cb_event (pop_chunk c n)"
      by blast
    have pos': "pos' = pos + min (buflen - pos) (length (contents c))"
      using r(3) n True by (auto simp: pc(2))
    have sum: "n + (pos' - (pos + n)) = pos' - pos" using pos' n by auto
    have tk: "take n (contents c) @ take (pos' - (pos + n)) (drop n (contents c)) = take (pos' - pos) (contents c)"
      by (simp flip: take_add add: sum)
    show ?thesis
      using r pos' tk sum pc(3)
      by (intro exI [of _ c'] exI [of _ pos'])
        (auto simp: eq pop_chunk_def add.commute simp del: cbuf_read_loop.simps)
  qed
qed

section \<open>The queue contract\<close>

text \<open>
  What a client of the ring buffer relies on: a write appends as much as fits and says how much,
  a read returns and removes a prefix. The lemmas inside the locale are about clients that send
  fixed-size records, as the event channel of the hypervisor does.
\<close>

locale byte_fifo =
  fixes qwrite :: "'q \<Rightarrow> u8 list \<Rightarrow> 'q \<times> nat"
    and qread :: "'q \<Rightarrow> nat \<Rightarrow> ('q \<times> nat \<times> u8 list) option"
    and qcont :: "'q \<Rightarrow> u8 list" and qinv :: "'q \<Rightarrow> bool" and qcap :: "'q \<Rightarrow> nat"
  assumes qwrite_law: "qinv q \<Longrightarrow> qwrite q bs = (q', n) \<Longrightarrow>
      qinv q' \<and> n = min (length bs) (qcap q - length (qcont q)) \<and>
      qcont q' = qcont q @ take n bs \<and> qcap q' = qcap q"
    and qread_law: "qinv q \<Longrightarrow> \<exists>q'. qread q k = Some (q', min k (length (qcont q)), take k (qcont q)) \<and>
      qinv q' \<and> qcont q' = drop k (qcont q) \<and> qcap q' = qcap q"
    and qbound: "qinv q \<Longrightarrow> length (qcont q) \<le> qcap q"
begin

definition framed :: "nat \<Rightarrow> u8 list list \<Rightarrow> 'q \<Rightarrow> bool" where
  "framed k msgs q \<longleftrightarrow> qinv q \<and> (\<forall>m\<in>set msgs. length m = k) \<and> qcont q = concat msgs"

lemma framed_length: "framed k msgs q \<Longrightarrow> length (qcont q) = k * length msgs"
proof -
  have "\<forall>m\<in>set msgs. length m = k \<Longrightarrow> length (concat msgs) = k * length msgs"
    by (induction msgs) auto
  then show "framed k msgs q \<Longrightarrow> length (qcont q) = k * length msgs"
    by (auto simp: framed_def)
qed

lemma send_framed:
  assumes "framed k msgs q" "length m = k" "k * (length msgs + 1) \<le> qcap q"
  shows "\<exists>q'. qwrite q m = (q', k) \<and> framed k (msgs @ [m]) q' \<and> qcap q' = qcap q"
proof -
  obtain q' n where w: "qwrite q m = (q', n)" by fastforce
  have inv: "qinv q" using assms(1) by (simp add: framed_def)
  have "n = k" using qwrite_law [OF inv w] framed_length [OF assms(1)] assms(2,3) by simp
  with qwrite_law [OF inv w] w assms show ?thesis
    by (auto simp: framed_def)
qed

lemma recv_framed:
  assumes "framed k (m # msgs) q" 
  shows "\<exists>q'. qread q k = Some (q', k, m) \<and> framed k msgs q' \<and> qcap q' = qcap q"
proof -
  have inv: "qinv q" and c: "qcont q = m @ concat msgs" and l: "length m = k"
    using assms by (auto simp: framed_def)
  from qread_law [OF inv, of k] obtain q' where
    "qread q k = Some (q', min k (length (qcont q)), take k (qcont q))" "qinv q'"
    "qcont q' = drop k (qcont q)" "qcap q' = qcap q" by blast
  with c l assms show ?thesis by (auto simp: framed_def)
qed

text \<open>A record that does not fit whole is written in part, and the framing is lost.\<close>

lemma send_partial:
  assumes "framed k msgs q" "length m = k"
    and "k * length msgs < qcap q" "qcap q < k * (length msgs + 1)" "qwrite q m = (q', n)"
  shows "n \<noteq> k \<and> \<not> (\<exists>ms. framed k ms q')"
proof -
  have inv: "qinv q" using assms(1) by (simp add: framed_def)
  have n: "n = qcap q - k * length msgs"
    using qwrite_law [OF inv assms(5)] framed_length [OF assms(1)] assms(2,4) by auto
  then have nk: "0 < n" "n < k" using assms(3,4) by auto
  have len: "length (qcont q') = k * length msgs + n"
    using qwrite_law [OF inv assms(5)] framed_length [OF assms(1)] assms(2) nk by auto
  have "framed k ms q' \<Longrightarrow> False" for ms
  proof -
    assume "framed k ms q'"
    then have "k * length ms = k * length msgs + n" using framed_length len by simp
    then have "(k * length msgs + n) mod k = 0" by (metis mod_mult_self1_is_0)
    with nk show False by simp
  qed
  with nk show ?thesis by auto
qed

end

section \<open>Refinement theorems\<close>

lemma cbuf_write_law:
  assumes inv: "cbuf_inv c" and len: "\<And>bs. src = Some bs \<Longrightarrow> len \<le> length bs"
    and w: "cbuf_write c src len = (c', n)"
  shows "cbuf_inv c' \<and> n = min len (capacity c - length (contents c)) \<and>
     contents c' = contents c @ write_chunk src 0 n \<and> capacity c' = capacity c"
proof -
  obtain c1 n1 where l: "cbuf_write_loop src len c 0 = (c1, n1)" by fastforce
  have r: "ring_inv c" using inv by (simp add: cbuf_inv_ring)
  from cbuf_write_loop_spec [OF r _ len l] have s: "ring_inv c1"
    "n1 = min len (cbuf_space_avail c)" "contents c1 = contents c @ write_chunk src 0 n1"
    "cb_len_pow2 c1 = cb_len_pow2 c" "cb_tail c1 = cb_tail c" "cb_event c1 = cb_event c" by auto
  have "contents c1 = [] \<Longrightarrow> contents c = []" using s(3) by simp
  then have e: "cb_head c1 = cb_tail c1 \<Longrightarrow> cb_head c = cb_tail c"
    by (simp add: contents_empty_iff [OF s(1), symmetric] contents_empty_iff [OF r, symmetric])
  from w l s e inv r show ?thesis
    by (auto simp: cbuf_write_def cbuf_inv_ring avail_contents capacity_def
        split: if_splits)
qed

lemma cbuf_read_law:
  assumes inv: "cbuf_inv c"
  shows "\<exists>c'. cbuf_read c k = Some (c', min k (length (contents c)), take k (contents c)) \<and>
     cbuf_inv c' \<and> contents c' = drop k (contents c) \<and> capacity c' = capacity c"
proof (cases "cb_tail c = cb_head c")
  case True
  then have "contents c = []" using inv by (simp add: contents_empty_iff cbuf_inv_ring)
  with True inv show ?thesis by (auto simp: cbuf_read_def simp del: length_contents)
next
  case False
  have r: "ring_inv c" using inv by (simp add: cbuf_inv_ring)
  from cbuf_read_loop_spec [OF r, of 0 k "k + 1" "[]"] obtain c1 n1 where
    l: "cbuf_read_loop (k + 1) k c 0 [] = Some (c1, n1, take n1 (contents c))"
      "ring_inv c1" "n1 = min k (length (contents c))" "contents c1 = drop n1 (contents c)"
      "cb_len_pow2 c1 = cb_len_pow2 c" "cb_head c1 = cb_head c" "cb_event c1 = cb_event c" by auto
  have t: "take n1 (contents c) = take k (contents c)" "drop n1 (contents c) = drop k (contents c)"
    using l(3) by (auto simp: min_def simp del: length_contents)
  from l t False inv show ?thesis
    by (auto simp: cbuf_read_def cbuf_inv_ring capacity_def simp del: cbuf_read_loop.simps)
qed

lemma contents_bound: "cbuf_inv c \<Longrightarrow> length (contents c) \<le> capacity c"
  using used_less [of c] by (simp add: cbuf_inv_ring capacity_def)

interpretation cb: byte_fifo "\<lambda>c bs. cbuf_write c (Some bs) (length bs)" cbuf_read contents cbuf_inv capacity
proof (unfold_locales, goal_cases)
  case (1 q bs q' n)
  from cbuf_write_law [OF 1(1) _ 1(2)] show ?case by (simp add: write_chunk_def)
next
  case (2 q k)
  then show ?case by (rule cbuf_read_law)
next
  case (3 q)
  then show ?case by (rule contents_bound)
qed


section \<open>Initialisation, single characters, peek\<close>

lemma builtin_clz_exp: "n < 32 \<Longrightarrow> builtin_clz (2 ^ n) = 31 - n"
proof -
  assume n: "n < 32"
  then have "[0..<32] = [0..<n] @ n # [Suc n..<32]"
    by (metis upt_conv_Cons upt_add_eq_append less_imp_add_positive le0 less_imp_le plus_nat.add_0 le_add_diff_inverse)
  then have r: "rev [0..<32] = rev [Suc n..<32] @ n # rev [0..<n]" by simp
  have b: "bit (2 ^ n :: u32) i \<longleftrightarrow> i = n" if "i < 32" for i
    using n that by (auto simp: bit_simps)
  have "takeWhile (\<lambda>i. \<not> bit (2 ^ n :: u32) i) (rev [0..<32]) = rev [Suc n..<32]"
    unfolding r using n by (subst takeWhile_append2) (auto simp: b)
  then show ?thesis by (simp add: builtin_clz_def)
qed

lemma log2_uint_exp: "n < 32 \<Longrightarrow> log2_uint (2 ^ n) = of_nat n"
proof -
  assume n: "n < 32"
  then have "(2 ^ n :: u32) \<noteq> 0" by simp
  with n show ?thesis by (simp add: log2_uint_def builtin_clz_exp)
qed

lemma cbuf_initialize_inv:
  assumes "p < 32" "length buf = 2 ^ p"
  shows "cbuf_inv (cbuf_initialize_etc (2 ^ p) buf)"
    and "contents (cbuf_initialize_etc (2 ^ p) buf) = []"
    and "capacity (cbuf_initialize_etc (2 ^ p) buf) = 2 ^ p - 1"
proof -
  have "unat (word_of_nat p :: u32) = p" using assms(1) by (simp add: unat_of_nat)
  then show "cbuf_inv (cbuf_initialize_etc (2 ^ p) buf)"
    and "capacity (cbuf_initialize_etc (2 ^ p) buf) = 2 ^ p - 1"
    using assms by (simp_all add: cbuf_inv_def capacity_def cbuf_initialize_etc_def log2_uint_exp)
  then show "contents (cbuf_initialize_etc (2 ^ p) buf) = []"
    by (subst contents_empty_iff) (auto simp: cbuf_inv_ring cbuf_initialize_etc_def)
qed

lemma cbuf_write_char_eq_write:
  assumes "cbuf_inv c"
  shows "cbuf_write_char c ch = cbuf_write c (Some [ch]) 1"
proof (cases "cbuf_space_avail c > 0")
  case False
  then show ?thesis
    using assms by (auto simp: cbuf_write_char_def cbuf_write_def cbuf_write_loop.simps [of _ _ c] cbuf_inv_def)
next
  case True
  have r: "ring_inv c" using assms by (simp add: cbuf_inv_ring)
  have n: "write_len c 1 = 1"
    using write_len_bounds [OF r True, of 1] by linarith
  have b: "blit (cb_buf c) (unat (cb_head c)) [ch] = (cb_buf c)[unat (cb_head c) := ch]"
    using r by (simp add: blit_def ring_inv_def upd_conv_take_nth_drop)
  have "cbuf_write_loop (Some [ch]) 1 c 0 =
      (c\<lparr>cb_buf := (cb_buf c)[unat (cb_head c) := ch], cb_head := INC_POINTER c (cb_head c) 1\<rparr>, 1)"
    using True n b
    by (simp add: cbuf_write_loop.simps [of _ _ c] cbuf_write_loop.simps [of _ "Suc 0" _ "Suc 0"]
        Let_def write_chunk_def)
  with True show ?thesis by (simp add: cbuf_write_char_def cbuf_write_def Let_def)
qed

lemma cbuf_read_char_law:
  assumes "cbuf_inv c" "cbuf_read_char c = (c', r)"
  shows "cbuf_inv c' \<and> contents c' = tl (contents c) \<and>
     r = (case contents c of [] \<Rightarrow> None | b # _ \<Rightarrow> Some b)"
proof (cases "cb_tail c = cb_head c")
  case True
  then have "contents c = []" using assms by (simp add: contents_empty_iff cbuf_inv_ring)
  with True assms show ?thesis by (simp add: cbuf_read_char_def)
next
  case False
  have r: "ring_inv c" using assms by (simp add: cbuf_inv_ring)
  have n: "read_len c 1 = 1"
    using read_len_bounds [OF r False, of 1] by linarith
  then have fit: "unat (cb_tail c) + 1 \<le> 2 ^ unat (cb_len_pow2 c)" "1 \<le> cbuf_space_used c"
    using read_len_bounds [OF r False, of 1] by auto
  note pc = pop_chunk_used [OF r fit] pop_chunk_contents [OF r fit]
  obtain b bs where c: "contents c = b # bs"
    using fit(2) by (cases "contents c") (auto simp flip: length_contents)
  have "cb_buf c ! unat (cb_tail c) = b"
    using contents_nth [of 0 c] c fit(2) r by (simp add: ring_inv_def)
  with assms False pc c show ?thesis
    by (auto simp: cbuf_read_char_def cbuf_inv_ring Let_def pop_chunk_def drop_Suc split: if_splits)
qed

definition region :: "cbuf \<Rightarrow> nat option \<times> nat \<Rightarrow> u8 list" where
  "region c r = (case r of (None, n) \<Rightarrow> [] | (Some off, n) \<Rightarrow> take n (drop off (cb_buf c)))"

lemma cbuf_peek_law:
  assumes inv: "ring_inv c" and "cbuf_peek c = (ret, r0, r1)"
  shows "ret = length (contents c) \<and> region c r0 @ region c r1 = contents c"
proof -
  let ?N = "2 ^ unat (cb_len_pow2 c) :: nat"
  have sz: "cbuf_size c = ?N"
    using inv by (simp add: cbuf_size_def ring_inv_def unat_exp)
  have len: "length (cb_buf c) = ?N" "unat (cb_tail c) < ?N" using inv by (auto simp: ring_inv_def)
  show ?thesis
  proof (cases "cbuf_space_used c + unat (cb_tail c) > ?N")
    case True
    then have r: "ret = cbuf_space_used c" "r0 = (Some (unat (cb_tail c)), ?N - unat (cb_tail c))"
      "r1 = (Some 0, cbuf_space_used c - (?N - unat (cb_tail c)))"
      using assms(2) sz len by (auto simp: cbuf_peek_def Let_def split: if_splits)
    have "(region c r0 @ region c r1) ! i = contents c ! i" if i: "i < cbuf_space_used c" for i
    proof -
      have k: "i < ?N" using i used_less [OF inv] by simp
      have "i - (?N - unat (cb_tail c)) = unat (cb_tail c) + i - ?N" using len(2) by simp
      with i k True len r show ?thesis
        by (auto simp: region_def nth_append contents_nth tail_index [OF inv k])
    qed
    then have "region c r0 @ region c r1 = contents c"
      using True len r used_less [OF inv] by (intro nth_equalityI) (auto simp: region_def)
    with True assms sz show ?thesis by (auto simp: cbuf_peek_def Let_def)
  next
    case False
    then have "region c r0 @ region c r1 = contents c"
      using assms sz len used_less [OF inv]
      by (intro nth_equalityI)
        (auto simp: cbuf_peek_def Let_def region_def nth_append contents_nth tail_index [OF inv])
    with False assms sz show ?thesis by (auto simp: cbuf_peek_def Let_def)
  qed
qed

section \<open>Properties\<close>

text \<open>
  \<open>cbuf_write\<close> on a well-formed ring appends the longest prefix of the source that fits,
  returns its length, keeps the ring well formed (indices in range, event signalled exactly when
  data is present) and loses none of the bytes already queued, for every position of head and
  tail including the wrap-around.
\<close>

theorem cbuf_write_appends:
  assumes "cbuf_inv c" "length bs = len" "cbuf_write c (Some bs) len = (c', n)"
  shows "cbuf_inv c' \<and> n = min len (capacity c - length (contents c)) \<and>
     contents c' = contents c @ take n bs \<and> capacity c' = capacity c"
  using cb.qwrite_law assms by blast

theorem cbuf_write_appends_witness:
  "contents (fst (cbuf_write (cbuf_initialize_etc 4 [0, 0, 0, 0]) (Some [1, 2, 3, 4]) 4)) = [1, 2, 3]"
proof -
  have i: "cbuf_inv (cbuf_initialize_etc 4 [0, 0, 0, 0])"
    "contents (cbuf_initialize_etc 4 [0, 0, 0, 0]) = []"
    "capacity (cbuf_initialize_etc 4 [0, 0, 0, 0]) = 3"
    using cbuf_initialize_inv [of 2 "[0, 0, 0, 0]"] by simp_all
  obtain c' n where w: "cbuf_write (cbuf_initialize_etc 4 [0, 0, 0, 0]) (Some [1, 2, 3, 4]) 4 = (c', n)"
    by fastforce
  from cbuf_write_appends [OF i(1) _ w] have "n = 3" "contents c' = take n [1, 2, 3, 4]"
    using i by (simp_all del: length_contents)
  with w show ?thesis by simp
qed

text \<open>
  C35. \<open>cbuf_read\<close> always returns (the fuel is enough), hands out the oldest bytes in order and
  removes exactly those, keeping the ring well formed: a read after writes returns what was
  written, in the order it was written.
\<close>

theorem cbuf_read_removes_prefix:
  assumes "cbuf_inv c"
  shows "\<exists>c'. cbuf_read c k = Some (c', min k (length (contents c)), take k (contents c)) \<and>
     cbuf_inv c' \<and> contents c' = drop k (contents c)"
  using cb.qread_law [OF assms, of k] by blast

theorem cbuf_read_removes_prefix_witness:
  "\<exists>c'. cbuf_read (cbuf_initialize_etc 4 [7, 0, 0, 0] \<lparr>cb_head := 1, cb_event := True\<rparr>) 10 =
     Some (c', 1, [7]) \<and> contents c' = []"
proof -
  let ?c = "cbuf_initialize_etc 4 [7, 0, 0, 0] \<lparr>cb_head := 1, cb_event := True\<rparr>"
  have l: "cb_len_pow2 ?c = 2" using log2_uint_exp [of 2] by (simp add: cbuf_initialize_etc_def)
  have i: "cbuf_inv ?c" using l by (simp add: cbuf_inv_def) (simp add: cbuf_initialize_etc_def)
  have u: "cbuf_space_used ?c = 1"
    using i l by (simp add: used_eq cbuf_inv_ring) (simp add: cbuf_initialize_etc_def)
  then have "contents ?c = [7]"
    by (simp add: contents_def) (simp add: cbuf_initialize_etc_def)
  with cbuf_read_removes_prefix [OF i, of 10] show ?thesis by (auto simp del: length_contents)
qed

text \<open>
  The two regions \<open>cbuf_peek\<close> reports are, laid end to end, exactly the queued bytes, and
  its return value is their number: a reader that copies the regions sees the same bytes a
  \<open>cbuf_read\<close> would return.
\<close>

theorem cbuf_peek_regions:
  assumes "cbuf_inv c" "cbuf_peek c = (ret, r0, r1)"
  shows "ret = length (contents c) \<and> region c r0 @ region c r1 = contents c"
  using assms cbuf_peek_law by (simp add: cbuf_inv_ring del: length_contents)

theorem cbuf_peek_regions_witness:
  "cbuf_peek (cbuf_initialize_etc 4 [7, 8, 9, 6] \<lparr>cb_head := 1, cb_tail := 3, cb_event := True\<rparr>) =
     (2, (Some 3, 1), (Some 0, 1)) \<and>
   contents (cbuf_initialize_etc 4 [7, 8, 9, 6] \<lparr>cb_head := 1, cb_tail := 3, cb_event := True\<rparr>) = [6, 7]"
proof -
  let ?c = "cbuf_initialize_etc 4 [7, 8, 9, 6] \<lparr>cb_head := 1, cb_tail := 3, cb_event := True\<rparr>"
  have l: "cb_len_pow2 ?c = 2" using log2_uint_exp [of 2] by (simp add: cbuf_initialize_etc_def)
  have i: "cbuf_inv ?c" using l by (simp add: cbuf_inv_def) (simp add: cbuf_initialize_etc_def)
  have u: "cbuf_space_used ?c = 2"
    using i l by (simp add: used_eq cbuf_inv_ring)
  have p: "cbuf_peek ?c = (2, (Some 3, 1), (Some 0, 1))"
    using u l by (simp add: cbuf_peek_def cbuf_size_def)
  from cbuf_peek_regions [OF i p]
  have "region ?c (Some 3, 1) @ region ?c (Some 0, 1) = contents ?c" by simp
  with p show ?thesis by (simp add: region_def cbuf_initialize_etc_def)
qed

end
