(* ===== verification/Rbtree.thy ===== *)
theory Rbtree
  imports HV_Prelude
begin

text \<open>
  The red-black tree of \<^verbatim>\<open>hv/utils/rbtree.c\<close>, which holds the MMIO ranges of a virtual machine.
  A node is addressed by the path from it to the root: a path entry is the parent node with the
  subtree on the other side, so \<open>plug t p\<close> is the tree whose node at \<open>p\<close> is \<open>t\<close>, \<^verbatim>\<open>rb_parent\<close> is the
  first entry of the path and the parent pointers need no field of their own. A dereference of a
  NULL parent, sibling or child is \<open>None\<close>. The theorems: rebalancing after an insertion never
  dereferences NULL, keeps the order of the nodes, and restores the red-black balance.
\<close>

section \<open>Nodes and paths\<close>

datatype color = RB_RED | RB_BLACK

datatype 'a rb_tree = NULL | Node (rb_left: "'a rb_tree") (rb_col: color) (rb_val: 'a) (rb_right: "'a rb_tree")

text \<open>\<open>InLeft c v r\<close>: the hole is the left child of a node with colour \<open>c\<close>, entry \<open>v\<close>, right child \<open>r\<close>.\<close>

datatype 'a rb_link = InLeft color 'a "'a rb_tree" | InRight "'a rb_tree" color 'a

type_synonym 'a rb_path = "'a rb_link list"

fun plug1 :: "'a rb_tree \<Rightarrow> 'a rb_link \<Rightarrow> 'a rb_tree" where
  "plug1 t (InLeft c v r) = Node t c v r"
| "plug1 t (InRight l c v) = Node l c v t"

fun plug :: "'a rb_tree \<Rightarrow> 'a rb_path \<Rightarrow> 'a rb_tree" where
  "plug t [] = t"
| "plug t (k # p) = plug (plug1 t k) p"

fun link_color :: "'a rb_link \<Rightarrow> color" where
  "link_color (InLeft c v r) = c"
| "link_color (InRight l c v) = c"

fun rb_is_red :: "'a rb_tree \<Rightarrow> bool" where
  "rb_is_red NULL = False"
| "rb_is_red (Node l c v r) = (c = RB_RED)"

fun rb_set_color :: "color \<Rightarrow> 'a rb_tree \<Rightarrow> 'a rb_tree" where
  "rb_set_color c NULL = NULL"
| "rb_set_color c (Node l _ v r) = Node l c v r"

lemma color_not_red [simp]: "c \<noteq> RB_RED \<longleftrightarrow> c = RB_BLACK"
  by (cases c) auto

section \<open>Rotations\<close>

text \<open>The tree that the parent link points to after the rotation of \<^verbatim>\<open>node\<close>.\<close>

fun rb_rotate_left :: "'a rb_tree \<Rightarrow> 'a rb_tree option" where
  "rb_rotate_left (Node l c v (Node rl rc rv rr)) = Some (Node (Node l c v rl) rc rv rr)"
| "rb_rotate_left _ = None"

fun rb_rotate_right :: "'a rb_tree \<Rightarrow> 'a rb_tree option" where
  "rb_rotate_right (Node (Node ll lc lv lr) c v r) = Some (Node ll lc lv (Node lr c v r))"
| "rb_rotate_right _ = None"

section \<open>Insertion\<close>

text \<open>
  The loop of \<^verbatim>\<open>rb_insert_color\<close> for \<^verbatim>\<open>node\<close> \<open>t\<close> at path \<open>p\<close>. After the rotations the parent of
  \<^verbatim>\<open>node\<close> is black, so the loop test fails and the final recolouring of the root follows.
\<close>

fun rb_insert_color :: "'a rb_tree \<Rightarrow> 'a rb_path \<Rightarrow> 'a rb_tree option" where
  "rb_insert_color t [] = Some (rb_set_color RB_BLACK t)"
| "rb_insert_color t (par # p) =
     (if link_color par = RB_BLACK then Some (rb_set_color RB_BLACK (plug t (par # p)))
      else case p of
        [] \<Rightarrow> None
      | InLeft gc gv uncle # rest \<Rightarrow>
          (if rb_is_red uncle then
             rb_insert_color (Node (rb_set_color RB_BLACK (plug1 t par)) RB_RED gv (rb_set_color RB_BLACK uncle)) rest
           else
             do {
               parent \<leftarrow> (case par of InRight l c v \<Rightarrow> rb_rotate_left (plug1 t par)
                                    | InLeft c v r \<Rightarrow> Some (plug1 t par));
               g \<leftarrow> rb_rotate_right (Node (rb_set_color RB_BLACK parent) RB_RED gv uncle);
               Some (rb_set_color RB_BLACK (plug g rest))
             })
      | InRight uncle gc gv # rest \<Rightarrow>
          (if rb_is_red uncle then
             rb_insert_color (Node (rb_set_color RB_BLACK uncle) RB_RED gv (rb_set_color RB_BLACK (plug1 t par))) rest
           else
             do {
               parent \<leftarrow> (case par of InLeft c v r \<Rightarrow> rb_rotate_right (plug1 t par)
                                    | InRight l c v \<Rightarrow> Some (plug1 t par));
               g \<leftarrow> rb_rotate_left (Node uncle RB_RED gv (rb_set_color RB_BLACK parent));
               Some (rb_set_color RB_BLACK (plug g rest))
             }))"

text \<open>\<^verbatim>\<open>rb_link_node\<close> makes the new node red, childless, at the NULL link the caller found.\<close>

definition rb_link_node :: "'a \<Rightarrow> 'a rb_tree" where
  "rb_link_node v = Node NULL RB_RED v NULL"

section \<open>Iteration\<close>

text \<open>\<^verbatim>\<open>rb_first\<close>, \<^verbatim>\<open>rb_last\<close>: the walk down one side, returning the node as subtree and path.\<close>

fun leftmost :: "'a rb_tree \<Rightarrow> 'a rb_path \<Rightarrow> ('a rb_tree \<times> 'a rb_path) option" where
  "leftmost NULL p = None"
| "leftmost (Node NULL c v r) p = Some (Node NULL c v r, p)"
| "leftmost (Node l c v r) p = leftmost l (InLeft c v r # p)"

fun rightmost :: "'a rb_tree \<Rightarrow> 'a rb_path \<Rightarrow> ('a rb_tree \<times> 'a rb_path) option" where
  "rightmost NULL p = None"
| "rightmost (Node l c v NULL) p = Some (Node l c v NULL, p)"
| "rightmost (Node l c v r) p = rightmost r (InRight l c v # p)"

definition rb_first :: "'a rb_tree \<Rightarrow> ('a rb_tree \<times> 'a rb_path) option" where
  "rb_first root = leftmost root []"

definition rb_last :: "'a rb_tree \<Rightarrow> ('a rb_tree \<times> 'a rb_path) option" where
  "rb_last root = rightmost root []"

fun up_right :: "'a rb_tree \<Rightarrow> 'a rb_path \<Rightarrow> ('a rb_tree \<times> 'a rb_path) option" where
  "up_right t [] = None"
| "up_right t (InRight l c v # p) = up_right (plug1 t (InRight l c v)) p"
| "up_right t (InLeft c v r # p) = Some (plug1 t (InLeft c v r), p)"

fun up_left :: "'a rb_tree \<Rightarrow> 'a rb_path \<Rightarrow> ('a rb_tree \<times> 'a rb_path) option" where
  "up_left t [] = None"
| "up_left t (InLeft c v r # p) = up_left (plug1 t (InLeft c v r)) p"
| "up_left t (InRight l c v # p) = Some (plug1 t (InRight l c v), p)"

fun rb_next :: "'a rb_tree \<Rightarrow> 'a rb_path \<Rightarrow> ('a rb_tree \<times> 'a rb_path) option" where
  "rb_next NULL p = None"
| "rb_next (Node l c v r) p =
     (if r \<noteq> NULL then leftmost r (InRight l c v # p) else up_right (Node l c v r) p)"

fun rb_prev :: "'a rb_tree \<Rightarrow> 'a rb_path \<Rightarrow> ('a rb_tree \<times> 'a rb_path) option" where
  "rb_prev NULL p = None"
| "rb_prev (Node l c v r) p =
     (if l \<noteq> NULL then rightmost l (InLeft c v r # p) else up_left (Node l c v r) p)"

text \<open>\<^verbatim>\<open>rb_replace_node\<close> puts a new entry in the place of \<^verbatim>\<open>victim\<close>, links and colour copied.\<close>

fun rb_replace_node :: "'a rb_tree \<Rightarrow> 'a \<Rightarrow> 'a rb_path \<Rightarrow> 'a rb_tree option" where
  "rb_replace_node NULL new p = None"
| "rb_replace_node (Node l c victim r) new p = Some (plug (Node l c new r) p)"

section \<open>Order\<close>

fun inorder :: "'a rb_tree \<Rightarrow> 'a list" where
  "inorder NULL = []"
| "inorder (Node l c v r) = inorder l @ v # inorder r"

fun before :: "'a rb_path \<Rightarrow> 'a list" where
  "before [] = []"
| "before (InLeft c v r # p) = before p"
| "before (InRight l c v # p) = before p @ inorder l @ [v]"

fun after :: "'a rb_path \<Rightarrow> 'a list" where
  "after [] = []"
| "after (InLeft c v r # p) = v # inorder r @ after p"
| "after (InRight l c v # p) = after p"

lemma inorder_plug: "inorder (plug t p) = before p @ inorder t @ after p"
proof (induction p arbitrary: t)
  case (Cons k p)
  then show ?case by (cases k) auto
qed simp

lemma inorder_set_color [simp]: "inorder (rb_set_color c t) = inorder t"
  by (cases t) auto

lemma inorder_rotate_left: "rb_rotate_left t = Some t' \<Longrightarrow> inorder t' = inorder t"
  by (cases t rule: rb_rotate_left.cases) auto

lemma inorder_rotate_right: "rb_rotate_right t = Some t' \<Longrightarrow> inorder t' = inorder t"
  by (cases t rule: rb_rotate_right.cases) auto

lemma inorder_insert_color:
  "rb_insert_color t p = Some t' \<Longrightarrow> inorder t' = before p @ inorder t @ after p"
proof (induction t p rule: rb_insert_color.induct)
  case (2 t par p)
  show ?case
  proof (cases "link_color par = RB_BLACK")
    case True
    with 2(3) show ?thesis by (cases par) (auto simp: inorder_plug)
  next
    case False
    show ?thesis
    proof (cases p)
      case Nil
      with False 2(3) show ?thesis by simp
    next
      case (Cons g rest)
      with False 2 show ?thesis
        by (cases g; cases par)
          (auto simp: inorder_plug split: if_splits Option.bind_splits
            dest!: inorder_rotate_left inorder_rotate_right)
    qed
  qed
qed auto

section \<open>Balance\<close>

fun bheight :: "'a rb_tree \<Rightarrow> nat" where
  "bheight NULL = 0"
| "bheight (Node l c v r) = bheight l + (if c = RB_BLACK then 1 else 0)"

fun invh :: "'a rb_tree \<Rightarrow> bool" where
  "invh NULL = True"
| "invh (Node l c v r) = (bheight l = bheight r \<and> invh l \<and> invh r)"

fun invc :: "'a rb_tree \<Rightarrow> bool" where
  "invc NULL = True"
| "invc (Node l c v r) = ((c = RB_RED \<longrightarrow> \<not> rb_is_red l \<and> \<not> rb_is_red r) \<and> invc l \<and> invc r)"

definition rb_ok :: "'a rb_tree \<Rightarrow> bool" where
  "rb_ok t \<longleftrightarrow> invc t \<and> invh t \<and> \<not> rb_is_red t"

text \<open>A path whose hole may be filled with a black-rooted tree of black height \<open>h\<close>.\<close>

fun top_red :: "'a rb_path \<Rightarrow> bool" where
  "top_red [] = False"
| "top_red (k # p) = (link_color k = RB_RED)"

fun sibling :: "'a rb_link \<Rightarrow> 'a rb_tree" where
  "sibling (InLeft c v r) = r"
| "sibling (InRight l c v) = l"

fun path_ok :: "nat \<Rightarrow> 'a rb_path \<Rightarrow> bool" where
  "path_ok h [] = True"
| "path_ok h (k # p) =
     (invh (sibling k) \<and> bheight (sibling k) = h \<and> invc (sibling k) \<and>
      (link_color k = RB_RED \<longrightarrow> \<not> rb_is_red (sibling k) \<and> \<not> top_red p \<and> p \<noteq> []) \<and>
      path_ok (h + (if link_color k = RB_BLACK then 1 else 0)) p)"

lemma plug_ok:
  assumes "path_ok (bheight t) p" "invh t" "invc t" "rb_is_red t \<longrightarrow> p \<noteq> [] \<and> \<not> top_red p"
  shows "rb_ok (plug t p)"
  using assms
proof (induction p arbitrary: t)
  case (Cons k p)
  then show ?case by (cases k) (cases "link_color k"; simp)+
qed (auto simp: rb_ok_def)

lemma plug_decompose:
  assumes "rb_ok (plug t p)"
  shows "path_ok (bheight t) p \<and> invh t \<and> invc t \<and> (rb_is_red t \<longrightarrow> p \<noteq> [] \<and> \<not> top_red p)"
  using assms
proof (induction p arbitrary: t)
  case (Cons k p)
  then have "rb_ok (plug (plug1 t k) p)" by simp
  from Cons.IH [OF this] show ?case by (cases k) (cases "link_color k"; auto)+
qed (auto simp: rb_ok_def)

lemma set_black_ok:
  assumes "invc t" "invh t"
  shows "rb_ok (rb_set_color RB_BLACK t)"
  using assms by (cases t) (auto simp: rb_ok_def)

lemma rb_ok_set_black: "rb_ok t \<Longrightarrow> rb_set_color RB_BLACK t = t"
  by (cases t) (auto simp: rb_ok_def)

lemma insert_color_balanced:
  assumes "invh t" "invc t" "rb_is_red t" "path_ok (bheight t) p"
  shows "\<exists>t'. rb_insert_color t p = Some t' \<and> rb_ok t'"
  using assms
proof (induction t p rule: rb_insert_color.induct)
  case (1 t)
  then show ?case by (auto intro: set_black_ok)
next
  case (2 t par p)
  obtain nl nv nr where t: "t = Node nl RB_RED nv nr" using 2(5) by (cases t) auto
  show ?case
  proof (cases "link_color par = RB_BLACK")
    case True
    with 2 have "rb_ok (plug t (par # p))" by (intro plug_ok) auto
    with True show ?thesis by (simp add: rb_ok_set_black del: plug.simps)
  next
    case False
    then have red: "link_color par = RB_RED" by (cases "link_color par") auto
    with 2(6) obtain g rest where p: "p = g # rest" and gb: "link_color g = RB_BLACK"
      by (cases p) auto
    show ?thesis
    proof (cases "rb_is_red (sibling g)")
      case True
      then obtain ul uv ur where u: "sibling g = Node ul RB_RED uv ur" by (cases "sibling g") auto
      with True red p gb 2 t show ?thesis by (cases g; cases par) auto
    next
      case False
      have "\<exists>g'. rb_insert_color t (par # p) = Some (rb_set_color RB_BLACK (plug g' rest)) \<and>
          invh g' \<and> invc g' \<and> \<not> rb_is_red g' \<and> path_ok (bheight g') rest"
        using False red p gb 2(3,4,6) t
        by (cases g; cases par) (rule exI, rule conjI, simp, simp)+
      then obtain g' where g': "rb_insert_color t (par # p) = Some (rb_set_color RB_BLACK (plug g' rest))"
        "rb_ok (plug g' rest)" using plug_ok by blast
      then show ?thesis by (simp add: rb_ok_set_black del: rb_insert_color.simps)
    qed
  qed
qed

section \<open>The contract of an ordered index\<close>

text \<open>
  What a client that keeps its entries in order relies on: linking a new entry at an empty link
  and rebalancing gives a well-formed tree with the entry at that place of the order. The client
  chooses the place; \<open>link_sorted\<close> says that a place chosen right keeps the order.
\<close>

locale ordered_index =
  fixes rebalance :: "'a rb_tree \<Rightarrow> 'a rb_path \<Rightarrow> 'a rb_tree option"
    and ok :: "'a rb_tree \<Rightarrow> bool"
  assumes link_law: "ok (plug NULL p) \<Longrightarrow>
      \<exists>t. rebalance (rb_link_node x) p = Some t \<and> ok t \<and> inorder t = before p @ x # after p"
begin

lemma link_sorted:
  assumes "ok (plug NULL p)" "sorted_wrt R (inorder (plug NULL p))"
    and "\<forall>y\<in>set (before p). R y x" "\<forall>y\<in>set (after p). R x y"
  shows "\<exists>t. rebalance (rb_link_node x) p = Some t \<and> ok t \<and> sorted_wrt R (inorder t) \<and>
    set (inorder t) = insert x (set (inorder (plug NULL p)))"
proof -
  from link_law [OF assms(1)] obtain t where
    t: "rebalance (rb_link_node x) p = Some t" "ok t" "inorder t = before p @ x # after p" by blast
  with assms show ?thesis by (auto simp: inorder_plug sorted_wrt_append)
qed

end

interpretation rbt: ordered_index rb_insert_color rb_ok
proof (unfold_locales, goal_cases)
  case (1 p x)
  from plug_decompose [OF 1] have "path_ok (bheight (rb_link_node x)) p" by (simp add: rb_link_node_def)
  then obtain t where t: "rb_insert_color (rb_link_node x) p = Some t" "rb_ok t"
    using insert_color_balanced [of "rb_link_node x" p] by (auto simp: rb_link_node_def)
  with inorder_insert_color [OF t(1)] show ?case by (simp add: rb_link_node_def)
qed

section \<open>Iteration follows the order\<close>

lemma leftmost_order:
  "leftmost t p = Some (n, q) \<Longrightarrow> plug n q = plug t p \<and> before q = before p \<and>
     (\<exists>c v r. n = Node NULL c v r)"
  by (induction t p rule: leftmost.induct) auto

lemma rightmost_order:
  "rightmost t p = Some (n, q) \<Longrightarrow> plug n q = plug t p \<and> after q = after p \<and>
     (\<exists>l c v. n = Node l c v NULL)"
  by (induction t p rule: rightmost.induct) auto

lemma leftmost_some: "t \<noteq> NULL \<Longrightarrow> \<exists>n q. leftmost t p = Some (n, q)"
  by (induction t p rule: leftmost.induct) auto

lemma rightmost_some: "t \<noteq> NULL \<Longrightarrow> \<exists>n q. rightmost t p = Some (n, q)"
  by (induction t p rule: rightmost.induct) auto

lemma up_right_order:
  "up_right t p = Some (n, q) \<Longrightarrow> plug n q = plug t p \<and>
     (\<exists>l c v r. n = Node l c v r \<and> before p @ inorder t = before q @ inorder l \<and> after p = v # inorder r @ after q)"
  by (induction t p rule: up_right.induct) auto

lemma up_right_none: "up_right t p = None \<Longrightarrow> after p = []"
  by (induction t p rule: up_right.induct) auto

lemma up_left_order:
  "up_left t p = Some (n, q) \<Longrightarrow> plug n q = plug t p \<and>
     (\<exists>l c v r. n = Node l c v r \<and> inorder t @ after p = inorder r @ after q \<and> before p = before q @ inorder l @ [v])"
  by (induction t p rule: up_left.induct) auto

lemma up_left_none: "up_left t p = None \<Longrightarrow> before p = []"
  by (induction t p rule: up_left.induct) auto

text \<open>The entries before and after a node in the order of the whole tree.\<close>

definition entries_before :: "'a rb_tree \<Rightarrow> 'a rb_path \<Rightarrow> 'a list" where
  "entries_before n p = before p @ inorder (rb_left n)"

definition entries_after :: "'a rb_tree \<Rightarrow> 'a rb_path \<Rightarrow> 'a list" where
  "entries_after n p = inorder (rb_right n) @ after p"

lemma rb_next_order:
  "case rb_next (Node l c v r) p of
     None \<Rightarrow> entries_after (Node l c v r) p = []
   | Some (n, q) \<Rightarrow> plug n q = plug (Node l c v r) p \<and> n \<noteq> NULL \<and>
       entries_before n q = entries_before (Node l c v r) p @ [v] \<and>
       entries_after (Node l c v r) p = rb_val n # entries_after n q"
proof (cases "r = NULL")
  case True
  then show ?thesis
    by (auto simp: entries_before_def entries_after_def split: option.split
        dest: up_right_none dest!: up_right_order)
next
  case False
  then obtain n q where lm: "leftmost r (InRight l c v # p) = Some (n, q)" using leftmost_some by blast
  from leftmost_order [OF this] obtain c' v' r' where
    n: "plug n q = plug r (InRight l c v # p)" "before q = before p @ inorder l @ [v]" "n = Node NULL c' v' r'"
    by auto
  from arg_cong [OF n(1), of inorder] n have "inorder r @ after p = v' # inorder r' @ after q"
    by (simp add: inorder_plug)
  with False lm n show ?thesis by (simp add: entries_before_def entries_after_def)
qed

lemma rb_prev_order:
  "case rb_prev (Node l c v r) p of
     None \<Rightarrow> entries_before (Node l c v r) p = []
   | Some (n, q) \<Rightarrow> plug n q = plug (Node l c v r) p \<and> n \<noteq> NULL \<and>
       entries_after n q = v # entries_after (Node l c v r) p \<and>
       entries_before (Node l c v r) p = entries_before n q @ [rb_val n]"
proof (cases "l = NULL")
  case True
  then show ?thesis
    by (auto simp: entries_before_def entries_after_def split: option.split
        dest: up_left_none dest!: up_left_order)
next
  case False
  then obtain n q where rm: "rightmost l (InLeft c v r # p) = Some (n, q)" using rightmost_some by blast
  from rightmost_order [OF this] obtain l' c' v' where
    n: "plug n q = plug l (InLeft c v r # p)" "after q = v # inorder r @ after p" "n = Node l' c' v' NULL"
    by auto
  from arg_cong [OF n(1), of inorder] n have "before p @ inorder l = before q @ inorder l' @ [v']"
    by (simp add: inorder_plug)
  with False rm n show ?thesis by (simp add: entries_before_def entries_after_def)
qed

section \<open>Properties\<close>

text \<open>
  C27. Linking a new entry at an empty link of a well-formed red-black tree and calling
  \<^verbatim>\<open>rb_insert_color\<close> dereferences no NULL pointer and yields a tree that is again well formed
  (root black, no red node with a red child, equal black heights) and whose entries in order are
  those before the link, the new entry, those after the link.
\<close>

theorem rb_insert_color_correct:
  assumes "rb_ok (plug NULL p)"
  shows "\<exists>t. rb_insert_color (rb_link_node x) p = Some t \<and> rb_ok t \<and>
    inorder t = before p @ x # after p"
  by (rule rbt.link_law) (rule assms)

theorem rb_insert_color_correct_witness:
  "\<exists>t. rb_insert_color (rb_link_node (2::nat)) [InRight NULL RB_RED 1, InLeft RB_BLACK 3 NULL] = Some t \<and>
     rb_ok t \<and> inorder t = [1, 2, 3]"
  using rb_insert_color_correct [of "[InRight NULL RB_RED 1, InLeft RB_BLACK (3::nat) NULL]" 2]
  by (simp add: rb_ok_def)

text \<open>
  \<^verbatim>\<open>rb_next\<close> visits the entries in order: it stays in the same tree, the entry it moves to is
  the first one after the current node, and it returns NULL exactly when there is none.
\<close>

theorem rb_next_in_order:
  "case rb_next (Node l c v r) p of
     None \<Rightarrow> entries_after (Node l c v r) p = []
   | Some (n, q) \<Rightarrow> plug n q = plug (Node l c v r) p \<and> n \<noteq> NULL \<and>
       entries_before n q = entries_before (Node l c v r) p @ [v] \<and>
       entries_after (Node l c v r) p = rb_val n # entries_after n q"
  by (rule rb_next_order)

end
