(* ===== verification/Rb_Erase.thy ===== *)
theory Rb_Erase
  imports Rbtree
begin

text \<open>
  Removal from the red-black tree of \<^verbatim>\<open>hv/utils/rbtree.c\<close>: \<^verbatim>\<open>rb_erase\<close> takes a node out, with its successor in its place when it
  has two children, and \<^verbatim>\<open>__rb_erase_color\<close> repairs the tree when a black node is gone. The theorem: no NULL pointer is dereferenced,
  exactly the entry of the node leaves the order, and the tree is balanced again.
\<close>

section \<open>The code\<close>

text \<open>
  The loop of \<^verbatim>\<open>__rb_erase_color\<close> for \<^verbatim>\<open>node\<close> \<open>t\<close> at path \<open>p\<close>. A red sibling is first rotated above the parent. After the last rotation the
  loop is left with \<^verbatim>\<open>node\<close> as the root, which is made black.
\<close>

function rb_erase_color :: "'a rb_tree \<Rightarrow> 'a rb_path \<Rightarrow> 'a rb_tree option" where
  "rb_erase_color t p =
     (if rb_is_red t then Some (plug (rb_set_color RB_BLACK t) p)
      else case p of
        [] \<Rightarrow> Some (rb_set_color RB_BLACK t)
      | InLeft pc pv other # rest \<Rightarrow>
          (case (if rb_is_red other
                 then (RB_RED, rb_left other, InLeft RB_BLACK (rb_val other) (rb_right other) # rest)
                 else (pc, other, rest)) of
             (pc, NULL, rest) \<Rightarrow> None
           | (pc, Node ol oc ov orr, rest) \<Rightarrow>
               if \<not> rb_is_red ol \<and> \<not> rb_is_red orr
               then rb_erase_color (Node t pc pv (Node ol RB_RED ov orr)) rest
               else
                 do {
                   other \<leftarrow> (if \<not> rb_is_red orr then rb_rotate_right (Node (rb_set_color RB_BLACK ol) RB_RED ov orr)
                             else Some (Node ol oc ov orr));
                   top \<leftarrow> rb_rotate_left (Node t RB_BLACK pv
                            (Node (rb_left other) pc (rb_val other) (rb_set_color RB_BLACK (rb_right other))));
                   Some (rb_set_color RB_BLACK (plug top rest))
                 })
      | InRight other pc pv # rest \<Rightarrow>
          (case (if rb_is_red other
                 then (RB_RED, rb_right other, InRight (rb_left other) RB_BLACK (rb_val other) # rest)
                 else (pc, other, rest)) of
             (pc, NULL, rest) \<Rightarrow> None
           | (pc, Node ol oc ov orr, rest) \<Rightarrow>
               if \<not> rb_is_red ol \<and> \<not> rb_is_red orr
               then rb_erase_color (Node (Node ol RB_RED ov orr) pc pv t) rest
               else
                 do {
                   other \<leftarrow> (if \<not> rb_is_red ol then rb_rotate_left (Node ol RB_RED ov (rb_set_color RB_BLACK orr))
                             else Some (Node ol oc ov orr));
                   top \<leftarrow> rb_rotate_right (Node
                            (Node (rb_set_color RB_BLACK (rb_left other)) pc (rb_val other) (rb_right other)) RB_BLACK pv t);
                   Some (rb_set_color RB_BLACK (plug top rest))
                 }))"
  by pat_completeness auto
termination
  by (relation "measure (\<lambda>(t, p). 2 * length p + (if rb_is_red t then 0 else 1))") (auto split: if_splits)

declare rb_erase_color.simps [simp del]

definition rb_unlink :: "'a rb_tree \<Rightarrow> color \<Rightarrow> 'a rb_path \<Rightarrow> 'a rb_tree option" where
  "rb_unlink child c p = (if c = RB_BLACK then rb_erase_color child p else Some (plug child p))"

text \<open>The successor takes over the left child, the colour and the place of the node.\<close>

fun rb_erase :: "'a rb_tree \<Rightarrow> 'a rb_path \<Rightarrow> 'a rb_tree option" where
  "rb_erase NULL p = None"
| "rb_erase (Node l c v r) p =
     (if l = NULL then rb_unlink r c p
      else if r = NULL then rb_unlink l c p
      else (case leftmost r [] of
              None \<Rightarrow> None
            | Some (n, q) \<Rightarrow> rb_unlink (rb_right n) (rb_col n) (q @ InRight l c (rb_val n) # p)))"

section \<open>Augmented trees\<close>

text \<open>
  The hooks for trees whose nodes hold data computed from their children. The callback, which a user supplies, is a function that gives the new
  entry of a node; NULL is no node to call it on.
\<close>

type_synonym 'a rb_augment_f = "'a rb_tree \<Rightarrow> 'a \<Rightarrow> 'a rb_tree \<Rightarrow> 'a"

fun rb_augment_call :: "'a rb_augment_f \<Rightarrow> 'a rb_tree \<Rightarrow> 'a rb_tree" where
  "rb_augment_call f NULL = NULL"
| "rb_augment_call f (Node l c v r) = Node l c (f l v r) r"

fun rb_augment_path :: "'a rb_augment_f \<Rightarrow> 'a rb_tree \<Rightarrow> 'a rb_path \<Rightarrow> 'a rb_tree" where
  "rb_augment_path f t [] = rb_augment_call f t"
| "rb_augment_path f t (InLeft c v r # p) =
     (let t = rb_augment_call f t
      in rb_augment_path f (if r \<noteq> NULL then Node t c v (rb_augment_call f r) else Node (rb_augment_call f t) c v r) p)"
| "rb_augment_path f t (InRight l c v # p) =
     (let t = rb_augment_call f t in rb_augment_path f (Node (rb_augment_call f l) c v t) p)"

fun rb_augment_insert :: "'a rb_augment_f \<Rightarrow> 'a rb_tree \<Rightarrow> 'a rb_path \<Rightarrow> 'a rb_tree option" where
  "rb_augment_insert f NULL p = None"
| "rb_augment_insert f (Node l c v r) p =
     Some (if l \<noteq> NULL then rb_augment_path f l (InLeft c v r # p)
           else if r \<noteq> NULL then rb_augment_path f r (InRight l c v # p)
           else rb_augment_path f (Node l c v r) p)"

text \<open>The parent as a node with its path, and \<open>None\<close> for the parent of the root.\<close>

definition rb_up :: "'a rb_tree \<Rightarrow> 'a rb_path \<Rightarrow> ('a rb_tree \<times> 'a rb_path) option" where
  "rb_up t p = (case p of [] \<Rightarrow> None | k # p \<Rightarrow> Some (plug1 t k, p))"

definition rb_augment_erase_begin :: "'a rb_tree \<Rightarrow> 'a rb_path \<Rightarrow> ('a rb_tree \<times> 'a rb_path) option" where
  "rb_augment_erase_begin t p =
     (case t of
        NULL \<Rightarrow> None
      | Node l c v r \<Rightarrow>
          if r = NULL \<and> l = NULL then rb_up t p
          else if r = NULL then Some (l, InLeft c v r # p)
          else if l = NULL then Some (r, InRight l c v # p)
          else (case rb_next t p of
                  None \<Rightarrow> None
                | Some (deepest, q) \<Rightarrow>
                    if rb_right deepest \<noteq> NULL
                    then Some (rb_right deepest, InRight (rb_left deepest) (rb_col deepest) (rb_val deepest) # q)
                    else if length q \<noteq> length p + 1 then rb_up deepest q
                    else Some (deepest, q)))"

definition rb_augment_erase_end :: "'a rb_augment_f \<Rightarrow> 'a rb_tree \<Rightarrow> ('a rb_tree \<times> 'a rb_path) option \<Rightarrow> 'a rb_tree" where
  "rb_augment_erase_end f root node = (case node of None \<Rightarrow> root | Some (t, p) \<Rightarrow> rb_augment_path f t p)"

section \<open>Repair\<close>

lemma erase_color_red: "rb_is_red t \<Longrightarrow> rb_erase_color t p = Some (plug (rb_set_color RB_BLACK t) p)"
  by (simp add: rb_erase_color.simps)

lemma erase_color_root: "rb_erase_color t [] = Some (rb_set_color RB_BLACK t)"
  by (simp add: rb_erase_color.simps)

text \<open>The subtree at the end of the path is one black node short.\<close>

definition short :: "'a rb_tree \<Rightarrow> 'a rb_path \<Rightarrow> bool" where
  "short t p \<longleftrightarrow> invh t \<and> invc (rb_set_color RB_BLACK t) \<and> path_ok (bheight t + 1) p"

lemma short_red: "short t p \<Longrightarrow> rb_is_red t \<Longrightarrow> rb_ok (plug (rb_set_color RB_BLACK t) p)"
  by (rule plug_ok; cases t) (auto simp: short_def)

lemma finish: "rb_ok (plug tp rest) \<Longrightarrow> rb_ok (rb_set_color RB_BLACK (plug tp rest))"
  by (simp add: rb_ok_set_black)
definition repaired :: "'a rb_tree \<Rightarrow> 'a rb_path \<Rightarrow> bool" where
  "repaired t p \<longleftrightarrow> (\<exists>t'. rb_erase_color t p = Some t' \<and> rb_ok t' \<and> inorder t' = before p @ inorder t @ after p)"

lemma repaired_red: "short t p \<Longrightarrow> rb_is_red t \<Longrightarrow> repaired t p"
  using short_red by (auto simp: repaired_def erase_color_red inorder_plug)

lemma repaired_top:
  "rb_erase_color t (k # p) = Some (rb_set_color RB_BLACK (plug tp p)) \<Longrightarrow> path_ok (bheight tp) p \<Longrightarrow> invh tp \<Longrightarrow> invc tp \<Longrightarrow>
    (rb_is_red tp \<longrightarrow> p \<noteq> [] \<and> \<not> top_red p) \<Longrightarrow> inorder tp = inorder (plug1 t k) \<Longrightarrow> repaired t (k # p)"
  using finish [OF plug_ok [of tp p]] by (cases k) (auto simp: repaired_def inorder_plug)

lemma left_black:
  assumes "short t (InLeft pc pv (Node ol RB_BLACK ov orr) # rest)" "\<not> rb_is_red t"
    and IH: "short (Node t pc pv (Node ol RB_RED ov orr)) rest \<Longrightarrow> repaired (Node t pc pv (Node ol RB_RED ov orr)) rest"
  shows "repaired t (InLeft pc pv (Node ol RB_BLACK ov orr) # rest)"
proof (cases "rb_is_red ol \<or> rb_is_red orr")
  case False
  then have "rb_erase_color t (InLeft pc pv (Node ol RB_BLACK ov orr) # rest) = rb_erase_color (Node t pc pv (Node ol RB_RED ov orr)) rest"
    using assms(2) by (subst rb_erase_color.simps) simp
  moreover have "short (Node t pc pv (Node ol RB_RED ov orr)) rest"
    using assms(1,2) False by (cases t) (auto simp: short_def)
  ultimately show ?thesis using IH by (simp add: repaired_def)
next
  case True
  have t: "invh t" "invc t" "bheight ol = bheight t" "bheight orr = bheight t" using assms(1,2) by (cases t; auto simp: short_def)+
  show ?thesis
  proof (cases "rb_is_red orr")
    case red: True
    then obtain a b c where orr: "orr = Node a RB_RED b c" by (cases orr) auto
    have "rb_erase_color t (InLeft pc pv (Node ol RB_BLACK ov orr) # rest) =
        Some (rb_set_color RB_BLACK (plug (Node (Node t RB_BLACK pv ol) pc ov (Node a RB_BLACK b c)) rest))"
      unfolding orr using assms(2) by (subst rb_erase_color.simps) simp
    then show ?thesis by (rule repaired_top) (use assms(1,2) t orr in \<open>auto simp: short_def\<close>)
  next
    case False
    with True obtain a b c where ol: "ol = Node a RB_RED b c" by (cases ol) auto
    have "rb_erase_color t (InLeft pc pv (Node ol RB_BLACK ov orr) # rest) =
        Some (rb_set_color RB_BLACK (plug (Node (Node t RB_BLACK pv a) pc b (Node c RB_BLACK ov orr)) rest))"
      unfolding ol using assms(2) False by (subst rb_erase_color.simps) simp
    then show ?thesis by (rule repaired_top) (use assms(1,2) t ol in \<open>auto simp: short_def\<close>)
  qed
qed

lemma right_black:
  assumes "short t (InRight (Node ol RB_BLACK ov orr) pc pv # rest)" "\<not> rb_is_red t"
    and IH: "short (Node (Node ol RB_RED ov orr) pc pv t) rest \<Longrightarrow> repaired (Node (Node ol RB_RED ov orr) pc pv t) rest"
  shows "repaired t (InRight (Node ol RB_BLACK ov orr) pc pv # rest)"
proof (cases "rb_is_red ol \<or> rb_is_red orr")
  case False
  then have "rb_erase_color t (InRight (Node ol RB_BLACK ov orr) pc pv # rest) = rb_erase_color (Node (Node ol RB_RED ov orr) pc pv t) rest"
    using assms(2) by (subst rb_erase_color.simps) simp
  moreover have "short (Node (Node ol RB_RED ov orr) pc pv t) rest"
    using assms(1,2) False by (cases t) (auto simp: short_def)
  ultimately show ?thesis using IH by (simp add: repaired_def)
next
  case True
  have t: "invh t" "invc t" "bheight ol = bheight t" "bheight orr = bheight t" using assms(1,2) by (cases t; auto simp: short_def)+
  show ?thesis
  proof (cases "rb_is_red ol")
    case red: True
    then obtain a b c where ol: "ol = Node a RB_RED b c" by (cases ol) auto
    have "rb_erase_color t (InRight (Node ol RB_BLACK ov orr) pc pv # rest) =
        Some (rb_set_color RB_BLACK (plug (Node (Node a RB_BLACK b c) pc ov (Node orr RB_BLACK pv t)) rest))"
      unfolding ol using assms(2) by (subst rb_erase_color.simps) simp
    then show ?thesis by (rule repaired_top) (use assms(1,2) t ol in \<open>auto simp: short_def\<close>)
  next
    case False
    with True obtain a b c where orr: "orr = Node a RB_RED b c" by (cases orr) auto
    have "rb_erase_color t (InRight (Node ol RB_BLACK ov orr) pc pv # rest) =
        Some (rb_set_color RB_BLACK (plug (Node (Node ol RB_BLACK ov a) pc b (Node c RB_BLACK pv t)) rest))"
      unfolding orr using assms(2) False by (subst rb_erase_color.simps) simp
    then show ?thesis by (rule repaired_top) (use assms(1,2) t orr in \<open>auto simp: short_def\<close>)
  qed
qed

text \<open>A red sibling comes above the parent, which turns red; the case of a black sibling follows.\<close>

lemma left_red:
  assumes "short t (InLeft pc pv (Node ol RB_RED ov orr) # rest)" "\<not> rb_is_red t"
  shows "repaired t (InLeft pc pv (Node ol RB_RED ov orr) # rest)"
proof -
  from assms(1) obtain a b c where ol: "ol = Node a RB_BLACK b c" by (cases ol) (auto simp: short_def)
  have eq: "rb_erase_color t (InLeft pc pv (Node ol RB_RED ov orr) # rest) = rb_erase_color t (InLeft RB_RED pv ol # InLeft RB_BLACK ov orr # rest)"
    unfolding ol using assms(2) by (subst (1 2) rb_erase_color.simps) simp
  have s: "short t (InLeft RB_RED pv ol # InLeft RB_BLACK ov orr # rest)" using assms(1) ol by (auto simp: short_def)
  have "repaired t (InLeft RB_RED pv ol # InLeft RB_BLACK ov orr # rest)"
    using left_black [OF s [unfolded ol] assms(2) repaired_red] unfolding ol by simp
  then show ?thesis unfolding repaired_def eq by simp
qed

lemma right_red:
  assumes "short t (InRight (Node ol RB_RED ov orr) pc pv # rest)" "\<not> rb_is_red t"
  shows "repaired t (InRight (Node ol RB_RED ov orr) pc pv # rest)"
proof -
  from assms(1) obtain a b c where orr: "orr = Node a RB_BLACK b c" by (cases orr) (auto simp: short_def)
  have eq: "rb_erase_color t (InRight (Node ol RB_RED ov orr) pc pv # rest) = rb_erase_color t (InRight orr RB_RED pv # InRight ol RB_BLACK ov # rest)"
    unfolding orr using assms(2) by (subst (1 2) rb_erase_color.simps) simp
  have s: "short t (InRight orr RB_RED pv # InRight ol RB_BLACK ov # rest)" using assms(1) orr by (auto simp: short_def)
  have "repaired t (InRight orr RB_RED pv # InRight ol RB_BLACK ov # rest)"
    using right_black [OF s [unfolded orr] assms(2) repaired_red] unfolding orr by simp
  then show ?thesis unfolding repaired_def eq by simp
qed

lemma erase_color_repairs: "short t p \<Longrightarrow> repaired t p"
proof (induction p arbitrary: t)
  case Nil
  then show ?case using set_black_ok [of "rb_set_color RB_BLACK t"]
    by (cases t) (auto simp: repaired_def erase_color_root short_def)
next
  case (Cons k p)
  show ?case
  proof (cases "rb_is_red t")
    case True
    then show ?thesis using Cons.prems repaired_red by blast
  next
    case False
    show ?thesis
    proof (cases k)
      case (InLeft pc pv other)
      with Cons.prems obtain ol oc ov orr where "other = Node ol oc ov orr" by (cases other) (auto simp: short_def)
      then show ?thesis using Cons.prems False InLeft left_black [OF _ _ Cons.IH] left_red by (cases oc) auto
    next
      case (InRight other pc pv)
      with Cons.prems obtain ol oc ov orr where "other = Node ol oc ov orr" by (cases other) (auto simp: short_def)
      then show ?thesis using Cons.prems False InRight right_black [OF _ _ Cons.IH] right_red by (cases oc) auto
    qed
  qed
qed

section \<open>Removal\<close>

lemma plug_append: "plug t (q @ p) = plug (plug t q) p"
  by (induction q arbitrary: t) auto

lemma before_append: "before (q @ p) = before p @ before q" and after_append: "after (q @ p) = after q @ after p"
proof -
  show "before (q @ p) = before p @ before q"
  proof (induction q)
    case (Cons k q)
    then show ?case by (cases k) auto
  qed simp
  show "after (q @ p) = after q @ after p"
  proof (induction q)
    case (Cons k q)
    then show ?case by (cases k) auto
  qed simp
qed

text \<open>The balance of a path does not depend on its entries.\<close>

lemma path_ok_entry: "path_ok h (q @ InRight l c v # p) = path_ok h (q @ InRight l c w # p)"
proof (induction q arbitrary: h)
  case (Cons k q)
  have "top_red (q @ InRight l c v # p) = top_red (q @ InRight l c w # p)" by (cases q) auto
  with Cons show ?case by (simp add: append_eq_Cons_conv)
qed simp

lemma unlink_ok:
  assumes "path_ok (bheight (Node l c v r)) p" "invh (Node l c v r)" "invc (Node l c v r)" "c = RB_RED \<longrightarrow> p \<noteq> [] \<and> \<not> top_red p"
    and "l = NULL \<and> child = r \<or> r = NULL \<and> child = l"
  shows "\<exists>t. rb_unlink child c p = Some t \<and> rb_ok t \<and> inorder t = before p @ inorder child @ after p"
proof (cases c)
  case RB_RED
  then have "rb_ok (plug child p)" using assms by (intro plug_ok) auto
  then show ?thesis using RB_RED by (simp add: rb_unlink_def inorder_plug)
next
  case RB_BLACK
  then have "short child p" using assms by (cases child) (auto simp: short_def)
  then show ?thesis using erase_color_repairs RB_BLACK by (fastforce simp: rb_unlink_def repaired_def)
qed

text \<open>
  C28. Removing a node from a well-formed red-black tree dereferences no NULL pointer and yields a well-formed tree with the same
  entries in the same order, less the entry of the node.
\<close>

theorem rb_erase_correct:
  assumes "rb_ok (plug (Node l c v r) p)"
  shows "\<exists>t. rb_erase (Node l c v r) p = Some t \<and> rb_ok t \<and> inorder t = before p @ inorder l @ inorder r @ after p"
proof (cases "l = NULL \<or> r = NULL")
  case True
  have "path_ok (bheight (Node l c v r)) p" "invh (Node l c v r)" "invc (Node l c v r)" "c = RB_RED \<longrightarrow> p \<noteq> [] \<and> \<not> top_red p"
    using plug_decompose [OF assms] by auto
  note u = unlink_ok [OF this]
  from True show ?thesis using u [of r] u [of l] by auto
next
  case False
  obtain n q where n: "leftmost r [] = Some (n, q)" using leftmost_some False by blast
  obtain c' v' r' where o: "n = Node NULL c' v' r'" "plug n q = r" "before q = []" using leftmost_order [OF n] by auto
  let ?p = "q @ InRight l c v # p" and ?p' = "q @ InRight l c v' # p"
  have "rb_ok (plug n ?p)" using assms o(2) by (simp add: plug_append)
  from plug_decompose [OF this] have d: "path_ok (bheight n) ?p'" "invh n" "invc n" "c' = RB_RED \<longrightarrow> ?p' \<noteq> [] \<and> \<not> top_red ?p'"
    unfolding path_ok_entry [of _ _ _ _ v _ v'] o(1) by (cases q; auto)+
  from unlink_ok [OF d(1-3) [unfolded o(1)] d(4), of r'] obtain t where
    t: "rb_unlink r' c' ?p' = Some t" "rb_ok t" "inorder t = before ?p' @ inorder r' @ after ?p'" by auto
  have "inorder r = v' # inorder r' @ after q" using arg_cong [OF o(2), of inorder] o(1,3) by (simp add: inorder_plug)
  then have "inorder t = before p @ inorder l @ inorder r @ after p" using t(3) o(3) by (simp add: before_append after_append)
  then show ?thesis using False n o(1) t(1,2) by simp
qed

theorem rb_erase_witness:
  "\<exists>t. rb_erase (Node (Node NULL RB_RED 1 NULL) RB_BLACK 2 (Node NULL RB_RED (3 :: nat) NULL)) [] = Some t \<and> rb_ok t \<and> inorder t = [1, 3]"
  using rb_erase_correct [of "Node NULL RB_RED 1 NULL" RB_BLACK "2 :: nat" "Node NULL RB_RED 3 NULL" "[]"] by (simp add: rb_ok_def)

text \<open>The hooks change entries only: the shape and the colours of the tree stay.\<close>

lemma shape_plug: "map_rb_tree g (plug t p) = plug (map_rb_tree g t) (map (map_rb_link g) p)"
proof (induction p arbitrary: t)
  case (Cons k p)
  then show ?case by (cases k) auto
qed simp

lemma shape_call: "map_rb_tree (\<lambda>_. ()) (rb_augment_call f t) = map_rb_tree (\<lambda>_. ()) t"
  by (cases t) auto

lemma rb_augment_path_shape: "map_rb_tree (\<lambda>_. ()) (rb_augment_path f t p) = map_rb_tree (\<lambda>_. ()) (plug t p)"
  by (induction f t p rule: rb_augment_path.induct) (simp_all add: shape_call shape_plug Let_def)

lemma rb_ok_shape: "rb_ok (map_rb_tree g t) = rb_ok t"
proof -
  have "bheight (map_rb_tree g t) = bheight t" "rb_is_red (map_rb_tree g t) = rb_is_red t" for t by (induction t) auto
  then have "invh (map_rb_tree g t) = invh t" "invc (map_rb_tree g t) = invc t" by (induction t) auto
  then show ?thesis using \<open>rb_is_red (map_rb_tree g t) = rb_is_red t\<close> by (simp add: rb_ok_def)
qed

lemma rb_augment_path_ok: "rb_ok (rb_augment_path f t p) \<longleftrightarrow> rb_ok (plug t p)"
  using arg_cong [OF rb_augment_path_shape [of f t p], of rb_ok] by (simp add: rb_ok_shape)

end
