(* ===== verification/Mmio.thy ===== *)
theory Mmio
  imports Rbtree
begin

text \<open>
  The MMIO space of a virtual machine (\<^verbatim>\<open>hv/hv_mmio.c\<close>): address ranges with their handlers in a
  red-black tree ordered by address, registration, lookup, and the completion of a trapped access.
  Addresses and lengths are 64-bit and their sums wrap, as in the code; the theorems on lookup
  assume of the registered ranges what \<open>item_ok\<close> says, that they are not empty and do not wrap.
\<close>

section \<open>Ranges and their tree\<close>

record 'm mmio_item =
  mmio_start :: paddr
  mmio_len :: u64
  mops :: 'm
  mmio_arg :: ptr

type_synonym 'm mmio_space = "'m mmio_item rb_tree"

definition hv_vm_mmio_init :: "'m mmio_space" where
  "hv_vm_mmio_init = NULL"

definition mmio_end :: "'m mmio_item \<Rightarrow> paddr" where
  "mmio_end it = mmio_start it + mmio_len it"

text \<open>The search for the empty link (lines 72 to 88); \<open>None\<close> is \<^verbatim>\<open>goto failed\<close>.\<close>

fun register_link :: "paddr \<Rightarrow> paddr \<Rightarrow> 'm mmio_space \<Rightarrow> 'm mmio_item rb_path \<Rightarrow> 'm mmio_item rb_path option" where
  "register_link addr end1 NULL p = Some p"
| "register_link addr end1 (Node l c it r) p =
     (if end1 \<le> mmio_start it then register_link addr end1 l (InLeft c it r # p)
      else if addr \<ge> mmio_end it then register_link addr end1 r (InRight l c it # p)
      else None)"

text \<open>
  \<open>mem\<close> says whether \<^verbatim>\<open>malloc\<close> returned a block. The outer \<open>None\<close> is a NULL dereference in the
  tree code, which the theorems exclude.
\<close>

definition hv_mmio_register ::
    "bool \<Rightarrow> 'm mmio_space \<Rightarrow> paddr \<Rightarrow> u64 \<Rightarrow> 'm \<Rightarrow> ptr \<Rightarrow> ('m mmio_space \<times> int) option" where
  "hv_mmio_register mem m_space addr len ops args =
     (if \<not> mem then Some (m_space, ERR_NO_MEMORY)
      else
        let mmio_new = \<lparr>mmio_start = addr, mmio_len = len, mops = ops, mmio_arg = args\<rparr> in
        case register_link addr (addr + len) m_space [] of
          None \<Rightarrow> Some (m_space, ERR_ALREADY_EXISTS)
        | Some link \<Rightarrow>
            map_option (\<lambda>t. (t, 0)) (rb_insert_color (rb_link_node mmio_new) link))"

fun find_walk :: "paddr \<Rightarrow> paddr \<Rightarrow> 'm mmio_space \<Rightarrow> 'm mmio_item option" where
  "find_walk addr end1 NULL = None"
| "find_walk addr end1 (Node l c it r) =
     (if end1 \<le> mmio_start it then find_walk addr end1 l
      else if addr \<ge> mmio_end it then find_walk addr end1 r
      else if addr \<ge> mmio_start it \<and> end1 \<le> mmio_end it then Some it
      else None)"

definition mmio_space_find :: "'m mmio_space \<Rightarrow> paddr \<Rightarrow> int \<Rightarrow> 'm mmio_item option" where
  "mmio_space_find m_space addr len = find_walk addr (addr + of_int len) m_space"

section \<open>Completion of an access\<close>

text \<open>
  The extension of the value read (lines 169 to 174). \<^verbatim>\<open>1 << (size_bit - 1)\<close> is an \<^verbatim>\<open>int\<close>, so the
  mask is sign extended to 64 bits; a shift by 32 or more is undefined and gives \<open>None\<close>.
\<close>

definition mmio_extend :: "int \<Rightarrow> bool \<Rightarrow> u64 \<Rightarrow> u64 option" where
  "mmio_extend len is_signed ret_data =
     (let size_bit = nat (len * 8) in
      if \<not> is_signed then Some ret_data
      else if size_bit = 0 \<or> size_bit > 32 then None
      else if (scast (push_bit (size_bit - 1) 1 :: u32) :: u64) AND ret_data \<noteq> 0
           then Some (ret_data OR push_bit size_bit (NOT 0))
      else Some ret_data)"

text \<open>
  \<^verbatim>\<open>hv_mmio_handler\<close> over the state \<open>'s\<close> of the system: \<open>rd\<close> and \<open>wr\<close> are the handlers that
  \<^verbatim>\<open>mops\<close> points to, \<open>stack\<close> is what the uninitialised \<^verbatim>\<open>ret_data\<close> holds. A read also returns the
  value stored through \<^verbatim>\<open>dest\<close>; an access outside every range changes nothing and returns 0.
\<close>

definition hv_mmio_handler ::
    "('s \<Rightarrow> 'm \<Rightarrow> paddr \<Rightarrow> int \<Rightarrow> ptr \<Rightarrow> u64 \<Rightarrow> 's \<times> int \<times> u64) \<Rightarrow>
     ('s \<Rightarrow> 'm \<Rightarrow> paddr \<Rightarrow> int \<Rightarrow> ptr \<Rightarrow> u64 \<Rightarrow> 's \<times> int) \<Rightarrow>
     'm mmio_space \<Rightarrow> u64 \<Rightarrow> 's \<Rightarrow> paddr \<Rightarrow> int \<Rightarrow> bool \<Rightarrow> u64 \<Rightarrow> bool \<Rightarrow> ('s \<times> int \<times> u64 option) option" where
  "hv_mmio_handler rd wr m_space stack s addr len is_write data is_signed =
     (case mmio_space_find m_space addr len of
        None \<Rightarrow> Some (s, 0, None)
      | Some mmio \<Rightarrow>
          if is_write then
            (case wr s (mops mmio) addr len (mmio_arg mmio) data of (s', ret) \<Rightarrow> Some (s', ret, None))
          else
            (case rd s (mops mmio) addr len (mmio_arg mmio) stack of (s', ret, ret_data) \<Rightarrow>
               map_option (\<lambda>v. (s', ret, Some v)) (mmio_extend len is_signed ret_data)))"

section \<open>Well-formed spaces\<close>

definition item_ok :: "'m mmio_item \<Rightarrow> bool" where
  "item_ok it \<longleftrightarrow> mmio_len it \<noteq> 0 \<and> unat (mmio_start it) + unat (mmio_len it) < 2 ^ 64"

definition below :: "'m mmio_item \<Rightarrow> 'm mmio_item \<Rightarrow> bool" where
  "below a b \<longleftrightarrow> mmio_end a \<le> mmio_start b"

definition items :: "'m mmio_space \<Rightarrow> 'm mmio_item set" where
  "items t = set (inorder t)"

definition space_ok :: "'m mmio_space \<Rightarrow> bool" where
  "space_ok t \<longleftrightarrow> rb_ok t \<and> sorted_wrt below (inorder t) \<and> (\<forall>it\<in>items t. item_ok it)"

text \<open>The bytes of a range, and an access that lies inside one.\<close>

definition range_of :: "'m mmio_item \<Rightarrow> nat set" where
  "range_of it = {unat (mmio_start it)..<unat (mmio_start it) + unat (mmio_len it)}"

definition access_of :: "paddr \<Rightarrow> nat \<Rightarrow> nat set" where
  "access_of addr len = {unat addr..<unat addr + len}"

lemma unat_end: "item_ok it \<Longrightarrow> unat (mmio_end it) = unat (mmio_start it) + unat (mmio_len it)"
  by (simp add: item_ok_def mmio_end_def unat_word_ariths)

lemma item_pos: "item_ok it \<Longrightarrow> 0 < unat (mmio_len it)"
  by (simp add: item_ok_def unat_gt_0)

lemma below_disjoint: "item_ok a \<Longrightarrow> item_ok b \<Longrightarrow> below a b \<Longrightarrow> range_of a \<inter> range_of b = {}"
  by (auto simp: below_def range_of_def word_le_nat_alt unat_end)

lemma below_trans: "item_ok b \<Longrightarrow> below a b \<Longrightarrow> below b c \<Longrightarrow> below a c"
  by (auto simp: below_def word_le_nat_alt unat_end dest: item_pos)

section \<open>Registration\<close>

lemma register_link_sound:
  assumes "register_link (mmio_start x) (mmio_end x) t p = Some q" "item_ok x"
    and "\<forall>it\<in>set (inorder (plug t p)). item_ok it" "sorted_wrt below (inorder (plug t p))"
    and "\<forall>y\<in>set (before p). below y x" "\<forall>y\<in>set (after p). below x y"
  shows "plug NULL q = plug t p \<and> (\<forall>y\<in>set (before q). below y x) \<and> (\<forall>y\<in>set (after q). below x y)"
  using assms
proof (induction t arbitrary: p)
  case (Node l c it r)
  have it: "item_ok it" using Node.prems(3) by (auto simp: inorder_plug)
  consider (left) "mmio_end x \<le> mmio_start it" | (right) "\<not> mmio_end x \<le> mmio_start it" "mmio_end it \<le> mmio_start x"
    using Node.prems(1) by (fastforce split: if_splits)
  then show ?case
  proof cases
    case left
    then have xi: "below x it" by (simp add: below_def)
    have "\<forall>y\<in>set (inorder r). below it y" using Node.prems(4) by (auto simp: inorder_plug sorted_wrt_append)
    then have "\<forall>y\<in>set (inorder r). below x y" using xi it below_trans by blast
    then have after: "\<forall>y\<in>set (after (InLeft c it r # p)). below x y" using xi Node.prems(6) by auto
    have "register_link (mmio_start x) (mmio_end x) l (InLeft c it r # p) = Some q"
      using left Node.prems(1) by simp
    from Node.IH(1) [OF this _ _ _ _ after] Node.prems(2-5) show ?thesis by simp
  next
    case right
    then have xi: "below it x" by (simp add: below_def)
    have "\<forall>y\<in>set (inorder l). below y it" using Node.prems(4) by (auto simp: inorder_plug sorted_wrt_append)
    then have "\<forall>y\<in>set (inorder l). below y x" using xi it below_trans by blast
    then have before: "\<forall>y\<in>set (before (InRight l c it # p)). below y x" using xi Node.prems(5) by auto
    have "register_link (mmio_start x) (mmio_end x) r (InRight l c it # p) = Some q"
      using right Node.prems(1) by simp
    from Node.IH(2) [OF this _ _ _ before] Node.prems(2-4,6) show ?thesis by simp
  qed
qed auto

lemma register_link_none:
  assumes "register_link (mmio_start x) (mmio_end x) t p = None" "item_ok x" "\<forall>it\<in>set (inorder t). item_ok it"
  shows "\<exists>it\<in>set (inorder t). range_of it \<inter> range_of x \<noteq> {}"
  using assms
proof (induction t arbitrary: p)
  case (Node l c it r)
  have it: "item_ok it" using Node.prems(3) by auto
  show ?case
  proof (cases "mmio_end x \<le> mmio_start it \<or> mmio_end it \<le> mmio_start x")
    case True
    with Node.prems(1) consider "register_link (mmio_start x) (mmio_end x) l (InLeft c it r # p) = None"
      | "register_link (mmio_start x) (mmio_end x) r (InRight l c it # p) = None"
      by (auto split: if_splits)
    then show ?thesis using Node.IH Node.prems(2,3) by cases force+
  next
    case False
    then have "max (unat (mmio_start it)) (unat (mmio_start x)) \<in> range_of it \<inter> range_of x"
      using it Node.prems(2) by (auto simp: range_of_def word_le_nat_alt unat_end dest: item_pos)
    then show ?thesis by auto
  qed
qed auto

lemma plug_items: "plug NULL q = t \<Longrightarrow> set (before q) \<union> set (after q) = items t"
  using inorder_plug [of NULL q] by (auto simp: items_def)

lemma register_law:
  fixes ops :: 'm and args :: ptr and addr :: paddr and len :: u64
  defines "x \<equiv> \<lparr>mmio_start = addr, mmio_len = len, mops = ops, mmio_arg = args\<rparr>"
  assumes ok: "space_ok t" and x: "len \<noteq> 0" "unat addr + unat len < 2 ^ 64"
  shows "if \<exists>it\<in>items t. range_of it \<inter> access_of addr (unat len) \<noteq> {}
     then hv_mmio_register True t addr len ops args = Some (t, ERR_ALREADY_EXISTS)
     else \<exists>t'. hv_mmio_register True t addr len ops args = Some (t', 0) \<and> space_ok t' \<and>
            items t' = insert x (items t)"
proof -
  have xo: "item_ok x" and xr: "range_of x = access_of addr (unat len)" and xe: "mmio_end x = addr + len"
    "mmio_start x = addr"
    using x by (simp_all add: x_def item_ok_def range_of_def access_of_def mmio_end_def)
  show ?thesis
  proof (cases "register_link addr (addr + len) t []")
    case None
    with register_link_none [of x t "[]"] xo ok xe
    have "\<exists>it\<in>items t. range_of it \<inter> range_of x \<noteq> {}" by (auto simp: space_ok_def items_def)
    with None xr show ?thesis by (auto simp: hv_mmio_register_def)
  next
    case (Some q)
    from register_link_sound [of x t "[]" q] Some xo ok xe
    have q: "plug NULL q = t" "\<forall>y\<in>set (before q). below y x" "\<forall>y\<in>set (after q). below x y"
      by (auto simp: space_ok_def items_def)
    then have "range_of it \<inter> range_of x = {}" if "it \<in> items t" for it
      using that plug_items [OF q(1)] ok xo
      by (fastforce simp: space_ok_def dest: below_disjoint)
    moreover from rbt.link_sorted [of q below x] q ok
    obtain t' where "rb_insert_color (rb_link_node x) q = Some t'" "rb_ok t'"
      "sorted_wrt below (inorder t')" "items t' = insert x (items t)"
      by (auto simp: space_ok_def items_def)
    ultimately show ?thesis
      using Some xo xr ok by (auto simp: hv_mmio_register_def x_def space_ok_def)
  qed
qed

section \<open>Lookup\<close>

lemma sorted_node:
  "sorted_wrt below (inorder (Node l c it r)) \<Longrightarrow>
    sorted_wrt below (inorder l) \<and> sorted_wrt below (inorder r) \<and>
    (\<forall>y\<in>set (inorder l). below y it) \<and> (\<forall>y\<in>set (inorder r). below it y)"
  by (auto simp: sorted_wrt_append)

lemma find_walk_law:
  assumes "sorted_wrt below (inorder t)" "\<forall>it\<in>set (inorder t). item_ok it" "addr < end1"
  shows "find_walk addr end1 t = Some it \<longleftrightarrow>
     it \<in> set (inorder t) \<and> mmio_start it \<le> addr \<and> end1 \<le> mmio_end it"
  using assms(1,2)
proof (induction t)
  case (Node l c x r)
  note s = sorted_node [OF Node.prems(1)]
  have x: "item_ok x" using Node.prems(2) by auto
  have lt: "mmio_start y \<le> mmio_end y" if "item_ok y" for y :: "'a mmio_item"
    using that by (simp add: word_le_nat_alt unat_end)
  consider (left) "end1 \<le> mmio_start x" | (right) "\<not> end1 \<le> mmio_start x" "mmio_end x \<le> addr"
    | (hit) "\<not> end1 \<le> mmio_start x" "\<not> mmio_end x \<le> addr" by blast
  then show ?case
  proof cases
    case left
    have "\<not> (mmio_start y \<le> addr)" if "y \<in> insert x (set (inorder r))" for y
      using that s left assms(3) lt [OF x] by (auto simp: below_def)
    with left Node s show ?thesis by auto
  next
    case right
    have "\<not> (end1 \<le> mmio_end y)" if "y \<in> insert x (set (inorder l))" for y
      using that s right assms(3) lt [OF x] by (fastforce simp: below_def)
    with right Node s show ?thesis by auto
  next
    case hit
    have "\<not> (mmio_start y \<le> addr \<and> end1 \<le> mmio_end y)" if "y \<in> set (inorder l) \<union> set (inorder r)" for y
      using that s hit by (auto simp: below_def)
    with hit Node show ?thesis by auto
  qed
qed auto

lemma find_law:
  assumes "space_ok t" "0 < len" "unat addr + len < 2 ^ 64"
  shows "mmio_space_find t addr (int len) = Some it \<longleftrightarrow> it \<in> items t \<and> access_of addr len \<subseteq> range_of it"
proof -
  have e: "unat (addr + of_nat len) = unat addr + len"
    using assms(3) by (simp add: unat_word_ariths unat_of_nat)
  then have "addr < addr + of_nat len" using assms(2) by (simp add: word_less_nat_alt)
  with assms(1) have "mmio_space_find t addr (int len) = Some it \<longleftrightarrow>
      it \<in> items t \<and> mmio_start it \<le> addr \<and> addr + of_nat len \<le> mmio_end it"
    by (simp add: mmio_space_find_def find_walk_law space_ok_def items_def)
  also have "\<dots> \<longleftrightarrow> it \<in> items t \<and> access_of addr len \<subseteq> range_of it"
    using assms e by (auto simp: access_of_def range_of_def word_le_nat_alt unat_end space_ok_def)
  finally show ?thesis .
qed

section \<open>The contract of a range map\<close>

text \<open>
  What the emulated devices rely on: a range they register is found by every access inside it,
  stays found while other ranges are added, and no access is served by two ranges.
\<close>

locale range_map =
  fixes reg :: "'s \<Rightarrow> paddr \<Rightarrow> u64 \<Rightarrow> 'm \<Rightarrow> ptr \<Rightarrow> ('s \<times> int) option"
    and find :: "'s \<Rightarrow> paddr \<Rightarrow> int \<Rightarrow> 'm mmio_item option"
    and ranges :: "'s \<Rightarrow> 'm mmio_item set" and ok :: "'s \<Rightarrow> bool"
  assumes reg_law: "ok s \<Longrightarrow> len \<noteq> 0 \<Longrightarrow> unat addr + unat len < 2 ^ 64 \<Longrightarrow>
      if \<exists>it\<in>ranges s. range_of it \<inter> access_of addr (unat len) \<noteq> {}
      then reg s addr len ops arg = Some (s, ERR_ALREADY_EXISTS)
      else \<exists>s'. reg s addr len ops arg = Some (s', 0) \<and> ok s' \<and> ranges s' =
             insert \<lparr>mmio_start = addr, mmio_len = len, mops = ops, mmio_arg = arg\<rparr> (ranges s)"
    and find_law: "ok s \<Longrightarrow> 0 < n \<Longrightarrow> unat addr + n < 2 ^ 64 \<Longrightarrow>
      find s addr (int n) = Some it \<longleftrightarrow> it \<in> ranges s \<and> access_of addr n \<subseteq> range_of it"
begin

lemma reg_success:
  assumes "ok s" "len \<noteq> 0" "unat addr + unat len < 2 ^ 64" "reg s addr len ops arg = Some (s', 0)"
  shows "ok s' \<and> ranges s' =
      insert \<lparr>mmio_start = addr, mmio_len = len, mops = ops, mmio_arg = arg\<rparr> (ranges s)"
  using reg_law [OF assms(1-3), of ops arg] assms(4) by (auto split: if_splits)

lemma found_after_reg:
  assumes "ok s" "len \<noteq> 0" "unat addr + unat len < 2 ^ 64" "reg s addr len ops arg = Some (s', 0)"
    and "0 < n" "unat a + n < 2 ^ 64" "access_of a n \<subseteq> access_of addr (unat len)"
  shows "find s' a (int n) = Some \<lparr>mmio_start = addr, mmio_len = len, mops = ops, mmio_arg = arg\<rparr>"
  using reg_success [OF assms(1-4)] assms(5-7)
  by (simp add: find_law) (simp add: range_of_def access_of_def)

lemma still_found:
  assumes "ok s" "len \<noteq> 0" "unat addr + unat len < 2 ^ 64" "reg s addr len ops arg = Some (s', st)"
    and "0 < n" "unat a + n < 2 ^ 64" "find s a (int n) = Some it"
  shows "find s' a (int n) = Some it"
  using reg_law [OF assms(1-3), of ops arg] assms find_law [OF assms(1,5,6), of it]
  by (auto simp: find_law split: if_splits)

end

interpretation ms: range_map "hv_mmio_register True" mmio_space_find items space_ok
proof (unfold_locales, goal_cases)
  case (1 s len addr ops arg)
  then show ?case by (rule register_law)
next
  case (2 s n addr it)
  then show ?case by (rule find_law)
qed

section \<open>Properties\<close>

text \<open>
  C8. Registration in a well-formed MMIO space either refuses a range that overlaps a registered
  one, leaving the space as it was, or adds exactly that range and keeps the space well formed;
  it never dereferences a NULL tree pointer.
\<close>

theorem hv_mmio_register_correct:
  assumes "space_ok t" "len \<noteq> 0" "unat addr + unat len < 2 ^ 64"
  shows "if \<exists>it\<in>items t. range_of it \<inter> access_of addr (unat len) \<noteq> {}
     then hv_mmio_register True t addr len ops args = Some (t, ERR_ALREADY_EXISTS)
     else \<exists>t'. hv_mmio_register True t addr len ops args = Some (t', 0) \<and> space_ok t' \<and>
            items t' = insert \<lparr>mmio_start = addr, mmio_len = len, mops = ops, mmio_arg = args\<rparr> (items t)"
  by (rule ms.reg_law) (fact assms)+

lemma space_ok_init: "space_ok hv_vm_mmio_init"
  by (simp add: space_ok_def hv_vm_mmio_init_def items_def rb_ok_def)

theorem hv_mmio_register_correct_witness:
  "\<exists>t'. hv_mmio_register True hv_vm_mmio_init 0x8000000 0x20000 () 7 = Some (t', 0) \<and> space_ok t' \<and>
     items t' = {\<lparr>mmio_start = 0x8000000, mmio_len = 0x20000, mops = (), mmio_arg = 7\<rparr>}"
  using hv_mmio_register_correct [OF space_ok_init, of "0x20000" "0x8000000" "()" 7]
  by (simp add: items_def hv_vm_mmio_init_def)

text \<open>
  C9. Lookup in a well-formed space returns a range exactly when it is registered and contains
  every byte of the access; an access across the border of a range finds nothing.
\<close>

theorem mmio_space_find_correct:
  assumes "space_ok t" "0 < len" "unat addr + len < 2 ^ 64"
  shows "mmio_space_find t addr (int len) = Some it \<longleftrightarrow> it \<in> items t \<and> access_of addr len \<subseteq> range_of it"
  by (rule ms.find_law) (fact assms)+

theorem mmio_space_find_correct_witness:
  "mmio_space_find (Node NULL RB_BLACK \<lparr>mmio_start = 0x100, mmio_len = 0x10, mops = (), mmio_arg = 0\<rparr> NULL)
     0x10c (int 4) = Some \<lparr>mmio_start = 0x100, mmio_len = 0x10, mops = (), mmio_arg = 0\<rparr>"
proof -
  let ?t = "Node NULL RB_BLACK \<lparr>mmio_start = 0x100, mmio_len = 0x10, mops = (), mmio_arg = 0\<rparr> NULL"
  have "space_ok ?t" by (simp add: space_ok_def rb_ok_def items_def item_ok_def)
  from mmio_space_find_correct [OF this, of 4 "0x10c"] show ?thesis
    by (auto simp: items_def access_of_def range_of_def)
qed

lemma mmio_extend_signed:
  assumes "0 < n" "n \<le> 4" "\<And>i. bit d i \<Longrightarrow> i < 8 * n"
  shows "mmio_extend (int n) True d = Some (signed_take_bit (8 * n - 1) d)"
proof -
  let ?m = "scast (push_bit (8 * n - 1) 1 :: u32) :: u64"
  have h: "bit d i \<Longrightarrow> 31 \<le> i \<Longrightarrow> 8 * n - 1 = 31 \<Longrightarrow> i = 31" for i
    using assms(3) [of i] assms(1) by linarith
  have "bit d i \<Longrightarrow> 31 \<le> i \<Longrightarrow> 8 * n - 1 = 31 \<Longrightarrow> bit d 31" for i
    using h [of i] by blast
  with h have b: "bit (?m AND d) i \<longleftrightarrow> i = 8 * n - 1 \<and> bit d (8 * n - 1)" for i
    using assms by (auto simp: bit_simps min_def)
  then have z: "?m AND d \<noteq> 0 \<longleftrightarrow> bit d (8 * n - 1)"
    by (metis bit_0_eq bot_apply bot_bool_def bit_word_eqI)
  have "(if bit d (8 * n - 1) then d OR push_bit (8 * n) (NOT 0) else d) = signed_take_bit (8 * n - 1) d"
    using assms(1)
    by (intro bit_word_eqI) (auto simp: bit_simps min_def not_less le_less dest: assms(3))
  then show ?thesis using assms(1,2) z by (auto simp: mmio_extend_def Let_def nat_mult_distrib mult.commute)
qed

lemma signed_take_bit_ucast:
  "LENGTH('a) \<le> 64 \<Longrightarrow> signed_take_bit (LENGTH('a) - 1) (ucast w :: u64) = scast w"
  for w :: "'a::len word"
  by (rule bit_word_eqI) (auto simp: bit_simps min_def not_less)

text \<open>
  A signed read of 1, 2 or 4 bytes stores the sign extension of the value the device returned,
  an unsigned one stores it unchanged.
\<close>

theorem mmio_extend_correct:
  "mmio_extend 1 True (ucast b) = Some (scast (b :: u8)) \<and>
   mmio_extend 2 True (ucast h) = Some (scast (h :: u16)) \<and>
   mmio_extend 4 True (ucast w) = Some (scast (w :: u32)) \<and>
   mmio_extend n False d = Some d"
proof -
  have "mmio_extend (int 1) True (ucast b) = Some (scast b)"
    by (subst mmio_extend_signed) (use signed_take_bit_ucast [of b] in \<open>auto simp: bit_simps dest: bit_imp_le_length\<close>)
  moreover have "mmio_extend (int 2) True (ucast h) = Some (scast h)"
    by (subst mmio_extend_signed) (use signed_take_bit_ucast [of h] in \<open>auto simp: bit_simps dest: bit_imp_le_length\<close>)
  moreover have "mmio_extend (int 4) True (ucast w) = Some (scast w)"
    by (subst mmio_extend_signed) (use signed_take_bit_ucast [of w] in \<open>auto simp: bit_simps dest: bit_imp_le_length\<close>)
  ultimately show ?thesis by (simp add: mmio_extend_def)
qed

end
