(* ===== verification/Pmm.thy ===== *)
theory Pmm
  imports HV_Prelude
begin

text \<open>
  The physical page allocator, \<^verbatim>\<open>kernel/vm/pmm.c\<close>. An arena is a run of physical memory with one \<^verbatim>\<open>vm_page_t\<close>
  per page and a list of the free ones; a pointer to a page structure is the page array it is in with its index.
  Physical addresses, sizes and page numbers are natural numbers below \<open>2 ^ 64\<close>: an arena has
  fewer than \<open>2 ^ 32\<close> pages, and counts and alignments are such that page number, count and alignment in pages add up to less
  than \<open>2 ^ 32\<close>, so that the code's \<^verbatim>\<open>uint\<close> arithmetic on page numbers does not wrap; the one sum that
  it tests for wrapping is reduced modulo \<open>2 ^ 64\<close>. \<^verbatim>\<open>ROUNDUP\<close> is used with powers of two only.
\<close>

abbreviation (input) PAGE_SIZE :: nat where "PAGE_SIZE \<equiv> 4096"
abbreviation (input) PAGE_SIZE_SHIFT :: nat where "PAGE_SIZE_SHIFT \<equiv> 12"

section \<open>Arenas\<close>

record pmm_arena =
  ar_flags :: u32
  ar_priority :: nat
  ar_base :: nat
  ar_size :: nat
  free_count :: nat
  page_array :: ptr
  page_flags :: "u8 list"
  free_list :: "nat list"

type_synonym vm_page = "ptr \<times> nat"

definition page_count :: "pmm_arena \<Rightarrow> nat" where
  "page_count a = ar_size a div PAGE_SIZE"

definition PAGE_BELONGS_TO_ARENA :: "vm_page \<Rightarrow> pmm_arena \<Rightarrow> bool" where
  "PAGE_BELONGS_TO_ARENA page a \<longleftrightarrow> fst page = page_array a \<and> snd page < page_count a"

definition PAGE_ADDRESS_FROM_ARENA :: "vm_page \<Rightarrow> pmm_arena \<Rightarrow> nat" where
  "PAGE_ADDRESS_FROM_ARENA page a = snd page * PAGE_SIZE + ar_base a"

definition ADDRESS_IN_ARENA :: "nat \<Rightarrow> pmm_arena \<Rightarrow> bool" where
  "ADDRESS_IN_ARENA address a \<longleftrightarrow> ar_base a \<le> address \<and> address \<le> ar_base a + ar_size a - 1"

definition page_is_free :: "pmm_arena \<Rightarrow> nat \<Rightarrow> bool" where
  "page_is_free a i \<longleftrightarrow> \<not> bit (page_flags a ! i) 0"

definition vm_page_to_paddr :: "pmm_arena list \<Rightarrow> vm_page \<Rightarrow> nat option" where
  "vm_page_to_paddr arenas page =
     map_option (PAGE_ADDRESS_FROM_ARENA page) (find (PAGE_BELONGS_TO_ARENA page) arenas)"

definition paddr_to_vm_page :: "pmm_arena list \<Rightarrow> nat \<Rightarrow> vm_page option" where
  "paddr_to_vm_page arenas addr =
     map_option (\<lambda>a. (page_array a, (addr - ar_base a) div PAGE_SIZE)) (find (ADDRESS_IN_ARENA addr) arenas)"

text \<open>\<open>mem\<close> is the array that \<^verbatim>\<open>boot_alloc_mem\<close> returned.\<close>

fun add_by_priority :: "pmm_arena \<Rightarrow> pmm_arena list \<Rightarrow> pmm_arena list" where
  "add_by_priority arena [] = [arena]"
| "add_by_priority arena (a # as) =
     (if ar_priority a > ar_priority arena then arena # a # as else a # add_by_priority arena as)"

definition pmm_add_arena :: "ptr \<Rightarrow> pmm_arena \<Rightarrow> pmm_arena list \<Rightarrow> pmm_arena list" where
  "pmm_add_arena mem arena arenas =
     add_by_priority (arena\<lparr>free_count := page_count arena, page_array := mem,
       page_flags := replicate (page_count arena) 0, free_list := [0..<page_count arena]\<rparr>) arenas"

section \<open>Taking and returning pages\<close>

text \<open>A page leaves the free list, wherever it is in it, and is marked.\<close>

definition take_page :: "nat \<Rightarrow> pmm_arena \<Rightarrow> pmm_arena" where
  "take_page i a =
     a\<lparr>free_list := remove1 i (free_list a), page_flags := (page_flags a)[i := page_flags a ! i OR 1],
       free_count := free_count a - 1\<rparr>"

text \<open>The inner loop of \<^verbatim>\<open>pmm_alloc_pages\<close> with \<open>n\<close> pages to go; the last component is false at \<^verbatim>\<open>goto done\<close>.\<close>

fun alloc_while :: "nat \<Rightarrow> pmm_arena \<Rightarrow> vm_page list \<Rightarrow> pmm_arena \<times> vm_page list \<times> bool" where
  "alloc_while 0 a l = (a, l, True)"
| "alloc_while (Suc n) a l =
     (case free_list a of
        [] \<Rightarrow> (a, l, False)
      | p # ps \<Rightarrow> alloc_while n (take_page p a) (l @ [(page_array a, p)]))"

fun alloc_arenas :: "nat \<Rightarrow> pmm_arena list \<Rightarrow> vm_page list \<Rightarrow> pmm_arena list \<times> vm_page list" where
  "alloc_arenas count [] l = ([], l)"
| "alloc_arenas count (a # as) l =
     (case alloc_while (count - length l) a l of
        (a', l', False) \<Rightarrow> (a' # as, l')
      | (a', l', True) \<Rightarrow> (case alloc_arenas count as l' of (as', l'') \<Rightarrow> (a' # as', l'')))"

definition pmm_alloc_pages :: "nat \<Rightarrow> pmm_arena list \<Rightarrow> pmm_arena list \<times> vm_page list" where
  "pmm_alloc_pages count arenas = (if count = 0 then (arenas, []) else alloc_arenas count arenas [])"

definition pmm_alloc_page :: "pmm_arena list \<Rightarrow> pmm_arena list \<times> vm_page option" where
  "pmm_alloc_page arenas =
     (case pmm_alloc_pages 1 arenas of (as, l) \<Rightarrow> (as, case l of [] \<Rightarrow> None | p # _ \<Rightarrow> Some p))"

fun range_while :: "nat \<Rightarrow> nat \<Rightarrow> pmm_arena \<Rightarrow> vm_page list \<Rightarrow> nat \<times> pmm_arena \<times> vm_page list" where
  "range_while 0 address a l = (address, a, l)"
| "range_while (Suc n) address a l =
     (if \<not> ADDRESS_IN_ARENA address a then (address, a, l)
      else
        let index = (address - ar_base a) div PAGE_SIZE
        in if \<not> page_is_free a index then (address, a, l)
           else range_while n (address + PAGE_SIZE) (take_page index a) (l @ [(page_array a, index)]))"

fun range_arenas :: "nat \<Rightarrow> nat \<Rightarrow> pmm_arena list \<Rightarrow> vm_page list \<Rightarrow> pmm_arena list \<times> vm_page list" where
  "range_arenas count address [] l = ([], l)"
| "range_arenas count address (a # as) l =
     (case range_while (count - length l) address a l of
        (address', a', l') \<Rightarrow>
          if length l' = count then (a' # as, l')
          else case range_arenas count address' as l' of (as', l'') \<Rightarrow> (a' # as', l''))"

definition pmm_alloc_range :: "nat \<Rightarrow> nat \<Rightarrow> pmm_arena list \<Rightarrow> pmm_arena list \<times> vm_page list" where
  "pmm_alloc_range address count arenas =
     (if count = 0 then (arenas, []) else range_arenas count (address div PAGE_SIZE * PAGE_SIZE) arenas [])"

definition give_page :: "nat \<Rightarrow> pmm_arena \<Rightarrow> pmm_arena" where
  "give_page i a =
     a\<lparr>free_list := i # free_list a, page_flags := (page_flags a)[i := page_flags a ! i AND NOT 1],
       free_count := free_count a + 1\<rparr>"

fun free_one :: "vm_page \<Rightarrow> pmm_arena list \<Rightarrow> pmm_arena list \<times> nat" where
  "free_one page [] = ([], 0)"
| "free_one page (a # as) =
     (if PAGE_BELONGS_TO_ARENA page a then (give_page (snd page) a # as, 1)
      else case free_one page as of (as', n) \<Rightarrow> (a # as', n))"

fun pmm_free :: "vm_page list \<Rightarrow> pmm_arena list \<Rightarrow> pmm_arena list \<times> nat" where
  "pmm_free [] arenas = (arenas, 0)"
| "pmm_free (page # pages) arenas =
     (case free_one page arenas of (as, n) \<Rightarrow>
        case pmm_free pages as of (as', m) \<Rightarrow> (as', n + m))"

definition pmm_free_page :: "vm_page \<Rightarrow> pmm_arena list \<Rightarrow> pmm_arena list \<times> nat" where
  "pmm_free_page page arenas = pmm_free [page] arenas"

section \<open>Contiguous runs\<close>

definition ROUNDUP :: "nat \<Rightarrow> nat \<Rightarrow> nat" where
  "ROUNDUP a b = (a + (b - 1)) div b * b"

lemma ROUNDUP_ge: "0 < b \<Longrightarrow> a \<le> ROUNDUP a b"
proof -
  assume "0 < b"
  have "(a + (b - 1)) div b * b + (a + (b - 1)) mod b = a + (b - 1)" by simp
  moreover have "(a + (b - 1)) mod b \<le> b - 1" using mod_less_divisor [OF \<open>0 < b\<close>, of "a + (b - 1)"] by linarith
  ultimately show ?thesis unfolding ROUNDUP_def by linarith
qed

text \<open>
  The search of lines 309 to 324: \<open>start\<close> is the first page of the run looked at, \<open>off\<close> the first aligned page of
  the arena. A page in use inside the run moves the search past it, to the next boundary.
\<close>

definition first_used :: "pmm_arena \<Rightarrow> nat \<Rightarrow> nat \<Rightarrow> nat option" where
  "first_used a start count = find (\<lambda>i. \<not> page_is_free a (start + i)) [0..<count]"

function find_run :: "pmm_arena \<Rightarrow> nat \<Rightarrow> nat \<Rightarrow> nat \<Rightarrow> nat \<Rightarrow> nat option" where
  "find_run a off k count start =
     (if start < page_count a \<and> start + count \<le> page_count a then
        (case first_used a start count of
           None \<Rightarrow> Some start
         | Some i \<Rightarrow> find_run a off k count (ROUNDUP (start - off + i + 1) (2 ^ k) + off))
      else None)"
  by pat_completeness auto
termination
proof (relation "measure (\<lambda>(a, off, k, count, start). page_count a - start)", goal_cases)
  case (2 a off k count start i)
  have "start - off + i + 1 \<le> ROUNDUP (start - off + i + 1) (2 ^ k)" by (rule ROUNDUP_ge) simp
  with 2 show ?case by simp linarith
qed simp

declare find_run.simps [simp del]

definition take_run :: "nat \<Rightarrow> nat \<Rightarrow> pmm_arena \<Rightarrow> pmm_arena" where
  "take_run start count a = fold take_page [start..<start + count] a"

fun contig_arenas :: "nat \<Rightarrow> nat \<Rightarrow> pmm_arena list \<Rightarrow> (pmm_arena list \<times> nat \<times> vm_page list) option" where
  "contig_arenas count al [] = None"
| "contig_arenas count al (a # as) =
     (let next = map_option (\<lambda>(as', r). (a # as', r)) (contig_arenas count al as)
      in if bit (ar_flags a) 0 then
           (let rounded_base = ROUNDUP (ar_base a) (2 ^ al) mod 2 ^ 64
            in if rounded_base < ar_base a \<or> rounded_base > ar_base a + ar_size a - 1 then next
               else
                 let aligned_offset = (rounded_base - ar_base a) div PAGE_SIZE
                 in case find_run a aligned_offset (al - PAGE_SIZE_SHIFT) count aligned_offset of
                      None \<Rightarrow> next
                    | Some start \<Rightarrow>
                        Some (take_run start count a # as, ar_base a + start * PAGE_SIZE,
                          map (Pair (page_array a)) [start..<start + count]))
         else next)"

text \<open>The result is the arenas with the address of the run and its pages, \<open>None\<close> when nothing was allocated (0 is returned).\<close>

definition pmm_alloc_contiguous :: "nat \<Rightarrow> nat \<Rightarrow> pmm_arena list \<Rightarrow> (pmm_arena list \<times> nat \<times> vm_page list) option" where
  "pmm_alloc_contiguous count alignment_log2 arenas =
     (if count = 0 then None
      else contig_arenas count (if alignment_log2 < PAGE_SIZE_SHIFT then PAGE_SIZE_SHIFT else alignment_log2) arenas)"

section \<open>Invariant\<close>

definition arena_ok :: "pmm_arena \<Rightarrow> bool" where
  "arena_ok a \<longleftrightarrow> length (page_flags a) = page_count a \<and> distinct (free_list a) \<and>
     set (free_list a) = {i. i < page_count a \<and> page_is_free a i} \<and> free_count a = length (free_list a) \<and>
     ar_base a mod PAGE_SIZE = 0 \<and> ar_size a mod PAGE_SIZE = 0 \<and> 0 < ar_size a \<and> ar_base a + ar_size a \<le> 2 ^ 64"

definition pmm_inv :: "pmm_arena list \<Rightarrow> bool" where
  "pmm_inv arenas \<longleftrightarrow> distinct (map page_array arenas) \<and> (\<forall>a\<in>set arenas. arena_ok a)"

text \<open>The free pages of all arenas.\<close>

definition free_pages :: "pmm_arena list \<Rightarrow> vm_page set" where
  "free_pages arenas = {(page_array a, i) | a i. a \<in> set arenas \<and> i < page_count a \<and> page_is_free a i}"

lemma take_page_fields [simp]:
  "page_array (take_page i a) = page_array a" "ar_base (take_page i a) = ar_base a" "ar_size (take_page i a) = ar_size a"
  "ar_flags (take_page i a) = ar_flags a" "page_count (take_page i a) = page_count a"
  by (simp_all add: take_page_def page_count_def)

lemma give_page_fields [simp]:
  "page_array (give_page i a) = page_array a" "ar_base (give_page i a) = ar_base a" "ar_size (give_page i a) = ar_size a"
  "ar_flags (give_page i a) = ar_flags a" "page_count (give_page i a) = page_count a"
  by (simp_all add: give_page_def page_count_def)

lemma take_page_free:
  "i < length (page_flags a) \<Longrightarrow> page_is_free (take_page i a) j \<longleftrightarrow> j \<noteq> i \<and> page_is_free a j"
  by (auto simp: page_is_free_def take_page_def nth_list_update bit_simps)

lemma give_page_free:
  "i < length (page_flags a) \<Longrightarrow> page_is_free (give_page i a) j \<longleftrightarrow> j = i \<or> page_is_free a j"
  by (auto simp: page_is_free_def give_page_def nth_list_update bit_simps)

lemma take_page_ok:
  assumes "arena_ok a" "i < page_count a" "page_is_free a i"
  shows "arena_ok (take_page i a)"
proof -
  have l: "i < length (page_flags a)" "i \<in> set (free_list a)" using assms by (auto simp: arena_ok_def)
  have "length (page_flags (take_page i a)) = page_count a" "free_count (take_page i a) = length (free_list (take_page i a))"
    "distinct (free_list (take_page i a))" "set (free_list (take_page i a)) = set (free_list a) - {i}"
    using assms l by (auto simp: arena_ok_def take_page_def length_remove1)
  with assms(1) show ?thesis unfolding arena_ok_def by (auto simp: take_page_free [OF l(1)])
qed

lemma give_page_ok:
  assumes "arena_ok a" "i < page_count a" "\<not> page_is_free a i"
  shows "arena_ok (give_page i a)"
proof -
  have l: "i < length (page_flags a)" "i \<notin> set (free_list a)" using assms by (auto simp: arena_ok_def)
  have "length (page_flags (give_page i a)) = page_count a" "free_count (give_page i a) = length (free_list (give_page i a))"
    "distinct (free_list (give_page i a))" "set (free_list (give_page i a)) = insert i (set (free_list a))"
    using assms l by (auto simp: arena_ok_def give_page_def)
  with assms show ?thesis unfolding arena_ok_def by (auto simp: give_page_free [OF l(1)])
qed

section \<open>The search for a run\<close>

definition run_free :: "pmm_arena \<Rightarrow> nat \<Rightarrow> nat \<Rightarrow> bool" where
  "run_free a start count \<longleftrightarrow> start + count \<le> page_count a \<and> (\<forall>i<count. page_is_free a (start + i))"

lemma first_used_some:
  "first_used a start count = Some i \<Longrightarrow> i < count \<and> \<not> page_is_free a (start + i)"
  by (auto simp: first_used_def find_Some_iff)

lemma first_used_none: "first_used a start count = None \<longleftrightarrow> (\<forall>i<count. page_is_free a (start + i))"
  by (auto simp: first_used_def find_None_iff)

lemma ROUNDUP_aligned: "ROUNDUP a b mod b = 0"
  by (simp add: ROUNDUP_def)

lemma ROUNDUP_least: "0 < b \<Longrightarrow> a \<le> c \<Longrightarrow> c mod b = 0 \<Longrightarrow> ROUNDUP a b \<le> c"
proof -
  assume b: "0 < b" and c: "a \<le> c" "c mod b = 0"
  have "a + (b - 1) < c + b" using b c(1) by linarith
  then have "(a + (b - 1)) div b < Suc (c div b)"
    using c(2) b by (metis add.commute div_add_self2 div_less_iff_less_mult div_mult_mod_eq add.right_neutral mult_Suc not_less0 gr_implies_not_zero Suc_eq_plus1)
  then have "(a + (b - 1)) div b * b \<le> c div b * b" by (intro mult_le_mono1) linarith
  then show ?thesis using c(2) by (simp add: ROUNDUP_def mod_0_imp_dvd)
qed

lemma find_run_sound:
  "find_run a off k count start = Some st \<Longrightarrow> off \<le> start \<Longrightarrow> (start - off) mod 2 ^ k = 0 \<Longrightarrow>
     run_free a st count \<and> off \<le> st \<and> (st - off) mod 2 ^ k = 0 \<and> st < page_count a"
proof (induction a off k count start rule: find_run.induct)
  case (1 a off k count start)
  have inside: "start < page_count a \<and> start + count \<le> page_count a"
    using 1(2) find_run.simps [of a off k count start] by (metis option.distinct(1))
  show ?case
  proof (cases "first_used a start count")
    case None
    then have "st = start" using 1(2) inside by (simp add: find_run.simps [of a off k count start])
    with 1(3,4) None inside show ?thesis by (simp add: first_used_none run_free_def)
  next
    case (Some i)
    from 1(2) inside Some have "find_run a off k count (ROUNDUP (start - off + i + 1) (2 ^ k) + off) = Some st"
      by (simp add: find_run.simps [of a off k count start])
    from 1(1) [OF inside Some this] show ?thesis by (simp add: ROUNDUP_aligned)
  qed
qed

lemma find_run_complete:
  "find_run a off k count start = None \<Longrightarrow> off \<le> start \<Longrightarrow> 0 < count \<Longrightarrow>
     start \<le> st \<Longrightarrow> (st - off) mod 2 ^ k = 0 \<Longrightarrow> \<not> run_free a st count"
proof (induction a off k count start rule: find_run.induct)
  case (1 a off k count start)
  show ?case
  proof (cases "start < page_count a \<and> start + count \<le> page_count a")
    case False
    then show ?thesis using 1(4,5) by (auto simp: run_free_def)
  next
    case inside: True
    with 1(2) obtain i where i: "first_used a start count = Some i"
      by (cases "first_used a start count") (simp_all add: find_run.simps [of a off k count start])
    let ?n = "ROUNDUP (start - off + i + 1) (2 ^ k) + off"
    have none: "find_run a off k count ?n = None" using 1(2) inside i by (simp add: find_run.simps [of a off k count start])
    show ?thesis
    proof (cases "st \<le> start + i")
      case True
      have "\<not> page_is_free a (st + (start + i - st))" "start + i - st < count"
        using first_used_some [OF i] True 1(5) by auto
      then show ?thesis unfolding run_free_def by blast
    next
      case False
      have "start - off + i + 1 \<le> st - off" using False 1(3,5) by linarith
      from ROUNDUP_least [of "2 ^ k", OF _ this 1(6)] have "ROUNDUP (start - off + i + 1) (2 ^ k) \<le> st - off" by simp
      then have "?n \<le> st" using 1(3,5) by linarith
      from 1(1) [OF inside i none _ 1(4) this 1(6)] show ?thesis by simp
    qed
  qed
qed


section \<open>Alignment of runs\<close>

lemma aligned_page_iff:
  assumes "12 \<le> al" "(base + off * 4096) mod 2 ^ al = (0::nat)" "off \<le> st"
  shows "(base + st * 4096) mod 2 ^ al = 0 \<longleftrightarrow> (st - off) mod 2 ^ (al - 12) = 0"
proof -
  have p: "(2::nat) ^ al = 2 ^ (al - 12) * 4096"
    using assms(1) power_add [of "2::nat" "al - 12" 12] by simp
  have "base + st * 4096 = (base + off * 4096) + (st - off) * 4096" using assms(3) by (simp add: diff_mult_distrib)
  then have "2 ^ al dvd base + st * 4096 \<longleftrightarrow> 2 ^ al dvd (st - off) * 4096"
    using assms(2) by (metis dvd_add_right_iff mod_eq_0_iff_dvd)
  also have "\<dots> \<longleftrightarrow> 2 ^ (al - 12) dvd st - off" unfolding p by (simp add: mult.commute)
  finally show ?thesis by (simp add: mod_eq_0_iff_dvd)
qed

lemma ROUNDUP_page: "12 \<le> al \<Longrightarrow> base mod 4096 = 0 \<Longrightarrow> (ROUNDUP base (2 ^ al) - base) div 4096 * 4096 = ROUNDUP base (2 ^ al) - base"
proof -
  assume a: "12 \<le> al" "base mod 4096 = 0"
  have "(4096::nat) dvd 2 ^ al" using le_imp_power_dvd [OF a(1), of "2::nat"] by simp
  then have "4096 dvd ROUNDUP base (2 ^ al)" using ROUNDUP_aligned [of base "2 ^ al"] by (metis dvd_trans mod_eq_0_iff_dvd)
  then show ?thesis using a(2) by (simp add: dvd_diff_nat mod_eq_0_iff_dvd)
qed

text \<open>A run of \<open>count\<close> free pages of an arena that starts at a multiple of \<open>2 ^ al\<close>.\<close>

definition aligned_run :: "nat \<Rightarrow> nat \<Rightarrow> pmm_arena \<Rightarrow> nat \<Rightarrow> bool" where
  "aligned_run count al a st \<longleftrightarrow> run_free a st count \<and> (ar_base a + st * PAGE_SIZE) mod 2 ^ al = 0"

definition rounded :: "nat \<Rightarrow> pmm_arena \<Rightarrow> nat" where
  "rounded al a = ROUNDUP (ar_base a) (2 ^ al) mod 2 ^ 64"

lemma rounded_inside:
  assumes "arena_ok a" "al < 64" "ar_base a \<le> rounded al a"
  shows "rounded al a = ROUNDUP (ar_base a) (2 ^ al)"
proof (rule ccontr)
  let ?R = "ROUNDUP (ar_base a) (2 ^ al)"
  assume "rounded al a \<noteq> ?R"
  then have big: "2 ^ 64 \<le> ?R" unfolding rounded_def by (meson mod_less not_le)
  have "(2::nat) ^ al dvd 2 ^ 64" using assms(2) by (intro le_imp_power_dvd) simp
  then have "?R \<le> 2 ^ 64" using assms(1) by (intro ROUNDUP_least) (auto simp: arena_ok_def mod_eq_0_iff_dvd)
  with big have R: "?R = 2 ^ 64" by simp
  then have "ar_base a = 0" using assms(3) by (simp add: rounded_def)
  then show False using R by (simp add: ROUNDUP_def)
qed

lemma aligned_run_from_rounded:
  assumes ok: "arena_ok a" and al: "12 \<le> al" "al < 64" and run: "aligned_run count al a st" "0 < count"
  defines "r \<equiv> rounded al a"
  shows "ar_base a \<le> r \<and> r \<le> ar_base a + ar_size a - 1 \<and> (r - ar_base a) div 4096 \<le> st"
proof -
  let ?R = "ROUNDUP (ar_base a) (2 ^ al)"
  have st: "st * 4096 < ar_size a" using run by (auto simp: aligned_run_def run_free_def page_count_def)
  have le: "?R \<le> ar_base a + st * 4096" using run by (intro ROUNDUP_least) (auto simp: aligned_run_def)
  then have "?R < 2 ^ 64" using st ok by (simp add: arena_ok_def)
  then have r: "r = ?R" by (simp add: r_def rounded_def)
  have "ar_base a \<le> ?R" by (rule ROUNDUP_ge) simp
  moreover have "(?R - ar_base a) div 4096 \<le> st" using le by (simp add: div_le_mono less_mult_imp_div_less not_le [symmetric])
  ultimately show ?thesis using r le st by linarith
qed

section \<open>Allocation over the arenas\<close>

text \<open>What no operation changes in an arena.\<close>

definition geom :: "pmm_arena \<Rightarrow> ptr \<times> nat \<times> nat \<times> u32" where
  "geom a = (page_array a, ar_base a, ar_size a, ar_flags a)"

lemma geom_take_page [simp]: "geom (take_page i a) = geom a" "geom (give_page i a) = geom a"
  by (simp_all add: geom_def)

lemma geom_fold_take_page [simp]: "geom (fold take_page xs a) = geom a"
  by (induction xs arbitrary: a) simp_all

lemma geom_eq: "geom a = geom b \<Longrightarrow> page_array a = page_array b \<and> page_count a = page_count b"
  by (simp add: geom_def page_count_def)

lemma geom_arrays:
  assumes "map geom as = map geom bs"
  shows "map page_array as = map page_array bs"
proof -
  have eq: "map page_array xs = map fst (map geom xs)" for xs by (simp add: geom_def comp_def)
  show ?thesis unfolding eq assms ..
qed

definition taken :: "pmm_arena list \<Rightarrow> vm_page list \<Rightarrow> pmm_arena list \<Rightarrow> bool" where
  "taken arenas pages arenas' \<longleftrightarrow> pmm_inv arenas' \<and> map geom arenas' = map geom arenas \<and>
     distinct pages \<and> set pages \<subseteq> free_pages arenas \<and> free_pages arenas' = free_pages arenas - set pages"

lemma free_pages_Cons: "free_pages (a # as) = Pair (page_array a) ` {i. i < page_count a \<and> page_is_free a i} \<union> free_pages as"
  unfolding free_pages_def by auto

lemma free_pages_arrays: "(p, i) \<in> free_pages as \<Longrightarrow> p \<in> set (map page_array as)"
  unfolding free_pages_def by auto

lemma pmm_inv_Cons: "pmm_inv (a # as) \<longleftrightarrow> arena_ok a \<and> page_array a \<notin> set (map page_array as) \<and> pmm_inv as"
  unfolding pmm_inv_def by auto

lemma fold_take_page:
  "arena_ok b \<Longrightarrow> distinct xs \<Longrightarrow> set xs \<subseteq> set (free_list b) \<Longrightarrow>
     arena_ok (fold take_page xs b) \<and> page_array (fold take_page xs b) = page_array b \<and>
     page_count (fold take_page xs b) = page_count b \<and>
     (\<forall>j<page_count b. page_is_free (fold take_page xs b) j \<longleftrightarrow> page_is_free b j \<and> j \<notin> set xs)"
proof (induction xs arbitrary: b)
  case (Cons x xs)
  have x: "x < page_count b" "page_is_free b x" "x < length (page_flags b)" using Cons.prems by (auto simp: arena_ok_def)
  have "set xs \<subseteq> set (free_list (take_page x b))" using Cons.prems by (auto simp: take_page_def arena_ok_def)
  with Cons.IH [OF take_page_ok [OF Cons.prems(1) x(1,2)]] Cons.prems(2) show ?case by (auto simp: take_page_free [OF x(3)])
qed simp

lemma taken_fold:
  assumes inv: "pmm_inv (a # as)" and l: "distinct xs" "set xs \<subseteq> set (free_list a)"
  shows "taken (a # as) (map (Pair (page_array a)) xs) (fold take_page xs a # as)"
proof -
  have ok: "arena_ok a" "page_array a \<notin> set (map page_array as)" using inv by (simp_all add: pmm_inv_Cons)
  note e = fold_take_page [OF ok(1) l]
  have "Pair (page_array a) ` set xs \<inter> free_pages as = {}" using ok(2) free_pages_arrays [of "page_array a" _ as] by auto
  moreover have "set xs \<subseteq> {i. i < page_count a \<and> page_is_free a i}" using l(2) ok(1) by (simp add: arena_ok_def)
  moreover have "{i. i < page_count a \<and> page_is_free (fold take_page xs a) i} = {i. i < page_count a \<and> page_is_free a i} - set xs"
    using e by auto
  ultimately have "free_pages (fold take_page xs a # as) = free_pages (a # as) - Pair (page_array a) ` set xs"
    "Pair (page_array a) ` set xs \<subseteq> free_pages (a # as)" using e unfolding free_pages_Cons by auto
  moreover have "pmm_inv (fold take_page xs a # as)" using e inv by (simp add: pmm_inv_Cons)
  ultimately show ?thesis using l(1) unfolding taken_def by (simp add: distinct_map inj_on_def)
qed

lemma run_free_list: "arena_ok a \<Longrightarrow> run_free a start count \<Longrightarrow> set [start..<start + count] \<subseteq> set (free_list a)"
proof
  fix i assume a: "arena_ok a" "run_free a start count" and "i \<in> set [start..<start + count]"
  then have "i - start < count" "start + (i - start) = i" by auto
  with a(2) have "i < page_count a \<and> page_is_free a i" unfolding run_free_def by (metis add_less_cancel_left order_less_le_trans)
  with a(1) show "i \<in> set (free_list a)" by (simp add: arena_ok_def)
qed

lemma taken_head:
  assumes "pmm_inv (a # as)" "run_free a start count"
  shows "taken (a # as) (map (Pair (page_array a)) [start..<start + count]) (take_run start count a # as)"
  unfolding take_run_def by (rule taken_fold [OF assms(1) _ run_free_list [OF _ assms(2)]]) (use assms(1) in \<open>simp_all add: pmm_inv_Cons\<close>)

lemma taken_tail:
  assumes "pmm_inv (a # as)" "taken as pages as'"
  shows "taken (a # as) pages (a # as')"
proof -
  have "Pair (page_array a) ` X \<inter> set pages = {}" for X
    using assms free_pages_arrays [of "page_array a" _ as] by (auto simp: taken_def pmm_inv_Cons)
  then show ?thesis using assms geom_arrays [of as' as] unfolding taken_def pmm_inv_Cons free_pages_Cons by auto
qed

lemma contig_arena_step:
  assumes ok: "arena_ok a" and al: "12 \<le> al" "al < 64"
    and r: "ar_base a \<le> rounded al a" and off: "off = (rounded al a - ar_base a) div 4096"
  shows "find_run a off (al - 12) count off = Some st \<Longrightarrow> aligned_run count al a st"
    and "find_run a off (al - 12) count off = None \<Longrightarrow> 0 < count \<Longrightarrow> off \<le> st \<Longrightarrow> \<not> aligned_run count al a st"
proof -
  have R: "rounded al a = ROUNDUP (ar_base a) (2 ^ al)" by (rule rounded_inside [OF ok al(2) r])
  have "off * 4096 = rounded al a - ar_base a"
    unfolding off R using ok by (intro ROUNDUP_page al(1)) (simp add: arena_ok_def)
  then have base: "(ar_base a + off * 4096) mod 2 ^ al = 0" using r R ROUNDUP_aligned [of "ar_base a" "2 ^ al"] by simp
  show "aligned_run count al a st" if "find_run a off (al - 12) count off = Some st"
    using find_run_sound [OF that] aligned_page_iff [OF al(1) base, of st] by (simp add: aligned_run_def)
  show "\<not> aligned_run count al a st" if "find_run a off (al - 12) count off = None" "0 < count" "off \<le> st"
    using find_run_complete [OF that(1) _ that(2,3)] aligned_page_iff [OF al(1) base that(3)] by (auto simp: aligned_run_def)
qed

text \<open>The pages and the address of a run.\<close>

definition run_of :: "nat \<Rightarrow> nat \<Rightarrow> pmm_arena \<Rightarrow> nat \<times> vm_page list \<Rightarrow> bool" where
  "run_of count al a r \<longleftrightarrow> (\<exists>st. aligned_run count al a st \<and> fst r = ar_base a + st * PAGE_SIZE \<and>
     snd r = map (Pair (page_array a)) [st..<st + count])"

lemma contig_arenas_correct:
  assumes "pmm_inv arenas" "12 \<le> al" "al < 64" "0 < count"
  shows "case contig_arenas count al arenas of
           Some (arenas', pa, pages) \<Rightarrow> taken arenas pages arenas' \<and>
             (\<exists>a\<in>set arenas. bit (ar_flags a) 0 \<and> run_of count al a (pa, pages))
         | None \<Rightarrow> \<forall>a\<in>set arenas. bit (ar_flags a) 0 \<longrightarrow> (\<forall>st. \<not> aligned_run count al a st)"
  using assms(1)
proof (induction arenas)
  case (Cons a as)
  have ok: "arena_ok a" using Cons.prems by (simp add: pmm_inv_Cons)
  let ?r = "rounded al a" and ?off = "(rounded al a - ar_base a) div 4096"
  let ?inside = "bit (ar_flags a) 0 \<and> ar_base a \<le> ?r \<and> ?r \<le> ar_base a + ar_size a - 1"
  let ?run = "find_run a ?off (al - 12) count ?off"
  have eq: "contig_arenas count al (a # as) =
      (if ?inside \<and> ?run \<noteq> None then Some (take_run (the ?run) count a # as, ar_base a + the ?run * 4096,
           map (Pair (page_array a)) [the ?run..<the ?run + count])
       else map_option (\<lambda>(as', r). (a # as', r)) (contig_arenas count al as))"
    by (auto simp: Let_def rounded_def split: option.splits)
  show ?case
  proof (cases "?inside \<and> ?run \<noteq> None")
    case True
    then obtain st where st: "?run = Some st" by auto
    from contig_arena_step(1) [OF ok assms(2,3) _ refl st] True have run: "aligned_run count al a st" by blast
    then have "taken (a # as) (map (Pair (page_array a)) [st..<st + count]) (take_run st count a # as)"
      by (intro taken_head Cons.prems) (simp add: aligned_run_def)
    with run True st show ?thesis unfolding eq run_of_def by auto
  next
    case False
    have none: "\<not> aligned_run count al a st" if "bit (ar_flags a) 0" for st
      using aligned_run_from_rounded [OF ok assms(2,3) _ assms(4)] contig_arena_step(2) [OF ok assms(2,3) _ refl _ assms(4)] False that by blast
    have inv: "pmm_inv as" using Cons.prems by (simp add: pmm_inv_Cons)
    show ?thesis
    proof (cases "contig_arenas count al as")
      case None
      with Cons.IH [OF inv] none False show ?thesis unfolding eq by auto
    next
      case (Some r)
      obtain as' pa pages where r: "r = (as', pa, pages)" by (cases r)
      from Cons.IH [OF inv] taken_tail [OF Cons.prems, of pages as'] Some False r show ?thesis unfolding eq by auto
    qed
  qed
qed simp

lemma alloc_while_eq:
  "alloc_while n a l = (fold take_page (take n (free_list a)) a, l @ map (Pair (page_array a)) (take n (free_list a)), n \<le> length (free_list a))"
proof (induction n arbitrary: a l)
  case (Suc n)
  show ?case
  proof (cases "free_list a")
    case (Cons p ps)
    then have "free_list (take_page p a) = ps" by (simp add: take_page_def)
    with Cons Suc.IH [of "take_page p a"] show ?thesis by simp
  qed simp
qed simp

lemma alloc_arenas_full: "count \<le> length l \<Longrightarrow> alloc_arenas count as l = (as, l)"
  by (induction as) auto

lemma free_one_effect:
  assumes "pmm_inv as" "\<exists>a\<in>set as. PAGE_BELONGS_TO_ARENA page a" "page \<notin> free_pages as"
  shows "snd (free_one page as) = 1 \<and> pmm_inv (fst (free_one page as)) \<and>
    map geom (fst (free_one page as)) = map geom as \<and>
    free_pages (fst (free_one page as)) = insert page (free_pages as)"
  using assms
proof (induction as)
  case (Cons a as)
  obtain p i where page: "page = (p, i)" by (cases page)
  have ok: "arena_ok a" "pmm_inv as" "page_array a \<notin> set (map page_array as)" using Cons.prems(1) by (simp_all add: pmm_inv_Cons)
  show ?case
  proof (cases "PAGE_BELONGS_TO_ARENA page a")
    case True
    then have i: "p = page_array a" "i < page_count a" by (auto simp: PAGE_BELONGS_TO_ARENA_def page)
    have nf: "\<not> page_is_free a i" "i < length (page_flags a)"
      using Cons.prems(3) i ok(1) by (auto simp: page free_pages_Cons arena_ok_def)
    have "free_pages (give_page i a # as) = insert page (free_pages (a # as))"
      unfolding free_pages_Cons page by (auto simp: give_page_free [OF nf(2)] i)
    with True give_page_ok [OF ok(1) i(2) nf(1)] ok page show ?thesis by (simp add: pmm_inv_Cons)
  next
    case False
    have "\<exists>a\<in>set as. PAGE_BELONGS_TO_ARENA page a" "page \<notin> free_pages as" using Cons.prems False by (auto simp: free_pages_Cons)
    from Cons.IH [OF ok(2) this] False ok geom_arrays [of "fst (free_one page as)" as] show ?thesis
      by (auto simp: pmm_inv_Cons free_pages_Cons split_beta simp flip: set_map)
  qed
qed simp

lemma free_one_geom: "map geom (fst (free_one p xs)) = map geom xs"
  by (induction xs) (auto simp: split_beta)

lemma pmm_free_geom: "map geom (fst (pmm_free ps xs)) = map geom xs"
  by (induction ps arbitrary: xs) (simp_all add: split_beta free_one_geom)

lemma paddr_to_vm_page_geom:
  "map geom as = map geom bs \<Longrightarrow> paddr_to_vm_page as pa = paddr_to_vm_page bs pa"
proof (induction as arbitrary: bs)
  case (Cons a as)
  then obtain b bs' where bs: "bs = b # bs'" "geom a = geom b" "map geom as = map geom bs'" by (cases bs) auto
  have "ADDRESS_IN_ARENA pa a = ADDRESS_IN_ARENA pa b" "page_array a = page_array b" "ar_base a = ar_base b"
    using bs(2) by (auto simp: geom_def ADDRESS_IN_ARENA_def)
  with Cons.IH [OF bs(3)] show ?case by (simp add: bs(1) paddr_to_vm_page_def)
qed simp

text \<open>The pages of the arenas, free or not.\<close>

definition all_pages :: "pmm_arena list \<Rightarrow> vm_page set" where
  "all_pages arenas = {page. \<exists>a\<in>set arenas. PAGE_BELONGS_TO_ARENA page a}"

lemma all_pages_cong:
  assumes "map geom as = map geom bs"
  shows "all_pages as = all_pages bs"
proof -
  have eq: "all_pages xs = {(p, i) | p i. \<exists>g\<in>set (map geom xs). fst g = p \<and> i < fst (snd (snd g)) div 4096}" for xs
    unfolding all_pages_def by (auto simp: PAGE_BELONGS_TO_ARENA_def geom_def page_count_def)
  show ?thesis unfolding eq assms ..
qed

lemma pmm_free_effect:
  "pmm_inv as \<Longrightarrow> distinct pages \<Longrightarrow> set pages \<subseteq> all_pages as - free_pages as \<Longrightarrow>
   snd (pmm_free pages as) = length pages \<and> pmm_inv (fst (pmm_free pages as)) \<and>
   free_pages (fst (pmm_free pages as)) = free_pages as \<union> set pages"
proof (induction pages arbitrary: as)
  case (Cons p ps)
  have p: "\<exists>a\<in>set as. PAGE_BELONGS_TO_ARENA p a" "p \<notin> free_pages as" using Cons.prems(3) by (auto simp: all_pages_def)
  note e = free_one_effect [OF Cons.prems(1) p]
  have "all_pages (fst (free_one p as)) = all_pages as" using e by (intro all_pages_cong) simp_all
  then have "set ps \<subseteq> all_pages (fst (free_one p as)) - free_pages (fst (free_one p as))" using Cons.prems(2,3) e by auto
  with Cons.IH [of "fst (free_one p as)"] Cons.prems(2) e show ?case by (simp add: split_beta)
qed simp

lemma free_pages_all: "free_pages arenas \<subseteq> all_pages arenas"
  by (auto simp: free_pages_def all_pages_def PAGE_BELONGS_TO_ARENA_def)

lemma taken_all: "taken arenas pages arenas' \<Longrightarrow>
  all_pages arenas' = all_pages arenas \<and> set pages \<subseteq> all_pages arenas' - free_pages arenas'"
  using all_pages_cong [of arenas' arenas] free_pages_all [of arenas] by (auto simp: taken_def)

lemma pmm_alloc_pages_eq:
  "pmm_alloc_pages count (a # as) =
     (fold take_page (take count (free_list a)) a # as, map (Pair (page_array a)) (take count (free_list a)))"
proof (cases "count \<le> length (free_list a)")
  case True
  then show ?thesis
    using alloc_arenas_full [of count "map (Pair (page_array a)) (take count (free_list a))" as]
    by (simp add: pmm_alloc_pages_def alloc_while_eq)
next
  case False
  then show ?thesis by (simp add: pmm_alloc_pages_def alloc_while_eq)
qed

lemma pmm_alloc_pages_taken:
  assumes "pmm_inv arenas"
  shows "taken arenas (snd (pmm_alloc_pages count arenas)) (fst (pmm_alloc_pages count arenas))"
proof (cases arenas)
  case Nil
  then show ?thesis by (simp add: pmm_alloc_pages_def taken_def pmm_inv_def)
next
  case (Cons a as)
  have "distinct (take count (free_list a))" "set (take count (free_list a)) \<subseteq> set (free_list a)"
    using assms set_take_subset [of count "free_list a"] by (auto simp: Cons pmm_inv_Cons arena_ok_def)
  from taken_fold [OF assms [unfolded Cons] this] show ?thesis by (simp add: Cons pmm_alloc_pages_eq)
qed

text \<open>The address of a page of an arena.\<close>

lemma vm_page_to_paddr_arena:
  "pmm_inv arenas \<Longrightarrow> a \<in> set arenas \<Longrightarrow> PAGE_BELONGS_TO_ARENA page a \<Longrightarrow>
     vm_page_to_paddr arenas page = Some (PAGE_ADDRESS_FROM_ARENA page a)"
proof (induction arenas)
  case (Cons b bs)
  show ?case
  proof (cases "b = a")
    case True
    with Cons.prems(3) show ?thesis by (simp add: vm_page_to_paddr_def)
  next
    case False
    with Cons.prems have "page_array b \<noteq> page_array a" "a \<in> set bs" "pmm_inv bs" by (auto simp: pmm_inv_Cons)
    with Cons.IH Cons.prems(3) show ?thesis by (simp add: vm_page_to_paddr_def PAGE_BELONGS_TO_ARENA_def)
  qed
qed simp

section \<open>The contract of a page allocator\<close>

locale page_source =
  fixes alloc :: "'s \<Rightarrow> 's \<times> 'p option"
    and give_back :: "'p \<Rightarrow> 's \<Rightarrow> 's"
    and free :: "'s \<Rightarrow> 'p set"
    and pages :: "'s \<Rightarrow> 'p set"
    and ok :: "'s \<Rightarrow> bool"
  assumes alloc_some: "ok s \<Longrightarrow> alloc s = (s', Some p) \<Longrightarrow> ok s' \<and> p \<in> free s \<and> free s' = free s - {p} \<and> pages s' = pages s"
    and alloc_none: "ok s \<Longrightarrow> alloc s = (s', None) \<Longrightarrow> ok s' \<and> free s' = free s \<and> pages s' = pages s"
    and give: "ok s \<Longrightarrow> p \<in> pages s - free s \<Longrightarrow>
      ok (give_back p s) \<and> free (give_back p s) = insert p (free s) \<and> pages (give_back p s) = pages s"
    and free_sub: "free s \<subseteq> pages s"
begin

definition held :: "'s \<Rightarrow> 'p set" where
  "held s = pages s - free s"

lemma alloc_fresh:
  "ok s \<Longrightarrow> alloc s = (s', Some p) \<Longrightarrow> p \<notin> held s \<and> held s' = insert p (held s)"
  using alloc_some [of s s' p] free_sub [of s] by (auto simp: held_def)

lemma alloc_give: "ok s \<Longrightarrow> alloc s = (s', Some p) \<Longrightarrow> free (give_back p s') = free s"
  using alloc_some [of s s' p] free_sub [of s] give [of s' p] by auto

lemma two_allocs: "ok s \<Longrightarrow> alloc s = (s', Some p) \<Longrightarrow> alloc s' = (s'', Some q) \<Longrightarrow> p \<noteq> q"
  using alloc_some [of s s' p] alloc_some [of s' s'' q] by auto

end

lemma pmm_alloc_page_taken:
  assumes "pmm_inv arenas" "pmm_alloc_page arenas = (arenas', r)"
  shows "taken arenas (case r of None \<Rightarrow> [] | Some p \<Rightarrow> [p]) arenas'"
proof (cases "snd (pmm_alloc_pages 1 arenas)")
  case Nil
  then show ?thesis using pmm_alloc_pages_taken [OF assms(1), of 1] assms(2) by (auto simp: pmm_alloc_page_def split_beta)
next
  case (Cons p ps)
  have "length (snd (pmm_alloc_pages 1 arenas)) \<le> 1"
    by (cases arenas) (simp_all add: pmm_alloc_pages_eq pmm_alloc_pages_def [of _ "[]"])
  then have "ps = []" unfolding Cons by simp
  then show ?thesis using pmm_alloc_pages_taken [OF assms(1), of 1] assms(2) Cons by (auto simp: pmm_alloc_page_def split_beta)
qed

lemma pmm_free_page_effect:
  "pmm_inv as \<Longrightarrow> p \<in> all_pages as - free_pages as \<Longrightarrow>
     pmm_inv (fst (pmm_free_page p as)) \<and> free_pages (fst (pmm_free_page p as)) = insert p (free_pages as) \<and>
     all_pages (fst (pmm_free_page p as)) = all_pages as"
  using free_one_effect [of as p] all_pages_cong [of "fst (free_one p as)" as]
  by (auto simp: pmm_free_page_def all_pages_def split_beta)

interpretation pm: page_source pmm_alloc_page "\<lambda>p as. fst (pmm_free_page p as)" free_pages all_pages pmm_inv
proof (unfold_locales, goal_cases)
  case (1 s s' p)
  then show ?case using pmm_alloc_page_taken [OF 1] taken_all [of s "[p]" s'] by (simp add: taken_def)
next
  case (2 s s')
  then show ?case using pmm_alloc_page_taken [OF 2] taken_all [of s "[]" s'] by (simp add: taken_def)
next
  case (3 s p)
  then show ?case by (rule pmm_free_page_effect)
next
  case (4 s)
  show ?case by (rule free_pages_all)
qed

text \<open>Adding an arena whose page array is new.\<close>

lemma add_by_priority_set: "set (add_by_priority arena as) = insert arena (set as)"
  by (induction as) auto

lemma add_by_priority_distinct:
  "distinct (map f (add_by_priority arena as)) \<longleftrightarrow> f arena \<notin> f ` set as \<and> distinct (map f as)"
  by (induction as) (auto simp: add_by_priority_set)

lemma pmm_add_arena_inv:
  assumes "pmm_inv arenas" "mem \<notin> page_array ` set arenas" "ar_base arena mod PAGE_SIZE = 0" "ar_size arena mod PAGE_SIZE = 0"
    "0 < ar_size arena" "ar_base arena + ar_size arena \<le> 2 ^ 64"
  shows "pmm_inv (pmm_add_arena mem arena arenas)"
proof -
  let ?n = "arena\<lparr>free_count := page_count arena, page_array := mem,
       page_flags := replicate (page_count arena) 0, free_list := [0..<page_count arena]\<rparr>"
  have pc: "page_count ?n = page_count arena" by (simp add: page_count_def)
  have "arena_ok ?n" using assms(3-6) unfolding arena_ok_def pc by (auto simp: page_is_free_def)
  then show ?thesis using assms(1,2)
    by (simp add: pmm_inv_def pmm_add_arena_def add_by_priority_set add_by_priority_distinct)
qed

section \<open>Properties\<close>

definition pmm_ex :: "pmm_arena list" where
  "pmm_ex = pmm_add_arena 1 \<lparr>ar_flags = 1, ar_priority = 0, ar_base = 0x1000, ar_size = 0x6000, free_count = 0,
     page_array = 0, page_flags = [], free_list = []\<rparr> []"

lemma pmm_ex_eq:
  "pmm_ex = [\<lparr>ar_flags = 1, ar_priority = 0, ar_base = 0x1000, ar_size = 0x6000, free_count = 6,
     page_array = 1, page_flags = [0, 0, 0, 0, 0, 0], free_list = [0, 1, 2, 3, 4, 5]\<rparr>]"
proof -
  have "[0..<6] = [0, 1, 2, 3, 4, 5 :: nat]" by code_simp
  moreover have "replicate 6 (0::u8) = [0, 0, 0, 0, 0, 0]" by (simp add: numeral_eq_Suc)
  ultimately show ?thesis by (simp add: pmm_ex_def pmm_add_arena_def page_count_def)
qed

lemma pmm_ex_inv: "pmm_inv pmm_ex"
  unfolding pmm_ex_def by (rule pmm_add_arena_inv) (simp_all add: pmm_inv_def)


lemma pmm_ex_run: "pmm_alloc_contiguous 2 13 pmm_ex = Some ([take_run 1 2 (hd pmm_ex)], 0x2000, [(1, 1), (1, 2)])"
  by (simp add: pmm_alloc_contiguous_def pmm_ex_eq ROUNDUP_def find_run.simps first_used_def page_count_def page_is_free_def
      upt_rec Let_def)


text \<open>Freeing allocated pages of the arenas puts exactly them back and counts them; freeing what an allocation returned
  restores the free pages.\<close>

theorem pmm_free_correct:
  assumes "pmm_inv arenas" "distinct pages" "set pages \<subseteq> all_pages arenas - free_pages arenas"
  shows "snd (pmm_free pages arenas) = length pages \<and> pmm_inv (fst (pmm_free pages arenas)) \<and>
    free_pages (fst (pmm_free pages arenas)) = free_pages arenas \<union> set pages \<and>
    (\<forall>arenas0. pmm_inv arenas0 \<longrightarrow> pmm_alloc_pages count arenas0 = (arenas, pages) \<longrightarrow>
      free_pages (fst (pmm_free pages arenas)) = free_pages arenas0)"
proof -
  have "free_pages (fst (pmm_free pages arenas)) = free_pages arenas0"
    if "pmm_inv arenas0" "pmm_alloc_pages count arenas0 = (arenas, pages)" for arenas0
    using pmm_alloc_pages_taken [OF that(1), of count] that(2) pmm_free_effect [OF assms] by (auto simp: taken_def)
  with pmm_free_effect [OF assms] show ?thesis by blast
qed

lemma pmm_free_witness: "free_pages (fst (pmm_free [(1, 0), (1, 1)] (fst (pmm_alloc_pages 2 pmm_ex)))) = free_pages pmm_ex"
proof -
  have a: "pmm_alloc_pages 2 pmm_ex = (fst (pmm_alloc_pages 2 pmm_ex), [(1, 0), (1, 1)])"
    by (simp add: pmm_ex_eq pmm_alloc_pages_eq numeral_2_eq_2)
  have t: "taken pmm_ex [(1, 0), (1, 1)] (fst (pmm_alloc_pages 2 pmm_ex))"
    using pmm_alloc_pages_taken [OF pmm_ex_inv, of 2] arg_cong [OF a, of snd] by simp
  have "pmm_inv (fst (pmm_alloc_pages 2 pmm_ex))" "distinct [(1::ptr, 0::nat), (1, 1)]" using t by (simp_all add: taken_def)
  from pmm_free_correct [OF this] taken_all [OF t] pmm_ex_inv a show ?thesis by blast
qed

text \<open>\<^verbatim>\<open>pmm_alloc_pages\<close> never goes past the first arena: it takes the first \<open>count\<close> pages of its free list, or all it has, and
  leaves every other arena as it was, although the comment says that it walks the arenas.\<close>

theorem pmm_alloc_pages_first_arena:
  "pmm_alloc_pages count (a # as) =
     (fold take_page (take count (free_list a)) a # as, map (Pair (page_array a)) (take count (free_list a)))"
  by (rule pmm_alloc_pages_eq)

end
