(* ===== verification/Stage2.thy ===== *)
theory Stage2
  imports Pmm
begin

text \<open>
  Stage-2 translation, \<^verbatim>\<open>hv/arch/armv8a/hv_arch_mem.c\<close>: the page tables that translate the intermediate physical
  addresses of a machine. The tables live in kernel memory, a map from the address of a 64-bit word to its value; the
  code reaches a table through \<^verbatim>\<open>paddr_to_kvaddr\<close> (\<^verbatim>\<open>kernel/vm/vm.c\<close>), which looks it up in the boot mappings that the
  platform supplies. Every page of a table comes from the page allocator. Writes of entries and TLB operations are also
  recorded in the order the code issues them, because the architecture prescribes that order.
\<close>

section \<open>State\<close>

record mmu_mapping =
  phys :: paddr
  virt :: u64
  map_size :: u64
  map_flags :: u32

record arch_vm_mem =
  vttbr :: u64
  st2_table :: paddr
  st2_ln :: "vm_page list"
  st2_root_kva :: u64
  am_vmid :: u32

datatype st2_event = Set_pte u64 u64 | Tlb_flush_ipa paddr | Tlb_flush u64

record mm_state =
  arenas :: "pmm_arena list"
  mmu_initial_mappings :: "mmu_mapping list"
  kmem :: "u64 \<Rightarrow> u64"
  base_vmid :: u32
  vmid_bits :: u32
  root_order :: nat
  root_level :: nat
  st2_log :: "st2_event list"

record phy_mem_seg =
  seg_pa :: paddr
  seg_ipa :: paddr
  pgs :: "vm_page list"

record vm_mem =
  arch_mem :: arch_vm_mem
  seg_num :: int
  mem_seg :: "phy_mem_seg list option"
  need_flush :: bool

fun find_kvaddr :: "mmu_mapping list \<Rightarrow> paddr \<Rightarrow> u64" where
  "find_kvaddr [] pa = 0"
| "find_kvaddr (m # ms) pa =
     (if map_size m = 0 then 0
      else if \<not> bit (map_flags m) 0 \<and> phys m \<le> pa \<and> pa \<le> phys m + map_size m - 1 then virt m + (pa - phys m)
      else find_kvaddr ms pa)"

definition paddr_to_kvaddr :: "mm_state \<Rightarrow> paddr \<Rightarrow> u64" where
  "paddr_to_kvaddr s pa = find_kvaddr (mmu_initial_mappings s) pa"

text \<open>\<^verbatim>\<open>memset(kva, 0, PAGE_SIZE)\<close>, and the address of a page as the callers see it, all ones for a page of no arena.\<close>

definition memset_page :: "u64 \<Rightarrow> mm_state \<Rightarrow> mm_state" where
  "memset_page kva s = s\<lparr>kmem := (\<lambda>a. if a - kva < 0x1000 then 0 else kmem s a)\<rparr>"

definition page_paddr :: "mm_state \<Rightarrow> vm_page \<Rightarrow> paddr" where
  "page_paddr s pg = (case vm_page_to_paddr (arenas s) pg of None \<Rightarrow> -1 | Some pa \<Rightarrow> of_nat pa)"

section \<open>Entries\<close>

abbreviation (input) MMU_OA_RANGE_MASK :: u64 where "MMU_OA_RANGE_MASK \<equiv> 0xFFFFFFFFFFFF"
abbreviation (input) VM_MEM_BLOCK_MASK :: u64 where "VM_MEM_BLOCK_MASK \<equiv> 0x1FFFFF"
abbreviation (input) VM_MEM_BLOCK_2M :: u64 where "VM_MEM_BLOCK_2M \<equiv> 0x200000"

definition BM :: "nat \<Rightarrow> nat \<Rightarrow> u64 \<Rightarrow> u64" where
  "BM base n v = push_bit base (v AND (push_bit n 1 - 1))"

definition MMU_PTE_BLOCK :: u64 where
  "MMU_PTE_BLOCK = BM 0 2 1 OR BM 10 1 1 OR BM 8 2 3 OR BM 6 2 3 OR BM 2 4 4"

definition MMU_PTE_TABLE :: u64 where
  "MMU_PTE_TABLE = BM 0 2 3 OR BM 10 1 1 OR BM 8 2 3 OR BM 6 2 3 OR BM 2 4 4"

definition is_root_level :: "mm_state \<Rightarrow> nat \<Rightarrow> bool" where
  "is_root_level s level \<longleftrightarrow> root_level s = level"

definition get_vmid :: "mm_state \<Rightarrow> u16 \<times> mm_state" where
  "get_vmid s = (ucast (base_vmid s), s\<lparr>base_vmid := base_vmid s + 1\<rparr>)"

text \<open>The result is the status, the table data of the machine and the state.\<close>

definition init_st2_root :: "arch_vm_mem \<Rightarrow> mm_state \<Rightarrow> int \<times> arch_vm_mem \<times> mm_state" where
  "init_st2_root am s =
     (case pmm_alloc_contiguous (2 ^ root_order s) (PAGE_SIZE_SHIFT + root_order s) (arenas s) of
        None \<Rightarrow> (ERR_NO_MEMORY, am\<lparr>st2_ln := []\<rparr>, s)
      | Some (as, pa, ln) \<Rightarrow>
          (let s = s\<lparr>arenas := as\<rparr>; am = am\<lparr>st2_ln := ln, st2_table := of_nat pa\<rparr>
           in if st2_table am = -1 then
                (ERR_NO_MEMORY, am\<lparr>st2_ln := []\<rparr>, s\<lparr>arenas := fst (pmm_free ln as)\<rparr>)
              else
                let am = am\<lparr>st2_root_kva := paddr_to_kvaddr s (st2_table am)\<rparr>
                in if st2_root_kva am = 0 then
                     (ERR_NOT_FOUND, am\<lparr>st2_ln := []\<rparr>, s\<lparr>arenas := fst (pmm_free ln as)\<rparr>)
                   else
                     let (vmid, s) = get_vmid s; am = am\<lparr>am_vmid := ucast vmid\<rparr>;
                         am = am\<lparr>vttbr := push_bit (64 - 16) (ucast (am_vmid am)) OR st2_table am\<rparr>
                     in (NO_ERROR, am, memset_page (st2_root_kva am) s)))"

definition pte_index :: "mm_state \<Rightarrow> paddr \<Rightarrow> nat \<Rightarrow> u32" where
  "pte_index s ipa level =
     (let bit_shift = 9 * (3 - level) + PAGE_SIZE_SHIFT;
          off_shift = (if root_level s = level then root_order s else 0)
      in ucast (drop_bit bit_shift ipa) AND (push_bit (9 + off_shift) 1 - 1))"

definition is_pte_valid :: "u64 \<Rightarrow> bool" where
  "is_pte_valid pte \<longleftrightarrow> pte AND 1 \<noteq> 0"

definition is_pte_res :: "u64 \<Rightarrow> bool" where
  "is_pte_res pte \<longleftrightarrow> pte AND 1 \<noteq> 0 \<and> drop_bit 1 pte AND 1 = 0"

definition is_pte_block :: "u64 \<Rightarrow> bool" where
  "is_pte_block pte \<longleftrightarrow> pte AND 1 \<noteq> 0 \<and> drop_bit 1 pte AND 1 = 0"

definition pte_block_address :: "u64 \<Rightarrow> nat \<Rightarrow> paddr" where
  "pte_block_address pte level =
     (let block_size = [-1, 0x40000000, 0x200000, 0x1000] ! level
      in (pte AND MMU_OA_RANGE_MASK) AND NOT (block_size - 1))"

definition pte_table_address :: "u64 \<Rightarrow> paddr" where
  "pte_table_address pte = (pte AND MMU_OA_RANGE_MASK) AND NOT 0xFFF"

text \<open>\<open>slot kva i\<close> is the address of entry \<open>i\<close> of the table at \<open>kva\<close>, \<^verbatim>\<open>st2_kva + index\<close> on \<^verbatim>\<open>pte_t\<close> pointers.\<close>

definition slot :: "u64 \<Rightarrow> u32 \<Rightarrow> u64" where
  "slot kva i = kva + 8 * ucast i"

definition poke :: "u64 \<Rightarrow> u64 \<Rightarrow> mm_state \<Rightarrow> mm_state" where
  "poke a v s = s\<lparr>kmem := (kmem s)(a := v)\<rparr>"

text \<open>The loop of \<^verbatim>\<open>pte_get\<close> at level \<open>i\<close> with \<open>n\<close> levels to go.\<close>

fun pte_walk :: "nat \<Rightarrow> nat \<Rightarrow> u64 \<Rightarrow> paddr \<Rightarrow> mm_state \<Rightarrow> mm_state \<times> u64 option" where
  "pte_walk 0 i kva ipa s = (s, Some (slot kva (pte_index s ipa i)))"
| "pte_walk (Suc n) i kva ipa s =
     (let pte = slot kva (pte_index s ipa i)
      in if kmem s pte = 0 \<or> \<not> is_pte_valid (kmem s pte) then
           (case pmm_alloc_page (arenas s) of
              (as, None) \<Rightarrow> (s\<lparr>arenas := as\<rparr>, None)
            | (as, Some pg) \<Rightarrow>
                (let s = s\<lparr>arenas := as\<rparr>; phaddr = page_paddr s pg
                 in if phaddr = -1 then (s, None)
                    else let kva' = paddr_to_kvaddr s phaddr
                         in pte_walk n (i + 1) kva' ipa (poke pte (MMU_PTE_TABLE OR phaddr) (memset_page kva' s))))
         else if i = 3 \<or> is_pte_block (kmem s pte) then (s, None)
         else pte_walk n (i + 1) (paddr_to_kvaddr s (pte_table_address (kmem s pte))) ipa s)"

definition pte_get :: "arch_vm_mem \<Rightarrow> paddr \<Rightarrow> nat \<Rightarrow> mm_state \<Rightarrow> arch_vm_mem \<times> mm_state \<times> u64 option" where
  "pte_get am ipa level s =
     (let (ret, am, s) = (if st2_table am = 0 then init_st2_root am s else (NO_ERROR, am, s))
      in if ret \<noteq> NO_ERROR then (am, s, None)
         else (am, pte_walk (level - root_level s) (root_level s) (st2_root_kva am) ipa s))"

section \<open>Mapping and unmapping\<close>

definition set_pte :: "u64 \<Rightarrow> u64 \<Rightarrow> mm_state \<Rightarrow> mm_state" where
  "set_pte pte v s = (poke pte v s)\<lparr>st2_log := st2_log s @ [Set_pte pte v]\<rparr>"

definition tlb_flush_ipa :: "paddr \<Rightarrow> mm_state \<Rightarrow> mm_state" where
  "tlb_flush_ipa ipa s = s\<lparr>st2_log := st2_log s @ [Tlb_flush_ipa ipa]\<rparr>"

definition ST2_PERM_NOT :: "u64 \<Rightarrow> u64" where
  "ST2_PERM_NOT pte = pte AND NOT 0x00400000000000C0"

definition mem_pte_set :: "vm_mem \<Rightarrow> u64 \<Rightarrow> u64 \<Rightarrow> paddr \<Rightarrow> mm_state \<Rightarrow> vm_mem \<times> mm_state" where
  "mem_pte_set mem dst v ipa s =
     (if \<not> is_pte_valid (kmem s dst) then (mem, set_pte dst v s)
      else
        let orig_dst = kmem s dst; s = set_pte dst 0 s
        in if \<not> is_pte_valid v then (mem\<lparr>need_flush := True\<rparr>, s)
           else
             let (mem, s) = (if ST2_PERM_NOT orig_dst \<noteq> ST2_PERM_NOT v then (mem, tlb_flush_ipa ipa s)
                             else (mem\<lparr>need_flush := True\<rparr>, s))
             in (mem, set_pte dst v s))"

text \<open>The C operator \<^verbatim>\<open>!\<close> on an integer, and \<^verbatim>\<open>IS_PAGE_ALIGN\<close> as it is written.\<close>

definition c_not :: "u64 \<Rightarrow> u64" where
  "c_not x = (if x = 0 then 1 else 0)"

definition IS_PAGE_ALIGN :: "u64 \<Rightarrow> bool" where
  "IS_PAGE_ALIGN len \<longleftrightarrow> c_not (len AND c_not (0x1000 - 1)) \<noteq> 0"

function map_loop :: "vm_mem \<Rightarrow> paddr \<Rightarrow> paddr \<Rightarrow> int \<Rightarrow> mm_state \<Rightarrow> int \<times> vm_mem \<times> mm_state" where
  "map_loop mem pa ipa len s =
     (if len \<le> 0 then (0, mem, s)
      else if pa AND VM_MEM_BLOCK_MASK = 0 \<and> ipa AND VM_MEM_BLOCK_MASK = 0 \<and> len mod 0x200000 = 0 then
        (case pte_get (arch_mem mem) ipa 2 s of
           (am, s, None) \<Rightarrow> (ERR_NO_MEMORY, mem\<lparr>arch_mem := am\<rparr>, s)
         | (am, s, Some dst) \<Rightarrow>
             (case mem_pte_set (mem\<lparr>arch_mem := am\<rparr>) dst (MMU_PTE_BLOCK OR pa) ipa s of
                (mem, s) \<Rightarrow> map_loop mem (pa + VM_MEM_BLOCK_2M) (ipa + VM_MEM_BLOCK_2M) (len - 0x200000) s))
      else
        (case pte_get (arch_mem mem) ipa 3 s of
           (am, s, None) \<Rightarrow> (ERR_NO_MEMORY, mem\<lparr>arch_mem := am\<rparr>, s)
         | (am, s, Some dst) \<Rightarrow>
             (case mem_pte_set (mem\<lparr>arch_mem := am\<rparr>) dst (MMU_PTE_TABLE OR pa) ipa s of
                (mem, s) \<Rightarrow> map_loop mem (pa + 0x1000) (ipa + 0x1000) (len - 0x1000) s)))"
  by pat_completeness auto
termination by (relation "measure (\<lambda>(mem, pa, ipa, len, s). nat len)") auto

declare map_loop.simps [simp del]

definition arch_mem_map :: "vm_mem \<Rightarrow> paddr \<Rightarrow> paddr \<Rightarrow> int \<Rightarrow> mm_state \<Rightarrow> int \<times> vm_mem \<times> mm_state" where
  "arch_mem_map mem pa ipa len s =
     (if pa AND NOT MMU_OA_RANGE_MASK \<noteq> 0 \<or> ipa AND NOT MMU_OA_RANGE_MASK \<noteq> 0 then (ERR_INVALID_ARGS, mem, s)
      else if \<not> IS_PAGE_ALIGN (word_of_int len) \<or> len < 0x1000 \<or> \<not> IS_PAGE_ALIGN pa \<or> \<not> IS_PAGE_ALIGN ipa then
        (ERR_INVALID_ARGS, mem, s)
      else map_loop mem pa ipa len s)"

function unmap_loop :: "vm_mem \<Rightarrow> paddr \<Rightarrow> int \<Rightarrow> mm_state \<Rightarrow> int \<times> vm_mem \<times> mm_state" where
  "unmap_loop mem ipa len s =
     (if len \<le> 0 then (0, mem, s)
      else if ipa AND VM_MEM_BLOCK_MASK = 0 \<and> len mod 0x200000 = 0 then
        (case pte_get (arch_mem mem) ipa 2 s of
           (am, s, None) \<Rightarrow> (ERR_NOT_FOUND, mem\<lparr>arch_mem := am\<rparr>, s)
         | (am, s, Some dst) \<Rightarrow>
             (case mem_pte_set (mem\<lparr>arch_mem := am\<rparr>) dst 0 ipa s of
                (mem, s) \<Rightarrow> unmap_loop mem (ipa + VM_MEM_BLOCK_2M) (len - 0x200000) s))
      else
        (case pte_get (arch_mem mem) ipa 3 s of
           (am, s, None) \<Rightarrow> (ERR_NOT_FOUND, mem\<lparr>arch_mem := am\<rparr>, s)
         | (am, s, Some dst) \<Rightarrow>
             (case mem_pte_set (mem\<lparr>arch_mem := am\<rparr>) dst 0 ipa s of
                (mem, s) \<Rightarrow> unmap_loop mem (ipa + 0x1000) (len - 0x1000) s)))"
  by pat_completeness auto
termination by (relation "measure (\<lambda>(mem, ipa, len, s). nat len)") auto

declare unmap_loop.simps [simp del]

definition arch_mem_unmap :: "vm_mem \<Rightarrow> paddr \<Rightarrow> int \<Rightarrow> mm_state \<Rightarrow> int \<times> vm_mem \<times> mm_state" where
  "arch_mem_unmap mem ipa len s =
     (if ipa AND NOT MMU_OA_RANGE_MASK \<noteq> 0 then (ERR_INVALID_ARGS, mem, s)
      else if \<not> IS_PAGE_ALIGN (word_of_int len) \<or> len < 0x1000 \<or> \<not> IS_PAGE_ALIGN ipa then (ERR_INVALID_ARGS, mem, s)
      else unmap_loop mem ipa len s)"

section \<open>Set-up and translation in software\<close>

text \<open>
  \<^verbatim>\<open>arch_mem_init\<close> from the two identification registers; the result is the value written to \<^verbatim>\<open>vtcr_el2\<close>. The root
  geometry is set by the first CPU that runs it, when \<open>first\<close> holds. The entries of the table are
  (T0SZ, SL0, order, level).
\<close>

definition ipa_info :: "(u64 \<times> u64 \<times> nat \<times> nat) list" where
  "ipa_info = [(32, 1, 0, 1), (28, 1, 0, 1), (24, 1, 1, 1), (22, 1, 3, 1), (20, 2, 0, 0), (16, 2, 0, 0)]"

definition arch_mem_init :: "bool \<Rightarrow> u64 \<Rightarrow> u64 \<Rightarrow> mm_state \<Rightarrow> u64 \<times> mm_state" where
  "arch_mem_init first mmfr0 mmfr1 s =
     (let tmp = mmfr0 AND 0xf; (t0sz, sl0, order, level) = ipa_info ! unat tmp;
          s = (if first then s\<lparr>root_order := order, root_level := level\<rparr> else s);
          tmp1 = drop_bit 4 mmfr1 AND 0xf;
          s = (if tmp1 = 2 then s\<lparr>vmid_bits := 16\<rparr> else s)
      in (t0sz OR BM 6 2 sl0 OR BM 8 2 1 OR BM 10 2 1 OR BM 12 2 3 OR BM 14 2 0 OR BM 16 3 tmp OR
            BM 19 1 (if vmid_bits s = 16 then 1 else 0) OR push_bit 31 1, s))"

fun ipa_to_pa_loop :: "nat \<Rightarrow> nat \<Rightarrow> u64 \<Rightarrow> u64 option \<Rightarrow> paddr \<Rightarrow> mm_state \<Rightarrow> paddr" where
  "ipa_to_pa_loop 0 level kva pte ipa s =
     (case pte of
        None \<Rightarrow> 0
      | Some a \<Rightarrow>
          if \<not> is_pte_valid (kmem s a) \<or> is_pte_res (kmem s a) then 0
          else pte_block_address (kmem s a) level + (ipa AND (push_bit ((3 - level) * 9 + PAGE_SIZE_SHIFT) 1 - 1)))"
| "ipa_to_pa_loop (Suc n) level kva pte ipa s =
     (let a = slot kva (pte_index s ipa level); e = kmem s a
      in if e = 0 \<or> \<not> is_pte_valid e then 0
         else if is_pte_block e then
           pte_block_address e level + (ipa AND (push_bit ((3 - level) * 9 + PAGE_SIZE_SHIFT) 1 - 1))
         else ipa_to_pa_loop n (level + 1) (paddr_to_kvaddr s (pte_table_address e)) (Some a) ipa s)"

definition ipa_to_pa :: "arch_vm_mem \<Rightarrow> paddr \<Rightarrow> mm_state \<Rightarrow> paddr" where
  "ipa_to_pa am ipa s =
     (if ipa AND NOT MMU_OA_RANGE_MASK \<noteq> 0 then word_of_int ERR_INVALID_ARGS
      else if st2_root_kva am = 0 then 0
      else ipa_to_pa_loop (3 - root_level s) (root_level s) (st2_root_kva am) None ipa s)"

section \<open>What the hardware does\<close>

text \<open>
  The walk of the architecture from the table at \<open>kva\<close>, \<open>n\<close> levels above the last one: an entry with bit 0 clear faults, one
  with bits 01 is a block (above the last level, and not at level 0), one with bits 11 a table, or a page at level 3.
\<close>

definition level_shift :: "nat \<Rightarrow> nat" where
  "level_shift level = 9 * (3 - level) + 12"

definition leaf_out :: "u64 \<Rightarrow> paddr \<Rightarrow> nat \<Rightarrow> paddr" where
  "leaf_out e ipa sh = (e AND MMU_OA_RANGE_MASK AND NOT (mask sh)) OR (ipa AND mask sh)"

fun st2_walk :: "nat \<Rightarrow> u64 \<Rightarrow> paddr \<Rightarrow> mm_state \<Rightarrow> paddr option" where
  "st2_walk 0 kva ipa s =
     (let e = kmem s (slot kva (pte_index s ipa 3))
      in if bit e 0 \<and> bit e 1 then Some (leaf_out e ipa 12) else None)"
| "st2_walk (Suc n) kva ipa s =
     (let e = kmem s (slot kva (pte_index s ipa (2 - n)))
      in if \<not> bit e 0 then None
         else if \<not> bit e 1 then (if n = 2 then None else Some (leaf_out e ipa (level_shift (2 - n))))
         else st2_walk n (paddr_to_kvaddr s (pte_table_address e)) ipa s)"

definition st2_translate :: "u64 \<Rightarrow> paddr \<Rightarrow> mm_state \<Rightarrow> paddr option" where
  "st2_translate root ipa s = st2_walk (3 - root_level s) root ipa s"

lemma pte_bits [simp]:
  "is_pte_valid e \<longleftrightarrow> bit e 0" "is_pte_block e \<longleftrightarrow> bit e 0 \<and> \<not> bit e 1" "is_pte_res e \<longleftrightarrow> bit e 0 \<and> \<not> bit e 1"
  by (simp_all add: is_pte_valid_def is_pte_block_def is_pte_res_def bit_iff_odd_drop_bit and_one_eq odd_iff_mod_2_eq_one)

section \<open>Index paths\<close>

text \<open>The most significant index first; the root has \<open>2 ^ root_order\<close> pages.\<close>

definition ipa_bits :: "mm_state \<Rightarrow> nat" where
  "ipa_bits s = 12 + 9 * (4 - root_level s) + root_order s"

definition path :: "mm_state \<Rightarrow> paddr \<Rightarrow> nat \<Rightarrow> u32 list" where
  "path s ipa level = map (pte_index s ipa) [root_level s..<level]"

definition lim :: "mm_state \<Rightarrow> u32 list \<Rightarrow> nat" where
  "lim s p = 2 ^ (9 + (if p = [] then root_order s else 0))"

definition geom_ok :: "mm_state \<Rightarrow> bool" where
  "geom_ok s \<longleftrightarrow> root_level s \<le> 1 \<and> root_order s \<le> 3"

lemma bit_pte_index:
  assumes "geom_ok s"
  shows "bit (pte_index s ipa l) j \<longleftrightarrow>
    j < 9 + (if root_level s = l then root_order s else 0) \<and> bit ipa (level_shift l + j)"
proof -
  let ?n = "9 + (if root_level s = l then root_order s else 0)"
  have "push_bit ?n 1 - 1 = (mask ?n :: u32)" using assms by (intro push_bit_one_minus_one) (simp add: geom_ok_def)
  then have "pte_index s ipa l = ucast (drop_bit (level_shift l) ipa) AND mask ?n"
    by (simp only: pte_index_def level_shift_def Let_def)
  moreover have "?n \<le> 32" using assms by (simp add: geom_ok_def)
  ultimately show ?thesis by (auto simp: bit_simps)
qed

lemma pte_index_lim:
  assumes "geom_ok s"
  shows "unat (pte_index s ipa l) < 2 ^ (9 + (if root_level s = l then root_order s else 0))"
proof -
  let ?n = "9 + (if root_level s = l then root_order s else 0)"
  have "pte_index s ipa l = take_bit ?n (pte_index s ipa l)"
    by (rule bit_word_eqI) (simp add: bit_take_bit_iff bit_pte_index [OF assms])
  then have "unat (pte_index s ipa l) = take_bit ?n (unat (pte_index s ipa l))"
    by (metis unsigned_take_bit_eq)
  then show ?thesis by (metis take_bit_nat_less_exp)
qed

lemma length_path [simp]: "length (path s ipa l) = l - root_level s"
  by (simp add: path_def)

lemma path_Suc: "root_level s \<le> l \<Longrightarrow> path s ipa (Suc l) = path s ipa l @ [pte_index s ipa l]"
  by (simp add: path_def)

lemma index_in_lim: "geom_ok s \<Longrightarrow> root_level s \<le> l \<Longrightarrow> unat (pte_index s ipa l) < lim s (path s ipa l)"
  using pte_index_lim [of s ipa l] by (auto simp: lim_def path_def split: if_splits)

lemma slot_level:
  assumes "root_level s \<le> l" "l \<le> 3" "geom_ok s" "level_shift l \<le> m" "m < ipa_bits s"
  shows "\<exists>i. root_level s \<le> i \<and> i \<le> l \<and> level_shift i \<le> m \<and>
    m - level_shift i < 9 + (if root_level s = i then root_order s else 0)"
proof -
  define d where "d = (m - 12) div 9"
  have d: "12 + 9 * d \<le> m" "m < 12 + 9 * d + 9" using assms(4) by (auto simp: d_def level_shift_def) 
  show ?thesis
  proof (cases "d \<le> 3 - root_level s")
    case True
    have "3 - l \<le> d" using d assms(2,4) by (simp add: level_shift_def)
    with True d assms(1,2) show ?thesis by (intro exI [of _ "3 - d"]) (auto simp: level_shift_def)
  next
    case False
    then have "12 + 9 * (3 - root_level s) \<le> m" using d by linarith
    with assms show ?thesis
      by (intro exI [of _ "root_level s"]) (auto simp: level_shift_def ipa_bits_def geom_ok_def)
  qed
qed

text \<open>Two addresses below the size of the address space share a slot at level \<open>l\<close> exactly if they agree above its block.\<close>

lemma same_slot_iff:
  assumes g: "geom_ok s" and l: "root_level s \<le> l" "l \<le> 3" and x: "x < 2 ^ ipa_bits s" "y < 2 ^ ipa_bits s"
  shows "path s x (Suc l) = path s y (Suc l) \<longleftrightarrow> drop_bit (level_shift l) x = drop_bit (level_shift l) y"
proof
  assume eq: "drop_bit (level_shift l) x = drop_bit (level_shift l) y"
  have "pte_index s x i = pte_index s y i" if "i \<le> l" for i
  proof (rule bit_word_eqI)
    fix j
    have "bit x (level_shift i + j) = bit y (level_shift i + j)"
      using arg_cong [OF eq, of "\<lambda>w. bit w (level_shift i + j - level_shift l)"] that l
      by (simp add: bit_drop_bit_eq level_shift_def algebra_simps)
    then show "bit (pte_index s x i) j = bit (pte_index s y i) j" by (simp add: bit_pte_index [OF g])
  qed
  then show "path s x (Suc l) = path s y (Suc l)" by (auto simp: path_def)
next
  assume eq: "path s x (Suc l) = path s y (Suc l)"
  have idx: "pte_index s x i = pte_index s y i" if "root_level s \<le> i" "i \<le> l" for i
    using eq that unfolding path_def by (metis atLeastLessThan_iff le_imp_less_Suc map_eq_conv set_upt)
  have hi: "\<not> bit w m" if "w < 2 ^ ipa_bits s" "ipa_bits s \<le> m" for w :: u64 and m
  proof -
    have b: "ipa_bits s < 64" using g by (auto simp: geom_ok_def ipa_bits_def)
    have "unat w < 2 ^ ipa_bits s" using that(1) b by (simp add: word_less_nat_alt unat_exp)
    also have "(2::nat) ^ ipa_bits s \<le> 2 ^ m" using that(2) by simp
    finally have "\<not> bit (unat w) m" by (simp add: bit_iff_odd)
    then show ?thesis by (simp add: bit_unsigned_iff)
  qed
  show "drop_bit (level_shift l) x = drop_bit (level_shift l) y"
  proof (rule bit_word_eqI)
    fix j
    let ?m = "level_shift l + j"
    show "bit (drop_bit (level_shift l) x) j = bit (drop_bit (level_shift l) y) j"
    proof (cases "?m < ipa_bits s")
      case False
      then show ?thesis using hi [OF x(1), of ?m] hi [OF x(2), of ?m] by (simp add: bit_drop_bit_eq not_less)
    next
      case True
      obtain i where i: "root_level s \<le> i" "i \<le> l" "level_shift i \<le> ?m"
        "?m - level_shift i < 9 + (if root_level s = i then root_order s else 0)"
        using slot_level [OF l g _ True] by auto
      have "bit x ?m = bit y ?m"
        using arg_cong [OF idx [OF i(1,2)], of "\<lambda>w. bit w (?m - level_shift i)"] i(3,4) by (simp add: bit_pte_index [OF g])
      then show ?thesis by (simp add: bit_drop_bit_eq)
    qed
  qed
qed

section \<open>The tables reachable from a root\<close>

inductive st2_node :: "mm_state \<Rightarrow> u64 \<Rightarrow> u32 list \<Rightarrow> u64 \<Rightarrow> bool" for s r where
  root: "st2_node s r [] r"
| step: "st2_node s r p k \<Longrightarrow> unat i < lim s p \<Longrightarrow> root_level s + length p < 3 \<Longrightarrow>
    bit (kmem s (slot k i)) 0 \<Longrightarrow> bit (kmem s (slot k i)) 1 \<Longrightarrow>
    st2_node s r (p @ [i]) (paddr_to_kvaddr s (pte_table_address (kmem s (slot k i))))"

inductive_simps st2_node_nil: "st2_node s r [] k"
inductive_simps st2_node_snoc: "st2_node s r (p @ [i]) k"

lemma st2_node_det: "st2_node s r p k \<Longrightarrow> st2_node s r p k' \<Longrightarrow> k = k'"
proof (induction arbitrary: k' rule: st2_node.induct)
  case root
  then show ?case by (simp add: st2_node_nil)
next
  case (step p k i)
  from step.prems obtain k1 where "st2_node s r p k1" "k' = paddr_to_kvaddr s (pte_table_address (kmem s (slot k1 i)))"
    by (auto simp: st2_node_snoc)
  with step.IH show ?case by simp
qed

text \<open>\<open>slot_at s r p i a\<close>: \<open>a\<close> is the address of entry \<open>i\<close> of the table of root \<open>r\<close> with path \<open>p\<close>.\<close>

definition slot_at :: "mm_state \<Rightarrow> u64 \<Rightarrow> u32 list \<Rightarrow> u32 \<Rightarrow> u64 \<Rightarrow> bool" where
  "slot_at s r p i a \<longleftrightarrow> (\<exists>k. st2_node s r p k \<and> unat i < lim s p \<and> a = slot k i)"

text \<open>Frame conditions of the table operations: the static data is the same and no page becomes free.\<close>

definition same_static :: "mm_state \<Rightarrow> mm_state \<Rightarrow> bool" where
  "same_static s s' \<longleftrightarrow> root_level s' = root_level s \<and> root_order s' = root_order s \<and>
     mmu_initial_mappings s' = mmu_initial_mappings s \<and> map geom (arenas s') = map geom (arenas s) \<and>
     free_pages (arenas s') \<subseteq> free_pages (arenas s)"

lemma same_static_refl [simp]: "same_static s s"
  by (simp add: same_static_def)

lemma same_static_trans: "same_static s s' \<Longrightarrow> same_static s' s'' \<Longrightarrow> same_static s s''"
  by (auto simp: same_static_def)

lemma static_eqs:
  assumes "same_static s s'"
  shows "paddr_to_kvaddr s' = paddr_to_kvaddr s" "lim s' = lim s" "path s' = path s" "pte_index s' = pte_index s"
    "root_level s' = root_level s" "geom_ok s' = geom_ok s" "ipa_bits s' = ipa_bits s" "root_order s' = root_order s"
proof -
  show i: "pte_index s' = pte_index s" using assms by (intro ext) (simp add: pte_index_def same_static_def)
  show "path s' = path s" using assms by (intro ext) (simp add: path_def i same_static_def)
qed (use assms in \<open>auto simp: same_static_def paddr_to_kvaddr_def lim_def geom_ok_def ipa_bits_def\<close>)

text \<open>One slot changes.\<close>

lemma node_after_write:
  assumes st: "same_static s s'" and node: "st2_node s' r p k"
    and same: "\<And>r p i a. slot_at s r p i a \<Longrightarrow> r \<in> R \<Longrightarrow> (r, p, i) \<noteq> (r0, p0, i0) \<Longrightarrow> kmem s' a = kmem s a"
    and r: "r \<in> R" and a0: "slot_at s r0 p0 i0 a0"
  shows "st2_node s r p k \<or> (\<exists>q. r = r0 \<and> p = p0 @ i0 # q \<and> bit (kmem s' a0) 0 \<and> bit (kmem s' a0) 1 \<and> root_level s + length p0 < 3)"
  using node
proof (induction rule: st2_node.induct)
  case root
  show ?case by (simp add: st2_node.root)
next
  case (step p k i)
  show ?case
  proof (cases "st2_node s r p k")
    case True
    then have at: "slot_at s r p i (slot k i)" using step.hyps by (auto simp: slot_at_def static_eqs [OF st])
    show ?thesis
    proof (cases "(r, p, i) = (r0, p0, i0)")
      case True
      then have "slot k i = a0" using at a0 by (auto simp: slot_at_def dest: st2_node_det)
      with True step.hyps show ?thesis by (simp add: static_eqs [OF st])
    next
      case False
      from same [OF at r False] True step.hyps show ?thesis
        using st2_node.step [OF True, of i] by (simp add: static_eqs [OF st])
    qed
  next
    case False
    with step.IH show ?thesis by auto
  qed
qed


section \<open>Pages of the tables\<close>

definition page_kva :: "mm_state \<Rightarrow> vm_page \<Rightarrow> u64" where
  "page_kva s pg = paddr_to_kvaddr s (page_paddr s pg)"

definition in_page :: "u64 \<Rightarrow> u64 \<Rightarrow> bool" where
  "in_page k a \<longleftrightarrow> a - k < 0x1000"

text \<open>
  The pages of the arenas are at nonzero addresses below \<open>2 ^ 48\<close>, and the boot mappings show them at disjoint addresses,
  none of them NULL.
\<close>

definition kva_ok :: "mm_state \<Rightarrow> bool" where
  "kva_ok s \<longleftrightarrow> (\<forall>f\<in>all_pages (arenas s). page_paddr s f AND 0xFFF = 0 \<and> page_paddr s f AND NOT MMU_OA_RANGE_MASK = 0 \<and>
     page_paddr s f \<noteq> 0 \<and> page_kva s f \<noteq> 0 \<and>
     (\<forall>g\<in>all_pages (arenas s). f \<noteq> g \<longrightarrow> (\<forall>a. \<not> (in_page (page_kva s f) a \<and> in_page (page_kva s g) a))))"

definition st2_inv :: "mm_state \<Rightarrow> u64 set \<Rightarrow> bool" where
  "st2_inv s R \<longleftrightarrow> pmm_inv (arenas s) \<and> geom_ok s \<and> kva_ok s \<and>
     (\<forall>r\<in>R. \<forall>r'\<in>R. \<forall>p i a p' i'. slot_at s r p i a \<longrightarrow> slot_at s r' p' i' a \<longrightarrow> r = r' \<and> p = p' \<and> i = i') \<and>
     (\<forall>r\<in>R. \<forall>p i a. slot_at s r p i a \<longrightarrow> (\<forall>f\<in>free_pages (arenas s). \<not> in_page (page_kva s f) a))"

lemma vm_page_to_paddr_geom:
  "map geom as = map geom bs \<Longrightarrow> vm_page_to_paddr as pg = vm_page_to_paddr bs pg"
proof (induction as arbitrary: bs)
  case (Cons a as)
  then obtain b bs' where bs: "bs = b # bs'" "geom a = geom b" "map geom as = map geom bs'" by (cases bs) auto
  have "PAGE_BELONGS_TO_ARENA pg a = PAGE_BELONGS_TO_ARENA pg b" "PAGE_ADDRESS_FROM_ARENA pg a = PAGE_ADDRESS_FROM_ARENA pg b"
    using bs(2) by (auto simp: geom_def PAGE_BELONGS_TO_ARENA_def PAGE_ADDRESS_FROM_ARENA_def page_count_def)
  with Cons.IH [OF bs(3)] show ?case by (simp add: bs(1) vm_page_to_paddr_def)
qed simp

lemma static_pages:
  assumes "same_static s s'"
  shows "page_paddr s' = page_paddr s" "page_kva s' = page_kva s" "all_pages (arenas s') = all_pages (arenas s)"
    "kva_ok s' = kva_ok s"
proof -
  have g: "map geom (arenas s') = map geom (arenas s)" using assms by (simp add: same_static_def)
  show p: "page_paddr s' = page_paddr s" by (intro ext) (simp add: page_paddr_def vm_page_to_paddr_geom [OF g])
  show k: "page_kva s' = page_kva s" by (intro ext) (simp add: page_kva_def p static_eqs [OF assms])
  show a: "all_pages (arenas s') = all_pages (arenas s)" by (rule all_pages_cong [OF g])
  show "kva_ok s' = kva_ok s" unfolding kva_ok_def p k a ..
qed

section \<open>Walks\<close>

lemma walk_descend:
  "st2_node s r (path s ipa l) k \<Longrightarrow> root_level s \<le> l \<Longrightarrow> l \<le> 3 \<Longrightarrow> st2_translate r ipa s = st2_walk (3 - l) k ipa s"
proof (induction "l - root_level s" arbitrary: l k)
  case 0
  then have "l = root_level s" by simp
  with 0 show ?case by (simp add: st2_translate_def path_def st2_node_nil)
next
  case (Suc d)
  then obtain l' where l': "l = Suc l'" "root_level s \<le> l'" "d = l' - root_level s" by (cases l) auto
  then obtain k' where k': "st2_node s r (path s ipa l') k'" "bit (kmem s (slot k' (pte_index s ipa l'))) 0"
     "bit (kmem s (slot k' (pte_index s ipa l'))) 1" "k = paddr_to_kvaddr s (pte_table_address (kmem s (slot k' (pte_index s ipa l'))))"
    using Suc.prems by (auto simp: path_Suc st2_node_snoc)
  have n: "3 - l' = Suc (2 - l')" "2 - (2 - l') = l'" "3 - l = 2 - l'" using l' Suc.prems(3) by auto
  have "st2_translate r ipa s = st2_walk (3 - l') k' ipa s"
    using Suc.hyps(1) [OF l'(3) k'(1)] l' Suc.prems(3) by simp
  also have "\<dots> = st2_walk (3 - l) k ipa s" unfolding n(1) n(3) using k'(2-4) n(2) by (simp add: Let_def)
  finally show ?case .
qed

lemma walk_same:
  assumes st: "same_static s s'" and g: "geom_ok s"
    and same: "\<And>l a. root_level s \<le> l \<Longrightarrow> l \<le> 3 \<Longrightarrow> slot_at s r (path s ipa l) (pte_index s ipa l) a \<Longrightarrow> kmem s' a = kmem s a"
  shows "st2_node s r (path s ipa (3 - n)) k \<Longrightarrow> n \<le> 3 - root_level s \<Longrightarrow> st2_walk n k ipa s' = st2_walk n k ipa s"
proof (induction n arbitrary: k)
  case 0
  have "slot_at s r (path s ipa 3) (pte_index s ipa 3) (slot k (pte_index s ipa 3))"
    using 0 index_in_lim [OF g, of 3] g by (auto simp: slot_at_def geom_ok_def)
  from same [OF _ _ this] g show ?case by (simp add: static_eqs [OF st] geom_ok_def)
next
  case (Suc n)
  let ?l = "2 - n" and ?a = "slot k (pte_index s ipa (2 - n))"
  have l: "root_level s \<le> ?l" "?l \<le> 3" "3 - Suc n = ?l" "3 - n = Suc ?l" "?l < 3" using Suc.prems(2) g by (auto simp: geom_ok_def)
  have "slot_at s r (path s ipa ?l) (pte_index s ipa ?l) ?a"
    using Suc.prems(1) index_in_lim [OF g l(1)] unfolding l(3) by (auto simp: slot_at_def)
  then have e: "kmem s' ?a = kmem s ?a" by (rule same [OF l(1,2)])
  show ?case
  proof (cases "bit (kmem s ?a) 0 \<and> bit (kmem s ?a) 1")
    case True
    have "st2_node s r (path s ipa (3 - n)) (paddr_to_kvaddr s (pte_table_address (kmem s ?a)))"
      unfolding l(4) path_Suc [OF l(1)] using Suc.prems(1) True l index_in_lim [OF g l(1)] by (intro st2_node.step) auto
    from Suc.IH [OF this] Suc.prems(2) e show ?thesis by (simp add: static_eqs [OF st] Let_def)
  next
    case False
    with e show ?thesis by (auto simp: static_eqs [OF st] Let_def)
  qed
qed

lemma translate_same:
  assumes "same_static s s'" "geom_ok s"
    "\<And>l a. root_level s \<le> l \<Longrightarrow> l \<le> 3 \<Longrightarrow> slot_at s r (path s ipa l) (pte_index s ipa l) a \<Longrightarrow> kmem s' a = kmem s a"
  shows "st2_translate r ipa s' = st2_translate r ipa s"
proof -
  have "3 - (3 - root_level s) = root_level s" using assms(2) by (simp add: geom_ok_def)
  then have "st2_node s r (path s ipa (3 - (3 - root_level s))) r" by (simp add: path_def st2_node.root)
  from walk_same [OF assms this] show ?thesis by (simp add: st2_translate_def static_eqs [OF assms(1)])
qed


section \<open>Writing a leaf\<close>

lemma slot_at_det: "slot_at s r p i a \<Longrightarrow> slot_at s r p i b \<Longrightarrow> a = b"
  by (auto simp: slot_at_def dest: st2_node_det)

lemma slot_at_old:
  assumes "same_static s s'" "\<And>k. st2_node s' r p k \<Longrightarrow> st2_node s r p k" "slot_at s' r p i a"
  shows "slot_at s r p i a"
  using assms(2,3) by (auto simp: slot_at_def static_eqs [OF assms(1)])

lemma leaf_write:
  assumes inv: "st2_inv s R" and a0: "slot_at s r0 p0 i0 a0" "r0 \<in> R"
    and v: "\<not> (bit v 0 \<and> bit v 1) \<or> root_level s + length p0 = 3"
    and st: "same_static s s'" and ar: "arenas s' = arenas s" and km: "kmem s' = (kmem s)(a0 := v)"
  shows "st2_inv s' R" "r \<in> R \<Longrightarrow> st2_node s' r p k \<Longrightarrow> st2_node s r p k"
proof -
  have inj: "\<forall>r\<in>R. \<forall>r'\<in>R. \<forall>p i a p' i'. slot_at s r p i a \<longrightarrow> slot_at s r' p' i' a \<longrightarrow> r = r' \<and> p = p' \<and> i = i'"
    using inv unfolding st2_inv_def by blast
  have same: "kmem s' a = kmem s a" if "slot_at s r p i a" "r \<in> R" "(r, p, i) \<noteq> (r0, p0, i0)" for r p i a
    using inj a0 that km by auto
  have old: "st2_node s r p k" if "r \<in> R" "st2_node s' r p k" for r p k
    using node_after_write [OF st that(2) same that(1) a0(1)] v km by auto
  then show "r \<in> R \<Longrightarrow> st2_node s' r p k \<Longrightarrow> st2_node s r p k" .
  have "slot_at s r p i a" if "r \<in> R" "slot_at s' r p i a" for r p i a
    using slot_at_old [OF st old that(2)] that(1) by blast
  with inv show "st2_inv s' R"
    unfolding st2_inv_def ar static_pages [OF st] static_eqs [OF st] by meson
qed

text \<open>The entry that the walk of \<open>ipa\<close> reads at level \<open>l\<close> becomes a leaf.\<close>

definition on_path :: "mm_state \<Rightarrow> u64 \<Rightarrow> u32 list \<Rightarrow> u32 \<Rightarrow> u64 \<Rightarrow> paddr \<Rightarrow> bool" where
  "on_path s r0 p0 i0 r ipa \<longleftrightarrow> r = r0 \<and> path s ipa (root_level s + length p0) = p0 \<and>
     pte_index s ipa (root_level s + length p0) = i0"

lemma on_path_iff:
  assumes "root_level s \<le> l"
  shows "on_path s r0 (path s x l) (pte_index s x l) r y \<longleftrightarrow> r = r0 \<and> path s y (Suc l) = path s x (Suc l)"
proof -
  have "root_level s + length (path s x l) = l" using assms by simp
  then show ?thesis unfolding on_path_def using path_Suc [OF assms] by auto
qed

lemma off_path_same:
  assumes inv: "st2_inv s R" and a0: "slot_at s r0 p0 i0 a0" "r0 \<in> R" "r \<in> R"
    and st: "same_static s s'" and off: "\<not> on_path s r0 p0 i0 r ipa"
    and km: "\<And>a. a \<noteq> a0 \<Longrightarrow> (\<exists>p i. slot_at s r p i a) \<Longrightarrow> kmem s' a = kmem s a"
  shows "st2_translate r ipa s' = st2_translate r ipa s"
proof (rule translate_same [OF st])
  show "geom_ok s" using inv by (simp add: st2_inv_def)
  fix l a assume l: "root_level s \<le> l" "l \<le> 3" and at: "slot_at s r (path s ipa l) (pte_index s ipa l) a"
  have "a \<noteq> a0"
  proof
    assume "a = a0"
    with inv a0 at have "r = r0" "path s ipa l = p0" "pte_index s ipa l = i0" unfolding st2_inv_def by blast+
    with off l show False by (auto simp: on_path_def)
  qed
  with km at show "kmem s' a = kmem s a" by blast
qed

lemma leaf_translate:
  assumes inv: "st2_inv s R" and a0: "slot_at s r0 p0 i0 a0" "r0 \<in> R" and r: "r \<in> R"
    and l: "l = root_level s + length p0" "l \<le> 3" "0 < l" and v: "bit v 0 \<longrightarrow> (bit v 1 \<longleftrightarrow> l = 3)"
    and st: "same_static s s'" and km: "kmem s' = (kmem s)(a0 := v)"
  shows "st2_translate r ipa s' =
    (if on_path s r0 p0 i0 r ipa then (if bit v 0 then Some (leaf_out v ipa (level_shift l)) else None)
     else st2_translate r ipa s)"
proof (cases "on_path s r0 p0 i0 r ipa")
  case False
  from off_path_same [OF inv a0 r st False] False km show ?thesis by simp
next
  case True
  then have p: "r = r0" "path s ipa l = p0" "pte_index s ipa l = i0" by (auto simp: on_path_def l(1))
  obtain k where k: "st2_node s r0 p0 k" "a0 = slot k i0" using a0(1) by (auto simp: slot_at_def)
  have "st2_node s' r0 q k'" if "st2_node s r0 q k'" "length q \<le> length p0" for q k'
    using that
  proof (induction rule: st2_node.induct)
    case root
    show ?case by (rule st2_node.root)
  next
    case (step q k' i)
    have "slot_at s r0 q i (slot k' i)" using step.hyps by (auto simp: slot_at_def)
    then have "slot k' i \<noteq> a0" using inv a0 step.prems unfolding st2_inv_def by fastforce
    with step st2_node.step [of s' r0 q k' i] show ?case by (simp add: km static_eqs [OF st])
  qed
  with k(1) have "st2_node s' r0 p0 k" by simp
  then have "st2_node s' r (path s' ipa l) k" by (simp add: p static_eqs [OF st])
  from walk_descend [OF this] l have w: "st2_translate r ipa s' = st2_walk (3 - l) k ipa s'" by (simp add: static_eqs [OF st])
  have e: "kmem s' (slot k (pte_index s' ipa l)) = v" by (simp add: km k(2) p static_eqs [OF st])
  show ?thesis
  proof (cases "l = 3")
    case True
    with w e v \<open>on_path _ _ _ _ _ _\<close> show ?thesis by (auto simp: level_shift_def)
  next
    case False
    then obtain n where n: "3 - l = Suc n" "2 - n = l" "n \<noteq> 2" using l by (metis Suc_diff_Suc diff_Suc_Suc diff_diff_cancel diff_le_self le_neq_implies_less less_Suc_eq_le numeral_2_eq_2 numeral_3_eq_3 nat_less_le diff_self_eq_0)
    with w e v False \<open>on_path _ _ _ _ _ _\<close> show ?thesis by (auto simp: Let_def)
  qed
qed


section \<open>Adding a table\<close>

lemma slot_inj: "slot k i = slot k j \<longleftrightarrow> i = j"
proof
  assume "slot k i = slot k j"
  then have "push_bit 3 (ucast i :: u64) = push_bit 3 (ucast j)" by (simp add: slot_def push_bit_eq_mult mult.commute)
  then have eq: "bit (push_bit 3 (ucast i :: u64)) (n + 3) = bit (push_bit 3 (ucast j :: u64)) (n + 3)" for n by simp
  show "i = j"
  proof (rule bit_word_eqI)
    fix n assume "n < LENGTH(32)"
    with eq [of n] show "bit i n = bit j n" by (simp add: bit_simps)
  qed
qed simp

lemma slot_in_page: "unat i < 512 \<Longrightarrow> in_page k (slot k i)"
proof -
  assume "unat i < 512"
  then have "unat (8 * ucast i :: u64) < 4096" by (simp add: unat_word_ariths unsigned_ucast_eq take_bit_nat_eq_self)
  then show ?thesis by (simp add: in_page_def slot_def word_less_nat_alt)
qed

lemma table_entry:
  assumes "pa AND 0xFFF = 0" "pa AND NOT MMU_OA_RANGE_MASK = 0"
  shows "bit (MMU_PTE_TABLE OR pa) 0" "bit (MMU_PTE_TABLE OR pa) 1" "pte_table_address (MMU_PTE_TABLE OR pa) = pa"
    "leaf_out (MMU_PTE_TABLE OR pa) ipa 12 = pa OR (ipa AND mask 12)"
proof -
  have t: "MMU_PTE_TABLE = 0x7D3" by (simp add: MMU_PTE_TABLE_def BM_def)
  show "bit (MMU_PTE_TABLE OR pa) 0" "bit (MMU_PTE_TABLE OR pa) 1" by (simp_all add: t bit_or_iff)
  have m: "(0xFFF :: u64) = mask 12" "(0xFFFFFFFFFFFF :: u64) = mask 48" by (simp_all add: mask_eq_exp_minus_1)
  have b: "\<not> bit pa n" if "n < 12 \<or> 48 \<le> n" for n
    using that arg_cong [OF assms(1), of "\<lambda>w. bit w n"] arg_cong [OF assms(2), of "\<lambda>w. bit w n"]
    unfolding m by (auto simp: bit_simps dest: bit_imp_le_length)
  have "pa AND mask 48 AND NOT (mask 12) = pa"
    by (rule bit_word_eqI) (use b in \<open>auto simp: bit_simps not_less not_le intro: ccontr\<close>)
  moreover have "MMU_PTE_TABLE AND mask 48 AND NOT (mask 12) = 0" by (simp add: t mask_eq_exp_minus_1)
  ultimately have "((MMU_PTE_TABLE OR pa) AND MMU_OA_RANGE_MASK) AND NOT (mask 12) = pa"
    unfolding m by (simp add: bit.conj_disj_distrib2 and.assoc)
  then show "pte_table_address (MMU_PTE_TABLE OR pa) = pa" "leaf_out (MMU_PTE_TABLE OR pa) ipa 12 = pa OR (ipa AND mask 12)"
    by (simp_all add: pte_table_address_def leaf_out_def m and.assoc)
qed

lemma alloc_page_facts:
  assumes "pmm_inv as" "pmm_alloc_page as = (as', r)"
  shows "pmm_inv as'" "map geom as' = map geom as" "free_pages as' \<subseteq> free_pages as"
    "\<And>pg. r = Some pg \<Longrightarrow> pg \<in> free_pages as \<and> free_pages as' = free_pages as - {pg}"
  using pmm_alloc_page_taken [OF assms] by (auto simp: taken_def split: option.splits)

definition new_table :: "mm_state \<Rightarrow> u64 set \<Rightarrow> u64 \<Rightarrow> u32 list \<Rightarrow> u32 \<Rightarrow> u64 \<Rightarrow> vm_page \<Rightarrow> mm_state \<Rightarrow> bool" where
  "new_table s R r0 p0 i0 a0 pg s' \<longleftrightarrow> st2_inv s R \<and> slot_at s r0 p0 i0 a0 \<and> r0 \<in> R \<and> \<not> bit (kmem s a0) 0 \<and>
     root_level s + length p0 < 3 \<and> snd (pmm_alloc_page (arenas s)) = Some pg \<and>
     (\<exists>s1. s1 = s\<lparr>arenas := fst (pmm_alloc_page (arenas s))\<rparr> \<and>
       s' = poke a0 (MMU_PTE_TABLE OR page_paddr s1 pg) (memset_page (page_kva s1 pg) s1))"

lemma new_table_facts:
  assumes "new_table s R r0 p0 i0 a0 pg s'"
  shows "pmm_inv (arenas s')" "pg \<in> free_pages (arenas s)" "free_pages (arenas s') = free_pages (arenas s) - {pg}"
    "same_static s s'" "st2_inv s R" "slot_at s r0 p0 i0 a0" "r0 \<in> R"
    "page_paddr s pg AND 0xFFF = 0" "page_paddr s pg AND NOT MMU_OA_RANGE_MASK = 0"
    "kmem s' = (\<lambda>a. if a = a0 then MMU_PTE_TABLE OR page_paddr s pg else if in_page (page_kva s pg) a then 0 else kmem s a)"
proof -
  note d = assms [unfolded new_table_def]
  have inv: "pmm_inv (arenas s)" "kva_ok s" using d by (simp_all add: st2_inv_def)
  obtain s1 where s1: "s1 = s\<lparr>arenas := fst (pmm_alloc_page (arenas s))\<rparr>"
    and s': "s' = poke a0 (MMU_PTE_TABLE OR page_paddr s1 pg) (memset_page (page_kva s1 pg) s1)" using d by blast
  have ar: "pmm_alloc_page (arenas s) = (arenas s', Some pg)"
    using d by (simp add: s1 s' poke_def memset_page_def prod_eq_iff)
  note f = alloc_page_facts [OF inv(1) ar]
  show "pmm_inv (arenas s')" and pg: "pg \<in> free_pages (arenas s)" and "free_pages (arenas s') = free_pages (arenas s) - {pg}"
    using f by blast+
  have st1: "same_static s s1" using f(2,3) ar by (simp add: same_static_def s1)
  show "same_static s s'" using f(2,3) by (simp add: same_static_def s' s1 poke_def memset_page_def)
  show "st2_inv s R" "slot_at s r0 p0 i0 a0" "r0 \<in> R" using d by blast+
  show "page_paddr s pg AND 0xFFF = 0" "page_paddr s pg AND NOT MMU_OA_RANGE_MASK = 0"
    using inv(2) pg free_pages_all [of "arenas s"] by (auto simp: kva_ok_def)
  show "kmem s' = (\<lambda>a. if a = a0 then MMU_PTE_TABLE OR page_paddr s pg else if in_page (page_kva s pg) a then 0 else kmem s a)"
    by (auto simp: s' poke_def memset_page_def in_page_def static_pages [OF st1] fun_eq_iff) (simp_all add: s1)
qed

lemma new_table_off_page:
  assumes "new_table s R r0 p0 i0 a0 pg s'" "slot_at s r p i a" "r \<in> R"
  shows "\<not> in_page (page_kva s pg) a"
  using new_table_facts(2,5) [OF assms(1)] assms(2,3) unfolding st2_inv_def by blast

lemma new_table_kmem:
  assumes nt: "new_table s R r0 p0 i0 a0 pg s'"
  shows "slot_at s r p i a \<Longrightarrow> r \<in> R \<Longrightarrow> a \<noteq> a0 \<Longrightarrow> kmem s' a = kmem s a" "in_page (page_kva s pg) a \<Longrightarrow> kmem s' a = 0"
    "kmem s' a0 = MMU_PTE_TABLE OR page_paddr s pg"
  using new_table_off_page [OF nt, of r p i a] new_table_off_page [OF nt new_table_facts(6,7) [OF nt]] new_table_facts(10) [OF nt]
  by auto

lemma st2_inv_inj:
  "st2_inv s R \<Longrightarrow> slot_at s r p i a \<Longrightarrow> slot_at s r' p' i' a \<Longrightarrow> r \<in> R \<Longrightarrow> r' \<in> R \<Longrightarrow> r = r' \<and> p = p' \<and> i = i'"
  unfolding st2_inv_def by blast

lemma new_table_nodes:
  assumes nt: "new_table s R r0 p0 i0 a0 pg s'" and "r \<in> R" "st2_node s' r p k"
  shows "st2_node s r p k \<or> (r = r0 \<and> p = p0 @ [i0] \<and> k = page_kva s pg)"
  using assms(3)
proof (induction rule: st2_node.induct)
  case root
  show ?case by (simp add: st2_node.root)
next
  case (step p k i)
  note st = new_table_facts(4) [OF nt]
  from step.IH show ?case
  proof
    assume "st2_node s r p k"
    then have at: "slot_at s r p i (slot k i)" using step.hyps by (auto simp: slot_at_def static_eqs [OF st])
    show ?thesis
    proof (cases "slot k i = a0")
      case True
      with st2_inv_inj [OF new_table_facts(5) [OF nt] at, of r0 p0 i0] new_table_facts(6,7) [OF nt] assms(2) show ?thesis
        by (simp add: new_table_kmem(3) [OF nt] table_entry [OF new_table_facts(8,9) [OF nt]] page_kva_def static_eqs [OF st])
    next
      case False
      from new_table_kmem(1) [OF nt at assms(2) False] step.hyps st2_node.step [OF \<open>st2_node s r p k\<close>, of i] show ?thesis
        by (simp add: static_eqs [OF st])
    qed
  next
    assume n: "r = r0 \<and> p = p0 @ [i0] \<and> k = page_kva s pg"
    with step.hyps(2) have "kmem s' (slot k i) = 0" by (intro new_table_kmem(2) [OF nt]) (simp add: lim_def slot_in_page)
    with step.hyps show ?thesis by simp
  qed
qed

lemma new_table_kept:
  assumes nt: "new_table s R r0 p0 i0 a0 pg s'"
  shows "st2_node s r p k \<Longrightarrow> r \<in> R \<Longrightarrow> st2_node s' r p k"
proof (induction rule: st2_node.induct)
  case root
  show ?case by (rule st2_node.root)
next
  case (step p k i)
  have at: "slot_at s r p i (slot k i)" using step.hyps by (auto simp: slot_at_def)
  have "slot k i \<noteq> a0" using step.hyps nt by (auto simp: new_table_def)
  from new_table_kmem(1) [OF nt at step.prems this] step st2_node.step [of s' r p k i] show ?case
    by (simp add: static_eqs [OF new_table_facts(4) [OF nt]])
qed

lemma new_table_node:
  assumes nt: "new_table s R r0 p0 i0 a0 pg s'"
  shows "st2_node s' r0 (p0 @ [i0]) (page_kva s pg)"
proof -
  obtain k where k: "st2_node s r0 p0 k" "unat i0 < lim s p0" "a0 = slot k i0"
    using new_table_facts(6) [OF nt] by (auto simp: slot_at_def)
  note st = new_table_facts(4) [OF nt] and t = table_entry [OF new_table_facts(8,9) [OF nt]]
  from st2_node.step [OF new_table_kept [OF nt k(1) new_table_facts(7) [OF nt]], of i0] k nt t(1,2) show ?thesis
    by (simp add: static_eqs [OF st] new_table_kmem(3) [OF nt, unfolded k(3)] t(3) page_kva_def new_table_def)
qed

lemma new_table_slots:
  assumes nt: "new_table s R r0 p0 i0 a0 pg s'" and "r \<in> R" "slot_at s' r p i a"
  shows "slot_at s r p i a \<or> (r = r0 \<and> p = p0 @ [i0] \<and> in_page (page_kva s pg) a \<and> a = slot (page_kva s pg) i)"
proof -
  note st = new_table_facts(4) [OF nt]
  obtain k where k: "st2_node s' r p k" "unat i < lim s p" "a = slot k i" using assms(3) by (auto simp: slot_at_def static_eqs [OF st])
  from new_table_nodes [OF nt assms(2) k(1)] k slot_in_page [of i k] show ?thesis by (auto simp: slot_at_def lim_def)
qed

lemma new_table_inv:
  assumes nt: "new_table s R r0 p0 i0 a0 pg s'"
  shows "st2_inv s' R"
proof -
  note st = new_table_facts(4) [OF nt] and inv = new_table_facts(5) [OF nt] and off = new_table_off_page [OF nt]
  have "r = r' \<and> p = p' \<and> i = i'" if "r \<in> R" "r' \<in> R" "slot_at s' r p i a" "slot_at s' r' p' i' a" for r r' p p' i i' a
    using new_table_slots [OF nt that(1,3)] new_table_slots [OF nt that(2,4)] st2_inv_inj [OF inv, of r p i a r' p' i'] that(1,2)
      off [of r p i a] off [of r' p' i' a] by (auto simp: slot_inj)
  moreover have "\<not> in_page (page_kva s f) a" if "r \<in> R" "slot_at s' r p i a" "f \<in> free_pages (arenas s')" for r p i a f
  proof -
    have "f \<in> all_pages (arenas s)" "pg \<in> all_pages (arenas s)" "f \<noteq> pg" "f \<in> free_pages (arenas s)"
      using that(3) new_table_facts(2,3) [OF nt] free_pages_all [of "arenas s"] by auto
    with new_table_slots [OF nt that(1,2)] inv that(1) show ?thesis unfolding st2_inv_def kva_ok_def by blast
  qed
  ultimately show ?thesis using inv new_table_facts(1) [OF nt]
    unfolding st2_inv_def static_pages [OF st] static_eqs [OF st] by simp
qed

lemma new_table_translate:
  assumes nt: "new_table s R r0 p0 i0 a0 pg s'" and r: "r \<in> R"
  shows "st2_translate r ipa s' = st2_translate r ipa s"
proof (cases "on_path s r0 p0 i0 r ipa")
  case False
  show ?thesis
    by (rule off_path_same [OF new_table_facts(5-7) [OF nt] r new_table_facts(4) [OF nt] False]) (use new_table_kmem(1) [OF nt] r in blast)
next
  case True
  note st = new_table_facts(4) [OF nt]
  define l where "l = root_level s + length p0"
  have p: "r = r0" "path s ipa l = p0" "pte_index s ipa l = i0" "l < 3" "root_level s \<le> l"
    using True nt by (auto simp: on_path_def l_def new_table_def)
  obtain k where k: "st2_node s r0 p0 k" "a0 = slot k i0" using new_table_facts(6) [OF nt] by (auto simp: slot_at_def)
  have n: "3 - l = Suc (2 - l)" "2 - (2 - l) = l" using p(4) by auto
  have "st2_translate r ipa s = st2_walk (3 - l) k ipa s" using walk_descend [of s r ipa l k] k p by simp
  also have "\<dots> = None" using nt k(2) p(3) n(2) unfolding n(1) by (simp add: Let_def new_table_def)
  finally have old: "st2_translate r ipa s = None" .
  have "st2_node s' r (path s' ipa (Suc l)) (page_kva s pg)" using new_table_node [OF nt] p by (simp add: static_eqs [OF st] path_Suc)
  from walk_descend [OF this] have new: "st2_translate r ipa s' = st2_walk (3 - Suc l) (page_kva s pg) ipa s'"
    using p by (simp add: static_eqs [OF st])
  have z: "kmem s' (slot (page_kva s pg) (pte_index s' ipa j)) = 0" if "l < j" for j
  proof (intro new_table_kmem(2) [OF nt] slot_in_page)
    show "unat (pte_index s' ipa j) < 512"
      using pte_index_lim [of s ipa j] new_table_facts(5) [OF nt] that p(5) by (simp add: static_eqs [OF st] st2_inv_def split: if_splits)
  qed
  have "st2_walk (3 - Suc l) (page_kva s pg) ipa s' = None"
  proof (cases "3 - Suc l")
    case 0
    with z [of 3] p(4) show ?thesis by simp
  next
    case (Suc n)
    with z [of "2 - n"] p(4) show ?thesis by (simp add: Let_def)
  qed
  with old new show ?thesis by simp
qed


section \<open>Looking up and setting an entry\<close>

lemma arenas_upd [simp]:
  "lim (s\<lparr>arenas := as\<rparr>) = lim s" "paddr_to_kvaddr (s\<lparr>arenas := as\<rparr>) = paddr_to_kvaddr s"
  "pte_index (s\<lparr>arenas := as\<rparr>) = pte_index s"
  by (auto simp: lim_def paddr_to_kvaddr_def pte_index_def fun_eq_iff)

lemma node_arenas: "st2_node (s\<lparr>arenas := as\<rparr>) r p k \<Longrightarrow> st2_node s r p k"
proof (induction rule: st2_node.induct)
  case root
  show ?case by (rule st2_node.root)
next
  case (step p k i)
  from st2_node.step [OF step.IH, of i] step.hyps show ?case by simp
qed

lemma slot_at_arenas: "slot_at (s\<lparr>arenas := as\<rparr>) r p i a \<Longrightarrow> slot_at s r p i a"
  by (auto simp: slot_at_def dest: node_arenas)

lemma st2_inv_arenas:
  assumes "st2_inv s R" "pmm_inv as" "map geom as = map geom (arenas s)" "free_pages as \<subseteq> free_pages (arenas s)"
  shows "st2_inv (s\<lparr>arenas := as\<rparr>) R"
proof -
  have st: "same_static s (s\<lparr>arenas := as\<rparr>)" using assms(3,4) by (simp add: same_static_def)
  let ?s = "s\<lparr>arenas := as\<rparr>"
  have "\<forall>r\<in>R. \<forall>r'\<in>R. \<forall>p i a p' i'. slot_at ?s r p i a \<longrightarrow> slot_at ?s r' p' i' a \<longrightarrow> r = r' \<and> p = p' \<and> i = i'"
    by (intro ballI allI impI) (rule st2_inv_inj [OF assms(1) slot_at_arenas slot_at_arenas])
  moreover have "\<forall>r\<in>R. \<forall>p i a. slot_at s r p i a \<longrightarrow> (\<forall>f\<in>free_pages (arenas s). \<not> in_page (page_kva s f) a)"
    using assms(1) unfolding st2_inv_def by blast
  then have "\<forall>r\<in>R. \<forall>p i a. slot_at ?s r p i a \<longrightarrow> (\<forall>f\<in>free_pages as. \<not> in_page (page_kva s f) a)"
    using assms(4) by (auto dest!: slot_at_arenas)
  ultimately show ?thesis using assms(1,2) unfolding st2_inv_def static_pages [OF st] static_eqs [OF st] by simp
qed

lemma translate_arenas: "st2_walk n k ipa (s\<lparr>arenas := as\<rparr>) = st2_walk n k ipa s"
  by (induction n arbitrary: k) (simp_all add: Let_def)

text \<open>What looking up an entry keeps.\<close>

definition tables_kept :: "u64 set \<Rightarrow> mm_state \<Rightarrow> mm_state \<Rightarrow> bool" where
  "tables_kept R s s' \<longleftrightarrow> st2_inv s' R \<and> same_static s s' \<and> st2_log s' = st2_log s \<and>
     (\<forall>r\<in>R. \<forall>y. st2_translate r y s' = st2_translate r y s)"

lemma tables_kept_trans: "tables_kept R s s' \<Longrightarrow> tables_kept R s' s'' \<Longrightarrow> tables_kept R s s''"
  by (auto simp: tables_kept_def dest: same_static_trans)

lemma new_table_tables_kept: "new_table s R r0 p0 i0 a0 pg s' \<Longrightarrow> tables_kept R s s'"
  using new_table_inv [of s R r0 p0 i0 a0 pg s'] new_table_facts(4) [of s R r0 p0 i0 a0 pg s']
    new_table_translate [of s R r0 p0 i0 a0 pg s']
  by (auto simp: tables_kept_def new_table_def poke_def memset_page_def)

lemma pte_walk_correct:
  assumes "st2_inv s R" "r \<in> R" "st2_node s r (path s ipa i) kva" "root_level s \<le> i" "i + n \<le> 3"
    "pte_walk n i kva ipa s = (s', res)"
  shows "tables_kept R s s' \<and> (\<forall>a. res = Some a \<longrightarrow> slot_at s' r (path s ipa (i + n)) (pte_index s ipa (i + n)) a)"
  using assms
proof (induction n arbitrary: i kva s)
  case 0
  have "slot_at s r (path s ipa i) (pte_index s ipa i) (slot kva (pte_index s ipa i))"
    using 0 index_in_lim [of s i ipa] by (auto simp: slot_at_def st2_inv_def)
  with 0 show ?case by (auto simp: tables_kept_def)
next
  case (Suc n)
  let ?a = "slot kva (pte_index s ipa i)"
  have inv: "pmm_inv (arenas s)" "geom_ok s" "kva_ok s" using Suc.prems(1) by (simp_all add: st2_inv_def)
  have at: "slot_at s r (path s ipa i) (pte_index s ipa i) ?a"
    using Suc.prems(3,4) index_in_lim [OF inv(2)] by (auto simp: slot_at_def)
  show ?case
  proof (cases "bit (kmem s ?a) 0")
    case True
    then have nz: "kmem s ?a \<noteq> 0" by auto
    show ?thesis
    proof (cases "i = 3 \<or> \<not> bit (kmem s ?a) 1")
      case stop: True
      with Suc.prems True nz show ?thesis by (auto simp: tables_kept_def Let_def)
    next
      case False
      have node: "st2_node s r (path s ipa (Suc i)) (paddr_to_kvaddr s (pte_table_address (kmem s ?a)))"
        unfolding path_Suc [OF Suc.prems(4)] using Suc.prems(3-5) True False index_in_lim [OF inv(2) Suc.prems(4)]
        by (intro st2_node.step) auto
      have "pte_walk n (Suc i) (paddr_to_kvaddr s (pte_table_address (kmem s ?a))) ipa s = (s', res)"
        using Suc.prems(6) True False nz by (simp add: Let_def)
      from Suc.IH [OF Suc.prems(1,2) node _ _ this] Suc.prems(4,5) show ?thesis by simp
    qed
  next
    case empty: False
    obtain as res' where alloc: "pmm_alloc_page (arenas s) = (as, res')" by (cases "pmm_alloc_page (arenas s)")
    note f = alloc_page_facts [OF inv(1) alloc]
    show ?thesis
    proof (cases res')
      case None
      with Suc.prems empty alloc have "s' = s\<lparr>arenas := as\<rparr>" "res = None" by (auto simp: Let_def)
      then show ?thesis using st2_inv_arenas [OF Suc.prems(1) f(1-3)] f(2,3)
        by (simp add: tables_kept_def same_static_def st2_translate_def translate_arenas)
    next
      case (Some pg)
      let ?s1 = "s\<lparr>arenas := as\<rparr>"
      let ?s2 = "poke ?a (MMU_PTE_TABLE OR page_paddr ?s1 pg) (memset_page (page_kva ?s1 pg) ?s1)"
      have st1: "same_static s ?s1" using f(2,3) by (simp add: same_static_def)
      have nt: "new_table s R r (path s ipa i) (pte_index s ipa i) ?a pg ?s2"
        using Suc.prems at empty alloc Some by (auto simp: new_table_def)
      have "page_paddr ?s1 pg \<noteq> -1" using new_table_facts(9) [OF nt] by (auto simp: static_pages [OF st1])
      then have w: "pte_walk n (Suc i) (page_kva s pg) ipa ?s2 = (s', res)"
        using Suc.prems(6) empty alloc Some unfolding static_pages(2) [OF st1, symmetric]
        by (auto simp: Let_def page_kva_def)
      note k = new_table_tables_kept [OF nt]
      have st2: "same_static s ?s2" using k by (simp add: tables_kept_def)
      have node: "st2_node ?s2 r (path ?s2 ipa (Suc i)) (page_kva s pg)"
        using new_table_node [OF nt] by (simp add: static_eqs [OF st2] path_Suc [OF Suc.prems(4)])
      have "tables_kept R ?s2 s' \<and> (\<forall>a. res = Some a \<longrightarrow> slot_at s' r (path ?s2 ipa (Suc i + n)) (pte_index ?s2 ipa (Suc i + n)) a)"
        by (rule Suc.IH [OF new_table_inv [OF nt] Suc.prems(2) node _ _ w]) (use Suc.prems(4,5) in \<open>simp_all add: static_eqs [OF st2]\<close>)
      with tables_kept_trans [OF k] show ?thesis by (simp add: static_eqs [OF st2])
    qed
  qed
qed


lemma mem_pte_set_effect:
  assumes "v = 0 \<or> bit v 0" "mem_pte_set mem dst v ipa s = (mem', s')"
  shows "kmem s' = (kmem s)(dst := v)" "arenas s' = arenas s" "same_static s s'" "arch_mem mem' = arch_mem mem"
    "seg_num mem' = seg_num mem" "mem_seg mem' = mem_seg mem"
  using assms
  by (auto simp: mem_pte_set_def set_pte_def poke_def tlb_flush_ipa_def same_static_def Let_def split: if_splits)

lemma root_level_lt: "geom_ok s \<Longrightarrow> l \<in> {2, 3} \<Longrightarrow> root_level s \<le> l \<and> root_level s + (l - root_level s) = l"
  by (auto simp: geom_ok_def)

lemma pte_get_ready:
  assumes "st2_inv s R" "st2_root_kva am \<in> R" "st2_table am \<noteq> 0" "l \<in> {2, 3}" "pte_get am ipa l s = (am', s', res)"
  shows "am' = am" "tables_kept R s s'" "res = Some a \<Longrightarrow> slot_at s' (st2_root_kva am) (path s ipa l) (pte_index s ipa l) a"
proof -
  have g: "geom_ok s" using assms(1) by (simp add: st2_inv_def)
  note l = root_level_lt [OF g assms(4)]
  have w: "pte_walk (l - root_level s) (root_level s) (st2_root_kva am) ipa s = (s', res)" and am: "am' = am"
    using assms(3,5) by (auto simp: pte_get_def split_beta prod_eq_iff)
  show "am' = am" by (rule am)
  have "st2_node s (st2_root_kva am) (path s ipa (root_level s)) (st2_root_kva am)" by (simp add: path_def st2_node.root)
  from pte_walk_correct [OF assms(1,2) this _ _ w] l assms(4)
  show "tables_kept R s s'" "res = Some a \<Longrightarrow> slot_at s' (st2_root_kva am) (path s ipa l) (pte_index s ipa l) a" by auto
qed

text \<open>One turn of the loops: the block of \<open>ipa\<close> at level \<open>l\<close> gets the entry \<open>v\<close>, nothing else changes.\<close>

definition block_set :: "u64 set \<Rightarrow> u64 \<Rightarrow> paddr \<Rightarrow> nat \<Rightarrow> u64 \<Rightarrow> mm_state \<Rightarrow> mm_state \<Rightarrow> bool" where
  "block_set R root ipa l v s s' \<longleftrightarrow> st2_inv s' R \<and> same_static s s' \<and>
     (\<forall>r\<in>R. \<forall>y<2 ^ ipa_bits s. st2_translate r y s' =
        (if r = root \<and> drop_bit (level_shift l) y = drop_bit (level_shift l) ipa
         then (if bit v 0 then Some (leaf_out v y (level_shift l)) else None) else st2_translate r y s))"

lemma leaf_step:
  assumes inv: "st2_inv s R" "st2_root_kva am \<in> R" "st2_table am \<noteq> 0" and l: "l \<in> {2, 3}" and ipa: "ipa < 2 ^ ipa_bits s"
    and get: "pte_get am ipa l s = (am', s1, Some dst)" and set: "mem_pte_set mem dst v ipa s1 = (mem', s2)"
    and v: "v = 0 \<or> bit v 0 \<and> (bit v 1 \<longleftrightarrow> l = 3)"
  shows "block_set R (st2_root_kva am) ipa l v s s2"
proof -
  note k = pte_get_ready [OF inv l get]
  have k2: "st2_inv s1 R" "same_static s s1" "\<forall>r\<in>R. \<forall>y. st2_translate r y s1 = st2_translate r y s"
    using k(2) by (simp_all add: tables_kept_def)
  have g: "geom_ok s" using inv(1) by (simp add: st2_inv_def)
  note rl = root_level_lt [OF g l]
  have at: "slot_at s1 (st2_root_kva am) (path s1 ipa l) (pte_index s1 ipa l) dst" using k(3) by (simp add: static_eqs [OF k2(2)])
  have v': "v = 0 \<or> bit v 0" using v by blast
  note e = mem_pte_set_effect [OF v' set]
  have leaf: "\<not> (bit v 0 \<and> bit v 1) \<or> root_level s1 + length (path s1 ipa l) = 3"
    using v rl by (auto simp: static_eqs [OF k2(2)])
  have "st2_inv s2 R" by (rule leaf_write(1) [OF k2(1) at inv(2) leaf e(3,2,1)])
  moreover have "st2_translate r y s2 =
      (if r = st2_root_kva am \<and> drop_bit (level_shift l) y = drop_bit (level_shift l) ipa
       then (if bit v 0 then Some (leaf_out v y (level_shift l)) else None) else st2_translate r y s)"
    if "r \<in> R" "y < 2 ^ ipa_bits s" for r y
  proof -
    have "st2_translate r y s2 = (if on_path s1 (st2_root_kva am) (path s1 ipa l) (pte_index s1 ipa l) r y
        then (if bit v 0 then Some (leaf_out v y (level_shift l)) else None) else st2_translate r y s1)"
      by (rule leaf_translate [OF k2(1) at inv(2) that(1)]) (use rl l v e in \<open>auto simp: static_eqs [OF k2(2)]\<close>)
    also have "on_path s1 (st2_root_kva am) (path s1 ipa l) (pte_index s1 ipa l) r y \<longleftrightarrow>
        r = st2_root_kva am \<and> drop_bit (level_shift l) y = drop_bit (level_shift l) ipa"
      using on_path_iff [of s1 l] same_slot_iff [OF g _ _ that(2) ipa, of l] rl l by (auto simp: static_eqs [OF k2(2)])
    finally show ?thesis using k2(3) that(1) by simp
  qed
  ultimately show ?thesis using same_static_trans [OF k2(2) e(3)] by (simp add: block_set_def)
qed

section \<open>Ranges of addresses\<close>

definition in_range :: "paddr \<Rightarrow> int \<Rightarrow> paddr \<Rightarrow> bool" where
  "in_range ipa len y \<longleftrightarrow> uint ipa \<le> uint y \<and> uint y < uint ipa + len"

lemma drop_bit_eq_iff: "drop_bit n (x :: u64) = drop_bit n y \<longleftrightarrow> uint x div 2 ^ n = uint y div 2 ^ n"
proof -
  have "uint (drop_bit n w) = drop_bit n (uint w)" for w :: u64
    by (rule bit_eqI) (auto simp: bit_uint_iff bit_simps dest: bit_imp_le_length)
  then have "uint (drop_bit n w) = uint w div 2 ^ n" for w :: u64 by (simp only: drop_bit_eq_div)
  then show ?thesis by (metis word_uint_eq_iff)
qed

lemma div_eq_iff: "0 < m \<Longrightarrow> y div m = q \<longleftrightarrow> q * m \<le> y \<and> y < q * m + m" for y q m :: int
proof
  assume m: "0 < m"
  show "q * m \<le> y \<and> y < q * m + m" if "y div m = q"
    using div_mult_mod_eq [of y m] pos_mod_sign [OF m, of y] pos_mod_bound [OF m, of y] unfolding that by linarith
  show "y div m = q" if "q * m \<le> y \<and> y < q * m + m"
    by (rule int_div_pos_eq [of _ _ _ "y - q * m"]) (use that in \<open>auto simp: mult.commute\<close>)
qed

lemma block_range:
  assumes "uint (b :: u64) mod 2 ^ n = 0"
  shows "drop_bit n y = drop_bit n b \<longleftrightarrow> in_range b (2 ^ n) y"
proof -
  have b: "uint b div 2 ^ n * 2 ^ n = uint b" using assms by (metis add.right_neutral div_mult_mod_eq)
  show ?thesis unfolding drop_bit_eq_iff in_range_def div_eq_iff [of "2 ^ n :: int", simplified] b ..
qed


lemma take_bit_zero_iff: "take_bit n (w :: u64) = 0 \<longleftrightarrow> uint w mod 2 ^ n = 0"
proof -
  have "uint (take_bit n w) = take_bit n (uint w)" by (rule bit_eqI) (auto simp: bit_uint_iff bit_simps dest: bit_imp_le_length)
  then have "uint (take_bit n w) = uint w mod 2 ^ n" by (simp only: take_bit_eq_mod)
  then show ?thesis by (metis unsigned_eq_0_iff)
qed

lemma leaf_value:
  assumes "uint pa mod 2 ^ n = 0" "uint pa < 2 ^ 48" "take_bit n attr = attr"
  shows "leaf_out (attr OR pa) y n = pa + take_bit n y"
proof -
  have p: "\<not> bit pa j" if "j < n" for j
    using assms(1) that unfolding take_bit_zero_iff [symmetric] by (metis bit_0_eq bit_take_bit_iff bot_apply bot_bool_def)
  have q: "\<not> bit pa j" if "48 \<le> j" for j
  proof -
    have "take_bit 48 (uint pa) = uint pa" using assms(2) by (simp add: take_bit_int_eq_self)
    then have "\<not> bit (uint pa) j" using that by (metis bit_take_bit_iff not_le)
    then show ?thesis by (auto simp: bit_uint_iff dest: bit_imp_le_length)
  qed
  have a: "\<not> bit attr j" if "n \<le> j" for j using assms(3) that by (metis bit_take_bit_iff not_le)
  have "pa + take_bit n y = pa OR take_bit n y"
    by (rule disjunctive_add_eq_or) (rule bit_word_eqI, use p in \<open>auto simp: bit_simps\<close>)
  moreover have m: "(0xFFFFFFFFFFFF :: u64) = mask 48" by (simp add: mask_eq_exp_minus_1)
  have "leaf_out (attr OR pa) y n = pa OR take_bit n y" unfolding leaf_out_def m
  proof (rule bit_word_eqI)
    fix j assume j: "j < LENGTH(64)"
    show "bit ((attr OR pa) AND mask 48 AND NOT (mask n) OR y AND mask n) j = bit (pa OR take_bit n y) j"
      using j p [of j] q [of j] a [of j] by (cases "j < n"; cases "48 \<le> j") (auto simp: bit_simps)
  qed
  ultimately show ?thesis by simp
qed

lemma take_bit_in_block:
  assumes "uint b mod 2 ^ n = 0" "in_range b (2 ^ n) y"
  shows "take_bit n y = y - b"
proof -
  have "drop_bit n y = drop_bit n b" using block_range [OF assms(1)] assms(2) by blast
  moreover have "take_bit n b = 0" using assms(1) by (simp add: take_bit_zero_iff)
  ultimately have "y - b = take_bit n y" using bits_ident [of n y] bits_ident [of n b] by (metis add.right_neutral add_diff_cancel_left')
  then show ?thesis by simp
qed

lemma uint_add_small: "0 \<le> k \<Longrightarrow> uint (w :: u64) + k < 2 ^ 64 \<Longrightarrow> uint (w + word_of_int k) = uint w + k"
  using uint_ge_0 [of w] by (simp add: uint_word_ariths uint_word_of_int mod_add_right_eq mod_pos_pos_trivial)

section \<open>Mapping a range\<close>

text \<open>
  The result of an operation on the \<open>len\<close> bytes at \<open>ipa\<close> for the tables of \<open>root\<close>: whatever the outcome, addresses outside the
  range and the tables of the other roots translate as before; after success an address of the range translates to its target.
\<close>

definition ranged :: "u64 set \<Rightarrow> u64 \<Rightarrow> (paddr \<Rightarrow> paddr option) \<Rightarrow> paddr \<Rightarrow> int \<Rightarrow> int \<Rightarrow> int \<Rightarrow> mm_state \<Rightarrow> mm_state \<Rightarrow> bool" where
  "ranged R root tgt ipa len err ret s s' \<longleftrightarrow> st2_inv s' R \<and> same_static s s' \<and> (ret = 0 \<or> ret = err) \<and>
     (\<forall>r\<in>R. \<forall>y<2 ^ ipa_bits s. r \<noteq> root \<or> \<not> in_range ipa len y \<longrightarrow> st2_translate r y s' = st2_translate r y s) \<and>
     (ret = 0 \<longrightarrow> (\<forall>y. in_range ipa len y \<longrightarrow> st2_translate root y s' = tgt y))"

definition linear :: "paddr \<Rightarrow> paddr \<Rightarrow> paddr \<Rightarrow> paddr option" where
  "linear pa ipa y = Some (pa + (y - ipa))"

lemma linear_shift: "linear (pa + c) (ipa + c) = linear pa ipa"
  by (simp add: linear_def fun_eq_iff)

lemma range_lt_64: "geom_ok s \<Longrightarrow> uint (ipa :: u64) + len \<le> 2 ^ ipa_bits s \<Longrightarrow> uint ipa + len < 2 ^ 64"
proof -
  assume a: "geom_ok s" "uint ipa + len \<le> 2 ^ ipa_bits s"
  have "ipa_bits s \<le> 51" using a(1) by (auto simp: ipa_bits_def geom_ok_def)
  then have "(2::int) ^ ipa_bits s \<le> 2 ^ 51" by (rule power_increasing) simp
  with a(2) show ?thesis by simp
qed

lemma ipa_less: "geom_ok s \<Longrightarrow> uint (ipa :: u64) < 2 ^ ipa_bits s \<Longrightarrow> ipa < 2 ^ ipa_bits s"
proof -
  assume a: "geom_ok s" "uint ipa < 2 ^ ipa_bits s"
  have "ipa_bits s < 64" using a(1) by (auto simp: ipa_bits_def geom_ok_def)
  then have "uint (2 ^ ipa_bits s :: u64) = 2 ^ ipa_bits s" using unat_exp [of "ipa_bits s", where 'a = 64] by (simp add: uint_nat)
  with a show ?thesis by (simp add: word_less_def)
qed

lemma ranged_step:
  assumes b: "block_set R root ipa l v s s1" and rest: "ranged R root tgt (ipa + word_of_int c) (len - c) err ret s1 s'"
    and c: "c = 2 ^ level_shift l" and al: "uint ipa mod c = 0" and len: "c \<le> len"
    and small: "uint ipa + len \<le> 2 ^ ipa_bits s" and g: "geom_ok s" and root: "root \<in> R"
    and tgt: "\<And>y. in_range ipa c y \<Longrightarrow> (if bit v 0 then Some (leaf_out v y (level_shift l)) else None) = tgt y"
  shows "ranged R root tgt ipa len err ret s s'"
proof -
  have c0: "0 \<le> c" by (simp add: c)
  have u: "uint (ipa + word_of_int c) = uint ipa + c" by (rule uint_add_small [OF c0]) (use range_lt_64 [OF g small] len in linarith)
  have st: "same_static s s1" and st': "same_static s1 s'" using b rest by (simp_all add: block_set_def ranged_def)
  have inb: "drop_bit (level_shift l) y = drop_bit (level_shift l) ipa \<longleftrightarrow> in_range ipa c y" for y
    unfolding c by (rule block_range) (use al c in simp)
  have y_small: "y < 2 ^ ipa_bits s" if "in_range ipa len y" for y
    by (rule ipa_less [OF g]) (use that small in \<open>simp add: in_range_def\<close>)
  have split: "in_range ipa len y \<longleftrightarrow> in_range ipa c y \<or> in_range (ipa + word_of_int c) (len - c) y" for y
    using u len c0 by (auto simp: in_range_def)
  have disj: "\<not> (in_range ipa c y \<and> in_range (ipa + word_of_int c) (len - c) y)" for y using u by (auto simp: in_range_def)
  have head: "st2_translate root y s1 = tgt y" if "in_range ipa c y" "y < 2 ^ ipa_bits s" for y
    using b root that inb tgt [OF that(1)] by (simp add: block_set_def)
  have frame1: "st2_translate r y s1 = st2_translate r y s" if "r \<in> R" "y < 2 ^ ipa_bits s" "r \<noteq> root \<or> \<not> in_range ipa c y" for r y
    using b that inb by (auto simp: block_set_def)
  have frame2: "st2_translate r y s' = st2_translate r y s1"
    if "r \<in> R" "y < 2 ^ ipa_bits s" "r \<noteq> root \<or> \<not> in_range (ipa + word_of_int c) (len - c) y" for r y
    using rest that unfolding ranged_def static_eqs [OF st] by blast
  have hits: "st2_translate root y s' = tgt y" if "ret = 0" "in_range ipa len y" for y
  proof (cases "in_range ipa c y")
    case True
    with frame2 [OF root y_small [OF that(2)]] disj head [OF True y_small [OF that(2)]] show ?thesis by auto
  next
    case False
    with that split rest show ?thesis unfolding ranged_def by blast
  qed
  have "st2_translate r y s' = st2_translate r y s" if "r \<in> R" "y < 2 ^ ipa_bits s" "r \<noteq> root \<or> \<not> in_range ipa len y" for r y
    using frame1 [OF that(1,2)] frame2 [OF that(1,2)] that(3) split [of y] by auto
  with hits rest same_static_trans [OF st st'] show ?thesis unfolding ranged_def by blast
qed

lemma ranged_refl: "st2_inv s R \<Longrightarrow> len \<le> 0 \<Longrightarrow> ranged R root tgt ipa len err 0 s s"
  by (auto simp: ranged_def in_range_def)

lemma ranged_fail: "tables_kept R s s' \<Longrightarrow> err \<noteq> 0 \<Longrightarrow> ranged R root tgt ipa len err err s s'"
  by (auto simp: ranged_def tables_kept_def)

lemma and_mask_zero: "(w :: u64) AND VM_MEM_BLOCK_MASK = 0 \<longleftrightarrow> uint w mod 2 ^ 21 = 0" "w AND 0xFFF = 0 \<longleftrightarrow> uint w mod 2 ^ 12 = 0"
proof -
  have m: "(0x1FFFFF :: u64) = mask 21" "(0xFFF :: u64) = mask 12" by (simp_all add: mask_eq_exp_minus_1)
  show "w AND VM_MEM_BLOCK_MASK = 0 \<longleftrightarrow> uint w mod 2 ^ 21 = 0" "w AND 0xFFF = 0 \<longleftrightarrow> uint w mod 2 ^ 12 = 0"
    unfolding m take_bit_eq_mask [symmetric] take_bit_zero_iff by (rule refl)+
qed

lemma pte_attrs:
  "take_bit 21 MMU_PTE_BLOCK = MMU_PTE_BLOCK" "bit MMU_PTE_BLOCK 0" "take_bit 12 MMU_PTE_TABLE = MMU_PTE_TABLE" "bit MMU_PTE_TABLE 0"
  "bit MMU_PTE_TABLE 1"
  by (simp_all add: MMU_PTE_BLOCK_def MMU_PTE_TABLE_def BM_def)

lemma block_entry_bit1: "uint pa mod 2 ^ 21 = 0 \<Longrightarrow> \<not> bit (MMU_PTE_BLOCK OR pa) 1"
proof -
  assume "uint pa mod 2 ^ 21 = 0"
  then have "take_bit 21 pa = 0" by (simp only: take_bit_zero_iff)
  then have "\<not> bit (take_bit 21 pa) 1" by simp
  then have "\<not> bit pa 1" by (simp only: bit_take_bit_iff) simp
  then show ?thesis by (simp add: bit_or_iff MMU_PTE_BLOCK_def BM_def)
qed

lemma entry_bits:
  assumes "blk \<Longrightarrow> uint pa mod 2 ^ 21 = 0"
  shows "bit ((if blk then MMU_PTE_BLOCK else MMU_PTE_TABLE) OR pa) 0"
    "bit ((if blk then MMU_PTE_BLOCK else MMU_PTE_TABLE) OR pa) 1 \<longleftrightarrow> (if blk then 2 else 3) = (3::nat)"
  using block_entry_bit1 [OF assms] pte_attrs by (cases blk; simp add: bit_or_iff)+

text \<open>The size of the next piece as a function of the alignment.\<close>

definition piece :: "bool \<Rightarrow> int" where
  "piece blk = (if blk then 0x200000 else 0x1000)"

lemma piece_eq: "piece blk = 2 ^ level_shift (if blk then 2 else 3)"
  by (simp add: piece_def level_shift_def)

lemma piece_facts:
  assumes "len mod 0x1000 = 0" "0 < len" "blk \<longrightarrow> len mod 0x200000 = 0"
  shows "piece blk \<le> len" "(len - piece blk) mod 0x1000 = 0" "0 < piece blk" "piece blk mod 0x1000 = 0"
proof -
  have d: "piece blk dvd len" "0x1000 dvd piece blk" using assms(1,3) by (auto simp: piece_def)
  show "piece blk \<le> len" using zdvd_imp_le [OF d(1) assms(2)] .
  show "(len - piece blk) mod 0x1000 = 0" using d(2) assms(1) by (simp add: dvd_diff mod_0_imp_dvd)
  show "0 < piece blk" "piece blk mod 0x1000 = 0" by (simp_all add: piece_def)
qed

lemma piece_aligned: "(w :: int) mod 0x1000 = 0 \<Longrightarrow> (blk \<Longrightarrow> w mod 2 ^ 21 = 0) \<Longrightarrow> w mod piece blk = 0"
  by (simp add: piece_def)

lemma map_loop_turn:
  assumes "0 < len" "blk \<longleftrightarrow> uint pa mod 2 ^ 21 = 0 \<and> uint ipa mod 2 ^ 21 = 0 \<and> len mod 0x200000 = 0"
  shows "map_loop mem pa ipa len s =
    (case pte_get (arch_mem mem) ipa (if blk then 2 else 3) s of
       (am, s, None) \<Rightarrow> (ERR_NO_MEMORY, mem\<lparr>arch_mem := am\<rparr>, s)
     | (am, s, Some dst) \<Rightarrow>
         (case mem_pte_set (mem\<lparr>arch_mem := am\<rparr>) dst ((if blk then MMU_PTE_BLOCK else MMU_PTE_TABLE) OR pa) ipa s of
            (mem, s) \<Rightarrow> map_loop mem (pa + word_of_int (piece blk)) (ipa + word_of_int (piece blk)) (len - piece blk) s))"
  using assms(1) by (subst map_loop.simps) (simp add: and_mask_zero assms(2) piece_def)

lemma map_loop_correct:
  assumes "st2_inv s R" "st2_root_kva (arch_mem mem) \<in> R" "st2_table (arch_mem mem) \<noteq> 0"
    "uint pa mod 0x1000 = 0" "uint ipa mod 0x1000 = 0" "len mod 0x1000 = 0"
    "uint ipa + len \<le> 2 ^ ipa_bits s" "uint pa + len \<le> 2 ^ 48" "map_loop mem pa ipa len s = (ret, mem', s')"
  shows "ranged R (st2_root_kva (arch_mem mem)) (linear pa ipa) ipa len ERR_NO_MEMORY ret s s' \<and> arch_mem mem' = arch_mem mem \<and>
    seg_num mem' = seg_num mem \<and> mem_seg mem' = mem_seg mem"
  using assms
proof (induction "nat len" arbitrary: mem pa ipa len s rule: less_induct)
  case less
  let ?root = "st2_root_kva (arch_mem mem)"
  note inv = less.prems(1-3)
  have g: "geom_ok s" using inv by (simp add: st2_inv_def)
  show ?case
  proof (cases "0 < len")
    case False
    with less.prems(9) inv show ?thesis by (simp add: map_loop.simps [of mem pa ipa len s] ranged_refl)
  next
    case pos: True
    define blk where "blk \<longleftrightarrow> uint pa mod 2 ^ 21 = 0 \<and> uint ipa mod 2 ^ 21 = 0 \<and> len mod 0x200000 = 0"
    define l :: nat where "l = (if blk then 2 else 3)"
    define attr where "attr = (if blk then MMU_PTE_BLOCK else MMU_PTE_TABLE)"
    define c where "c = piece blk"
    have l: "l \<in> {2, 3}" by (simp add: l_def)
    have len_blk: "blk \<longrightarrow> len mod 0x200000 = 0" using blk_def by blast
    note pf = piece_facts [OF less.prems(6) pos len_blk]
    have c: "c = 2 ^ level_shift l" "c \<le> len" "(len - c) mod 0x1000 = 0" "0 < c" "c mod 0x1000 = 0"
      unfolding c_def l_def by (rule piece_eq pf)+
    have al: "uint pa mod c = 0" "uint ipa mod c = 0"
      unfolding c_def by (rule piece_aligned [OF less.prems(4)], simp only: blk_def)
        (rule piece_aligned [OF less.prems(5)], simp only: blk_def)
    obtain am s1 res where get: "pte_get (arch_mem mem) ipa l s = (am, s1, res)" by (cases "pte_get (arch_mem mem) ipa l s")
    note r = pte_get_ready [OF inv l get]
    note turn = map_loop_turn [OF pos blk_def, of mem s, folded l_def attr_def c_def, unfolded get less.prems(9)]
    show ?thesis
    proof (cases res)
      case None
      with turn r(1) ranged_fail [OF r(2), of ERR_NO_MEMORY] show ?thesis by simp
    next
      case (Some dst)
      obtain mem2 s2 where set: "mem_pte_set (mem\<lparr>arch_mem := am\<rparr>) dst (attr OR pa) ipa s1 = (mem2, s2)"
        by (cases "mem_pte_set (mem\<lparr>arch_mem := am\<rparr>) dst (attr OR pa) ipa s1")
      have rest: "map_loop mem2 (pa + word_of_int c) (ipa + word_of_int c) (len - c) s2 = (ret, mem', s')"
        using turn Some set by simp
      have bits: "bit (attr OR pa) 0" "bit (attr OR pa) 1 \<longleftrightarrow> l = 3"
        unfolding attr_def l_def using entry_bits [of blk pa] blk_def by blast+
      have b: "block_set R ?root ipa l (attr OR pa) s s2"
        by (rule leaf_step [OF inv l ipa_less [OF g] get [unfolded Some] set]) (use bits less.prems(7) pos in auto)
      note e = mem_pte_set_effect [OF disjI2 [OF bits(1)] set]
      have am: "arch_mem mem2 = arch_mem mem" "seg_num mem2 = seg_num mem" "mem_seg mem2 = mem_seg mem" using e r(1) by simp_all
      have st: "same_static s s2" "st2_inv s2 R" using b by (simp_all add: block_set_def)
      have pa64: "uint pa + len < 2 ^ 64" by (rule order_le_less_trans [OF less.prems(8)]) simp
      have u: "uint (ipa + word_of_int c) = uint ipa + c" "uint (pa + word_of_int c) = uint pa + c"
        by (rule uint_add_small; use c(2,4) range_lt_64 [OF g less.prems(7)] pa64 in linarith)+
      have al': "uint (pa + word_of_int c) mod 0x1000 = 0" "uint (ipa + word_of_int c) mod 0x1000 = 0"
        unfolding u using less.prems(4,5) c(5) by (metis mod_add_eq add_0 mod_0)+
      have "ranged R ?root (linear pa ipa) (ipa + word_of_int c) (len - c) ERR_NO_MEMORY ret s2 s' \<and> arch_mem mem' = arch_mem mem \<and>
          seg_num mem' = seg_num mem \<and> mem_seg mem' = mem_seg mem"
        using less.hyps [OF _ st(2) _ _ al'(1,2) c(3) _ _ rest] inv(2,3) less.prems(7,8) c(2,4)
        unfolding am static_eqs [OF st(1)] linear_shift u by (smt (verit) nat_mono_iff pos)
      moreover have "(if bit (attr OR pa) 0 then Some (leaf_out (attr OR pa) y (level_shift l)) else None) = linear pa ipa y"
        if "in_range ipa c y" for y
        using leaf_value [of pa "level_shift l" attr y] take_bit_in_block [of ipa "level_shift l" y] that al c(1,2,4) less.prems(8) pte_attrs bits
        by (simp add: linear_def attr_def l_def level_shift_def split: if_splits)
      ultimately show ?thesis using ranged_step [OF b _ c(1) al(2) c(2) less.prems(7) g inv(2)] by blast
    qed
  qed
qed


section \<open>Unmapping a range\<close>

lemma unmap_loop_turn:
  assumes "0 < len" "blk \<longleftrightarrow> uint ipa mod 2 ^ 21 = 0 \<and> len mod 0x200000 = 0"
  shows "unmap_loop mem ipa len s =
    (case pte_get (arch_mem mem) ipa (if blk then 2 else 3) s of
       (am, s, None) \<Rightarrow> (ERR_NOT_FOUND, mem\<lparr>arch_mem := am\<rparr>, s)
     | (am, s, Some dst) \<Rightarrow>
         (case mem_pte_set (mem\<lparr>arch_mem := am\<rparr>) dst 0 ipa s of
            (mem, s) \<Rightarrow> unmap_loop mem (ipa + word_of_int (piece blk)) (len - piece blk) s))"
  using assms(1) by (subst unmap_loop.simps) (simp add: and_mask_zero assms(2) piece_def)

lemma unmap_loop_correct:
  assumes "st2_inv s R" "st2_root_kva (arch_mem mem) \<in> R" "st2_table (arch_mem mem) \<noteq> 0"
    "uint ipa mod 0x1000 = 0" "len mod 0x1000 = 0" "uint ipa + len \<le> 2 ^ ipa_bits s" "unmap_loop mem ipa len s = (ret, mem', s')"
  shows "ranged R (st2_root_kva (arch_mem mem)) (\<lambda>_. None) ipa len ERR_NOT_FOUND ret s s' \<and> arch_mem mem' = arch_mem mem \<and>
    seg_num mem' = seg_num mem \<and> mem_seg mem' = mem_seg mem"
  using assms
proof (induction "nat len" arbitrary: mem ipa len s rule: less_induct)
  case less
  let ?root = "st2_root_kva (arch_mem mem)"
  note inv = less.prems(1-3)
  have g: "geom_ok s" using inv by (simp add: st2_inv_def)
  show ?case
  proof (cases "0 < len")
    case False
    with less.prems(7) inv show ?thesis by (simp add: unmap_loop.simps [of mem ipa len s] ranged_refl)
  next
    case pos: True
    define blk where "blk \<longleftrightarrow> uint ipa mod 2 ^ 21 = 0 \<and> len mod 0x200000 = 0"
    define l :: nat where "l = (if blk then 2 else 3)"
    define c where "c = piece blk"
    have l: "l \<in> {2, 3}" by (simp add: l_def)
    have len_blk: "blk \<longrightarrow> len mod 0x200000 = 0" using blk_def by blast
    note pf = piece_facts [OF less.prems(5) pos len_blk]
    have c: "c = 2 ^ level_shift l" "c \<le> len" "(len - c) mod 0x1000 = 0" "0 < c" "c mod 0x1000 = 0"
      unfolding c_def l_def by (rule piece_eq pf)+
    have al: "uint ipa mod c = 0" unfolding c_def by (rule piece_aligned [OF less.prems(4)], simp only: blk_def)
    obtain am s1 res where get: "pte_get (arch_mem mem) ipa l s = (am, s1, res)" by (cases "pte_get (arch_mem mem) ipa l s")
    note r = pte_get_ready [OF inv l get]
    note turn = unmap_loop_turn [OF pos blk_def, of mem s, folded l_def c_def, unfolded get less.prems(7)]
    show ?thesis
    proof (cases res)
      case None
      with turn r(1) ranged_fail [OF r(2), of ERR_NOT_FOUND] show ?thesis by simp
    next
      case (Some dst)
      obtain mem2 s2 where set: "mem_pte_set (mem\<lparr>arch_mem := am\<rparr>) dst 0 ipa s1 = (mem2, s2)"
        by (cases "mem_pte_set (mem\<lparr>arch_mem := am\<rparr>) dst 0 ipa s1")
      have rest: "unmap_loop mem2 (ipa + word_of_int c) (len - c) s2 = (ret, mem', s')" using turn Some set by simp
      have b: "block_set R ?root ipa l 0 s s2"
        by (rule leaf_step [OF inv l ipa_less [OF g] get [unfolded Some] set]) (use less.prems(6) pos in auto)
      note e = mem_pte_set_effect [OF disjI1 [OF refl] set]
      have am: "arch_mem mem2 = arch_mem mem" "seg_num mem2 = seg_num mem" "mem_seg mem2 = mem_seg mem" using e r(1) by simp_all
      have st: "same_static s s2" "st2_inv s2 R" using b by (simp_all add: block_set_def)
      have u: "uint (ipa + word_of_int c) = uint ipa + c"
        by (rule uint_add_small; use c(2,4) range_lt_64 [OF g less.prems(6)] in linarith)
      have al': "uint (ipa + word_of_int c) mod 0x1000 = 0"
        unfolding u using less.prems(4) c(5) by (metis mod_add_eq add_0 mod_0)
      have "ranged R ?root (\<lambda>_. None) (ipa + word_of_int c) (len - c) ERR_NOT_FOUND ret s2 s' \<and> arch_mem mem' = arch_mem mem \<and>
          seg_num mem' = seg_num mem \<and> mem_seg mem' = mem_seg mem"
        using less.hyps [OF _ st(2) _ _ al' c(3) _ rest] inv(2,3) less.prems(6) c(2,4)
        unfolding am static_eqs [OF st(1)] u by (smt (verit) nat_mono_iff pos)
      then show ?thesis using ranged_step [OF b _ c(1) al c(2) less.prems(6) g inv(2)] by simp
    qed
  qed
qed

section \<open>The first table of a machine\<close>

lemma alloc_root_page:
  assumes inv: "pmm_inv (arenas s)" and alloc: "pmm_alloc_contiguous 1 12 (arenas s) = Some (as, pa, ln)"
  obtains pg where "ln = [pg]" "pg \<in> free_pages (arenas s)" "free_pages as = free_pages (arenas s) - {pg}" "pmm_inv as"
    "map geom as = map geom (arenas s)" "page_paddr s pg = of_nat pa"
proof -
  have "contig_arenas 1 12 (arenas s) = Some (as, pa, ln)" using alloc by (simp add: pmm_alloc_contiguous_def)
  with contig_arenas_correct [OF inv, of 12 1] obtain a where t: "taken (arenas s) ln as" and a: "a \<in> set (arenas s)" "run_of 1 12 a (pa, ln)"
    by auto
  then obtain st where st: "aligned_run 1 12 a st" "pa = ar_base a + st * 4096" "ln = [(page_array a, st)]" by (auto simp: run_of_def)
  have pc: "st < page_count a" using st(1) by (auto simp: aligned_run_def run_free_def)
  have "page_paddr s (page_array a, st) = of_nat pa"
    using vm_page_to_paddr_arena [OF inv a(1), of "(page_array a, st)"] pc
    by (simp add: page_paddr_def PAGE_BELONGS_TO_ARENA_def PAGE_ADDRESS_FROM_ARENA_def st(2) add.commute)
  with that [of "(page_array a, st)"] t st(3) show thesis by (auto simp: taken_def)
qed


lemma init_root_success:
  assumes "init_st2_root am s = (0, am', s')" "root_order s = 0" "st2_inv s R"
  obtains pg where "pg \<in> free_pages (arenas s)" "free_pages (arenas s') = free_pages (arenas s) - {pg}" "pmm_inv (arenas s')"
    "same_static s s'" "st2_root_kva am' = page_kva s pg" "st2_table am' = page_paddr s pg"
    "kmem s' = (\<lambda>a. if in_page (page_kva s pg) a then 0 else kmem s a)" "st2_log s' = st2_log s"
proof -
  have inv: "pmm_inv (arenas s)" using assms(3) by (simp add: st2_inv_def)
  obtain as pa ln where alloc: "pmm_alloc_contiguous 1 12 (arenas s) = Some (as, pa, ln)"
    using assms(1,2) by (cases "pmm_alloc_contiguous 1 12 (arenas s)") (auto simp: init_st2_root_def)
  obtain pg where pg: "ln = [pg]" "pg \<in> free_pages (arenas s)" "free_pages as = free_pages (arenas s) - {pg}" "pmm_inv as"
    "map geom as = map geom (arenas s)" "page_paddr s pg = of_nat pa"
    by (rule alloc_root_page [OF inv alloc])
  let ?s1 = "s\<lparr>arenas := as\<rparr>"
  have k: "page_kva s pg = paddr_to_kvaddr ?s1 (of_nat pa)" by (simp add: page_kva_def pg(6))
  have ok: "(of_nat pa :: u64) \<noteq> -1" "paddr_to_kvaddr ?s1 (of_nat pa) \<noteq> 0"
    using assms(1,2) alloc by (auto simp: init_st2_root_def Let_def split: if_splits)
  have "am' = am\<lparr>st2_ln := ln, st2_table := of_nat pa, st2_root_kva := page_kva s pg,
        am_vmid := ucast (ucast (base_vmid s) :: u16), vttbr := push_bit 48 (ucast (ucast (ucast (base_vmid s) :: u16) :: u32)) OR of_nat pa\<rparr>"
    and s': "s' = memset_page (page_kva s pg) (?s1\<lparr>base_vmid := base_vmid s + 1\<rparr>)"
    using assms(1,2) alloc ok by (auto simp: init_st2_root_def Let_def get_vmid_def k split: if_splits)
  then show thesis using pg that [of pg] by (auto simp: memset_page_def same_static_def in_page_def fun_eq_iff)
qed

text \<open>The tables of a machine that has none yet: afterwards it has an empty root, and no other translation changes.\<close>

lemma init_st2_root_correct:
  assumes init: "init_st2_root am s = (0, am', s')" "root_order s = 0" and inv: "st2_inv s R"
  defines "root \<equiv> st2_root_kva am'"
  shows "st2_inv s' (insert root R)" "same_static s s'" "root \<notin> R" "st2_table am' \<noteq> 0" "st2_log s' = st2_log s"
    "r \<in> R \<Longrightarrow> st2_translate r y s' = st2_translate r y s" "st2_translate root y s' = None"
proof -
  obtain pg where pg: "pg \<in> free_pages (arenas s)" "free_pages (arenas s') = free_pages (arenas s) - {pg}" "pmm_inv (arenas s')"
    "same_static s s'" "root = page_kva s pg" "st2_table am' = page_paddr s pg"
    "kmem s' = (\<lambda>a. if in_page (page_kva s pg) a then 0 else kmem s a)" "st2_log s' = st2_log s"
    using init_root_success [OF init inv] unfolding root_def by blast
  note st = pg(4)
  have g: "geom_ok s" and kv: "kva_ok s" using inv by (simp_all add: st2_inv_def)
  have all: "pg \<in> all_pages (arenas s)" using pg(1) free_pages_all by auto
  have off: "\<not> in_page root a" if "slot_at s r p i a" "r \<in> R" for r p i a
    using inv that pg(1) unfolding st2_inv_def pg(5) by blast
  have lim0: "lim s p = 512" for p using init(2) by (simp add: lim_def)
  show "same_static s s'" by (rule st)
  show "st2_table am' \<noteq> 0" using kv all by (auto simp: kva_ok_def pg(6))
  show "st2_log s' = st2_log s" by (rule pg(8))
  have old: "st2_node s r p k" if "r \<in> R" "st2_node s' r p k" for r p k
    using that(2)
  proof (induction rule: st2_node.induct)
    case root
    show ?case by (rule st2_node.root)
  next
    case (step p k i)
    have "slot_at s r p i (slot k i)" using step by (auto simp: slot_at_def static_eqs [OF st])
    from off [OF this that(1)] step.hyps st2_node.step [OF step.IH, of i] show ?case
      by (simp add: static_eqs [OF st] pg(5,7))
  qed
  have oldslot: "slot_at s r p i a" if "r \<in> R" "slot_at s' r p i a" for r p i a
    by (rule slot_at_old [OF st _ that(2)]) (rule old [OF that(1)])
  have zero: "kmem s' (slot root i) = 0" if "unat i < 512" for i using slot_in_page [OF that, of root] by (simp add: pg(5,7))
  have new: "p = [] \<and> k = root" if "st2_node s' root p k" for p k
    using that
  proof (induction rule: st2_node.induct)
    case (step p k i)
    with zero [of i] show ?case by (simp add: static_eqs [OF st] lim0)
  qed simp
  have newslot: "p = [] \<and> in_page root a \<and> a = slot root i" if "slot_at s' root p i a" for p i a
    using that new slot_in_page [of i root] by (auto simp: slot_at_def static_eqs [OF st] lim0)
  have "in_page root (slot root 0)" by (rule slot_in_page) simp
  moreover have "slot_at s root [] 0 (slot root 0)" by (auto simp: slot_at_def lim0 intro: st2_node.root)
  ultimately show fresh: "root \<notin> R" using off by blast
  have inj: "r = r' \<and> p = p' \<and> i = i'"
    if "r \<in> insert root R" "r' \<in> insert root R" "slot_at s' r p i a" "slot_at s' r' p' i' a" for r r' p p' i i' a
  proof (cases "r = root"; cases "r' = root")
    assume "r = root" "r' = root"
    with newslot [of p i a] newslot [of p' i' a] that(3,4) show ?thesis by (auto simp: slot_inj)
  next
    assume "r = root" "r' \<noteq> root"
    with newslot that oldslot [of r' p' i' a] off [of r' p' i' a] show ?thesis by auto
  next
    assume "r \<noteq> root" "r' = root"
    with newslot that oldslot [of r p i a] off [of r p i a] show ?thesis by auto
  next
    assume "r \<noteq> root" "r' \<noteq> root"
    with that st2_inv_inj [OF inv oldslot oldslot, of r p i a r' p' i'] show ?thesis by auto
  qed
  have apart: "\<not> in_page (page_kva s f) a" if "r \<in> insert root R" "slot_at s' r p i a" "f \<in> free_pages (arenas s')" for r p i a f
  proof (cases "r = root")
    case True
    have "f \<in> all_pages (arenas s)" "f \<noteq> pg" using that(3) pg(2) free_pages_all by auto
    with kv all have "\<not> (in_page root a \<and> in_page (page_kva s f) a)" unfolding kva_ok_def pg(5) by blast
    with newslot that(2) True show ?thesis by blast
  next
    case False
    with that oldslot [of r p i a] inv pg(2) show ?thesis unfolding st2_inv_def by blast
  qed
  show "st2_inv s' (insert root R)"
    unfolding st2_inv_def static_pages [OF st] static_eqs [OF st]
    by (intro conjI ballI allI impI pg(3) g kv) (rule inj [THEN conjunct1] inj [THEN conjunct2, THEN conjunct1]
      inj [THEN conjunct2, THEN conjunct2] apart; assumption)+
  show "r \<in> R \<Longrightarrow> st2_translate r y s' = st2_translate r y s"
    using off by (intro translate_same [OF st g]) (auto simp: pg(5,7))
  have idx: "unat (pte_index s y j) < 512" for j using pte_index_lim [OF g, of y j] init(2) by (simp split: if_splits)
  show "st2_translate root y s' = None" unfolding st2_translate_def static_eqs [OF st]
    using zero idx by (cases "3 - root_level s") (simp_all add: static_eqs [OF st] Let_def)
qed

lemma map_loop_first:
  assumes "st2_table (arch_mem mem) = 0" "init_st2_root (arch_mem mem) s = (0, am', s1)" "st2_table am' \<noteq> 0" "0 < len"
  shows "map_loop mem pa ipa len s = map_loop (mem\<lparr>arch_mem := am'\<rparr>) pa ipa len s1"
proof -
  have "pte_get (arch_mem mem) ipa l s = pte_get am' ipa l s1" for l using assms(1-3) by (simp add: pte_get_def)
  then show ?thesis using assms(4) by (subst (1 2) map_loop.simps) (simp cong: prod.case_cong option.case_cong)
qed

section \<open>One linear mapping of the memory\<close>

lemma in_page_block:
  assumes "uint k mod 2 ^ 12 = 0" "in_page k a"
  shows "drop_bit 12 a = drop_bit 12 k"
proof -
  have x: "uint (a - k) < 0x1000" using assms(2) by (simp add: in_page_def word_less_def)
  obtain q where "uint k = 0x1000 * q" using assms(1) by (auto simp: mod_eq_0_iff_dvd elim: dvdE)
  moreover have "uint k < 2 ^ 64" using uint_bounded [of k] by simp
  ultimately have "uint k \<le> 2 ^ 64 - 0x1000" by simp
  then have "uint (k + (a - k)) = uint k + uint (a - k)" using x by (subst uint_add_lem [symmetric]) simp
  then have "in_range k (2 ^ 12) a" using x uint_ge_0 [of "a - k"] by (simp add: in_range_def)
  then show ?thesis using block_range [OF assms(1)] by blast
qed

text \<open>Such a mapping shows different pages at disjoint addresses.\<close>

lemma kva_ok_linear:
  assumes pa: "\<And>f. f \<in> all_pages (arenas s) \<Longrightarrow> uint (page_paddr s f) mod 2 ^ 12 = 0 \<and> page_paddr s f AND NOT MMU_OA_RANGE_MASK = 0 \<and>
      page_paddr s f \<noteq> 0 \<and> page_kva s f = page_paddr s f + d \<and> page_kva s f \<noteq> 0"
    and inj: "inj_on (page_paddr s) (all_pages (arenas s))" and d: "uint d mod 2 ^ 12 = 0"
  shows "kva_ok s"
proof -
  have al: "uint (page_kva s f) mod 2 ^ 12 = 0" if "f \<in> all_pages (arenas s)" for f
  proof -
    have "uint (page_paddr s f + d) mod 2 ^ 12 = (uint (page_paddr s f) + uint d) mod 2 ^ 12"
      by (simp add: uint_word_ariths mod_mod_cancel)
    then show ?thesis using pa [OF that] d by (metis mod_add_eq add_0 mod_0)
  qed
  have "f = g" if "f \<in> all_pages (arenas s)" "g \<in> all_pages (arenas s)" "in_page (page_kva s f) a" "in_page (page_kva s g) a" for f g a
  proof -
    have "drop_bit 12 (page_kva s f) = drop_bit 12 (page_kva s g)"
      using in_page_block [OF al [OF that(1)] that(3)] in_page_block [OF al [OF that(2)] that(4)] by simp
    moreover have "take_bit 12 (page_kva s f) = take_bit 12 (page_kva s g)" using al [OF that(1)] al [OF that(2)] unfolding take_bit_zero_iff [symmetric] by simp
    ultimately have "page_kva s f = page_kva s g" by (metis bits_ident)
    then have "page_paddr s f = page_paddr s g" using pa that(1,2) by simp
    then show "f = g" using inj that(1,2) by (auto dest: inj_onD)
  qed
  with pa show ?thesis unfolding kva_ok_def and_mask_zero by blast
qed


section \<open>Properties\<close>

text \<open>A machine without tables, on the memory of the allocator example seen through one boot mapping.\<close>

definition mm_ex :: mm_state where
  "mm_ex = \<lparr>arenas = pmm_ex, mmu_initial_mappings = [\<lparr>phys = 0, virt = 0xFFFF000000000000, map_size = 0x10000000, map_flags = 0\<rparr>],
     kmem = (\<lambda>_. 0), base_vmid = 1, vmid_bits = 8, root_order = 0, root_level = 1, st2_log = []\<rparr>"

definition mem_ex :: vm_mem where
  "mem_ex = \<lparr>arch_mem = \<lparr>vttbr = 0, st2_table = 0, st2_ln = [], st2_root_kva = 0, am_vmid = 0\<rparr>, seg_num = 0, mem_seg = None,
     need_flush = False\<rparr>"

lemma all_pages_ex: "all_pages pmm_ex = Pair 1 ` {0, 1, 2, 3, 4, 5}"
  by (auto simp: all_pages_def pmm_ex_eq PAGE_BELONGS_TO_ARENA_def page_count_def image_iff)

lemma page_paddr_ex: "i < 6 \<Longrightarrow> page_paddr mm_ex (1, i) = of_nat (i * 0x1000 + 0x1000)"
  by (simp add: page_paddr_def mm_ex_def vm_page_to_paddr_def pmm_ex_eq PAGE_BELONGS_TO_ARENA_def PAGE_ADDRESS_FROM_ARENA_def page_count_def)

lemma mm_ex_fields [simp]: "arenas mm_ex = pmm_ex" "root_level mm_ex = 1" "root_order mm_ex = 0" "kmem mm_ex = (\<lambda>_. 0)"
  by (simp_all add: mm_ex_def)

lemma mm_ex_kva: "paddr_to_kvaddr mm_ex pa = (if pa \<le> 0xFFFFFFF then 0xFFFF000000000000 + pa else 0)"
  by (simp add: paddr_to_kvaddr_def mm_ex_def)

lemma page_ex_all:
  assumes "f \<in> all_pages (arenas mm_ex)"
  shows "f \<in> {(1, 0), (1, 1), (1, 2), (1, 3), (1, 4), (1, 5)}" "page_paddr mm_ex f = of_nat (snd f * 0x1000 + 0x1000)"
  using assms page_paddr_ex [of "snd f"] by (auto simp: all_pages_ex)

lemma mm_ex_inv: "st2_inv mm_ex {}"
proof -
  have "kva_ok mm_ex"
  proof (rule kva_ok_linear [of _ "0xFFFF000000000000"])
    fix f assume "f \<in> all_pages (arenas mm_ex)"
    note p = page_ex_all [OF this]
    show "uint (page_paddr mm_ex f) mod 2 ^ 12 = 0 \<and> page_paddr mm_ex f AND NOT MMU_OA_RANGE_MASK = 0 \<and> page_paddr mm_ex f \<noteq> 0 \<and>
        page_kva mm_ex f = page_paddr mm_ex f + 0xFFFF000000000000 \<and> page_kva mm_ex f \<noteq> 0"
      using p(1) unfolding page_kva_def p(2) mm_ex_kva by auto
  next
    show "inj_on (page_paddr mm_ex) (all_pages (arenas mm_ex))"
    proof (rule inj_onI)
      fix f g assume a: "f \<in> all_pages (arenas mm_ex)" "g \<in> all_pages (arenas mm_ex)" "page_paddr mm_ex f = page_paddr mm_ex g"
      show "f = g" using page_ex_all(1) [OF a(1)] page_ex_all(1) [OF a(2)] a(3)
        unfolding page_ex_all(2) [OF a(1)] page_ex_all(2) [OF a(2)] by auto
    qed
  qed simp
  then show ?thesis using pmm_ex_inv by (simp add: st2_inv_def geom_ok_def)
qed

definition arena_ex :: "nat \<Rightarrow> u8 list \<Rightarrow> nat list \<Rightarrow> pmm_arena" where
  "arena_ex n fl free = \<lparr>ar_flags = 1, ar_priority = 0, ar_base = 0x1000, ar_size = 0x6000, free_count = n,
     page_array = 1, page_flags = fl, free_list = free\<rparr>"

definition am_ex :: arch_vm_mem where
  "am_ex = \<lparr>vttbr = 0x1000000001000, st2_table = 0x1000, st2_ln = [(1, 0)], st2_root_kva = 0xFFFF000000001000, am_vmid = 1\<rparr>"

definition mm_ex1 :: mm_state where
  "mm_ex1 = mm_ex\<lparr>arenas := [arena_ex 5 [1, 0, 0, 0, 0, 0] [1, 2, 3, 4, 5]], base_vmid := 2\<rparr>"

lemma ex_alloc_root: "pmm_alloc_contiguous 1 12 pmm_ex = Some ([arena_ex 5 [1, 0, 0, 0, 0, 0] [1, 2, 3, 4, 5]], 0x1000, [(1, 0)])"
  by (simp add: pmm_alloc_contiguous_def pmm_ex_eq ROUNDUP_def find_run.simps first_used_def page_count_def page_is_free_def
      take_run_def take_page_def arena_ex_def Let_def)

lemma ex_init: "init_st2_root (arch_mem mem_ex) mm_ex = (0, am_ex, mm_ex1)"
  by (simp add: init_st2_root_def ex_alloc_root [simplified] paddr_to_kvaddr_def get_vmid_def memset_page_def mem_ex_def am_ex_def mm_ex1_def mm_ex_def Let_def fun_eq_iff)

lemma ex_alloc_table:
  "pmm_alloc_page [arena_ex 5 [1, 0, 0, 0, 0, 0] [1, 2, 3, 4, 5]] = ([arena_ex 4 [1, 1, 0, 0, 0, 0] [2, 3, 4, 5]], Some (1, 1))"
  by (simp add: pmm_alloc_page_def pmm_alloc_pages_eq arena_ex_def take_page_def)

lemma ex_table_paddr: "vm_page_to_paddr [arena_ex n fl free] (1, 1) = Some 0x2000"
  by (simp add: vm_page_to_paddr_def PAGE_BELONGS_TO_ARENA_def PAGE_ADDRESS_FROM_ARENA_def page_count_def arena_ex_def)

lemma ex_map: "fst (arch_mem_map (mem_ex\<lparr>arch_mem := am_ex\<rparr>) 0x40000000 0x80000000 0x200000 mm_ex1) = 0"
  by (simp add: arch_mem_map_def IS_PAGE_ALIGN_def c_not_def map_loop.simps pte_get_def pte_index_def ex_alloc_table [simplified]
     mm_ex1_def am_ex_def slot_def Let_def page_paddr_def ex_table_paddr [simplified] mem_pte_set_def split_beta)

lemma IS_PAGE_ALIGN_any: "IS_PAGE_ALIGN x"
  by (simp add: IS_PAGE_ALIGN_def c_not_def)

lemma range_in_oa:
  assumes "uint (x :: u64) + len \<le> 2 ^ 48" "0 < len"
  shows "x AND NOT MMU_OA_RANGE_MASK = 0"
proof -
  have "uint x < 2 ^ 48" using assms by linarith
  then have "take_bit 48 (uint x) = uint x" by (simp add: take_bit_int_eq_self)
  moreover have "uint (take_bit 48 x) = take_bit 48 (uint x)"
    by (rule bit_eqI) (auto simp: bit_uint_iff bit_simps dest: bit_imp_le_length)
  ultimately have t: "take_bit 48 x = x" by (simp add: word_uint_eq_iff)
  have m: "(0xFFFFFFFFFFFF :: u64) = mask 48" by (simp add: mask_eq_exp_minus_1)
  show ?thesis unfolding m by (subst t [symmetric]) (rule bit_word_eqI, auto simp: bit_simps)
qed

text \<open>C2. Mapping a page-aligned range of a machine that has its root table: when the call returns success every address of the range
  translates, by the walk of the hardware, to the address at the same offset from \<open>pa\<close>; in every case no other address of the
  machine and no address of any other machine changes its translation, the tables stay disjoint and out of the free
  pages, and the only error is the lack of memory.\<close>

theorem arch_mem_map_correct:
  assumes "st2_inv s R" "root = st2_root_kva (arch_mem mem)" "root \<in> R" "st2_table (arch_mem mem) \<noteq> 0"
    "uint pa mod 0x1000 = 0" "uint ipa mod 0x1000 = 0" "len mod 0x1000 = 0" "0 < len"
    "uint ipa + len \<le> 2 ^ min 48 (ipa_bits s)" "uint pa + len \<le> 2 ^ 48"
    "arch_mem_map mem pa ipa len s = (ret, mem', s')"
  shows "st2_inv s' R \<and> (ret = 0 \<or> ret = ERR_NO_MEMORY) \<and>
    (ret = 0 \<longrightarrow> (\<forall>y. in_range ipa len y \<longrightarrow> st2_translate root y s' = Some (pa + (y - ipa)))) \<and>
    (\<forall>r\<in>R. \<forall>y<2 ^ ipa_bits s. r \<noteq> root \<or> \<not> in_range ipa len y \<longrightarrow> st2_translate r y s' = st2_translate r y s)"
proof -
  have "(2::int) ^ min 48 (ipa_bits s) \<le> 2 ^ ipa_bits s" "(2::int) ^ min 48 (ipa_bits s) \<le> 2 ^ 48"
    by (rule power_increasing; simp)+
  with assms(9) have small: "uint ipa + len \<le> 2 ^ ipa_bits s" "uint ipa + len \<le> 2 ^ 48" by linarith+
  have "0x1000 \<le> len" using assms(7,8) zdvd_imp_le [of "0x1000" len] by (simp add: mod_eq_0_iff_dvd)
  then have "map_loop mem pa ipa len s = (ret, mem', s')"
    using assms(11) range_in_oa [OF assms(10,8)] range_in_oa [OF small(2) assms(8)] by (simp add: arch_mem_map_def IS_PAGE_ALIGN_any)
  from map_loop_correct [OF assms(1) assms(3) [unfolded assms(2)] assms(4-7) small(1) assms(10) this] show ?thesis
    by (simp add: ranged_def linear_def assms(2))
qed

lemma ex_root: "st2_inv mm_ex1 {0xFFFF000000001000}" "st2_translate 0xFFFF000000001000 y mm_ex1 = None"
  using init_st2_root_correct(1,7) [OF ex_init _ mm_ex_inv] by (simp_all add: am_ex_def)

theorem arch_mem_map_witness:
  "\<exists>mem' s'. arch_mem_map (mem_ex\<lparr>arch_mem := am_ex\<rparr>) 0x40000000 0x80000000 0x200000 mm_ex1 = (0, mem', s') \<and>
     st2_translate 0xFFFF000000001000 0x80012345 s' = Some 0x40012345 \<and> st2_translate 0xFFFF000000001000 0x7FFFFFFF s' = None"
proof -
  obtain mem' s' where m: "arch_mem_map (mem_ex\<lparr>arch_mem := am_ex\<rparr>) 0x40000000 0x80000000 0x200000 mm_ex1 = (0, mem', s')"
    using ex_map by (metis prod.collapse)
  have b: "ipa_bits mm_ex1 = 39" by (simp add: ipa_bits_def mm_ex1_def)
  from arch_mem_map_correct [OF ex_root(1) _ _ _ _ _ _ _ _ _ m, of "0xFFFF000000001000"]
  have "(\<forall>y. in_range 0x80000000 0x200000 y \<longrightarrow> st2_translate 0xFFFF000000001000 y s' = Some (0x40000000 + (y - 0x80000000))) \<and>
    (\<forall>y<2 ^ 39. \<not> in_range 0x80000000 0x200000 y \<longrightarrow> st2_translate 0xFFFF000000001000 y s' = st2_translate 0xFFFF000000001000 y mm_ex1)"
    by (simp add: am_ex_def b)
  with m show ?thesis using ex_root(2) by (auto simp: in_range_def)
qed




text \<open>The first range mapped for a machine without tables, with a root of one page: on success the machine sees the range at
  \<open>pa\<close> and nothing else, and the machines whose roots are in \<open>R\<close> see what they saw.\<close>

theorem arch_mem_map_first:
  assumes "st2_inv s R" "root_order s = 0" "st2_table (arch_mem mem) = 0"
    "uint pa mod 0x1000 = 0" "uint ipa mod 0x1000 = 0" "len mod 0x1000 = 0" "0 < len"
    "uint ipa + len \<le> 2 ^ min 48 (ipa_bits s)" "uint pa + len \<le> 2 ^ 48"
    "arch_mem_map mem pa ipa len s = (0, mem', s')" "root = st2_root_kva (arch_mem mem')"
  shows "root \<notin> R \<and> st2_inv s' (insert root R) \<and>
    (\<forall>y<2 ^ ipa_bits s. st2_translate root y s' = (if in_range ipa len y then Some (pa + (y - ipa)) else None)) \<and>
    (\<forall>r\<in>R. \<forall>y<2 ^ ipa_bits s. st2_translate r y s' = st2_translate r y s)"
proof -
  have "(2::int) ^ min 48 (ipa_bits s) \<le> 2 ^ ipa_bits s" "(2::int) ^ min 48 (ipa_bits s) \<le> 2 ^ 48"
    by (rule power_increasing; simp)+
  with assms(8) have small: "uint ipa + len \<le> 2 ^ ipa_bits s" "uint ipa + len \<le> 2 ^ 48" by linarith+
  have "0x1000 \<le> len" using assms(6,7) zdvd_imp_le [of "0x1000" len] by (simp add: mod_eq_0_iff_dvd)
  then have loop: "map_loop mem pa ipa len s = (0, mem', s')"
    using assms(10) range_in_oa [OF assms(9,7)] range_in_oa [OF small(2) assms(7)] by (simp add: arch_mem_map_def IS_PAGE_ALIGN_any)
  obtain ret am1 s1 where i: "init_st2_root (arch_mem mem) s = (ret, am1, s1)" by (cases "init_st2_root (arch_mem mem) s")
  have "ret = 0" using loop assms(3,7) i
    by (auto simp: map_loop.simps [of mem] pte_get_def split: if_splits)
  note r = init_st2_root_correct [OF i [unfolded this] assms(2,1)]
  have loop1: "map_loop (mem\<lparr>arch_mem := am1\<rparr>) pa ipa len s1 = (0, mem', s')"
    using map_loop_first [OF assms(3) i [unfolded \<open>ret = 0\<close>] r(4) assms(7)] loop by simp
  have "ranged (insert (st2_root_kva am1) R) (st2_root_kva am1) (linear pa ipa) ipa len ERR_NO_MEMORY 0 s1 s' \<and> arch_mem mem' = am1"
    using map_loop_correct [OF r(1) _ _ assms(4-6) _ assms(9) loop1] small(1) r(4) by (simp add: static_eqs [OF r(2)])
  with r(1,3,6,7) show ?thesis unfolding ranged_def linear_def assms(11) static_eqs [OF r(2)] by auto
qed

theorem arch_mem_map_first_witness:
  "\<exists>mem' s'. arch_mem_map mem_ex 0x40000000 0x80000000 0x200000 mm_ex = (0, mem', s') \<and>
     st2_translate (st2_root_kva (arch_mem mem')) 0x801FFFFF s' = Some 0x401FFFFF \<and>
     st2_translate (st2_root_kva (arch_mem mem')) 0x80200000 s' = None"
proof -
  have "fst (arch_mem_map mem_ex 0x40000000 0x80000000 0x200000 mm_ex) = 0"
    using ex_map map_loop_first [OF _ ex_init, of "0x200000" "0x40000000" "0x80000000"]
    by (simp add: arch_mem_map_def mem_ex_def am_ex_def IS_PAGE_ALIGN_any)
  then obtain mem' s' where m: "arch_mem_map mem_ex 0x40000000 0x80000000 0x200000 mm_ex = (0, mem', s')" by (metis prod.collapse)
  have b: "ipa_bits mm_ex = 39" by (simp add: ipa_bits_def)
  from arch_mem_map_first [OF mm_ex_inv _ _ _ _ _ _ _ _ m refl] m show ?thesis
    by (intro exI [of _ mem'] exI [of _ s']) (simp add: b mem_ex_def in_range_def)
qed



text \<open>The loop of \<^verbatim>\<open>ipa_to_pa\<close> follows the tables; \<open>pte\<close> is the entry it read last.\<close>

lemma ipa_to_pa_descend:
  "st2_node s r (path s ipa (Suc l)) k' \<Longrightarrow> st2_node s r (path s ipa l) k \<Longrightarrow> root_level s \<le> l \<Longrightarrow> l < 3 \<Longrightarrow>
   ipa_to_pa_loop (3 - root_level s) (root_level s) r None ipa s =
     ipa_to_pa_loop (3 - Suc l) (Suc l) k' (Some (slot k (pte_index s ipa l))) ipa s"
proof (induction "l - root_level s" arbitrary: l k k')
  case 0
  then have l: "l = root_level s" "k = r" by (auto simp: path_def st2_node_nil)
  have n: "3 - root_level s = Suc (2 - l)" "3 - Suc l = 2 - l" using 0 l by auto
  obtain k1 where k1: "st2_node s r (path s ipa l) k1" "bit (kmem s (slot k1 (pte_index s ipa l))) 0"
     "bit (kmem s (slot k1 (pte_index s ipa l))) 1" "k' = paddr_to_kvaddr s (pte_table_address (kmem s (slot k1 (pte_index s ipa l))))"
    using 0(2) by (auto simp: path_Suc [OF 0(4)] st2_node_snoc)
  have "k1 = k" using st2_node_det [OF k1(1) 0(3)] .
  then show ?case unfolding n using k1(2-4) l by (auto simp: Let_def)
next
  case (Suc d)
  then obtain l' where l': "l = Suc l'" "root_level s \<le> l'" "d = l' - root_level s" by (cases l) auto
  then obtain k0 where k0: "st2_node s r (path s ipa l') k0" using Suc.prems(2) by (auto simp: path_Suc st2_node_snoc)
  obtain k1 where k1: "st2_node s r (path s ipa l) k1" "bit (kmem s (slot k1 (pte_index s ipa l))) 0"
     "bit (kmem s (slot k1 (pte_index s ipa l))) 1" "k' = paddr_to_kvaddr s (pte_table_address (kmem s (slot k1 (pte_index s ipa l))))"
    using Suc.prems(1) by (auto simp: path_Suc [OF Suc.prems(3)] st2_node_snoc)
  have "k1 = k" using st2_node_det [OF k1(1) Suc.prems(2)] .
  have n: "3 - Suc l' = Suc (2 - l)" "3 - Suc l = 2 - l" using l' Suc.prems(4) by auto
  have "ipa_to_pa_loop (3 - root_level s) (root_level s) r None ipa s =
      ipa_to_pa_loop (3 - Suc l') (Suc l') k (Some (slot k0 (pte_index s ipa l'))) ipa s"
    using Suc.hyps(1) [OF l'(3) _ k0 l'(2)] Suc.prems(2,4) l'(1) by simp
  also have "\<dots> = ipa_to_pa_loop (3 - Suc l) (Suc l) k' (Some (slot k (pte_index s ipa l))) ipa s"
    unfolding n using k1(2-4) \<open>k1 = k\<close> l'(1) by (auto simp: Let_def)
  finally show ?case .
qed

lemma block_address_out: "l \<in> {1, 2} \<Longrightarrow> e AND MMU_OA_RANGE_MASK AND NOT (mask (level_shift l)) = pte_block_address e l"
  by (auto simp: pte_block_address_def level_shift_def mask_eq_exp_minus_1 and.assoc)

lemma ipa_to_pa_block:
  assumes "geom_ok s" "st2_root_kva am \<noteq> 0" "ipa AND NOT MMU_OA_RANGE_MASK = 0"
    "st2_node s (st2_root_kva am) (path s ipa 2) k" "e = kmem s (slot k (pte_index s ipa 2))" "bit e 0" "\<not> bit e 1"
  shows "ipa_to_pa am ipa s = leaf_out e ipa (level_shift 2)"
    and "st2_translate (st2_root_kva am) ipa s = Some (leaf_out e ipa (level_shift 2))"
proof -
  let ?r = "st2_root_kva am"
  have rl: "root_level s \<le> 2" "root_level s \<le> 1" using assms(1) by (auto simp: geom_ok_def)
  have nz: "e \<noteq> 0" using assms(6) by auto
  obtain k0 where k0: "st2_node s ?r (path s ipa 1) k0" using assms(4) path_Suc [OF rl(2), of ipa] by (auto simp: st2_node_snoc eval_nat_numeral)
  have "ipa_to_pa am ipa s = ipa_to_pa_loop (Suc 0) 2 k (Some (slot k0 (pte_index s ipa 1))) ipa s"
    using ipa_to_pa_descend [of s ?r ipa 1 k k0] assms(2-4) k0 rl by (simp add: ipa_to_pa_def eval_nat_numeral)
  also have "\<dots> = pte_block_address e 2 + take_bit 21 ipa"
    using assms(5-7) nz by (simp add: Let_def take_bit_eq_mask mask_eq_exp_minus_1)
  also have "\<dots> = pte_block_address e 2 OR take_bit 21 ipa"
    by (rule disjunctive_add_eq_or) (rule bit_word_eqI, auto simp: block_address_out [of 2, symmetric] level_shift_def bit_simps)
  also have "\<dots> = leaf_out e ipa (level_shift 2)"
    by (simp add: leaf_out_def block_address_out) (simp add: level_shift_def take_bit_eq_mask)
  finally show "ipa_to_pa am ipa s = leaf_out e ipa (level_shift 2)" .
  show "st2_translate ?r ipa s = Some (leaf_out e ipa (level_shift 2))"
    using walk_descend [OF assms(4) rl(1)] assms(5-7) by (simp add: numeral_2_eq_2 Let_def)
qed

text \<open>\<^verbatim>\<open>ipa_to_pa\<close> agrees with the hardware on an address mapped by a block, but for an address mapped by a page it never reads the entry of
  the last level: it returns the address of the page that holds the table, plus the offset.\<close>

theorem ipa_to_pa_ignores_pages:
  assumes "geom_ok s" "st2_root_kva am \<noteq> 0" "ipa AND NOT MMU_OA_RANGE_MASK = 0"
    "st2_node s (st2_root_kva am) (path s ipa 2) k" "e = kmem s (slot k (pte_index s ipa 2))" "bit e 0"
  shows "if bit e 1 then ipa_to_pa am ipa s = pte_table_address e + (ipa AND 0xFFF)
    else Some (ipa_to_pa am ipa s) = st2_translate (st2_root_kva am) ipa s"
proof -
  let ?r = "st2_root_kva am"
  have g: "geom_ok s" and rl: "root_level s \<le> 2" "root_level s \<le> 1" "\<not> 2 < root_level s" using assms(1) by (auto simp: geom_ok_def)
  have ip: "ipa_to_pa am ipa s = ipa_to_pa_loop (3 - root_level s) (root_level s) ?r None ipa s"
    using assms(2,3) by (simp add: ipa_to_pa_def)
  have nz: "e \<noteq> 0" using assms(6) by auto
  have idx: "unat (pte_index s ipa 2) < lim s (path s ipa 2)" using index_in_lim [OF g rl(1)] .
  show ?thesis
  proof (cases "bit e 1")
    case True
    have "st2_node s ?r (path s ipa 3) (paddr_to_kvaddr s (pte_table_address e))"
      using st2_node.step [OF assms(4), of "pte_index s ipa 2"] idx assms(5,6) True rl path_Suc [OF rl(1), of ipa]
      by (simp add: eval_nat_numeral)
    with ipa_to_pa_descend [of s ?r ipa 2 _ k] assms(4) rl
    have "ipa_to_pa_loop (3 - root_level s) (root_level s) ?r None ipa s = ipa_to_pa_loop 0 3 (paddr_to_kvaddr s (pte_table_address e)) (Some (slot k (pte_index s ipa 2))) ipa s"
      by (simp add: eval_nat_numeral)
    with True assms(5,6) ip show ?thesis by (simp add: pte_block_address_def pte_table_address_def)
  next
    case False
    with ipa_to_pa_block [OF assms(1-6)] show ?thesis by simp
  qed
qed

definition mm_page_ex :: mm_state where
  "mm_page_ex = mm_ex1\<lparr>kmem := (\<lambda>_. 0)(0xFFFF000000001010 := 0x2003, 0xFFFF000000002000 := 0x3003, 0xFFFF000000003000 := 0x40000003)\<rparr>"

theorem ipa_to_pa_witness:
  "ipa_to_pa am_ex 0x80000000 mm_page_ex = 0x3000 \<and> st2_translate (st2_root_kva am_ex) 0x80000000 mm_page_ex = Some 0x40000000"
proof -
  have i: "pte_index mm_page_ex 0x80000000 l = (if l = 1 then 2 else 0)" if "l \<in> {1, 2, 3}" for l
    using that by (auto simp: pte_index_def mm_page_ex_def mm_ex1_def)
  have k: "paddr_to_kvaddr mm_page_ex pa = (if pa \<le> 0xFFFFFFF then 0xFFFF000000000000 + pa else 0)" for pa
    using mm_ex_kva by (simp add: paddr_to_kvaddr_def mm_page_ex_def mm_ex1_def)
  have g: "geom_ok mm_page_ex" "root_level mm_page_ex = 1" "root_order mm_page_ex = 0" by (simp_all add: geom_ok_def mm_page_ex_def mm_ex1_def)
  have m: "kmem mm_page_ex = (\<lambda>_. 0)(0xFFFF000000001010 := 0x2003, 0xFFFF000000002000 := 0x3003, 0xFFFF000000003000 := 0x40000003)"
    by (simp add: mm_page_ex_def)
  have "st2_node mm_page_ex 0xFFFF000000001000 ([] @ [2]) 0xFFFF000000002000"
    using st2_node.step [OF st2_node.root [of mm_page_ex "0xFFFF000000001000"], of 2] g by (simp add: m slot_def lim_def k pte_table_address_def)
  then have n: "st2_node mm_page_ex (st2_root_kva am_ex) (path mm_page_ex 0x80000000 2) 0xFFFF000000002000"
    by (simp add: path_def g(2) i am_ex_def upt_rec)
  from ipa_to_pa_ignores_pages [OF g(1) _ _ n refl] have "ipa_to_pa am_ex 0x80000000 mm_page_ex = 0x3000"
    by (simp add: i m slot_def am_ex_def pte_table_address_def)
  moreover have "st2_translate (st2_root_kva am_ex) 0x80000000 mm_page_ex = Some 0x40000000"
  proof -
    have three: "3 - (1::nat) = Suc (Suc 0)" by simp
    show ?thesis unfolding st2_translate_def g(2) three
      using i [of 1] i [of 2] i [of 3] by (simp add: am_ex_def m k slot_def pte_table_address_def leaf_out_def mask_eq_exp_minus_1 Let_def)
  qed
  ultimately show ?thesis ..
qed

text \<open>A root of several pages is cleared in its first page only.\<close>

lemma init_st2_root_clears_one_page:
  assumes "init_st2_root am s = (0, am', s')" "\<not> in_page (st2_root_kva am') a"
  shows "kmem s' a = kmem s a"
  using assms by (auto simp: init_st2_root_def Let_def get_vmid_def memset_page_def in_page_def split: option.splits if_splits)

end
