(* ===== verification/Hv_State.thy ===== *)
theory Hv_State
  imports Cbuf Mmio Stage2
begin

text \<open>
  The data of the hypervisor as its headers declare it, and the state the operations work on.
  A \<^verbatim>\<open>struct\<close> is a record, an \<^verbatim>\<open>enum\<close> a datatype. Objects that the code reaches through pointers
  (virtual CPUs, virtual machines, threads) are kept in stores indexed by the pointer, with 0 the
  NULL pointer; a pointer the code dereferences without a check is assumed valid there. The
  interrupt descriptors, which are shared by the interrupt lists of several virtual CPUs, live in
  one store indexed by where the code keeps them: slot \<open>n\<close> of the redistributor of a virtual CPU
  or slot \<open>n\<close> of the SPI array of a machine. A doubly linked list is the list of its elements in
  order; a node that may be linked or self-linked is the optional owner of the list it is in.

  What the hardware answers is in the record \<open>platform\<close>; system registers and the log of
  writes to the GIC are part of the state. One operation runs between taking and releasing the lock
  that the code takes, so a spin lock has no field.
\<close>

section \<open>System registers and the interrupt controller\<close>

text \<open>The registers of the guest that a context switch exchanges, those of the CPU interface, and the rest.\<close>

datatype el1_reg =
    SCTLR_EL1 | ACTLR_EL1 | CPACR_EL1 | CONTEXTIDR_EL1 | CSSELR_EL1 | ESR_EL1 | HCR_EL2
  | TTBR0_EL1 | TTBR1_EL1 | VBAR_EL1 | TCR_EL1 | MAIR_EL1 | AMAIR_EL1
  | TPIDR_EL0 | TPIDR_EL1 | TPIDRRO_EL0 | VMPIDR_EL2 | FAR_EL1 | PAR_EL1 | AFSR0_EL1 | AFSR1_EL1
  | FPSR | FPCR | SP_EL0 | SP_EL1 | ELR_EL1 | SPSR_EL1

datatype icc_reg =
    ICC_SRE_EL2 | ICC_PMR_EL1 | ICC_BPR1_EL1 | ICC_CTLR_EL1 | ICC_IGRPEN1_EL1
  | ICC_SGI1R_EL1 | ICC_EOIR1_EL1 | ICC_DIR_EL1 | ICC_IAR1_EL1

datatype sysreg =
    ICH_LR nat | ICH_AP0R nat | ICH_AP1R nat | ICH_VMCR_EL2 | ICH_HCR_EL2 | ICH_VTR_EL2
  | CNTV_CTL_EL0 | CNTV_CVAL_EL0 | CNTV_TVAL_EL0 | CNTVOFF_EL2 | CNTPCT_EL0 | CNTHCTL_EL2
  | VTTBR_EL2 | VTCR_EL2 | HSTR_EL2 | CPTR_EL2 | SPSR_EL2 | ELR_EL2 | ESR_EL2 | FAR_EL2 | HPFAR_EL2 | MIDR_EL1 | VPIDR_EL2
  | MPIDR_EL1 | EL1 el1_reg | ICC icc_reg

text \<open>A write to a memory-mapped register of the GIC, with its width.\<close>

datatype gic_write = W8 u64 u8 | W32 u64 u32 | W64 u64 u64

text \<open>
  What the hardware answers: \<^verbatim>\<open>ICH_ELRSR_EL2\<close> as a function of the list registers, and a 32-bit read
  of the GIC as a function of the writes so far.
\<close>

record platform =
  elrsr :: "(nat \<Rightarrow> u64) \<Rightarrow> u64"
  gic_read :: "gic_write list \<Rightarrow> u64 \<Rightarrow> u32"

text \<open>
  What the GIC architecture documents of \<^verbatim>\<open>ICH_ELRSR_EL2\<close>: bit \<open>i\<close> says that list register \<open>i\<close> holds
  no interrupt, that is, its state field is 0 and it does not wait for an EOI to be signalled.
\<close>

definition lr_empty :: "u64 \<Rightarrow> bool" where
  "lr_empty v \<longleftrightarrow> bitfield v 62 2 = 0 \<and> (bit v 61 \<or> \<not> bit v 41)"

definition elrsr_ok :: "platform \<Rightarrow> bool" where
  "elrsr_ok p \<longleftrightarrow> (\<forall>f i. bit (elrsr p f) i \<longleftrightarrow> i < 16 \<and> lr_empty (f i))"

text \<open>An instance, with a GIC whose registers all read 3.\<close>

definition ref_platform :: platform where
  "ref_platform = \<lparr>elrsr = (\<lambda>f. horner_sum of_bool 2 (map (\<lambda>i. lr_empty (f i)) [0..<16])),
     gic_read = (\<lambda>_ _. 3)\<rparr>"

lemma elrsr_ok_ref: "elrsr_ok ref_platform"
  by (auto simp: elrsr_ok_def ref_platform_def bit_horner_sum_bit_word_iff simp del: upt_rec_numeral)

record vgic_info =
  vi_lr_nr :: u8
  vi_pribits :: u8

section \<open>Virtual interrupts\<close>

datatype virq_ref = Priv ptr nat | Spi ptr nat

record vgic_irq =
  pd_node :: "ptr option"
  lr_node :: "ptr option"
  vq_vcpu :: ptr
  intid :: u32
  hwintid :: u32
  priority :: u8
  pending :: bool
  active :: bool
  enable :: bool
  vq_type :: bool
  group1 :: bool
  pdq :: bool
  migrate :: bool
  lr :: u8
  iroute :: u64

record vgic_dist =
  spi_num :: u32
  gicd_ctrl :: u32
  gicd_typer :: u32
  gicd_iidr :: u32
  gicd_typer2 :: u32
  dist_base :: paddr
  dist_len :: u32

record vgic_cfg =
  d_base :: u64
  r0_base :: u64
  r1_base :: u64
  d_len :: u32
  r0_len :: u32
  r1_len :: u32
  redist_num :: int

record vgic =
  vg_cfg :: vgic_cfg
  vg_dist :: vgic_dist

record vgic_redist =
  pd_head :: "virq_ref list"
  lr_head :: "virq_ref list"
  used_lr :: u8
  rd_base :: paddr
  rd_len :: u32
  sgi_base :: paddr
  ich_vmcr :: u64
  ich_hcr :: u64
  rd_lr :: "nat \<Rightarrow> u64"
  apr0 :: "nat \<Rightarrow> u64"
  apr1 :: "nat \<Rightarrow> u64"
  ap_nr :: u8
  rd_lr_nr :: u8

record arch_vtimer =
  cntpct :: u64
  cntvoff_el2 :: u64
  cntvctl_el1 :: u64
  cntvcval_el1 :: u64
  cntvtval_el1 :: u64

section \<open>Virtual CPUs and machines\<close>

text \<open>
  The first 27 words of \<^verbatim>\<open>struct arch_vcpu\<close> are the saved registers, which the assembly code
  addresses by their position; \<open>ctx\<close> is that array.
\<close>

record arch_vcpu =
  ctx :: "u64 list"
  av_vgic :: vgic_redist
  av_vtimer :: arch_vtimer

datatype vcpu_mode = ARM_32 | ARM_64

datatype vcpu_status =
  VCPU_CREATED | VCPU_READY | VCPU_RUNNING | VCPU_BLOCKED | VCPU_SUSPEND | VCPU_SHUTDOWN
  | VCPU_DESTROY | VCPU_INITF

record lk_vcpu =
  vcpu_id :: u32
  processor :: u32
  is_primary :: bool
  is_inited :: bool
  vcpu_entry :: u64
  vcpu_args :: u64
  vmode :: vcpu_mode
  status :: vcpu_status
  vcpu_vm :: ptr
  vcpu_thread :: ptr
  arch :: arch_vcpu
  affinity :: int
  vflags :: u32

datatype mops = Dist_mops | Redist_mops

record vm_info =
  inf_name :: string
  inf_image :: string
  inf_fdt :: string
  inf_os_type :: int
  inf_image_type :: int
  inf_priority :: int
  inf_timeslice :: int
  inf_auto_boot :: int
  inf_entry :: u64
  inf_args :: u64
  inf_ipa_start :: u64
  inf_ram_size :: u64
  inf_vcpu_num :: int
  inf_vcpu_mode :: int
  inf_vcpu_affinity :: "int list"
  inf_vm_cfg :: "u8 list"
  inf_cfg_offset :: u32

record lk_vm =
  vmid :: u32
  info :: vm_info
  is_load :: bool
  mem :: vm_mem
  vcpu_num :: int
  primary_cpu :: int
  vm_vcpu :: "nat \<Rightarrow> ptr"
  vm_vgic :: vgic
  vm_mmio :: "mops mmio_space"

record virq_info =
  vif_vm :: ptr
  vif_virq :: u32
  vif_vcpu :: ptr

section \<open>Threads\<close>

datatype thread_state =
  THREAD_SUSPENDED | THREAD_READY | THREAD_RUNNING | THREAD_BLOCKED | THREAD_SLEEPING | THREAD_DEATH

record thread =
  queued :: bool
  t_priority :: nat
  t_state :: thread_state
  quantum :: int
  t_flags :: u32
  t_curr_cpu :: int
  pinned_cpu :: int
  t_vcpu :: ptr

datatype handler = Hv_int_handler | Vtimer_irq_handler | Vgic_maintenance_inter | Hv_event_handler
  | Hv_event_empty_handler | Ipi_generic_handler | Ipi_reschedule_handler

section \<open>The state\<close>

record hv_state =
  curr_cpu :: nat
  ints_off :: bool
  regs :: "nat \<Rightarrow> sysreg \<Rightarrow> u64"
  plat :: platform
  gic_log :: "gic_write list"
  icc_log :: "(nat \<times> icc_reg \<times> u64) list"
  cpu_id_map :: "nat \<Rightarrow> u64"
  percpu_handlers :: "nat \<Rightarrow> nat \<Rightarrow> (handler \<times> u64) option"
  shared_handlers :: "nat \<Rightarrow> (handler \<times> u64) option"
  vinfo :: vgic_info
  virqs :: "virq_ref \<Rightarrow> vgic_irq"
  vcpus :: "ptr \<Rightarrow> lk_vcpu"
  vms :: "ptr \<Rightarrow> lk_vm"
  irq2virq :: "nat \<Rightarrow> virq_info"
  vcpu_data :: "nat \<Rightarrow> ptr"
  cpu_event :: "nat \<Rightarrow> cbuf"
  threads :: "ptr \<Rightarrow> thread"
  run_queue :: "nat \<Rightarrow> ptr list"
  run_queue_bitmap :: u32
  current_thread :: "nat \<Rightarrow> ptr"
  idle_thread :: "nat \<Rightarrow> ptr"
  active_cpus :: u32
  idle_cpus :: u32
  realtime_cpus :: u32
  mm :: mm_state
  vm_list :: "ptr list"

section \<open>Access to the state\<close>

definition ARM64_READ_SYSREG :: "sysreg \<Rightarrow> hv_state \<Rightarrow> u64" where
  "ARM64_READ_SYSREG r s = regs s (curr_cpu s) r"

definition ARM64_WRITE_SYSREG :: "sysreg \<Rightarrow> u64 \<Rightarrow> hv_state \<Rightarrow> hv_state" where
  "ARM64_WRITE_SYSREG r v s =
     s\<lparr>regs := (regs s)(curr_cpu s := (regs s (curr_cpu s))(r := v))\<rparr>"

text \<open>
  A write to a register of the CPU interface is an event (an SGI sent, a priority drop), so besides
  the register it appends to a log, with the CPU it happens on.
\<close>

definition ARM64_WRITE_ICC :: "icc_reg \<Rightarrow> u64 \<Rightarrow> hv_state \<Rightarrow> hv_state" where
  "ARM64_WRITE_ICC r v s =
     ARM64_WRITE_SYSREG (ICC r) v (s\<lparr>icc_log := icc_log s @ [(curr_cpu s, r, v)]\<rparr>)"

text \<open>Memory-mapped registers of the GIC.\<close>

definition GICREG :: "u64 \<Rightarrow> hv_state \<Rightarrow> u32" where
  "GICREG a s = gic_read (plat s) (gic_log s) a"

definition gic_put :: "gic_write \<Rightarrow> hv_state \<Rightarrow> hv_state" where
  "gic_put w s = s\<lparr>gic_log := gic_log s @ [w]\<rparr>"

text \<open>Updates of one object in its store, of a virtual interrupt, and of the redistributor of a virtual CPU.\<close>

definition upd_virq :: "virq_ref \<Rightarrow> (vgic_irq \<Rightarrow> vgic_irq) \<Rightarrow> hv_state \<Rightarrow> hv_state" where
  "upd_virq r f s = s\<lparr>virqs := (virqs s)(r := f (virqs s r))\<rparr>"

definition upd_vcpu :: "ptr \<Rightarrow> (lk_vcpu \<Rightarrow> lk_vcpu) \<Rightarrow> hv_state \<Rightarrow> hv_state" where
  "upd_vcpu v f s = s\<lparr>vcpus := (vcpus s)(v := f (vcpus s v))\<rparr>"

definition upd_vm :: "ptr \<Rightarrow> (lk_vm \<Rightarrow> lk_vm) \<Rightarrow> hv_state \<Rightarrow> hv_state" where
  "upd_vm v f s = s\<lparr>vms := (vms s)(v := f (vms s v))\<rparr>"

definition upd_thread :: "ptr \<Rightarrow> (thread \<Rightarrow> thread) \<Rightarrow> hv_state \<Rightarrow> hv_state" where
  "upd_thread t f s = s\<lparr>threads := (threads s)(t := f (threads s t))\<rparr>"

definition upd_mem :: "ptr \<Rightarrow> (vm_mem \<Rightarrow> vm_mem) \<Rightarrow> hv_state \<Rightarrow> hv_state" where
  "upd_mem vm f = upd_vm vm (\<lambda>m. m\<lparr>mem := f (mem m)\<rparr>)"

definition redist :: "hv_state \<Rightarrow> ptr \<Rightarrow> vgic_redist" where
  "redist s v = av_vgic (arch (vcpus s v))"

definition upd_redist :: "ptr \<Rightarrow> (vgic_redist \<Rightarrow> vgic_redist) \<Rightarrow> hv_state \<Rightarrow> hv_state" where
  "upd_redist v f = upd_vcpu v (\<lambda>c. c\<lparr>arch := (arch c)\<lparr>av_vgic := f (av_vgic (arch c))\<rparr>\<rparr>)"

definition vtimer :: "hv_state \<Rightarrow> ptr \<Rightarrow> arch_vtimer" where
  "vtimer s v = av_vtimer (arch (vcpus s v))"

definition upd_vtimer :: "ptr \<Rightarrow> (arch_vtimer \<Rightarrow> arch_vtimer) \<Rightarrow> hv_state \<Rightarrow> hv_state" where
  "upd_vtimer v f = upd_vcpu v (\<lambda>c. c\<lparr>arch := (arch c)\<lparr>av_vtimer := f (av_vtimer (arch c))\<rparr>\<rparr>)"

definition hv_get_dist :: "hv_state \<Rightarrow> ptr \<Rightarrow> vgic_dist" where
  "hv_get_dist s vm = vg_dist (vm_vgic (vms s vm))"

definition upd_dist :: "ptr \<Rightarrow> (vgic_dist \<Rightarrow> vgic_dist) \<Rightarrow> hv_state \<Rightarrow> hv_state" where
  "upd_dist vm f = upd_vm vm (\<lambda>m. m\<lparr>vm_vgic := (vm_vgic m)\<lparr>vg_dist := f (vg_dist (vm_vgic m))\<rparr>\<rparr>)"

definition current_vcpu :: "hv_state \<Rightarrow> ptr" where
  "current_vcpu s = vcpu_data s (curr_cpu s)"

definition get_current_thread :: "hv_state \<Rightarrow> ptr" where
  "get_current_thread s = current_thread s (curr_cpu s)"

lemmas upd_defs = upd_virq_def upd_vcpu_def upd_vm_def upd_thread_def upd_redist_def upd_vtimer_def upd_dist_def
lemmas get_defs = redist_def vtimer_def hv_get_dist_def

lemma sysreg_write_read [simp]:
  "ARM64_READ_SYSREG r (ARM64_WRITE_SYSREG r' v s) = (if r = r' then v else ARM64_READ_SYSREG r s)"
  by (simp add: ARM64_READ_SYSREG_def ARM64_WRITE_SYSREG_def)

section \<open>Zeroed objects\<close>

text \<open>The objects with every word zero, as static data and \<^verbatim>\<open>memset\<close> leave them.\<close>

definition zero_virq :: vgic_irq where
  "zero_virq = \<lparr>pd_node = None, lr_node = None, vq_vcpu = 0, intid = 0, hwintid = 0, priority = 0,
     pending = False, active = False, enable = False, vq_type = False, group1 = False, pdq = False,
     migrate = False, lr = 0, iroute = 0\<rparr>"

definition zero_dist :: vgic_dist where
  "zero_dist = \<lparr>spi_num = 0, gicd_ctrl = 0, gicd_typer = 0, gicd_iidr = 0, gicd_typer2 = 0,
     dist_base = 0, dist_len = 0\<rparr>"

definition zero_vgic :: vgic where
  "zero_vgic = \<lparr>vg_cfg = \<lparr>d_base = 0, r0_base = 0, r1_base = 0, d_len = 0, r0_len = 0, r1_len = 0,
     redist_num = 0\<rparr>, vg_dist = zero_dist\<rparr>"

definition zero_redist :: vgic_redist where
  "zero_redist = \<lparr>pd_head = [], lr_head = [], used_lr = 0, rd_base = 0, rd_len = 0, sgi_base = 0,
     ich_vmcr = 0, ich_hcr = 0, rd_lr = (\<lambda>_. 0), apr0 = (\<lambda>_. 0), apr1 = (\<lambda>_. 0), ap_nr = 0,
     rd_lr_nr = 0\<rparr>"

definition zero_vtimer :: arch_vtimer where
  "zero_vtimer = \<lparr>cntpct = 0, cntvoff_el2 = 0, cntvctl_el1 = 0, cntvcval_el1 = 0, cntvtval_el1 = 0\<rparr>"

definition zero_vcpu :: lk_vcpu where
  "zero_vcpu = \<lparr>vcpu_id = 0, processor = 0, is_primary = False, is_inited = False, vcpu_entry = 0,
     vcpu_args = 0, vmode = ARM_32, status = VCPU_CREATED, vcpu_vm = 0, vcpu_thread = 0,
     arch = \<lparr>ctx = replicate 27 0, av_vgic = zero_redist, av_vtimer = zero_vtimer\<rparr>, affinity = 0,
     vflags = 0\<rparr>"

definition zero_info :: vm_info where
  "zero_info = \<lparr>inf_name = [], inf_image = [], inf_fdt = [], inf_os_type = 0, inf_image_type = 0,
     inf_priority = 0, inf_timeslice = 0, inf_auto_boot = 0, inf_entry = 0, inf_args = 0,
     inf_ipa_start = 0, inf_ram_size = 0, inf_vcpu_num = 0, inf_vcpu_mode = 0, inf_vcpu_affinity = [],
     inf_vm_cfg = [], inf_cfg_offset = 0\<rparr>"

definition zero_mem :: vm_mem where
  "zero_mem = \<lparr>arch_mem = \<lparr>vttbr = 0, st2_table = 0, st2_ln = [], st2_root_kva = 0, am_vmid = 0\<rparr>, seg_num = 0, mem_seg = None,
     need_flush = False\<rparr>"

definition zero_mm :: mm_state where
  "zero_mm = \<lparr>arenas = [], mmu_initial_mappings = [], kmem = (\<lambda>_. 0), base_vmid = 1, vmid_bits = 8, root_order = 0, root_level = 1,
     st2_log = []\<rparr>"

definition zero_vm :: lk_vm where
  "zero_vm = \<lparr>vmid = 0, info = zero_info, is_load = False, mem = zero_mem, vcpu_num = 0, primary_cpu = 0,
     vm_vcpu = (\<lambda>_. 0), vm_vgic = zero_vgic, vm_mmio = hv_vm_mmio_init\<rparr>"

definition zero_thread :: thread where
  "zero_thread = \<lparr>queued = False, t_priority = 0, t_state = THREAD_SUSPENDED, quantum = 0, t_flags = 0,
     t_curr_cpu = 0, pinned_cpu = 0, t_vcpu = 0\<rparr>"

definition zero_cbuf :: cbuf where
  "zero_cbuf = \<lparr>cb_head = 0, cb_tail = 0, cb_len_pow2 = 0, cb_buf = [], cb_event = False\<rparr>"

definition zero_state :: "platform \<Rightarrow> hv_state" where
  "zero_state p = \<lparr>curr_cpu = 0, ints_off = True, regs = (\<lambda>_ _. 0), plat = p, gic_log = [], icc_log = [],
     cpu_id_map = (\<lambda>_. 0), percpu_handlers = (\<lambda>_ _. None), shared_handlers = (\<lambda>_. None),
     vinfo = \<lparr>vi_lr_nr = 0, vi_pribits = 0\<rparr>, virqs = (\<lambda>_. zero_virq), vcpus = (\<lambda>_. zero_vcpu),
     vms = (\<lambda>_. zero_vm), irq2virq = (\<lambda>_. \<lparr>vif_vm = 0, vif_virq = 0, vif_vcpu = 0\<rparr>),
     vcpu_data = (\<lambda>_. 0), cpu_event = (\<lambda>_. zero_cbuf), threads = (\<lambda>_. zero_thread),
     run_queue = (\<lambda>_. []), run_queue_bitmap = 0, current_thread = (\<lambda>_. 0), idle_thread = (\<lambda>_. 0),
     active_cpus = 0, idle_cpus = 0, realtime_cpus = 0,
     mm = zero_mm, vm_list = []\<rparr>"

definition state0 :: hv_state where
  "state0 = zero_state ref_platform"

lemmas zero_defs = zero_virq_def zero_dist_def zero_vgic_def zero_redist_def zero_vtimer_def
  zero_vcpu_def zero_info_def zero_mem_def zero_mm_def zero_vm_def zero_thread_def zero_cbuf_def zero_state_def state0_def

end
