(* ===== verification/Gic_V3.thy ===== *)
theory Gic_V3
  imports Hv_State
begin

text \<open>
  The GICv3 driver, \<^verbatim>\<open>dev/interrupt/gic_v3/gic_v3.c\<close>, on the register addresses of the
  \<^verbatim>\<open>qemu-virt-arm\<close> platform, and the inter-processor interrupts of \<^verbatim>\<open>arch/arm64/mp.c\<close>. A register write is an entry of the log;
  the loops that wait for \<^verbatim>\<open>GICD_CTLR.RWP\<close> to clear change nothing and are left out. The dispatch of
  an interrupt to its handler is in the theory of the interrupt path. The console commands at the
  end of the file are not modelled.
\<close>

section \<open>Register addresses\<close>

definition GICD_OFFSET :: u64 where "GICD_OFFSET = 0x0000ffffc0000000 + 0x08000000"
definition GICR_BASE :: u64 where "GICR_BASE = 0x0000ffffc0000000 + 0x80a0000"
definition GICR_FRAME :: u64 where "GICR_FRAME = 0x10000"
definition MAX_INT :: nat where "MAX_INT = 128"
definition MAX_PPI_VEC :: nat where "MAX_PPI_VEC = 31"
definition SMP_MAX_CPUS :: nat where "SMP_MAX_CPUS = 4"
definition INT_IRQ :: u64 where "INT_IRQ = 0xabcddcba"

definition GICD_CTLR :: u64 where "GICD_CTLR = GICD_OFFSET"
definition GICD_TYPER :: u64 where "GICD_TYPER = GICD_OFFSET + 0x004"
definition GICD_IIDR :: u64 where "GICD_IIDR = GICD_OFFSET + 0x008"
definition GICD_REG :: "u64 \<Rightarrow> nat \<Rightarrow> u64" where "GICD_REG base n = GICD_OFFSET + base + of_nat n * 4"
definition GICD_IROUTER :: "nat \<Rightarrow> u64" where "GICD_IROUTER n = GICD_OFFSET + 0x6100 + of_nat n * 8"
definition GICR_OFFSET :: "nat \<Rightarrow> u64" where "GICR_OFFSET cpu = GICR_BASE + GICR_FRAME * 2 * of_nat cpu"
definition SGI_REG :: "nat \<Rightarrow> u64 \<Rightarrow> u64" where "SGI_REG cpu off = GICR_OFFSET cpu + GICR_FRAME + off"

section \<open>Per-interrupt registers\<close>

definition int_mask :: "nat \<Rightarrow> u32" where
  "int_mask vector = push_bit (vector mod 32) 1"

text \<open>The set/clear register pair of an SPI, or of a private interrupt of the current CPU.\<close>

definition bit_reg :: "u64 \<Rightarrow> nat \<Rightarrow> hv_state \<Rightarrow> u64" where
  "bit_reg base vector s =
     (if vector > MAX_PPI_VEC then GICD_REG base (vector div 32) else SGI_REG (curr_cpu s) base)"

definition gic_set_enable :: "nat \<Rightarrow> bool \<Rightarrow> hv_state \<Rightarrow> hv_state" where
  "gic_set_enable vector en s =
     (if en then gic_put (W32 (bit_reg 0x100 vector s) (int_mask vector)) s
      else gic_put (W32 (bit_reg 0x180 vector s) (int_mask vector)) s)"

definition gic_trigger_interrupt :: "nat \<Rightarrow> hv_state \<Rightarrow> hv_state" where
  "gic_trigger_interrupt vector s = gic_put (W32 (bit_reg 0x200 vector s) (int_mask vector)) s"

definition gic_clear_pending :: "nat \<Rightarrow> hv_state \<Rightarrow> hv_state" where
  "gic_clear_pending vector s = gic_put (W32 (bit_reg 0x280 vector s) (int_mask vector)) s"

definition gic_set_isactiver :: "nat \<Rightarrow> hv_state \<Rightarrow> hv_state" where
  "gic_set_isactiver vector s = gic_put (W32 (bit_reg 0x300 vector s) (int_mask vector)) s"

definition gic_set_icactiver :: "nat \<Rightarrow> hv_state \<Rightarrow> hv_state" where
  "gic_set_icactiver vector s = gic_put (W32 (bit_reg 0x380 vector s) (int_mask vector)) s"

definition gic_set_priority :: "nat \<Rightarrow> u8 \<Rightarrow> nat \<Rightarrow> hv_state \<Rightarrow> hv_state" where
  "gic_set_priority vector pri cpu s =
     (let ipriority = (if vector < MAX_PPI_VEC then SGI_REG cpu 0x400 + of_nat vector
                       else GICD_REG 0x400 0 + of_nat vector)
      in gic_put (W8 ipriority pri) s)"

definition gic_set_cfg :: "nat \<Rightarrow> bool \<Rightarrow> nat \<Rightarrow> hv_state \<Rightarrow> hv_state" where
  "gic_set_cfg vector is_edge cpu s =
     (let icfg_n = vector div 16; icfg_off = vector mod 16;
          icfgr = (if vector \<le> MAX_PPI_VEC
                   then (if icfg_n = 0 then SGI_REG cpu 0xc00 else SGI_REG cpu 0xc04)
                   else GICD_REG 0xc00 icfg_n);
          old = GICREG icfgr s;
          b = push_bit (2 * icfg_off + 1) 1 :: u32;
          new = (if is_edge then old OR b else old AND NOT b)
      in gic_put (W32 icfgr new) s)"

definition gic_set_affinity :: "nat \<Rightarrow> nat \<Rightarrow> bool \<Rightarrow> hv_state \<Rightarrow> hv_state" where
  "gic_set_affinity vector cpu is_cluster s =
     (let cpu_map = cpu_id_map s cpu;
          iroute = (if is_cluster then scast (push_bit 31 1 :: u32) else cpu_map)
      in gic_put (W64 (GICD_IROUTER vector) iroute) s)"

definition gic_read_ispendr :: "nat \<Rightarrow> hv_state \<Rightarrow> u32" where
  "gic_read_ispendr vector s = GICREG (bit_reg 0x200 vector s) s AND int_mask vector"

section \<open>Handlers\<close>

definition get_int_handler :: "nat \<Rightarrow> nat \<Rightarrow> hv_state \<Rightarrow> (handler \<times> u64) option" where
  "get_int_handler vector cpu s =
     (if vector < 32 then percpu_handlers s vector cpu else shared_handlers s (vector - 32))"

definition set_int_handler :: "nat \<Rightarrow> nat \<Rightarrow> handler \<times> u64 \<Rightarrow> hv_state \<Rightarrow> hv_state" where
  "set_int_handler vector cpu h s =
     (if vector < 32
      then s\<lparr>percpu_handlers := (percpu_handlers s)(vector := (percpu_handlers s vector)(cpu := Some h))\<rparr>
      else s\<lparr>shared_handlers := (shared_handlers s)(vector - 32 := Some h)\<rparr>)"

text \<open>\<open>None\<close> is the panic on a vector out of range. The parameter \<^verbatim>\<open>enable\<close> is not used by the code.\<close>

definition gic_set_irq :: "nat \<Rightarrow> u8 \<Rightarrow> bool \<Rightarrow> handler \<Rightarrow> u64 \<Rightarrow> hv_state \<Rightarrow> hv_state option" where
  "gic_set_irq vector pri is_edge h arg s =
     (if vector \<ge> MAX_INT then None
      else
        let cpu = curr_cpu s;
            s = gic_set_cfg vector is_edge cpu s;
            s = gic_set_priority vector pri cpu s;
            s = gic_set_enable vector True s;
            s = (if vector > MAX_PPI_VEC then gic_set_affinity vector cpu False s else s)
        in Some (set_int_handler vector cpu (h, arg) s))"

definition register_int_handler :: "nat \<Rightarrow> handler \<Rightarrow> u64 \<Rightarrow> hv_state \<Rightarrow> hv_state option" where
  "register_int_handler vector h arg s =
     (if vector \<ge> MAX_INT then None else gic_set_irq vector 0xa0 True h arg s)"

definition mask_interrupt :: "nat \<Rightarrow> hv_state \<Rightarrow> hv_state \<times> int" where
  "mask_interrupt vector s =
     (if vector \<ge> MAX_INT then (s, ERR_INVALID_ARGS) else (gic_set_enable vector False s, NO_ERROR))"

definition unmask_interrupt :: "nat \<Rightarrow> hv_state \<Rightarrow> hv_state \<times> int" where
  "unmask_interrupt vector s =
     (if vector \<ge> MAX_INT then (s, ERR_INVALID_ARGS) else (gic_set_enable vector True s, NO_ERROR))"

section \<open>Identification and initialisation\<close>

definition read_gicd_iidr :: "hv_state \<Rightarrow> u32" where
  "read_gicd_iidr s = GICREG GICD_IIDR s"

definition read_gicr_iidr :: "hv_state \<Rightarrow> u32" where
  "read_gicr_iidr s = GICREG (GICR_OFFSET (curr_cpu s) + 4) s"

definition get_max_ints :: "hv_state \<Rightarrow> u32" where
  "get_max_ints s = GICREG GICD_TYPER s AND 0x1f"

definition get_max_spi :: "hv_state \<Rightarrow> u32" where
  "get_max_spi s = 32 * (get_max_ints s + 1) - 1"

definition init_cpu_map :: "nat \<Rightarrow> hv_state \<Rightarrow> hv_state" where
  "init_cpu_map cpu s =
     (if cpu \<ge> SMP_MAX_CPUS then s
      else s\<lparr>cpu_id_map := (cpu_id_map s)(cpu := ARM64_READ_SYSREG MPIDR_EL1 s AND 0xff00ffffff)\<rparr>)"

text \<open>\<^verbatim>\<open>vgic_gic_init\<close> of \<^verbatim>\<open>vgic_gic.c\<close>: the fields of \<^verbatim>\<open>ICH_VTR_EL2\<close> and the maintenance interrupt.\<close>

definition vgic_gic_init :: "hv_state \<Rightarrow> hv_state option" where
  "vgic_gic_init s =
     (let v = ARM64_READ_SYSREG ICH_VTR_EL2 s;
          s = s\<lparr>vinfo := \<lparr>vi_lr_nr = ucast (bitfield v 0 5), vi_pribits = ucast (bitfield v 29 3)\<rparr>\<rparr>
      in gic_set_irq 25 0x85 True Vgic_maintenance_inter 0 s)"

definition sgi_setup :: "nat \<Rightarrow> nat \<Rightarrow> hv_state \<Rightarrow> hv_state" where
  "sgi_setup cpu i s =
     gic_set_enable i True (gic_set_priority i 0x90 cpu (gic_set_cfg i True cpu s))"

definition arm_gic_init_percpu :: "hv_state \<Rightarrow> hv_state option" where
  "arm_gic_init_percpu s =
     (let cpu = curr_cpu s;
          waker = GICREG (GICR_OFFSET cpu + 0x14) s;
          s = gic_put (W32 (GICR_OFFSET cpu + 0x14) (waker AND NOT 2)) s;
          s = ARM64_WRITE_ICC ICC_SRE_EL2 (ARM64_READ_SYSREG (ICC ICC_SRE_EL2) s OR 1) s;
          s = ARM64_WRITE_ICC ICC_PMR_EL1 0xff s;
          s = ARM64_WRITE_ICC ICC_BPR1_EL1 0 s;
          s = ARM64_WRITE_ICC ICC_CTLR_EL1 (ARM64_READ_SYSREG (ICC ICC_CTLR_EL1) s OR 2) s;
          s = gic_put (W32 (SGI_REG cpu 0x180) (-1)) s;
          s = gic_put (W32 (SGI_REG cpu 0x380) (-1)) s;
          s = gic_put (W32 (SGI_REG cpu 0x80) (-1)) s;
          s = fold (sgi_setup cpu) [0..<16] s;
          s = ARM64_WRITE_ICC ICC_IGRPEN1_EL1 1 s;
          s = init_cpu_map cpu s
      in vgic_gic_init s)"

definition arm_gic_init :: "hv_state \<Rightarrow> hv_state option" where
  "arm_gic_init s =
     (let reg_num = unat (get_max_ints s + 1);
          s = fold (\<lambda>i. gic_put (W32 (GICD_REG 0x180 i) (-1))) [0..<reg_num] s;
          s = fold (\<lambda>i. gic_put (W32 (GICD_REG 0x80 i) (-1))) [0..<reg_num] s;
          s = gic_put (W32 GICD_CTLR 0x12) s
      in arm_gic_init_percpu s)"

section \<open>Software generated interrupts\<close>

text \<open>
  An affinity field is 8 bits of the MPIDR: \<open>aff_mask 0\<close> is \<^verbatim>\<open>MPIDR_AFF0_MASK\<close>, and \<open>aff_mask 32\<close>,
  \<open>aff_mask 16\<close>, \<open>aff_mask 8\<close> are the literals of \<^verbatim>\<open>arm_gic_sgi\<close>. The loops run to
  \<^verbatim>\<open>sizeof(cpu_mask)\<close>, which is 4.
\<close>

definition aff_mask :: "nat \<Rightarrow> u64" where
  "aff_mask lo = push_bit lo (mask 8)"

lemma bit_aff_mask [bit_simps]: "bit (aff_mask lo) n \<longleftrightarrow> lo \<le> n \<and> n < lo + 8 \<and> n < 64"
  by (auto simp: aff_mask_def bit_simps)

definition cluster :: "hv_state \<Rightarrow> nat \<Rightarrow> u64" where
  "cluster s i = cpu_id_map s i AND NOT (aff_mask 0)"

definition aff0 :: "hv_state \<Rightarrow> nat \<Rightarrow> nat" where
  "aff0 s i = unat (cpu_id_map s i AND aff_mask 0)"

definition calc_step :: "hv_state \<Rightarrow> u64 \<Rightarrow> nat \<Rightarrow> u16 \<times> u32 \<Rightarrow> u16 \<times> u32" where
  "calc_step s cl i tm =
     (case tm of (tglist, cpu_mask) \<Rightarrow>
        if \<not> bit cpu_mask i then (tglist, cpu_mask)
        else if cluster s i \<noteq> cl then (tglist, cpu_mask)
        else (tglist OR ucast (push_bit (aff0 s i) 1 :: u32),
              cpu_mask AND NOT (push_bit i 1)))"

definition calc_tglist :: "hv_state \<Rightarrow> u32 \<Rightarrow> u64 \<Rightarrow> u16 \<times> u32" where
  "calc_tglist s cpu_mask cl = fold (calc_step s cl) [0..<4] (0, cpu_mask)"

definition sgi_value :: "u64 \<Rightarrow> u32 \<Rightarrow> u16 \<Rightarrow> u64" where
  "sgi_value cl irq tglist =
     push_bit 16 (cl AND aff_mask 32) OR push_bit 16 (cl AND aff_mask 16) OR
     push_bit 8 (cl AND aff_mask 8) OR ucast (push_bit 24 irq OR ucast tglist :: u32)"

definition sgi_step :: "u32 \<Rightarrow> nat \<Rightarrow> hv_state \<times> u32 \<Rightarrow> hv_state \<times> u32" where
  "sgi_step irq i sm =
     (case sm of (s, cpu_mask) \<Rightarrow>
        if \<not> bit cpu_mask i then (s, cpu_mask)
        else
          let cl = cluster s i;
              (tglist, cpu_mask) = calc_tglist s cpu_mask cl
          in (ARM64_WRITE_ICC ICC_SGI1R_EL1 (sgi_value cl irq tglist) s, cpu_mask))"

definition arm_gic_sgi :: "u32 \<Rightarrow> u32 \<Rightarrow> hv_state \<Rightarrow> hv_state" where
  "arm_gic_sgi irq cpu_mask s = fst (fold (sgi_step irq) [0..<4] (s, cpu_mask))"

datatype mp_ipi = MP_IPI_HV_EVENT | MP_IPI_GENERIC | MP_IPI_RESCHEDULE | MP_IPI_HV_EVENT1

fun ipi_num :: "mp_ipi \<Rightarrow> u32" where
  "ipi_num MP_IPI_HV_EVENT = 0"
| "ipi_num MP_IPI_GENERIC = 1"
| "ipi_num MP_IPI_RESCHEDULE = 2"
| "ipi_num MP_IPI_HV_EVENT1 = 3"

definition arch_mp_send_ipi :: "u32 \<Rightarrow> mp_ipi \<Rightarrow> hv_state \<Rightarrow> hv_state" where
  "arch_mp_send_ipi target ipi s =
     (let target = target AND mask SMP_MAX_CPUS
      in if target \<noteq> 0 then arm_gic_sgi (ipi_num ipi + 12) target s else s)"

section \<open>Which interrupt a register write addresses\<close>

text \<open>
  In the GICv3 architecture, bit \<open>i\<close> of word \<open>n\<close> of a set or clear register of the distributor stands
  for interrupt \<open>32 n + i\<close>, and the routing register of interrupt \<open>n\<close> is at \<open>0x6000 + 8 n\<close>.
\<close>

definition addressed :: "u64 \<Rightarrow> gic_write \<Rightarrow> nat set" where
  "addressed base w = (case w of
     W32 a m \<Rightarrow> {32 * n + i | n i. n < 32 \<and> i < 32 \<and> a = GICD_REG base n \<and> bit m i}
   | _ \<Rightarrow> {})"

definition routed :: "gic_write \<Rightarrow> nat set" where
  "routed w = (case w of W64 a v \<Rightarrow> {n. n < 1020 \<and> a = GICD_OFFSET + 0x6000 + of_nat n * 8} | _ \<Rightarrow> {})"

lemma GICD_REG_inj: "n < 32 \<Longrightarrow> m < 32 \<Longrightarrow> GICD_REG base n = GICD_REG base m \<longleftrightarrow> n = m"
proof -
  assume b: "n < 32" "m < 32"
  have "unat (of_nat k * 4 :: u64) = k * 4" if "k < 32" for k
    using that by (simp add: unat_word_ariths unat_of_nat)
  with b have "(of_nat n * 4 :: u64) = of_nat m * 4 \<longleftrightarrow> n = m"
    by (metis mult_right_cancel zero_neq_numeral)
  then show ?thesis by (simp add: GICD_REG_def)
qed

lemma addressed_spi:
  assumes "32 \<le> vector" "vector < 1024"
  shows "addressed base (W32 (bit_reg base vector s) (int_mask vector)) = {vector}"
proof -
  have v: "vector div 32 < 32" "MAX_PPI_VEC < vector" using assms by (auto simp: MAX_PPI_VEC_def)
  have e: "n < 32 \<and> i < 32 \<and> bit_reg base vector s = GICD_REG base n \<and> bit (int_mask vector) i \<longleftrightarrow>
      n = vector div 32 \<and> i = vector mod 32" for n i
    using v by (cases "n < 32") (auto simp: bit_reg_def int_mask_def GICD_REG_inj bit_simps)
  then show ?thesis by (simp add: addressed_def)
qed

lemma routed_affinity:
  assumes "vector + 32 < 1020"
  shows "routed (W64 (GICD_IROUTER vector) v) = {vector + 32}"
proof -
  have u: "unat (of_nat k * 8 :: u64) = k * 8" if "k < 1020" for k
    using that by (simp add: unat_word_ariths unat_of_nat)
  have i: "(of_nat n * 8 :: u64) = of_nat (vector + 32) * 8 \<longleftrightarrow> n = vector + 32" if n: "n < 1020" for n
  proof
    assume "(of_nat n * 8 :: u64) = of_nat (vector + 32) * 8"
    then have "n * 8 = (vector + 32) * 8" using u [OF n] u [OF assms] by presburger
    then show "n = vector + 32" by simp
  qed auto
  have r: "GICD_IROUTER vector = GICD_OFFSET + 0x6000 + of_nat (vector + 32) * 8"
    by (simp add: GICD_IROUTER_def)
  have "n < 1020 \<and> GICD_IROUTER vector = GICD_OFFSET + 0x6000 + of_nat n * 8 \<longleftrightarrow> n = vector + 32" for n
    unfolding r add_left_cancel using i [of n] assms by (metis (no_types, lifting))
  then show ?thesis by (simp add: routed_def)
qed

section \<open>Targets of a software generated interrupt\<close>

text \<open>What \<^verbatim>\<open>ICC_SGI1R_EL1\<close> means: the affinity of the cluster, the CPUs in it, the interrupt.\<close>

definition sgi_cluster :: "u64 \<Rightarrow> u64" where
  "sgi_cluster v = push_bit 32 (bitfield v 48 8) OR push_bit 16 (bitfield v 32 8) OR push_bit 8 (bitfield v 16 8)"

definition sgi_dest :: "u64 \<Rightarrow> (u64 \<times> nat) set" where
  "sgi_dest v = {(sgi_cluster v, j) | j. j < 16 \<and> bit v j}"

definition sgi_intid :: "u64 \<Rightarrow> u64" where
  "sgi_intid v = bitfield v 24 4"

text \<open>
  The CPU numbers map to affinities with bits only in the fields the GIC routes by, and CPUs of a
  cluster are numbered below 16, as the comment on \<^verbatim>\<open>calc_tglist\<close> asks.
\<close>

definition cpu_map_ok :: "hv_state \<Rightarrow> bool" where
  "cpu_map_ok s \<longleftrightarrow>
     (\<forall>i<4. cluster s i AND (aff_mask 32 OR aff_mask 16 OR aff_mask 8) = cluster s i \<and> aff0 s i < 16)"

lemma bit_sgi_value:
  "bit (sgi_value cl irq tg) n \<longleftrightarrow>
     48 \<le> n \<and> n < 56 \<and> bit cl (n - 16) \<or> 32 \<le> n \<and> n < 40 \<and> bit cl (n - 16) \<or>
     16 \<le> n \<and> n < 24 \<and> bit cl (n - 8) \<or> 24 \<le> n \<and> n < 32 \<and> bit irq (n - 24) \<or> n < 16 \<and> bit tg n"
proof -
  have "bit (push_bit 16 (cl AND aff_mask 32)) n \<longleftrightarrow> 48 \<le> n \<and> n < 56 \<and> bit cl (n - 16)"
    "bit (push_bit 16 (cl AND aff_mask 16)) n \<longleftrightarrow> 32 \<le> n \<and> n < 40 \<and> bit cl (n - 16)"
    "bit (push_bit 8 (cl AND aff_mask 8)) n \<longleftrightarrow> 16 \<le> n \<and> n < 24 \<and> bit cl (n - 8)"
    by (auto simp: bit_simps)
  moreover have "bit (ucast (push_bit 24 irq OR ucast tg :: u32) :: u64) n \<longleftrightarrow>
      24 \<le> n \<and> n < 32 \<and> bit irq (n - 24) \<or> n < 16 \<and> bit tg n"
    by (auto simp: bit_simps dest: bit_imp_le_length)
  ultimately show ?thesis by (simp only: sgi_value_def bit_or_iff disj_assoc)
qed

lemma sgi_cluster_value:
  assumes "cl AND (aff_mask 32 OR aff_mask 16 OR aff_mask 8) = cl"
  shows "sgi_cluster (sgi_value cl irq tg) = cl"
proof (rule bit_word_eqI)
  fix n assume n: "n < LENGTH(64)"
  have c: "bit cl k \<Longrightarrow> 32 \<le> k \<and> k < 40 \<or> 16 \<le> k \<and> k < 24 \<or> 8 \<le> k \<and> k < 16" for k
    using arg_cong [OF assms(1), of "\<lambda>w. bit w k"] by (auto simp: bit_simps)
  show "bit (sgi_cluster (sgi_value cl irq tg)) n \<longleftrightarrow> bit cl n"
  proof -
    have "bit (push_bit 32 (bitfield v 48 8)) n \<longleftrightarrow> 32 \<le> n \<and> n < 40 \<and> bit v (16 + n)"
      "bit (push_bit 16 (bitfield v 32 8)) n \<longleftrightarrow> 16 \<le> n \<and> n < 24 \<and> bit v (16 + n)"
      "bit (push_bit 8 (bitfield v 16 8)) n \<longleftrightarrow> 8 \<le> n \<and> n < 16 \<and> bit v (8 + n)" for v :: u64
      by (auto simp: bit_simps)
    moreover have "32 \<le> n \<Longrightarrow> n < 40 \<Longrightarrow> bit (sgi_value cl irq tg) (16 + n) \<longleftrightarrow> bit cl n"
      "16 \<le> n \<Longrightarrow> n < 24 \<Longrightarrow> bit (sgi_value cl irq tg) (16 + n) \<longleftrightarrow> bit cl n"
      "8 \<le> n \<Longrightarrow> n < 16 \<Longrightarrow> bit (sgi_value cl irq tg) (8 + n) \<longleftrightarrow> bit cl n"
      by (simp_all add: bit_sgi_value)
    ultimately show ?thesis unfolding sgi_cluster_def bit_or_iff using c [of n] by blast
  qed
qed

lemma take_bit_small: "unat (w :: 'a::len word) < 2 ^ n \<Longrightarrow> take_bit n w = w"
  by (metis take_bit_nat_eq_self unsigned_take_bit_eq unsigned_word_eqI)

lemma sgi_intid_value:
  assumes "unat irq < 16"
  shows "sgi_intid (sgi_value cl irq tg) = ucast irq"
proof (rule bit_word_eqI)
  fix n
  have "take_bit 4 irq = irq" using assms by (intro take_bit_small) simp
  then have "bit irq n \<Longrightarrow> n < 4" by (metis bit_take_bit_iff)
  then show "bit (sgi_intid (sgi_value cl irq tg)) n \<longleftrightarrow> bit (ucast irq :: u64) n"
    by (auto simp: sgi_intid_def bit_simps bit_sgi_value)
qed

lemma calc_fold:
  assumes "fold (calc_step s cl) [0..<n] (0, m) = (tg, m')" "\<forall>i<n. aff0 s i < 16" "n \<le> 32"
  shows "(\<forall>j. bit tg j \<longleftrightarrow> (\<exists>i<n. bit m i \<and> cluster s i = cl \<and> aff0 s i = j)) \<and>
    (\<forall>k. bit m' k \<longleftrightarrow> bit m k \<and> \<not> (k < n \<and> cluster s k = cl))"
  using assms
proof (induction n arbitrary: tg m')
  case (Suc n)
  obtain tg1 m1 where f: "fold (calc_step s cl) [0..<n] (0, m) = (tg1, m1)" by fastforce
  have IH: "bit tg1 j \<longleftrightarrow> (\<exists>i<n. bit m i \<and> cluster s i = cl \<and> aff0 s i = j)"
    "bit m1 k \<longleftrightarrow> bit m k \<and> \<not> (k < n \<and> cluster s k = cl)" for j k
    using Suc.IH [OF f] Suc.prems by auto
  have st: "calc_step s cl n (tg1, m1) = (tg, m')" using Suc.prems(1) f by simp
  have a: "aff0 s n < 16" using Suc.prems(2) by simp
  show ?case
  proof (cases "bit m n \<and> cluster s n = cl")
    case True
    then have "tg = tg1 OR ucast (push_bit (aff0 s n) 1 :: u32)" "m' = m1 AND NOT (push_bit n 1)"
      using st IH(2) [of n] by (auto simp: calc_step_def)
    moreover have "bit (ucast (push_bit (aff0 s n) 1 :: u32) :: u16) j \<longleftrightarrow> j = aff0 s n" for j
      using a by (auto simp: bit_simps)
    moreover have "bit (m1 AND NOT (push_bit n 1)) k \<longleftrightarrow> bit m1 k \<and> k \<noteq> n" for k
      using Suc.prems(3) by (auto simp: bit_simps dest: bit_imp_le_length)
    ultimately show ?thesis using True IH by (auto simp: bit_or_iff less_Suc_eq)
  next
    case False
    then have "tg = tg1" "m' = m1" using st IH(2) [of n] by (auto simp: calc_step_def split: if_splits)
    with False IH show ?thesis by (auto simp: less_Suc_eq)
  qed
qed auto

lemma write_icc_fields [simp]:
  "cpu_id_map (ARM64_WRITE_ICC r v s) = cpu_id_map s" "curr_cpu (ARM64_WRITE_ICC r v s) = curr_cpu s"
  "icc_log (ARM64_WRITE_ICC r v s) = icc_log s @ [(curr_cpu s, r, v)]"
  by (simp_all add: ARM64_WRITE_ICC_def ARM64_WRITE_SYSREG_def)

lemma write_icc_cluster [simp]:
  "cluster (ARM64_WRITE_ICC r v s) = cluster s" "aff0 (ARM64_WRITE_ICC r v s) = aff0 s"
  by (simp_all add: fun_eq_iff cluster_def aff0_def)

text \<open>One value written for cluster \<open>cl\<close> reaches the CPUs of the mask in that cluster.\<close>

lemma sgi_dest_value:
  assumes ok: "cpu_map_ok s" and t: "calc_tglist s m (cluster s i) = (tg, m')" and i: "i < 4"
  shows "sgi_dest (sgi_value (cluster s i) irq tg) =
      {(cluster s k, aff0 s k) | k. k < 4 \<and> bit m k \<and> cluster s k = cluster s i}"
    and "bit m' k \<longleftrightarrow> bit m k \<and> \<not> (k < 4 \<and> cluster s k = cluster s i)"
proof -
  have a: "\<forall>k<4. aff0 s k < 16" using ok by (simp add: cpu_map_ok_def)
  have f: "fold (calc_step s (cluster s i)) [0..<4] (0, m) = (tg, m')" using t by (simp only: calc_tglist_def)
  have c: "bit tg j \<longleftrightarrow> (\<exists>k<4. bit m k \<and> cluster s k = cluster s i \<and> aff0 s k = j)"
    "bit m' k \<longleftrightarrow> bit m k \<and> \<not> (k < 4 \<and> cluster s k = cluster s i)" for j k
    using calc_fold [OF f a] by auto
  show "bit m' k \<longleftrightarrow> bit m k \<and> \<not> (k < 4 \<and> cluster s k = cluster s i)" by (rule c(2))
  have cl: "sgi_cluster (sgi_value (cluster s i) irq tg) = cluster s i"
    using ok i by (intro sgi_cluster_value) (simp add: cpu_map_ok_def)
  have "j < 16 \<Longrightarrow> bit (sgi_value (cluster s i) irq tg) j \<longleftrightarrow> bit tg j" for j
    by (simp add: bit_sgi_value)
  then have "sgi_dest (sgi_value (cluster s i) irq tg) =
      {(cluster s i, j) | j. j < 16 \<and> (\<exists>k<4. bit m k \<and> cluster s k = cluster s i \<and> aff0 s k = j)}"
    unfolding sgi_dest_def cl c(1) by auto
  then show "sgi_dest (sgi_value (cluster s i) irq tg) =
      {(cluster s k, aff0 s k) | k. k < 4 \<and> bit m k \<and> cluster s k = cluster s i}"
    using a by (simp only:) (safe; metis)
qed

text \<open>After the first \<open>n\<close> CPUs: what has been sent and which CPUs are left.\<close>

lemma sgi_fold:
  assumes ok: "cpu_map_ok s" and "n \<le> 4" and "unat irq < 16"
    and "fold (sgi_step irq) [0..<n] (s, m) = (s', m')"
  shows "\<exists>vs. icc_log s' = icc_log s @ map (\<lambda>v. (curr_cpu s, ICC_SGI1R_EL1, v)) vs \<and>
      cpu_id_map s' = cpu_id_map s \<and> curr_cpu s' = curr_cpu s \<and> (\<forall>v\<in>set vs. sgi_intid v = ucast irq) \<and>
      \<Union> (sgi_dest ` set vs) = {(cluster s k, aff0 s k) | k. k < 4 \<and> bit m k \<and> \<not> bit m' k} \<and>
      (\<forall>k. bit m' k \<longrightarrow> bit m k) \<and> (\<forall>k<n. \<not> bit m' k)"
  using assms(2-)
proof (induction n arbitrary: s' m')
  case (Suc n)
  obtain s1 m1 where f: "fold (sgi_step irq) [0..<n] (s, m) = (s1, m1)" by fastforce
  from Suc.IH [OF _ Suc.prems(2) f] Suc.prems(1) obtain vs where
    IH: "icc_log s1 = icc_log s @ map (\<lambda>v. (curr_cpu s, ICC_SGI1R_EL1, v)) vs"
      "cpu_id_map s1 = cpu_id_map s" "curr_cpu s1 = curr_cpu s" "\<forall>v\<in>set vs. sgi_intid v = ucast irq"
      "\<Union> (sgi_dest ` set vs) = {(cluster s k, aff0 s k) | k. k < 4 \<and> bit m k \<and> \<not> bit m1 k}"
      "\<forall>k. bit m1 k \<longrightarrow> bit m k" "\<forall>k<n. \<not> bit m1 k" by auto
  have st: "sgi_step irq n (s1, m1) = (s', m')" using Suc.prems(3) f by simp
  have e: "cluster s1 = cluster s" "aff0 s1 = aff0 s" "cpu_map_ok s1"
    using IH(2) ok by (auto simp: fun_eq_iff cluster_def aff0_def cpu_map_ok_def)
  show ?case
  proof (cases "bit m1 n")
    case False
    with st have "s' = s1" "m' = m1" by (auto simp: sgi_step_def)
    with IH False show ?thesis by (intro exI [of _ vs]) (auto simp: less_Suc_eq)
  next
    case True
    obtain tg where t: "calc_tglist s1 m1 (cluster s1 n) = (tg, m')"
      and s': "s' = ARM64_WRITE_ICC ICC_SGI1R_EL1 (sgi_value (cluster s1 n) irq tg) s1"
      using st True by (auto simp: sgi_step_def Let_def split: prod.splits)
    have n: "n < 4" using Suc.prems(1) by simp
    note d = sgi_dest_value [OF e(3) t n, unfolded e(1,2)]
    let ?v = "sgi_value (cluster s1 n) irq tg"
    have "\<Union> (sgi_dest ` set (vs @ [?v])) = {(cluster s k, aff0 s k) | k. k < 4 \<and> bit m k \<and> \<not> bit m' k}"
      using IH(5,6) d(1) [of irq] d(2) by (auto simp: e(1))
    moreover have "\<forall>k<Suc n. \<not> bit m' k" using IH(7) d(2) n by (auto simp: less_Suc_eq)
    ultimately show ?thesis
      using IH s' d(2) Suc.prems(2)
      by (intro exI [of _ "vs @ [?v]"]) (auto simp: sgi_intid_value)
  qed
qed (auto intro!: exI [of _ "[]"])

lemma arm_gic_sgi_targets:
  assumes "cpu_map_ok s" "unat irq < 16"
  shows "\<exists>vs. icc_log (arm_gic_sgi irq m s) = icc_log s @ map (\<lambda>v. (curr_cpu s, ICC_SGI1R_EL1, v)) vs \<and>
      (\<forall>v\<in>set vs. sgi_intid v = ucast irq) \<and>
      \<Union> (sgi_dest ` set vs) = {(cluster s k, aff0 s k) | k. k < 4 \<and> bit m k}"
proof -
  obtain s' m' where f: "fold (sgi_step irq) [0..<4] (s, m) = (s', m')" by fastforce
  then have "arm_gic_sgi irq m s = s'" by (simp only: arm_gic_sgi_def fst_conv)
  moreover from sgi_fold [OF assms(1) _ assms(2) f] obtain vs where
    vs: "icc_log s' = icc_log s @ map (\<lambda>v. (curr_cpu s, ICC_SGI1R_EL1, v)) vs"
      "\<forall>v\<in>set vs. sgi_intid v = ucast irq"
      "\<Union> (sgi_dest ` set vs) = {(cluster s k, aff0 s k) | k. k < 4 \<and> bit m k \<and> \<not> bit m' k}"
      "\<forall>k<4. \<not> bit m' k" by auto
  moreover have "{(cluster s k, aff0 s k) | k. k < 4 \<and> bit m k \<and> \<not> bit m' k} =
      {(cluster s k, aff0 s k) | k. k < 4 \<and> bit m k}" using vs(4) by blast
  ultimately show ?thesis by (intro exI [of _ vs]) simp
qed

lemma ipi_intid: "unat (ipi_num ipi + 12) < 16"
  by (cases ipi) simp_all

section \<open>Properties\<close>

text \<open>
  For every shared interrupt, each driver operation on its enable, pending and active state
  writes exactly one distributor register, and the write addresses that interrupt and no other.
\<close>

theorem gic_spi_ops_address_vector:
  assumes "32 \<le> vector" "vector < 1024"
  shows "(\<exists>w. gic_log (gic_set_enable vector True s) = gic_log s @ [w] \<and> addressed 0x100 w = {vector}) \<and>
   (\<exists>w. gic_log (gic_set_enable vector False s) = gic_log s @ [w] \<and> addressed 0x180 w = {vector}) \<and>
   (\<exists>w. gic_log (gic_trigger_interrupt vector s) = gic_log s @ [w] \<and> addressed 0x200 w = {vector}) \<and>
   (\<exists>w. gic_log (gic_clear_pending vector s) = gic_log s @ [w] \<and> addressed 0x280 w = {vector}) \<and>
   (\<exists>w. gic_log (gic_set_isactiver vector s) = gic_log s @ [w] \<and> addressed 0x300 w = {vector}) \<and>
   (\<exists>w. gic_log (gic_set_icactiver vector s) = gic_log s @ [w] \<and> addressed 0x380 w = {vector})"
  using addressed_spi [OF assms]
  by (simp add: gic_set_enable_def gic_trigger_interrupt_def gic_clear_pending_def
      gic_set_isactiver_def gic_set_icactiver_def gic_put_def)

theorem gic_spi_ops_address_vector_witness:
  "\<exists>w. gic_log (gic_set_icactiver 33 state0) = gic_log state0 @ [w] \<and> addressed 0x380 w = {33}"
  using gic_spi_ops_address_vector [of 33 state0] by simp

text \<open>
  A software generated interrupt reaches exactly the CPUs of the mask among the first four: the
  values written to \<^verbatim>\<open>ICC_SGI1R_EL1\<close> name their affinities and no others, each with the interrupt
  number asked for, whatever clusters the CPUs are in.
\<close>

theorem arm_gic_sgi_reaches_mask:
  assumes "cpu_map_ok s" "unat irq < 16"
  shows "\<exists>vs. icc_log (arm_gic_sgi irq m s) = icc_log s @ map (\<lambda>v. (curr_cpu s, ICC_SGI1R_EL1, v)) vs \<and>
      (\<forall>v\<in>set vs. sgi_intid v = ucast irq) \<and>
      \<Union> (sgi_dest ` set vs) = {(cluster s k, aff0 s k) | k. k < 4 \<and> bit m k}"
  using assms by (rule arm_gic_sgi_targets)

lemma cpu_map_ok_zero: "cpu_map_ok state0"
  by (simp add: cpu_map_ok_def cluster_def aff0_def zero_defs)

theorem arm_gic_sgi_reaches_mask_witness:
  "\<exists>vs. icc_log (arm_gic_sgi 12 1 state0) = map (\<lambda>v. (0, ICC_SGI1R_EL1, v)) vs \<and>
      \<Union> (sgi_dest ` set vs) = {(0, 0)}"
proof -
  obtain vs where "icc_log (arm_gic_sgi 12 1 state0) = icc_log state0 @ map (\<lambda>v. (curr_cpu state0, ICC_SGI1R_EL1, v)) vs"
    "\<Union> (sgi_dest ` set vs) = {(cluster state0 k, aff0 state0 k) | k. k < 4 \<and> bit (1::u32) k}"
    using arm_gic_sgi_reaches_mask [OF cpu_map_ok_zero, of 12 1] by auto
  then show ?thesis
    by (intro exI [of _ vs]) (simp add: zero_state_def state0_def cluster_def aff0_def bit_1_iff)
qed

text \<open>
  \<^verbatim>\<open>gic_set_affinity\<close> writes the routing register that the architecture assigns to interrupt
  \<open>vector + 32\<close>: the macro adds the offset of the first shared interrupt to an index that already
  counts from 0, so the interrupt asked for keeps its route.
\<close>

theorem gic_set_affinity_routes_other:
  assumes "vector + 32 < 1020"
  shows "\<exists>w. gic_log (gic_set_affinity vector cpu c s) = gic_log s @ [w] \<and> routed w = {vector + 32}"
  using routed_affinity [OF assms] by (simp add: gic_set_affinity_def gic_put_def Let_def)

theorem gic_set_affinity_routes_other_witness:
  "\<exists>w. gic_log (gic_set_affinity 33 1 False state0) = gic_log state0 @ [w] \<and> routed w = {65}"
  using gic_set_affinity_routes_other [of 33 1 False state0] by simp

end
