(* ===== verification/Vgic_Lr.thy ===== *)
theory Vgic_Lr
  imports Gic_V3
begin

text \<open>
  The virtual CPU interface of \<^verbatim>\<open>hv/arch/armv8a/vgic_gic.c\<close>: the list registers, the active
  priorities and the maintenance interrupt. \<^verbatim>\<open>union lr_val\<close> is the 64-bit register with its
  bit-fields.
\<close>

abbreviation (input) LR_INDEX_INVALID :: u8 where "LR_INDEX_INVALID \<equiv> 0xff"
abbreviation (input) LR_ST_INVALID :: u64 where "LR_ST_INVALID \<equiv> 0"
abbreviation (input) LR_ST_PENDING :: u64 where "LR_ST_PENDING \<equiv> 1"
abbreviation (input) LR_ST_ACTIVE :: u64 where "LR_ST_ACTIVE \<equiv> 2"
abbreviation (input) LR_ST_ACT_PEND :: u64 where "LR_ST_ACT_PEND \<equiv> 3"
abbreviation (input) MAINT_UIE :: int where "MAINT_UIE \<equiv> 2"

section \<open>List registers\<close>

definition vgic_get_lr_nr :: "hv_state \<Rightarrow> u8" where
  "vgic_get_lr_nr s = vi_lr_nr (vinfo s)"

definition vgic_get_pribits :: "hv_state \<Rightarrow> u8" where
  "vgic_get_pribits s = vi_pribits (vinfo s)"

definition lrs :: "hv_state \<Rightarrow> nat \<Rightarrow> u64" where
  "lrs s i = ARM64_READ_SYSREG (ICH_LR i) s"

definition read_elrsr :: "hv_state \<Rightarrow> u64" where
  "read_elrsr s = elrsr (plat s) (lrs s)"

text \<open>The loop of \<^verbatim>\<open>vgic_get_lr\<close> with \<open>k\<close> registers left to look at.\<close>

fun get_lr_loop :: "nat \<Rightarrow> nat \<Rightarrow> u64 \<Rightarrow> u8" where
  "get_lr_loop 0 i e = LR_INDEX_INVALID"
| "get_lr_loop (Suc k) i e = (if e AND 1 \<noteq> 0 then of_nat i else get_lr_loop k (i + 1) (drop_bit 1 e))"

definition vgic_get_lr :: "hv_state \<Rightarrow> u8" where
  "vgic_get_lr s = get_lr_loop (unat (vi_lr_nr (vinfo s))) 0 (read_elrsr s)"

definition lr_write :: "nat \<Rightarrow> u64 \<Rightarrow> hv_state \<Rightarrow> hv_state" where
  "lr_write n v s = (if n < 16 then ARM64_WRITE_SYSREG (ICH_LR n) v s else s)"

definition lr_read :: "nat \<Rightarrow> hv_state \<Rightarrow> u64" where
  "lr_read n s = (if n < 16 then ARM64_READ_SYSREG (ICH_LR n) s else 0)"

text \<open>\<^verbatim>\<open>union lr_val\<close>: vintid 32, pintid 13, reserved 3, priority 8, reserved 4, group 1, hw 1, state 2.\<close>

definition lr_val :: "vgic_irq \<Rightarrow> u64" where
  "lr_val virq =
     (let v = 0;
          v = set_bitfield v 0 32 (ucast (intid virq));
          v = set_bitfield v 32 13 (ucast (hwintid virq));
          v = set_bitfield v 48 8 (ucast (priority virq));
          v = set_bitfield v 60 1 (of_bool (group1 virq));
          v = set_bitfield v 62 2 LR_ST_PENDING
      in if hwintid virq \<noteq> 0 then set_bitfield v 61 1 1 else v)"

definition vgic_write_lr :: "vgic_irq \<Rightarrow> hv_state \<Rightarrow> hv_state" where
  "vgic_write_lr virq s = lr_write (unat (lr virq)) (lr_val virq) s"

definition vgic_update_lr :: "vgic_irq \<Rightarrow> hv_state \<Rightarrow> hv_state" where
  "vgic_update_lr virq s =
     (let v = lr_read (unat (lr virq)) s
      in if bitfield v 62 2 = LR_ST_ACTIVE
         then lr_write (unat (lr virq)) (set_bitfield v 62 2 LR_ST_ACT_PEND) s else s)"

record gic_lr =
  gl_virq :: u32
  gl_priority :: u8
  gl_status :: u8
  gl_pirq :: u16

definition vgic_read_lr :: "nat \<Rightarrow> hv_state \<Rightarrow> gic_lr" where
  "vgic_read_lr n s =
     (let v = lr_read n s
      in \<lparr>gl_virq = ucast (bitfield v 0 32), gl_priority = ucast (bitfield v 32 13),
          gl_status = ucast (bitfield v 62 2), gl_pirq = ucast (bitfield v 32 13)\<rparr>)"

section \<open>Maintenance interrupt\<close>

definition vgic_maintenace_on :: "int \<Rightarrow> hv_state \<Rightarrow> hv_state" where
  "vgic_maintenace_on reason s =
     (if reason = 0 \<or> reason > 254 then s
      else ARM64_WRITE_SYSREG ICH_HCR_EL2 (ARM64_READ_SYSREG ICH_HCR_EL2 s OR of_int reason) s)"

definition vgic_maintenace_off :: "int \<Rightarrow> hv_state \<Rightarrow> hv_state" where
  "vgic_maintenace_off reason s =
     (if reason = 0 \<or> reason > 254 then s
      else ARM64_WRITE_SYSREG ICH_HCR_EL2 (ARM64_READ_SYSREG ICH_HCR_EL2 s AND NOT (of_int reason)) s)"

section \<open>Active priority registers\<close>

definition vgic_read_aprn_reg :: "nat \<Rightarrow> bool \<Rightarrow> hv_state \<Rightarrow> u64" where
  "vgic_read_aprn_reg nr is_group0 s =
     (if nr < 4 then ARM64_READ_SYSREG (if is_group0 then ICH_AP0R nr else ICH_AP1R nr) s else 0)"

definition vgic_write_aprn_reg :: "nat \<Rightarrow> bool \<Rightarrow> u64 \<Rightarrow> hv_state \<Rightarrow> hv_state" where
  "vgic_write_aprn_reg nr is_group0 v s =
     (if nr < 4 then ARM64_WRITE_SYSREG (if is_group0 then ICH_AP0R nr else ICH_AP1R nr) v s else s)"

section \<open>Finding a free list register\<close>

lemma get_lr_loop_none:
  assumes "i + k \<le> 64"
  shows "(\<forall>j<k. \<not> bit e j) \<Longrightarrow> get_lr_loop k i e = LR_INDEX_INVALID"
  using assms
proof (induction k i e rule: get_lr_loop.induct)
  case (2 k i e)
  have "\<not> bit e 0" "\<forall>j<k. \<not> bit (drop_bit 1 e) j" using 2(2) by (auto simp: bit_simps)
  with 2(1,3) show ?case by (simp add: and_one_eq bit_0 mod_2_eq_odd)
qed simp

lemma get_lr_loop_some:
  assumes "j < k" "bit e j" "\<forall>j'<j. \<not> bit e j'"
  shows "get_lr_loop k i e = of_nat (i + j)"
  using assms
proof (induction k i e arbitrary: j rule: get_lr_loop.induct)
  case (2 k i e)
  show ?case
  proof (cases j)
    case 0
    with 2(3) show ?thesis by (simp add: and_one_eq bit_0 mod_2_eq_odd)
  next
    case (Suc m)
    then have "\<not> bit e 0" "bit (drop_bit 1 e) m" "\<forall>j'<m. \<not> bit (drop_bit 1 e) j'" "m < k"
      using 2 by (auto simp: bit_simps)
    with 2(1) [of m] Suc show ?thesis by (simp add: and_one_eq bit_0 mod_2_eq_odd)
  qed
qed simp

lemma vgic_get_lr_free:
  assumes ok: "elrsr_ok (plat s)" and n: "unat (vi_lr_nr (vinfo s)) \<le> 16"
  shows "(vgic_get_lr s = LR_INDEX_INVALID \<and> (\<forall>i<unat (vi_lr_nr (vinfo s)). \<not> lr_empty (lrs s i))) \<or>
    (unat (vgic_get_lr s) < unat (vi_lr_nr (vinfo s)) \<and> lr_empty (lrs s (unat (vgic_get_lr s))))"
proof (cases "\<exists>i<unat (vi_lr_nr (vinfo s)). bit (read_elrsr s) i")
  case False
  with ok n get_lr_loop_none [of 0 "unat (vi_lr_nr (vinfo s))" "read_elrsr s"] show ?thesis
    by (auto simp: vgic_get_lr_def elrsr_ok_def read_elrsr_def)
next
  case True
  define j where "j = (LEAST i. bit (read_elrsr s) i)"
  from True obtain i where i: "i < unat (vi_lr_nr (vinfo s))" "bit (read_elrsr s) i" by blast
  then have j: "bit (read_elrsr s) j" "j \<le> i" "\<forall>j'<j. \<not> bit (read_elrsr s) j'"
    unfolding j_def by (auto intro: LeastI Least_le dest: not_less_Least)
  then have "vgic_get_lr s = of_nat j"
    using get_lr_loop_some [of j _ "read_elrsr s" 0] i by (simp add: vgic_get_lr_def)
  moreover have "j < 16" using j i n by simp
  then have "unat (of_nat j :: u8) = j" by (simp add: unat_of_nat)
  ultimately show ?thesis using j i ok by (auto simp: elrsr_ok_def read_elrsr_def)
qed

section \<open>Fields of a list register\<close>

lemma lr_val_fields:
  "bitfield (lr_val q) 0 32 = ucast (intid q)" "bitfield (lr_val q) 32 13 = take_bit 13 (ucast (hwintid q))"
  "bitfield (lr_val q) 48 8 = ucast (priority q)" "bitfield (lr_val q) 62 2 = LR_ST_PENDING"
  "bitfield (lr_val q) 61 1 = of_bool (hwintid q \<noteq> 0)"
proof -
  have t: "take_bit 32 (ucast (intid q) :: u64) = ucast (intid q)"
    "take_bit 8 (ucast (priority q) :: u64) = ucast (priority q)"
    by (rule bit_word_eqI; auto simp: bit_simps dest: bit_imp_le_length)+
  show "bitfield (lr_val q) 0 32 = ucast (intid q)" "bitfield (lr_val q) 32 13 = take_bit 13 (ucast (hwintid q))"
  "bitfield (lr_val q) 48 8 = ucast (priority q)" "bitfield (lr_val q) 62 2 = LR_ST_PENDING"
  "bitfield (lr_val q) 61 1 = of_bool (hwintid q \<noteq> 0)"
    by (simp_all add: lr_val_def Let_def bitfield_set_same bitfield_set_other t)
qed

lemma lr_val_not_empty: "\<not> lr_empty (lr_val q)"
  by (simp add: lr_empty_def lr_val_fields)

lemma lr_read_write [simp]:
  "lr_read n (lr_write m v s) = (if n = m \<and> n < 16 then v else lr_read n s)"
  by (simp add: lr_read_def lr_write_def)

lemma lrs_write:
  "lrs (lr_write m v s) n = (if n = m \<and> n < 16 then v else lrs s n)"
  by (simp add: lrs_def lr_write_def)

lemma vgic_read_lr_write:
  assumes "unat (lr q) < 16" "unat (hwintid q) < 2 ^ 13"
  shows "vgic_read_lr (unat (lr q)) (vgic_write_lr q s) =
     \<lparr>gl_virq = intid q, gl_priority = ucast (hwintid q), gl_status = 1, gl_pirq = ucast (hwintid q)\<rparr>"
proof -
  have "take_bit 13 (hwintid q) = hwintid q" using assms(2) by (intro take_bit_small)
  then have "take_bit 13 (ucast (hwintid q) :: u64) = ucast (hwintid q)"
    by (simp flip: unsigned_take_bit_eq)
  then show ?thesis
    using assms(1) by (simp add: vgic_read_lr_def vgic_write_lr_def lr_val_fields ucast_through)
qed

section \<open>Properties\<close>

text \<open>
  The search for a list register returns one of the implemented registers that holds no
  interrupt, and reports none exactly when every one it looks at is occupied.
\<close>

theorem vgic_get_lr_correct:
  assumes "elrsr_ok (plat s)" "unat (vi_lr_nr (vinfo s)) \<le> 16"
  shows "if \<forall>i<unat (vi_lr_nr (vinfo s)). \<not> lr_empty (lrs s i) then vgic_get_lr s = LR_INDEX_INVALID
     else unat (vgic_get_lr s) < unat (vi_lr_nr (vinfo s)) \<and> lr_empty (lrs s (unat (vgic_get_lr s)))"
  using vgic_get_lr_free [OF assms] assms(2) by auto

theorem vgic_get_lr_correct_witness:
  "unat (vgic_get_lr (state0\<lparr>vinfo := \<lparr>vi_lr_nr = 4, vi_pribits = 5\<rparr>\<rparr>)) < 4"
proof -
  let ?s = "state0\<lparr>vinfo := \<lparr>vi_lr_nr = 4, vi_pribits = 5\<rparr>\<rparr>"
  have "plat ?s = ref_platform" "lr_empty (lrs ?s 0)"
    by (simp_all add: state0_def zero_state_def lrs_def ARM64_READ_SYSREG_def lr_empty_def)
  with vgic_get_lr_correct [of ?s] elrsr_ok_ref show ?thesis by (auto split: if_splits)
qed

text \<open>
  What \<^verbatim>\<open>vgic_write_lr\<close> stores is what \<^verbatim>\<open>vgic_read_lr\<close> reads back: the virtual interrupt, pending,
  with its physical interrupt. The priority does not come back: the field \<^verbatim>\<open>priority\<close> of the
  result is the low byte of the physical interrupt number.
\<close>

theorem vgic_lr_roundtrip:
  assumes "unat (lr q) < 16" "unat (hwintid q) < 2 ^ 13"
  shows "vgic_read_lr (unat (lr q)) (vgic_write_lr q s) =
     \<lparr>gl_virq = intid q, gl_priority = ucast (hwintid q), gl_status = 1, gl_pirq = ucast (hwintid q)\<rparr>"
  using assms by (rule vgic_read_lr_write)

theorem vgic_lr_roundtrip_witness:
  "vgic_read_lr 2 (vgic_write_lr (zero_virq\<lparr>lr := 2, intid := 34, hwintid := 33, priority := 100\<rparr>) state0) =
     \<lparr>gl_virq = 34, gl_priority = 33, gl_status = 1, gl_pirq = 33\<rparr>"
  using vgic_lr_roundtrip [of "zero_virq\<lparr>lr := 2, intid := 34, hwintid := 33, priority := 100\<rparr>" state0]
  by simp

end
