(* ===== verification/Vcpu_Context.thy ===== *)
theory Vcpu_Context
  imports Vgic_Lr
begin

text \<open>
  Switching a physical CPU from one virtual CPU to another: the register context in
  \<^verbatim>\<open>hv_arch_vcpu_asm.S\<close> and \<^verbatim>\<open>hv_arch_vcpu.c\<close>, the interrupt context in \<^verbatim>\<open>hv_vgic.c\<close>, the timer
  context in \<^verbatim>\<open>hv_vtimer.c\<close>, and \<^verbatim>\<open>vcpu_switch_to\<close> of \<^verbatim>\<open>hv_vcpu.c\<close>. Registers are a store; that a write of
  \<^verbatim>\<open>cntv_tval_el0\<close> moves the compare value in hardware is not modelled.
\<close>

section \<open>Register context\<close>

text \<open>
  The assembly code stores and loads pairs with a post-incremented pointer; the lists give the
  register that each successive word of \<^verbatim>\<open>struct arch_vcpu\<close> is saved from and loaded to.
\<close>

definition save_order :: "el1_reg list" where
  "save_order = [SCTLR_EL1, ACTLR_EL1, CPACR_EL1, CONTEXTIDR_EL1, CSSELR_EL1, ESR_EL1, HCR_EL2,
     TTBR0_EL1, TTBR1_EL1, VBAR_EL1, TCR_EL1, MAIR_EL1, AMAIR_EL1, TPIDR_EL0, TPIDR_EL1,
     TPIDRRO_EL0, VMPIDR_EL2, FAR_EL1, PAR_EL1, AFSR0_EL1, AFSR1_EL1, FPSR, FPCR,
     SP_EL1, SP_EL0, ELR_EL1, SPSR_EL1]"

definition restore_order :: "el1_reg list" where
  "restore_order = [SCTLR_EL1, ACTLR_EL1, CPACR_EL1, CONTEXTIDR_EL1, CSSELR_EL1, ESR_EL1, HCR_EL2,
     TTBR0_EL1, TTBR1_EL1, VBAR_EL1, TCR_EL1, MAIR_EL1, AMAIR_EL1, TPIDR_EL0, TPIDR_EL1,
     TPIDRRO_EL0, VMPIDR_EL2, FAR_EL1, PAR_EL1, AFSR0_EL1, AFSR1_EL1, FPSR, FPCR,
     SP_EL0, SP_EL1, ELR_EL1, SPSR_EL1]"

definition hv_arch_vcpu_context_save :: "ptr \<Rightarrow> hv_state \<Rightarrow> hv_state" where
  "hv_arch_vcpu_context_save v s =
     upd_vcpu v (\<lambda>c. c\<lparr>arch := (arch c)\<lparr>ctx := map (\<lambda>r. ARM64_READ_SYSREG (EL1 r) s) save_order\<rparr>\<rparr>) s"

definition hv_arch_vcpu_context_restore :: "ptr \<Rightarrow> hv_state \<Rightarrow> hv_state" where
  "hv_arch_vcpu_context_restore v s =
     fold (\<lambda>(r, x). ARM64_WRITE_SYSREG (EL1 r) x) (zip restore_order (ctx (arch (vcpus s v)))) s"

section \<open>Affinity\<close>

text \<open>\<open>MPIDR_MAX_AFF0_BITS\<close> is 4, an affinity level is 8 bits.\<close>

definition mpidr_to_cpu_id :: "u64 \<Rightarrow> u32" where
  "mpidr_to_cpu_id mpidr =
     (let cpu_id = ucast (mpidr AND mask 8) :: u32;
          cpu_id = cpu_id AND mask 4
      in ucast (ucast cpu_id OR push_bit 4 (drop_bit 8 mpidr AND mask 8)))"

definition cpu_id_to_mpidr :: "u32 \<Rightarrow> u64" where
  "cpu_id_to_mpidr cpu_id =
     ucast (cpu_id AND mask 4) OR ucast (push_bit 8 (drop_bit 4 cpu_id AND mask 8))"

text \<open>\<open>HCR_GUEST_DEFAULT\<close>: TSC, VM, BSU\_IS, FB, AMO, SWIO, RW, FMO, IMO, PTW.\<close>

definition HCR_GUEST_DEFAULT :: u64 where
  "HCR_GUEST_DEFAULT = push_bit 19 1 OR push_bit 0 1 OR push_bit 10 1 OR push_bit 9 1 OR
     push_bit 5 1 OR push_bit 1 1 OR push_bit 31 1 OR push_bit 3 1 OR push_bit 4 1 OR push_bit 2 1"

text \<open>Words 6 and 16 of the context are \<^verbatim>\<open>hcr_el2\<close> and \<^verbatim>\<open>vmpidr_el1\<close>.\<close>

definition hv_vcpu_arch_init :: "ptr \<Rightarrow> hv_state \<Rightarrow> hv_state" where
  "hv_vcpu_arch_init v s =
     (let s = upd_vcpu v (\<lambda>c. c\<lparr>arch := (arch c)\<lparr>ctx := (ctx (arch c))
                [6 := HCR_GUEST_DEFAULT, 16 := cpu_id_to_mpidr (vcpu_id c)]\<rparr>\<rparr>) s;
          s = ARM64_WRITE_SYSREG HSTR_EL2 0 s;
          s = ARM64_WRITE_SYSREG CPTR_EL2 0 s;
          s = ARM64_WRITE_SYSREG CNTHCTL_EL2 0 s
      in ARM64_WRITE_SYSREG (EL1 CPACR_EL1) 0 s)"

section \<open>Interrupt context\<close>

definition copy_upto :: "nat \<Rightarrow> (nat \<Rightarrow> 'a) \<Rightarrow> (nat \<Rightarrow> 'a) \<Rightarrow> nat \<Rightarrow> 'a" where
  "copy_upto n src dst = (\<lambda>i. if i < n then src i else dst i)"

definition hv_vcpu_irq_save :: "ptr \<Rightarrow> hv_state \<Rightarrow> hv_state" where
  "hv_vcpu_irq_save v s =
     upd_redist v (\<lambda>r. r\<lparr>
       apr0 := copy_upto (unat (ap_nr r)) (\<lambda>i. vgic_read_aprn_reg i False s) (apr0 r),
       apr1 := copy_upto (unat (ap_nr r)) (\<lambda>i. vgic_read_aprn_reg i True s) (apr1 r),
       ich_vmcr := ARM64_READ_SYSREG ICH_VMCR_EL2 s,
       ich_hcr := ARM64_READ_SYSREG ICH_HCR_EL2 s,
       rd_lr := copy_upto (unat (rd_lr_nr r)) (\<lambda>i. lr_read i s) (rd_lr r)\<rparr>) s"

definition hv_vcpu_cpu_id :: "hv_state \<Rightarrow> ptr \<Rightarrow> int" where
  "hv_vcpu_cpu_id s v =
     (let thd = threads s (vcpu_thread (vcpus s v))
      in if pinned_cpu thd \<noteq> -1 then pinned_cpu thd
         else if t_curr_cpu thd \<noteq> -1 then t_curr_cpu thd
         else -1)"

definition move_irq :: "ptr \<Rightarrow> ptr \<Rightarrow> nat \<Rightarrow> hv_state \<Rightarrow> hv_state" where
  "move_irq vm v i s =
     (let virq = virqs s (Spi vm i)
      in if vq_vcpu virq \<noteq> v \<or> hwintid virq = 0 then s
         else if migrate virq then s
         else gic_set_affinity (unat (hwintid virq)) (unat (processor (vcpus s v))) False s)"

definition vcpu_move_irqs :: "ptr \<Rightarrow> hv_state \<Rightarrow> hv_state" where
  "vcpu_move_irqs v s =
     (let vm = vcpu_vm (vcpus s v)
      in fold (move_irq vm v) [0..<unat (spi_num (hv_get_dist s vm))] s)"

definition aprn_restore :: "vgic_redist \<Rightarrow> nat \<Rightarrow> hv_state \<Rightarrow> hv_state" where
  "aprn_restore r i s = vgic_write_aprn_reg i True (apr1 r i) (vgic_write_aprn_reg i False (apr0 r i) s)"

definition hv_vcpu_irq_restore :: "ptr \<Rightarrow> hv_state \<Rightarrow> hv_state" where
  "hv_vcpu_irq_restore v s =
     (let r = redist s v;
          s = ARM64_WRITE_SYSREG ICH_VMCR_EL2 (ich_vmcr r) s;
          s = ARM64_WRITE_SYSREG ICH_HCR_EL2 (ich_hcr r) s;
          s = fold (aprn_restore r) [0..<unat (ap_nr r)] s;
          s = fold (\<lambda>i. lr_write i (rd_lr r i)) [0..<unat (rd_lr_nr r)] s;
          cpu_id = hv_vcpu_cpu_id s v
      in if cpu_id < 0 then s
         else if cpu_id \<noteq> sint (processor (vcpus s v))
         then vcpu_move_irqs v (upd_vcpu v (\<lambda>c. c\<lparr>processor := of_int cpu_id\<rparr>) s)
         else s)"

section \<open>Timer context\<close>

definition hv_vtimer_context_save :: "ptr \<Rightarrow> hv_state \<Rightarrow> hv_state" where
  "hv_vtimer_context_save v s =
     (let s = upd_vtimer v (\<lambda>t. t\<lparr>cntvctl_el1 := ARM64_READ_SYSREG CNTV_CTL_EL0 s\<rparr>) s;
          s = ARM64_WRITE_SYSREG CNTV_CTL_EL0 (cntvctl_el1 (vtimer s v) AND NOT 1) s
      in upd_vtimer v (\<lambda>t. t\<lparr>cntpct := ARM64_READ_SYSREG CNTPCT_EL0 s,
           cntvcval_el1 := ARM64_READ_SYSREG CNTV_CVAL_EL0 s,
           cntvtval_el1 := ARM64_READ_SYSREG CNTV_TVAL_EL0 s\<rparr>) s)"

definition hv_vtimer_context_restore :: "ptr \<Rightarrow> hv_state \<Rightarrow> hv_state" where
  "hv_vtimer_context_restore v s =
     (let t = vtimer s v;
          s = ARM64_WRITE_SYSREG CNTV_CTL_EL0 (cntvctl_el1 t) s;
          s = ARM64_WRITE_SYSREG CNTV_CVAL_EL0 (cntvcval_el1 t) s;
          s = ARM64_WRITE_SYSREG CNTV_TVAL_EL0 (cntvtval_el1 t) s
      in ARM64_WRITE_SYSREG CNTVOFF_EL2 (cntvoff_el2 t) s)"

definition hv_vcpu_vtimer_init :: "ptr \<Rightarrow> hv_state \<Rightarrow> hv_state" where
  "hv_vcpu_vtimer_init v s =
     upd_vtimer v (\<lambda>_. zero_vtimer\<lparr>cntvoff_el2 := ARM64_READ_SYSREG CNTPCT_EL0 s\<rparr>) s"

definition hv_vtimer_init :: "hv_state \<Rightarrow> hv_state option" where
  "hv_vtimer_init s =
     (let cnthctl = set_bitfield (set_bitfield 0 2 1 1) 0 1 1;
          s = ARM64_WRITE_SYSREG CNTHCTL_EL2 cnthctl s;
          s = ARM64_WRITE_SYSREG CNTV_CTL_EL0 (ARM64_READ_SYSREG CNTV_CTL_EL0 s AND NOT 1) s
      in register_int_handler 27 Vtimer_irq_handler INT_IRQ s)"

section \<open>The switch\<close>

definition context_out :: "ptr \<Rightarrow> hv_state \<Rightarrow> hv_state" where
  "context_out v s = hv_vtimer_context_save v (hv_vcpu_irq_save v (hv_arch_vcpu_context_save v s))"

definition context_in :: "ptr \<Rightarrow> hv_state \<Rightarrow> hv_state" where
  "context_in v s =
     hv_vtimer_context_restore v (hv_vcpu_irq_restore v (hv_arch_vcpu_context_restore v
       (ARM64_WRITE_SYSREG VTTBR_EL2 (vttbr (arch_mem (mem (vms s (vcpu_vm (vcpus s v)))))) s)))"

definition hv_vcpu_arch_contex_switch :: "ptr \<Rightarrow> ptr \<Rightarrow> hv_state \<Rightarrow> hv_state" where
  "hv_vcpu_arch_contex_switch new_vcpu old_vcpu s =
     context_in new_vcpu (if old_vcpu \<noteq> 0 then context_out old_vcpu s else s)"

definition vcpu_switch_to :: "ptr \<Rightarrow> hv_state \<Rightarrow> hv_state" where
  "vcpu_switch_to v s =
     (let old_vcpu = current_vcpu s
      in if old_vcpu = v \<or> v = 0 \<or> \<not> is_inited (vcpus s v) then s
         else let s = hv_vcpu_arch_contex_switch v old_vcpu s
              in s\<lparr>vcpu_data := (vcpu_data s)(curr_cpu s := v)\<rparr>)"

section \<open>Frames\<close>

lemma write_sysreg_frame [simp]:
  "vcpus (ARM64_WRITE_SYSREG r x s) = vcpus s" "virqs (ARM64_WRITE_SYSREG r x s) = virqs s"
  "vms (ARM64_WRITE_SYSREG r x s) = vms s" "threads (ARM64_WRITE_SYSREG r x s) = threads s"
  "curr_cpu (ARM64_WRITE_SYSREG r x s) = curr_cpu s" "plat (ARM64_WRITE_SYSREG r x s) = plat s"
  "vinfo (ARM64_WRITE_SYSREG r x s) = vinfo s" "gic_log (ARM64_WRITE_SYSREG r x s) = gic_log s"
  by (simp_all add: ARM64_WRITE_SYSREG_def)

lemma upd_vcpu_sysreg [simp]: "ARM64_READ_SYSREG r (upd_vcpu v f s) = ARM64_READ_SYSREG r s"
  by (simp add: upd_vcpu_def ARM64_READ_SYSREG_def)

lemma upd_vcpu_frame [simp]:
  "vms (upd_vcpu v f s) = vms s" "threads (upd_vcpu v f s) = threads s" "virqs (upd_vcpu v f s) = virqs s"
  "curr_cpu (upd_vcpu v f s) = curr_cpu s" "vcpus (upd_vcpu v f s) w = (if w = v then f (vcpus s v) else vcpus s w)"
  by (simp_all add: upd_vcpu_def)

lemma gic_set_affinity_frame [simp]:
  "ARM64_READ_SYSREG r (gic_set_affinity n c b s) = ARM64_READ_SYSREG r s" "vcpus (gic_set_affinity n c b s) = vcpus s"
  "virqs (gic_set_affinity n c b s) = virqs s" "vms (gic_set_affinity n c b s) = vms s"
  "threads (gic_set_affinity n c b s) = threads s" "curr_cpu (gic_set_affinity n c b s) = curr_cpu s"
  by (simp_all add: gic_set_affinity_def gic_put_def Let_def ARM64_READ_SYSREG_def)

lemma move_irqs_frame [simp]:
  "ARM64_READ_SYSREG r (fold (move_irq vm v) is s) = ARM64_READ_SYSREG r s"
  "vcpus (fold (move_irq vm v) is s) = vcpus s"
  by (induction "is" arbitrary: s) (simp_all add: move_irq_def Let_def)

lemma vcpu_move_irqs_frame [simp]:
  "ARM64_READ_SYSREG r (vcpu_move_irqs v s) = ARM64_READ_SYSREG r s" "vcpus (vcpu_move_irqs v s) = vcpus s"
  by (simp_all add: vcpu_move_irqs_def Let_def)

text \<open>A loop that writes one register per round leaves the last value written.\<close>

lemma fold_lr_write:
  "ARM64_READ_SYSREG r (fold (\<lambda>i. lr_write i (f i)) [0..<n] s) =
     (case r of ICH_LR j \<Rightarrow> if j < n \<and> j < 16 then f j else ARM64_READ_SYSREG r s | _ \<Rightarrow> ARM64_READ_SYSREG r s)"
  by (induction n) (auto simp: lr_write_def less_Suc_eq split: sysreg.split)

lemma fold_aprn_restore:
  "ARM64_READ_SYSREG r (fold (aprn_restore d) [0..<n] s) =
     (case r of ICH_AP1R j \<Rightarrow> if j < n \<and> j < 4 then apr0 d j else ARM64_READ_SYSREG r s
              | ICH_AP0R j \<Rightarrow> if j < n \<and> j < 4 then apr1 d j else ARM64_READ_SYSREG r s
              | _ \<Rightarrow> ARM64_READ_SYSREG r s)"
  by (induction n) (auto simp: aprn_restore_def vgic_write_aprn_reg_def less_Suc_eq split: sysreg.split)

lemma fold_lr_write_frame [simp]: 
  "vcpus (fold (\<lambda>i. lr_write i (f i)) is s) = vcpus s" "threads (fold (\<lambda>i. lr_write i (f i)) is s) = threads s"
  by (induction "is" arbitrary: s) (auto simp: lr_write_def)

lemma fold_aprn_frame [simp]: 
  "vcpus (fold (aprn_restore d) is s) = vcpus s" "threads (fold (aprn_restore d) is s) = threads s"
  by (induction "is" arbitrary: s) (auto simp: aprn_restore_def vgic_write_aprn_reg_def)

lemma fold_el1_write_frame [simp]: "vcpus (fold (\<lambda>(r, x). ARM64_WRITE_SYSREG (EL1 r) x) rs s) = vcpus s"
  by (induction rs arbitrary: s) auto

lemma fold_el1_write:
  "distinct (map fst rs) \<Longrightarrow> ARM64_READ_SYSREG q (fold (\<lambda>(r, x). ARM64_WRITE_SYSREG (EL1 r) x) rs s) =
     (case q of EL1 r \<Rightarrow> (case map_of rs r of Some x \<Rightarrow> x | None \<Rightarrow> ARM64_READ_SYSREG q s) | _ \<Rightarrow> ARM64_READ_SYSREG q s)"
proof (induction rs arbitrary: s)
  case (Cons a rs)
  obtain r x where a: "a = (r, x)" by (cases a)
  have "map_of rs r = None" using Cons.prems a by (auto simp: map_of_eq_None_iff)
  with Cons a show ?case by (cases q) (auto split: option.split)
qed (auto split: sysreg.split)

section \<open>The contract of a switched unit\<close>

text \<open>
  A part of the machine that is switched with the virtual CPU: saving stores an image in the
  virtual CPU, loading writes the registers from the image. The contract: whatever ran in between,
  loading an image puts back the registers it covers as they were when it was saved, and touches
  no register of another unit.
\<close>

locale switched_unit =
  fixes save load :: "ptr \<Rightarrow> hv_state \<Rightarrow> hv_state"
    and img :: "lk_vcpu \<Rightarrow> 'i" and covers :: "'i \<Rightarrow> sysreg \<Rightarrow> bool" and touches :: "sysreg \<Rightarrow> bool"
  assumes save_load: "img (vcpus s' v) = img (vcpus (save v s) v) \<Longrightarrow> covers (img (vcpus s' v)) r \<Longrightarrow>
      ARM64_READ_SYSREG r (load v s') = ARM64_READ_SYSREG r s"
    and load_frame: "\<not> touches r \<Longrightarrow> ARM64_READ_SYSREG r (load v s) = ARM64_READ_SYSREG r s"
    and load_img: "img (vcpus (load v s) w) = img (vcpus s w)"
    and save_other: "w \<noteq> v \<Longrightarrow> vcpus (save v s) w = vcpus s w"
begin

text \<open>The image survives the switch to another virtual CPU and its time on the machine.\<close>

lemma away_and_back:
  assumes "w \<noteq> v" "img (vcpus s2 v) = img (vcpus (load w (save v s)) v)"
    and "covers (img (vcpus s2 v)) r"
  shows "ARM64_READ_SYSREG r (load v (save w s2)) = ARM64_READ_SYSREG r s"
proof (rule save_load)
  have "vcpus (save w s2) v = vcpus s2 v" using assms(1) by (intro save_other) auto
  then show "img (vcpus (save w s2) v) = img (vcpus (save v s) v)"
    and "covers (img (vcpus (save w s2) v)) r"
    using assms(2,3) by (simp_all add: load_img)
qed

end

text \<open>The three units. The register unit covers every register but the two stack pointers.\<close>

definition el1_covers :: "u64 list \<Rightarrow> sysreg \<Rightarrow> bool" where
  "el1_covers c r \<longleftrightarrow> (\<exists>q. r = EL1 q \<and> q \<noteq> SP_EL0 \<and> q \<noteq> SP_EL1)"

definition el1_touches :: "sysreg \<Rightarrow> bool" where
  "el1_touches r \<longleftrightarrow> (\<exists>q. r = EL1 q)"

definition irq_image :: "lk_vcpu \<Rightarrow> u64 \<times> u64 \<times> (nat \<Rightarrow> u64) \<times> (nat \<Rightarrow> u64) \<times> (nat \<Rightarrow> u64) \<times> u8 \<times> u8" where
  "irq_image c = (let d = av_vgic (arch c)
     in (ich_vmcr d, ich_hcr d, rd_lr d, apr0 d, apr1 d, ap_nr d, rd_lr_nr d))"

fun irq_covers :: "u64 \<times> u64 \<times> (nat \<Rightarrow> u64) \<times> (nat \<Rightarrow> u64) \<times> (nat \<Rightarrow> u64) \<times> u8 \<times> u8 \<Rightarrow> sysreg \<Rightarrow> bool" where
  "irq_covers (_, _, _, _, _, an, ln) r = (case r of
       ICH_VMCR_EL2 \<Rightarrow> True | ICH_HCR_EL2 \<Rightarrow> True | ICH_LR i \<Rightarrow> i < unat ln \<and> i < 16
     | ICH_AP0R i \<Rightarrow> i < unat an \<and> i < 4 | ICH_AP1R i \<Rightarrow> i < unat an \<and> i < 4 | _ \<Rightarrow> False)"

definition irq_touches :: "sysreg \<Rightarrow> bool" where
  "irq_touches r \<longleftrightarrow> (case r of ICH_VMCR_EL2 \<Rightarrow> True | ICH_HCR_EL2 \<Rightarrow> True | ICH_LR i \<Rightarrow> True
     | ICH_AP0R i \<Rightarrow> True | ICH_AP1R i \<Rightarrow> True | _ \<Rightarrow> False)"

definition timer_image :: "lk_vcpu \<Rightarrow> u64 \<times> u64 \<times> u64" where
  "timer_image c = (let t = av_vtimer (arch c) in (cntvctl_el1 t, cntvcval_el1 t, cntvtval_el1 t))"

definition timer_covers :: "u64 \<times> u64 \<times> u64 \<Rightarrow> sysreg \<Rightarrow> bool" where
  "timer_covers _ r \<longleftrightarrow> r \<in> {CNTV_CTL_EL0, CNTV_CVAL_EL0, CNTV_TVAL_EL0}"

definition timer_touches :: "sysreg \<Rightarrow> bool" where
  "timer_touches r \<longleftrightarrow> r \<in> {CNTV_CTL_EL0, CNTV_CVAL_EL0, CNTV_TVAL_EL0, CNTVOFF_EL2}"

lemma restore_distinct: "distinct restore_order"
  by (simp add: restore_order_def)

lemma el1_load:
  "ARM64_READ_SYSREG r (hv_arch_vcpu_context_restore v s) =
     (case r of EL1 q \<Rightarrow> (case map_of (zip restore_order (ctx (arch (vcpus s v)))) q of
        Some x \<Rightarrow> x | None \<Rightarrow> ARM64_READ_SYSREG r s) | _ \<Rightarrow> ARM64_READ_SYSREG r s)"
proof -
  have "distinct (map fst (zip restore_order (ctx (arch (vcpus s v)))))"
    by (simp add: map_fst_zip_take restore_distinct distinct_take)
  then show ?thesis by (simp only: hv_arch_vcpu_context_restore_def fold_el1_write)
qed

lemma el1_save_load:
  assumes "ctx (arch (vcpus s' v)) = ctx (arch (vcpus (hv_arch_vcpu_context_save v s) v))"
  shows "ARM64_READ_SYSREG (EL1 q) (hv_arch_vcpu_context_restore v s') =
     ARM64_READ_SYSREG (EL1 (if q = SP_EL0 then SP_EL1 else if q = SP_EL1 then SP_EL0 else q)) s"
  by (cases q) (simp_all add: el1_load assms hv_arch_vcpu_context_save_def save_order_def restore_order_def)

interpretation el1: switched_unit hv_arch_vcpu_context_save hv_arch_vcpu_context_restore
  "\<lambda>c. ctx (arch c)" el1_covers el1_touches
proof (unfold_locales, goal_cases)
  case (1 s' v s r)
  then show ?case by (auto simp: el1_covers_def el1_save_load)
next
  case (2 r v s)
  then show ?case by (cases r) (simp_all add: el1_load el1_touches_def)
qed (simp_all add: hv_arch_vcpu_context_restore_def hv_arch_vcpu_context_save_def)

lemma irq_load:
  "ARM64_READ_SYSREG r (hv_vcpu_irq_restore v s) = (let d = redist s v in case r of
       ICH_VMCR_EL2 \<Rightarrow> ich_vmcr d | ICH_HCR_EL2 \<Rightarrow> ich_hcr d
     | ICH_LR j \<Rightarrow> if j < unat (rd_lr_nr d) \<and> j < 16 then rd_lr d j else ARM64_READ_SYSREG r s
     | ICH_AP1R j \<Rightarrow> if j < unat (ap_nr d) \<and> j < 4 then apr0 d j else ARM64_READ_SYSREG r s
     | ICH_AP0R j \<Rightarrow> if j < unat (ap_nr d) \<and> j < 4 then apr1 d j else ARM64_READ_SYSREG r s
     | _ \<Rightarrow> ARM64_READ_SYSREG r s)"
  by (cases r) (simp_all add: hv_vcpu_irq_restore_def Let_def fold_lr_write fold_aprn_restore)

interpretation irq: switched_unit hv_vcpu_irq_save hv_vcpu_irq_restore irq_image irq_covers irq_touches
proof (unfold_locales, goal_cases)
  case (1 s' v s r)
  then show ?case
    by (cases r) (auto simp: irq_load irq_image_def Let_def redist_def hv_vcpu_irq_save_def upd_redist_def
        copy_upto_def lr_read_def vgic_read_aprn_reg_def)
next
  case (2 r v s)
  then show ?case by (cases r) (simp_all add: irq_load irq_touches_def Let_def)
next
  case (3 v s w)
  then show ?case by (simp add: hv_vcpu_irq_restore_def Let_def irq_image_def)
qed (simp_all add: hv_vcpu_irq_save_def upd_redist_def)

interpretation timer: switched_unit hv_vtimer_context_save hv_vtimer_context_restore timer_image
  timer_covers timer_touches
proof (unfold_locales, goal_cases)
  case (1 s' v s r)
  then show ?case
    by (auto simp: timer_covers_def timer_image_def Let_def hv_vtimer_context_save_def
        hv_vtimer_context_restore_def upd_vtimer_def vtimer_def)
qed (simp_all add: hv_vtimer_context_restore_def hv_vtimer_context_save_def upd_vtimer_def timer_touches_def Let_def)

section \<open>The whole context\<close>

lemma context_out_other: "w \<noteq> v \<Longrightarrow> vcpus (context_out v s) w = vcpus s w"
  by (simp add: context_out_def el1.save_other irq.save_other timer.save_other)

lemma context_out_image:
  "ctx (arch (vcpus (context_out v s) v)) = ctx (arch (vcpus (hv_arch_vcpu_context_save v s) v))"
  "irq_image (vcpus (context_out v s) v) = irq_image (vcpus (hv_vcpu_irq_save v s) v)"
  "timer_image (vcpus (context_out v s) v) = timer_image (vcpus (hv_vtimer_context_save v s) v)"
  by (simp_all add: context_out_def hv_vtimer_context_save_def hv_vcpu_irq_save_def Let_def
      hv_arch_vcpu_context_save_def upd_vtimer_def upd_redist_def vtimer_def irq_image_def timer_image_def
      lr_read_def vgic_read_aprn_reg_def cong: if_cong)

lemma irq_restore_other: "w \<noteq> v \<Longrightarrow> vcpus (hv_vcpu_irq_restore v s) w = vcpus s w"
  by (simp add: hv_vcpu_irq_restore_def Let_def)

lemma load_vcpus [simp]:
  "vcpus (hv_arch_vcpu_context_restore v s) = vcpus s" "vcpus (hv_vtimer_context_restore v s) = vcpus s"
  by (simp_all add: hv_arch_vcpu_context_restore_def hv_vtimer_context_restore_def Let_def)

lemma context_in_other: "w \<noteq> v \<Longrightarrow> vcpus (context_in v s) w = vcpus s w"
  by (simp add: context_in_def irq_restore_other)

lemma context_in_read:
  "ARM64_READ_SYSREG (EL1 q) (context_in v s) = ARM64_READ_SYSREG (EL1 q) (hv_arch_vcpu_context_restore v s)"
  "irq_touches r \<Longrightarrow> ARM64_READ_SYSREG r (context_in v s) = ARM64_READ_SYSREG r (hv_vcpu_irq_restore v s)"
  "timer_covers i r \<Longrightarrow> ARM64_READ_SYSREG r (context_in v s) = ARM64_READ_SYSREG r (hv_vtimer_context_restore v s)"
  "ARM64_READ_SYSREG VTTBR_EL2 (context_in v s) = vttbr (arch_mem (mem (vms s (vcpu_vm (vcpus s v)))))"
proof -
  have t: "\<not> timer_touches (EL1 q)" "\<not> irq_touches (EL1 q)" "\<not> timer_touches VTTBR_EL2" "\<not> irq_touches VTTBR_EL2"
    by (simp_all add: timer_touches_def irq_touches_def)
  show "ARM64_READ_SYSREG (EL1 q) (context_in v s) = ARM64_READ_SYSREG (EL1 q) (hv_arch_vcpu_context_restore v s)"
    by (simp add: context_in_def timer.load_frame t irq.load_frame el1_load split: option.split)
  show "ARM64_READ_SYSREG VTTBR_EL2 (context_in v s) = vttbr (arch_mem (mem (vms s (vcpu_vm (vcpus s v)))))"
    by (simp add: context_in_def timer.load_frame t irq.load_frame el1_load)
  show "irq_touches r \<Longrightarrow> ARM64_READ_SYSREG r (context_in v s) = ARM64_READ_SYSREG r (hv_vcpu_irq_restore v s)"
  proof -
    assume i: "irq_touches r"
    then have "\<not> timer_touches r" by (cases r) (simp_all add: irq_touches_def timer_touches_def)
    with i show ?thesis
      by (cases r) (simp_all add: context_in_def timer.load_frame irq_load redist_def irq_touches_def el1_load Let_def)
  qed
  show "timer_covers i r \<Longrightarrow> ARM64_READ_SYSREG r (context_in v s) = ARM64_READ_SYSREG r (hv_vtimer_context_restore v s)"
    by (auto simp: timer_covers_def context_in_def hv_vtimer_context_restore_def Let_def vtimer_def
        hv_vcpu_irq_restore_def)
qed

lemma switch_image:
  assumes "v \<noteq> w" "v \<noteq> 0" "w \<noteq> 0" "vcpus s2 v = vcpus (hv_vcpu_arch_contex_switch w v s) v"
  shows "vcpus (context_out w s2) v = vcpus (context_out v s) v"
  using assms by (simp add: hv_vcpu_arch_contex_switch_def context_out_other context_in_other)

lemma switch_el1:
  assumes "v \<noteq> w" "v \<noteq> 0" "w \<noteq> 0" "vcpus s2 v = vcpus (hv_vcpu_arch_contex_switch w v s) v"
  shows "ARM64_READ_SYSREG (EL1 q) (hv_vcpu_arch_contex_switch v w s2) =
     ARM64_READ_SYSREG (EL1 (if q = SP_EL0 then SP_EL1 else if q = SP_EL1 then SP_EL0 else q)) s"
proof -
  have "ARM64_READ_SYSREG (EL1 q) (hv_vcpu_arch_contex_switch v w s2) =
      ARM64_READ_SYSREG (EL1 q) (hv_arch_vcpu_context_restore v (context_out w s2))"
    using assms(3) by (simp add: hv_vcpu_arch_contex_switch_def context_in_read)
  then show ?thesis using switch_image [OF assms] by (subst (asm) el1_save_load) (simp_all add: context_out_image)
qed

section \<open>Properties\<close>


text \<open>
  The stack pointers do not survive: the save code stores SP\_EL1 in the word of SP\_EL0 and the
  other way round, the restore code loads them in the order of the structure, so after a switch
  out and back the guest runs with its two stack pointers exchanged.
\<close>

theorem context_switch_swaps_sp:
  assumes "v \<noteq> w" "v \<noteq> 0" "w \<noteq> 0" "vcpus s2 v = vcpus (hv_vcpu_arch_contex_switch w v s) v"
  shows "ARM64_READ_SYSREG (EL1 SP_EL0) (hv_vcpu_arch_contex_switch v w s2) = ARM64_READ_SYSREG (EL1 SP_EL1) s \<and>
     ARM64_READ_SYSREG (EL1 SP_EL1) (hv_vcpu_arch_contex_switch v w s2) = ARM64_READ_SYSREG (EL1 SP_EL0) s"
  using switch_el1 [OF assms] by simp

definition sp_state :: hv_state where
  "sp_state = ARM64_WRITE_SYSREG (EL1 SP_EL0) 0x1000 (ARM64_WRITE_SYSREG (EL1 TCR_EL1) 0x35 state0)"


theorem context_switch_swaps_sp_witness:
  "ARM64_READ_SYSREG (EL1 SP_EL1)
     (hv_vcpu_arch_contex_switch 1 2 (hv_vcpu_arch_contex_switch 2 1 sp_state)) = 0x1000"
  using context_switch_swaps_sp [of 1 2 "hv_vcpu_arch_contex_switch 2 1 sp_state" sp_state]
  by (simp add: sp_state_def)

text \<open>
  After \<^verbatim>\<open>vcpu_switch_to\<close> the CPU runs the virtual CPU asked for with the stage-2 tables of its
  machine, unless it was NULL or not initialised, in which case nothing changes.
\<close>

theorem vcpu_switch_to_isolates:
  "if v \<noteq> 0 \<and> is_inited (vcpus s v) \<and> current_vcpu s \<noteq> v
   then current_vcpu (vcpu_switch_to v s) = v \<and>
     ARM64_READ_SYSREG VTTBR_EL2 (vcpu_switch_to v s) = vttbr (arch_mem (mem (vms s (vcpu_vm (vcpus s v)))))
   else vcpu_switch_to v s = s"
proof -
  have "ARM64_READ_SYSREG r (s\<lparr>vcpu_data := f\<rparr>) = ARM64_READ_SYSREG r s" for r f and s :: hv_state
    by (simp add: ARM64_READ_SYSREG_def)
  moreover have "vms (context_out w s) = vms s" for w
    by (simp add: context_out_def hv_vtimer_context_save_def hv_vcpu_irq_save_def hv_arch_vcpu_context_save_def
        Let_def upd_vtimer_def upd_redist_def)
  ultimately show ?thesis
    by (auto simp: vcpu_switch_to_def current_vcpu_def Let_def hv_vcpu_arch_contex_switch_def context_in_read
        context_out_other)
qed

text \<open>
  The affinity a virtual CPU is given in its MPIDR identifies it: \<^verbatim>\<open>mpidr_to_cpu_id\<close> inverts
  \<^verbatim>\<open>cpu_id_to_mpidr\<close> on every identifier of up to 12 bits.
\<close>

theorem mpidr_roundtrip:
  assumes "unat cpu_id < 2 ^ 12"
  shows "mpidr_to_cpu_id (cpu_id_to_mpidr cpu_id) = cpu_id"
proof (rule bit_word_eqI)
  fix n assume "n < LENGTH(32)"
  have "take_bit 12 cpu_id = cpu_id" using assms by (rule take_bit_small)
  then have "bit cpu_id n \<Longrightarrow> n < 12" by (metis bit_take_bit_iff)
  then show "bit (mpidr_to_cpu_id (cpu_id_to_mpidr cpu_id)) n \<longleftrightarrow> bit cpu_id n"
    by (cases "n < 4") (auto simp: mpidr_to_cpu_id_def cpu_id_to_mpidr_def Let_def bit_simps)
qed

theorem mpidr_roundtrip_witness: "mpidr_to_cpu_id (cpu_id_to_mpidr 0x123) = 0x123"
  using mpidr_roundtrip [of "0x123"] by simp

end
