(* ===== verification/Sched.thy ===== *)
theory Sched
  imports Vcpu_Context
begin

text \<open>
  The part of the scheduler of \<^verbatim>\<open>kernel/thread.c\<close> and \<^verbatim>\<open>kernel/mp.c\<close> that the hypervisor runs on: the
  run queues with their bitmap, choosing and switching to a thread, and the operations that make a
  thread runnable or take it off the CPU. A thread is queued or its \<^verbatim>\<open>queue_node\<close> is zero, as
  \<^verbatim>\<open>list_delete\<close> leaves it; unlinking a zero node dereferences NULL and is \<open>None\<close>. Thread creation, joining, sleeping,
  wait queues, the statistics and the preemption timer are not modelled.
\<close>

section \<open>Flags\<close>

definition thread_is_idle :: "thread \<Rightarrow> bool" where
  "thread_is_idle t \<longleftrightarrow> bit (t_flags t) 4"

definition thread_is_realtime :: "thread \<Rightarrow> bool" where
  "thread_is_realtime t \<longleftrightarrow> bit (t_flags t) 3 \<and> t_priority t > 16"

definition thread_is_real_time_or_idle :: "thread \<Rightarrow> bool" where
  "thread_is_real_time_or_idle t \<longleftrightarrow> t_flags t AND (8 OR 16) \<noteq> 0"

section \<open>Run queues\<close>

definition insert_in_run_queue_head :: "ptr \<Rightarrow> hv_state \<Rightarrow> hv_state" where
  "insert_in_run_queue_head t s =
     (let p = t_priority (threads s t)
      in upd_thread t (\<lambda>th. th\<lparr>queued := True\<rparr>)
           (s\<lparr>run_queue := (run_queue s)(p := t # run_queue s p),
              run_queue_bitmap := run_queue_bitmap s OR push_bit p 1\<rparr>))"

definition insert_in_run_queue_tail :: "ptr \<Rightarrow> hv_state \<Rightarrow> hv_state" where
  "insert_in_run_queue_tail t s =
     (let p = t_priority (threads s t)
      in upd_thread t (\<lambda>th. th\<lparr>queued := True\<rparr>)
           (s\<lparr>run_queue := (run_queue s)(p := run_queue s p @ [t]),
              run_queue_bitmap := run_queue_bitmap s OR push_bit p 1\<rparr>))"

definition mp_reschedule :: "u32 \<Rightarrow> hv_state \<Rightarrow> hv_state" where
  "mp_reschedule target s =
     (let target = target AND active_cpus s;
          target = target AND NOT (realtime_cpus s);
          target = target AND NOT (push_bit (curr_cpu s) 1)
      in arch_mp_send_ipi target MP_IPI_RESCHEDULE s)"

definition wakeup_cpu_for_thread :: "ptr \<Rightarrow> hv_state \<Rightarrow> hv_state" where
  "wakeup_cpu_for_thread t s =
     (let pc = pinned_cpu (threads s t)
      in if pc < 0 then mp_reschedule (-1) s else mp_reschedule (push_bit (nat pc) 1) s)"

definition remove_task_from_rqueue :: "ptr \<Rightarrow> hv_state \<Rightarrow> hv_state option" where
  "remove_task_from_rqueue t s =
     (if queued (threads s t)
      then let p = t_priority (threads s t)
           in Some (upd_thread t (\<lambda>th. th\<lparr>queued := False\<rparr>)
                (s\<lparr>run_queue := (run_queue s)(p := remove1 t (run_queue s p))\<rparr>))
      else None)"

lemma bit_clear: "bit (w AND NOT (2 ^ n)) i \<longleftrightarrow> bit w i \<and> i \<noteq> n" for w :: "'a::len word"
  by (auto simp: bit_simps dest: bit_imp_le_length)

lemma bit_set: "bit (w OR 2 ^ n) i \<longleftrightarrow> bit w i \<or> i = n \<and> n < LENGTH('a)" for w :: "'a::len word"
  by (auto simp: bit_simps)

lemma clear_bit_less: "bit w n \<Longrightarrow> unat (w AND NOT (2 ^ n)) < unat w" for w :: u32
proof -
  assume b: "bit w n"
  let ?x = "w AND NOT (2 ^ n)"
  have "?x \<noteq> w" using b bit_clear [of w n n] by auto
  moreover have "?x \<le> w" by (rule word_and_le2)
  ultimately have "?x < w" by simp
  then show ?thesis by (simp add: word_less_nat_alt)
qed

text \<open>The scan of the queues from the highest priority down (lines 474 to 495).\<close>

definition runnable_on :: "int \<Rightarrow> hv_state \<Rightarrow> ptr \<Rightarrow> bool" where
  "runnable_on cpu s t \<longleftrightarrow> pinned_cpu (threads s t) < 0 \<or> pinned_cpu (threads s t) = cpu"

function top_scan :: "int \<Rightarrow> hv_state \<Rightarrow> u32 \<Rightarrow> (nat \<times> ptr) option" where
  "top_scan cpu s local_bitmap =
     (if local_bitmap = 0 then None
      else
        let next_queue = 31 - builtin_clz local_bitmap
        in case find (runnable_on cpu s) (run_queue s next_queue) of
             Some t \<Rightarrow> Some (next_queue, t)
           | None \<Rightarrow> top_scan cpu s (local_bitmap AND NOT (push_bit next_queue 1)))"
  by pat_completeness auto

termination
  by (relation "measure (\<lambda>(cpu, s, b). unat b)") (auto intro!: clear_bit_less clz_highest(2))

declare top_scan.simps [simp del]

definition get_top_thread :: "nat \<Rightarrow> hv_state \<Rightarrow> hv_state \<times> ptr" where
  "get_top_thread cpu s =
     (case top_scan (int cpu) s (run_queue_bitmap s) of
        None \<Rightarrow> (s, idle_thread s cpu)
      | Some (q, t) \<Rightarrow>
          let rq = remove1 t (run_queue s q);
              s = upd_thread t (\<lambda>th. th\<lparr>queued := False\<rparr>) (s\<lparr>run_queue := (run_queue s)(q := rq)\<rparr>);
              s = (if rq = [] then s\<lparr>run_queue_bitmap := run_queue_bitmap s AND NOT (push_bit q 1)\<rparr> else s)
          in (s, t))"

section \<open>Rescheduling\<close>

text \<open>Lines 539 to 555 and 597: what the scheduler records when a CPU changes thread.\<close>

definition note_switch :: "ptr \<Rightarrow> ptr \<Rightarrow> hv_state \<Rightarrow> hv_state" where
  "note_switch old new s =
     (let cpu = curr_cpu s; b = push_bit cpu 1;
          s = upd_thread new (\<lambda>th. if quantum th \<le> 0 then th\<lparr>quantum := 5\<rparr> else th) s;
          s = upd_thread old (\<lambda>th. th\<lparr>t_curr_cpu := -1\<rparr>) s;
          s = upd_thread new (\<lambda>th. th\<lparr>t_curr_cpu := int cpu\<rparr>) s;
          s = (if thread_is_idle (threads s new) then s\<lparr>idle_cpus := idle_cpus s OR b\<rparr>
               else s\<lparr>idle_cpus := idle_cpus s AND NOT b\<rparr>);
          s = (if thread_is_realtime (threads s new) then s\<lparr>realtime_cpus := realtime_cpus s OR b\<rparr>
               else s\<lparr>realtime_cpus := realtime_cpus s AND NOT b\<rparr>)
      in s\<lparr>current_thread := (current_thread s)(cpu := new)\<rparr>)"

definition thread_resched :: "hv_state \<Rightarrow> hv_state" where
  "thread_resched s =
     (let oldthread = get_current_thread s;
          (s, newthread) = get_top_thread (curr_cpu s) s;
          s = upd_thread newthread (\<lambda>th. th\<lparr>t_state := THREAD_RUNNING\<rparr>) s
      in if newthread = oldthread then s
         else
           let s = note_switch oldthread newthread s
           in if t_vcpu (threads s newthread) \<noteq> 0 then vcpu_switch_to (t_vcpu (threads s newthread)) s else s)"

definition thread_yield :: "hv_state \<Rightarrow> hv_state" where
  "thread_yield s =
     (let t = get_current_thread s;
          s = upd_thread t (\<lambda>th. th\<lparr>t_state := THREAD_READY, quantum := 0\<rparr>) s;
          s = (if \<not> thread_is_idle (threads s t) then insert_in_run_queue_tail t s else s)
      in thread_resched s)"

definition thread_preempt :: "hv_state \<Rightarrow> hv_state" where
  "thread_preempt s =
     (let t = get_current_thread s;
          s = upd_thread t (\<lambda>th. th\<lparr>t_state := THREAD_READY\<rparr>) s;
          s = (if \<not> thread_is_idle (threads s t) then
                 (if quantum (threads s t) > 0 then insert_in_run_queue_head t s
                  else insert_in_run_queue_tail t s)
               else s)
      in thread_resched s)"

abbreviation (input) INT_NO_RESCHEDULE :: int where "INT_NO_RESCHEDULE \<equiv> 0"
abbreviation (input) INT_RESCHEDULE :: int where "INT_RESCHEDULE \<equiv> 1"
abbreviation (input) VCPU_RESCHED_EXIT :: int where "VCPU_RESCHED_EXIT \<equiv> 2"

definition thread_vcpu_sched :: "int \<Rightarrow> hv_state \<Rightarrow> hv_state" where
  "thread_vcpu_sched type s =
     (if type = INT_RESCHEDULE then thread_preempt s
      else if type = VCPU_RESCHED_EXIT then thread_resched s
      else s)"

definition thread_block :: "hv_state \<Rightarrow> hv_state" where
  "thread_block s = thread_resched s"

definition thread_unblock :: "ptr \<Rightarrow> bool \<Rightarrow> hv_state \<Rightarrow> hv_state" where
  "thread_unblock t resched s =
     (let s = upd_thread t (\<lambda>th. th\<lparr>t_state := THREAD_READY\<rparr>) s;
          s = insert_in_run_queue_head t s;
          s = wakeup_cpu_for_thread t s
      in if resched then thread_resched s else s)"

definition thread_resume :: "ptr \<Rightarrow> hv_state \<Rightarrow> hv_state" where
  "thread_resume t s =
     (let suspended = t_state (threads s t) = THREAD_SUSPENDED;
          s = (if suspended
               then insert_in_run_queue_head t (upd_thread t (\<lambda>th. th\<lparr>t_state := THREAD_READY\<rparr>) s)
               else s);
          resched = (suspended \<and> \<not> ints_off s);
          s = wakeup_cpu_for_thread t s
      in if resched then thread_yield s else s)"

definition thread_reset :: "ptr \<Rightarrow> hv_state \<Rightarrow> hv_state" where
  "thread_reset t s = upd_thread t (\<lambda>th. th\<lparr>t_state := THREAD_SUSPENDED\<rparr>) s"

definition thread_timer_tick :: "hv_state \<Rightarrow> hv_state \<times> int" where
  "thread_timer_tick s =
     (let t = get_current_thread s
      in if thread_is_real_time_or_idle (threads s t) then (s, INT_NO_RESCHEDULE)
         else
           let s = upd_thread t (\<lambda>th. th\<lparr>quantum := quantum th - 1\<rparr>) s
           in (s, if quantum (threads s t) \<le> 0 then INT_RESCHEDULE else INT_NO_RESCHEDULE))"

definition mp_mbx_reschedule_irq :: "hv_state \<Rightarrow> int" where
  "mp_mbx_reschedule_irq s = (if bit (active_cpus s) (curr_cpu s) then INT_RESCHEDULE else INT_NO_RESCHEDULE)"

definition mp_set_curr_cpu_active :: "hv_state \<Rightarrow> hv_state" where
  "mp_set_curr_cpu_active s = s\<lparr>active_cpus := active_cpus s OR push_bit (curr_cpu s) 1\<rparr>"

section \<open>Choosing the next thread\<close>

lemma top_scan_some:
  assumes "top_scan cpu s b = Some (q, t)"
  shows "q < 32 \<and> find (runnable_on cpu s) (run_queue s q) = Some t \<and>
    (\<forall>q'. q < q' \<longrightarrow> bit b q' \<longrightarrow> (\<forall>t'\<in>set (run_queue s q'). \<not> runnable_on cpu s t'))"
  using assms
proof (induction cpu s b rule: top_scan.induct)
  case (1 cpu s b)
  show ?case
  proof (cases "b = 0")
    case True
    with 1(2) show ?thesis by (simp add: top_scan.simps)
  next
    case False
    let ?q = "31 - builtin_clz b"
    note hi = clz_highest [OF False]
    show ?thesis
    proof (cases "find (runnable_on cpu s) (run_queue s ?q)")
      case (Some t')
      with 1(2) False have "q = ?q" "t = t'" by (simp_all add: top_scan.simps [of _ _ b] Let_def)
      with Some hi show ?thesis by auto
    next
      case None
      with 1(2) False have r: "top_scan cpu s (b AND NOT (2 ^ ?q)) = Some (q, t)"
        by (simp add: top_scan.simps [of _ _ b] Let_def)
      have none: "\<forall>t'\<in>set (run_queue s ?q). \<not> runnable_on cpu s t'" using None by (simp add: find_None_iff)
      from 1(1) [OF False _ None] r
      have ih: "q < 32 \<and> find (runnable_on cpu s) (run_queue s q) = Some t \<and>
        (\<forall>q'. q < q' \<longrightarrow> bit (b AND NOT (2 ^ ?q)) q' \<longrightarrow> (\<forall>t'\<in>set (run_queue s q'). \<not> runnable_on cpu s t'))"
        by simp
      then show ?thesis using none unfolding bit_clear by blast
    qed
  qed
qed

lemma top_scan_none:
  assumes "top_scan cpu s b = None" "bit b q"
  shows "\<forall>t\<in>set (run_queue s q). \<not> runnable_on cpu s t"
  using assms
proof (induction cpu s b rule: top_scan.induct)
  case (1 cpu s b)
  have False': "b \<noteq> 0" using 1(3) by auto
  let ?q = "31 - builtin_clz b"
  have n: "find (runnable_on cpu s) (run_queue s ?q) = None" and r: "top_scan cpu s (b AND NOT (2 ^ ?q)) = None"
    using 1(2) False' by (simp_all add: top_scan.simps [of _ _ b] Let_def split: option.splits)
  show ?case
  proof (cases "q = ?q")
    case True
    with n show ?thesis by (simp add: find_None_iff)
  next
    case False
    with 1(1) [OF False' _ n] r 1(3) show ?thesis by (simp add: bit_clear)
  qed
qed

section \<open>Invariant\<close>

definition queues_ok :: "hv_state \<Rightarrow> bool" where
  "queues_ok s \<longleftrightarrow> (\<forall>p. distinct (run_queue s p)) \<and>
     (\<forall>p t. t \<in> set (run_queue s p) \<longleftrightarrow> queued (threads s t) \<and> t_priority (threads s t) = p) \<and>
     (\<forall>t. t_priority (threads s t) < 32) \<and>
     (\<forall>t. queued (threads s t) \<longrightarrow> bit (run_queue_bitmap s) (t_priority (threads s t)) \<and>
        t_state (threads s t) = THREAD_READY \<and> \<not> thread_is_idle (threads s t))"

text \<open>
  The CPUs that have come up are \<open>N\<close>. The current threads of the other CPUs among them are off the queues; that of this CPU is when no operation
  is under way.
\<close>

definition cpus_up :: "nat set \<Rightarrow> hv_state \<Rightarrow> bool" where
  "cpus_up N s \<longleftrightarrow> curr_cpu s \<in> N \<and> (\<forall>c\<in>N. thread_is_idle (threads s (idle_thread s c))) \<and>
     (\<forall>c\<in>N. c \<noteq> curr_cpu s \<longrightarrow> \<not> queued (threads s (current_thread s c))) \<and>
     (\<forall>c\<in>N. \<forall>c'\<in>N. current_thread s c = current_thread s c' \<longrightarrow> c = c') \<and>
     (\<forall>c\<in>N. \<forall>c'\<in>N. current_thread s c = idle_thread s c' \<longrightarrow> c = c') \<and>
     (\<forall>c\<in>N. \<forall>c'\<in>N. idle_thread s c = idle_thread s c' \<longrightarrow> c = c')"

definition sched_up :: "nat set \<Rightarrow> hv_state \<Rightarrow> bool" where
  "sched_up N s \<longleftrightarrow> queues_ok s \<and> cpus_up N s \<and> \<not> queued (threads s (get_current_thread s))"

text \<open>All four CPUs have come up.\<close>

abbreviation cpus_ok :: "hv_state \<Rightarrow> bool" where
  "cpus_ok \<equiv> cpus_up {..<4}"

abbreviation sched_inv :: "hv_state \<Rightarrow> bool" where
  "sched_inv \<equiv> sched_up {..<4}"

lemma cpus_ok_def:
  "cpus_ok s \<longleftrightarrow> curr_cpu s < 4 \<and> (\<forall>c<4. thread_is_idle (threads s (idle_thread s c))) \<and>
     (\<forall>c<4. c \<noteq> curr_cpu s \<longrightarrow> \<not> queued (threads s (current_thread s c))) \<and>
     (\<forall>c<4. \<forall>c'<4. current_thread s c = current_thread s c' \<longrightarrow> c = c') \<and>
     (\<forall>c<4. \<forall>c'<4. current_thread s c = idle_thread s c' \<longrightarrow> c = c') \<and>
     (\<forall>c<4. \<forall>c'<4. idle_thread s c = idle_thread s c' \<longrightarrow> c = c')"
  by (simp add: cpus_up_def Ball_def)

lemmas sched_inv_def = sched_up_def [of "{..<4}"]

text \<open>The fields the invariant is about, which the operations of the other components leave alone.\<close>

definition sched_part :: "hv_state \<Rightarrow> (ptr \<Rightarrow> thread) \<times> (nat \<Rightarrow> ptr list) \<times> u32 \<times> (nat \<Rightarrow> ptr) \<times> (nat \<Rightarrow> ptr) \<times> nat" where
  "sched_part s = (threads s, run_queue s, run_queue_bitmap s, current_thread s, idle_thread s, curr_cpu s)"

lemma sched_inv_part: "sched_part s' = sched_part s \<Longrightarrow> sched_up N s' \<longleftrightarrow> sched_up N s"
  by (simp add: sched_part_def sched_up_def queues_ok_def cpus_up_def get_current_thread_def)

lemma sched_part_sysreg [simp]: "sched_part (ARM64_WRITE_SYSREG r x s) = sched_part s"
  by (simp add: sched_part_def ARM64_WRITE_SYSREG_def)

lemma sched_part_icc [simp]: "sched_part (ARM64_WRITE_ICC r x s) = sched_part s"
  by (simp add: sched_part_def ARM64_WRITE_ICC_def ARM64_WRITE_SYSREG_def)

lemma sched_part_upd [simp]:
  "sched_part (upd_vcpu v f s) = sched_part s" "sched_part (upd_virq r g s) = sched_part s"
  "sched_part (gic_put w s) = sched_part s"
  by (simp_all add: sched_part_def upd_vcpu_def upd_virq_def gic_put_def)

lemma fold_part: "(\<And>x s. sched_part (f x s) = sched_part s) \<Longrightarrow> sched_part (fold f xs s) = sched_part s"
  by (induction xs arbitrary: s) auto

lemma sched_part_affinity [simp]: "sched_part (gic_set_affinity n c b s) = sched_part s"
  by (simp add: gic_set_affinity_def Let_def)

lemma sched_part_irq_restore [simp]: "sched_part (hv_vcpu_irq_restore v s) = sched_part s"
  by (simp add: hv_vcpu_irq_restore_def vcpu_move_irqs_def move_irq_def aprn_restore_def lr_write_def
      vgic_write_aprn_reg_def Let_def fold_part)

lemma sched_part_el1_restore [simp]: "sched_part (hv_arch_vcpu_context_restore v s) = sched_part s"
  by (simp add: hv_arch_vcpu_context_restore_def) (rule fold_part, auto)

lemma sched_part_context [simp]: "sched_part (context_out v s) = sched_part s" "sched_part (context_in v s) = sched_part s"
  by (simp_all add: context_out_def context_in_def hv_vtimer_context_save_def hv_vcpu_irq_save_def
      hv_arch_vcpu_context_save_def hv_vtimer_context_restore_def upd_vtimer_def upd_redist_def Let_def)

lemma sched_part_switch_to [simp]: "sched_part (vcpu_switch_to v s) = sched_part s"
proof -
  have "sched_part (s\<lparr>vcpu_data := d\<rparr>) = sched_part s" for d and s :: hv_state by (simp add: sched_part_def)
  then show ?thesis by (simp add: vcpu_switch_to_def hv_vcpu_arch_contex_switch_def Let_def)
qed

lemma sched_part_sgi [simp]: "sched_part (arm_gic_sgi irq m s) = sched_part s"
proof -
  have "sched_part (fst (fold (sgi_step irq) xs (s, m))) = sched_part s" for xs
  proof (induction xs arbitrary: s m)
    case (Cons x xs)
    show ?case
      by (cases "sgi_step irq x (s, m)")
        (use Cons in \<open>auto simp: sgi_step_def Let_def split: if_splits prod.splits\<close>)
  qed simp
  then show ?thesis by (simp add: arm_gic_sgi_def)
qed

lemma sched_part_wakeup [simp]: "sched_part (wakeup_cpu_for_thread t s) = sched_part s"
  by (simp add: wakeup_cpu_for_thread_def mp_reschedule_def arch_mp_send_ipi_def Let_def)

section \<open>Preservation\<close>

lemma upd_thread_threads: "threads (upd_thread t f s) u = (if u = t then f (threads s t) else threads s u)"
  by (simp add: upd_thread_def)

lemma queues_insert_head:
  assumes "queues_ok s" "\<not> queued (threads s t)" "t_state (threads s t) = THREAD_READY" "\<not> thread_is_idle (threads s t)"
  shows "queues_ok (insert_in_run_queue_head t s)"
  using assms
  by (auto simp: queues_ok_def insert_in_run_queue_head_def upd_thread_def thread_is_idle_def bit_set Let_def)

lemma queues_insert_tail:
  assumes "queues_ok s" "\<not> queued (threads s t)" "t_state (threads s t) = THREAD_READY" "\<not> thread_is_idle (threads s t)"
  shows "queues_ok (insert_in_run_queue_tail t s)"
  using assms
  by (auto simp: queues_ok_def insert_in_run_queue_tail_def upd_thread_def thread_is_idle_def bit_set Let_def)

text \<open>An update of a thread that is not queued, or one that keeps what the queues depend on.\<close>

lemma queues_upd:
  assumes "queues_ok s" "t_priority (f (threads s t)) = t_priority (threads s t)"
    "queued (f (threads s t)) = queued (threads s t)"
    "queued (threads s t) \<Longrightarrow> t_state (f (threads s t)) = t_state (threads s t) \<and> t_flags (f (threads s t)) = t_flags (threads s t)"
  shows "queues_ok (upd_thread t f s)"
  using assms by (auto simp: queues_ok_def upd_thread_def thread_is_idle_def)

lemma get_top_thread_ok:
  assumes q: "queues_ok s" and g: "get_top_thread cpu s = (s', t)"
    and idle: "\<not> queued (threads s (idle_thread s cpu))"
  shows "queues_ok s' \<and> \<not> queued (threads s' t) \<and>
    (\<forall>u. threads s' u = (if u = t then (threads s t)\<lparr>queued := False\<rparr> else threads s u)) \<and>
    (t = idle_thread s cpu \<or> queued (threads s t)) \<and>
    current_thread s' = current_thread s \<and> idle_thread s' = idle_thread s \<and> curr_cpu s' = curr_cpu s"
proof (cases "top_scan (int cpu) s (run_queue_bitmap s)")
  case None
  with g have "s' = s" "t = idle_thread s cpu" by (auto simp: get_top_thread_def)
  moreover have "(threads s t)\<lparr>queued := False\<rparr> = threads s t" if "\<not> queued (threads s t)" using that by simp
  ultimately show ?thesis using q idle by auto
next
  case (Some qt)
  obtain p t' where qt: "qt = (p, t')" by (cases qt)
  with Some g have t: "t = t'" by (auto simp: get_top_thread_def Let_def)
  from top_scan_some [of "int cpu" s "run_queue_bitmap s" p t] Some qt t
  have "find (runnable_on (int cpu) s) (run_queue s p) = Some t" by simp
  then have "t \<in> set (run_queue s p)" by (auto simp: find_Some_iff)
  with q have p: "queued (threads s t)" "t_priority (threads s t) = p" by (auto simp: queues_ok_def)
  have s': "threads s' = (threads s)(t := (threads s t)\<lparr>queued := False\<rparr>)"
    "run_queue s' = (run_queue s)(p := remove1 t (run_queue s p))"
    "run_queue_bitmap s' = (if remove1 t (run_queue s p) = [] then run_queue_bitmap s AND NOT (2 ^ p) else run_queue_bitmap s)"
    "current_thread s' = current_thread s" "idle_thread s' = idle_thread s" "curr_cpu s' = curr_cpu s"
    using g Some qt t by (auto simp: get_top_thread_def upd_thread_def Let_def)
  have "bit (run_queue_bitmap s') (t_priority (threads s u))" if u: "queued (threads s u)" "u \<noteq> t" for u
  proof (cases "t_priority (threads s u) = p")
    case True
    then have "u \<in> set (remove1 t (run_queue s p))" using u q by (auto simp: queues_ok_def)
    then have "remove1 t (run_queue s p) \<noteq> []" by (metis empty_iff list.set(1))
    then show ?thesis using u(1) q s'(3) by (auto simp: queues_ok_def)
  next
    case False
    then show ?thesis using u q s'(3) by (auto simp: queues_ok_def bit_clear)
  qed
  then have b: "\<forall>u. queued (threads s' u) \<longrightarrow> bit (run_queue_bitmap s') (t_priority (threads s' u))"
    by (simp add: s'(1))
  have "u \<in> set (run_queue s' r) \<longleftrightarrow> queued (threads s' u) \<and> t_priority (threads s' u) = r" for u r
    using q p unfolding s'(1,2) by (auto simp: queues_ok_def set_remove1_eq)
  moreover have "distinct (run_queue s' r)" for r using q unfolding s'(2) by (auto simp: queues_ok_def)
  ultimately have "queues_ok s'"
    unfolding queues_ok_def using b q by (simp add: s'(1)) (simp add: queues_ok_def thread_is_idle_def)
  with s' p show ?thesis by auto
qed

lemma cpus_switch:
  assumes cp: "cpus_up N s" and q: "queues_ok s" and u: "\<And>u. t_flags (threads s' u) = t_flags (threads s u) \<and>
      (queued (threads s' u) \<longrightarrow> queued (threads s u))"
    and f: "current_thread s' = (current_thread s)(curr_cpu s := t)" "idle_thread s' = idle_thread s"
      "curr_cpu s' = curr_cpu s" and t: "t = idle_thread s (curr_cpu s) \<or> queued (threads s t)"
  shows "cpus_up N s'"
proof -
  have c: "curr_cpu s \<in> N" using cp by (simp add: cpus_up_def)
  have cur: "c' \<in> N \<Longrightarrow> c' \<noteq> curr_cpu s \<Longrightarrow> current_thread s c' \<noteq> t" for c'
    using t cp c by (auto simp: cpus_up_def)
  have idl: "c' \<in> N \<Longrightarrow> t = idle_thread s c' \<Longrightarrow> c' = curr_cpu s" for c'
    using t q cp c by (auto simp: cpus_up_def queues_ok_def)
  have "\<forall>c\<in>N. thread_is_idle (threads s' (idle_thread s c))"
    using cp u by (simp add: cpus_up_def thread_is_idle_def)
  moreover have "\<forall>c\<in>N. c \<noteq> curr_cpu s \<longrightarrow> \<not> queued (threads s' (current_thread s' c))"
    using cp u by (auto simp: cpus_up_def f(1))
  moreover have "\<forall>c1\<in>N. \<forall>c2\<in>N. current_thread s' c1 = current_thread s' c2 \<longrightarrow> c1 = c2"
    using cp cur unfolding f(1) by (auto simp: cpus_up_def)
  moreover have "\<forall>c1\<in>N. \<forall>c2\<in>N. current_thread s' c1 = idle_thread s c2 \<longrightarrow> c1 = c2"
    using cp idl unfolding f(1) by (auto simp: cpus_up_def)
  moreover have "\<forall>c1\<in>N. \<forall>c2\<in>N. idle_thread s c1 = idle_thread s c2 \<longrightarrow> c1 = c2"
    using cp by (simp add: cpus_up_def)
  ultimately show ?thesis unfolding cpus_up_def f(2,3) by (intro conjI c)
qed

lemma cpus_upd_current_up:
  assumes "cpus_up N s" "t_flags (f (threads s t)) = t_flags (threads s t)"
    "queued (f (threads s t)) \<longrightarrow> queued (threads s t) \<or> t = current_thread s (curr_cpu s)"
  shows "cpus_up N (upd_thread t f s)"
proof -
  have "\<not> queued (threads (upd_thread t f s) (current_thread s c))" if "c \<in> N" "c \<noteq> curr_cpu s" for c
    using that assms by (auto simp: cpus_up_def upd_thread_def)
  then show ?thesis using assms(1,2) by (auto simp: cpus_up_def upd_thread_def thread_is_idle_def)
qed

lemma cpus_insert_up:
  assumes "cpus_up N s" "\<forall>c\<in>N. c \<noteq> curr_cpu s \<longrightarrow> current_thread s c \<noteq> t"
  shows "cpus_up N (insert_in_run_queue_head t s)" "cpus_up N (insert_in_run_queue_tail t s)"
  using assms
  by (auto simp: cpus_up_def insert_in_run_queue_head_def insert_in_run_queue_tail_def Let_def upd_thread_def
      thread_is_idle_def)

lemma thread_resched_up:
  assumes q: "queues_ok s" and cp: "cpus_up N s"
  shows "sched_up N (thread_resched s)"
proof -
  obtain s1 t where g: "get_top_thread (curr_cpu s) s = (s1, t)" by fastforce
  have c: "curr_cpu s \<in> N" and idle: "\<not> queued (threads s (idle_thread s (curr_cpu s)))"
    using q cp by (auto simp: queues_ok_def cpus_up_def)
  from get_top_thread_ok [OF q g idle] have gt: "queues_ok s1" "\<not> queued (threads s1 t)"
    "\<forall>u. threads s1 u = (if u = t then (threads s t)\<lparr>queued := False\<rparr> else threads s u)"
    "t = idle_thread s (curr_cpu s) \<or> queued (threads s t)"
    "current_thread s1 = current_thread s" "idle_thread s1 = idle_thread s" "curr_cpu s1 = curr_cpu s"
    by simp_all
  let ?s2 = "upd_thread t (\<lambda>th. th\<lparr>t_state := THREAD_RUNNING\<rparr>) s1"
  have q2: "queues_ok ?s2" using gt by (intro queues_upd) auto
  have th2: "threads ?s2 u = (if u = t then (threads s t)\<lparr>queued := False, t_state := THREAD_RUNNING\<rparr> else threads s u)"
    "current_thread ?s2 = current_thread s" "idle_thread ?s2 = idle_thread s" "curr_cpu ?s2 = curr_cpu s" for u
    using gt by (auto simp: upd_thread_def)
  show ?thesis
  proof (cases "t = get_current_thread s")
    case True
    then have "thread_resched s = ?s2" using g by (simp add: thread_resched_def Let_def)
    moreover have "cpus_up N ?s2" using cp th2 by (auto simp: cpus_up_def thread_is_idle_def)
    ultimately show ?thesis using q2 True th2 by (simp add: sched_up_def get_current_thread_def)
  next
    case False
    let ?s3 = "note_switch (get_current_thread s) t ?s2"
    have part: "sched_part (thread_resched s) = sched_part ?s3"
      using g False by (simp add: thread_resched_def Let_def)
    have f3: "run_queue ?s3 = run_queue ?s2" "run_queue_bitmap ?s3 = run_queue_bitmap ?s2"
      "current_thread ?s3 = (current_thread s)(curr_cpu s := t)" "idle_thread ?s3 = idle_thread s"
      "curr_cpu ?s3 = curr_cpu s"
      using th2 by (simp_all add: note_switch_def upd_thread_def Let_def)
    have th3: "queued (threads ?s3 u) = queued (threads ?s2 u)" "t_priority (threads ?s3 u) = t_priority (threads ?s2 u)"
      "t_state (threads ?s3 u) = t_state (threads ?s2 u)" "t_flags (threads ?s3 u) = t_flags (threads ?s2 u)" for u
      by (auto simp: note_switch_def upd_thread_def Let_def)
    have "queues_ok ?s3" using q2 f3 th3 by (simp add: queues_ok_def thread_is_idle_def)
    moreover have "cpus_up N ?s3"
    proof (rule cpus_switch [OF cp _ _ f3(3-5)])
      show "t_flags (threads ?s3 u) = t_flags (threads s u) \<and> (queued (threads ?s3 u) \<longrightarrow> queued (threads s u))" for u
        using th3 th2(1) by simp
      show "t = idle_thread s (curr_cpu s) \<or> queued (threads s t)" by (fact gt(4))
    qed (fact q)
    moreover have "\<not> queued (threads ?s3 (get_current_thread ?s3))"
      using f3 th3 th2(1) by (simp add: get_current_thread_def)
    ultimately have "sched_up N ?s3" by (simp add: sched_up_def)
    then show ?thesis by (rule iffD2 [OF sched_inv_part [OF part]])
  qed
qed

text \<open>What rescheduling does to each thread: one thread becomes the current one, and the others keep their state and place.\<close>

lemma thread_resched_threads:
  assumes "queues_ok s" "cpus_up N s"
  obtains new where "get_current_thread (thread_resched s) = new" "t_state (threads (thread_resched s) new) = THREAD_RUNNING"
    "new = idle_thread s (curr_cpu s) \<or> queued (threads s new)"
    "\<And>u. u \<noteq> new \<Longrightarrow> t_state (threads (thread_resched s) u) = t_state (threads s u) \<and> queued (threads (thread_resched s) u) = queued (threads s u)"
    "curr_cpu (thread_resched s) = curr_cpu s"
proof -
  obtain s1 t where g: "get_top_thread (curr_cpu s) s = (s1, t)" by fastforce
  have idle: "\<not> queued (threads s (idle_thread s (curr_cpu s)))"
    using assms by (auto simp: queues_ok_def cpus_up_def)
  from get_top_thread_ok [OF assms(1) g idle] have gt:
    "\<forall>u. threads s1 u = (if u = t then (threads s t)\<lparr>queued := False\<rparr> else threads s u)"
    "t = idle_thread s (curr_cpu s) \<or> queued (threads s t)"
    "current_thread s1 = current_thread s" "curr_cpu s1 = curr_cpu s"
    by simp_all
  let ?s2 = "upd_thread t (\<lambda>th. th\<lparr>t_state := THREAD_RUNNING\<rparr>) s1"
  let ?n = "note_switch (get_current_thread s) t ?s2"
  have r: "thread_resched s = (if t = get_current_thread s then ?s2
      else if t_vcpu (threads ?n t) \<noteq> 0 then vcpu_switch_to (t_vcpu (threads ?n t)) ?n else ?n)"
    using g by (simp add: thread_resched_def Let_def)
  have p: "sched_part (thread_resched s) = sched_part (if t = get_current_thread s then ?s2 else ?n)"
    unfolding r by simp
  have th: "threads (thread_resched s) = threads (if t = get_current_thread s then ?s2 else ?n)"
    "current_thread (thread_resched s) = current_thread (if t = get_current_thread s then ?s2 else ?n)"
    "curr_cpu (thread_resched s) = curr_cpu (if t = get_current_thread s then ?s2 else ?n)"
    using p by (simp_all add: sched_part_def)
  show thesis
    by (rule that [of t]) (use gt in \<open>auto simp: th get_current_thread_def note_switch_def Let_def upd_thread_def\<close>)
qed

lemma thread_yield_up:
  assumes inv: "sched_up N s"
  shows "sched_up N (thread_yield s)"
proof -
  let ?t = "get_current_thread s"
  have c: "queues_ok s" "cpus_up N s" "\<not> queued (threads s ?t)" using inv by (auto simp: sched_up_def)
  let ?s1 = "upd_thread ?t (\<lambda>th. th\<lparr>t_state := THREAD_READY, quantum := 0\<rparr>) s"
  have q1: "queues_ok ?s1" using c by (intro queues_upd) auto
  have c1: "cpus_up N ?s1" using c(2) by (intro cpus_upd_current_up) (simp_all add: get_current_thread_def)
  have "queues_ok (insert_in_run_queue_tail ?t ?s1)" if "\<not> thread_is_idle (threads ?s1 ?t)"
    using that q1 c(3) by (intro queues_insert_tail) (simp_all add: upd_thread_def)
  moreover have "cpus_up N (insert_in_run_queue_tail ?t ?s1)"
    using c1 c(2) by (intro cpus_insert_up(2)) (auto simp: cpus_up_def get_current_thread_def upd_thread_def)
  ultimately show ?thesis using q1 c1 by (simp add: thread_yield_def Let_def thread_resched_up)
qed

lemma thread_preempt_up:
  assumes inv: "sched_up N s"
  shows "sched_up N (thread_preempt s)"
proof -
  let ?t = "get_current_thread s"
  have c: "queues_ok s" "cpus_up N s" "\<not> queued (threads s ?t)" using inv by (auto simp: sched_up_def)
  let ?s1 = "upd_thread ?t (\<lambda>th. th\<lparr>t_state := THREAD_READY\<rparr>) s"
  have q1: "queues_ok ?s1" using c by (intro queues_upd) auto
  have c1: "cpus_up N ?s1" using c(2) by (intro cpus_upd_current_up) (simp_all add: get_current_thread_def)
  have n: "\<not> queued (threads ?s1 ?t)" "t_state (threads ?s1 ?t) = THREAD_READY"
    using c(3) by (simp_all add: upd_thread_def)
  have "\<forall>c\<in>N. c \<noteq> curr_cpu ?s1 \<longrightarrow> current_thread ?s1 c \<noteq> ?t"
    using c(2) by (auto simp: cpus_up_def get_current_thread_def upd_thread_def)
  from cpus_insert_up [OF c1 this] q1 c1 n queues_insert_tail [OF q1 n] queues_insert_head [OF q1 n]
  show ?thesis by (simp add: thread_preempt_def Let_def thread_resched_up)
qed

lemma thread_resume_up:
  assumes inv: "sched_up N s" and t: "\<not> thread_is_idle (threads s t)" "\<forall>c\<in>N. current_thread s c \<noteq> t"
  shows "sched_up N (thread_resume t s)"
proof (cases "t_state (threads s t) = THREAD_SUSPENDED")
  case False
  then show ?thesis
    using inv by (simp add: thread_resume_def Let_def sched_inv_part [OF sched_part_wakeup])
next
  case True
  let ?s1 = "upd_thread t (\<lambda>th. th\<lparr>t_state := THREAD_READY\<rparr>) s"
  let ?s2 = "insert_in_run_queue_head t ?s1"
  have n: "\<not> queued (threads s t)" using inv True by (auto simp: sched_up_def queues_ok_def)
  have q1: "queues_ok ?s1" using inv n by (intro queues_upd) (auto simp: sched_up_def)
  have c1: "cpus_up N ?s1" using inv n by (intro cpus_upd_current_up) (simp_all add: sched_up_def)
  have q2: "queues_ok ?s2"
    using q1 n t(1) by (intro queues_insert_head) (simp_all add: upd_thread_def thread_is_idle_def)
  have c2: "cpus_up N ?s2" using c1 t(2) by (intro cpus_insert_up(1)) (simp_all add: upd_thread_def)
  have "get_current_thread s \<noteq> t" using t(2) inv by (auto simp: get_current_thread_def sched_up_def cpus_up_def)
  then have "sched_up N ?s2"
    using q2 c2 inv by (auto simp: sched_up_def get_current_thread_def upd_thread_def insert_in_run_queue_head_def Let_def)
  then have "sched_up N (wakeup_cpu_for_thread t ?s2)" by (simp add: sched_inv_part [OF sched_part_wakeup])
  with True show ?thesis by (simp add: thread_resume_def Let_def thread_yield_up)
qed

text \<open>The same for all four CPUs.\<close>

lemmas cpus_upd_current = cpus_upd_current_up [of "{..<4}"]
lemmas thread_resched_inv = thread_resched_up [of _ "{..<4}"]
lemmas thread_yield_inv = thread_yield_up [of "{..<4}"]
lemmas thread_preempt_inv = thread_preempt_up [of "{..<4}"]

lemma cpus_insert:
  assumes "cpus_ok s" "\<forall>c<4. c \<noteq> curr_cpu s \<longrightarrow> current_thread s c \<noteq> t"
  shows "cpus_ok (insert_in_run_queue_head t s)" "cpus_ok (insert_in_run_queue_tail t s)"
  using cpus_insert_up [OF assms(1), of t] assms(2) by simp_all

lemma thread_resume_inv:
  assumes "sched_inv s" "\<not> thread_is_idle (threads s t)" "\<forall>c<4. current_thread s c \<noteq> t"
  shows "sched_inv (thread_resume t s)"
  using assms by (intro thread_resume_up) simp_all

section \<open>Properties\<close>

text \<open>
  The scheduler picks a thread of the highest priority: if some queued thread may run on the CPU,
  \<^verbatim>\<open>get_top_thread\<close> takes off its queue the first such thread of the highest priority, and no
  queued thread that may run there has a higher one; otherwise it returns the idle thread and
  changes nothing. The search ends although removing a thread elsewhere leaves its bit set.
\<close>

theorem get_top_thread_highest:
  assumes "queues_ok s" "get_top_thread cpu s = (s', t)"
  shows "if \<exists>u. queued (threads s u) \<and> runnable_on (int cpu) s u
    then queued (threads s t) \<and> runnable_on (int cpu) s t \<and> \<not> queued (threads s' t) \<and>
      find (runnable_on (int cpu) s) (run_queue s (t_priority (threads s t))) = Some t \<and>
      (\<forall>u. queued (threads s u) \<longrightarrow> runnable_on (int cpu) s u \<longrightarrow>
        t_priority (threads s u) \<le> t_priority (threads s t))
    else t = idle_thread s cpu \<and> s' = s"
proof (cases "top_scan (int cpu) s (run_queue_bitmap s)")
  case None
  have "\<not> runnable_on (int cpu) s u" if u: "queued (threads s u)" for u
    using top_scan_none [OF None, of "t_priority (threads s u)"] assms(1) u by (auto simp: queues_ok_def)
  with None assms(2) show ?thesis by (auto simp: get_top_thread_def)
next
  case (Some qt)
  obtain p t' where qt: "qt = (p, t')" by (cases qt)
  with Some assms(2) have t: "t = t'" and nq: "\<not> queued (threads s' t)"
    by (auto simp: get_top_thread_def upd_thread_def Let_def split: if_splits)
  from Some qt t have sc: "top_scan (int cpu) s (run_queue_bitmap s) = Some (p, t)" by simp
  note ts = top_scan_some [OF sc]
  then have "t \<in> set (run_queue s p)" and r: "runnable_on (int cpu) s t" by (auto simp: find_Some_iff)
  with assms(1) have tq: "queued (threads s t)" "t_priority (threads s t) = p" by (auto simp: queues_ok_def)
  have "t_priority (threads s u) \<le> p" if "queued (threads s u)" "runnable_on (int cpu) s u" for u
    using that ts assms(1) by (metis queues_ok_def not_less)
  with tq r nq ts show ?thesis by auto
qed

lemma queues_ok_state0: "queues_ok state0"
  by (simp add: queues_ok_def zero_defs)

definition two_threads :: hv_state where
  "two_threads = insert_in_run_queue_tail 2 (insert_in_run_queue_tail 1
     (state0\<lparr>threads := (\<lambda>_. zero_thread)(
        1 := zero_thread\<lparr>t_state := THREAD_READY, pinned_cpu := -1, t_priority := 3\<rparr>,
        2 := zero_thread\<lparr>t_state := THREAD_READY, pinned_cpu := -1, t_priority := 9\<rparr>)\<rparr>))"

theorem get_top_thread_highest_witness: "snd (get_top_thread 0 two_threads) = 2"
proof -
  have q: "queues_ok two_threads"
    unfolding two_threads_def
    by (intro queues_insert_tail)
      (simp_all add: queues_ok_def zero_defs thread_is_idle_def insert_in_run_queue_tail_def upd_thread_def)
  obtain s' t where g: "get_top_thread 0 two_threads = (s', t)" by fastforce
  have th: "queued (threads two_threads u) \<longleftrightarrow> u = 1 \<or> u = 2" "runnable_on 0 two_threads u \<longleftrightarrow> True"
    "t_priority (threads two_threads 1) = 3" "t_priority (threads two_threads 2) = 9" for u
    by (simp_all add: two_threads_def insert_in_run_queue_tail_def upd_thread_def zero_defs runnable_on_def)
  from get_top_thread_highest [OF q g] th(1,3,4) th(2) [of 2] have "t = 2" by (auto split: if_splits)
  with g show ?thesis by simp
qed

text \<open>
  Yielding, being preempted, rescheduling and resuming a suspended thread keep the scheduler
  well formed: every queued thread is ready, in the queue of its priority once, and has its bit set;
  no CPU's current thread is queued; no thread is current on two CPUs.
\<close>

theorem sched_ops_preserve_inv:
  assumes "sched_up N s"
  shows "sched_up N (thread_yield s) \<and> sched_up N (thread_preempt s) \<and> sched_up N (thread_resched s) \<and>
    (\<not> thread_is_idle (threads s t) \<and> (\<forall>c\<in>N. current_thread s c \<noteq> t) \<longrightarrow> sched_up N (thread_resume t s))"
proof -
  have "queues_ok s" "cpus_up N s" using assms by (simp_all add: sched_up_def)
  then show ?thesis
    using thread_yield_up [OF assms] thread_preempt_up [OF assms] thread_resched_up [of s N] thread_resume_up [OF assms] by simp
qed

definition idle_state :: hv_state where
  "idle_state = state0\<lparr>threads := (\<lambda>t. zero_thread\<lparr>t_flags := if t = 0 then 0 else 16\<rparr>),
     idle_thread := (\<lambda>c. of_nat c + 1), current_thread := (\<lambda>c. of_nat c + 1)\<rparr>"

lemma of_nat_lt4_inj: "c < 4 \<Longrightarrow> c' < 4 \<Longrightarrow> (of_nat c :: ptr) = of_nat c' \<Longrightarrow> c = c'"
proof -
  assume "c < 4" "c' < 4" "(of_nat c :: ptr) = of_nat c'"
  then have "unat (of_nat c :: ptr) = unat (of_nat c' :: ptr)" by simp
  with \<open>c < 4\<close> \<open>c' < 4\<close> show "c = c'" by (simp add: unat_of_nat)
qed

lemma idle_state_inv: "sched_inv idle_state"
proof -
  have ne: "(of_nat c :: ptr) + 1 \<noteq> 0" if "c < 4" for c
  proof -
    have "unat ((of_nat c :: ptr) + 1) = c + 1" using that by (simp add: unat_word_ariths unat_of_nat)
    then show ?thesis by (metis add_is_0 unat_0 zero_neq_one)
  qed
  then show ?thesis
    using of_nat_lt4_inj
    by (auto simp: sched_inv_def queues_ok_def cpus_ok_def idle_state_def zero_defs thread_is_idle_def
        get_current_thread_def bit_simps)
qed

theorem sched_ops_preserve_inv_witness: "sched_inv (thread_yield idle_state)"
  using sched_ops_preserve_inv [OF idle_state_inv] by blast

end
