(* ===== verification/Timer.thy ===== *)
theory Timer
  imports Sched
begin

text \<open>
  Timers of the kernel, \<^verbatim>\<open>kernel/timer.c\<close>: a queue per CPU in the order of a clock of 32 bits that wraps around, the interrupt that runs the
  callbacks of the timers that are due, and the hardware timer that is set for the first of each queue. The preemption timers of \<^verbatim>\<open>kernel/thread.c\<close>,
  which the switch of threads sets and cancels, are timers of this kind.

  A callback is a parameter: a function from its address, the timer, the time, its argument and the state to its result and the new state, in which it may
  have set and cancelled timers. Platforms with the generic timer of the architecture program their hardware for each event
  (\<^verbatim>\<open>PLATFORM_HAS_DYNAMIC_TIMER\<close>), which is the case modelled.
\<close>

section \<open>Data and the clock\<close>

record ktimer =
  scheduled_time :: u32
  periodic_time :: u32
  callback :: ptr
  t_arg :: ptr

text \<open>
  \<open>hw_timer c\<close> is the time at which the hardware timer of a CPU was set and the delay it was set to; \<open>kern\<close> is the rest of the kernel.
\<close>

record 'k tstate =
  timer_at :: "ptr \<Rightarrow> ktimer"
  timer_queue :: "nat \<Rightarrow> ptr list"
  hw_timer :: "nat \<Rightarrow> (u32 \<times> u32) option"
  kern :: 'k

definition TIME_GT :: "u32 \<Rightarrow> u32 \<Rightarrow> bool" where
  "TIME_GT a b \<longleftrightarrow> sint (a - b) > 0"

definition TIME_LT :: "u32 \<Rightarrow> u32 \<Rightarrow> bool" where
  "TIME_LT a b \<longleftrightarrow> sint (a - b) < 0"

definition upd_timer :: "ptr \<Rightarrow> (ktimer \<Rightarrow> ktimer) \<Rightarrow> 'k tstate \<Rightarrow> 'k tstate" where
  "upd_timer t f s = s\<lparr>timer_at := (timer_at s)(t := f (timer_at s t))\<rparr>"

definition list_in_list :: "ptr \<Rightarrow> 'k tstate \<Rightarrow> bool" where
  "list_in_list t s \<longleftrightarrow> list_ex (\<lambda>c. t \<in> set (timer_queue s c)) [0..<4]"

definition list_delete :: "ptr \<Rightarrow> 'k tstate \<Rightarrow> 'k tstate" where
  "list_delete t s = s\<lparr>timer_queue := (\<lambda>c. remove1 t (timer_queue s c))\<rparr>"

section \<open>Operations\<close>

definition timer_initialize :: "ptr \<Rightarrow> 'k tstate \<Rightarrow> 'k tstate" where
  "timer_initialize t s = upd_timer t (\<lambda>_. \<lparr>scheduled_time = 0, periodic_time = 0, callback = 0, t_arg = 0\<rparr>) s"

primrec insert_loop :: "(ptr \<Rightarrow> ktimer) \<Rightarrow> ptr \<Rightarrow> ptr list \<Rightarrow> ptr list" where
  "insert_loop T t [] = [t]"
| "insert_loop T t (entry # es) =
     (if TIME_GT (scheduled_time (T entry)) (scheduled_time (T t)) then t # entry # es else entry # insert_loop T t es)"

definition insert_timer_in_queue :: "nat \<Rightarrow> ptr \<Rightarrow> 'k tstate \<Rightarrow> 'k tstate" where
  "insert_timer_in_queue cpu t s = s\<lparr>timer_queue := (timer_queue s)(cpu := insert_loop (timer_at s) t (timer_queue s cpu))\<rparr>"

definition platform_set_oneshot_timer :: "nat \<Rightarrow> u32 \<Rightarrow> u32 \<Rightarrow> 'k tstate \<Rightarrow> 'k tstate" where
  "platform_set_oneshot_timer cpu now interval s = s\<lparr>hw_timer := (hw_timer s)(cpu := Some (now, interval))\<rparr>"

definition platform_stop_timer :: "nat \<Rightarrow> 'k tstate \<Rightarrow> 'k tstate" where
  "platform_stop_timer cpu s = s\<lparr>hw_timer := (hw_timer s)(cpu := None)\<rparr>"

definition peek_head :: "nat \<Rightarrow> 'k tstate \<Rightarrow> ptr option" where
  "peek_head cpu s = (case timer_queue s cpu of [] \<Rightarrow> None | t # _ \<Rightarrow> Some t)"

text \<open>\<^const>\<open>None\<close> is the panic about a timer that is already set.\<close>

definition timer_set :: "nat \<Rightarrow> u32 \<Rightarrow> ptr \<Rightarrow> u32 \<Rightarrow> u32 \<Rightarrow> ptr \<Rightarrow> ptr \<Rightarrow> 'k tstate \<Rightarrow> 'k tstate option" where
  "timer_set cpu now t delay period cb arg s =
     (if list_in_list t s then None
      else
        let s = upd_timer t (\<lambda>_. \<lparr>scheduled_time = now + delay, periodic_time = period, callback = cb, t_arg = arg\<rparr>) s;
            s = insert_timer_in_queue cpu t s
        in Some (if peek_head cpu s = Some t then platform_set_oneshot_timer cpu now delay s else s))"

definition timer_set_oneshot :: "nat \<Rightarrow> u32 \<Rightarrow> ptr \<Rightarrow> u32 \<Rightarrow> ptr \<Rightarrow> ptr \<Rightarrow> 'k tstate \<Rightarrow> 'k tstate option" where
  "timer_set_oneshot cpu now t delay cb arg s = timer_set cpu now t (if delay = 0 then 1 else delay) 0 cb arg s"

definition timer_set_periodic :: "nat \<Rightarrow> u32 \<Rightarrow> ptr \<Rightarrow> u32 \<Rightarrow> ptr \<Rightarrow> ptr \<Rightarrow> 'k tstate \<Rightarrow> 'k tstate option" where
  "timer_set_periodic cpu now t period cb arg s =
     (let period = (if period = 0 then 1 else period) in timer_set cpu now t period period cb arg s)"

definition timer_cancel :: "nat \<Rightarrow> u32 \<Rightarrow> ptr \<Rightarrow> 'k tstate \<Rightarrow> 'k tstate" where
  "timer_cancel cpu now t s =
     (let oldhead = peek_head cpu s;
          s = (if list_in_list t s then list_delete t s else s);
          s = upd_timer t (\<lambda>x. x\<lparr>periodic_time := 0, callback := 0, t_arg := 0\<rparr>) s
      in case peek_head cpu s of
           None \<Rightarrow> platform_stop_timer cpu s
         | Some h \<Rightarrow>
             if Some h \<noteq> oldhead
             then let sch = scheduled_time (timer_at s h)
                  in platform_set_oneshot_timer cpu now (if TIME_LT sch now then 0 else sch - now) s
             else s)"

type_synonym 'k calls = "ptr \<Rightarrow> ptr \<Rightarrow> u32 \<Rightarrow> ptr \<Rightarrow> 'k tstate \<Rightarrow> int \<times> 'k tstate"

text \<open>The loop of \<^verbatim>\<open>timer_tick\<close>; \<^const>\<open>None\<close> when it does not end.\<close>

definition run_timer :: "'k calls \<Rightarrow> nat \<Rightarrow> u32 \<Rightarrow> ptr \<Rightarrow> 'k tstate \<Rightarrow> int \<times> 'k tstate" where
  "run_timer call cpu now t s =
     (let s = list_delete t s; periodic = periodic_time (timer_at s t) > 0;
          (r, s) = call (callback (timer_at s t)) t now (t_arg (timer_at s t)) s
      in (r, if periodic \<and> \<not> list_in_list t s \<and> periodic_time (timer_at s t) > 0
             then insert_timer_in_queue cpu t (upd_timer t (\<lambda>x. x\<lparr>scheduled_time := now + periodic_time x\<rparr>) s)
             else s))"

partial_function (option) tick_loop :: "'k calls \<Rightarrow> nat \<Rightarrow> u32 \<Rightarrow> int \<Rightarrow> 'k tstate \<Rightarrow> (int \<times> 'k tstate) option" where
  "tick_loop call cpu now ret s =
     (case timer_queue s cpu of
        [] \<Rightarrow> Some (ret, s)
      | t # _ \<Rightarrow>
          if TIME_LT now (scheduled_time (timer_at s t)) then Some (ret, s)
          else
            let p = run_timer call cpu now t s
            in tick_loop call cpu now (if fst p = INT_RESCHEDULE then INT_RESCHEDULE else ret) (snd p))"

datatype 'k tick = Ticked int "'k tstate" | Assert_Failed

definition timer_tick :: "'k calls \<Rightarrow> nat \<Rightarrow> u32 \<Rightarrow> 'k tstate \<Rightarrow> 'k tick option" where
  "timer_tick call cpu now s =
     (case tick_loop call cpu now INT_NO_RESCHEDULE s of
        None \<Rightarrow> None
      | Some (ret, s) \<Rightarrow>
          (case peek_head cpu s of
             None \<Rightarrow> Some (Ticked ret s)
           | Some t \<Rightarrow>
               let sch = scheduled_time (timer_at s t)
               in if \<not> TIME_GT sch now then Some Assert_Failed
                  else Some (Ticked ret (platform_set_oneshot_timer cpu now (sch - now) s))))"

text \<open>The interrupt of the hardware timer, which stops it first.\<close>

definition platform_tick :: "'k calls \<Rightarrow> nat \<Rightarrow> u32 \<Rightarrow> 'k tstate \<Rightarrow> 'k tick option" where
  "platform_tick call cpu now s = timer_tick call cpu now (platform_stop_timer cpu s)"

definition timer_init :: "'k tstate \<Rightarrow> 'k tstate" where
  "timer_init s = s\<lparr>timer_queue := (\<lambda>c. if c < 4 then [] else timer_queue s c)\<rparr>"

section \<open>Preemption timers\<close>

text \<open>
  What the switch from one thread to another does to the preemption timer of the CPU, at the addresses \<open>pt cpu\<close>, with \<open>cb\<close> the address of
  \<^verbatim>\<open>thread_timer_tick\<close>.
\<close>

definition switch_preempt_timer :: "(nat \<Rightarrow> ptr) \<Rightarrow> ptr \<Rightarrow> nat \<Rightarrow> u32 \<Rightarrow> thread \<Rightarrow> thread \<Rightarrow> 'k tstate \<Rightarrow> 'k tstate option" where
  "switch_preempt_timer pt cb cpu now oldthread newthread s =
     (if thread_is_real_time_or_idle newthread
      then if \<not> thread_is_real_time_or_idle oldthread then Some (timer_cancel cpu now (pt cpu) s) else Some s
      else if thread_is_real_time_or_idle oldthread then timer_set_periodic cpu now (pt cpu) 10 cb 0 s
      else Some s)"

text \<open>The part of \<^verbatim>\<open>thread_set_real_time\<close> that stops the preemption of the calling thread.\<close>

definition real_time_preempt_timer :: "(nat \<Rightarrow> ptr) \<Rightarrow> nat \<Rightarrow> u32 \<Rightarrow> bool \<Rightarrow> 'k tstate \<Rightarrow> 'k tstate" where
  "real_time_preempt_timer pt cpu now is_current s = (if is_current then timer_cancel cpu now (pt cpu) s else s)"

section \<open>Order of a wrapping clock\<close>

text \<open>
  \<open>due now T t\<close> is the time until a timer is due, negative when it is late. Timers that are at most \<open>L\<close> late and set less than $2^{31} - L$ ahead
  are ordered by it the way the comparison of 32-bit times orders them.
\<close>

definition due :: "u32 \<Rightarrow> (ptr \<Rightarrow> ktimer) \<Rightarrow> ptr \<Rightarrow> int" where
  "due now T t = sint (scheduled_time (T t) - now)"

definition in_window :: "int \<Rightarrow> u32 \<Rightarrow> (ptr \<Rightarrow> ktimer) \<Rightarrow> ptr \<Rightarrow> bool" where
  "in_window L now T t \<longleftrightarrow> - L \<le> due now T t \<and> due now T t < 2 ^ 31 - L"

definition by_due :: "u32 \<Rightarrow> (ptr \<Rightarrow> ktimer) \<Rightarrow> ptr list \<Rightarrow> bool" where
  "by_due now T q \<longleftrightarrow> sorted_wrt (\<lambda>a b. due now T a \<le> due now T b) q"

lemma sint_diff_u32:
  fixes x y :: u32
  assumes "- (2 ^ 31) \<le> sint x - sint y" "sint x - sint y < 2 ^ 31"
  shows "sint (x - y) = sint x - sint y"
proof -
  have "sint (x - y) = signed_take_bit 31 (sint x - sint y)" by (simp add: sint_word_ariths)
  then show ?thesis using assms by (simp add: signed_take_bit_int_eq_self)
qed

lemma TIME_window:
  assumes "in_window L now T a" "in_window L now T b"
  shows "TIME_GT (scheduled_time (T a)) (scheduled_time (T b)) \<longleftrightarrow> due now T a > due now T b"
proof -
  have "scheduled_time (T a) - scheduled_time (T b) = (scheduled_time (T a) - now) - (scheduled_time (T b) - now)" by simp
  moreover have "sint ((scheduled_time (T a) - now) - (scheduled_time (T b) - now)) = due now T a - due now T b"
    using assms unfolding due_def in_window_def by (intro sint_diff_u32) simp_all
  ultimately show ?thesis by (simp add: TIME_GT_def)
qed

lemma sint_minus_u32: "sint (- x) = - sint x \<or> sint x = - (2 ^ 31) \<and> sint (- x) = - (2 ^ 31)" for x :: u32
proof (cases "sint x = - (2 ^ 31)")
  case True
  then have "x = - (2 ^ 31)" by (intro signed_word_eqI) simp
  then show ?thesis using True by simp
next
  case False
  then have "sint x > - (2 ^ 31)" "sint x < 2 ^ 31" using sint_ge [of x] sint_less [of x] by simp_all
  then show ?thesis using sint_diff_u32 [of 0 x] by simp
qed

lemma TIME_now:
  "TIME_LT now (scheduled_time (T t)) \<longleftrightarrow> due now T t > 0 \<or> due now T t = - (2 ^ 31)"
  "TIME_GT (scheduled_time (T t)) now \<longleftrightarrow> due now T t > 0"
  using sint_minus_u32 [of "scheduled_time (T t) - now"] sint_less [of "now - scheduled_time (T t)"] by (auto simp: TIME_LT_def TIME_GT_def due_def)

lemma insert_loop_set [simp]: "set (insert_loop T t q) = insert t (set q)"
  by (induction q) auto

lemma insert_loop_not_Nil [simp]: "insert_loop T t q \<noteq> []"
  by (cases q) auto

lemma insert_loop_distinct: "t \<notin> set q \<Longrightarrow> distinct q \<Longrightarrow> distinct (insert_loop T t q)"
  by (induction q) auto

lemma insert_loop_cong: "(\<forall>e\<in>insert t (set q). scheduled_time (T e) = scheduled_time (T' e)) \<Longrightarrow> insert_loop T t q = insert_loop T' t q"
  by (induction q) auto

lemma insert_loop_by_due:
  assumes "by_due now T q" "\<forall>e\<in>insert t (set q). in_window L now T e"
  shows "by_due now T (insert_loop T t q)"
  using assms
proof (induction q)
  case (Cons e q)
  have "TIME_GT (scheduled_time (T e)) (scheduled_time (T t)) \<longleftrightarrow> due now T e > due now T t"
    using Cons.prems(2) by (intro TIME_window [of L]) simp_all
  then show ?case using Cons by (auto simp: by_due_def)
qed (simp add: by_due_def)

text \<open>A timer that is due later than the first ones is put behind them.\<close>

lemma insert_loop_append:
  assumes "\<forall>e\<in>set D. in_window L now T e \<and> due now T e \<le> due now T t" "in_window L now T t"
  shows "insert_loop T t (D @ R) = D @ insert_loop T t R"
  using assms
proof (induction D)
  case (Cons e D)
  have "\<not> TIME_GT (scheduled_time (T e)) (scheduled_time (T t))"
    using Cons.prems TIME_window [of L now T e t] by auto
  then show ?case using Cons by simp
qed simp

section \<open>The interrupt\<close>

text \<open>
  The callbacks of the kernel (waking a thread whose wait or sleep is over, counting its quantum) change the rest of the kernel and no timer.
\<close>

type_synonym 'k handler = "ptr \<Rightarrow> ptr \<Rightarrow> u32 \<Rightarrow> ptr \<Rightarrow> 'k \<Rightarrow> int \<times> 'k"

definition quiet :: "'k handler \<Rightarrow> 'k calls" where
  "quiet h cb t now arg s = (case h cb t now arg (kern s) of (r, k) \<Rightarrow> (r, s\<lparr>kern := k\<rparr>))"

primrec fire :: "'k handler \<Rightarrow> u32 \<Rightarrow> (ptr \<Rightarrow> ktimer) \<Rightarrow> ptr list \<Rightarrow> 'k \<Rightarrow> int list \<times> 'k" where
  "fire h now T [] k = ([], k)"
| "fire h now T (t # ts) k =
     (case h (callback (T t)) t now (t_arg (T t)) k of (r, k) \<Rightarrow> (case fire h now T ts k of (rs, k) \<Rightarrow> (r # rs, k)))"

definition restarted :: "u32 \<Rightarrow> ptr set \<Rightarrow> (ptr \<Rightarrow> ktimer) \<Rightarrow> ptr \<Rightarrow> ktimer" where
  "restarted now D T t = (if t \<in> D \<and> periodic_time (T t) > 0 then (T t)\<lparr>scheduled_time := now + periodic_time (T t)\<rparr> else T t)"

definition own_queue :: "nat \<Rightarrow> 'k tstate \<Rightarrow> bool" where
  "own_queue cpu s \<longleftrightarrow> cpu < 4 \<and> distinct (timer_queue s cpu) \<and> (\<forall>c t. c \<noteq> cpu \<and> t \<in> set (timer_queue s cpu) \<longrightarrow> t \<notin> set (timer_queue s c))"

lemma list_in_list_iff: "list_in_list t s \<longleftrightarrow> (\<exists>c<4. t \<in> set (timer_queue s c))"
  by (auto simp: list_in_list_def list_ex_iff)

lemma run_timer_quiet:
  assumes "own_queue cpu s" "timer_queue s cpu = t # q"
  defines "T \<equiv> timer_at s"
  assumes k_def: "k = h (callback (timer_at s t)) t now (t_arg (timer_at s t)) (kern s)"
  shows "run_timer (quiet h) cpu now t s = (fst k, s\<lparr>kern := snd k, timer_at := restarted now {t} T,
    timer_queue := (timer_queue s)(cpu := (if periodic_time (T t) > 0 then insert_loop (restarted now {t} T) t q else q))\<rparr>)"
proof -
  have q: "(\<lambda>c. remove1 t (timer_queue s c)) = (timer_queue s)(cpu := q)"
    using assms(1,2) by (auto simp: own_queue_def fun_eq_iff remove1_idem)
  have n: "\<not> list_in_list t (s\<lparr>timer_queue := (timer_queue s)(cpu := q), kern := x\<rparr>)" for x
    using assms(1,2) by (auto simp: own_queue_def list_in_list_iff)
  have r: "restarted now {t} T = (if periodic_time (T t) > 0 then T(t := (T t)\<lparr>scheduled_time := now + periodic_time (T t)\<rparr>) else T)"
    by (auto simp: restarted_def fun_eq_iff)
  show ?thesis
    using n by (cases k)
      (simp add: run_timer_def list_delete_def q quiet_def k_def T_def r [unfolded T_def] upd_timer_def insert_timer_in_queue_def)
qed

lemma restarted_periodic [simp]: "periodic_time (restarted now D T t) = periodic_time (T t)"
  by (simp add: restarted_def)

lemma sint_small_u32: "uint x < 2 ^ 31 \<Longrightarrow> sint x = uint x" for x :: u32
proof -
  assume "uint x < 2 ^ 31"
  moreover have "- (2 ^ 31) \<le> uint x" by (rule order_trans [OF _ uint_ge_0]) simp
  ultimately show ?thesis by (simp add: sint_uint signed_take_bit_int_eq_self)
qed

lemma due_restarted:
  assumes "uint (periodic_time (T t)) < 2 ^ 31" "periodic_time (T t) > 0" "t \<in> D"
  shows "due now (restarted now D T) t = uint (periodic_time (T t))"
  using assms sint_small_u32 [of "periodic_time (T t)"] by (simp add: due_def restarted_def)

lemma due_not_restarted: "t \<notin> D \<or> periodic_time (T t) = 0 \<Longrightarrow> due now (restarted now D T) t = due now T t"
  by (auto simp: due_def restarted_def)

lemma fire_cong: "(\<forall>t\<in>set D. callback (T t) = callback (T' t) \<and> t_arg (T t) = t_arg (T' t)) \<Longrightarrow> fire h now T D k = fire h now T' D k"
  by (induction D arbitrary: k) (auto split: prod.split)

lemma fire_restarted [simp]: "fire h now (restarted now E T) D k = fire h now T D k"
  by (rule fire_cong) (simp add: restarted_def)

lemma restarted_compose: "restarted now D (restarted now {t} T) = restarted now (insert t D) T"
  by (auto simp: restarted_def fun_eq_iff)

text \<open>
  A queue is in order when its first part \<open>D\<close> is due and the rest \<open>R\<close> is not; the periods of the timers that are due are below the window.
\<close>

definition split_queue :: "int \<Rightarrow> u32 \<Rightarrow> nat \<Rightarrow> ptr list \<Rightarrow> ptr list \<Rightarrow> 'k tstate \<Rightarrow> bool" where
  "split_queue L now cpu D R s \<longleftrightarrow> own_queue cpu s \<and> timer_queue s cpu = D @ R \<and> by_due now (timer_at s) R \<and>
     (\<forall>t\<in>set D. due now (timer_at s) t \<le> 0 \<and> uint (periodic_time (timer_at s t)) < 2 ^ 31 - L) \<and>
     (\<forall>t\<in>set R. due now (timer_at s) t > 0) \<and> (\<forall>t\<in>set D \<union> set R. in_window L now (timer_at s) t)"

lemma by_due_cong: "(\<forall>u\<in>set q. due now T u = due now T' u) \<Longrightarrow> by_due now T q = by_due now T' q"
  by (induction q) (auto simp: by_due_def)

lemma split_queue_step:
  assumes "split_queue L now cpu (t # D) R s" "0 \<le> L" "L < 2 ^ 31"
    and s'_def: "s' = snd (run_timer (quiet h) cpu now t s)"
  shows "\<exists>R'. split_queue L now cpu D R' s' \<and> set R' = set R \<union> {u. u = t \<and> periodic_time (timer_at s t) > 0}"
proof -
  let ?T = "timer_at s" and ?p = "periodic_time (timer_at s t) > 0" and ?T' = "restarted now {t} (timer_at s)"
  note a = assms(1) [unfolded split_queue_def own_queue_def]
  have o: "own_queue cpu s" "timer_queue s cpu = t # (D @ R)" using assms(1) by (auto simp: split_queue_def)
  have nt: "t \<notin> set D" "t \<notin> set R" "distinct (D @ R)" using a by auto
  have T': "?T' u = ?T u" if "u \<noteq> t" for u using that by (simp add: restarted_def)
  have s': "timer_at s' = ?T'" "timer_queue s' = (timer_queue s)(cpu := if ?p then insert_loop ?T' t (D @ R) else D @ R)"
    unfolding s'_def run_timer_quiet [OF o refl] by simp_all
  have old: "due now ?T' u = due now ?T u" "in_window L now ?T' u = in_window L now ?T u" if "u \<noteq> t" for u
    using T' [OF that] by (simp_all add: due_def in_window_def)
  have same: "\<forall>u\<in>set D \<union> set R. due now ?T' u = due now ?T u" using nt old(1) by fastforce
  have win: "\<forall>u\<in>set D \<union> set R. in_window L now ?T' u" using a old nt by fastforce
  have new: "due now ?T' t > 0 \<and> in_window L now ?T' t" if ?p
  proof -
    have "uint (periodic_time (?T t)) > 0" using that by (simp add: word_less_def)
    moreover have "due now ?T' t = uint (periodic_time (?T t))"
      using a assms(2) that by (intro due_restarted) simp_all
    ultimately show ?thesis using a assms(2) by (simp add: in_window_def)
  qed
  let ?R = "if ?p then insert_loop ?T' t R else R"
  have q: "timer_queue s' cpu = D @ ?R"
  proof (cases ?p)
    case True
    have "\<forall>e\<in>set D. in_window L now ?T' e \<and> due now ?T' e \<le> due now ?T' t"
      using a old nt new [OF True] win by fastforce
    then show ?thesis using insert_loop_append [of D L now ?T' t R] new [OF True] True by (simp add: s')
  qed (simp add: s')
  have "by_due now ?T' R" using a nt(2) by_due_cong [of R now ?T' ?T] old(1) by metis
  then have "by_due now ?T' ?R" using new win by (auto intro!: insert_loop_by_due)
  moreover have "own_queue cpu s'" using a nt by (auto simp: own_queue_def s' q [unfolded s'] intro!: insert_loop_distinct split: if_splits)
  ultimately have "split_queue L now cpu D ?R s'"
    using a same new win q by (auto simp: split_queue_def s'(1) split: if_splits)
  then show ?thesis by (intro exI [of _ ?R]) auto
qed

lemma tick_loop_quiet:
  assumes "split_queue L now cpu D R s" "0 \<le> L" "L < 2 ^ 31"
  shows "\<exists>R' s'. tick_loop (quiet h) cpu now ret s =
      Some (if INT_RESCHEDULE \<in> set (fst (fire h now (timer_at s) D (kern s))) then INT_RESCHEDULE else ret, s') \<and>
    split_queue L now cpu [] R' s' \<and> set R' = set R \<union> {t\<in>set D. periodic_time (timer_at s t) > 0} \<and>
    kern s' = snd (fire h now (timer_at s) D (kern s)) \<and> timer_at s' = restarted now (set D) (timer_at s) \<and>
    (\<forall>c. c \<noteq> cpu \<longrightarrow> timer_queue s' c = timer_queue s c) \<and> hw_timer s' = hw_timer s"
  using assms(1)
proof (induction D arbitrary: R s ret)
  case Nil
  have "TIME_LT now (scheduled_time (timer_at s t))" if "timer_queue s cpu = t # q" for t q
  proof -
    have "R = t # q" using Nil that by (simp add: split_queue_def)
    then show ?thesis using Nil by (simp add: split_queue_def TIME_now)
  qed
  then have "tick_loop (quiet h) cpu now ret s = Some (ret, s)"
    by (subst tick_loop.simps) (simp split: list.split)
  moreover have "restarted now {} (timer_at s) = timer_at s" by (simp add: restarted_def fun_eq_iff)
  ultimately show ?case using Nil by (intro exI [of _ R] exI [of _ s]) simp
next
  case (Cons t D)
  let ?k = "h (callback (timer_at s t)) t now (t_arg (timer_at s t)) (kern s)"
  define s1 where "s1 = snd (run_timer (quiet h) cpu now t s)"
  obtain R1 where R1: "split_queue L now cpu D R1 s1" "set R1 = set R \<union> {u. u = t \<and> periodic_time (timer_at s t) > 0}"
    using split_queue_step [OF Cons.prems assms(2,3) s1_def] by blast
  have q: "own_queue cpu s" "timer_queue s cpu = t # (D @ R)" "due now (timer_at s) t \<le> 0" "due now (timer_at s) t \<ge> - L" "t \<notin> set D"
    using Cons.prems by (auto simp: split_queue_def in_window_def own_queue_def)
  have run: "fst (run_timer (quiet h) cpu now t s) = fst ?k" "kern s1 = snd ?k" "timer_at s1 = restarted now {t} (timer_at s)"
    "hw_timer s1 = hw_timer s" "\<forall>c. c \<noteq> cpu \<longrightarrow> timer_queue s1 c = timer_queue s c"
    unfolding s1_def run_timer_quiet [OF q(1,2) refl] by simp_all
  have "\<not> TIME_LT now (scheduled_time (timer_at s t))" using q(3,4) assms(3) by (simp add: TIME_now)
  then have step: "tick_loop (quiet h) cpu now ret s = tick_loop (quiet h) cpu now (if fst ?k = INT_RESCHEDULE then INT_RESCHEDULE else ret) s1"
    by (subst tick_loop.simps) (simp add: q(2) run(1) s1_def Let_def)
  obtain R' s' where ih: "tick_loop (quiet h) cpu now (if fst ?k = INT_RESCHEDULE then INT_RESCHEDULE else ret) s1 =
      Some (if INT_RESCHEDULE \<in> set (fst (fire h now (timer_at s1) D (kern s1))) then INT_RESCHEDULE
        else if fst ?k = INT_RESCHEDULE then INT_RESCHEDULE else ret, s')"
    "split_queue L now cpu [] R' s'" "set R' = set R1 \<union> {t\<in>set D. periodic_time (timer_at s1 t) > 0}"
    "kern s' = snd (fire h now (timer_at s1) D (kern s1))" "timer_at s' = restarted now (set D) (timer_at s1)"
    "\<forall>c. c \<noteq> cpu \<longrightarrow> timer_queue s' c = timer_queue s1 c" "hw_timer s' = hw_timer s1"
    using Cons.IH [OF R1(1)] by blast
  have f: "fire h now (timer_at s) (t # D) (kern s) = (fst ?k # fst (fire h now (timer_at s1) D (kern s1)), snd (fire h now (timer_at s1) D (kern s1)))"
    by (simp add: run(2,3) split: prod.split)
  have "set R' = set R \<union> {u\<in>set (t # D). periodic_time (timer_at s u) > 0}"
    using ih(3) R1(2) by (auto simp: run(3))
  then show ?case
    using ih step run(4,5) unfolding f by (intro exI [of _ R'] exI [of _ s']) (simp add: run(3) restarted_compose)
qed

lemma filter_split_sorted:
  assumes "by_due now T q"
  shows "q = filter (\<lambda>t. due now T t \<le> 0) q @ filter (\<lambda>t. due now T t > 0) q"
  using assms
proof (induction q)
  case (Cons t q)
  then have "filter (\<lambda>t. due now T t \<le> 0) q = []" if "due now T t > 0" using that by (auto simp: by_due_def filter_empty_conv)
  then show ?case using Cons by (cases "due now T t > 0") (auto simp: by_due_def)
qed simp

lemma timer_tick_effect:
  assumes "cpu < 4" "0 \<le> L" "L < 2 ^ 31" "own_queue cpu s" "by_due now (timer_at s) (timer_queue s cpu)"
    "\<forall>t\<in>set (timer_queue s cpu). in_window L now (timer_at s) t \<and> uint (periodic_time (timer_at s t)) < 2 ^ 31 - L"
  defines "D \<equiv> filter (\<lambda>t. due now (timer_at s) t \<le> 0) (timer_queue s cpu)"
  defines "T' \<equiv> restarted now (set D) (timer_at s)"
  shows "\<exists>s'. timer_tick (quiet h) cpu now s =
      Some (Ticked (if INT_RESCHEDULE \<in> set (fst (fire h now (timer_at s) D (kern s))) then INT_RESCHEDULE else INT_NO_RESCHEDULE) s') \<and>
    kern s' = snd (fire h now (timer_at s) D (kern s)) \<and> timer_at s' = T' \<and>
    set (timer_queue s' cpu) = {t\<in>set (timer_queue s cpu). due now (timer_at s) t > 0 \<or> periodic_time (timer_at s t) > 0} \<and>
    distinct (timer_queue s' cpu) \<and> by_due now T' (timer_queue s' cpu) \<and> (\<forall>t\<in>set (timer_queue s' cpu). due now T' t > 0 \<and> in_window L now T' t) \<and>
    (\<forall>c. c \<noteq> cpu \<longrightarrow> timer_queue s' c = timer_queue s c \<and> hw_timer s' c = hw_timer s c) \<and>
    hw_timer s' cpu = (case timer_queue s' cpu of [] \<Rightarrow> hw_timer s cpu | t # _ \<Rightarrow> Some (now, scheduled_time (T' t) - now))"
proof -
  let ?q = "timer_queue s cpu" and ?T = "timer_at s"
  define R where "R = filter (\<lambda>t. due now ?T t > 0) ?q"
  have DR: "?q = D @ R" using filter_split_sorted [OF assms(5)] by (simp add: D_def R_def)
  have "by_due now ?T R" unfolding R_def using assms(5) by (simp add: by_due_def sorted_wrt_filter)
  moreover have "\<forall>t\<in>set D. due now ?T t \<le> 0 \<and> t \<in> set ?q" "\<forall>t\<in>set R. due now ?T t > 0 \<and> t \<in> set ?q"
    by (simp_all add: D_def R_def)
  ultimately have "split_queue L now cpu D R s"
    using assms(4,6) DR unfolding split_queue_def by blast
  from tick_loop_quiet [OF this assms(2,3), where ret = INT_NO_RESCHEDULE and h = h] obtain R' s1 where
    l: "tick_loop (quiet h) cpu now INT_NO_RESCHEDULE s =
      Some (if INT_RESCHEDULE \<in> set (fst (fire h now ?T D (kern s))) then INT_RESCHEDULE else INT_NO_RESCHEDULE, s1)"
    and R': "split_queue L now cpu [] R' s1" "set R' = set R \<union> {t\<in>set D. periodic_time (?T t) > 0}"
    and s1: "kern s1 = snd (fire h now ?T D (kern s))" "timer_at s1 = T'" "\<forall>c. c \<noteq> cpu \<longrightarrow> timer_queue s1 c = timer_queue s c" "hw_timer s1 = hw_timer s"
    unfolding T'_def by blast
  have q1: "timer_queue s1 cpu = R'" "distinct R'" "by_due now T' R'" "\<forall>t\<in>set R'. due now T' t > 0 \<and> in_window L now T' t"
    using R'(1) by (auto simp: split_queue_def own_queue_def s1(2))
  have set': "set R' = {t\<in>set ?q. due now ?T t > 0 \<or> periodic_time (?T t) > 0}" by (auto simp: R'(2) R_def D_def)
  then have pos: "\<forall>t. t \<in> set ?q \<and> (due now ?T t > 0 \<or> periodic_time (?T t) > 0) \<longrightarrow> due now T' t > 0 \<and> in_window L now T' t" using q1(4) by auto
  show ?thesis
  proof (cases R')
    case Nil
    then show ?thesis using l q1 s1 set' by (intro exI [of _ s1]) (simp add: timer_tick_def peek_head_def)
  next
    case (Cons t r)
    then have "TIME_GT (scheduled_time (T' t)) now" using q1(4) by (simp add: TIME_now)
    then show ?thesis using Cons l q1 s1 set' pos
      by (intro exI [of _ "platform_set_oneshot_timer cpu now (scheduled_time (T' t) - now) s1"])
        (simp add: timer_tick_def peek_head_def platform_set_oneshot_timer_def Let_def)
  qed
qed

section \<open>All CPUs over time\<close>

text \<open>
  The time until the hardware timer of a CPU expires; the invariant: every queue is in order, and the hardware timer of a CPU with timers is set to
  expire when the first of them is due, or at once when it is late.
\<close>

definition hwdue :: "u32 \<Rightarrow> u32 \<times> u32 \<Rightarrow> int" where
  "hwdue now d = sint (fst d + snd d - now)"

definition queue_inv :: "int \<Rightarrow> u32 \<Rightarrow> 'k tstate \<Rightarrow> nat \<Rightarrow> bool" where
  "queue_inv L now s c \<longleftrightarrow> own_queue c s \<and> by_due now (timer_at s) (timer_queue s c) \<and>
     (\<forall>t\<in>set (timer_queue s c). in_window L now (timer_at s) t \<and> uint (periodic_time (timer_at s t)) < 2 ^ 31 - L)"

definition armed_for :: "int \<Rightarrow> u32 \<Rightarrow> 'k tstate \<Rightarrow> nat \<Rightarrow> bool" where
  "armed_for L now s c \<longleftrightarrow>
     (case hw_timer s c of None \<Rightarrow> timer_queue s c = []
      | Some d \<Rightarrow> - L \<le> hwdue now d \<and> hwdue now d < 2 ^ 31 - L \<and> (\<forall>t\<in>set (timer_queue s c). hwdue now d \<le> max 0 (due now (timer_at s) t)))"

definition timers_inv :: "int \<Rightarrow> u32 \<Rightarrow> 'k tstate \<Rightarrow> bool" where
  "timers_inv L now s \<longleftrightarrow> (\<forall>c<4. queue_inv L now s c \<and> armed_for L now s c) \<and> (\<forall>c\<ge>4. timer_queue s c = [])"

text \<open>
  Steps: timers are set and cancelled on any CPU, interrupts of the hardware run, and time passes, but never so far that a timer or an
  expired hardware timer is more than \<open>L\<close> late.
\<close>

inductive clock_step :: "int \<Rightarrow> 'k handler \<Rightarrow> u32 \<times> 'k tstate \<Rightarrow> u32 \<times> 'k tstate \<Rightarrow> bool" for L h where
  set_timer: "cpu < 4 \<Longrightarrow> 0 < delay \<Longrightarrow> uint delay < 2 ^ 31 - L \<Longrightarrow> uint period < 2 ^ 31 - L \<Longrightarrow>
    timer_set cpu now t delay period cb arg s = Some s' \<Longrightarrow> clock_step L h (now, s) (now, s')"
| cancel: "cpu < 4 \<Longrightarrow> clock_step L h (now, s) (now, timer_cancel cpu now t s)"
| tick: "cpu < 4 \<Longrightarrow> platform_tick (quiet h) cpu now s = Some (Ticked r s') \<Longrightarrow> clock_step L h (now, s) (now, s')"
| pass: "0 \<le> d \<Longrightarrow> \<forall>c<4. \<forall>t\<in>set (timer_queue s c). - L \<le> due now (timer_at s) t - d \<Longrightarrow>
    \<forall>c<4. \<forall>x. hw_timer s c = Some x \<longrightarrow> - L \<le> hwdue now x - d \<Longrightarrow> clock_step L h (now, s) (now + word_of_int d, s)"

lemma sint_pass:
  fixes x :: u32
  assumes "0 \<le> d" "- L \<le> sint x - d" "L < 2 ^ 31"
  shows "sint (x - word_of_int d) = sint x - d"
proof -
  have "x - word_of_int d = word_of_int (sint x - d)" by (simp add: scast_id)
  then have "sint (x - word_of_int d) = signed_take_bit 31 (sint x - d)" by (simp add: sint_sbintrunc' del: of_int_diff)
  moreover have "sint x < 2 ^ 31" using sint_less [of x] by simp
  ultimately show ?thesis using assms by (simp add: signed_take_bit_int_eq_self)
qed

lemma pass_inv:
  assumes "timers_inv L now s" "0 \<le> L" "L < 2 ^ 31" "0 \<le> d" "\<forall>c<4. \<forall>t\<in>set (timer_queue s c). - L \<le> due now (timer_at s) t - d"
    "\<forall>c<4. \<forall>x. hw_timer s c = Some x \<longrightarrow> - L \<le> hwdue now x - d"
  shows "timers_inv L (now + word_of_int d) s"
proof -
  let ?n = "now + word_of_int d"
  have "queue_inv L ?n s c \<and> armed_for L ?n s c" if c: "c < 4" for c
  proof -
    let ?T = "timer_at s" and ?q = "timer_queue s c"
    have t: "due ?n ?T t = due now ?T t - d" if "t \<in> set ?q" for t
      using that c assms(3-5) sint_pass [of d L "scheduled_time (?T t) - now"] by (auto simp: due_def diff_diff_eq)
    have w: "hwdue ?n x = hwdue now x - d" if "hw_timer s c = Some x" for x
      using that c assms(3,4,6) sint_pass [of d L "fst x + snd x - now"] by (auto simp: hwdue_def diff_diff_eq)
    have i: "queue_inv L now s c" "armed_for L now s c" using assms(1) c by (auto simp: timers_inv_def)
    have "by_due ?n ?T ?q" using i(1) t by (auto simp: queue_inv_def by_due_def intro: sorted_wrt_mono_rel [rotated])
    then have "queue_inv L ?n s c" using i(1) t c assms(4,5) by (auto simp: queue_inv_def in_window_def)
    moreover have "armed_for L ?n s c" using i(2) t w c assms(4,6) by (fastforce simp: armed_for_def split: option.splits)
    ultimately show ?thesis by blast
  qed
  then show ?thesis using assms(1) by (simp add: timers_inv_def)
qed

lemma timers_inv_D:
  assumes "timers_inv L now s" "c < 4"
  shows "distinct (timer_queue s c)" "\<And>c' t. c' \<noteq> c \<Longrightarrow> t \<in> set (timer_queue s c) \<Longrightarrow> t \<notin> set (timer_queue s c')"
    "by_due now (timer_at s) (timer_queue s c)" "\<And>t. t \<in> set (timer_queue s c) \<Longrightarrow> in_window L now (timer_at s) t"
    "\<And>t. t \<in> set (timer_queue s c) \<Longrightarrow> uint (periodic_time (timer_at s t)) < 2 ^ 31 - L" "armed_for L now s c" "own_queue c s"
  using assms by (auto simp: timers_inv_def queue_inv_def own_queue_def)

text \<open>The queue of a CPU and its timers are what its part of the invariant depends on.\<close>

lemma queue_inv_frame:
  assumes "queue_inv L now s c" "timer_queue s' c = timer_queue s c" "\<forall>t\<in>set (timer_queue s c). timer_at s' t = timer_at s t"
    "\<forall>c' t. c' \<noteq> c \<and> t \<in> set (timer_queue s c) \<longrightarrow> t \<notin> set (timer_queue s' c')"
  shows "queue_inv L now s' c"
proof -
  have d: "\<forall>t\<in>set (timer_queue s c). due now (timer_at s') t = due now (timer_at s) t" using assms(3) by (simp add: due_def)
  then have "by_due now (timer_at s') (timer_queue s c)" using assms(1) by_due_cong [of "timer_queue s c"] by (auto simp: queue_inv_def)
  then show ?thesis using assms d by (auto simp: queue_inv_def own_queue_def in_window_def)
qed

lemma armed_frame:
  assumes "armed_for L now s c" "hw_timer s' c = hw_timer s c" "set (timer_queue s' c) \<subseteq> set (timer_queue s c)"
    "\<forall>t\<in>set (timer_queue s' c). scheduled_time (timer_at s' t) = scheduled_time (timer_at s t)"
  shows "armed_for L now s' c"
  using assms by (auto simp: armed_for_def due_def split: option.splits)

lemma set_inv:
  assumes "timers_inv L now s" "0 \<le> L" "L < 2 ^ 31" "cpu < 4" "0 < delay" "uint delay < 2 ^ 31 - L" "uint period < 2 ^ 31 - L"
    "timer_set cpu now t delay period cb arg s = Some s'"
  shows "timers_inv L now s'"
proof -
  let ?T = "(timer_at s)(t := \<lparr>scheduled_time = now + delay, periodic_time = period, callback = cb, t_arg = arg\<rparr>)" and ?q = "timer_queue s cpu"
  have n: "\<not> list_in_list t s" using assms(8) by (auto simp: timer_set_def split: if_splits)
  have nq: "t \<notin> set (timer_queue s c)" for c using n assms(1) by (cases "c < 4") (auto simp: list_in_list_iff timers_inv_def)
  have s': "timer_at s' = ?T" "timer_queue s' = (timer_queue s)(cpu := insert_loop ?T t ?q)"
    "hw_timer s' = (if hd (insert_loop ?T t ?q) = t then (hw_timer s)(cpu := Some (now, delay)) else hw_timer s)"
    using assms(8) n by (auto simp: timer_set_def Let_def upd_timer_def insert_timer_in_queue_def platform_set_oneshot_timer_def peek_head_def
        split: list.splits if_splits)
  note d = timers_inv_D [OF assms(1)]
  have small: "sint delay = uint delay" using assms(2,6) by (intro sint_small_u32) simp
  then have t: "due now ?T t = uint delay" "in_window L now ?T t"
    using assms(2,5,6) by (auto simp: due_def in_window_def word_less_def)
  have same: "due now ?T u = due now (timer_at s) u" "in_window L now ?T u = in_window L now (timer_at s) u" if "u \<noteq> t" for u
    using that by (simp_all add: due_def in_window_def)
  have old: "\<forall>u\<in>set ?q. due now ?T u = due now (timer_at s) u \<and> in_window L now ?T u" using same d(4) [OF assms(4)] nq by metis
  then have "by_due now ?T ?q" using d(3) [OF assms(4)] by_due_cong [of ?q now ?T "timer_at s"] by blast
  then have b: "by_due now ?T (insert_loop ?T t ?q)" using old t by (intro insert_loop_by_due [of _ _ _ _ L]) auto
  have "queue_inv L now s' cpu"
    using b t old nq d(1,2,5) [OF assms(4)] assms(4,7) by (auto simp: queue_inv_def own_queue_def s' insert_loop_distinct)
  moreover have "armed_for L now s' cpu"
  proof (cases "hd (insert_loop ?T t ?q) = t")
    case True
    have "due now ?T t \<le> due now ?T u" if "u \<in> set (insert_loop ?T t ?q)" for u
      using b that True by (cases "insert_loop ?T t ?q") (auto simp: by_due_def)
    then have "hwdue now (now, delay) \<le> max 0 (due now ?T u)" if "u \<in> set (insert_loop ?T t ?q)" for u
      using that t(1) small by (fastforce simp: hwdue_def)
    moreover have "hwdue now (now, delay) = uint delay" using small by (simp add: hwdue_def)
    moreover have "- L \<le> uint delay" by (rule order_trans [OF _ uint_ge_0]) (use assms(2) in simp)
    ultimately show ?thesis using True assms(6) by (simp add: armed_for_def s')
  next
    case False
    then obtain e r where q: "?q = e # r" by (cases ?q) auto
    with False have "due now ?T e \<le> due now ?T t" using b by (auto simp: by_due_def split: if_splits)
    moreover obtain x where "hw_timer s cpu = Some x" "- L \<le> hwdue now x" "hwdue now x < 2 ^ 31 - L"
      "\<forall>u\<in>set ?q. hwdue now x \<le> max 0 (due now (timer_at s) u)"
      using d(6) [OF assms(4)] q by (auto simp: armed_for_def split: option.splits)
    moreover have "hwdue now x \<le> max 0 (due now ?T t)" if "hwdue now x \<le> max 0 (due now (timer_at s) e)" "due now ?T e \<le> due now ?T t" for x
      using that old q by (auto simp: max_def split: if_splits)
    ultimately show ?thesis using False old q by (auto simp: armed_for_def s')
  qed
  moreover have "queue_inv L now s' c \<and> armed_for L now s' c" if c: "c < 4" "c \<noteq> cpu" for c
  proof
    have "u \<noteq> t" if "u \<in> set (timer_queue s c)" for u using that nq by blast
    then have T: "\<forall>u\<in>set (timer_queue s c). timer_at s' u = timer_at s u" by (simp add: s')
    have "queue_inv L now s c" using assms(1) c(1) by (simp add: timers_inv_def)
    then show "queue_inv L now s' c"
      by (rule queue_inv_frame) (use c T nq d(2) [OF c(1)] in \<open>auto simp: s'\<close>)
    show "armed_for L now s' c" using T c by (intro armed_frame [OF d(6) [OF c(1)]]) (simp_all add: s')
  qed
  ultimately show ?thesis using assms(1,4) by (auto simp: timers_inv_def s')
qed

lemma remove1_by_due: "distinct q \<Longrightarrow> by_due now T q \<Longrightarrow> by_due now T (remove1 t q)"
  by (simp add: distinct_remove1_removeAll removeAll_filter_not_eq by_due_def sorted_wrt_filter)

lemma cancel_fields:
  fixes cpu :: nat and t :: ptr
  assumes "timers_inv L now s"
  defines "s' \<equiv> timer_cancel cpu now t s" and "Q \<equiv> \<lambda>c. remove1 t (timer_queue s c)"
  shows "timer_queue s' = Q" "scheduled_time (timer_at s' u) = scheduled_time (timer_at s u)"
    "periodic_time (timer_at s' u) = (if u = t then 0 else periodic_time (timer_at s u))"
    "hw_timer s' = (case Q cpu of [] \<Rightarrow> (hw_timer s)(cpu := None)
      | h # _ \<Rightarrow> if peek_head cpu s \<noteq> Some h
          then (hw_timer s)(cpu := Some (now, if due now (timer_at s) h < 0 then 0 else scheduled_time (timer_at s h) - now)) else hw_timer s)"
proof -
  have "timer_queue s = Q" if "\<not> list_in_list t s"
  proof
    fix c show "timer_queue s c = Q c"
      using that assms(1) by (cases "c < 4") (auto simp: Q_def list_in_list_iff timers_inv_def remove1_idem)
  qed
  then have q: "(if list_in_list t s then list_delete t s else s) = s\<lparr>timer_queue := Q\<rparr>" by (simp add: list_delete_def Q_def)
  show "timer_queue s' = Q" "scheduled_time (timer_at s' u) = scheduled_time (timer_at s u)"
    "periodic_time (timer_at s' u) = (if u = t then 0 else periodic_time (timer_at s u))"
    "hw_timer s' = (case Q cpu of [] \<Rightarrow> (hw_timer s)(cpu := None)
      | h # _ \<Rightarrow> if peek_head cpu s \<noteq> Some h
          then (hw_timer s)(cpu := Some (now, if due now (timer_at s) h < 0 then 0 else scheduled_time (timer_at s h) - now)) else hw_timer s)"
    unfolding s'_def timer_cancel_def q
    by (auto simp: upd_timer_def peek_head_def platform_stop_timer_def platform_set_oneshot_timer_def Let_def TIME_LT_def due_def split: list.splits)
qed

lemma cancel_inv:
  assumes "timers_inv L now s" "0 \<le> L" "L < 2 ^ 31" "cpu < 4"
  shows "timers_inv L now (timer_cancel cpu now t s)"
proof -
  let ?s = "timer_cancel cpu now t s" and ?Q = "\<lambda>c. remove1 t (timer_queue s c)"
  note f = cancel_fields [OF assms(1), of cpu t]
  have due: "due now (timer_at ?s) u = due now (timer_at s) u" "in_window L now (timer_at ?s) u = in_window L now (timer_at s) u" for u
    by (simp_all add: due_def in_window_def f(2))
  have sub: "set (?Q c) \<subseteq> set (timer_queue s c)" for c by (rule set_remove1_subset)
  have "queue_inv L now ?s c \<and> armed_for L now ?s c" if c: "c < 4" for c
  proof
    note d = timers_inv_D [OF assms(1) c]
    have "by_due now (timer_at ?s) (?Q c)" using remove1_by_due [OF d(1,3)] by (simp add: by_due_def due)
    moreover have "own_queue c ?s" using d(1,2) c sub by (fastforce simp: own_queue_def f(1))
    moreover have "uint (periodic_time (timer_at ?s u)) < 2 ^ 31 - L" if "u \<in> set (?Q c)" for u
      using d(5) that sub assms(3) by (auto simp: f(3))
    ultimately show "queue_inv L now ?s c" using d(4) sub by (auto simp: queue_inv_def f(1) due)
    show "armed_for L now ?s c"
    proof (cases "hw_timer ?s c = hw_timer s c")
      case True
      show ?thesis by (rule armed_frame [OF d(6) True]) (use sub [of c] in \<open>simp_all add: f(1,2)\<close>)
    next
      case False
      then have "c = cpu" by (auto simp: f(4) split: list.splits if_splits)
      show ?thesis
      proof (cases "?Q cpu")
        case Nil
        then show ?thesis using \<open>c = cpu\<close> by (simp add: armed_for_def f(1,4))
      next
        case (Cons h r)
        let ?x = "(now, if due now (timer_at s) h < 0 then 0 else scheduled_time (timer_at s h) - now)"
        have hw: "hw_timer ?s c = Some ?x" using False Cons \<open>c = cpu\<close> by (auto simp: f(4) split: if_splits)
        have "hwdue now ?x = max 0 (due now (timer_at s) h)" by (simp add: hwdue_def due_def)
        moreover have "due now (timer_at s) h \<le> due now (timer_at s) u" if "u \<in> set (?Q cpu)" for u
          using remove1_by_due [OF d(1,3), of t] that Cons \<open>c = cpu\<close> by (auto simp: by_due_def)
        moreover have "due now (timer_at s) h < 2 ^ 31 - L" using d(4) [of h] sub [of cpu] Cons \<open>c = cpu\<close> by (auto simp: in_window_def)
        ultimately have "hwdue now ?x < 2 ^ 31 - L \<and> - L \<le> hwdue now ?x \<and> (\<forall>u\<in>set (?Q cpu). hwdue now ?x \<le> max 0 (due now (timer_at s) u))"
          using assms(2,3) by (simp add: max.coboundedI2)
        then show ?thesis using hw \<open>c = cpu\<close> by (simp add: armed_for_def f(1) due)
      qed
    qed
  qed
  then show ?thesis using assms(1) by (simp add: timers_inv_def f(1))
qed

lemma tick_inv:
  assumes "timers_inv L now s" "0 \<le> L" "L < 2 ^ 31" "cpu < 4"
  shows "\<exists>r s'. platform_tick (quiet h) cpu now s = Some (Ticked r s') \<and> timers_inv L now s'"
proof -
  let ?s = "platform_stop_timer cpu s"
  define D where "D = filter (\<lambda>t. due now (timer_at s) t \<le> 0) (timer_queue s cpu)"
  let ?T = "restarted now (set D) (timer_at s)"
  have st: "timer_at ?s = timer_at s" "timer_queue ?s = timer_queue s" "own_queue cpu ?s = own_queue cpu s" "hw_timer ?s = (hw_timer s)(cpu := None)"
    by (simp_all add: platform_stop_timer_def own_queue_def)
  note d = timers_inv_D [OF assms(1)]
  have p: "own_queue cpu ?s" "by_due now (timer_at ?s) (timer_queue ?s cpu)"
    "\<forall>t\<in>set (timer_queue ?s cpu). in_window L now (timer_at ?s) t \<and> uint (periodic_time (timer_at ?s t)) < 2 ^ 31 - L"
    using d(3-5,7) [OF assms(4)] by (simp_all add: st)
  obtain r s' where tick: "timer_tick (quiet h) cpu now ?s = Some (Ticked r s')" and T: "timer_at s' = ?T"
    and q: "set (timer_queue s' cpu) = {t\<in>set (timer_queue s cpu). due now (timer_at s) t > 0 \<or> periodic_time (timer_at s t) > 0}"
      "distinct (timer_queue s' cpu)" "by_due now ?T (timer_queue s' cpu)" "\<forall>t\<in>set (timer_queue s' cpu). due now ?T t > 0 \<and> in_window L now ?T t"
    and o: "\<forall>c. c \<noteq> cpu \<longrightarrow> timer_queue s' c = timer_queue s c \<and> hw_timer s' c = hw_timer ?s c"
    and hw: "hw_timer s' cpu = (case timer_queue s' cpu of [] \<Rightarrow> hw_timer ?s cpu | t # _ \<Rightarrow> Some (now, scheduled_time (?T t) - now))"
    using timer_tick_effect [OF assms(4,2,3) p, of h] unfolding st(1,2) D_def [symmetric] by blast
  have sub: "t \<in> set (timer_queue s cpu)" if "t \<in> set (timer_queue s' cpu)" for t using that q(1) by simp
  then have "t \<notin> set (timer_queue s' c)" if "c \<noteq> cpu" "t \<in> set (timer_queue s' cpu)" for c t
    using that o d(2) [OF assms(4), of c t] by simp
  then have "own_queue cpu s'" using q(2) assms(4) by (simp add: own_queue_def)
  then have "queue_inv L now s' cpu" using q(3,4) sub d(5) [OF assms(4)] by (simp add: queue_inv_def T)
  moreover have "armed_for L now s' cpu"
  proof (cases "timer_queue s' cpu")
    case (Cons t u)
    have "hwdue now (now, scheduled_time (?T t) - now) = due now ?T t" by (simp add: hwdue_def due_def)
    moreover have "due now ?T t \<le> max 0 (due now ?T u)" if "u \<in> set (timer_queue s' cpu)" for u
      using q(3) that Cons by (auto simp: by_due_def)
    moreover have "due now ?T t > 0 \<and> in_window L now ?T t" using q(4) Cons by simp
    ultimately show ?thesis using hw Cons assms(2) by (simp add: armed_for_def T in_window_def)
  qed (simp add: armed_for_def hw st)
  moreover have "queue_inv L now s' c \<and> armed_for L now s' c" if c: "c < 4" "c \<noteq> cpu" for c
  proof
    have "t \<notin> set D" if "t \<in> set (timer_queue s c)" for t using that d(2) [OF c(1), of cpu t] c(2) by (auto simp: D_def)
    then have T': "\<forall>t\<in>set (timer_queue s c). timer_at s' t = timer_at s t" by (simp add: T restarted_def)
    have "t \<notin> set (timer_queue s' c')" if "c' \<noteq> c" "t \<in> set (timer_queue s c)" for c' t
      using d(2) [OF c(1) that] o sub by (cases "c' = cpu") auto
    then have "\<forall>c' t. c' \<noteq> c \<and> t \<in> set (timer_queue s c) \<longrightarrow> t \<notin> set (timer_queue s' c')" by blast
    moreover have "queue_inv L now s c" using assms(1) c(1) by (simp add: timers_inv_def)
    ultimately show "queue_inv L now s' c" using o c(2) T' queue_inv_frame [of L now s c s'] by simp
    show "armed_for L now s' c" by (rule armed_frame [OF d(6) [OF c(1)]]) (use T' o c in \<open>simp_all add: st\<close>)
  qed
  moreover have "\<forall>c\<ge>4. timer_queue s' c = []" using o assms(1,4) by (auto simp: timers_inv_def)
  ultimately show ?thesis using tick assms(4) by (auto simp: timers_inv_def platform_tick_def)
qed

lemma clock_step_inv:
  assumes "clock_step L h x y" "0 \<le> L" "L < 2 ^ 31" "timers_inv L (fst x) (snd x)"
  shows "timers_inv L (fst y) (snd y)"
  using assms
proof (induction rule: clock_step.induct)
  case (set_timer cpu delay period now t cb arg s s')
  then show ?case using set_inv by fastforce
next
  case (cancel cpu now s t)
  then show ?case using cancel_inv by fastforce
next
  case (tick cpu now s r s')
  then show ?case using tick_inv [of L now s cpu h] by fastforce
next
  case (pass d s now)
  then show ?case using pass_inv [of L now s d] by simp
qed

section \<open>Delays of more than half the range of the clock\<close>

text \<open>A periodic timer alone in its queue whose period looks like a time in the past.\<close>

definition restless :: "nat \<Rightarrow> u32 \<Rightarrow> ptr \<Rightarrow> 'k tstate \<Rightarrow> bool" where
  "restless cpu now t s \<longleftrightarrow> own_queue cpu s \<and> timer_queue s cpu = [t] \<and> \<not> TIME_LT now (scheduled_time (timer_at s t)) \<and>
     \<not> TIME_LT now (now + periodic_time (timer_at s t)) \<and> periodic_time (timer_at s t) > 0"

lemma restless_run: "restless cpu now t s \<Longrightarrow> restless cpu now t (snd (run_timer (quiet h) cpu now t s))"
  using run_timer_quiet [of cpu s t "[]" _ h now] by (auto simp: restless_def own_queue_def restarted_def)

lemma restless_never_ends:
  assumes "restless cpu now t s"
  shows "tick_loop (quiet h) cpu now ret s = None"
proof (rule ccontr)
  assume "tick_loop (quiet h) cpu now ret s \<noteq> None"
  then obtain y where y: "tick_loop (quiet h) cpu now ret s = Some y" by blast
  have "quiet h = quiet h \<longrightarrow> cpu = cpu \<longrightarrow> now = now \<longrightarrow> \<not> restless cpu now t s"
    by (rule tick_loop.raw_induct [OF _ y, where P = "\<lambda>call c n ret s y. call = quiet h \<longrightarrow> c = cpu \<longrightarrow> n = now \<longrightarrow> \<not> restless c n t s"])
      (use restless_run [of cpu now t _ h] in \<open>fastforce simp: restless_def Let_def split: list.splits if_splits\<close>)
  with assms show False by simp
qed

lemma sint_big: "2 ^ 31 \<le> uint d \<Longrightarrow> sint d = uint d - 2 ^ 32" for d :: u32
proof -
  assume d: "2 ^ 31 \<le> uint d"
  have "uint d < 2 ^ 32" using uint_lt2p [of d] by simp
  then have "(uint d + 2 ^ 31 - 2 ^ 32) mod 2 ^ 32 = uint d + 2 ^ 31 - 2 ^ 32" using d by (intro mod_pos_pos_trivial) simp_all
  moreover have "(uint d + 2 ^ 31 - 2 ^ 32) mod 2 ^ 32 = (uint d + 2 ^ 31) mod (2 ^ 32 :: int)" by (rule mod_diff_right_eq [of _ _ "2 ^ 32", symmetric, THEN trans]) simp
  ultimately show ?thesis using int_word_sint [of "uint d", where 'a = 32] by simp
qed

lemma TIME_far:
  fixes d :: u32
  shows "2 ^ 31 < uint d \<Longrightarrow> \<not> TIME_LT now (now + d)" "uint d = 2 ^ 31 \<Longrightarrow> TIME_LT now (now + d) \<and> \<not> TIME_GT (now + d) now"
  using sint_big [of d] sint_minus_u32 [of d] sint_less [of "- d"] uint_lt2p [of d] by (auto simp: TIME_LT_def TIME_GT_def)

lemma timer_set_empty:
  assumes "timer_queue s cpu = []" "\<forall>c. t \<notin> set (timer_queue s c)"
  shows "timer_set cpu now t delay period cb arg s = Some (s\<lparr>timer_at := (timer_at s)(t := \<lparr>scheduled_time = now + delay, periodic_time = period,
    callback = cb, t_arg = arg\<rparr>), timer_queue := (timer_queue s)(cpu := [t]), hw_timer := (hw_timer s)(cpu := Some (now, delay))\<rparr>)"
  using assms by (simp add: timer_set_def list_in_list_iff upd_timer_def insert_timer_in_queue_def peek_head_def platform_set_oneshot_timer_def)

lemma own_single: "cpu < 4 \<Longrightarrow> timer_queue s cpu = [t] \<Longrightarrow> \<forall>c. c \<noteq> cpu \<longrightarrow> t \<notin> set (timer_queue s c) \<Longrightarrow> own_queue cpu s"
  by (simp add: own_queue_def)

section \<open>Properties\<close>

text \<open>
  C33. The interrupt of the timer runs the callbacks of exactly the timers that are due, in the order in which they are due, and ends. Timers that
  were set once are gone, periodic ones are due again a period from now, the others are as before, the queue is in order, and the hardware is set
  to the delay of the first timer left. This holds for a clock that wraps around, as long as the interrupt is at most \<open>L\<close> late and delays and
  periods are below $2^{31} - L$.
\<close>

theorem timer_tick_runs_due:
  assumes "cpu < 4" "0 \<le> L" "L < 2 ^ 31" "own_queue cpu s" "by_due now (timer_at s) (timer_queue s cpu)"
    "\<forall>t\<in>set (timer_queue s cpu). in_window L now (timer_at s) t \<and> uint (periodic_time (timer_at s t)) < 2 ^ 31 - L"
  defines "D \<equiv> filter (\<lambda>t. due now (timer_at s) t \<le> 0) (timer_queue s cpu)"
  defines "T' \<equiv> restarted now (set D) (timer_at s)"
  shows "\<exists>s'. timer_tick (quiet h) cpu now s =
      Some (Ticked (if INT_RESCHEDULE \<in> set (fst (fire h now (timer_at s) D (kern s))) then INT_RESCHEDULE else INT_NO_RESCHEDULE) s') \<and>
    kern s' = snd (fire h now (timer_at s) D (kern s)) \<and> timer_at s' = T' \<and>
    set (timer_queue s' cpu) = {t\<in>set (timer_queue s cpu). due now (timer_at s) t > 0 \<or> periodic_time (timer_at s t) > 0} \<and>
    distinct (timer_queue s' cpu) \<and> by_due now T' (timer_queue s' cpu) \<and> (\<forall>t\<in>set (timer_queue s' cpu). due now T' t > 0 \<and> in_window L now T' t) \<and>
    (\<forall>c. c \<noteq> cpu \<longrightarrow> timer_queue s' c = timer_queue s c \<and> hw_timer s' c = hw_timer s c) \<and>
    hw_timer s' cpu = (case timer_queue s' cpu of [] \<Rightarrow> hw_timer s cpu | t # _ \<Rightarrow> Some (now, scheduled_time (T' t) - now))"
  using timer_tick_effect [OF assms(1-6)] unfolding D_def T'_def by blast

definition no_timers :: "ptr list tstate" where
  "no_timers = \<lparr>timer_at = (\<lambda>_. \<lparr>scheduled_time = 0, periodic_time = 0, callback = 0, t_arg = 0\<rparr>), timer_queue = (\<lambda>_. []), hw_timer = (\<lambda>_. None), kern = []\<rparr>"

text \<open>Timers 1, 2 and 3 around the end of the range: due before, at and after it.\<close>

definition three_timers :: "ptr list tstate" where
  "three_timers = no_timers\<lparr>timer_at := (\<lambda>t. \<lparr>scheduled_time = (if t = 1 then 0xFFFFFFF0 else if t = 2 then 5 else 40),
     periodic_time = (if t = 2 then 10 else 0), callback = 0, t_arg = 0\<rparr>), timer_queue := (\<lambda>_. [])(0 := [1, 2, 3])\<rparr>"

theorem timer_tick_runs_due_witness:
  "\<exists>s'. timer_tick (quiet (\<lambda>cb t now arg fired. (INT_NO_RESCHEDULE, fired @ [t]))) 0 20 three_timers = Some (Ticked INT_NO_RESCHEDULE s') \<and>
    kern s' = [1, 2] \<and> set (timer_queue s' 0) = {2, 3}"
proof -
  let ?q = "timer_queue three_timers 0"
  have d: "due 20 (timer_at three_timers) 1 = -36" "due 20 (timer_at three_timers) 2 = -15" "due 20 (timer_at three_timers) 3 = 20"
    by (simp_all add: due_def three_timers_def)
  have q: "?q = [1, 2, 3]" by (simp add: three_timers_def)
  have f: "filter (\<lambda>t. due 20 (timer_at three_timers) t \<le> 0) ?q = [1, 2]" by (simp add: q d)
  have "own_queue 0 three_timers" by (simp add: own_queue_def three_timers_def no_timers_def)
  moreover have "by_due 20 (timer_at three_timers) ?q" by (simp add: by_due_def q d)
  moreover have "\<forall>t\<in>set ?q. in_window 100 20 (timer_at three_timers) t \<and> uint (periodic_time (timer_at three_timers t)) < 2 ^ 31 - 100"
    by (simp add: q in_window_def d) (simp add: three_timers_def)
  moreover have "{t. (t = 1 \<or> t = 2 \<or> t = 3) \<and> (0 < due 20 (timer_at three_timers) t \<or> 0 < periodic_time (timer_at three_timers t))} = {2, 3}"
    by (auto simp: d) (simp_all add: three_timers_def)
  ultimately show ?thesis
    using timer_tick_runs_due [of 0 100 three_timers 20 "\<lambda>cb t now arg fired. (INT_NO_RESCHEDULE, fired @ [t])"]
    unfolding f by (auto simp: q three_timers_def no_timers_def)
qed

text \<open>
  C34. No timer is forgotten. After any sequence of setting and cancelling timers on all CPUs, interrupts and passing time, in which no timer gets more than \<open>L\<close> late and
  delays and periods are below $2^{31} - L$: every queue is in the order in which its timers are due, the hardware timer of each CPU with a timer in its queue is set and
  expires no later than the first is due, or at once when that one is late, and the interrupt on any CPU returns.
\<close>

theorem timers_not_forgotten:
  assumes "0 \<le> L" "L < 2 ^ 31" "\<forall>c. hw_timer s0 c = None" "\<forall>c\<ge>4. timer_queue s0 c = []"
    "(clock_step L h)\<^sup>*\<^sup>* (now0, timer_init s0) (now, s)" "cpu < 4"
  shows "by_due now (timer_at s) (timer_queue s cpu) \<and>
    (timer_queue s cpu \<noteq> [] \<longrightarrow> (\<exists>d. hw_timer s cpu = Some d \<and> hwdue now d \<le> max 0 (due now (timer_at s) (hd (timer_queue s cpu))))) \<and>
    (\<exists>r s'. platform_tick (quiet h) cpu now s = Some (Ticked r s'))"
proof -
  have "timers_inv L now0 (timer_init s0)"
    using assms(3,4) by (auto simp: timers_inv_def queue_inv_def armed_for_def timer_init_def own_queue_def by_due_def)
  with assms(5) have i: "timers_inv L now s"
    by (induction rule: rtranclp_induct2) (auto dest: clock_step_inv [OF _ assms(1,2)])
  note d = timers_inv_D [OF i assms(6)]
  show ?thesis
    using d(3,6) tick_inv [OF i assms(1,2,6), of h] by (fastforce simp: armed_for_def split: option.splits)
qed

theorem timers_not_forgotten_witness:
  "\<exists>s. timer_set 1 (0xFFFFFFFF :: u32) 7 50 0 0 0 (timer_init no_timers) = Some s \<and> timer_queue s 1 = [7] \<and>
    (\<exists>r s'. platform_tick (quiet (\<lambda>cb t now arg k. (INT_NO_RESCHEDULE, k))) 1 (0xFFFFFFFF + 20) s = Some (Ticked r s'))"
proof -
  let ?h = "(\<lambda>cb t now arg k. (INT_NO_RESCHEDULE, k)) :: ptr list handler"
  let ?s0 = "timer_init no_timers"
  define s where "s = ?s0\<lparr>timer_at := (timer_at ?s0)(7 := \<lparr>scheduled_time = 0xFFFFFFFF + 50, periodic_time = 0, callback = 0, t_arg = 0\<rparr>),
    timer_queue := (timer_queue ?s0)(1 := [7]), hw_timer := (hw_timer ?s0)(1 := Some (0xFFFFFFFF, 50))\<rparr>"
  have s: "timer_set 1 0xFFFFFFFF 7 50 0 0 0 ?s0 = Some s" "timer_queue s = (\<lambda>_. [])(1 := [7])" "hw_timer s = (\<lambda>_. None)(1 := Some (0xFFFFFFFF, 50))"
    "scheduled_time (timer_at s 7) = 49"
    unfolding s_def by (rule timer_set_empty) (simp_all add: timer_init_def no_timers_def fun_eq_iff)
  have "clock_step 100 ?h (0xFFFFFFFF, ?s0) (0xFFFFFFFF, s)" by (rule clock_step.set_timer [OF _ _ _ _ s(1)]) simp_all
  moreover have "clock_step 100 ?h (0xFFFFFFFF, s) (0xFFFFFFFF + word_of_int 20, s)"
    by (rule clock_step.pass) (auto simp: s due_def hwdue_def split: if_splits)
  ultimately have "(clock_step 100 ?h)\<^sup>*\<^sup>* (0xFFFFFFFF, ?s0) (0xFFFFFFFF + 20, s)" by (simp add: converse_rtranclp_into_rtranclp)
  from timers_not_forgotten [OF _ _ _ _ this, of 1] s(1,2) show ?thesis by (auto simp: no_timers_def)
qed

text \<open>
  Delays of half the range of the clock or more are not waited for. A timer set for more than $2^{31}$ milliseconds, alone in its queue, runs at the next interrupt, however
  early that comes; set for exactly $2^{31}$, it fails an assertion of the interrupt; and a periodic timer with such a period keeps the interrupt from ever returning.
\<close>

theorem long_delays_not_waited:
  assumes "cpu < 4" "timer_queue s cpu = []" "\<forall>c. t \<notin> set (timer_queue s c)" "2 ^ 31 \<le> uint d"
  shows "(\<exists>s1. timer_set_oneshot cpu now t d cb arg s = Some s1 \<and>
      (if uint d = 2 ^ 31 then timer_tick (quiet h) cpu now s1 = Some Assert_Failed
       else \<exists>r s2. timer_tick (quiet h) cpu now s1 = Some (Ticked r s2) \<and> kern s2 = snd (h cb t now arg (kern s)) \<and> timer_queue s2 cpu = [])) \<and>
    (uint d \<noteq> 2 ^ 31 \<longrightarrow> (\<exists>s1. timer_set_periodic cpu now t d cb arg s = Some s1 \<and> timer_tick (quiet h) cpu now s1 = None))"
proof -
  have nz: "d \<noteq> 0" using assms(4) by auto
  define S where "S p = s\<lparr>timer_at := (timer_at s)(t := \<lparr>scheduled_time = now + d, periodic_time = p, callback = cb, t_arg = arg\<rparr>),
    timer_queue := (timer_queue s)(cpu := [t]), hw_timer := (hw_timer s)(cpu := Some (now, d))\<rparr>" for p
  have set1: "timer_set cpu now t d p cb arg s = Some (S p)" for p unfolding S_def by (rule timer_set_empty [OF assms(2,3)])
  have own: "own_queue cpu (S p)" "timer_queue (S p) cpu = [t]" "scheduled_time (timer_at (S p) t) = now + d" for p
    using assms(1,3) by (simp_all add: own_queue_def S_def)
  let ?r = "run_timer (quiet h) cpu now t (S 0)"
  have far: "uint d \<noteq> 2 ^ 31 \<Longrightarrow> \<not> TIME_LT now (now + d)" "uint d = 2 ^ 31 \<Longrightarrow> TIME_LT now (now + d) \<and> \<not> TIME_GT (now + d) now"
    using TIME_far [of d now] assms(4) by auto
  have run: "timer_queue (snd ?r) cpu = []" "kern (snd ?r) = snd (h cb t now arg (kern s))"
    using run_timer_quiet [OF own(1,2) refl, of h now 0] by (simp_all add: S_def)
  have "tick_loop (quiet h) cpu now 0 (S 0) = (if uint d = 2 ^ 31 then Some (0, S 0) else Some (if fst ?r = 1 then 1 else 0, snd ?r))"
    using far own run(1) by (subst tick_loop.simps) (auto simp: tick_loop.simps [of _ _ _ _ "snd ?r"] Let_def)
  then have "\<exists>s1. timer_set_oneshot cpu now t d cb arg s = Some s1 \<and>
      (if uint d = 2 ^ 31 then timer_tick (quiet h) cpu now s1 = Some Assert_Failed
       else \<exists>r s2. timer_tick (quiet h) cpu now s1 = Some (Ticked r s2) \<and> kern s2 = snd (h cb t now arg (kern s)) \<and> timer_queue s2 cpu = [])"
    using nz far own run by (auto simp: timer_set_oneshot_def set1 timer_tick_def peek_head_def)
  moreover have "\<exists>s1. timer_set_periodic cpu now t d cb arg s = Some s1 \<and> timer_tick (quiet h) cpu now s1 = None" if "uint d \<noteq> 2 ^ 31"
  proof -
    have "restless cpu now t (S d)" using own far(1) [OF that] nz by (simp add: restless_def word_gt_0) (simp add: S_def word_gt_0)
    then have "timer_tick (quiet h) cpu now (S d) = None" by (simp add: timer_tick_def restless_never_ends)
    then show ?thesis using nz by (simp add: timer_set_periodic_def set1)
  qed
  ultimately show ?thesis by blast
qed

theorem long_delays_not_waited_witness:
  "\<exists>s1 r s2. timer_set_oneshot 0 1000 7 3000000000 0 0 no_timers = Some s1 \<and>
    timer_tick (quiet (\<lambda>cb t now arg fired. (INT_NO_RESCHEDULE, fired @ [t]))) 0 1000 s1 = Some (Ticked r s2) \<and> kern s2 = [7]"
  using long_delays_not_waited [of 0 no_timers 7 3000000000 1000 0 0 "\<lambda>cb t now arg fired. (INT_NO_RESCHEDULE, fired @ [t])"]
  by (auto simp: no_timers_def)


text \<open>
  The preemption timer of a CPU is set exactly while its thread can be preempted: a switch that finds it so leaves it so. A thread that is made a real-time thread
  while it runs on another CPU breaks the rule, and the next switch to an ordinary thread there panics.
\<close>

lemma preempt_timer_follows_thread:
  assumes "timers_inv L now s" "cpu < 4" "list_in_list (pt cpu) s \<longleftrightarrow> \<not> thread_is_real_time_or_idle oldthread"
  shows "\<exists>s'. switch_preempt_timer pt cb cpu now oldthread newthread s = Some s' \<and> (list_in_list (pt cpu) s' \<longleftrightarrow> \<not> thread_is_real_time_or_idle newthread)"
proof -
  have "\<not> list_in_list (pt cpu) (timer_cancel cpu now (pt cpu) s)"
    using timers_inv_D(1) [OF assms(1)] by (auto simp: list_in_list_iff cancel_fields(1) [OF assms(1)])
  moreover have "\<exists>s'. timer_set_periodic cpu now (pt cpu) 10 cb 0 s = Some s' \<and> list_in_list (pt cpu) s'" if "\<not> list_in_list (pt cpu) s"
    using that assms(2)
    by (auto simp: timer_set_periodic_def timer_set_def list_in_list_iff upd_timer_def insert_timer_in_queue_def platform_set_oneshot_timer_def Let_def
        intro!: exI [of _ cpu])
  ultimately show ?thesis using assms(3) by (auto simp: switch_preempt_timer_def)
qed

lemma real_time_elsewhere_panics:
  assumes "list_in_list (pt cpu) s" "thread_is_real_time_or_idle th" "\<not> thread_is_real_time_or_idle newthread"
  shows "switch_preempt_timer pt cb cpu now th newthread (real_time_preempt_timer pt cpu' now False s) = None"
  using assms by (simp add: switch_preempt_timer_def real_time_preempt_timer_def timer_set_periodic_def timer_set_def)

end
