(* ===== verification/Wait_Queue.thy ===== *)
theory Wait_Queue
  imports Sched
begin

text \<open>
  Waiting in the kernel: the wait queues of \<^verbatim>\<open>kernel/thread.c\<close>, joining, leaving and sleeping threads, and on top of them mutexes
  (\<^verbatim>\<open>kernel/mutex.c\<close>), semaphores (\<^verbatim>\<open>kernel/semaphore.c\<close>) and events (\<^verbatim>\<open>kernel/event.c\<close>).

  Each operation runs with the thread lock held. One that blocks or lets a woken thread run first reschedules in its middle: its result
  is then the state in which another thread runs, and the rest of the operation as a function of the state in which its own thread is
  scheduled again. The state is that of the hypervisor with the wait queues, the fields of threads for waiting, the timers set for waiting
  threads, and the objects. A wait queue inside an object or a thread has the address of the object or the thread.
\<close>

section \<open>Data\<close>

record wait_queue =
  wq_list :: "ptr list"
  wq_count :: int

record mutex =
  holder :: ptr
  m_count :: int

record semaphore =
  sem_count :: int

record event =
  signaled :: bool
  e_flags :: u32

record ksync =
  hv :: hv_state
  waits :: "ptr \<Rightarrow> wait_queue"
  blocking_wait_queue :: "ptr \<Rightarrow> ptr"
  wait_queue_block_ret :: "ptr \<Rightarrow> int"
  armed :: "ptr \<Rightarrow> bool"
  sleepers :: "ptr \<Rightarrow> bool"
  retcode :: "ptr \<Rightarrow> int"
  thread_list :: "ptr list"
  mutexes :: "ptr \<Rightarrow> mutex"
  sems :: "ptr \<Rightarrow> semaphore"
  events :: "ptr \<Rightarrow> event"

datatype 'a krun = KDone 'a ksync | KSwitch ksync "ksync \<Rightarrow> 'a krun" | KPanic

primrec kbind :: "'a krun \<Rightarrow> ('a \<Rightarrow> ksync \<Rightarrow> 'b krun) \<Rightarrow> 'b krun" where
  "kbind (KDone a s) f = f a s"
| "kbind (KSwitch s k) f = KSwitch s (\<lambda>s. kbind (k s) f)"
| "kbind KPanic f = KPanic"

definition kreturn :: "'a \<Rightarrow> ksync \<Rightarrow> 'a krun" where
  "kreturn a s = KDone a s"

lemma kbind_kreturn [simp]: "kbind (kreturn a s) f = f a s"
  by (simp add: kreturn_def)

abbreviation (input) ERR_OBJECT_DESTROYED :: int where "ERR_OBJECT_DESTROYED \<equiv> -11"
abbreviation (input) ERR_NOT_BLOCKED :: int where "ERR_NOT_BLOCKED \<equiv> -12"
abbreviation (input) ERR_TIMED_OUT :: int where "ERR_TIMED_OUT \<equiv> -13"
abbreviation (input) ERR_THREAD_DETACHED :: int where "ERR_THREAD_DETACHED \<equiv> -34"
abbreviation (input) INFINITE_TIME :: u32 where "INFINITE_TIME \<equiv> 0xFFFFFFFF"

definition on_hv :: "(hv_state \<Rightarrow> hv_state) \<Rightarrow> ksync \<Rightarrow> ksync" where
  "on_hv f s = s\<lparr>hv := f (hv s)\<rparr>"

definition upd_wait :: "ptr \<Rightarrow> (wait_queue \<Rightarrow> wait_queue) \<Rightarrow> ksync \<Rightarrow> ksync" where
  "upd_wait w f s = s\<lparr>waits := (waits s)(w := f (waits s w))\<rparr>"

definition this_thread :: "ksync \<Rightarrow> ptr" where
  "this_thread s = get_current_thread (hv s)"

section \<open>Wait queues\<close>

definition wait_queue_init :: "ptr \<Rightarrow> ksync \<Rightarrow> ksync" where
  "wait_queue_init wait s = upd_wait wait (\<lambda>_. \<lparr>wq_list = [], wq_count = 0\<rparr>) s"

text \<open>
  The rest of \<^verbatim>\<open>wait_queue_block\<close> after the thread is scheduled again.
\<close>

definition block_rest :: "ptr \<Rightarrow> u32 \<Rightarrow> ksync \<Rightarrow> int krun" where
  "block_rest t timeout s =
     (let s = (if timeout \<noteq> INFINITE_TIME then s\<lparr>armed := (armed s)(t := False)\<rparr> else s)
      in KDone (wait_queue_block_ret s t) s)"

definition wait_queue_block :: "ptr \<Rightarrow> u32 \<Rightarrow> ksync \<Rightarrow> int krun" where
  "wait_queue_block wait timeout s =
     (if timeout = 0 then KDone ERR_TIMED_OUT s
      else
        let t = this_thread s;
            s = upd_wait wait (\<lambda>q. \<lparr>wq_list = wq_list q @ [t], wq_count = wq_count q + 1\<rparr>) s;
            s = on_hv (upd_thread t (\<lambda>th. th\<lparr>t_state := THREAD_BLOCKED\<rparr>)) s;
            s = s\<lparr>blocking_wait_queue := (blocking_wait_queue s)(t := wait),
                  wait_queue_block_ret := (wait_queue_block_ret s)(t := NO_ERROR)\<rparr>;
            s = (if timeout \<noteq> INFINITE_TIME then s\<lparr>armed := (armed s)(t := True)\<rparr> else s)
        in KSwitch (on_hv thread_resched s) (block_rest t timeout))"

definition ready_current :: "ksync \<Rightarrow> ksync" where
  "ready_current s =
     (let t = this_thread s
      in on_hv (\<lambda>h. insert_in_run_queue_head t (upd_thread t (\<lambda>th. th\<lparr>t_state := THREAD_READY\<rparr>) h)) s)"

definition woken :: "ptr \<Rightarrow> int \<Rightarrow> ksync \<Rightarrow> ksync" where
  "woken t err s =
     (on_hv (upd_thread t (\<lambda>th. th\<lparr>t_state := THREAD_READY\<rparr>)) s)
       \<lparr>wait_queue_block_ret := (wait_queue_block_ret s)(t := err), blocking_wait_queue := (blocking_wait_queue s)(t := 0)\<rparr>"

definition wait_queue_wake_one :: "ptr \<Rightarrow> bool \<Rightarrow> int \<Rightarrow> ksync \<Rightarrow> int krun" where
  "wait_queue_wake_one wait reschedule err s =
     (case wq_list (waits s wait) of
        [] \<Rightarrow> KDone 0 s
      | t # ts \<Rightarrow>
          let s = upd_wait wait (\<lambda>q. \<lparr>wq_list = ts, wq_count = wq_count q - 1\<rparr>) s;
              s = woken t err s;
              s = (if reschedule then ready_current s else s);
              s = on_hv (\<lambda>h. wakeup_cpu_for_thread t (insert_in_run_queue_head t h)) s
          in if reschedule then KSwitch (on_hv thread_resched s) (kreturn 1) else KDone 1 s)"

text \<open>The loop of \<^verbatim>\<open>wait_queue_wake_all\<close>, with the mask of the CPUs to wake.\<close>

fun wake_loop :: "ptr \<Rightarrow> int \<Rightarrow> ptr list \<Rightarrow> u32 \<Rightarrow> ksync \<Rightarrow> u32 \<times> ksync" where
  "wake_loop wait err [] cpu_mask s = (cpu_mask, s)"
| "wake_loop wait err (t # ts) cpu_mask s =
     (let s = upd_wait wait (\<lambda>q. \<lparr>wq_list = ts, wq_count = wq_count q - 1\<rparr>) s;
          s = woken t err s;
          pc = pinned_cpu (threads (hv s) t);
          cpu_mask = (if pc < 0 then -1 else cpu_mask OR push_bit (nat pc) 1)
      in wake_loop wait err ts cpu_mask (on_hv (insert_in_run_queue_head t) s))"

definition wait_queue_wake_all :: "ptr \<Rightarrow> bool \<Rightarrow> int \<Rightarrow> ksync \<Rightarrow> int krun" where
  "wait_queue_wake_all wait reschedule err s =
     (let s = (if reschedule \<and> wq_count (waits s wait) > 0 then ready_current s else s);
          ts = wq_list (waits s wait); ret = int (length ts);
          (cpu_mask, s) = wake_loop wait err ts 0 s
      in if ret > 0
         then let s = on_hv (mp_reschedule cpu_mask) s
              in if reschedule then KSwitch (on_hv thread_resched s) (kreturn ret) else KDone ret s
         else KDone ret s)"

definition wait_queue_destroy :: "ptr \<Rightarrow> bool \<Rightarrow> ksync \<Rightarrow> unit krun" where
  "wait_queue_destroy wait reschedule s = kbind (wait_queue_wake_all wait reschedule ERR_OBJECT_DESTROYED s) (\<lambda>_. kreturn ())"

text \<open>A blocked thread that waits in no queue is refused by an assertion.\<close>

definition thread_unblock_from_wait_queue :: "ptr \<Rightarrow> int \<Rightarrow> ksync \<Rightarrow> int krun" where
  "thread_unblock_from_wait_queue t err s =
     (if t_state (threads (hv s) t) \<noteq> THREAD_BLOCKED then KDone ERR_NOT_BLOCKED s
      else if blocking_wait_queue s t = 0 then KPanic
      else
        let s = upd_wait (blocking_wait_queue s t) (\<lambda>q. \<lparr>wq_list = remove1 t (wq_list q), wq_count = wq_count q - 1\<rparr>) s;
            s = woken t err s
        in KDone NO_ERROR (on_hv (\<lambda>h. wakeup_cpu_for_thread t (insert_in_run_queue_head t h)) s))"

text \<open>The callback of the timer, which is no longer set when it runs.\<close>

definition wait_queue_timeout_handler :: "ptr \<Rightarrow> ksync \<Rightarrow> int krun" where
  "wait_queue_timeout_handler t s =
     kbind (thread_unblock_from_wait_queue t ERR_TIMED_OUT (s\<lparr>armed := (armed s)(t := False)\<rparr>))
       (\<lambda>r. kreturn (if r \<ge> NO_ERROR then INT_RESCHEDULE else INT_NO_RESCHEDULE))"

section \<open>Mutexes\<close>

definition upd_mutex :: "ptr \<Rightarrow> (mutex \<Rightarrow> mutex) \<Rightarrow> ksync \<Rightarrow> ksync" where
  "upd_mutex m f s = s\<lparr>mutexes := (mutexes s)(m := f (mutexes s m))\<rparr>"

definition mutex_init :: "ptr \<Rightarrow> ksync \<Rightarrow> ksync" where
  "mutex_init m s = wait_queue_init m (upd_mutex m (\<lambda>_. \<lparr>holder = 0, m_count = 0\<rparr>) s)"

definition mutex_destroy :: "ptr \<Rightarrow> ksync \<Rightarrow> unit krun" where
  "mutex_destroy m s =
     (if holder (mutexes s m) \<noteq> 0 \<and> this_thread s \<noteq> holder (mutexes s m) then KPanic
      else wait_queue_destroy m True (upd_mutex m (\<lambda>x. x\<lparr>m_count := 0\<rparr>) s))"

definition mutex_acquire_timeout :: "ptr \<Rightarrow> u32 \<Rightarrow> ksync \<Rightarrow> int krun" where
  "mutex_acquire_timeout m timeout s =
     (if this_thread s = holder (mutexes s m) then KPanic
      else
        let s = upd_mutex m (\<lambda>x. x\<lparr>m_count := m_count x + 1\<rparr>) s;
            hold = (\<lambda>ret s. KDone ret (upd_mutex m (\<lambda>x. x\<lparr>holder := this_thread s\<rparr>) s))
        in if m_count (mutexes s m) > 1
           then kbind (wait_queue_block m timeout s) (\<lambda>ret s.
                  if ret < NO_ERROR
                  then KDone ret (if ret = ERR_TIMED_OUT then upd_mutex m (\<lambda>x. x\<lparr>m_count := m_count x - 1\<rparr>) s else s)
                  else hold ret s)
           else hold NO_ERROR s)"

definition mutex_acquire :: "ptr \<Rightarrow> ksync \<Rightarrow> int krun" where
  "mutex_acquire m = mutex_acquire_timeout m INFINITE_TIME"

definition is_mutex_held :: "ptr \<Rightarrow> ksync \<Rightarrow> bool" where
  "is_mutex_held m s \<longleftrightarrow> holder (mutexes s m) = this_thread s"

definition mutex_release :: "ptr \<Rightarrow> ksync \<Rightarrow> int krun" where
  "mutex_release m s =
     (if this_thread s \<noteq> holder (mutexes s m) then KPanic
      else
        let s = upd_mutex m (\<lambda>x. \<lparr>holder = 0, m_count = m_count x - 1\<rparr>) s
        in if m_count (mutexes s m) \<ge> 1 then kbind (wait_queue_wake_one m True NO_ERROR s) (\<lambda>_. kreturn NO_ERROR)
           else KDone NO_ERROR s)"
section \<open>Semaphores\<close>

definition upd_sem :: "ptr \<Rightarrow> (int \<Rightarrow> int) \<Rightarrow> ksync \<Rightarrow> ksync" where
  "upd_sem m f s = s\<lparr>sems := (sems s)(m := \<lparr>sem_count = f (sem_count (sems s m))\<rparr>)\<rparr>"

definition sem_init :: "ptr \<Rightarrow> u32 \<Rightarrow> ksync \<Rightarrow> ksync" where
  "sem_init sem val s = wait_queue_init sem (upd_sem sem (\<lambda>_. sint val) s)"

definition sem_destroy :: "ptr \<Rightarrow> ksync \<Rightarrow> unit krun" where
  "sem_destroy sem s = wait_queue_destroy sem True (upd_sem sem (\<lambda>_. 0) s)"

definition sem_post :: "ptr \<Rightarrow> bool \<Rightarrow> ksync \<Rightarrow> int krun" where
  "sem_post sem resched s =
     (let s = upd_sem sem (\<lambda>c. c + 1) s
      in if sem_count (sems s sem) \<le> 0 then wait_queue_wake_one sem resched NO_ERROR s else KDone 0 s)"

definition sem_wait :: "ptr \<Rightarrow> ksync \<Rightarrow> int krun" where
  "sem_wait sem s =
     (let s = upd_sem sem (\<lambda>c. c - 1) s
      in if sem_count (sems s sem) < 0 then wait_queue_block sem INFINITE_TIME s else KDone NO_ERROR s)"

definition sem_trywait :: "ptr \<Rightarrow> ksync \<Rightarrow> int krun" where
  "sem_trywait sem s =
     (if sem_count (sems s sem) \<le> 0 then KDone ERR_NOT_READY s else KDone NO_ERROR (upd_sem sem (\<lambda>c. c - 1) s))"

definition sem_timedwait :: "ptr \<Rightarrow> u32 \<Rightarrow> ksync \<Rightarrow> int krun" where
  "sem_timedwait sem timeout s =
     (let s = upd_sem sem (\<lambda>c. c - 1) s
      in if sem_count (sems s sem) < 0
         then kbind (wait_queue_block sem timeout s) (\<lambda>ret s. KDone ret (if ret = ERR_TIMED_OUT then upd_sem sem (\<lambda>c. c + 1) s else s))
         else KDone NO_ERROR s)"

section \<open>Events\<close>

definition upd_event :: "ptr \<Rightarrow> (event \<Rightarrow> event) \<Rightarrow> ksync \<Rightarrow> ksync" where
  "upd_event e f s = s\<lparr>events := (events s)(e := f (events s e))\<rparr>"

abbreviation (input) EVENT_FLAG_AUTOUNSIGNAL :: u32 where "EVENT_FLAG_AUTOUNSIGNAL \<equiv> 1"

definition event_init :: "ptr \<Rightarrow> bool \<Rightarrow> u32 \<Rightarrow> ksync \<Rightarrow> ksync" where
  "event_init e initial flags s = wait_queue_init e (upd_event e (\<lambda>_. \<lparr>signaled = initial, e_flags = flags\<rparr>) s)"

definition event_destroy :: "ptr \<Rightarrow> ksync \<Rightarrow> unit krun" where
  "event_destroy e s = wait_queue_destroy e True (upd_event e (\<lambda>_. \<lparr>signaled = False, e_flags = 0\<rparr>) s)"

definition event_wait_timeout :: "ptr \<Rightarrow> u32 \<Rightarrow> ksync \<Rightarrow> int krun" where
  "event_wait_timeout e timeout s =
     (if signaled (events s e)
      then KDone NO_ERROR (if e_flags (events s e) AND EVENT_FLAG_AUTOUNSIGNAL \<noteq> 0 then upd_event e (\<lambda>x. x\<lparr>signaled := False\<rparr>) s else s)
      else wait_queue_block e timeout s)"

definition event_signal :: "ptr \<Rightarrow> bool \<Rightarrow> ksync \<Rightarrow> int krun" where
  "event_signal e reschedule s =
     (if \<not> signaled (events s e) then
        (if e_flags (events s e) AND EVENT_FLAG_AUTOUNSIGNAL \<noteq> 0
         then kbind (wait_queue_wake_one e reschedule NO_ERROR s)
                (\<lambda>ret s. KDone NO_ERROR (if ret \<le> 0 then upd_event e (\<lambda>x. x\<lparr>signaled := True\<rparr>) s else s))
         else kbind (wait_queue_wake_all e reschedule NO_ERROR (upd_event e (\<lambda>x. x\<lparr>signaled := True\<rparr>) s)) (\<lambda>_. kreturn NO_ERROR))
      else KDone NO_ERROR s)"

definition event_unsignal :: "ptr \<Rightarrow> ksync \<Rightarrow> ksync \<times> int" where
  "event_unsignal e s = (upd_event e (\<lambda>x. x\<lparr>signaled := False\<rparr>) s, NO_ERROR)"

section \<open>Threads that end, join and sleep\<close>

abbreviation (input) THREAD_FLAG_DETACHED :: u32 where "THREAD_FLAG_DETACHED \<equiv> 1"
abbreviation (input) THREAD_FLAG_REAL_TIME :: u32 where "THREAD_FLAG_REAL_TIME \<equiv> 8"

text \<open>What \<^verbatim>\<open>thread_join\<close> does once the thread is dead; its stack and structure are freed.\<close>

definition join_dead :: "ptr \<Rightarrow> ksync \<Rightarrow> (int \<times> int) krun" where
  "join_dead t s = KDone (NO_ERROR, retcode s t) (s\<lparr>thread_list := remove1 t (thread_list s)\<rparr>)"

text \<open>The result is the status and, with success, the value the thread returned.\<close>

definition thread_join :: "ptr \<Rightarrow> u32 \<Rightarrow> ksync \<Rightarrow> (int \<times> int) krun" where
  "thread_join t timeout s =
     (if t_flags (threads (hv s) t) AND THREAD_FLAG_DETACHED \<noteq> 0 then KDone (ERR_THREAD_DETACHED, 0) s
      else if t_state (threads (hv s) t) \<noteq> THREAD_DEATH
      then kbind (wait_queue_block t timeout s) (\<lambda>err s. if err < 0 then KDone (err, 0) s else join_dead t s)
      else join_dead t s)"

definition thread_detach :: "ptr \<Rightarrow> ksync \<Rightarrow> int krun" where
  "thread_detach t s =
     kbind (wait_queue_wake_all t False ERR_THREAD_DETACHED s) (\<lambda>_ s.
       if t_state (threads (hv s) t) = THREAD_DEATH
       then kbind (thread_join t 0 (on_hv (upd_thread t (\<lambda>th. th\<lparr>t_flags := t_flags th AND NOT THREAD_FLAG_DETACHED\<rparr>)) s)) (\<lambda>r. kreturn (fst r))
       else KDone NO_ERROR (on_hv (upd_thread t (\<lambda>th. th\<lparr>t_flags := t_flags th OR THREAD_FLAG_DETACHED\<rparr>)) s))"

definition thread_detach_and_resume :: "ptr \<Rightarrow> ksync \<Rightarrow> int krun" where
  "thread_detach_and_resume t s =
     kbind (thread_detach t s) (\<lambda>err s. if err < 0 then KDone err s else KDone NO_ERROR (on_hv (thread_resume t) s))"

text \<open>Coming back from the reschedule is the panic at the end.\<close>

definition thread_exit :: "int \<Rightarrow> ksync \<Rightarrow> unit krun" where
  "thread_exit rc s =
     (let t = this_thread s;
          s = (on_hv (upd_thread t (\<lambda>th. th\<lparr>t_state := THREAD_DEATH\<rparr>)) s)\<lparr>retcode := (retcode s)(t := rc)\<rparr>;
          freed = on_hv (upd_thread t (\<lambda>th. if t_flags th AND 2 \<noteq> 0 then th\<lparr>t_flags := t_flags th AND NOT 32\<rparr> else th))
      in kbind (if t_flags (threads (hv s) t) AND THREAD_FLAG_DETACHED \<noteq> 0 then KDone 0 (freed (s\<lparr>thread_list := remove1 t (thread_list s)\<rparr>))
                else wait_queue_wake_all t False 0 s)
           (\<lambda>_ s. KSwitch (on_hv thread_resched s) (\<lambda>_. KPanic)))"

definition thread_sleep :: "ksync \<Rightarrow> unit krun" where
  "thread_sleep s =
     (let t = this_thread s;
          s = on_hv (upd_thread t (\<lambda>th. th\<lparr>t_state := THREAD_SLEEPING\<rparr>)) (s\<lparr>sleepers := (sleepers s)(t := True)\<rparr>)
      in KSwitch (on_hv thread_resched s) (kreturn ()))"

definition thread_sleep_handler :: "ptr \<Rightarrow> ksync \<Rightarrow> ksync \<times> int" where
  "thread_sleep_handler t s =
     (on_hv (\<lambda>h. insert_in_run_queue_head t (upd_thread t (\<lambda>th. th\<lparr>t_state := THREAD_READY\<rparr>) h)) (s\<lparr>sleepers := (sleepers s)(t := False)\<rparr>),
      INT_RESCHEDULE)"

definition thread_set_real_time :: "ptr \<Rightarrow> ksync \<Rightarrow> ksync \<times> int" where
  "thread_set_real_time t s =
     (if t = 0 then (s, ERR_INVALID_ARGS)
      else (on_hv (upd_thread t (\<lambda>th. th\<lparr>t_flags := t_flags th OR THREAD_FLAG_REAL_TIME\<rparr>)) s, NO_ERROR))"

definition thread_set_priority :: "int \<Rightarrow> ksync \<Rightarrow> unit krun" where
  "thread_set_priority prio s =
     (let t = this_thread s;
          p = (if prio \<le> 0 then 1 else if prio > 31 then 31 else nat prio);
          s = on_hv (upd_thread t (\<lambda>th. th\<lparr>t_priority := p, t_state := THREAD_READY\<rparr>)) s
      in KSwitch (on_hv (\<lambda>h. thread_resched (insert_in_run_queue_head t h)) s) (kreturn ()))"

section \<open>Threads that wait and the scheduler\<close>

definition asleep :: "hv_state \<Rightarrow> ptr \<Rightarrow> bool" where
  "asleep h t \<longleftrightarrow> t_state (threads h t) = THREAD_BLOCKED \<and> \<not> queued (threads h t) \<and> \<not> thread_is_idle (threads h t) \<and>
     (\<forall>c<4. current_thread h c \<noteq> t)"

text \<open>
  What code that does not wake the waiting threads does to them: they sleep on, and a thread that is not blocked does not become so. It is
  what the rest of the kernel guarantees to waiting threads.
\<close>

definition leaves_asleep :: "hv_state \<Rightarrow> hv_state \<Rightarrow> bool" where
  "leaves_asleep h h' \<longleftrightarrow> sched_inv h' \<and> (\<forall>t. asleep h t \<longrightarrow> asleep h' t) \<and>
     (\<forall>t. t_state (threads h t) \<noteq> THREAD_BLOCKED \<longrightarrow> t_state (threads h' t) \<noteq> THREAD_BLOCKED)"

lemma resched_cpus:
  assumes "queues_ok h" "cpus_ok h"
  shows "\<exists>new. (new = idle_thread h (curr_cpu h) \<or> queued (threads h new)) \<and>
    current_thread (thread_resched h) = (current_thread h)(curr_cpu h := new) \<and> t_state (threads (thread_resched h) new) = THREAD_RUNNING \<and>
    (\<forall>u. t_flags (threads (thread_resched h) u) = t_flags (threads h u)) \<and>
    (\<forall>u. u \<noteq> new \<longrightarrow> t_state (threads (thread_resched h) u) = t_state (threads h u) \<and> queued (threads (thread_resched h) u) = queued (threads h u))"
proof -
  obtain h1 t where g: "get_top_thread (curr_cpu h) h = (h1, t)" by fastforce
  have idle: "\<not> queued (threads h (idle_thread h (curr_cpu h)))" using assms by (auto simp: queues_ok_def cpus_ok_def)
  from get_top_thread_ok [OF assms(1) g idle] have gt:
    "\<forall>u. threads h1 u = (if u = t then (threads h t)\<lparr>queued := False\<rparr> else threads h u)" "t = idle_thread h (curr_cpu h) \<or> queued (threads h t)"
    "current_thread h1 = current_thread h" "idle_thread h1 = idle_thread h" "curr_cpu h1 = curr_cpu h"
    by simp_all
  let ?s2 = "upd_thread t (\<lambda>th. th\<lparr>t_state := THREAD_RUNNING\<rparr>) h1"
  let ?n = "note_switch (get_current_thread h) t ?s2"
  have "thread_resched h = (if t = get_current_thread h then ?s2
      else if t_vcpu (threads ?n t) \<noteq> 0 then vcpu_switch_to (t_vcpu (threads ?n t)) ?n else ?n)"
    using g by (simp add: thread_resched_def Let_def)
  then have "sched_part (thread_resched h) = sched_part (if t = get_current_thread h then ?s2 else ?n)" by simp
  then have th: "threads (thread_resched h) = threads (if t = get_current_thread h then ?s2 else ?n)"
    "current_thread (thread_resched h) = current_thread (if t = get_current_thread h then ?s2 else ?n)"
    by (simp_all add: sched_part_def)
  show ?thesis
    by (rule exI [of _ t]) (use gt in \<open>auto simp: th get_current_thread_def note_switch_def Let_def upd_thread_def\<close>)
qed

lemma resched_leaves_asleep: "queues_ok h \<Longrightarrow> cpus_ok h \<Longrightarrow> leaves_asleep h (thread_resched h)"
proof -
  assume a: "queues_ok h" "cpus_ok h"
  obtain new where new: "new = idle_thread h (curr_cpu h) \<or> queued (threads h new)"
    "current_thread (thread_resched h) = (current_thread h)(curr_cpu h := new)"
    "t_state (threads (thread_resched h) new) = THREAD_RUNNING" "\<forall>u. t_flags (threads (thread_resched h) u) = t_flags (threads h u)"
    "\<forall>u. u \<noteq> new \<longrightarrow> t_state (threads (thread_resched h) u) = t_state (threads h u) \<and> queued (threads (thread_resched h) u) = queued (threads h u)"
    using resched_cpus [OF a] by blast
  have "thread_is_idle (threads h (idle_thread h (curr_cpu h)))" using a(2) by (simp add: cpus_ok_def)
  then have "t \<noteq> new" if "asleep h t" for t using that new(1) by (auto simp: asleep_def)
  then have "asleep (thread_resched h) t" if "asleep h t" for t
    using that new(2,4,5) by (auto simp: asleep_def thread_is_idle_def)
  moreover have "t_state (threads (thread_resched h) t) \<noteq> THREAD_BLOCKED" if "t_state (threads h t) \<noteq> THREAD_BLOCKED" for t
    using that new(3,5) by (cases "t = new") auto
  ultimately show ?thesis using thread_resched_inv [OF a] by (simp add: leaves_asleep_def)
qed

lemma block_current:
  assumes "sched_inv h" "t = get_current_thread h" "\<not> thread_is_idle (threads h t)"
  defines "h1 \<equiv> upd_thread t (\<lambda>th. th\<lparr>t_state := THREAD_BLOCKED\<rparr>) h"
  shows "sched_inv (thread_resched h1)" "asleep (thread_resched h1) t" "u \<noteq> t \<Longrightarrow> asleep h u \<Longrightarrow> asleep (thread_resched h1) u"
    "u \<noteq> t \<Longrightarrow> t_state (threads h u) \<noteq> THREAD_BLOCKED \<Longrightarrow> t_state (threads (thread_resched h1) u) \<noteq> THREAD_BLOCKED"
proof -
  have t: "\<not> queued (threads h t)" "queues_ok h" "cpus_ok h" using assms(1,2) by (auto simp: sched_inv_def)
  have a: "queues_ok h1" "cpus_ok h1"
    using t assms(2) unfolding h1_def by (auto intro!: queues_upd cpus_upd_current simp: get_current_thread_def)
  note l = resched_leaves_asleep [OF a, unfolded leaves_asleep_def]
  have h1: "threads h1 u = (if u = t then (threads h t)\<lparr>t_state := THREAD_BLOCKED\<rparr> else threads h u)" "current_thread h1 = current_thread h"
    "curr_cpu h1 = curr_cpu h" "idle_thread h1 = idle_thread h" for u
    by (simp_all add: h1_def upd_thread_def)
  show "sched_inv (thread_resched h1)" using l by blast
  show "u \<noteq> t \<Longrightarrow> asleep h u \<Longrightarrow> asleep (thread_resched h1) u" using l h1 by (simp add: asleep_def)
  show "u \<noteq> t \<Longrightarrow> t_state (threads h u) \<noteq> THREAD_BLOCKED \<Longrightarrow> t_state (threads (thread_resched h1) u) \<noteq> THREAD_BLOCKED" using l h1 by simp
  obtain new where new: "new = idle_thread h1 (curr_cpu h1) \<or> queued (threads h1 new)"
    "current_thread (thread_resched h1) = (current_thread h1)(curr_cpu h1 := new)" "\<forall>u. t_flags (threads (thread_resched h1) u) = t_flags (threads h1 u)"
    "\<forall>u. u \<noteq> new \<longrightarrow> t_state (threads (thread_resched h1) u) = t_state (threads h1 u) \<and> queued (threads (thread_resched h1) u) = queued (threads h1 u)"
    using resched_cpus [OF a] by blast
  have "thread_is_idle (threads h (idle_thread h (curr_cpu h)))" using t(3) by (simp add: cpus_ok_def)
  then have "new \<noteq> t" using new(1) assms(3) t(1) h1 by (auto simp: thread_is_idle_def split: if_splits)
  moreover have "current_thread h c \<noteq> t" if "c < 4" "c \<noteq> curr_cpu h" for c
    using that t(3) assms(2) by (auto simp: cpus_ok_def get_current_thread_def)
  ultimately show "asleep (thread_resched h1) t"
    using new(2-4) h1 t(1) assms(3) by (auto simp: asleep_def thread_is_idle_def)
qed

definition ready_thread :: "ptr \<Rightarrow> hv_state \<Rightarrow> hv_state" where
  "ready_thread t h = insert_in_run_queue_head t (upd_thread t (\<lambda>th. th\<lparr>t_state := THREAD_READY\<rparr>) h)"

lemma ready_thread_fields:
  "threads (ready_thread t h) u = (if u = t then (threads h t)\<lparr>t_state := THREAD_READY, queued := True\<rparr> else threads h u)"
  "current_thread (ready_thread t h) = current_thread h" "curr_cpu (ready_thread t h) = curr_cpu h"
  "get_current_thread (ready_thread t h) = get_current_thread h"
  by (simp_all add: ready_thread_def insert_in_run_queue_head_def upd_thread_def Let_def get_current_thread_def)

lemma ready_thread_asleep: "u \<noteq> t \<Longrightarrow> asleep h u \<Longrightarrow> asleep (ready_thread t h) u"
  by (simp add: asleep_def ready_thread_fields)

lemma ready_thread_ok:
  assumes "queues_ok h" "cpus_ok h" "\<not> queued (threads h t)" "\<not> thread_is_idle (threads h t)" "\<forall>c<4. c \<noteq> curr_cpu h \<longrightarrow> current_thread h c \<noteq> t"
  shows "queues_ok (ready_thread t h)" "cpus_ok (ready_thread t h)"
proof -
  let ?h = "upd_thread t (\<lambda>th. th\<lparr>t_state := THREAD_READY\<rparr>) h"
  have q: "queues_ok ?h" using assms(1,3) by (intro queues_upd) auto
  have c: "cpus_ok ?h" using assms(2,3) by (intro cpus_upd_current) simp_all
  show "queues_ok (ready_thread t h)" unfolding ready_thread_def
    using assms(3,4) by (intro queues_insert_head [OF q]) (simp_all add: upd_thread_def thread_is_idle_def)
  show "cpus_ok (ready_thread t h)" unfolding ready_thread_def
    using assms(5) by (intro cpus_insert(1) [OF c]) (simp add: upd_thread_def)
qed

lemma same_sched_part:
  assumes "sched_part h' = sched_part h"
  shows "asleep h' t = asleep h t" "threads h' = threads h" "queues_ok h' = queues_ok h" "cpus_ok h' = cpus_ok h" "get_current_thread h' = get_current_thread h"
  using assms by (simp_all add: sched_part_def asleep_def queues_ok_def cpus_ok_def get_current_thread_def)

lemma wake_asleep:
  assumes "sched_inv h" "asleep h t"
  defines "h1 \<equiv> wakeup_cpu_for_thread t (ready_thread t h)"
  shows "sched_inv h1" "u \<noteq> t \<Longrightarrow> asleep h u \<Longrightarrow> asleep h1 u"
    "u = t \<or> t_state (threads h u) \<noteq> THREAD_BLOCKED \<Longrightarrow> t_state (threads h1 u) \<noteq> THREAD_BLOCKED" "get_current_thread h1 = get_current_thread h"
proof -
  have p: "sched_part h1 = sched_part (ready_thread t h)" by (simp add: h1_def)
  have "curr_cpu h < 4" using assms(1) by (simp add: sched_inv_def cpus_ok_def)
  then have c: "get_current_thread h \<noteq> t" using assms(2) by (auto simp: asleep_def get_current_thread_def)
  have "queues_ok (ready_thread t h)" "cpus_ok (ready_thread t h)"
    using assms(1,2) by (auto intro!: ready_thread_ok simp: asleep_def sched_inv_def)
  then show "sched_inv h1"
    using assms(1) c by (simp add: sched_inv_part [OF p]) (simp add: sched_inv_def ready_thread_fields)
  show "u \<noteq> t \<Longrightarrow> asleep h u \<Longrightarrow> asleep h1 u" using ready_thread_asleep by (simp add: same_sched_part(1) [OF p])
  show "u = t \<or> t_state (threads h u) \<noteq> THREAD_BLOCKED \<Longrightarrow> t_state (threads h1 u) \<noteq> THREAD_BLOCKED"
    by (auto simp: same_sched_part(2) [OF p] ready_thread_fields)
  show "get_current_thread h1 = get_current_thread h" by (simp add: same_sched_part(5) [OF p] ready_thread_fields)
qed

text \<open>Waking a thread and letting it run before the current one.\<close>

lemma wake_resched:
  assumes "sched_inv h" "asleep h t" "cur = get_current_thread h" "\<not> thread_is_idle (threads h cur)"
  defines "h1 \<equiv> thread_resched (wakeup_cpu_for_thread t (insert_in_run_queue_head t (ready_thread cur (upd_thread t (\<lambda>th. th\<lparr>t_state := THREAD_READY\<rparr>) h))))"
  shows "sched_inv h1" "u \<noteq> t \<Longrightarrow> asleep h u \<Longrightarrow> asleep h1 u"
    "u = t \<or> t_state (threads h u) \<noteq> THREAD_BLOCKED \<Longrightarrow> t_state (threads h1 u) \<noteq> THREAD_BLOCKED"
proof -
  have ne: "cur \<noteq> t" using assms(1-3) by (auto simp: asleep_def get_current_thread_def sched_inv_def cpus_ok_def)
  let ?r = "ready_thread t (ready_thread cur h)"
  have "insert_in_run_queue_head t (ready_thread cur (upd_thread t (\<lambda>th. th\<lparr>t_state := THREAD_READY\<rparr>) h)) = ?r"
    using ne by (simp add: ready_thread_def insert_in_run_queue_head_def upd_thread_def Let_def fun_upd_twist)
  then have h1: "h1 = thread_resched (wakeup_cpu_for_thread t ?r)" by (simp add: h1_def)
  have p: "sched_part (wakeup_cpu_for_thread t ?r) = sched_part ?r" by simp
  have i: "queues_ok h" "cpus_ok h" "\<not> queued (threads h cur)" "\<forall>c<4. c \<noteq> curr_cpu h \<longrightarrow> current_thread h c \<noteq> cur"
    using assms(1,3) by (auto simp: sched_inv_def cpus_ok_def get_current_thread_def)
  note c = ready_thread_ok [OF i(1-3) assms(4) i(4)]
  have "queues_ok ?r" "cpus_ok ?r"
    using assms(2) ne by (auto intro!: ready_thread_ok [OF c] simp: asleep_def ready_thread_fields)
  from resched_leaves_asleep [of "wakeup_cpu_for_thread t ?r"] this
  have l: "leaves_asleep (wakeup_cpu_for_thread t ?r) h1" unfolding h1 by (simp add: same_sched_part(3,4) [OF p])
  then show "sched_inv h1" by (simp add: leaves_asleep_def)
  show "u \<noteq> t \<Longrightarrow> asleep h u \<Longrightarrow> asleep h1 u"
  proof -
    assume u: "u \<noteq> t" "asleep h u"
    have "u \<noteq> cur" using u(2) assms(1,3) by (auto simp: asleep_def get_current_thread_def sched_inv_def cpus_ok_def)
    then show "asleep h1 u" using u l ready_thread_asleep by (simp add: leaves_asleep_def same_sched_part(1) [OF p])
  qed
  show "u = t \<or> t_state (threads h u) \<noteq> THREAD_BLOCKED \<Longrightarrow> t_state (threads h1 u) \<noteq> THREAD_BLOCKED"
    using l by (auto simp: leaves_asleep_def same_sched_part(2) [OF p] ready_thread_fields)
qed

end
