(* ===== verification/Mutex.thy ===== *)
theory Mutex
  imports Wait_Queue
begin

text \<open>
  Mutual exclusion. Threads on all CPUs acquire, with and without a time limit, and release one mutex; timers fire; and the rest of the kernel does
  anything that keeps the scheduler's invariant and leaves alone the mutex and the threads in the middle of an operation on it. An operation that blocked goes
  on when its thread is scheduled again, whenever that is. The invariant says who
  may hold the mutex in every state that such steps reach.
\<close>

section \<open>Threads and a mutex\<close>

datatype op = Acquire | Release

text \<open>
  \<open>pend t\<close> is the rest of the operation a thread is in the middle of; \<open>owners\<close> are the threads that were told that they have the mutex and did not
  begin to release it.
\<close>

record sys =
  ks :: ksync
  pend :: "ptr \<Rightarrow> (op \<times> (ksync \<Rightarrow> int krun)) option"
  owners :: "ptr set"

definition complete :: "op \<Rightarrow> ptr \<Rightarrow> int krun \<Rightarrow> sys \<Rightarrow> sys option" where
  "complete opn t r S =
     (case r of
        KDone ret s \<Rightarrow> Some (S\<lparr>ks := s, pend := (pend S)(t := None), owners := (if opn = Acquire \<and> ret = NO_ERROR then insert t (owners S) else owners S)\<rparr>)
      | KSwitch s k \<Rightarrow> Some (S\<lparr>ks := s, pend := (pend S)(t := Some (opn, k))\<rparr>)
      | KPanic \<Rightarrow> None)"

text \<open>
  What the rest of the kernel may do: the mutex, its queue, and what the threads in an operation on it wait for stay; a thread asleep in the operation
  sleeps on, and one that is not blocked is not blocked by others. Other threads may do anything, and any CPU may be the one that runs next.
  The set \<open>T\<close> holds the time limits that the callers use. The timer of a wait lives in the frame of the call, so a thread that calls has none set.
  If \<open>late\<close> is true, the callback of the timer of an earlier wait may run as well: the interrupt of the timer takes it out of its queue and then waits for the lock of the
  threads, and the end of the wait, which cancels the timer, does not wait for it.
\<close>

definition others :: "ptr \<Rightarrow> sys \<Rightarrow> ksync \<Rightarrow> bool" where
  "others m S s' \<longleftrightarrow> sched_inv (hv s') \<and> mutexes s' m = mutexes (ks S) m \<and> waits s' m = waits (ks S) m \<and>
     (\<forall>t. pend S t \<noteq> None \<longrightarrow>
        blocking_wait_queue s' t = blocking_wait_queue (ks S) t \<and> wait_queue_block_ret s' t = wait_queue_block_ret (ks S) t \<and>
        armed s' t = armed (ks S) t \<and> (asleep (hv (ks S)) t \<longrightarrow> asleep (hv s') t) \<and>
        (t_state (threads (hv (ks S)) t) \<noteq> THREAD_BLOCKED \<longrightarrow> t_state (threads (hv s') t) \<noteq> THREAD_BLOCKED))"

inductive mutex_step :: "bool \<Rightarrow> u32 set \<Rightarrow> ptr \<Rightarrow> sys \<Rightarrow> sys \<Rightarrow> bool" for late T m where
  acquire: "t = this_thread (ks S) \<Longrightarrow> t \<noteq> 0 \<Longrightarrow> \<not> thread_is_idle (threads (hv (ks S)) t) \<Longrightarrow> pend S t = None \<Longrightarrow> \<not> armed (ks S) t \<Longrightarrow> timeout \<in> T \<Longrightarrow>
    complete Acquire t (mutex_acquire_timeout m timeout (ks S)) S = Some S' \<Longrightarrow> mutex_step late T m S S'"
| release: "t = this_thread (ks S) \<Longrightarrow> t \<noteq> 0 \<Longrightarrow> \<not> thread_is_idle (threads (hv (ks S)) t) \<Longrightarrow> pend S t = None \<Longrightarrow>
    complete Release t (mutex_release m (ks S)) (S\<lparr>owners := owners S - {t}\<rparr>) = Some S' \<Longrightarrow> mutex_step late T m S S'"
| resume: "t = this_thread (ks S) \<Longrightarrow> pend S t = Some (opn, k) \<Longrightarrow> complete opn t (k (ks S)) S = Some S' \<Longrightarrow> mutex_step late T m S S'"
| timeout: "pend S t = Some (Acquire, k) \<Longrightarrow> late \<or> armed (ks S) t \<Longrightarrow> wait_queue_timeout_handler t (ks S) = KDone r s \<Longrightarrow> mutex_step late T m S (S\<lparr>ks := s\<rparr>)"
| other: "others m S s' \<Longrightarrow> mutex_step late T m S (S\<lparr>ks := s'\<rparr>)"

text \<open>The mutex just initialised, no thread in an operation on it.\<close>

definition mutex_fresh :: "ptr \<Rightarrow> sys \<Rightarrow> bool" where
  "mutex_fresh m S \<longleftrightarrow> sched_inv (hv (ks S)) \<and> (\<exists>s. ks S = mutex_init m s) \<and> (\<forall>t. pend S t = None) \<and> owners S = {}"

section \<open>The invariant\<close>

definition acquiring :: "sys \<Rightarrow> ptr set" where
  "acquiring S = {t. \<exists>k. pend S t = Some (Acquire, k)}"

abbreviation (input) waiters :: "ptr \<Rightarrow> sys \<Rightarrow> ptr list" where
  "waiters m S \<equiv> wq_list (waits (ks S) m)"

definition granted :: "ptr \<Rightarrow> sys \<Rightarrow> ptr set" where
  "granted m S = {t\<in>acquiring S. t \<notin> set (waiters m S) \<and> wait_queue_block_ret (ks S) t = NO_ERROR}"

definition acquire_rest :: "ptr \<Rightarrow> ptr \<Rightarrow> u32 \<Rightarrow> ksync \<Rightarrow> int krun" where
  "acquire_rest m t timeout s =
     kbind (block_rest t timeout s) (\<lambda>ret s.
       if ret < NO_ERROR
       then KDone ret (if ret = ERR_TIMED_OUT then upd_mutex m (\<lambda>x. x\<lparr>m_count := m_count x - 1\<rparr>) s else s)
       else KDone ret (upd_mutex m (\<lambda>x. x\<lparr>holder := this_thread s\<rparr>) s))"

definition waiting_ok :: "ptr \<Rightarrow> sys \<Rightarrow> bool" where
  "waiting_ok m S \<longleftrightarrow> sched_inv (hv (ks S)) \<and> distinct (waiters m S) \<and> wq_count (waits (ks S) m) = int (length (waiters m S)) \<and>
     (\<forall>t\<in>set (waiters m S). t \<in> acquiring S \<and> asleep (hv (ks S)) t \<and> blocking_wait_queue (ks S) t = m) \<and>
     (\<forall>t\<in>acquiring S - set (waiters m S).
        t_state (threads (hv (ks S)) t) \<noteq> THREAD_BLOCKED \<and> wait_queue_block_ret (ks S) t \<in> {NO_ERROR, ERR_TIMED_OUT}) \<and>
     (\<forall>t k. pend S t = Some (Acquire, k) \<longrightarrow> t \<noteq> 0 \<and> (\<exists>timeout. k = acquire_rest m t timeout)) \<and>
     (\<forall>t k. pend S t = Some (Release, k) \<longrightarrow> k = kreturn NO_ERROR)"

definition holding_ok :: "ptr \<Rightarrow> sys \<Rightarrow> bool" where
  "holding_ok m S \<longleftrightarrow>
     (let h = holder (mutexes (ks S) m)
      in finite (acquiring S) \<and> m_count (mutexes (ks S) m) = int (card (acquiring S)) + (if h \<noteq> 0 then 1 else 0) \<and>
         owners S = (if h \<noteq> 0 then {h} else {}) \<and> h \<notin> acquiring S \<and>
         (\<forall>t\<in>granted m S. h = 0 \<and> granted m S = {t}))"

definition mutex_inv :: "ptr \<Rightarrow> sys \<Rightarrow> bool" where
  "mutex_inv m S \<longleftrightarrow> waiting_ok m S \<and> holding_ok m S"

lemma fresh_inv: "mutex_fresh m S \<Longrightarrow> mutex_inv m S"
  by (auto simp: mutex_fresh_def mutex_inv_def waiting_ok_def holding_ok_def acquiring_def granted_def mutex_init_def wait_queue_init_def
      upd_wait_def upd_mutex_def)

lemma other_inv: "mutex_inv m S \<Longrightarrow> others m S s' \<Longrightarrow> mutex_inv m (S\<lparr>ks := s'\<rparr>)"
proof -
  assume i: "mutex_inv m S" and o: "others m S s'"
  have a: "acquiring (S\<lparr>ks := s'\<rparr>) = acquiring S" by (simp add: acquiring_def)
  have p: "pend S t \<noteq> None" if "t \<in> acquiring S" for t using that by (auto simp: acquiring_def)
  have g: "granted m (S\<lparr>ks := s'\<rparr>) = granted m S" using o p by (auto simp: granted_def a others_def)
  show ?thesis using i o p by (auto simp: mutex_inv_def waiting_ok_def holding_ok_def a g others_def)
qed

lemma acquire_blocks:
  assumes "this_thread s \<noteq> holder (mutexes s m)" "m_count (mutexes s m) \<ge> 1" "timeout \<noteq> 0"
  defines "t \<equiv> this_thread s"
  shows "mutex_acquire_timeout m timeout s =
    KSwitch (s\<lparr>hv := thread_resched (upd_thread t (\<lambda>th. th\<lparr>t_state := THREAD_BLOCKED\<rparr>) (hv s)),
        waits := (waits s)(m := \<lparr>wq_list = wq_list (waits s m) @ [t], wq_count = wq_count (waits s m) + 1\<rparr>),
        blocking_wait_queue := (blocking_wait_queue s)(t := m), wait_queue_block_ret := (wait_queue_block_ret s)(t := NO_ERROR),
        armed := (if timeout \<noteq> INFINITE_TIME then (armed s)(t := True) else armed s),
        mutexes := (mutexes s)(m := (mutexes s m)\<lparr>m_count := m_count (mutexes s m) + 1\<rparr>)\<rparr>)
      (acquire_rest m t timeout)"
  using assms(1-3)
  unfolding mutex_acquire_timeout_def wait_queue_block_def upd_wait_def on_hv_def t_def Let_def acquire_rest_def [abs_def] upd_mutex_def this_thread_def
  by simp

lemma acquire_free:
  assumes "this_thread s \<noteq> holder (mutexes s m)" "m_count (mutexes s m) = 0"
  shows "mutex_acquire_timeout m timeout s = KDone NO_ERROR (s\<lparr>mutexes := (mutexes s)(m := \<lparr>holder = this_thread s, m_count = 1\<rparr>)\<rparr>)"
  using assms by (cases "mutexes s m") (simp add: mutex_acquire_timeout_def upd_mutex_def this_thread_def Let_def)

lemma acquire_at_once:
  assumes "this_thread s \<noteq> holder (mutexes s m)" "m_count (mutexes s m) \<ge> 1"
  shows "mutex_acquire_timeout m 0 s = KDone ERR_TIMED_OUT s"
  using assms by (simp add: mutex_acquire_timeout_def wait_queue_block_def upd_mutex_def this_thread_def Let_def fun_upd_idem)

lemma acquire_block_inv:
  assumes "mutex_inv m S" "t = this_thread (ks S)" "t \<noteq> 0" "\<not> thread_is_idle (threads (hv (ks S)) t)" "pend S t = None"
    "t \<noteq> holder (mutexes (ks S) m)"
    "ks S' = (ks S)\<lparr>hv := thread_resched (upd_thread t (\<lambda>th. th\<lparr>t_state := THREAD_BLOCKED\<rparr>) (hv (ks S))),
        waits := (waits (ks S))(m := \<lparr>wq_list = waiters m S @ [t], wq_count = wq_count (waits (ks S) m) + 1\<rparr>),
        blocking_wait_queue := (blocking_wait_queue (ks S))(t := m), wait_queue_block_ret := (wait_queue_block_ret (ks S))(t := NO_ERROR),
        armed := a, mutexes := (mutexes (ks S))(m := (mutexes (ks S) m)\<lparr>m_count := m_count (mutexes (ks S) m) + 1\<rparr>)\<rparr>"
    "pend S' = (pend S)(t := Some (Acquire, acquire_rest m t timeout))" "owners S' = owners S"
  shows "mutex_inv m S'"
proof -
  have w: "waiting_ok m S" and h: "holding_ok m S" using assms(1) by (auto simp: mutex_inv_def)
  have na: "t \<notin> acquiring S" using assms(5) by (simp add: acquiring_def)
  have a: "acquiring S' = insert t (acquiring S)" by (auto simp: acquiring_def assms(8))
  have nw: "t \<notin> set (waiters m S)" using w na by (auto simp: waiting_ok_def)
  have g: "granted m S' = granted m S" using na by (auto simp: granted_def a assms(7))
  have inv: "sched_inv (hv (ks S))" using w by (simp add: waiting_ok_def)
  have t: "t = get_current_thread (hv (ks S))" using assms(2) by (simp add: this_thread_def)
  note b = block_current [OF inv t assms(4)]
  have "waiting_ok m S'"
    using w b na nw assms(3) unfolding waiting_ok_def a by (auto simp: assms(7,8))
  moreover have "holding_ok m S'"
    using h na assms(6) unfolding holding_ok_def a g by (auto simp: assms(7,9) Let_def)
  ultimately show ?thesis by (simp add: mutex_inv_def)
qed

lemma acquire_cases:
  assumes "mutex_inv m S" "t = this_thread (ks S)" "pend S t = None"
    "complete Acquire t (mutex_acquire_timeout m timeout (ks S)) S = Some S'"
  obtains "acquiring S = {}" "holder (mutexes (ks S) m) = 0"
      "S' = S\<lparr>ks := (ks S)\<lparr>mutexes := (mutexes (ks S))(m := \<lparr>holder = t, m_count = 1\<rparr>)\<rparr>, owners := insert t (owners S)\<rparr>"
  | "S' = S"
  | "t \<noteq> holder (mutexes (ks S) m)" "m_count (mutexes (ks S) m) \<ge> 1"
      "ks S' = (ks S)\<lparr>hv := thread_resched (upd_thread t (\<lambda>th. th\<lparr>t_state := THREAD_BLOCKED\<rparr>) (hv (ks S))),
        waits := (waits (ks S))(m := \<lparr>wq_list = waiters m S @ [t], wq_count = wq_count (waits (ks S) m) + 1\<rparr>),
        blocking_wait_queue := (blocking_wait_queue (ks S))(t := m), wait_queue_block_ret := (wait_queue_block_ret (ks S))(t := NO_ERROR),
        armed := (if timeout \<noteq> INFINITE_TIME then (armed (ks S))(t := True) else armed (ks S)),
        mutexes := (mutexes (ks S))(m := (mutexes (ks S) m)\<lparr>m_count := m_count (mutexes (ks S) m) + 1\<rparr>)\<rparr>"
      "pend S' = (pend S)(t := Some (Acquire, acquire_rest m t timeout))" "owners S' = owners S"
proof -
  let ?x = "mutexes (ks S) m"
  have n: "t \<noteq> holder ?x" using assms(2,4) by (auto simp: mutex_acquire_timeout_def complete_def)
  have i: "holding_ok m S" using assms(1) by (simp add: mutex_inv_def)
  have pe: "(pend S)(t := None) = pend S" using assms(3) by auto
  have "m_count ?x \<ge> 0" using i by (auto simp: holding_ok_def Let_def)
  then consider "m_count ?x = 0" | "m_count ?x \<ge> 1" "timeout = 0" | "m_count ?x \<ge> 1" "timeout \<noteq> 0" by linarith
  then show ?thesis
  proof cases
    case 1
    then have "acquiring S = {}" "holder ?x = 0" using i by (auto simp: holding_ok_def Let_def split: if_splits)
    moreover have "S' = S\<lparr>ks := (ks S)\<lparr>mutexes := (mutexes (ks S))(m := \<lparr>holder = t, m_count = 1\<rparr>)\<rparr>, owners := insert t (owners S)\<rparr>"
      using assms(4) acquire_free [of "ks S" m timeout] n 1 assms(2) by (auto simp: complete_def pe [unfolded assms(2)])
    ultimately show ?thesis using that(1) by blast
  next
    case 2
    then show ?thesis
      using that(2) assms(4) acquire_at_once [of "ks S" m] n assms(2) by (auto simp: complete_def pe [unfolded assms(2)])
  next
    case 3
    show ?thesis
      by (rule that(3) [OF n 3(1)]) (use acquire_blocks [of "ks S" m timeout] assms(2,4) n 3 in \<open>auto simp: complete_def\<close>)
  qed
qed

lemma acquire_inv:
  assumes "mutex_inv m S" "t = this_thread (ks S)" "t \<noteq> 0" "\<not> thread_is_idle (threads (hv (ks S)) t)" "pend S t = None"
    "complete Acquire t (mutex_acquire_timeout m timeout (ks S)) S = Some S'"
  shows "mutex_inv m S'"
  using assms(1,2,5,6)
proof (cases rule: acquire_cases)
  case 1
  have i: "holding_ok m S" "waiting_ok m S" using assms(1) by (auto simp: mutex_inv_def)
  have a: "acquiring S' = {}" using 1(1) by (simp add: 1(3) acquiring_def)
  then have g: "granted m S' = {}" by (simp add: granted_def)
  have "waiting_ok m S'" using i(2) a 1(1) by (auto simp: waiting_ok_def 1(3))
  moreover have "holding_ok m S'" using i(1) 1(2) assms(3) unfolding holding_ok_def a g by (simp add: 1(3))
  ultimately show ?thesis by (simp add: mutex_inv_def)
next
  case 3
  show ?thesis by (rule acquire_block_inv [OF assms(1-5) 3(1,3,4,5)])
qed (use assms(1) in simp)

lemma release_wakes:
  assumes "wq_list (waits s m) = u # us"
  defines "t \<equiv> this_thread s"
  shows "wait_queue_wake_one m True err s =
    KSwitch (s\<lparr>hv := thread_resched (wakeup_cpu_for_thread u (insert_in_run_queue_head u
          (ready_thread t (upd_thread u (\<lambda>th. th\<lparr>t_state := THREAD_READY\<rparr>) (hv s))))),
        waits := (waits s)(m := \<lparr>wq_list = us, wq_count = wq_count (waits s m) - 1\<rparr>),
        blocking_wait_queue := (blocking_wait_queue s)(u := 0), wait_queue_block_ret := (wait_queue_block_ret s)(u := err)\<rparr>)
      (kreturn 1)"
  using assms(1)
  by (simp add: wait_queue_wake_one_def upd_wait_def woken_def on_hv_def ready_current_def this_thread_def t_def Let_def ready_thread_def
      get_current_thread_def upd_thread_def)

lemma release_switches:
  assumes "this_thread s = holder (mutexes s m)" "m_count (mutexes s m) \<ge> 2" "wq_list (waits s m) = u # us"
  defines "t \<equiv> this_thread s"
  shows "mutex_release m s =
    KSwitch (s\<lparr>mutexes := (mutexes s)(m := \<lparr>holder = 0, m_count = m_count (mutexes s m) - 1\<rparr>),
        hv := thread_resched (wakeup_cpu_for_thread u (insert_in_run_queue_head u
          (ready_thread t (upd_thread u (\<lambda>th. th\<lparr>t_state := THREAD_READY\<rparr>) (hv s))))),
        waits := (waits s)(m := \<lparr>wq_list = us, wq_count = wq_count (waits s m) - 1\<rparr>),
        blocking_wait_queue := (blocking_wait_queue s)(u := 0), wait_queue_block_ret := (wait_queue_block_ret s)(u := NO_ERROR)\<rparr>)
      (kreturn NO_ERROR)"
proof -
  let ?s = "upd_mutex m (\<lambda>x. \<lparr>holder = 0, m_count = m_count x - 1\<rparr>) s"
  have l: "wq_list (waits ?s m) = u # us" using assms(3) by (simp add: upd_mutex_def)
  have "mutex_release m s = kbind (wait_queue_wake_one m True NO_ERROR ?s) (\<lambda>_. kreturn NO_ERROR)"
    using assms(1,2) by (simp add: mutex_release_def upd_mutex_def Let_def)
  then show ?thesis unfolding release_wakes [OF l] by (simp add: upd_mutex_def this_thread_def t_def)
qed

lemma release_wake_inv:
  assumes "mutex_inv m S" "t = this_thread (ks S)" "t \<noteq> 0" "\<not> thread_is_idle (threads (hv (ks S)) t)" "pend S t = None"
    "t = holder (mutexes (ks S) m)" "waiters m S = u # us"
    "ks S' = (ks S)\<lparr>mutexes := (mutexes (ks S))(m := \<lparr>holder = 0, m_count = m_count (mutexes (ks S) m) - 1\<rparr>),
        hv := thread_resched (wakeup_cpu_for_thread u (insert_in_run_queue_head u
          (ready_thread t (upd_thread u (\<lambda>th. th\<lparr>t_state := THREAD_READY\<rparr>) (hv (ks S)))))),
        waits := (waits (ks S))(m := \<lparr>wq_list = us, wq_count = wq_count (waits (ks S) m) - 1\<rparr>),
        blocking_wait_queue := (blocking_wait_queue (ks S))(u := 0), wait_queue_block_ret := (wait_queue_block_ret (ks S))(u := NO_ERROR)\<rparr>"
    "pend S' = (pend S)(t := Some (Release, kreturn NO_ERROR))" "owners S' = owners S - {t}"
  shows "mutex_inv m S'"
proof -
  have w: "waiting_ok m S" and h: "holding_ok m S" using assms(1) by (auto simp: mutex_inv_def)
  have na: "t \<notin> acquiring S" using assms(5) by (simp add: acquiring_def)
  have a: "acquiring S' = acquiring S" using assms(5) by (auto simp: acquiring_def assms(9))
  have u: "u \<in> acquiring S" "asleep (hv (ks S)) u" "u \<notin> set us" "distinct us" using w assms(7) by (auto simp: waiting_ok_def)
  have "granted m S = {}" using h assms(3,6) by (auto simp: holding_ok_def Let_def)
  then have g: "granted m S' = {u}" using u assms(7) by (auto simp: granted_def a assms(8))
  have z: "0 \<notin> acquiring S" using w by (auto simp: waiting_ok_def acquiring_def)
  have inv: "sched_inv (hv (ks S))" using w by (simp add: waiting_ok_def)
  have t: "t = get_current_thread (hv (ks S))" using assms(2) by (simp add: this_thread_def)
  note b = wake_resched [OF inv u(2) t assms(4)]
  have "waiting_ok m S'"
    using w b u assms(7) unfolding waiting_ok_def a by (auto simp: assms(8,9))
  moreover have "holding_ok m S'"
    using h z assms(3,6) unfolding holding_ok_def a g by (auto simp: assms(8,10) Let_def)
  ultimately show ?thesis by (simp add: mutex_inv_def)
qed

lemma release_cases:
  assumes "mutex_inv m S" "t = this_thread (ks S)" "t \<noteq> 0" "pend S t = None"
    "complete Release t (mutex_release m (ks S)) (S\<lparr>owners := owners S - {t}\<rparr>) = Some S'"
  obtains "t = holder (mutexes (ks S) m)" "waiters m S = []"
      "S' = S\<lparr>ks := upd_mutex m (\<lambda>x. \<lparr>holder = 0, m_count = m_count x - 1\<rparr>) (ks S), owners := {}\<rparr>"
  | u us where "t = holder (mutexes (ks S) m)" "waiters m S = u # us"
      "ks S' = (ks S)\<lparr>mutexes := (mutexes (ks S))(m := \<lparr>holder = 0, m_count = m_count (mutexes (ks S) m) - 1\<rparr>),
        hv := thread_resched (wakeup_cpu_for_thread u (insert_in_run_queue_head u
          (ready_thread t (upd_thread u (\<lambda>th. th\<lparr>t_state := THREAD_READY\<rparr>) (hv (ks S)))))),
        waits := (waits (ks S))(m := \<lparr>wq_list = us, wq_count = wq_count (waits (ks S) m) - 1\<rparr>),
        blocking_wait_queue := (blocking_wait_queue (ks S))(u := 0), wait_queue_block_ret := (wait_queue_block_ret (ks S))(u := NO_ERROR)\<rparr>"
      "pend S' = (pend S)(t := Some (Release, kreturn NO_ERROR))" "owners S' = owners S - {t}"
proof -
  let ?x = "mutexes (ks S) m" and ?s = "upd_mutex m (\<lambda>x. \<lparr>holder = 0, m_count = m_count x - 1\<rparr>) (ks S)"
  have n: "t = holder ?x" using assms(2,5) by (auto simp: mutex_release_def complete_def split: if_splits)
  have i: "holding_ok m S" "waiting_ok m S" using assms(1) by (auto simp: mutex_inv_def)
  have c: "m_count ?x = int (card (acquiring S)) + 1" "finite (acquiring S)" "owners S = {t}"
    using i(1) n assms(3) by (auto simp: holding_ok_def Let_def)
  have pe: "(pend S)(t := None) = pend S" using assms(4) by auto
  show ?thesis
  proof (cases "waiters m S")
    case Nil
    have "mutex_release m (ks S) = KDone NO_ERROR ?s"
      using n assms(2) Nil by (simp add: mutex_release_def upd_mutex_def Let_def wait_queue_wake_one_def kreturn_def)
    then have "S' = S\<lparr>ks := ?s, owners := {}\<rparr>" using assms(5) by (simp add: complete_def pe c(3))
    then show ?thesis using that(1) n Nil by blast
  next
    case (Cons u us)
    then have "u \<in> acquiring S" using i(2) by (simp add: waiting_ok_def)
    then have "card (acquiring S) \<ge> 1" using card_gt_0_iff [of "acquiring S"] c(2) by auto
    then show ?thesis
      by (intro that(2) [OF n Cons])
        (use release_switches [of "ks S" m u us] assms(2,5) n c(1) Cons in \<open>auto simp: complete_def\<close>)
  qed
qed

lemma release_inv:
  assumes "mutex_inv m S" "t = this_thread (ks S)" "t \<noteq> 0" "\<not> thread_is_idle (threads (hv (ks S)) t)" "pend S t = None"
    "complete Release t (mutex_release m (ks S)) (S\<lparr>owners := owners S - {t}\<rparr>) = Some S'"
  shows "mutex_inv m S'"
  using assms(1-3,5,6)
proof (cases rule: release_cases)
  case 1
  have i: "holding_ok m S" "waiting_ok m S" using assms(1) by (auto simp: mutex_inv_def)
  have z: "0 \<notin> acquiring S" using i(2) by (auto simp: waiting_ok_def acquiring_def)
  have c: "granted m S = {}" using i(1) 1(1) assms(3) by (auto simp: holding_ok_def Let_def)
  have a: "acquiring S' = acquiring S" by (simp add: 1(3) acquiring_def)
  have g: "granted m S' = {}" using c by (auto simp: 1(3) acquiring_def granted_def upd_mutex_def)
  have "waiting_ok m S'" using i(2) unfolding waiting_ok_def a by (auto simp: 1(2,3) upd_mutex_def)
  moreover have "holding_ok m S'" using i(1) z 1(1) assms(3) unfolding holding_ok_def a g by (simp add: 1(3) upd_mutex_def Let_def)
  ultimately show ?thesis by (simp add: mutex_inv_def)
next
  case (2 u us)
  show ?thesis by (rule release_wake_inv [OF assms(1-5) 2(1-5)])
qed

lemma acquire_rest_runs:
  assumes "wait_queue_block_ret s t \<in> {NO_ERROR, ERR_TIMED_OUT}" "t = this_thread s"
  shows "\<exists>a. acquire_rest m t timeout s = KDone (wait_queue_block_ret s t)
    (s\<lparr>armed := a, mutexes := (mutexes s)(m := (if wait_queue_block_ret s t = NO_ERROR then (mutexes s m)\<lparr>holder := t\<rparr>
       else (mutexes s m)\<lparr>m_count := m_count (mutexes s m) - 1\<rparr>))\<rparr>) \<and> (\<forall>u. a u \<longrightarrow> armed s u)"
  by (rule exI [of _ "if timeout \<noteq> INFINITE_TIME then (armed s)(t := False) else armed s"])
    (use assms in \<open>auto simp: acquire_rest_def block_rest_def Let_def upd_mutex_def this_thread_def\<close>)

lemma acquire_resume_cases:
  assumes "mutex_inv m S" "t = this_thread (ks S)" "pend S t = Some (Acquire, k)" "complete Acquire t (k (ks S)) S = Some S'"
  defines "x \<equiv> mutexes (ks S) m" and "r \<equiv> wait_queue_block_ret (ks S) t"
  obtains a where "t \<noteq> 0" "t \<in> acquiring S" "t \<notin> set (waiters m S)" "r \<in> {NO_ERROR, ERR_TIMED_OUT}" "pend S' = (pend S)(t := None)"
    "owners S' = (if r = NO_ERROR then insert t (owners S) else owners S)"
    "ks S' = (ks S)\<lparr>armed := a, mutexes := (mutexes (ks S))(m := (if r = NO_ERROR then x\<lparr>holder := t\<rparr> else x\<lparr>m_count := m_count x - 1\<rparr>))\<rparr>"
    "\<forall>u. a u \<longrightarrow> armed (ks S) u"
proof -
  have i: "waiting_ok m S" using assms(1) by (auto simp: mutex_inv_def)
  have ta: "t \<in> acquiring S" using assms(3) by (simp add: acquiring_def)
  obtain timeout where k: "k = acquire_rest m t timeout" and nz: "t \<noteq> 0" using i assms(3) unfolding waiting_ok_def by blast
  have "\<not> asleep (hv (ks S)) t" using i assms(2) by (auto simp: asleep_def this_thread_def get_current_thread_def waiting_ok_def sched_inv_def cpus_ok_def)
  then have tw: "t \<notin> set (waiters m S)" using i by (auto simp: waiting_ok_def)
  then have r: "r \<in> {NO_ERROR, ERR_TIMED_OUT}" using i ta by (auto simp: waiting_ok_def r_def)
  obtain a where run: "k (ks S) = KDone r ((ks S)\<lparr>armed := a, mutexes := (mutexes (ks S))(m := (if r = NO_ERROR then x\<lparr>holder := t\<rparr>
       else x\<lparr>m_count := m_count x - 1\<rparr>))\<rparr>)" "\<forall>u. a u \<longrightarrow> armed (ks S) u"
    using acquire_rest_runs [OF r [unfolded r_def] assms(2)] k unfolding r_def x_def by blast
  show ?thesis
    by (rule that [OF nz ta tw r _ _ _ run(2)]) (use assms(4) in \<open>auto simp: run(1) complete_def\<close>)
qed

lemma acquire_resume_inv:
  assumes "mutex_inv m S" "t = this_thread (ks S)" "pend S t = Some (Acquire, k)" "complete Acquire t (k (ks S)) S = Some S'"
  shows "mutex_inv m S'"
proof -
  let ?x = "mutexes (ks S) m" and ?r = "wait_queue_block_ret (ks S) t"
  have i: "holding_ok m S" "waiting_ok m S" using assms(1) by (auto simp: mutex_inv_def)
  obtain a where t: "t \<noteq> 0" "t \<in> acquiring S" "t \<notin> set (waiters m S)" "?r \<in> {NO_ERROR, ERR_TIMED_OUT}"
    and S': "pend S' = (pend S)(t := None)" "owners S' = (if ?r = NO_ERROR then insert t (owners S) else owners S)"
      "ks S' = (ks S)\<lparr>armed := a, mutexes := (mutexes (ks S))(m := (if ?r = NO_ERROR then ?x\<lparr>holder := t\<rparr> else ?x\<lparr>m_count := m_count ?x - 1\<rparr>))\<rparr>"
    using assms by (rule acquire_resume_cases)
  have a: "acquiring S' = acquiring S - {t}" by (auto simp: acquiring_def S'(1))
  have g: "granted m S' = granted m S - {t}" by (auto simp: granted_def a S'(3))
  have tg: "?r = NO_ERROR \<Longrightarrow> t \<in> granted m S" using t by (simp add: granted_def)
  have c: "finite (acquiring S)" "int (card (acquiring S - {t})) = int (card (acquiring S)) - 1"
    using i(1) t(2) card_Suc_Diff1 [of "acquiring S" t] by (auto simp: holding_ok_def Let_def)
  have "waiting_ok m S'" using i(2) t unfolding waiting_ok_def a by (auto simp: S')
  moreover have "holding_ok m S'"
  proof (cases "?r = NO_ERROR")
    case True
    then have h: "holder ?x = 0" "granted m S = {t}" using i(1) tg by (auto simp: holding_ok_def Let_def)
    show ?thesis using i(1) c True t(1) unfolding holding_ok_def a g h(2) by (simp add: S' h(1) Let_def)
  next
    case False
    then have "t \<notin> granted m S" by (simp add: granted_def)
    then show ?thesis using i(1) c False unfolding holding_ok_def a g by (auto simp: S' Let_def)
  qed
  ultimately show ?thesis by (simp add: mutex_inv_def)
qed

lemma release_resumes:
  assumes "mutex_inv m S" "pend S t = Some (Release, k)" "complete Release t (k (ks S)) S = Some S'"
  shows "S' = S\<lparr>pend := (pend S)(t := None)\<rparr>" "acquiring S' = acquiring S"
proof -
  have "k = kreturn NO_ERROR" using assms(1,2) by (simp add: mutex_inv_def waiting_ok_def)
  then show "S' = S\<lparr>pend := (pend S)(t := None)\<rparr>" using assms(3) by (simp add: complete_def kreturn_def)
  then show "acquiring S' = acquiring S" using assms(2) by (auto simp: acquiring_def)
qed

lemma release_resume_inv:
  assumes "mutex_inv m S" "pend S t = Some (Release, k)" "complete Release t (k (ks S)) S = Some S'"
  shows "mutex_inv m S'"
proof -
  note S' = release_resumes(1) [OF assms] and a = release_resumes(2) [OF assms]
  then have g: "granted m S' = granted m S" by (simp add: S' granted_def)
  show ?thesis using assms(1) unfolding mutex_inv_def waiting_ok_def holding_ok_def a g by (auto simp: S')
qed

lemma timeout_wake_inv:
  assumes "mutex_inv m S" "m \<noteq> 0" "t \<in> set (waiters m S)"
    "S' = S\<lparr>ks := (ks S)\<lparr>armed := (armed (ks S))(t := False), waits := (waits (ks S))(m := \<lparr>wq_list = remove1 t (waiters m S),
        wq_count = wq_count (waits (ks S) m) - 1\<rparr>), hv := wakeup_cpu_for_thread t (ready_thread t (hv (ks S))),
      wait_queue_block_ret := (wait_queue_block_ret (ks S))(t := ERR_TIMED_OUT), blocking_wait_queue := (blocking_wait_queue (ks S))(t := 0)\<rparr>\<rparr>"
  shows "mutex_inv m S'"
proof -
  have i: "holding_ok m S" "waiting_ok m S" using assms(1) by (auto simp: mutex_inv_def)
  then have w: "asleep (hv (ks S)) t" "distinct (waiters m S)" "sched_inv (hv (ks S))"
    using assms(3) by (auto simp: waiting_ok_def)
  have a: "acquiring S' = acquiring S" by (simp add: acquiring_def assms(4))
  have g: "granted m S' = granted m S" using assms(3) w(2) unfolding granted_def a by (auto simp: assms(4))
  have l: "int (length (waiters m S) - Suc 0) = int (length (waiters m S)) - 1" using assms(3) by (cases "waiters m S") auto
  note b = wake_asleep [OF w(3,1)]
  have q: "waiters m S' = remove1 t (waiters m S)" "set (remove1 t (waiters m S)) = set (waiters m S) - {t}" "distinct (remove1 t (waiters m S))"
    "pend S' = pend S" "wq_count (waits (ks S') m) = wq_count (waits (ks S) m) - 1" "hv (ks S') = wakeup_cpu_for_thread t (ready_thread t (hv (ks S)))"
    using w(2) by (simp_all add: assms(4))
  have "u \<in> acquiring S \<and> asleep (hv (ks S')) u \<and> blocking_wait_queue (ks S') u = m" if "u \<in> set (waiters m S) - {t}" for u
    using that i(2) b(2) [of u] unfolding waiting_ok_def q(6) by (simp add: assms(4))
  moreover have "t_state (threads (hv (ks S')) u) \<noteq> THREAD_BLOCKED \<and> wait_queue_block_ret (ks S') u \<in> {NO_ERROR, ERR_TIMED_OUT}"
    if "u \<in> acquiring S - (set (waiters m S) - {t})" for u
    using that i(2) b(3) [of u] unfolding waiting_ok_def q(6) by (cases "u = t") (simp_all add: assms(4))
  ultimately have "waiting_ok m S'"
    using i(2) b(1) assms(3) l unfolding waiting_ok_def a q by (simp add: q length_remove1)
  moreover have "holding_ok m S'" using i(1) unfolding holding_ok_def a g by (simp add: assms(4))
  ultimately show ?thesis by (simp add: mutex_inv_def)
qed

text \<open>The handler does nothing to a thread that was woken before, and takes a waiting one out of the queue.\<close>

lemma timeout_cases:
  assumes "mutex_inv m S" "m \<noteq> 0" "pend S t = Some (Acquire, k)" "wait_queue_timeout_handler t (ks S) = KDone r s"
  obtains "t \<notin> set (waiters m S)" "s = (ks S)\<lparr>armed := (armed (ks S))(t := False)\<rparr>"
  | "t \<in> set (waiters m S)" "s = (ks S)\<lparr>armed := (armed (ks S))(t := False), waits := (waits (ks S))(m := \<lparr>wq_list = remove1 t (waiters m S),
          wq_count = wq_count (waits (ks S) m) - 1\<rparr>), hv := wakeup_cpu_for_thread t (ready_thread t (hv (ks S))),
        wait_queue_block_ret := (wait_queue_block_ret (ks S))(t := ERR_TIMED_OUT), blocking_wait_queue := (blocking_wait_queue (ks S))(t := 0)\<rparr>"
proof (cases "t \<in> set (waiters m S)")
  case False
  then have "t_state (threads (hv (ks S)) t) \<noteq> THREAD_BLOCKED" using assms(1,3) by (simp add: mutex_inv_def waiting_ok_def acquiring_def)
  then have "s = (ks S)\<lparr>armed := (armed (ks S))(t := False)\<rparr>"
    using assms(4) by (simp add: wait_queue_timeout_handler_def thread_unblock_from_wait_queue_def kreturn_def)
  then show ?thesis using that(1) False by blast
next
  case True
  then have w: "asleep (hv (ks S)) t" "blocking_wait_queue (ks S) t = m"
    using assms(1) by (auto simp: mutex_inv_def waiting_ok_def)
  show ?thesis
    by (rule that(2) [OF True])
      (use assms(2,4) w in \<open>auto simp: wait_queue_timeout_handler_def thread_unblock_from_wait_queue_def kreturn_def asleep_def upd_wait_def woken_def
          on_hv_def ready_thread_def Let_def\<close>)
qed

lemma timeout_inv:
  assumes "mutex_inv m S" "m \<noteq> 0" "pend S t = Some (Acquire, k)" "wait_queue_timeout_handler t (ks S) = KDone r s"
  shows "mutex_inv m (S\<lparr>ks := s\<rparr>)"
  using assms
proof (cases rule: timeout_cases)
  case 1
  let ?S = "S\<lparr>ks := s\<rparr>"
  have a: "acquiring ?S = acquiring S" by (simp add: acquiring_def)
  have g: "granted m ?S = granted m S" unfolding granted_def a by (simp add: 1)
  show ?thesis using assms(1) unfolding mutex_inv_def waiting_ok_def holding_ok_def a g by (simp add: 1)
next
  case 2
  show ?thesis by (rule timeout_wake_inv [OF assms(1,2) 2(1)]) (simp add: 2(2))
qed

lemma mutex_step_inv: "mutex_step late T m S S' \<Longrightarrow> m \<noteq> 0 \<Longrightarrow> mutex_inv m S \<Longrightarrow> mutex_inv m S'"
proof (induction rule: mutex_step.induct)
  case (resume t S opn k S')
  then show ?case using acquire_resume_inv release_resume_inv by (cases opn) blast+
qed (blast intro: acquire_inv release_inv timeout_inv other_inv)+

lemma mutex_reachable_inv: "(mutex_step late T m)\<^sup>*\<^sup>* S0 S \<Longrightarrow> mutex_inv m S0 \<Longrightarrow> m \<noteq> 0 \<Longrightarrow> mutex_inv m S"
  by (induction rule: rtranclp_induct) (auto intro: mutex_step_inv)

section \<open>Waits without a limit\<close>

definition handed_over :: "ptr \<Rightarrow> sys \<Rightarrow> bool" where
  "handed_over m S \<longleftrightarrow> (\<forall>t\<in>acquiring S. \<not> armed (ks S) t \<and> (t \<notin> set (waiters m S) \<longrightarrow> wait_queue_block_ret (ks S) t = NO_ERROR)) \<and>
     (waiters m S \<noteq> [] \<and> holder (mutexes (ks S) m) = 0 \<longrightarrow> granted m S \<noteq> {})"

lemma handed_over_acquire:
  assumes "mutex_inv m S" "handed_over m S" "t = this_thread (ks S)" "pend S t = None" "t \<noteq> 0" "\<not> armed (ks S) t"
    "complete Acquire t (mutex_acquire_timeout m INFINITE_TIME (ks S)) S = Some S'"
  shows "handed_over m S'"
  using assms(1,3,4,7)
proof (cases rule: acquire_cases)
  case 1
  have "acquiring S' = {}" using 1(1) by (simp add: 1(3) acquiring_def)
  then show ?thesis using assms(5) by (simp add: handed_over_def 1(3))
next
  case 3
  have i: "holding_ok m S" "waiting_ok m S" using assms(1) by (auto simp: mutex_inv_def)
  have na: "t \<notin> acquiring S" using assms(4) by (simp add: acquiring_def)
  have a: "acquiring S' = insert t (acquiring S)" by (auto simp: acquiring_def 3(4))
  have g: "granted m S' = granted m S" using na by (auto simp: granted_def a 3(3))
  have "granted m S \<noteq> {}" if "holder (mutexes (ks S) m) = 0"
  proof (cases "waiters m S = []")
    case True
    have "acquiring S \<noteq> {}" using i(1) 3(2) that by (auto simp: holding_ok_def Let_def)
    then show ?thesis using assms(2) True by (auto simp: handed_over_def granted_def)
  qed (use assms(2) that in \<open>simp add: handed_over_def\<close>)
  then show ?thesis using assms(2,6) na unfolding handed_over_def a g by (auto simp: 3(3))
qed (use assms(2) in simp)

lemma handed_over_release:
  assumes "mutex_inv m S" "handed_over m S" "t = this_thread (ks S)" "t \<noteq> 0" "pend S t = None"
    "complete Release t (mutex_release m (ks S)) (S\<lparr>owners := owners S - {t}\<rparr>) = Some S'"
  shows "handed_over m S'"
  using assms(1,3,4,5,6)
proof (cases rule: release_cases)
  case 1
  have a: "acquiring S' = acquiring S" by (simp add: 1(3) acquiring_def)
  show ?thesis using assms(2) unfolding handed_over_def a by (simp add: 1(2,3) upd_mutex_def)
next
  case (2 u us)
  have a: "acquiring S' = acquiring S" using assms(5) by (auto simp: acquiring_def 2(4))
  have "u \<in> acquiring S" "u \<notin> set us" using assms(1) 2(2) by (auto simp: mutex_inv_def waiting_ok_def)
  then have "u \<in> granted m S'" by (simp add: granted_def a 2(3))
  then show ?thesis using assms(2) 2(2) unfolding handed_over_def a by (auto simp: 2(3))
qed

lemma handed_over_resume:
  assumes "mutex_inv m S" "handed_over m S" "t = this_thread (ks S)" "pend S t = Some (Acquire, k)" "complete Acquire t (k (ks S)) S = Some S'"
  shows "handed_over m S'"
proof -
  let ?x = "mutexes (ks S) m" and ?r = "wait_queue_block_ret (ks S) t"
  obtain a where t: "t \<noteq> 0" "t \<in> acquiring S" "t \<notin> set (waiters m S)" "?r \<in> {NO_ERROR, ERR_TIMED_OUT}"
    and S': "pend S' = (pend S)(t := None)" "owners S' = (if ?r = NO_ERROR then insert t (owners S) else owners S)"
      "ks S' = (ks S)\<lparr>armed := a, mutexes := (mutexes (ks S))(m := (if ?r = NO_ERROR then ?x\<lparr>holder := t\<rparr> else ?x\<lparr>m_count := m_count ?x - 1\<rparr>))\<rparr>"
      and ar: "\<forall>u. a u \<longrightarrow> armed (ks S) u"
    using assms(1,3,4,5) by (rule acquire_resume_cases)
  have r: "?r = NO_ERROR" using assms(2) t by (simp add: handed_over_def)
  have a: "acquiring S' = acquiring S - {t}" by (auto simp: acquiring_def S'(1))
  show ?thesis using assms(2) t(1) ar unfolding handed_over_def a by (auto simp: S'(3) r)
qed

lemma handed_over_other:
  assumes "handed_over m S" "others m S s'"
  shows "handed_over m (S\<lparr>ks := s'\<rparr>)"
proof -
  let ?S = "S\<lparr>ks := s'\<rparr>"
  have a: "acquiring ?S = acquiring S" by (simp add: acquiring_def)
  have p: "pend S t \<noteq> None" if "t \<in> acquiring S" for t using that by (auto simp: acquiring_def)
  have g: "granted m ?S = granted m S" using assms(2) p by (auto simp: granted_def a others_def)
  show ?thesis using assms p unfolding handed_over_def a g by (auto simp: others_def)
qed

lemma handed_over_step:
  assumes "mutex_step False {INFINITE_TIME} m S S'" "m \<noteq> 0" "mutex_inv m S" "handed_over m S"
  shows "handed_over m S'"
  using assms
proof (induction rule: mutex_step.induct)
  case (acquire t S timeout S')
  then show ?case using handed_over_acquire by simp
next
  case (release t S S')
  then show ?case using handed_over_release by blast
next
  case (resume t S opn k S')
  show ?case
  proof (cases opn)
    case Acquire
    then show ?thesis using handed_over_resume resume by blast
  next
    case Release
    then have "S' = S\<lparr>pend := (pend S)(t := None)\<rparr>" "acquiring S' = acquiring S" using release_resumes resume by blast+
    then show ?thesis using resume.prems(3) by (simp add: handed_over_def granted_def)
  qed
next
  case (timeout S t k r s)
  then have "t \<in> acquiring S" by (simp add: acquiring_def)
  then show ?case using timeout by (auto simp: handed_over_def)
next
  case (other S s')
  then show ?case using handed_over_other by blast
qed

lemma fresh_handed_over: "mutex_fresh m S \<Longrightarrow> handed_over m S"
  by (auto simp: mutex_fresh_def handed_over_def acquiring_def mutex_init_def wait_queue_init_def upd_wait_def)

section \<open>A wake-up that is lost\<close>

text \<open>
  The mutex is free, no woken thread is about to take it, and a thread waits without a limit.
\<close>

definition forgotten :: "ptr \<Rightarrow> ptr \<Rightarrow> sys \<Rightarrow> bool" where
  "forgotten m v S \<longleftrightarrow> holder (mutexes (ks S) m) = 0 \<and> granted m S = {} \<and> v \<in> set (waiters m S) \<and> \<not> armed (ks S) v"

lemma forgotten_acquire:
  assumes "mutex_inv m S" "forgotten m v S" "t = this_thread (ks S)" "pend S t = None"
    "complete Acquire t (mutex_acquire_timeout m timeout (ks S)) S = Some S'"
  shows "forgotten m v S'"
proof -
  have v: "v \<in> acquiring S" using assms(1,2) by (auto simp: forgotten_def mutex_inv_def waiting_ok_def)
  have na: "t \<notin> acquiring S" using assms(4) by (simp add: acquiring_def)
  show ?thesis
    using assms(1,3,4,5)
  proof (cases rule: acquire_cases)
    case 3
    have a: "acquiring S' = insert t (acquiring S)" by (auto simp: acquiring_def 3(4))
    have g: "granted m S' = granted m S" using na by (auto simp: granted_def a 3(3))
    show ?thesis using assms(2) na v unfolding forgotten_def g by (auto simp: 3(3))
  qed (use v assms(2) in auto)
qed

lemma forgotten_resume:
  assumes "mutex_inv m S" "forgotten m v S" "t = this_thread (ks S)" "pend S t = Some (Acquire, k)" "complete Acquire t (k (ks S)) S = Some S'"
  shows "forgotten m v S'"
proof -
  let ?x = "mutexes (ks S) m" and ?r = "wait_queue_block_ret (ks S) t"
  obtain a where t: "t \<noteq> 0" "t \<in> acquiring S" "t \<notin> set (waiters m S)" "?r \<in> {NO_ERROR, ERR_TIMED_OUT}"
    and S': "pend S' = (pend S)(t := None)" "owners S' = (if ?r = NO_ERROR then insert t (owners S) else owners S)"
      "ks S' = (ks S)\<lparr>armed := a, mutexes := (mutexes (ks S))(m := (if ?r = NO_ERROR then ?x\<lparr>holder := t\<rparr> else ?x\<lparr>m_count := m_count ?x - 1\<rparr>))\<rparr>"
      and ar: "\<forall>u. a u \<longrightarrow> armed (ks S) u"
    using assms(1,3,4,5) by (rule acquire_resume_cases)
  have r: "?r \<noteq> NO_ERROR" using assms(2) t by (auto simp: forgotten_def granted_def)
  have a: "acquiring S' = acquiring S - {t}" by (auto simp: acquiring_def S'(1))
  have g: "granted m S' = granted m S - {t}" by (auto simp: granted_def a S'(3))
  show ?thesis using assms(2) ar r unfolding forgotten_def g by (auto simp: S'(3))
qed

lemma forgotten_timeout:
  assumes "mutex_inv m S" "forgotten m v S" "m \<noteq> 0" "pend S t = Some (Acquire, k)" "armed (ks S) t" "wait_queue_timeout_handler t (ks S) = KDone r s"
  shows "forgotten m v (S\<lparr>ks := s\<rparr>)"
proof -
  let ?S = "S\<lparr>ks := s\<rparr>"
  have a: "acquiring ?S = acquiring S" by (simp add: acquiring_def)
  have n: "t \<noteq> v" using assms(2,5) by (auto simp: forgotten_def)
  have d: "distinct (waiters m S)" using assms(1) by (auto simp: mutex_inv_def waiting_ok_def)
  show ?thesis
    using assms(1,3,4,6)
  proof (cases rule: timeout_cases)
    case 1
    then show ?thesis using assms(2) by (simp add: forgotten_def granted_def acquiring_def)
  next
    case 2
    have "granted m ?S = granted m S" using 2(1) d unfolding granted_def a by (auto simp: 2(2))
    then show ?thesis using assms(2) n d by (simp add: forgotten_def 2(2))
  qed
qed

lemma forgotten_other:
  assumes "mutex_inv m S" "forgotten m v S" "others m S s'"
  shows "forgotten m v (S\<lparr>ks := s'\<rparr>)"
proof -
  let ?S = "S\<lparr>ks := s'\<rparr>"
  have a: "acquiring ?S = acquiring S" by (simp add: acquiring_def)
  have p: "pend S t \<noteq> None" if "t \<in> acquiring S" for t using that by (auto simp: acquiring_def)
  have g: "granted m ?S = granted m S" using assms(3) p by (auto simp: granted_def a others_def)
  have "v \<in> acquiring S" using assms(1,2) by (auto simp: forgotten_def mutex_inv_def waiting_ok_def)
  then show ?thesis using assms(2,3) p unfolding forgotten_def g by (auto simp: others_def)
qed

lemma forgotten_step:
  assumes "mutex_step False T m S S'" "m \<noteq> 0" "mutex_inv m S" "forgotten m v S"
  shows "forgotten m v S'"
  using assms
proof (induction rule: mutex_step.induct)
  case (acquire t S timeout S')
  then show ?case using forgotten_acquire by blast
next
  case (release t S S')
  then have "t \<noteq> holder (mutexes (ks S) m)" by (simp add: forgotten_def)
  then show ?case using release by (simp add: mutex_release_def complete_def)
next
  case (resume t S opn k S')
  show ?case
  proof (cases opn)
    case Acquire
    then show ?thesis using forgotten_resume resume by blast
  next
    case Release
    then have "S' = S\<lparr>pend := (pend S)(t := None)\<rparr>" "acquiring S' = acquiring S" using release_resumes resume by blast+
    then show ?thesis using resume.prems(3) by (simp add: forgotten_def granted_def)
  qed
next
  case (timeout S t k r s)
  then show ?case using forgotten_timeout by blast
next
  case (other S s')
  then show ?case using forgotten_other by blast
qed

section \<open>Four CPUs\<close>

text \<open>
  Threads 11, 12 and 13 run on CPUs 0, 1 and 2, except for those of 12 and 13 that are blocked; the idle threads are 1 to 4.
\<close>

definition busy :: "nat \<Rightarrow> ptr list \<Rightarrow> hv_state" where
  "busy c b = state0\<lparr>curr_cpu := c,
     threads := (\<lambda>t. zero_thread\<lparr>t_flags := if t \<in> {1, 2, 3, 4} then 16 else 0, t_state := if t \<in> set b then THREAD_BLOCKED else THREAD_RUNNING\<rparr>),
     idle_thread := (\<lambda>_. 4)(0 := 1, 1 := 2, 2 := 3),
     current_thread := (\<lambda>_. 4)(0 := 11, 1 := if 12 \<in> set b then 2 else 12, 2 := if 13 \<in> set b then 3 else 13)\<rparr>"

lemma all_less_4: "(\<forall>c<4::nat. P c) \<longleftrightarrow> P 0 \<and> P 1 \<and> P 2 \<and> P 3"
  by (simp add: numeral_eq_Suc All_less_Suc) blast

lemma busy_inv: "c < 3 \<Longrightarrow> sched_inv (busy c b)"
  by (simp add: sched_inv_def queues_ok_def cpus_ok_def busy_def zero_defs thread_is_idle_def get_current_thread_def all_less_4 bit_simps)

lemma busy_thread:
  "get_current_thread (busy 0 b) = 11" "12 \<notin> set b \<Longrightarrow> get_current_thread (busy (Suc 0) b) = 12" "13 \<notin> set b \<Longrightarrow> get_current_thread (busy 2 b) = 13"
  "t \<in> {11, 12, 13} \<Longrightarrow> \<not> thread_is_idle (threads (busy c b) t)"
  "t \<in> {12, 13} \<Longrightarrow> t \<in> set b \<Longrightarrow> asleep (busy c b) t" "t_state (threads (busy c b) t) = (if t \<in> set b then THREAD_BLOCKED else THREAD_RUNNING)"
  by (auto simp: busy_def get_current_thread_def zero_defs thread_is_idle_def asleep_def all_less_4)

definition kst :: "hv_state \<Rightarrow> ptr list \<Rightarrow> ptr \<Rightarrow> int \<Rightarrow> (ptr \<Rightarrow> bool) \<Rightarrow> (ptr \<Rightarrow> int) \<Rightarrow> (ptr \<Rightarrow> ptr) \<Rightarrow> ksync" where
  "kst h W ho c a r b = \<lparr>hv = h, waits = (\<lambda>_. \<lparr>wq_list = [], wq_count = 0\<rparr>)(100 := \<lparr>wq_list = W, wq_count = int (length W)\<rparr>),
     blocking_wait_queue = b, wait_queue_block_ret = r, armed = a, sleepers = (\<lambda>_. False), retcode = (\<lambda>_. 0), thread_list = [],
     mutexes = (\<lambda>_. \<lparr>holder = 0, m_count = 0\<rparr>)(100 := \<lparr>holder = ho, m_count = c\<rparr>), sems = (\<lambda>_. \<lparr>sem_count = 0\<rparr>),
     events = (\<lambda>_. \<lparr>signaled = False, e_flags = 0\<rparr>)\<rparr>"

definition start :: sys where
  "start = \<lparr>ks = kst (busy 0 []) [] 0 0 (\<lambda>_. False) (\<lambda>_. 0) (\<lambda>_. 0), pend = (\<lambda>_. None), owners = {}\<rparr>"

lemma start_fresh: "mutex_fresh 100 start"
  unfolding mutex_fresh_def
  by (intro conjI exI [of _ "ks start"]) (simp_all add: start_def kst_def busy_inv mutex_init_def wait_queue_init_def upd_wait_def upd_mutex_def)

text \<open>The scheduler, the other CPUs and everything else take the kernel to another of these states.\<close>

lemma other_hv:
  assumes "sched_inv h" "\<forall>t. pend S t \<noteq> None \<longrightarrow> (asleep (hv (ks S)) t \<longrightarrow> asleep h t) \<and>
    (t_state (threads (hv (ks S)) t) \<noteq> THREAD_BLOCKED \<longrightarrow> t_state (threads h t) \<noteq> THREAD_BLOCKED)"
  shows "mutex_step late T m S (S\<lparr>ks := (ks S)\<lparr>hv := h\<rparr>\<rparr>)"
  by (rule mutex_step.other) (use assms in \<open>simp add: others_def\<close>)

lemma asleep_blocked: "asleep h t \<Longrightarrow> t_state (threads h t) = THREAD_BLOCKED"
  by (simp add: asleep_def)

lemma step_free:
  assumes "get_current_thread h = t" "t \<noteq> 0" "\<not> thread_is_idle (threads h t)" "\<not> a t" "INFINITE_TIME \<in> T"
  shows "mutex_step late T 100 \<lparr>ks = kst h [] 0 0 a r b, pend = (\<lambda>_. None), owners = {}\<rparr> \<lparr>ks = kst h [] t 1 a r b, pend = (\<lambda>_. None), owners = {t}\<rparr>"
  by (rule mutex_step.acquire [where timeout = INFINITE_TIME and t = t])
    (use assms acquire_free [of "kst h [] 0 0 a r b" 100] in \<open>simp_all add: this_thread_def kst_def complete_def fun_upd_idem\<close>)

lemma step_blocks:
  assumes "get_current_thread h = t" "t \<noteq> 0" "\<not> thread_is_idle (threads h t)" "\<not> a t" "timeout \<in> T" "t \<noteq> ho" "c \<ge> 1" "timeout \<noteq> 0" "p t = None"
  shows "mutex_step late T 100 \<lparr>ks = kst h W ho c a r b, pend = p, owners = ow\<rparr>
    \<lparr>ks = kst (thread_resched (upd_thread t (\<lambda>th. th\<lparr>t_state := THREAD_BLOCKED\<rparr>) h)) (W @ [t]) ho (c + 1)
       (if timeout \<noteq> INFINITE_TIME then a(t := True) else a) (r(t := NO_ERROR)) (b(t := 100)),
     pend = p(t := Some (Acquire, acquire_rest 100 t timeout)), owners = ow\<rparr>"
  by (rule mutex_step.acquire [where timeout = timeout and t = t])
    (use assms acquire_blocks [of "kst h W ho c a r b" 100 timeout] in \<open>auto simp: this_thread_def kst_def complete_def\<close>)

lemma step_timeout:
  assumes "asleep h t" "a t" "p t = Some (Acquire, k)"
  shows "mutex_step late T 100 \<lparr>ks = kst h [t] ho c a r (b(t := 100)), pend = p, owners = ow\<rparr>
    \<lparr>ks = kst (wakeup_cpu_for_thread t (ready_thread t h)) [] ho c (a(t := False)) (r(t := ERR_TIMED_OUT)) (b(t := 0)), pend = p, owners = ow\<rparr>"
proof -
  let ?S = "\<lparr>ks = kst h [t] ho c a r (b(t := 100)), pend = p, owners = ow\<rparr>"
  have "wait_queue_timeout_handler t (ks ?S) =
    KDone INT_RESCHEDULE (kst (wakeup_cpu_for_thread t (ready_thread t h)) [] ho c (a(t := False)) (r(t := ERR_TIMED_OUT)) (b(t := 0)))"
    using assms(1) by (simp add: wait_queue_timeout_handler_def thread_unblock_from_wait_queue_def asleep_def kst_def upd_wait_def woken_def on_hv_def
        kreturn_def ready_thread_def Let_def)
  from mutex_step.timeout [OF _ _ this, of k late T 100] show ?thesis using assms(2,3) by (simp add: kst_def)
qed

lemma step_releases:
  assumes "get_current_thread h = t" "t \<noteq> 0" "\<not> thread_is_idle (threads h t)" "p t = None"
  shows "mutex_step late T 100 \<lparr>ks = kst h [] t c a r b, pend = p, owners = {t}\<rparr> \<lparr>ks = kst h [] 0 (c - 1) a r b, pend = p, owners = {}\<rparr>"
  by (rule mutex_step.release [where t = t])
    (use assms in \<open>auto simp: this_thread_def kst_def complete_def mutex_release_def upd_mutex_def wait_queue_wake_one_def kreturn_def Let_def\<close>)

lemma step_hv:
  assumes "sched_inv h'" "\<forall>t. p t \<noteq> None \<longrightarrow> (asleep h t \<longrightarrow> asleep h' t) \<and> (t_state (threads h t) \<noteq> THREAD_BLOCKED \<longrightarrow> t_state (threads h' t) \<noteq> THREAD_BLOCKED)"
  shows "mutex_step late T 100 \<lparr>ks = kst h W ho c a r b, pend = p, owners = ow\<rparr> \<lparr>ks = kst h' W ho c a r b, pend = p, owners = ow\<rparr>"
  using other_hv [of h' "\<lparr>ks = kst h W ho c a r b, pend = p, owners = ow\<rparr>" late T 100] assms by (simp add: kst_def)

lemma step_wakes:
  assumes "get_current_thread h = t" "t \<noteq> 0" "\<not> thread_is_idle (threads h t)" "p t = None" "c \<ge> 2"
  shows "mutex_step late T 100 \<lparr>ks = kst h (u # us) t c a r b, pend = p, owners = {t}\<rparr>
    \<lparr>ks = kst (thread_resched (wakeup_cpu_for_thread u (insert_in_run_queue_head u
          (ready_thread t (upd_thread u (\<lambda>th. th\<lparr>t_state := THREAD_READY\<rparr>) h))))) us 0 (c - 1) a (r(u := NO_ERROR)) (b(u := 0)),
      pend = p(t := Some (Release, kreturn NO_ERROR)), owners = {}\<rparr>"
  by (rule mutex_step.release [where t = t])
    (use assms release_switches [of "kst h (u # us) t c a r b" 100 u us] in \<open>auto simp: this_thread_def kst_def complete_def\<close>)

text \<open>
  Thread 11 takes the mutex and thread 12 waits for it with a limit. The limit is reached; before thread 12 goes on, thread 11 releases the
  mutex, and thread 13 asks for it.
\<close>

lemma start_forgets: "\<exists>S. (mutex_step False UNIV 100)\<^sup>*\<^sup>* start S \<and> forgotten 100 13 S"
proof -
  let ?N = "(\<lambda>_. None) :: ptr \<Rightarrow> (op \<times> (ksync \<Rightarrow> int krun)) option" and ?F = "\<lambda>_::ptr. False" and ?Z = "\<lambda>_::ptr. 0::int" and ?B = "\<lambda>_::ptr. 0::ptr"
  let ?p = "?N(12 := Some (Acquire, acquire_rest 100 12 5))" and ?bl = "\<lambda>t h. thread_resched (upd_thread t (\<lambda>th. th\<lparr>t_state := THREAD_BLOCKED\<rparr>) h)"
  let ?wk = "wakeup_cpu_for_thread 12 (ready_thread 12 (busy 0 [12]))" and ?r = "?Z(12 := ERR_TIMED_OUT)"
  let ?A1 = "\<lparr>ks = kst (busy 0 []) [] 11 1 ?F ?Z ?B, pend = ?N, owners = {11}\<rparr>"
  let ?A2 = "\<lparr>ks = kst (busy 1 []) [] 11 1 ?F ?Z ?B, pend = ?N, owners = {11}\<rparr>"
  let ?A3 = "\<lparr>ks = kst (?bl 12 (busy 1 [])) [12] 11 2 (?F(12 := True)) ?Z (?B(12 := 100)), pend = ?p, owners = {11}\<rparr>"
  let ?A4 = "\<lparr>ks = kst (busy 0 [12]) [12] 11 2 (?F(12 := True)) ?Z (?B(12 := 100)), pend = ?p, owners = {11}\<rparr>"
  let ?A5 = "\<lparr>ks = kst ?wk [] 11 2 ?F ?r ?B, pend = ?p, owners = {11}\<rparr>"
  let ?A6 = "\<lparr>ks = kst (busy 0 []) [] 11 2 ?F ?r ?B, pend = ?p, owners = {11}\<rparr>"
  let ?A7 = "\<lparr>ks = kst (busy 0 []) [] 0 1 ?F ?r ?B, pend = ?p, owners = {}\<rparr>"
  let ?A8 = "\<lparr>ks = kst (busy 2 []) [] 0 1 ?F ?r ?B, pend = ?p, owners = {}\<rparr>"
  let ?A9 = "\<lparr>ks = kst (?bl 13 (busy 2 [])) [13] 0 2 ?F (?r(13 := 0)) (?B(13 := 100)), pend = ?p(13 := Some (Acquire, acquire_rest 100 13 INFINITE_TIME)), owners = {}\<rparr>"
  have 12: "asleep (?bl 12 (busy 1 [])) 12" by (rule block_current(2)) (simp_all add: busy_inv busy_thread)
  have w: "t_state (threads ?wk 12) \<noteq> THREAD_BLOCKED" by (rule wake_asleep(3)) (simp_all add: busy_inv busy_thread)
  have "mutex_step False UNIV 100 start ?A1" unfolding start_def by (rule step_free) (simp_all add: busy_thread)
  moreover have "mutex_step False UNIV 100 ?A1 ?A2" by (rule step_hv) (simp_all add: busy_inv)
  moreover have "mutex_step False UNIV 100 ?A2 ?A3"
    using step_blocks [of "busy 1 []" 12 ?F 5 UNIV 11 1 ?N False "[]" ?Z ?B "{11}"] by (simp add: busy_thread fun_upd_idem)
  moreover have "mutex_step False UNIV 100 ?A3 ?A4" by (rule step_hv) (use 12 in \<open>auto simp: busy_inv busy_thread dest: asleep_blocked split: if_splits\<close>)
  moreover have "mutex_step False UNIV 100 ?A4 ?A5"
    using step_timeout [of "busy 0 [12]" 12 "?F(12 := True)" ?p _ False UNIV 11 2 ?Z ?B "{11}"] by (simp add: busy_thread fun_upd_idem)
  moreover have "mutex_step False UNIV 100 ?A5 ?A6" by (rule step_hv) (use w in \<open>auto simp: busy_inv busy_thread dest: asleep_blocked split: if_splits\<close>)
  moreover have "mutex_step False UNIV 100 ?A6 ?A7" using step_releases [of "busy 0 []" 11 ?p False UNIV 2 ?F ?r ?B] by (simp add: busy_thread)
  moreover have "mutex_step False UNIV 100 ?A7 ?A8" by (rule step_hv) (auto simp: busy_inv busy_thread dest: asleep_blocked split: if_splits)
  moreover have "mutex_step False UNIV 100 ?A8 ?A9"
    using step_blocks [of "busy 2 []" 13 ?F INFINITE_TIME UNIV 0 1 ?p False "[]" ?r ?B "{}"] by (simp add: busy_thread)
  ultimately have "(mutex_step False UNIV 100)\<^sup>*\<^sup>* start ?A9" by (meson converse_rtranclp_into_rtranclp rtranclp.rtrancl_refl)
  moreover have "forgotten 100 13 ?A9" by (auto simp: forgotten_def granted_def acquiring_def kst_def split: if_splits)
  ultimately show ?thesis by blast
qed

text \<open>Without limits: threads 12 and 13 wait, and thread 11 releases the mutex.\<close>

lemma start_hands_over:
  "\<exists>S. (mutex_step False {INFINITE_TIME} 100)\<^sup>*\<^sup>* start S \<and> wq_list (waits (ks S) 100) = [13] \<and> owners S = {}"
proof -
  let ?N = "(\<lambda>_. None) :: ptr \<Rightarrow> (op \<times> (ksync \<Rightarrow> int krun)) option" and ?F = "\<lambda>_::ptr. False" and ?Z = "\<lambda>_::ptr. 0::int" and ?B = "\<lambda>_::ptr. 0::ptr"
  let ?p = "?N(12 := Some (Acquire, acquire_rest 100 12 INFINITE_TIME))" and ?bl = "\<lambda>t h. thread_resched (upd_thread t (\<lambda>th. th\<lparr>t_state := THREAD_BLOCKED\<rparr>) h)"
  let ?q = "?p(13 := Some (Acquire, acquire_rest 100 13 INFINITE_TIME))" and ?b = "?B(12 := 100, 13 := 100)"
  let ?A1 = "\<lparr>ks = kst (busy 0 []) [] 11 1 ?F ?Z ?B, pend = ?N, owners = {11}\<rparr>"
  let ?A2 = "\<lparr>ks = kst (busy 1 []) [] 11 1 ?F ?Z ?B, pend = ?N, owners = {11}\<rparr>"
  let ?A3 = "\<lparr>ks = kst (?bl 12 (busy 1 [])) [12] 11 2 ?F ?Z (?B(12 := 100)), pend = ?p, owners = {11}\<rparr>"
  let ?A4 = "\<lparr>ks = kst (busy 2 [12]) [12] 11 2 ?F ?Z (?B(12 := 100)), pend = ?p, owners = {11}\<rparr>"
  let ?A5 = "\<lparr>ks = kst (?bl 13 (busy 2 [12])) [12, 13] 11 3 ?F ?Z ?b, pend = ?q, owners = {11}\<rparr>"
  let ?A6 = "\<lparr>ks = kst (busy 0 [12, 13]) [12, 13] 11 3 ?F ?Z ?b, pend = ?q, owners = {11}\<rparr>"
  have 12: "asleep (?bl 12 (busy 1 [])) 12" by (rule block_current(2)) (simp_all add: busy_inv busy_thread)
  have 13: "asleep (?bl 13 (busy 2 [12])) 13" by (rule block_current(2)) (simp_all add: busy_inv busy_thread)
  have b: "asleep (?bl 13 (busy 2 [12])) 12" by (rule block_current(3)) (simp_all add: busy_inv busy_thread)
  have "mutex_step False {INFINITE_TIME} 100 start ?A1" unfolding start_def by (rule step_free) (simp_all add: busy_thread)
  moreover have "mutex_step False {INFINITE_TIME} 100 ?A1 ?A2" by (rule step_hv) (simp_all add: busy_inv)
  moreover have "mutex_step False {INFINITE_TIME} 100 ?A2 ?A3"
    using step_blocks [of "busy 1 []" 12 ?F INFINITE_TIME "{INFINITE_TIME}" 11 1 ?N False "[]" ?Z ?B "{11}"] by (simp add: busy_thread fun_upd_idem)
  moreover have "mutex_step False {INFINITE_TIME} 100 ?A3 ?A4" by (rule step_hv) (use 12 in \<open>auto simp: busy_inv busy_thread dest: asleep_blocked split: if_splits\<close>)
  moreover have "mutex_step False {INFINITE_TIME} 100 ?A4 ?A5"
    using step_blocks [of "busy 2 [12]" 13 ?F INFINITE_TIME "{INFINITE_TIME}" 11 2 ?p False "[12]" ?Z "?B(12 := 100)" "{11}"] by (simp add: busy_thread fun_upd_idem)
  moreover have "mutex_step False {INFINITE_TIME} 100 ?A5 ?A6"
    by (rule step_hv) (use 13 b in \<open>auto simp: busy_inv busy_thread dest: asleep_blocked split: if_splits\<close>)
  moreover have "\<exists>h r b p. mutex_step False {INFINITE_TIME} 100 ?A6 \<lparr>ks = kst h [13] 0 2 ?F r b, pend = p, owners = {}\<rparr>"
    using step_wakes [of "busy 0 [12, 13]" 11 ?q 3 False "{INFINITE_TIME}" 12 "[13]" ?F ?Z ?b] by (fastforce simp: busy_thread)
  ultimately have "\<exists>h r b p. (mutex_step False {INFINITE_TIME} 100)\<^sup>*\<^sup>* start \<lparr>ks = kst h [13] 0 2 ?F r b, pend = p, owners = {}\<rparr>"
    by (meson converse_rtranclp_into_rtranclp rtranclp.rtrancl_refl)
  then show ?thesis by (force simp: kst_def)
qed

section \<open>Properties\<close>

text \<open>
  C20. Mutual exclusion. Whatever threads acquire and release a mutex after its initialisation, on all CPUs, with waits that time out, with
  each operation that blocks going on at any later time and with the rest of the kernel running in between: at most one thread has the
  mutex, and it is the thread that the field holder names.
\<close>

theorem mutex_exclusive:
  assumes "mutex_fresh m S0" "m \<noteq> 0" "(mutex_step late T m)\<^sup>*\<^sup>* S0 S"
  shows "(t \<in> owners S \<longleftrightarrow> t \<noteq> 0 \<and> holder (mutexes (ks S) m) = t) \<and> (t \<in> owners S \<and> u \<in> owners S \<longrightarrow> t = u)"
proof -
  have "holding_ok m S" using mutex_reachable_inv [OF assms(3) fresh_inv [OF assms(1)] assms(2)] by (simp add: mutex_inv_def)
  then show ?thesis by (auto simp: holding_ok_def Let_def split: if_splits)
qed

theorem mutex_exclusive_witness:
  "\<exists>S. (mutex_step False UNIV 100)\<^sup>*\<^sup>* start S \<and> owners S = {11} \<and> holder (mutexes (ks S) 100) = 11"
proof -
  let ?S = "\<lparr>ks = kst (busy 0 []) [] 11 1 (\<lambda>_. False) (\<lambda>_. 0) (\<lambda>_. 0), pend = (\<lambda>_. None), owners = {11}\<rparr>"
  have "mutex_step False UNIV 100 start ?S" unfolding start_def by (rule step_free) (simp_all add: busy_thread)
  then have s: "(mutex_step False UNIV 100)\<^sup>*\<^sup>* start ?S" by blast
  have "holder (mutexes (ks ?S) 100) = 11" using mutex_exclusive [OF start_fresh _ s, of 11] by simp
  with s show ?thesis by (intro exI [of _ ?S]) simp
qed

text \<open>
  C21. When all waits are without a limit, no wake-up is lost: in every reachable state in which threads wait in the queue and no thread holds the
  mutex, one thread was woken, is not blocked, and takes the mutex when it is scheduled.
\<close>

theorem mutex_no_lost_wakeup:
  assumes "mutex_fresh m S0" "m \<noteq> 0" "(mutex_step False {INFINITE_TIME} m)\<^sup>*\<^sup>* S0 S" "wq_list (waits (ks S) m) \<noteq> []" "owners S = {}"
  shows "\<exists>t k. pend S t = Some (Acquire, k) \<and> t_state (threads (hv (ks S)) t) \<noteq> THREAD_BLOCKED \<and>
    (t = this_thread (ks S) \<longrightarrow> (\<exists>S'. mutex_step False {INFINITE_TIME} m S S' \<and> owners S' = {t}))"
proof -
  have "mutex_inv m S \<and> handed_over m S" using assms(3)
  proof (induction rule: rtranclp_induct)
    case base
    show ?case using fresh_inv [OF assms(1)] fresh_handed_over [OF assms(1)] by blast
  next
    case (step S1 S2)
    then show ?case using mutex_step_inv [OF step(2) assms(2)] handed_over_step [OF step(2) assms(2)] by blast
  qed
  then have i: "waiting_ok m S" "holding_ok m S" "handed_over m S" by (auto simp: mutex_inv_def)
  have h: "holder (mutexes (ks S) m) = 0" using i(2) assms(5) by (auto simp: holding_ok_def Let_def split: if_splits)
  then obtain t where t: "t \<in> granted m S" using i(3) assms(4) by (auto simp: handed_over_def)
  then have ta: "t \<in> acquiring S - set (waiters m S)" and r: "wait_queue_block_ret (ks S) t = NO_ERROR" by (auto simp: granted_def)
  then obtain k where k: "pend S t = Some (Acquire, k)" by (auto simp: acquiring_def)
  then obtain timeout where e: "k = acquire_rest m t timeout" using i(1) unfolding waiting_ok_def by blast
  have "\<exists>S'. mutex_step False {INFINITE_TIME} m S S' \<and> owners S' = {t}" if c: "t = this_thread (ks S)"
  proof -
    obtain s where "k (ks S) = KDone NO_ERROR s"
      using acquire_rest_runs [of "ks S" t m timeout] c r e by auto
    then have "complete Acquire t (k (ks S)) S = Some (S\<lparr>ks := s, pend := (pend S)(t := None), owners := {t}\<rparr>)"
      using assms(5) by (simp add: complete_def)
    from mutex_step.resume [OF c k this] show ?thesis by fastforce
  qed
  moreover have "t_state (threads (hv (ks S)) t) \<noteq> THREAD_BLOCKED" using i(1) ta unfolding waiting_ok_def by blast
  ultimately show ?thesis using k by blast
qed

theorem mutex_no_lost_wakeup_witness:
  "\<exists>S t k. (mutex_step False {INFINITE_TIME} 100)\<^sup>*\<^sup>* start S \<and> wq_list (waits (ks S) 100) = [13] \<and> pend S t = Some (Acquire, k) \<and>
    t_state (threads (hv (ks S)) t) \<noteq> THREAD_BLOCKED"
proof -
  obtain S where S: "(mutex_step False {INFINITE_TIME} 100)\<^sup>*\<^sup>* start S" "wq_list (waits (ks S) 100) = [13]" "owners S = {}"
    using start_hands_over by blast
  from mutex_no_lost_wakeup [OF start_fresh _ S(1) _ S(3)] S(1,2) show ?thesis by auto
qed




lemma mutex_step_late: "mutex_step late T m S S' \<Longrightarrow> mutex_step True T m S S'"
  by (induction rule: mutex_step.induct) (auto intro: mutex_step.intros)



end
