(* ===== verification/Event.thy ===== *)
theory Event
  imports Sched
begin

text \<open>
  The event channels between physical CPUs, \<^verbatim>\<open>hv/hv_event.c\<close>: an event is a 10-byte record (a 16-bit
  identifier and an 8-byte buffer that carries the pointer of a virtual CPU) in the ring buffer
  of the target CPU, announced by an inter-processor interrupt. The handler that dispatches a
  received event is in the theory of the virtual CPUs, which it calls.
\<close>

section \<open>Events and their bytes\<close>

record hv_event =
  e_id :: u16
  e_buf :: "u8 list"

abbreviation (input) HV_EVENT_VCPU_STOP :: u16 where "HV_EVENT_VCPU_STOP \<equiv> 1"
abbreviation (input) HV_EVENT_VCPU_START :: u16 where "HV_EVENT_VCPU_START \<equiv> 2"
abbreviation (input) HV_EVENT_VCPU_POWEROFF :: u16 where "HV_EVENT_VCPU_POWEROFF \<equiv> 3"
abbreviation (input) HV_EVENT_VCPU_POWERON :: u16 where "HV_EVENT_VCPU_POWERON \<equiv> 4"
abbreviation (input) HV_EVENT_VM_POWEROFF :: u16 where "HV_EVENT_VM_POWEROFF \<equiv> 5"

definition event_bytes :: "hv_event \<Rightarrow> u8 list" where
  "event_bytes e = le_bytes 2 (ucast (e_id e)) @ e_buf e"

definition event_of_bytes :: "u8 list \<Rightarrow> hv_event" where
  "event_of_bytes bs = \<lparr>e_id = ucast (of_le_bytes (take 2 bs)), e_buf = drop 2 bs\<rparr>"

text \<open>The event with \<^verbatim>\<open>*((struct lk_vcpu **)(evt.buf + 0)) = vcpu\<close>.\<close>

definition vcpu_event :: "u16 \<Rightarrow> ptr \<Rightarrow> hv_event" where
  "vcpu_event i v = \<lparr>e_id = i, e_buf = le_bytes 8 v\<rparr>"

definition event_vcpu :: "hv_event \<Rightarrow> ptr" where
  "event_vcpu e = of_le_bytes (take 8 (e_buf e))"

section \<open>Operations\<close>

text \<open>\<open>blocks\<close> is the block \<^verbatim>\<open>malloc\<close> returned for each CPU.\<close>

definition hv_event_init :: "(nat \<Rightarrow> u8 list) \<Rightarrow> hv_state \<Rightarrow> hv_state" where
  "hv_event_init blocks s =
     (let len = unat (round_up_pow2_u32 (32 * 10))
      in s\<lparr>cpu_event := (\<lambda>i. if i < SMP_MAX_CPUS then cbuf_initialize_etc len (blocks i) else cpu_event s i)\<rparr>)"

definition hv_send_event :: "nat \<Rightarrow> hv_event \<Rightarrow> hv_state \<Rightarrow> hv_state \<times> int" where
  "hv_send_event cpu evt s =
     (let (c, len) = cbuf_write (cpu_event s cpu) (Some (event_bytes evt)) 10;
          s = s\<lparr>cpu_event := (cpu_event s)(cpu := c)\<rparr>
      in if len \<noteq> 10 then (s, ERR_NO_MEMORY)
         else (arch_mp_send_ipi (push_bit cpu 1) MP_IPI_HV_EVENT s, 0))"

definition hv_empty_event :: "nat \<Rightarrow> hv_state \<Rightarrow> hv_state" where
  "hv_empty_event cpu s = arch_mp_send_ipi (push_bit cpu 1) MP_IPI_HV_EVENT1 s"

text \<open>
  The first half of \<^verbatim>\<open>hv_event_handler\<close>: the record read from the buffer of this CPU, \<open>None\<close> when
  it is short.
\<close>

definition recv_event :: "hv_state \<Rightarrow> (hv_state \<times> hv_event option) option" where
  "recv_event s =
     (case cbuf_read (cpu_event s (curr_cpu s)) 10 of
        None \<Rightarrow> None
      | Some (c, len, bs) \<Rightarrow>
          let s = s\<lparr>cpu_event := (cpu_event s)(curr_cpu s := c)\<rparr>
          in Some (s, if len \<noteq> 10 then None else Some (event_of_bytes bs)))"

section \<open>Records\<close>

definition event_ok :: "hv_event \<Rightarrow> bool" where
  "event_ok e \<longleftrightarrow> length (e_buf e) = 8"

lemma length_event_bytes: "event_ok e \<Longrightarrow> length (event_bytes e) = 10"
  by (simp add: event_bytes_def event_ok_def)

lemma event_roundtrip: "event_of_bytes (event_bytes e) = e"
proof -
  have "of_le_bytes (le_bytes 2 (ucast (e_id e))) = take_bit 16 (ucast (e_id e))"
    using of_le_bytes_le_bytes [of 2] by simp
  moreover have "ucast (take_bit 16 (ucast (e_id e) :: u64)) = e_id e"
    by (rule bit_word_eqI) (auto simp: bit_simps)
  ultimately show ?thesis by (simp add: event_of_bytes_def event_bytes_def)
qed

lemma vcpu_event_ok [simp]: "event_ok (vcpu_event i v)" "event_vcpu (vcpu_event i v) = v"
  by (simp_all add: event_ok_def vcpu_event_def event_vcpu_def)

text \<open>The channel holds exactly the events \<open>es\<close>, oldest first.\<close>

definition channel :: "hv_event list \<Rightarrow> cbuf \<Rightarrow> bool" where
  "channel es c \<longleftrightarrow> cbuf_inv c \<and> capacity c = 511 \<and> contents c = concat (map event_bytes es) \<and>
     (\<forall>e\<in>set es. event_ok e)"

lemma channel_framed: "channel es c \<Longrightarrow> cb.framed 10 (map event_bytes es) c"
  by (auto simp: channel_def cb.framed_def length_event_bytes)

lemma event_buffer_size: "round_up_pow2_u32 (32 * 10) = 2 ^ 9"
  by (simp add: round_up_pow2_u32_def Let_def)

lemma cbuf_event_init:
  assumes "length blocks = 512"
  shows "channel [] (cbuf_initialize_etc (unat (round_up_pow2_u32 (32 * 10))) blocks)"
proof -
  have "unat (2 ^ 9 :: u32) = 2 ^ 9" by simp
  with cbuf_initialize_inv [of 9 blocks] assms show ?thesis
    unfolding event_buffer_size by (simp add: channel_def)
qed

lemma send_channel:
  assumes c: "channel es (cpu_event s cpu)" and e: "event_ok e" and n: "length es \<le> 50"
  shows "\<exists>s'. hv_send_event cpu e s = (s', 0) \<and> channel (es @ [e]) (cpu_event s' cpu)"
proof -
  have cap: "10 * (length (map event_bytes es) + 1) \<le> capacity (cpu_event s cpu)"
    using c n by (simp add: channel_def)
  from cb.send_framed [OF channel_framed [OF c] length_event_bytes [OF e] cap] obtain c' where
    w: "cbuf_write (cpu_event s cpu) (Some (event_bytes e)) 10 = (c', 10)"
    and f: "cb.framed 10 (map event_bytes es @ [event_bytes e]) c'" and k: "capacity c' = capacity (cpu_event s cpu)"
    by (auto simp: length_event_bytes [OF e])
  have fr: "cpu_event (arch_mp_send_ipi m i s) = cpu_event s" for m i and s :: hv_state
  proof -
    have "cpu_event (fst (fold (sgi_step irq) xs (s, m))) = cpu_event s" for irq xs m
    proof (induction xs arbitrary: s m)
      case (Cons x xs)
      show ?case
        by (cases "sgi_step irq x (s, m)")
          (use Cons in \<open>auto simp: sgi_step_def Let_def ARM64_WRITE_ICC_def ARM64_WRITE_SYSREG_def
            split: if_splits prod.splits\<close>)
    qed simp
    then show ?thesis by (simp add: arch_mp_send_ipi_def arm_gic_sgi_def Let_def)
  qed
  from w f k c e show ?thesis
    by (auto simp: hv_send_event_def fr channel_def cb.framed_def)
qed

lemma recv_channel:
  assumes c: "channel (e # es) (cpu_event s (curr_cpu s))"
  shows "\<exists>s'. recv_event s = Some (s', Some e) \<and> channel es (cpu_event s' (curr_cpu s)) \<and>
     s' = s\<lparr>cpu_event := cpu_event s'\<rparr>"
proof -
  from channel_framed [OF c] have "cb.framed 10 (event_bytes e # map event_bytes es) (cpu_event s (curr_cpu s))" by simp
  from cb.recv_framed [OF this] obtain c' where
    r: "cbuf_read (cpu_event s (curr_cpu s)) 10 = Some (c', 10, event_bytes e)"
      "cb.framed 10 (map event_bytes es) c'" "capacity c' = capacity (cpu_event s (curr_cpu s))" by blast
  with c show ?thesis
    by (auto simp: recv_event_def event_roundtrip channel_def cb.framed_def)
qed

section \<open>Properties\<close>

text \<open>
  The event channel is a queue: with up to 50 events waiting, \<^verbatim>\<open>hv_send_event\<close> succeeds and appends
  the event, and the handler on the target CPU receives the oldest event, unchanged and once.
\<close>

theorem event_channel_fifo:
  assumes "channel es (cpu_event s cpu)" "event_ok e" "length es \<le> 50"
  shows "\<exists>s'. hv_send_event cpu e s = (s', 0) \<and> channel (es @ [e]) (cpu_event s' cpu) \<and>
     (\<exists>s''. recv_event (s'\<lparr>curr_cpu := cpu\<rparr>) = Some (s'', Some (hd (es @ [e]))) \<and>
        channel (tl (es @ [e])) (cpu_event s'' cpu))"
proof -
  from send_channel [OF assms] obtain s' where s': "hv_send_event cpu e s = (s', 0)"
    "channel (es @ [e]) (cpu_event s' cpu)" by blast
  obtain h t where ht: "es @ [e] = h # t" by (cases "es @ [e]") auto
  with s' recv_channel [of h t "s'\<lparr>curr_cpu := cpu\<rparr>"] show ?thesis by auto
qed

theorem event_channel_fifo_witness:
  "\<exists>s'. hv_send_event 1 (vcpu_event 2 0x8000) (hv_event_init (\<lambda>_. replicate 512 0) state0) = (s', 0)"
  using event_channel_fifo [of "[]" "hv_event_init (\<lambda>_. replicate 512 0) state0" 1 "vcpu_event 2 0x8000"]
    cbuf_event_init [of "replicate 512 0"]
  by (auto simp: hv_event_init_def SMP_MAX_CPUS_def)

text \<open>
  When 51 events wait, one byte of room is left. \<^verbatim>\<open>hv_send_event\<close> then reports \<^verbatim>\<open>ERR_NO_MEMORY\<close>, but
  the first byte of the record stays in the buffer, so that what the channel holds is no longer a
  sequence of records: every later event is read one byte off.
\<close>

theorem event_send_full_breaks_framing:
  assumes "channel es (cpu_event s cpu)" "event_ok e" "length es = 51" "hv_send_event cpu e s = (s', r)"
  shows "r = ERR_NO_MEMORY \<and> \<not> (\<exists>es'. channel es' (cpu_event s' cpu))"
proof -
  obtain c' n where w: "cbuf_write (cpu_event s cpu) (Some (event_bytes e)) 10 = (c', n)" by fastforce
  have "capacity (cpu_event s cpu) = 511" using assms(1) by (simp add: channel_def)
  with cb.send_partial [OF channel_framed [OF assms(1)] length_event_bytes [OF assms(2)], of c' n] w assms(3)
  have n: "n \<noteq> 10" "\<not> (\<exists>ms. cb.framed 10 ms c')" by (simp_all add: length_event_bytes [OF assms(2)])
  then have "\<not> channel es' c'" for es' using channel_framed [of es' c'] by blast
  with n w assms(4) show ?thesis by (auto simp: hv_send_event_def)
qed

text \<open>The events \<^verbatim>\<open>n\<close> sends one after the other leave, to reach the full channel.\<close>

fun send_many :: "nat \<Rightarrow> nat \<Rightarrow> hv_event \<Rightarrow> hv_state \<Rightarrow> hv_state" where
  "send_many 0 cpu e s = s"
| "send_many (Suc n) cpu e s = fst (hv_send_event cpu e (send_many n cpu e s))"

lemma send_many_channel:
  assumes "channel [] (cpu_event s cpu)" "event_ok e"
  shows "n \<le> 51 \<Longrightarrow> channel (replicate n e) (cpu_event (send_many n cpu e s) cpu)"
proof (induction n)
  case (Suc n)
  then show ?case
    using send_channel [of "replicate n e" "send_many n cpu e s" cpu e] assms(2)
    by (auto simp: replicate_append_same)
qed (use assms in simp)

theorem event_send_full_breaks_framing_witness:
  "snd (hv_send_event 1 (vcpu_event 1 0x8000)
     (send_many 51 1 (vcpu_event 1 0x8000) (hv_event_init (\<lambda>_. replicate 512 0) state0))) = ERR_NO_MEMORY"
proof -
  let ?s = "send_many 51 1 (vcpu_event 1 0x8000) (hv_event_init (\<lambda>_. replicate 512 0) state0)"
  have "channel (replicate 51 (vcpu_event 1 0x8000)) (cpu_event ?s 1)"
    using cbuf_event_init [of "replicate 512 0"]
    by (intro send_many_channel) (simp_all add: hv_event_init_def SMP_MAX_CPUS_def)
  from event_send_full_breaks_framing [OF this, of "vcpu_event 1 0x8000"] show ?thesis
    by (metis length_replicate prod.collapse vcpu_event_ok(1))
qed

end
