(* ===== verification/Vgic_Queue.thy ===== *)
theory Vgic_Queue
  imports Event
begin

text \<open>
  The queues of virtual interrupts of \<^verbatim>\<open>hv/arch/armv8a/hv_vgic.c\<close>: the pending list of a virtual CPU,
  the list of those in list registers, and the operations that move an interrupt between them,
  into the hardware on the way to the guest and back on the way out of it.
\<close>

abbreviation (input) VIRQ_DEFAULT_PRI :: u8 where "VIRQ_DEFAULT_PRI \<equiv> 100"

section \<open>Descriptors\<close>

definition init_virq :: "virq_ref \<Rightarrow> u32 \<Rightarrow> u32 \<Rightarrow> hv_state \<Rightarrow> hv_state" where
  "init_virq r virq irq s =
     upd_virq r (\<lambda>_. zero_virq\<lparr>hwintid := irq, intid := virq, lr := LR_INDEX_INVALID,
       priority := VIRQ_DEFAULT_PRI, group1 := True\<rparr>) s"

definition hv_vm_init_virq :: "ptr \<Rightarrow> u32 \<Rightarrow> u32 \<Rightarrow> hv_state \<Rightarrow> hv_state" where
  "hv_vm_init_virq vm virq irq s =
     (if virq < 32 then s
      else
        let irq_index = virq - 32
        in if irq_index > spi_num (hv_get_dist s vm) then s
           else
             let r = Spi vm (unat irq_index);
                 s = init_virq r virq irq s
             in upd_virq r (\<lambda>q. q\<lparr>vq_vcpu := vm_vcpu (vms s vm) 0\<rparr>) s)"

definition get_virq :: "hv_state \<Rightarrow> ptr \<Rightarrow> ptr \<Rightarrow> u32 \<Rightarrow> virq_ref option" where
  "get_virq s vm v virq =
     (if virq < 32 then (if v = 0 then None else Some (Priv v (unat virq)))
      else
        let index = virq - 32
        in if index \<ge> spi_num (hv_get_dist s vm) then None else Some (Spi vm (unat index)))"

definition is_virq_pending :: "hv_state \<Rightarrow> virq_ref \<Rightarrow> bool" where
  "is_virq_pending s r \<longleftrightarrow> pdq (virqs s r) \<or> pending (virqs s r)"

section \<open>List nodes\<close>

text \<open>\<^verbatim>\<open>list_delete\<close> followed by \<^verbatim>\<open>list_initialize\<close> of the node: unlinked from the list it is in.\<close>

definition pd_unlink :: "virq_ref \<Rightarrow> hv_state \<Rightarrow> hv_state" where
  "pd_unlink r s =
     (case pd_node (virqs s r) of
        None \<Rightarrow> s
      | Some v \<Rightarrow> upd_virq r (\<lambda>q. q\<lparr>pd_node := None\<rparr>)
                    (upd_redist v (\<lambda>d. d\<lparr>pd_head := remove1 r (pd_head d)\<rparr>) s))"

definition lr_unlink :: "virq_ref \<Rightarrow> hv_state \<Rightarrow> hv_state" where
  "lr_unlink r s =
     (case lr_node (virqs s r) of
        None \<Rightarrow> s
      | Some v \<Rightarrow> upd_virq r (\<lambda>q. q\<lparr>lr_node := None\<rparr>)
                    (upd_redist v (\<lambda>d. d\<lparr>lr_head := remove1 r (lr_head d)\<rparr>) s))"

section \<open>Queueing an interrupt\<close>

text \<open>
  The walk of lines 540 to 545: the position before the first entry of lower priority, \<open>None\<close> when
  there is no such entry.
\<close>

fun insert_before :: "(virq_ref \<Rightarrow> u8) \<Rightarrow> virq_ref \<Rightarrow> virq_ref list \<Rightarrow> virq_ref list option" where
  "insert_before pri r [] = None"
| "insert_before pri r (tmp # xs) =
     (if pri tmp < pri r then Some (r # tmp # xs) else map_option (Cons tmp) (insert_before pri r xs))"

definition insert_into_pdlist :: "virq_ref \<Rightarrow> ptr \<Rightarrow> hv_state \<Rightarrow> hv_state" where
  "insert_into_pdlist r v s =
     (if pd_node (virqs s r) \<noteq> None then s
      else
        let s = upd_virq r (\<lambda>q. q\<lparr>pdq := True\<rparr>) s;
            new = (if pd_head (redist s v) = [] then Some [r]
                   else insert_before (\<lambda>x. priority (virqs s x)) r (pd_head (redist s v)))
        in case new of
             None \<Rightarrow> s
           | Some l \<Rightarrow> upd_virq r (\<lambda>q. q\<lparr>pd_node := Some v\<rparr>) (upd_redist v (\<lambda>d. d\<lparr>pd_head := l\<rparr>) s))"

definition hv_virq_cpending :: "virq_ref \<Rightarrow> hv_state \<Rightarrow> hv_state" where
  "hv_virq_cpending r s =
     (let s = upd_virq r (\<lambda>q. q\<lparr>pdq := False\<rparr>) s
      in if pd_node (virqs s r) \<noteq> None
         then upd_virq r (\<lambda>q. q\<lparr>pending := False, active := False\<rparr>) (pd_unlink r s)
         else s)"

definition hv_virq_enable :: "virq_ref \<Rightarrow> bool \<Rightarrow> hv_state \<Rightarrow> hv_state" where
  "hv_virq_enable r en s =
     (let s = upd_virq r (\<lambda>q. q\<lparr>enable := en\<rparr>) s;
          s = (if hwintid (virqs s r) \<noteq> 0 \<and> en
               then gic_set_enable (unat (hwintid (virqs s r))) (enable (virqs s r)) s else s)
      in if \<not> en then hv_virq_cpending r s else s)"

section \<open>Into the list registers\<close>

definition move_to_lr_lst :: "ptr \<Rightarrow> virq_ref \<Rightarrow> hv_state \<Rightarrow> hv_state" where
  "move_to_lr_lst v r s =
     (let s = pd_unlink r s;
          s = upd_virq r (\<lambda>q. q\<lparr>pdq := False\<rparr>) s
      in if lr_node (virqs s r) = None
         then upd_virq r (\<lambda>q. q\<lparr>lr_node := Some v\<rparr>) (upd_redist v (\<lambda>d. d\<lparr>lr_head := lr_head d @ [r]\<rparr>) s)
         else s)"

text \<open>
  One entry of the pending list (lines 449 to 505). The second component is whether the loop goes on;
  it stops when no list register is free.
\<close>

definition flush_one :: "ptr \<Rightarrow> virq_ref \<Rightarrow> hv_state \<Rightarrow> hv_state \<times> bool" where
  "flush_one v r s =
     (if hwintid (virqs s r) \<noteq> 0 then
        (let s = upd_virq r (\<lambda>q. q\<lparr>lr := vgic_get_lr s\<rparr>) s
         in if lr (virqs s r) = LR_INDEX_INVALID then (vgic_maintenace_on MAINT_UIE s, False)
            else (move_to_lr_lst v r (vgic_write_lr (virqs s r) s), True))
      else if lr (virqs s r) = LR_INDEX_INVALID then
        (let s = upd_virq r (\<lambda>q. q\<lparr>lr := vgic_get_lr s\<rparr>) s
         in if lr (virqs s r) = LR_INDEX_INVALID then (vgic_maintenace_on MAINT_UIE s, False)
            else (move_to_lr_lst v r (upd_virq r (\<lambda>q. q\<lparr>pending := True\<rparr>) (vgic_write_lr (virqs s r) s)), True))
      else
        (let st = gl_status (vgic_read_lr (unat (lr (virqs s r))) s)
         in if st = 2 then
              (move_to_lr_lst v r (upd_virq r (\<lambda>q. q\<lparr>active := True, pending := True\<rparr>) (vgic_update_lr (virqs s r) s)), True)
            else if st = 0 then
              (move_to_lr_lst v r (upd_virq r (\<lambda>q. q\<lparr>pending := True\<rparr>) (vgic_write_lr (virqs s r) s)), True)
            else (s, True)))"

fun flush_loop :: "ptr \<Rightarrow> virq_ref list \<Rightarrow> hv_state \<Rightarrow> hv_state" where
  "flush_loop v [] s = s"
| "flush_loop v (r # rs) s = (case flush_one v r s of (s', go) \<Rightarrow> if go then flush_loop v rs s' else s')"

definition hv_flush_queued_virqs :: "ptr \<Rightarrow> hv_state \<Rightarrow> hv_state" where
  "hv_flush_queued_virqs v s =
     (if pd_head (redist s v) = [] then s else flush_loop v (pd_head (redist s v)) s)"

definition hv_virq_to_lrs :: "hv_state \<Rightarrow> hv_state" where
  "hv_virq_to_lrs s =
     (let v = current_vcpu s
      in if v = 0 \<or> \<not> is_inited (vcpus s v) then s else hv_flush_queued_virqs v s)"

section \<open>Back from the list registers\<close>

text \<open>An interrupt whose list register no longer holds it (lines 353 to 364 and 370 to 381).\<close>

definition free_virq :: "virq_ref \<Rightarrow> hv_state \<Rightarrow> hv_state" where
  "free_virq r s =
     (let s = upd_virq r (\<lambda>q. q\<lparr>pending := False, active := False, lr := 0\<rparr>) s;
          s = lr_unlink r s
      in if migrate (virqs s r)
         then upd_virq r (\<lambda>q. q\<lparr>migrate := False\<rparr>)
                (gic_set_affinity (unat (hwintid (virqs s r))) (nat (hv_vcpu_cpu_id s (vq_vcpu (virqs s r)))) False s)
         else s)"

definition sync_one :: "virq_ref \<Rightarrow> hv_state \<times> bool \<Rightarrow> hv_state \<times> bool" where
  "sync_one r sf =
     (case sf of (s, free) \<Rightarrow>
        if lr (virqs s r) = LR_INDEX_INVALID then (s, free)
        else
          let lr_val = vgic_read_lr (unat (lr (virqs s r))) s
          in if intid (virqs s r) \<noteq> gl_virq lr_val then (free_virq r s, True)
             else if gl_status lr_val = 0 then (free_virq r s, True)
             else if gl_status lr_val = 1 then (upd_virq r (\<lambda>q. q\<lparr>pending := True, active := False\<rparr>) s, free)
             else if gl_status lr_val = 2 then (upd_virq r (\<lambda>q. q\<lparr>pending := False, active := True\<rparr>) s, True)
             else if gl_status lr_val = 3 then (upd_virq r (\<lambda>q. q\<lparr>pending := True, active := True\<rparr>) s, free)
             else (s, free))"

definition hv_sync_irq_from_lrs :: "ptr \<Rightarrow> hv_state \<Rightarrow> hv_state" where
  "hv_sync_irq_from_lrs v s =
     (let (s, free) = fold sync_one (lr_head (redist s v)) (s, False)
      in if free then vgic_maintenace_off MAINT_UIE s else s)"

definition hv_virq_from_lrs :: "hv_state \<Rightarrow> hv_state" where
  "hv_virq_from_lrs s =
     (let v = current_vcpu s
      in if v = 0 \<or> \<not> is_inited (vcpus s v) then s else hv_sync_irq_from_lrs v s)"

section \<open>Power off\<close>

definition lr_cleanup :: "nat \<Rightarrow> hv_state \<Rightarrow> hv_state" where
  "lr_cleanup i s =
     (let pirq = gl_pirq (vgic_read_lr i s);
          s = (if pirq \<noteq> 0 then gic_clear_pending (unat pirq) (gic_set_icactiver (unat pirq) s) else s)
      in lr_write i 0 s)"

definition pd_cleanup :: "virq_ref \<Rightarrow> hv_state \<Rightarrow> hv_state" where
  "pd_cleanup r s =
     (let s = pd_unlink r s
      in if hwintid (virqs s r) \<noteq> 0 then gic_set_icactiver (unat (hwintid (virqs s r))) s else s)"

definition hv_vcpu_irq_cleanup :: "ptr \<Rightarrow> hv_state \<Rightarrow> hv_state" where
  "hv_vcpu_irq_cleanup v s =
     (let s = fold lr_unlink (lr_head (redist s v)) s;
          s = upd_redist v (\<lambda>d. d\<lparr>lr_head := []\<rparr>) s;
          s = fold lr_cleanup [0..<unat (rd_lr_nr (redist s v))] s;
          s = fold pd_cleanup (pd_head (redist s v)) s
      in upd_redist v (\<lambda>d. d\<lparr>pd_head := []\<rparr>) s)"

section \<open>Frames\<close>

lemma upd_virq_frame [simp]:
  "virqs (upd_virq r f s) x = (if x = r then f (virqs s r) else virqs s x)" "redist (upd_virq r f s) = redist s"
  "ARM64_READ_SYSREG q (upd_virq r f s) = ARM64_READ_SYSREG q s" "plat (upd_virq r f s) = plat s"
  "vinfo (upd_virq r f s) = vinfo s" "vcpus (upd_virq r f s) = vcpus s" "curr_cpu (upd_virq r f s) = curr_cpu s"
  "threads (upd_virq r f s) = threads s" "vms (upd_virq r f s) = vms s"
  by (simp_all add: upd_virq_def redist_def fun_eq_iff ARM64_READ_SYSREG_def)

lemma upd_redist_frame [simp]:
  "virqs (upd_redist v f s) = virqs s" "redist (upd_redist v f s) w = (if w = v then f (redist s v) else redist s w)"
  "ARM64_READ_SYSREG q (upd_redist v f s) = ARM64_READ_SYSREG q s" "plat (upd_redist v f s) = plat s"
  "vinfo (upd_redist v f s) = vinfo s"
  by (simp_all add: upd_redist_def upd_vcpu_def redist_def ARM64_READ_SYSREG_def)

lemma lrs_upd [simp]: "lrs (upd_virq r f s) = lrs s" "lrs (upd_redist v g s) = lrs s"
  by (simp_all add: lrs_def fun_eq_iff)

lemma redist_sysreg [simp]: "redist (ARM64_WRITE_SYSREG q x s) = redist s"
  by (simp add: redist_def fun_eq_iff)

lemma hw_frame [simp]:
  "virqs (lr_write i x s) = virqs s" "redist (lr_write i x s) = redist s" "plat (lr_write i x s) = plat s"
  "vinfo (lr_write i x s) = vinfo s" "virqs (vgic_write_lr q s) = virqs s" "redist (vgic_write_lr q s) = redist s"
  "plat (vgic_write_lr q s) = plat s" "vinfo (vgic_write_lr q s) = vinfo s"
  "virqs (vgic_update_lr q s) = virqs s" "redist (vgic_update_lr q s) = redist s"
  "virqs (vgic_maintenace_on n s) = virqs s" "redist (vgic_maintenace_on n s) = redist s"
  "virqs (vgic_maintenace_off n s) = virqs s" "redist (vgic_maintenace_off n s) = redist s"
  by (simp_all add: lr_write_def vgic_write_lr_def vgic_update_lr_def vgic_maintenace_on_def
      vgic_maintenace_off_def Let_def)

lemma gic_frame [simp]:
  "virqs (gic_put w s) = virqs s" "redist (gic_put w s) = redist s"
  "ARM64_READ_SYSREG q (gic_put w s) = ARM64_READ_SYSREG q s"
  by (simp_all add: gic_put_def redist_def fun_eq_iff ARM64_READ_SYSREG_def)

lemma gic_ops_frame [simp]:
  "virqs (gic_set_enable n b s) = virqs s" "redist (gic_set_enable n b s) = redist s"
  "virqs (gic_set_icactiver n s) = virqs s" "redist (gic_set_icactiver n s) = redist s"
  "virqs (gic_clear_pending n s) = virqs s" "redist (gic_clear_pending n s) = redist s"
  "redist (gic_set_affinity n c b s) = redist s"
  by (simp_all add: gic_set_enable_def gic_set_icactiver_def gic_clear_pending_def gic_set_affinity_def Let_def)

section \<open>Invariant of the lists\<close>

text \<open>
  A descriptor is in the pending list, or the list of list registers, of at most one virtual CPU,
  at most once, and its node says in which; one in a pending list has \<^verbatim>\<open>pdq\<close> set.
\<close>

definition vq_inv :: "hv_state \<Rightarrow> bool" where
  "vq_inv s \<longleftrightarrow> (\<forall>v. distinct (pd_head (redist s v)) \<and> distinct (lr_head (redist s v))) \<and>
     (\<forall>r v. r \<in> set (pd_head (redist s v)) \<longleftrightarrow> pd_node (virqs s r) = Some v) \<and>
     (\<forall>r v. r \<in> set (lr_head (redist s v)) \<longleftrightarrow> lr_node (virqs s r) = Some v) \<and>
     (\<forall>r. pd_node (virqs s r) \<noteq> None \<longrightarrow> pdq (virqs s r))"

lemma vq_inv_cong:
  assumes "\<And>r. pd_node (virqs s' r) = pd_node (virqs s r)" "\<And>r. lr_node (virqs s' r) = lr_node (virqs s r)"
    "\<And>r. pdq (virqs s r) \<Longrightarrow> pd_node (virqs s r) \<noteq> None \<Longrightarrow> pdq (virqs s' r)"
    "\<And>v. pd_head (redist s' v) = pd_head (redist s v)" "\<And>v. lr_head (redist s' v) = lr_head (redist s v)"
    and "vq_inv s"
  shows "vq_inv s'"
  using assms unfolding vq_inv_def by simp

lemma vq_upd:
  assumes "vq_inv s" "pd_node (f (virqs s r)) = pd_node (virqs s r)" "lr_node (f (virqs s r)) = lr_node (virqs s r)"
    "pd_node (virqs s r) \<noteq> None \<Longrightarrow> pdq (virqs s r) \<Longrightarrow> pdq (f (virqs s r))"
  shows "vq_inv (upd_virq r f s)"
  by (rule vq_inv_cong [OF _ _ _ _ _ assms(1)]) (use assms(2-) in auto)

lemma vq_pd_unlink: "vq_inv s \<Longrightarrow> vq_inv (pd_unlink r s)"
  unfolding vq_inv_def pd_unlink_def by (auto simp: set_remove1_eq split: option.split)

lemma vq_lr_unlink: "vq_inv s \<Longrightarrow> vq_inv (lr_unlink r s)"
  unfolding vq_inv_def lr_unlink_def by (auto simp: set_remove1_eq split: option.split)

lemma pd_unlink_virqs:
  "virqs (pd_unlink r s) x = (if x = r then (virqs s r)\<lparr>pd_node := None\<rparr> else virqs s x)"
  by (auto simp: pd_unlink_def split: option.split)

lemma vq_pd_link:
  assumes "vq_inv s" "pd_node (virqs s r) = None" "pdq (virqs s r)"
    and "set l = insert r (set (pd_head (redist s v)))" "distinct l"
  shows "vq_inv (upd_virq r (\<lambda>q. q\<lparr>pd_node := Some v\<rparr>) (upd_redist v (\<lambda>d. d\<lparr>pd_head := l\<rparr>) s))"
  using assms unfolding vq_inv_def by auto

lemma vq_lr_link:
  assumes "vq_inv s" "lr_node (virqs s r) = None"
  shows "vq_inv (upd_virq r (\<lambda>q. q\<lparr>lr_node := Some v\<rparr>) (upd_redist v (\<lambda>d. d\<lparr>lr_head := lr_head d @ [r]\<rparr>) s))"
  using assms unfolding vq_inv_def by auto

lemma insert_before_set: "insert_before pri r xs = Some l \<Longrightarrow> set l = insert r (set xs) \<and> (r \<notin> set xs \<longrightarrow> distinct xs \<longrightarrow> distinct l)"
  by (induction xs arbitrary: l) (auto split: if_splits)

lemma vq_insert: "vq_inv s \<Longrightarrow> vq_inv (insert_into_pdlist r v s)"
proof -
  assume inv: "vq_inv s"
  show ?thesis
  proof (cases "pd_node (virqs s r) = None")
    case False
    with inv show ?thesis by (simp add: insert_into_pdlist_def)
  next
    case True
    let ?s = "upd_virq r (\<lambda>q. q\<lparr>pdq := True\<rparr>) s"
    have i: "vq_inv ?s" using inv by (rule vq_upd) auto
    have n: "r \<notin> set (pd_head (redist s v))" "distinct (pd_head (redist s v))" using inv True by (auto simp: vq_inv_def)
    then have "set l = insert r (set (pd_head (redist ?s v))) \<and> distinct l"
      if "(if pd_head (redist ?s v) = [] then Some [r] else insert_before (\<lambda>x. priority (virqs ?s x)) r (pd_head (redist ?s v))) = Some l" for l
      using that insert_before_set [of _ r "pd_head (redist s v)" l] by (auto split: if_splits)
    then show ?thesis
      using True i vq_pd_link [OF i, of r _ v] by (auto simp: insert_into_pdlist_def Let_def split: option.split)
  qed
qed

lemma vq_cpending: "vq_inv s \<Longrightarrow> vq_inv (hv_virq_cpending r s)"
  unfolding vq_inv_def hv_virq_cpending_def pd_unlink_def Let_def
  by (auto simp: set_remove1_eq split: option.split)

lemma vq_enable: "vq_inv s \<Longrightarrow> vq_inv (hv_virq_enable r b s)"
proof -
  assume "vq_inv s"
  then have "vq_inv (upd_virq r (\<lambda>q. q\<lparr>enable := b\<rparr>) s)" by (rule vq_upd) auto
  moreover then have "vq_inv (gic_set_enable n b (upd_virq r (\<lambda>q. q\<lparr>enable := b\<rparr>) s))" for n b
    by (rule vq_inv_cong [rotated -1]) auto
  ultimately show ?thesis by (auto simp: hv_virq_enable_def Let_def intro!: vq_cpending)
qed

lemma vq_hw:
  assumes "vq_inv s" "virqs s' = virqs s" "redist s' = redist s"
  shows "vq_inv s'"
  using assms by (simp add: vq_inv_def)

lemma vq_move: "vq_inv s \<Longrightarrow> vq_inv (move_to_lr_lst v r s)"
proof -
  assume "vq_inv s"
  then have "vq_inv (pd_unlink r s)" by (rule vq_pd_unlink)
  then have i: "vq_inv (upd_virq r (\<lambda>q. q\<lparr>pdq := False\<rparr>) (pd_unlink r s))"
    by (rule vq_upd) (auto simp: pd_unlink_virqs)
  then show ?thesis using vq_lr_link [OF i, of r v] by (simp add: move_to_lr_lst_def Let_def)
qed

lemma vq_flush_one: "vq_inv s \<Longrightarrow> vq_inv (fst (flush_one v r s))"
proof -
  assume i: "vq_inv s"
  have w: "vq_inv s \<Longrightarrow> vq_inv (vgic_write_lr q s)" "vq_inv s \<Longrightarrow> vq_inv (vgic_update_lr q s)"
    "vq_inv s \<Longrightarrow> vq_inv (vgic_maintenace_on n s)" for q n s
    by (auto intro: vq_hw)
  have u: "vq_inv s \<Longrightarrow> vq_inv (upd_virq r (\<lambda>q. q\<lparr>lr := x\<rparr>) s)" "vq_inv s \<Longrightarrow> vq_inv (upd_virq r (\<lambda>q. q\<lparr>pending := True\<rparr>) s)"
    "vq_inv s \<Longrightarrow> vq_inv (upd_virq r (\<lambda>q. q\<lparr>active := True, pending := True\<rparr>) s)" for x s
    by (erule vq_upd; simp)+
  show ?thesis using i by (simp add: flush_one_def Let_def w u vq_move)
qed

lemma vq_flush_loop: "vq_inv s \<Longrightarrow> vq_inv (flush_loop v rs s)"
proof (induction rs arbitrary: s)
  case (Cons r rs)
  obtain s' b where f: "flush_one v r s = (s', b)" by fastforce
  with vq_flush_one [OF Cons.prems, of v r] have "vq_inv s'" by simp
  with f Cons.IH show ?case by simp
qed simp

lemma vq_free: "vq_inv s \<Longrightarrow> vq_inv (free_virq r s)"
proof -
  assume "vq_inv s"
  then have "vq_inv (upd_virq r (\<lambda>q. q\<lparr>pending := False, active := False, lr := 0\<rparr>) s)" by (rule vq_upd) simp_all
  then have "vq_inv (lr_unlink r (upd_virq r (\<lambda>q. q\<lparr>pending := False, active := False, lr := 0\<rparr>) s))" by (rule vq_lr_unlink)
  moreover have "vq_inv s \<Longrightarrow> vq_inv (upd_virq r (\<lambda>q. q\<lparr>migrate := False\<rparr>) (gic_set_affinity n c b s))" for s n c b
    by (rule vq_upd) (auto intro: vq_hw)
  ultimately show ?thesis by (simp add: free_virq_def Let_def)
qed

lemma vq_sync_one: "vq_inv (fst sf) \<Longrightarrow> vq_inv (fst (sync_one r sf))"
  by (cases sf) (auto simp: sync_one_def Let_def intro!: vq_free vq_upd)

lemma vq_sync: "vq_inv s \<Longrightarrow> vq_inv (hv_sync_irq_from_lrs v s)"
proof -
  have f: "vq_inv (fst sf) \<Longrightarrow> vq_inv (fst (fold sync_one rs sf))" for rs sf
  proof (induction rs arbitrary: sf)
    case (Cons r rs)
    then show ?case using Cons.IH [of "sync_one r sf"] vq_sync_one [of sf r] by simp
  qed simp
  assume i: "vq_inv s"
  obtain s' b where e: "fold sync_one (lr_head (redist s v)) (s, False) = (s', b)" by fastforce
  have "vq_inv s'" using f [of "(s, False)" "lr_head (redist s v)"] i e by simp
  moreover then have "vq_inv (vgic_maintenace_off n s')" for n by (rule vq_hw) simp_all
  ultimately show ?thesis by (simp add: hv_sync_irq_from_lrs_def e)
qed


lemma unlink_heads:
  assumes "vq_inv s"
  shows "set (lr_head (redist (lr_unlink r s) v)) = set (lr_head (redist s v)) - {r}"
    and "set (pd_head (redist (pd_unlink r s) v)) = set (pd_head (redist s v)) - {r}"
  using assms unfolding vq_inv_def lr_unlink_def pd_unlink_def
  by (auto simp: set_remove1_eq split: option.split)

lemma vq_fold_lr_unlink:
  "vq_inv s \<Longrightarrow> vq_inv (fold lr_unlink rs s) \<and> set (lr_head (redist (fold lr_unlink rs s) v)) = set (lr_head (redist s v)) - set rs"
proof (induction rs arbitrary: s)
  case (Cons r rs)
  then show ?case using Cons.IH [OF vq_lr_unlink [OF Cons.prems, of r]] by (simp add: unlink_heads) blast
qed simp

lemma vq_pd_cleanup:
  "vq_inv s \<Longrightarrow> vq_inv (pd_cleanup r s) \<and> set (pd_head (redist (pd_cleanup r s) v)) = set (pd_head (redist s v)) - {r}"
  using vq_pd_unlink [of s r] by (auto simp: pd_cleanup_def Let_def unlink_heads intro: vq_hw)

lemma vq_fold_pd_cleanup:
  "vq_inv s \<Longrightarrow> vq_inv (fold pd_cleanup rs s) \<and> set (pd_head (redist (fold pd_cleanup rs s) v)) = set (pd_head (redist s v)) - set rs"
proof (induction rs arbitrary: s)
  case (Cons r rs)
  then show ?case using Cons.IH [of "pd_cleanup r s"] vq_pd_cleanup [OF Cons.prems, of r] by simp blast
qed simp

lemma fold_lr_cleanup_frame [simp]:
  "virqs (fold lr_cleanup is s) = virqs s" "redist (fold lr_cleanup is s) = redist s"
  by (induction "is" arbitrary: s) (simp_all add: lr_cleanup_def Let_def)

lemma vq_nil_heads: "vq_inv s \<Longrightarrow> lr_head (redist s v) = [] \<Longrightarrow> vq_inv (upd_redist v (\<lambda>d. d\<lparr>lr_head := []\<rparr>) s)"
  "vq_inv s \<Longrightarrow> pd_head (redist s v) = [] \<Longrightarrow> vq_inv (upd_redist v (\<lambda>d. d\<lparr>pd_head := []\<rparr>) s)"
  by (erule vq_inv_cong [rotated -1]; simp)+

lemma vq_cleanup: "vq_inv s \<Longrightarrow> vq_inv (hv_vcpu_irq_cleanup v s)"
proof -
  assume i: "vq_inv s"
  let ?a = "fold lr_unlink (lr_head (redist s v)) s"
  let ?b = "upd_redist v (\<lambda>d. d\<lparr>lr_head := []\<rparr>) ?a"
  let ?c = "fold lr_cleanup [0..<unat (rd_lr_nr (redist ?b v))] ?b"
  let ?d = "fold pd_cleanup (pd_head (redist ?c v)) ?c"
  have "vq_inv ?b" using vq_fold_lr_unlink [OF i, of "lr_head (redist s v)" v] by (intro vq_nil_heads) auto
  then have "vq_inv ?c" by (rule vq_hw) simp_all
  then have "vq_inv (upd_redist v (\<lambda>d. d\<lparr>pd_head := []\<rparr>) ?d)"
    using vq_fold_pd_cleanup [of ?c "pd_head (redist ?c v)" v] by (intro vq_nil_heads) auto
  then show ?thesis by (simp add: hv_vcpu_irq_cleanup_def Let_def)
qed

section \<open>Flushing hardware interrupts\<close>

lemma link_frame [simp]:
  "lrs (pd_unlink r s) = lrs s" "vinfo (pd_unlink r s) = vinfo s" "plat (pd_unlink r s) = plat s"
  "ARM64_READ_SYSREG q (pd_unlink r s) = ARM64_READ_SYSREG q s"
  "lr_head (redist (pd_unlink r s) v) = lr_head (redist s v)"
  by (simp_all add: pd_unlink_def split: option.split)

lemma move_frame [simp]:
  "lrs (move_to_lr_lst v r s) = lrs s" "vinfo (move_to_lr_lst v r s) = vinfo s" "plat (move_to_lr_lst v r s) = plat s"
  by (simp_all add: move_to_lr_lst_def Let_def)

lemma lrs_write_lr: "lrs (vgic_write_lr q s) = (if unat (lr q) < 16 then (lrs s)(unat (lr q) := lr_val q) else lrs s)"
  by (auto simp: vgic_write_lr_def lrs_write fun_eq_iff)

lemma lr_val_lr [simp]: "lr_val (q\<lparr>lr := i\<rparr>) = lr_val q"
  by (simp add: lr_val_def)

lemma lrs_maintenace [simp]: "lrs (vgic_maintenace_on n s) = lrs s"
  by (simp add: lrs_def vgic_maintenace_on_def fun_eq_iff)

lemma bit_UIE: "bit (ARM64_READ_SYSREG ICH_HCR_EL2 (vgic_maintenace_on MAINT_UIE s)) 1"
  by (simp add: vgic_maintenace_on_def bit_simps)

lemma flush_hw_full:
  assumes "hwintid (virqs s r) \<noteq> 0" "vgic_get_lr s = LR_INDEX_INVALID"
  shows "flush_one v r s = (vgic_maintenace_on MAINT_UIE (upd_virq r (\<lambda>q. q\<lparr>lr := LR_INDEX_INVALID\<rparr>) s), False)"
  using assms by (simp add: flush_one_def)

lemma flush_hw_step:
  assumes r: "hwintid (virqs s r) \<noteq> 0" "lr_node (virqs s r) = None" "pd_node (virqs s r) = Some v"
    and i: "unat (vgic_get_lr s) < 16"
  obtains s' where "flush_one v r s = (s', True)" "vinfo s' = vinfo s" "plat s' = plat s"
    "lrs s' = (lrs s)(unat (vgic_get_lr s) := lr_val (virqs s r))"
    "pd_head (redist s' v) = remove1 r (pd_head (redist s v))" "lr_head (redist s' v) = lr_head (redist s v) @ [r]"
    "\<And>x. x \<noteq> r \<Longrightarrow> virqs s' x = virqs s x" "lr (virqs s' r) = vgic_get_lr s"
proof
  let ?s = "upd_virq r (\<lambda>q. q\<lparr>lr := vgic_get_lr s\<rparr>) s"
  let ?s' = "move_to_lr_lst v r (vgic_write_lr (virqs ?s r) ?s)"
  show "flush_one v r s = (?s', True)" using r i by (auto simp: flush_one_def Let_def)
  show "vinfo ?s' = vinfo s" "plat ?s' = plat s" "lrs ?s' = (lrs s)(unat (vgic_get_lr s) := lr_val (virqs s r))"
    using i by (simp_all add: lrs_write_lr)
  show "pd_head (redist ?s' v) = remove1 r (pd_head (redist s v))" "lr_head (redist ?s' v) = lr_head (redist s v) @ [r]"
    "lr (virqs ?s' r) = vgic_get_lr s"
    using r by (simp_all add: move_to_lr_lst_def pd_unlink_def)
  show "virqs ?s' x = virqs s x" if "x \<noteq> r" for x
    using r that by (simp add: move_to_lr_lst_def pd_unlink_def)
qed

definition hw_flushed :: "ptr \<Rightarrow> virq_ref list \<Rightarrow> hv_state \<Rightarrow> hv_state \<Rightarrow> nat \<Rightarrow> bool" where
  "hw_flushed v rs s s' n \<longleftrightarrow>
     n \<le> length rs \<and> pd_head (redist s' v) = drop n rs \<and> lr_head (redist s' v) = lr_head (redist s v) @ take n rs \<and>
     (\<forall>r\<in>set (take n rs). unat (lr (virqs s' r)) < unat (vi_lr_nr (vinfo s)) \<and>
        lr_empty (lrs s (unat (lr (virqs s' r)))) \<and> lrs s' (unat (lr (virqs s' r))) = lr_val (virqs s r)) \<and>
     inj_on (\<lambda>r. lr (virqs s' r)) (set (take n rs)) \<and>
     (\<forall>i. \<not> lr_empty (lrs s i) \<longrightarrow> lrs s' i = lrs s i) \<and> (\<forall>r. r \<notin> set rs \<longrightarrow> virqs s' r = virqs s r) \<and>
     (n < length rs \<longrightarrow> (\<forall>i<unat (vi_lr_nr (vinfo s)). \<not> lr_empty (lrs s' i)) \<and>
        bit (ARM64_READ_SYSREG ICH_HCR_EL2 s') 1)"

lemma hw_flushed_cons:
  assumes hf: "hw_flushed v rs s1 s' n" and r: "r \<notin> set rs"
    and e: "unat (lr (virqs s1 r)) < unat (vi_lr_nr (vinfo s))" "lr_empty (lrs s (unat (lr (virqs s1 r))))"
    and s1: "vinfo s1 = vinfo s" "lrs s1 = (lrs s)(unat (lr (virqs s1 r)) := lr_val (virqs s r))"
    "lr_head (redist s1 v) = lr_head (redist s v) @ [r]" "\<And>x. x \<noteq> r \<Longrightarrow> virqs s1 x = virqs s x"
  shows "hw_flushed v (r # rs) s s' (Suc n)"
proof -
  note h = hf [unfolded hw_flushed_def s1(1)]
  have keep: "virqs s' r = virqs s1 r" using h r by blast
  have lr_r: "lrs s1 (unat (lr (virqs s1 r))) = lr_val (virqs s r)" using s1(2) by simp
  then have ne: "\<not> lr_empty (lrs s1 (unat (lr (virqs s1 r))))" by (simp add: lr_val_not_empty)
  have old: "lr_empty (lrs s j)" "j \<noteq> unat (lr (virqs s1 r))" if "lr_empty (lrs s1 j)" for j
    using that ne by (auto simp: s1(2) split: if_splits)
  have other: "virqs s1 x = virqs s x" if "x \<in> set (take n rs)" for x
    using that r set_take_subset [of n rs] by (intro s1(4)) blast
  have "unat (lr (virqs s' x)) < unat (vi_lr_nr (vinfo s)) \<and> lr_empty (lrs s (unat (lr (virqs s' x)))) \<and>
      lrs s' (unat (lr (virqs s' x))) = lr_val (virqs s x)" if "x \<in> set (take (Suc n) (r # rs))" for x
  proof (cases "x = r")
    case True
    have "lrs s' (unat (lr (virqs s1 r))) = lrs s1 (unat (lr (virqs s1 r)))" using h ne by blast
    with e lr_r keep True show ?thesis by simp
  next
    case False
    with that have "x \<in> set (take n rs)" by simp
    with h other old show ?thesis by fastforce
  qed
  moreover have "inj_on (\<lambda>r. lr (virqs s' r)) (set (take (Suc n) (r # rs)))"
  proof -
    have "lr (virqs s' r) \<noteq> lr (virqs s' x)" if "x \<in> set (take n rs)" for x
      using that h old(2) keep by fastforce
    moreover have "inj_on (\<lambda>r. lr (virqs s' r)) (set (take n rs))" using h by blast
    ultimately show ?thesis by (fastforce simp: inj_on_def)
  qed
  moreover have "lrs s' i = lrs s i" if "\<not> lr_empty (lrs s i)" for i
  proof -
    have "i \<noteq> unat (lr (virqs s1 r))" using that e by auto
    then have "lrs s1 i = lrs s i" by (simp add: s1(2))
    with that h show ?thesis by auto
  qed
  moreover have "\<forall>x. x \<notin> set (r # rs) \<longrightarrow> virqs s' x = virqs s x" using h s1(4) by auto
  ultimately show ?thesis unfolding hw_flushed_def using h s1(3) by (auto simp del: set_take_subset)
qed

lemma flush_loop_hw:
  assumes "vq_inv s" "pd_head (redist s v) = rs" "\<forall>r\<in>set rs. hwintid (virqs s r) \<noteq> 0 \<and> lr_node (virqs s r) = None"
    and "elrsr_ok (plat s)" "unat (vi_lr_nr (vinfo s)) \<le> 16"
  shows "\<exists>n. hw_flushed v rs s (flush_loop v rs s) n"
  using assms
proof (induction rs arbitrary: s)
  case Nil
  then show ?case by (intro exI [of _ 0]) (simp add: hw_flushed_def)
next
  case (Cons r rs)
  have r: "hwintid (virqs s r) \<noteq> 0" "lr_node (virqs s r) = None" "pd_node (virqs s r) = Some v" "r \<notin> set rs"
    using Cons.prems unfolding vq_inv_def by (auto, metis list.set_intros(1), metis distinct.simps(2))
  show ?case
  proof (cases "vgic_get_lr s = LR_INDEX_INVALID")
    case True
    moreover have "\<forall>i<unat (vi_lr_nr (vinfo s)). \<not> lr_empty (lrs s i)"
      using vgic_get_lr_free [OF Cons.prems(4,5)] True Cons.prems(5) by auto
    ultimately show ?thesis using r Cons.prems(2) bit_UIE
      by (intro exI [of _ 0]) (simp add: hw_flushed_def flush_hw_full)
  next
    case False
    then have i: "unat (vgic_get_lr s) < unat (vi_lr_nr (vinfo s))" "lr_empty (lrs s (unat (vgic_get_lr s)))"
      using vgic_get_lr_free [OF Cons.prems(4,5)] by auto
    then have i16: "unat (vgic_get_lr s) < 16" using Cons.prems(5) by simp
    from flush_hw_step [OF r(1-3) i16] obtain s1 where s1: "flush_one v r s = (s1, True)" "vinfo s1 = vinfo s" "plat s1 = plat s"
      "lrs s1 = (lrs s)(unat (vgic_get_lr s) := lr_val (virqs s r))"
      "pd_head (redist s1 v) = remove1 r (pd_head (redist s v))" "lr_head (redist s1 v) = lr_head (redist s v) @ [r]"
      "\<And>x. x \<noteq> r \<Longrightarrow> virqs s1 x = virqs s x" "lr (virqs s1 r) = vgic_get_lr s" by blast
    have "vq_inv s1" using vq_flush_one [OF Cons.prems(1), of v r] s1(1) by simp
    moreover have "\<forall>x\<in>set rs. hwintid (virqs s1 x) \<noteq> 0 \<and> lr_node (virqs s1 x) = None"
      using Cons.prems(3) r(4) s1(7) by (metis list.set_intros(2))
    ultimately obtain n where "hw_flushed v rs s1 (flush_loop v rs s1) n"
      using Cons.IH [of s1] Cons.prems s1 by auto
    from hw_flushed_cons [OF this r(4), of s] show ?thesis using s1 i by auto
  qed
qed

section \<open>Order of the pending list\<close>

lemma insert_before_some:
  "\<exists>x\<in>set xs. pri x < pri r \<Longrightarrow>
     insert_before pri r xs = Some (takeWhile (\<lambda>x. pri x \<ge> pri r) xs @ r # dropWhile (\<lambda>x. pri x \<ge> pri r) xs)"
  by (induction xs) (auto simp: not_less)

lemma insert_before_none: "\<forall>x\<in>set xs. \<not> pri x < pri r \<Longrightarrow> insert_before pri r xs = None"
  by (induction xs) auto

lemma sorted_wrt_insert:
  assumes "sorted_wrt (\<lambda>x y. pri x \<ge> (pri y :: 'a :: linorder)) xs"
  shows "sorted_wrt (\<lambda>x y. pri x \<ge> pri y) (takeWhile (\<lambda>x. pri x \<ge> pri r) xs @ r # dropWhile (\<lambda>x. pri x \<ge> pri r) xs)"
  using assms
proof (induction xs)
  case (Cons x xs)
  then show ?case by (auto dest: set_takeWhileD set_dropWhileD intro: order_trans)
qed simp

section \<open>What a sync reads back\<close>

definition lr_gone :: "hv_state \<Rightarrow> vgic_irq \<Rightarrow> bool" where
  "lr_gone s q \<longleftrightarrow> lr q \<noteq> LR_INDEX_INVALID \<and>
     (intid q \<noteq> gl_virq (vgic_read_lr (unat (lr q)) s) \<or> gl_status (vgic_read_lr (unat (lr q)) s) = 0)"

definition lr_synced :: "hv_state \<Rightarrow> vgic_irq \<Rightarrow> vgic_irq" where
  "lr_synced s q =
     (if lr q = LR_INDEX_INVALID then q
      else if lr_gone s q then q\<lparr>pending := False, active := False, lr := 0, lr_node := None, migrate := False\<rparr>
      else q\<lparr>pending := bit (gl_status (vgic_read_lr (unat (lr q)) s)) 0,
             active := bit (gl_status (vgic_read_lr (unat (lr q)) s)) 1\<rparr>)"

lemma two_bit_cases:
  fixes st :: u64
  shows "bitfield st n 2 \<in> {0, 1, 2, 3}"
proof -
  have "bitfield st n 2 = of_nat (unat (bitfield st n 2))" by simp
  moreover have "unat (bitfield st n 2) < 4"
    using take_bit_nat_less_exp [of 2 "unat (drop_bit n st)"] by (simp only: bitfield_def unsigned_take_bit_eq) simp
  then have "unat (bitfield st n 2) \<in> {0, 1, 2, 3}" by auto
  ultimately show ?thesis by (elim insertE; simp)
qed

lemma gl_status_cases: "gl_status (vgic_read_lr n s) \<in> {0, 1, 2, 3}"
  using two_bit_cases [of "lr_read n s" 62] by (auto simp: vgic_read_lr_def Let_def)

lemma affinity_frame [simp]:
  "virqs (gic_set_affinity n c b s) = virqs s" "ARM64_READ_SYSREG q (gic_set_affinity n c b s) = ARM64_READ_SYSREG q s"
  by (simp_all add: gic_set_affinity_def Let_def)

lemma read_lr_cong: "(\<And>q. ARM64_READ_SYSREG q s' = ARM64_READ_SYSREG q s) \<Longrightarrow> vgic_read_lr n s' = vgic_read_lr n s"
  by (simp add: vgic_read_lr_def lr_read_def)

lemma free_virq_effect:
  assumes "lr_node (virqs s r) = Some v"
  shows "virqs (free_virq r s) = (virqs s)(r := (virqs s r)\<lparr>pending := False, active := False, lr := 0, lr_node := None, migrate := False\<rparr>)"
    and "lr_head (redist (free_virq r s) w) = (if w = v then remove1 r (lr_head (redist s v)) else lr_head (redist s w))"
    and "pd_head (redist (free_virq r s) w) = pd_head (redist s w)"
    and "ARM64_READ_SYSREG q (free_virq r s) = ARM64_READ_SYSREG q s"
  using assms by (simp_all add: free_virq_def lr_unlink_def Let_def fun_eq_iff)

lemma sync_one_effect:
  assumes n: "lr_node (virqs s r) = Some v" and d: "distinct (lr_head (redist s v))"
  obtains s' f' where "sync_one r (s, f) = (s', f')" "virqs s' = (virqs s)(r := lr_synced s (virqs s r))"
    "lr_head (redist s' v) = filter (\<lambda>x. x = r \<longrightarrow> \<not> lr_gone s (virqs s r)) (lr_head (redist s v))"
    "\<And>w. pd_head (redist s' w) = pd_head (redist s w)" "\<And>q. ARM64_READ_SYSREG q s' = ARM64_READ_SYSREG q s"
proof (cases "lr_gone s (virqs s r)")
  case True
  have "filter (\<lambda>x. x \<noteq> r) l = remove1 r l" if "distinct l" for l
    using that by (auto simp: distinct_remove1_removeAll removeAll_filter_not_eq intro: filter_cong)
  with True n d show thesis
    by (intro that [of "free_virq r s" True])
       (auto simp: free_virq_effect lr_synced_def sync_one_def lr_gone_def Let_def)
next
  case False
  show thesis
  proof (cases "lr (virqs s r) = LR_INDEX_INVALID")
    case True
    with False show thesis by (intro that [of s f]) (auto simp: sync_one_def lr_synced_def)
  next
    case valid: False
    let ?st = "gl_status (vgic_read_lr (unat (lr (virqs s r))) s)"
    let ?s' = "upd_virq r (\<lambda>q. q\<lparr>pending := bit ?st 0, active := bit ?st 1\<rparr>) s"
    have st: "?st \<noteq> 0" "?st \<in> {0,1,2,3}" "gl_virq (vgic_read_lr (unat (lr (virqs s r))) s) = intid (virqs s r)"
      using False valid gl_status_cases [of "unat (lr (virqs s r))" s] by (auto simp: lr_gone_def)
    then have "sync_one r (s, f) = (?s', ?st = 2 \<or> f)"
      using valid by (auto simp: sync_one_def Let_def bit_0)
    with False valid show thesis by (intro that [of ?s' "?st = 2 \<or> f"]) (auto simp: lr_synced_def fun_eq_iff)
  qed
qed

lemma sync_fold:
  assumes "distinct rs" "\<forall>r\<in>set rs. lr_node (virqs s r) = Some v" "distinct (lr_head (redist s v))"
  shows "\<exists>s' f'. fold sync_one rs (s, f) = (s', f') \<and> (\<forall>x. virqs s' x = (if x \<in> set rs then lr_synced s (virqs s x) else virqs s x)) \<and>
    lr_head (redist s' v) = filter (\<lambda>x. x \<in> set rs \<longrightarrow> \<not> lr_gone s (virqs s x)) (lr_head (redist s v)) \<and>
    (\<forall>w. pd_head (redist s' w) = pd_head (redist s w)) \<and> (\<forall>q. ARM64_READ_SYSREG q s' = ARM64_READ_SYSREG q s)"
  using assms
proof (induction rs arbitrary: s f)
  case (Cons r rs)
  from Cons.prems have n: "lr_node (virqs s r) = Some v" by simp
  from sync_one_effect [OF n Cons.prems(3), of f] obtain s1 f1
    where s1: "sync_one r (s, f) = (s1, f1)" "virqs s1 = (virqs s)(r := lr_synced s (virqs s r))"
      "lr_head (redist s1 v) = filter (\<lambda>x. x = r \<longrightarrow> \<not> lr_gone s (virqs s r)) (lr_head (redist s v))"
      "\<And>w. pd_head (redist s1 w) = pd_head (redist s w)" "\<And>q. ARM64_READ_SYSREG q s1 = ARM64_READ_SYSREG q s" by blast
  have c: "lr_gone s1 = lr_gone s" "lr_synced s1 = lr_synced s"
    by (simp_all add: fun_eq_iff lr_synced_def lr_gone_def read_lr_cong [OF s1(5)])
  have k: "virqs s1 x = virqs s x" if "x \<in> set rs" for x using that Cons.prems(1) s1(2) by auto
  then have "\<forall>x\<in>set rs. lr_node (virqs s1 x) = Some v" using Cons.prems(2) by simp
  moreover have "distinct (lr_head (redist s1 v))" using s1(3) Cons.prems(3) by simp
  ultimately obtain s' f' where s': "fold sync_one rs (s1, f1) = (s', f')"
    "\<forall>x. virqs s' x = (if x \<in> set rs then lr_synced s1 (virqs s1 x) else virqs s1 x)"
    "lr_head (redist s' v) = filter (\<lambda>x. x \<in> set rs \<longrightarrow> \<not> lr_gone s1 (virqs s1 x)) (lr_head (redist s1 v))"
    "\<forall>w. pd_head (redist s' w) = pd_head (redist s1 w)" "\<forall>q. ARM64_READ_SYSREG q s' = ARM64_READ_SYSREG q s1"
    using Cons.IH [of s1 f1] Cons.prems(1) by auto
  moreover have "\<forall>x. virqs s' x = (if x \<in> set (r # rs) then lr_synced s (virqs s x) else virqs s x)"
    using s'(2) s1(2) c k Cons.prems(1) by auto
  moreover have "lr_head (redist s' v) = filter (\<lambda>x. x \<in> set (r # rs) \<longrightarrow> \<not> lr_gone s (virqs s x)) (lr_head (redist s v))"
    using s'(3) s1(3) c k Cons.prems(1) by (auto intro!: filter_cong)
  ultimately show ?case using s1 by simp
qed simp

lemma maintenace_off_frame [simp]: "q \<noteq> ICH_HCR_EL2 \<Longrightarrow> ARM64_READ_SYSREG q (vgic_maintenace_off n s) = ARM64_READ_SYSREG q s"
  by (simp add: vgic_maintenace_off_def)

section \<open>Properties\<close>

text \<open>A virtual CPU with two hardware interrupts queued, a third whose end the guest has signalled, and one
  list register, which is empty.\<close>

definition queue_ex :: hv_state where
  "queue_ex = state0\<lparr>vinfo := \<lparr>vi_lr_nr = 1, vi_pribits = 5\<rparr>,
     virqs := (\<lambda>_. zero_virq)
       (Spi 1 0 := zero_virq\<lparr>intid := 32, hwintid := 32, priority := 200, enable := True, lr := 0xff, pd_node := Some 1, pdq := True\<rparr>,
        Spi 1 1 := zero_virq\<lparr>intid := 33, hwintid := 33, priority := 50, enable := True, lr := 0xff, pd_node := Some 1, pdq := True\<rparr>,
        Spi 1 2 := zero_virq\<lparr>intid := 34, hwintid := 34, priority := 100, enable := True, lr := 0xff\<rparr>,
        Spi 1 3 := zero_virq\<lparr>intid := 35, hwintid := 35, active := True, lr_node := Some 1\<rparr>),
     vcpus := (\<lambda>_. zero_vcpu)(1 := zero_vcpu\<lparr>is_inited := True, vcpu_vm := 1, arch := (arch zero_vcpu)\<lparr>av_vgic := zero_redist\<lparr>
        pd_head := [Spi 1 0, Spi 1 1],
        lr_head := [Spi 1 3]\<rparr>\<rparr>\<rparr>)\<rparr>"

lemma queue_ex_simps [simp]:
  "virqs queue_ex (Spi 1 0) = zero_virq\<lparr>intid := 32, hwintid := 32, priority := 200, enable := True, lr := 0xff, pd_node := Some 1, pdq := True\<rparr>"
  "virqs queue_ex (Spi 1 (Suc 0)) = zero_virq\<lparr>intid := 33, hwintid := 33, priority := 50, enable := True, lr := 0xff, pd_node := Some 1, pdq := True\<rparr>"
  "virqs queue_ex (Spi 1 2) = zero_virq\<lparr>intid := 34, hwintid := 34, priority := 100, enable := True, lr := 0xff\<rparr>"
  "virqs queue_ex (Spi 1 3) = zero_virq\<lparr>intid := 35, hwintid := 35, active := True, lr_node := Some 1\<rparr>"
  "pd_head (redist queue_ex 1) = [Spi 1 0, Spi 1 (Suc 0)]" "lr_head (redist queue_ex 1) = [Spi 1 3]" "vi_lr_nr (vinfo queue_ex) = 1" "plat queue_ex = ref_platform"
  by (simp_all add: queue_ex_def zero_defs redist_def)

lemma queue_ex_inv: "vq_inv queue_ex"
  unfolding vq_inv_def by (auto simp: queue_ex_def zero_defs redist_def)

text \<open>
  Queueing an interrupt on an empty pending list, or behind a list in descending order of the
  priority number that has a smaller one: it goes before the first entry with a smaller priority number,
  the list stays in order, and the descriptor is marked as queued on this virtual CPU.
\<close>

theorem insert_into_pdlist_sorted:
  fixes s v r
  defines "pri \<equiv> \<lambda>x. priority (virqs s x)" and "l \<equiv> pd_head (redist s v)" and "s' \<equiv> insert_into_pdlist r v s"
  assumes "pd_node (virqs s r) = None" "sorted_wrt (\<lambda>x y. pri x \<ge> pri y) l" "l = [] \<or> (\<exists>x\<in>set l. pri x < pri r)"
  shows "pd_head (redist s' v) = takeWhile (\<lambda>x. pri x \<ge> pri r) l @ r # dropWhile (\<lambda>x. pri x \<ge> pri r) l \<and>
     sorted_wrt (\<lambda>x y. priority (virqs s' x) \<ge> priority (virqs s' y)) (pd_head (redist s' v)) \<and>
     pd_node (virqs s' r) = Some v \<and> pdq (virqs s' r)"
proof -
  let ?l = "takeWhile (\<lambda>x. pri x \<ge> pri r) l @ r # dropWhile (\<lambda>x. pri x \<ge> pri r) l"
  have p: "(\<lambda>x. priority (virqs (upd_virq r (\<lambda>q. q\<lparr>pdq := True\<rparr>) s) x)) = pri" by (auto simp: pri_def)
  have "(if l = [] then Some [r] else insert_before pri r l) = Some ?l"
    using assms(6) insert_before_some [of l pri r] by auto
  then have s': "s' = upd_virq r (\<lambda>q. q\<lparr>pd_node := Some v\<rparr>)
      (upd_redist v (\<lambda>d. d\<lparr>pd_head := ?l\<rparr>) (upd_virq r (\<lambda>q. q\<lparr>pdq := True\<rparr>) s))"
    using assms(4) p unfolding s'_def insert_into_pdlist_def Let_def l_def
    by (simp del: upd_virq_frame(1) split: if_splits)
  then have "(\<lambda>x. priority (virqs s' x)) = pri" by (auto simp: pri_def)
  then have "sorted_wrt (\<lambda>x y. priority (virqs s' x) \<ge> priority (virqs s' y)) ?l"
    using sorted_wrt_insert [OF assms(5), of r] by metis
  with s' show ?thesis by simp
qed

theorem insert_into_pdlist_sorted_witness:
  "pd_head (redist (insert_into_pdlist (Spi 1 2) 1 queue_ex) 1) = [Spi 1 0, Spi 1 2, Spi 1 1]"
  using insert_into_pdlist_sorted [of queue_ex "Spi 1 2" 1] by (simp add: zero_virq_def)

text \<open>
  Flushing a pending list of hardware interrupts: a prefix of the list moves, in order, to the list of
  those in list registers; each of them gets a register of its own that was empty, which then
  holds it as pending; no register in use is overwritten; and when part of the list stays behind, no
  register is free and the maintenance interrupt for an underflow is on.
\<close>

theorem hv_flush_queued_virqs_hw:
  assumes "vq_inv s" "\<forall>r\<in>set (pd_head (redist s v)). hwintid (virqs s r) \<noteq> 0 \<and> lr_node (virqs s r) = None"
    and "elrsr_ok (plat s)" "unat (vi_lr_nr (vinfo s)) \<le> 16"
  shows "\<exists>n. hw_flushed v (pd_head (redist s v)) s (hv_flush_queued_virqs v s) n"
  using flush_loop_hw [OF assms(1) refl assms(2-)] by (auto simp: hv_flush_queued_virqs_def)

theorem hv_flush_queued_virqs_hw_witness:
  "\<exists>n. hw_flushed 1 [Spi 1 0, Spi 1 1] queue_ex (hv_flush_queued_virqs 1 queue_ex) n"
  using hv_flush_queued_virqs_hw [OF queue_ex_inv, of 1] elrsr_ok_ref by (simp add: zero_virq_def)

text \<open>
  C25. After a sync every interrupt of the list of a virtual CPU carries the state of its list register, and
  exactly those whose register is empty or holds another interrupt leave the list, in order, inactive
  and with no migration outstanding. Neither the list registers, the pending lists nor another
  interrupt change.
\<close>

theorem hv_sync_irq_from_lrs_correct:
  fixes s v
  defines "s' \<equiv> hv_sync_irq_from_lrs v s"
  assumes "vq_inv s"
  shows "lr_head (redist s' v) = filter (\<lambda>r. \<not> lr_gone s (virqs s r)) (lr_head (redist s v)) \<and>
     (\<forall>r. virqs s' r = (if r \<in> set (lr_head (redist s v)) then lr_synced s (virqs s r) else virqs s r)) \<and>
     (\<forall>w. pd_head (redist s' w) = pd_head (redist s w)) \<and> lrs s' = lrs s"
proof -
  have "\<forall>r\<in>set (lr_head (redist s v)). lr_node (virqs s r) = Some v" "distinct (lr_head (redist s v))"
    using assms unfolding vq_inv_def by blast+
  from sync_fold [OF this(2) this(1) this(2), of False] obtain s1 f1
    where "fold sync_one (lr_head (redist s v)) (s, False) = (s1, f1)"
      "lr_head (redist s1 v) = filter (\<lambda>x. x \<in> set (lr_head (redist s v)) \<longrightarrow> \<not> lr_gone s (virqs s x)) (lr_head (redist s v))"
      "\<forall>r. virqs s1 r = (if r \<in> set (lr_head (redist s v)) then lr_synced s (virqs s r) else virqs s r)"
      "\<forall>w. pd_head (redist s1 w) = pd_head (redist s w)" "\<forall>q. ARM64_READ_SYSREG q s1 = ARM64_READ_SYSREG q s" by blast
  moreover have "filter (\<lambda>x. x \<in> set l \<longrightarrow> P x) l = filter P l" for P and l :: "virq_ref list" by (rule filter_cong) auto
  ultimately show ?thesis unfolding s'_def hv_sync_irq_from_lrs_def by (simp add: lrs_def fun_eq_iff)
qed

theorem hv_sync_irq_from_lrs_correct_witness:
  "lr_head (redist (hv_sync_irq_from_lrs 1 queue_ex) 1) = [] \<and>
     \<not> active (virqs (hv_sync_irq_from_lrs 1 queue_ex) (Spi 1 3))"
proof -
  have "lr_gone queue_ex (virqs queue_ex (Spi 1 3))"
    by (simp add: lr_gone_def vgic_read_lr_def lr_read_def ARM64_READ_SYSREG_def bitfield_def) (simp add: queue_ex_def zero_defs)
  moreover then have "\<not> active (lr_synced queue_ex (virqs queue_ex (Spi 1 3)))"
    by (simp add: lr_synced_def del: queue_ex_simps) (simp add: zero_virq_def)
  ultimately show ?thesis using hv_sync_irq_from_lrs_correct [OF queue_ex_inv, of 1] by simp
qed

end
