(* ===== verification/Vcpu.thy ===== *)
theory Vcpu
  imports Vgic_Queue
begin

text \<open>
  The life of a virtual CPU, \<^verbatim>\<open>hv/hv_vcpu.c\<close>: creation with its thread, start, stop, block, resume and
  power off, on this physical CPU or, through an event, on the one its thread is bound to.
  An operation returns the new state and the value the code returns; \<open>None\<close> is a NULL dereference.
  \<^verbatim>\<open>malloc\<close> is a parameter: the pointer it returned, 0 for failure.
\<close>

section \<open>Queries\<close>

definition hv_vcpu_init :: "hv_state \<Rightarrow> hv_state" where
  "hv_vcpu_init s = s\<lparr>vcpu_data := (\<lambda>c. if c < SMP_MAX_CPUS then 0 else vcpu_data s c)\<rparr>"

definition is_vcpu_poweroff :: "hv_state \<Rightarrow> ptr \<Rightarrow> bool" where
  "is_vcpu_poweroff s v \<longleftrightarrow> status (vcpus s v) = VCPU_SHUTDOWN"

definition is_vcpu_lowpower :: "hv_state \<Rightarrow> ptr \<Rightarrow> bool" where
  "is_vcpu_lowpower s v \<longleftrightarrow> vflags (vcpus s v) AND 1 \<noteq> 0"

definition is_vcpu_running :: "hv_state \<Rightarrow> ptr \<Rightarrow> bool" where
  "is_vcpu_running s v \<longleftrightarrow> status (vcpus s v) = VCPU_RUNNING"

definition VCPU_FLAGS_SET :: "ptr \<Rightarrow> u32 \<Rightarrow> hv_state \<Rightarrow> hv_state" where
  "VCPU_FLAGS_SET v fl s = upd_vcpu v (\<lambda>c. c\<lparr>vflags := vflags c AND fl\<rparr>) s"

definition hv_get_vcpu :: "hv_state \<Rightarrow> ptr \<Rightarrow> int \<Rightarrow> ptr" where
  "hv_get_vcpu s vm i = (if i \<ge> vcpu_num (vms s vm) then 0 else vm_vcpu (vms s vm) (nat i))"

definition set_status :: "ptr \<Rightarrow> vcpu_status \<Rightarrow> hv_state \<Rightarrow> hv_state" where
  "set_status v st s = upd_vcpu v (\<lambda>c. c\<lparr>status := st\<rparr>) s"

section \<open>Start\<close>

definition hv_vcpu_start :: "ptr \<Rightarrow> hv_state \<Rightarrow> hv_state \<times> int" where
  "hv_vcpu_start v s =
     (if status (vcpus s v) \<noteq> VCPU_CREATED \<and> status (vcpus s v) \<noteq> VCPU_SHUTDOWN then (s, ERR_BUSY)
      else
        let t = vcpu_thread (vcpus s v);
            s = (if status (vcpus s v) = VCPU_SHUTDOWN
                 then thread_reset t (if t_state (threads s t) = THREAD_BLOCKED
                        then upd_thread t (\<lambda>th. th\<lparr>t_state := THREAD_SUSPENDED\<rparr>) s else s)
                 else s);
            s = set_status v VCPU_READY s
        in (thread_resume (vcpu_thread (vcpus s v)) s, 0))"

section \<open>Stop and power off\<close>

definition stop_current_cpu_thread :: "ptr \<Rightarrow> hv_state \<Rightarrow> (hv_state \<times> int) option" where
  "stop_current_cpu_thread t s =
     (let blocked = upd_thread t (\<lambda>th. th\<lparr>t_state := THREAD_BLOCKED\<rparr>) s
      in case t_state (threads s t) of
           THREAD_READY \<Rightarrow> map_option (\<lambda>s. (s, 0)) (remove_task_from_rqueue t blocked)
         | THREAD_RUNNING \<Rightarrow> Some (blocked, 1)
         | _ \<Rightarrow> Some (blocked, 0))"

definition hv_vcpu_stop :: "ptr \<Rightarrow> hv_state \<Rightarrow> (hv_state \<times> int) option" where
  "hv_vcpu_stop v s =
     (let thd = vcpu_thread (vcpus s v)
      in if status (vcpus s v) = VCPU_BLOCKED then Some (s, 0)
         else
           let t_cpu = hv_vcpu_cpu_id s v
           in if t_cpu < 0 then Some (s, 0)
              else if nat t_cpu = curr_cpu s then
                do {
                  (s, r) \<leftarrow> stop_current_cpu_thread thd (set_status v VCPU_BLOCKED s);
                  Some (s, if r \<noteq> 0 then VCPU_RESCHED_EXIT else 0)
                }
              else Some (hv_send_event (nat t_cpu) (vcpu_event HV_EVENT_VCPU_STOP v) s))"

definition hv_vcpu_block :: "ptr \<Rightarrow> hv_state \<Rightarrow> (hv_state \<times> int) option" where
  "hv_vcpu_block v s =
     do {
       (s, ret) \<leftarrow> hv_vcpu_stop v s;
       Some (if ret = VCPU_RESCHED_EXIT then thread_block s else s, ret)
     }"

definition hv_vcpu_resume :: "ptr \<Rightarrow> hv_state \<Rightarrow> hv_state \<times> int" where
  "hv_vcpu_resume v s =
     (let thd = vcpu_thread (vcpus s v)
      in if status (vcpus s v) \<noteq> VCPU_BLOCKED then (s, -1)
         else
           let s = set_status v VCPU_READY s;
               s = upd_thread thd (\<lambda>th. th\<lparr>t_state := THREAD_READY\<rparr>) s
           in (thread_resume thd s, 0))"

definition hv_poweroff_current :: "ptr \<Rightarrow> hv_state \<Rightarrow> (hv_state \<times> int) option" where
  "hv_poweroff_current v s =
     do {
       (s, resched) \<leftarrow> stop_current_cpu_thread (vcpu_thread (vcpus s v)) (set_status v VCPU_SHUTDOWN s);
       Some (s, if resched \<noteq> 0 then VCPU_RESCHED_EXIT else 0)
     }"

definition hv_vcpu_poweroff :: "ptr \<Rightarrow> hv_state \<Rightarrow> (hv_state \<times> int) option" where
  "hv_vcpu_poweroff v s =
     (if status (vcpus s v) = VCPU_SHUTDOWN \<or> status (vcpus s v) = VCPU_CREATED then Some (s, 0)
      else
        let t_cpu = hv_vcpu_cpu_id s v
        in if t_cpu < 0 then Some (s, 0)
           else if nat t_cpu = curr_cpu s then hv_poweroff_current v (hv_vcpu_irq_cleanup v s)
           else Some (fst (hv_send_event (nat t_cpu) (vcpu_event HV_EVENT_VCPU_POWEROFF v) s), 0))"

section \<open>Creation\<close>

text \<open>
  \<^verbatim>\<open>thread_create\<close>: the thread and its stack come from \<^verbatim>\<open>malloc\<close>. The name, entry point, stack and thread-local storage
  are not part of the model of a thread. The priority of a thread indexes the run queues and is a natural number; a negative one, which
  the configuration lets through, would index outside them and is not modelled.
\<close>

definition init_thread_struct :: "ptr \<Rightarrow> hv_state \<Rightarrow> hv_state" where
  "init_thread_struct t s = upd_thread t (\<lambda>_. zero_thread\<lparr>pinned_cpu := -1\<rparr>) s"

definition thread_create :: "ptr \<Rightarrow> ptr \<Rightarrow> nat \<Rightarrow> hv_state \<Rightarrow> hv_state \<times> ptr" where
  "thread_create t stack prio s =
     (if t = 0 then (s, 0)
      else
        let s = init_thread_struct t s;
            s = upd_thread t (\<lambda>th. th\<lparr>t_priority := prio, t_state := THREAD_SUSPENDED, t_curr_cpu := -1\<rparr>) s
        in if stack = 0 then (s, 0)
           else (upd_thread t (\<lambda>th. th\<lparr>t_flags := 4 OR 32 OR 2\<rparr>) s, t))"

definition hv_vcpu_create :: "ptr \<Rightarrow> ptr \<Rightarrow> ptr \<Rightarrow> ptr \<Rightarrow> nat \<Rightarrow> hv_state \<Rightarrow> hv_state \<times> int" where
  "hv_vcpu_create v t stack vm i s =
     (if v = 0 then (s, ERR_NO_MEMORY)
      else
        let inf = info (vms s vm);
            s = upd_vcpu v (\<lambda>_. zero_vcpu\<lparr>vcpu_id := of_nat i, is_primary := (i = 0)\<rparr>) s;
            s = (if is_primary (vcpus s v) then upd_vm vm (\<lambda>m. m\<lparr>primary_cpu := int i\<rparr>) s else s);
            s = upd_vcpu v (\<lambda>c. c\<lparr>vmode := if inf_vcpu_mode inf = 64 then ARM_64 else ARM_32, vcpu_vm := vm\<rparr>) s;
            (s, thd) = thread_create t stack (nat (inf_priority inf)) s;
            s = upd_vcpu v (\<lambda>c. c\<lparr>vcpu_thread := thd\<rparr>) s
        in if thd = 0 then (s, ERR_NOT_READY)
           else
             let s = upd_thread thd (\<lambda>th. th\<lparr>t_vcpu := v\<rparr>) s;
                 aff = inf_vcpu_affinity inf ! i;
                 s = upd_vcpu v (\<lambda>c. c\<lparr>affinity := aff\<rparr>) s;
                 s = (if 0 \<le> aff \<and> int SMP_MAX_CPUS > aff
                      then upd_thread thd (\<lambda>th. th\<lparr>pinned_cpu := aff\<rparr>) s else s);
                 s = hv_vcpu_arch_init v s;
                 s = upd_vm vm (\<lambda>m. m\<lparr>vm_vcpu := (vm_vcpu m)(i := v)\<rparr>) s;
                 s = set_status v VCPU_CREATED s;
                 s = (if inf_auto_boot inf \<noteq> 0 then fst (hv_vcpu_start v s) else s)
             in (s, 0))"

text \<open>The loop of \<^verbatim>\<open>hv_vm_init_vcpu\<close>; \<open>blocks i\<close> are the pointers \<^verbatim>\<open>malloc\<close> returned for the virtual CPU \<open>i\<close>.\<close>

fun create_loop :: "(nat \<Rightarrow> ptr \<times> ptr \<times> ptr) \<Rightarrow> ptr \<Rightarrow> nat list \<Rightarrow> hv_state \<Rightarrow> hv_state \<times> int" where
  "create_loop blocks vm [] s = (s, 0)"
| "create_loop blocks vm (i # is) s =
     (case blocks i of (v, t, stack) \<Rightarrow>
        case hv_vcpu_create v t stack vm i s of (s, ret) \<Rightarrow>
          if ret \<noteq> NO_ERROR then (s, ret) else create_loop blocks vm is s)"

definition hv_vm_init_vcpu :: "ptr \<Rightarrow> (nat \<Rightarrow> ptr \<times> ptr \<times> ptr) \<Rightarrow> ptr \<Rightarrow> hv_state \<Rightarrow> hv_state \<times> int" where
  "hv_vm_init_vcpu arr blocks vm s =
     (let n = inf_vcpu_num (info (vms s vm))
      in if arr = 0 then (s, ERR_NO_MEMORY)
         else
           let s = upd_vm vm (\<lambda>m. m\<lparr>vm_vcpu := (\<lambda>_. 0)\<rparr>) s;
               (s, ret) = create_loop blocks vm [0..<nat n] s
           in if ret \<noteq> NO_ERROR then (s, ret) else (upd_vm vm (\<lambda>m. m\<lparr>vcpu_num := n\<rparr>) s, 0))"

section \<open>Frames\<close>

lemma set_status_frame [simp]:
  "threads (set_status v st s) = threads s" "sched_part (set_status v st s) = sched_part s"
  "vcpu_thread (vcpus (set_status v st s) w) = vcpu_thread (vcpus s w)" "virqs (set_status v st s) = virqs s"
  "redist (set_status v st s) = redist s" "status (vcpus (set_status v st s) v) = st"
  "ints_off (set_status v st s) = ints_off s" "ARM64_READ_SYSREG q (set_status v st s) = ARM64_READ_SYSREG q s"
  by (simp_all add: set_status_def) (simp_all add: upd_vcpu_def redist_def fun_eq_iff ARM64_READ_SYSREG_def)

lemma upd_thread_frame [simp]:
  "vcpus (upd_thread t f s) = vcpus s" "virqs (upd_thread t f s) = virqs s" "redist (upd_thread t f s) = redist s"
  "ints_off (upd_thread t f s) = ints_off s" "ARM64_READ_SYSREG q (upd_thread t f s) = ARM64_READ_SYSREG q s"
  by (simp_all add: upd_thread_def redist_def fun_eq_iff ARM64_READ_SYSREG_def)

lemma sched_part_unlink [simp]: "sched_part (pd_unlink r s) = sched_part s" "sched_part (lr_unlink r s) = sched_part s"
  by (simp_all add: pd_unlink_def lr_unlink_def upd_redist_def split: option.split)

lemma sched_part_cleanup [simp]: "sched_part (hv_vcpu_irq_cleanup v s) = sched_part s"
proof -
  have "sched_part (fold lr_unlink rs s) = sched_part s" for rs and s :: hv_state by (rule fold_part) simp
  moreover have "sched_part (fold lr_cleanup rs s) = sched_part s" for rs and s :: hv_state
    by (rule fold_part) (simp add: lr_cleanup_def Let_def lr_write_def gic_clear_pending_def gic_set_icactiver_def)
  moreover have "sched_part (fold pd_cleanup rs s) = sched_part s" for rs and s :: hv_state
    by (rule fold_part) (simp add: pd_cleanup_def Let_def gic_set_icactiver_def)
  ultimately show ?thesis by (simp add: hv_vcpu_irq_cleanup_def Let_def upd_redist_def)
qed

lemma threads_part: "sched_part s' = sched_part s \<Longrightarrow> threads s' = threads s \<and> curr_cpu s' = curr_cpu s \<and>
    current_thread s' = current_thread s \<and> run_queue s' = run_queue s"
  by (simp add: sched_part_def)

lemma cleanup_frame [simp]:
  "threads (hv_vcpu_irq_cleanup v s) = threads s" "curr_cpu (hv_vcpu_irq_cleanup v s) = curr_cpu s"
  using threads_part [OF sched_part_cleanup, of v s] by simp_all

lemma cleanup_vcpu_fields:
  "vcpu_thread (vcpus (hv_vcpu_irq_cleanup v s) w) = vcpu_thread (vcpus s w)"
  "status (vcpus (hv_vcpu_irq_cleanup v s) w) = status (vcpus s w)"
proof -
  define P where "P s s' \<longleftrightarrow> vcpu_thread (vcpus s' w) = vcpu_thread (vcpus s w) \<and> status (vcpus s' w) = status (vcpus s w)"
    for s s' :: hv_state
  have f: "P s (fold g xs s)" if "\<And>x s. P s (g x s)" for g and xs :: "'b list" and s
    using that by (induction xs arbitrary: s) (auto simp: P_def)
  have u: "P s (upd_redist x g s)" for x g s by (simp add: P_def upd_redist_def upd_vcpu_def)
  have gic: "vcpus (gic_set_icactiver n s) = vcpus s" "vcpus (gic_clear_pending n s) = vcpus s" for n s
    by (simp_all add: gic_set_icactiver_def gic_clear_pending_def gic_put_def)
  have 1: "P s (lr_unlink r s)" "P s (pd_unlink r s)" for r s
    by (auto simp: P_def lr_unlink_def pd_unlink_def upd_redist_def upd_vcpu_def split: option.split)
  have 2: "P s (pd_cleanup r s)" for r s using 1(2) [of s r] gic by (simp add: P_def pd_cleanup_def Let_def)
  have 3: "P s (lr_cleanup i s)" for i s
    by (simp add: P_def lr_cleanup_def Let_def gic lr_write_def ARM64_WRITE_SYSREG_def)
  have "P s (hv_vcpu_irq_cleanup v s)"
    using f [of lr_unlink, OF 1(1)] f [of pd_cleanup, OF 2] f [of lr_cleanup, OF 3] u
    by (simp add: hv_vcpu_irq_cleanup_def Let_def P_def)
  then show "vcpu_thread (vcpus (hv_vcpu_irq_cleanup v s) w) = vcpu_thread (vcpus s w)"
    "status (vcpus (hv_vcpu_irq_cleanup v s) w) = status (vcpus s w)" by (simp_all add: P_def)
qed

section \<open>Starting\<close>

lemma resume_part:
  assumes "t_state (threads s t) = THREAD_SUSPENDED" "ints_off s"
  shows "sched_part (thread_resume t s) = sched_part (insert_in_run_queue_head t (upd_thread t (\<lambda>th. th\<lparr>t_state := THREAD_READY\<rparr>) s))"
  using assms by (simp add: thread_resume_def Let_def insert_in_run_queue_head_def)

lemma queue_not_suspended:
  assumes "sched_inv s" "\<not> queued (threads s t)"
  shows "sched_inv (upd_thread t (\<lambda>th. th\<lparr>t_state := x\<rparr>) s)"
  using assms queues_upd [of s "\<lambda>th. th\<lparr>t_state := x\<rparr>" t] cpus_upd_current [of s "\<lambda>th. th\<lparr>t_state := x\<rparr>" t]
  by (auto simp: sched_inv_def get_current_thread_def upd_thread_def)

definition start_ready :: "ptr \<Rightarrow> hv_state \<Rightarrow> hv_state" where
  "start_ready v s = set_status v VCPU_READY (upd_thread (vcpu_thread (vcpus s v)) (\<lambda>th. th\<lparr>t_state := THREAD_SUSPENDED\<rparr>) s)"

lemma hv_vcpu_start_eq:
  assumes "status (vcpus s v) = VCPU_SHUTDOWN \<or> status (vcpus s v) = VCPU_CREATED \<and> t_state (threads s (vcpu_thread (vcpus s v))) = THREAD_SUSPENDED"
  shows "hv_vcpu_start v s = (thread_resume (vcpu_thread (vcpus s v)) (start_ready v s), 0)"
proof -
  have id: "upd_thread t (\<lambda>th. th\<lparr>t_state := x\<rparr>) s = s" if "t_state (threads s t) = x" for t x
    using that by (auto simp: upd_thread_def intro!: hv_state.equality ext)
  have tw: "upd_thread t (\<lambda>th. th\<lparr>t_state := x\<rparr>) (upd_thread t (\<lambda>th. th\<lparr>t_state := y\<rparr>) s) = upd_thread t (\<lambda>th. th\<lparr>t_state := x\<rparr>) s" for t x y
    by (simp add: upd_thread_def)
  from assms show ?thesis
    by (auto simp: hv_vcpu_start_def start_ready_def thread_reset_def Let_def id tw)
qed

lemma wakeup_vcpus [simp]: "vcpus (wakeup_cpu_for_thread t s) = vcpus s"
proof -
  have "vcpus (fst (fold (sgi_step irq) xs (s, m))) = vcpus s" for xs irq m and s :: hv_state
  proof (induction xs arbitrary: s m)
    case (Cons x xs)
    show ?case
      by (cases "sgi_step irq x (s, m)")
        (use Cons in \<open>auto simp: sgi_step_def Let_def ARM64_WRITE_ICC_def ARM64_WRITE_SYSREG_def split: if_splits prod.splits\<close>)
  qed simp
  then show ?thesis by (simp add: wakeup_cpu_for_thread_def mp_reschedule_def arch_mp_send_ipi_def arm_gic_sgi_def Let_def)
qed

lemma resume_vcpus: "ints_off s \<Longrightarrow> vcpus (thread_resume t s) = vcpus s"
  by (simp add: thread_resume_def Let_def insert_in_run_queue_head_def upd_thread_def)

lemma hv_vcpu_start_effect:
  fixes s v
  defines "t \<equiv> vcpu_thread (vcpus s v)"
  assumes inv: "sched_inv s" and st: "status (vcpus s v) = VCPU_SHUTDOWN \<or> status (vcpus s v) = VCPU_CREATED \<and> t_state (threads s t) = THREAD_SUSPENDED"
    and t: "\<not> thread_is_idle (threads s t)" "\<not> queued (threads s t)" "\<forall>c<4. current_thread s c \<noteq> t" and off: "ints_off s"
  obtains s' where "hv_vcpu_start v s = (s', 0)" "status (vcpus s' v) = VCPU_READY" "sched_inv s'"
    "threads s' = (threads s)(t := (threads s t)\<lparr>t_state := THREAD_READY, queued := True\<rparr>)"
    "run_queue s' = (run_queue s)(t_priority (threads s t) := t # run_queue s (t_priority (threads s t)))"
    "\<And>w. w \<noteq> v \<Longrightarrow> vcpus s' w = vcpus s w" "vcpus s' v = (vcpus s v)\<lparr>status := VCPU_READY\<rparr>"
proof
  let ?r = "start_ready v s"
  have r: "threads ?r = (threads s)(t := (threads s t)\<lparr>t_state := THREAD_SUSPENDED\<rparr>)" "ints_off ?r"
    "sched_part ?r = sched_part (upd_thread t (\<lambda>th. th\<lparr>t_state := THREAD_SUSPENDED\<rparr>) s)"
    using off by (simp_all add: start_ready_def t_def) (simp add: upd_thread_def)
  have i: "sched_inv ?r"
    using queue_not_suspended [OF inv t(2)] by (rule iffD2 [OF sched_inv_part [OF r(3)]])
  show "hv_vcpu_start v s = (thread_resume t ?r, 0)" using hv_vcpu_start_eq st by (simp add: t_def)
  have cur: "\<forall>c<4. current_thread ?r c \<noteq> t" using t(3) threads_part [OF r(3)] by (simp add: upd_thread_def)
  show "sched_inv (thread_resume t ?r)"
    using i t(1) cur by (intro thread_resume_inv) (simp_all add: r(1) thread_is_idle_def)
  have p: "sched_part (thread_resume t ?r) = sched_part (insert_in_run_queue_head t (upd_thread t (\<lambda>th. th\<lparr>t_state := THREAD_READY\<rparr>) ?r))"
    by (rule resume_part) (simp_all add: r)
  have rq: "run_queue ?r = run_queue s" using threads_part [OF r(3)] by (simp add: upd_thread_def)
  show "threads (thread_resume t ?r) = (threads s)(t := (threads s t)\<lparr>t_state := THREAD_READY, queued := True\<rparr>)"
    "run_queue (thread_resume t ?r) = (run_queue s)(t_priority (threads s t) := t # run_queue s (t_priority (threads s t)))"
    using threads_part [OF p] r(1) rq by (simp_all add: insert_in_run_queue_head_def upd_thread_def Let_def)
  show "status (vcpus (thread_resume t ?r) v) = VCPU_READY" by (simp add: resume_vcpus r(2)) (simp add: start_ready_def)
  show "vcpus (thread_resume t ?r) w = vcpus s w" if "w \<noteq> v" for w
    using that by (simp add: resume_vcpus r(2)) (simp add: start_ready_def set_status_def upd_vcpu_def)
  show "vcpus (thread_resume t ?r) v = (vcpus s v)\<lparr>status := VCPU_READY\<rparr>"
    by (simp add: resume_vcpus r(2)) (simp add: start_ready_def set_status_def upd_vcpu_def)
qed

section \<open>Stopping\<close>

lemma stop_current_effect:
  assumes inv: "sched_inv s" and q: "t_state (threads s t) = THREAD_READY \<longrightarrow> queued (threads s t)"
  obtains s' where "stop_current_cpu_thread t s = Some (s', if t_state (threads s t) = THREAD_RUNNING then 1 else 0)" "sched_inv s'"
    "threads s' = (threads s)(t := (threads s t)\<lparr>t_state := THREAD_BLOCKED, queued := False\<rparr>)"
    "vcpus s' = vcpus s" "virqs s' = virqs s" "\<And>q. ARM64_READ_SYSREG q s' = ARM64_READ_SYSREG q s"
    "current_thread s' = current_thread s" "curr_cpu s' = curr_cpu s" "ints_off s' = ints_off s"
proof (cases "t_state (threads s t) = THREAD_READY")
  case True
  let ?b = "upd_thread t (\<lambda>th. th\<lparr>t_state := THREAD_BLOCKED\<rparr>) s"
  let ?p = "t_priority (threads s t)"
  let ?s' = "upd_thread t (\<lambda>th. th\<lparr>queued := False\<rparr>) (?b\<lparr>run_queue := (run_queue ?b)(?p := remove1 t (run_queue ?b ?p))\<rparr>)"
  have qt: "queued (threads s t)" using True q by simp
  have "stop_current_cpu_thread t s = Some (?s', 0)"
    using True qt by (simp add: stop_current_cpu_thread_def remove_task_from_rqueue_def upd_thread_threads Let_def)
  moreover have "sched_inv ?s'"
    using inv qt unfolding sched_inv_def queues_ok_def cpus_ok_def get_current_thread_def
    by (auto simp: upd_thread_def set_remove1_eq thread_is_idle_def)
  ultimately show thesis using True
    by (intro that [of ?s']) (simp_all add: upd_thread_def ARM64_READ_SYSREG_def)
next
  case False
  let ?b = "upd_thread t (\<lambda>th. th\<lparr>t_state := THREAD_BLOCKED\<rparr>) s"
  have nq: "\<not> queued (threads s t)" using False inv by (auto simp: sched_inv_def queues_ok_def)
  have "stop_current_cpu_thread t s = Some (?b, if t_state (threads s t) = THREAD_RUNNING then 1 else 0)"
    using False by (cases "t_state (threads s t)") (simp_all add: stop_current_cpu_thread_def)
  moreover have "(threads s t)\<lparr>t_state := THREAD_BLOCKED, queued := False\<rparr> = (threads s t)\<lparr>t_state := THREAD_BLOCKED\<rparr>"
    using nq by (cases "threads s t") simp
  ultimately show thesis using queue_not_suspended [OF inv nq]
    by (intro that [of ?b]) (simp_all add: upd_thread_def ARM64_READ_SYSREG_def)
qed

lemma cleanup_heads:
  assumes "vq_inv s"
  shows "pd_head (redist (hv_vcpu_irq_cleanup v s) v) = []" "lr_head (redist (hv_vcpu_irq_cleanup v s) v) = []"
proof -
  have pd: "lr_head (redist (fold pd_cleanup rs s) v) = lr_head (redist s v)" for rs s
    by (induction rs arbitrary: s) (simp_all add: pd_cleanup_def Let_def)
  show "pd_head (redist (hv_vcpu_irq_cleanup v s) v) = []" "lr_head (redist (hv_vcpu_irq_cleanup v s) v) = []"
    by (simp_all add: hv_vcpu_irq_cleanup_def Let_def pd)
qed

lemma cleanup_lrs:
  assumes "i < unat (rd_lr_nr (redist s v))" "unat (rd_lr_nr (redist s v)) \<le> 16"
  shows "lr_read i (hv_vcpu_irq_cleanup v s) = 0"
proof -
  have rd: "lr_read i (pd_cleanup r s) = lr_read i s" "lr_read i (upd_redist w g s) = lr_read i s" "lr_read i (lr_unlink r s) = lr_read i s" for r w g s
    by (simp_all add: lr_read_def pd_cleanup_def lr_unlink_def Let_def gic_set_icactiver_def split: option.split)
  have pd: "lr_read i (fold pd_cleanup rs s) = lr_read i s" for rs s
    by (induction rs arbitrary: s) (simp_all add: rd)
  have one: "lr_read i (lr_cleanup j s) = (if i = j \<and> i < 16 then 0 else lr_read i s)" for j s
    by (auto simp: lr_cleanup_def Let_def lr_read_def gic_clear_pending_def gic_set_icactiver_def lr_write_def)
  have lc: "i < 16 \<Longrightarrow> lr_read i (fold lr_cleanup js s) = (if i \<in> set js then 0 else lr_read i s)" for js s
    by (induction js arbitrary: s) (auto simp: one)
  have nr: "rd_lr_nr (redist (lr_unlink r s) v) = rd_lr_nr (redist s v)" for r s
    by (simp add: lr_unlink_def split: option.split)
  have nrf: "rd_lr_nr (redist (fold lr_unlink rs s) v) = rd_lr_nr (redist s v)" for rs s
    by (induction rs arbitrary: s) (simp_all add: nr)
  show ?thesis using assms by (simp add: hv_vcpu_irq_cleanup_def Let_def rd pd lc nrf)
qed

lemma hv_vcpu_poweroff_effect:
  fixes s v
  defines "t \<equiv> vcpu_thread (vcpus s v)"
  assumes inv: "sched_inv s" "vq_inv s" and st: "status (vcpus s v) \<notin> {VCPU_SHUTDOWN, VCPU_CREATED}"
    and cpu: "hv_vcpu_cpu_id s v = int (curr_cpu s)" and q: "t_state (threads s t) = THREAD_READY \<longrightarrow> queued (threads s t)"
  obtains s' where "hv_vcpu_poweroff v s = Some (s', if t_state (threads s t) = THREAD_RUNNING then VCPU_RESCHED_EXIT else 0)"
    "status (vcpus s' v) = VCPU_SHUTDOWN" "sched_inv s'" "vq_inv s'"
    "threads s' = (threads s)(t := (threads s t)\<lparr>t_state := THREAD_BLOCKED, queued := False\<rparr>)"
    "pd_head (redist s' v) = []" "lr_head (redist s' v) = []" "\<And>j. lr_read j s' = lr_read j (hv_vcpu_irq_cleanup v s)"
    "current_thread s' = current_thread s" "curr_cpu s' = curr_cpu s"
    "\<And>w. w \<noteq> v \<Longrightarrow> status (vcpus s' w) = status (vcpus s w)"
proof -
  let ?c = "set_status v VCPU_SHUTDOWN (hv_vcpu_irq_cleanup v s)"
  have p: "sched_part ?c = sched_part s" by simp
  from sched_inv_part [OF this] inv(1) have i: "sched_inv ?c" by simp
  have vc: "vq_inv ?c" by (rule vq_hw [OF vq_cleanup [OF inv(2)]]) simp_all
  have "t_state (threads ?c t) = THREAD_READY \<longrightarrow> queued (threads ?c t)" using q by simp
  from stop_current_effect [OF i this] obtain s' where
    s': "stop_current_cpu_thread t ?c = Some (s', if t_state (threads ?c t) = THREAD_RUNNING then 1 else 0)" "sched_inv s'"
    "threads s' = (threads ?c)(t := (threads ?c t)\<lparr>t_state := THREAD_BLOCKED, queued := False\<rparr>)"
    "vcpus s' = vcpus ?c" "virqs s' = virqs ?c" "\<And>q. ARM64_READ_SYSREG q s' = ARM64_READ_SYSREG q ?c"
    "current_thread s' = current_thread ?c" "curr_cpu s' = curr_cpu ?c" by metis
  have r: "redist s' = redist ?c" by (simp only: redist_def fun_eq_iff s'(4)) simp
  have off: "hv_vcpu_poweroff v s = Some (s', if t_state (threads s t) = THREAD_RUNNING then VCPU_RESCHED_EXIT else 0)"
    using st cpu s'(1) by (simp add: hv_vcpu_poweroff_def hv_poweroff_current_def cleanup_vcpu_fields flip: t_def)
  have lr: "lr_read j s' = lr_read j (hv_vcpu_irq_cleanup v s)" for j by (simp add: lr_read_def s'(6))
  have vq: "vq_inv s'" using vc s'(5) r by (rule vq_hw)
  have other: "status (vcpus s' w) = status (vcpus s w)" if "w \<noteq> v" for w
    using that unfolding s'(4) by (simp add: set_status_def upd_vcpu_def cleanup_vcpu_fields)
  show thesis
    using off s' r cleanup_heads [OF inv(2)] lr vq other threads_part [OF p] by (intro that [of s']) simp_all
qed

section \<open>Properties\<close>

text \<open>A virtual CPU bound to physical CPU 0, with its thread, in status \<open>st\<close>.\<close>

definition vcpu_ex :: "vcpu_status \<Rightarrow> thread_state \<Rightarrow> hv_state" where
  "vcpu_ex st ts = idle_state\<lparr>threads := (threads idle_state)(0x100 := zero_thread\<lparr>t_state := ts, t_vcpu := 0x200\<rparr>),
     vcpus := (\<lambda>_. zero_vcpu)(0x200 := zero_vcpu\<lparr>status := st, vcpu_thread := 0x100, arch := (arch zero_vcpu)\<lparr>av_vgic := zero_redist\<lparr>rd_lr_nr := 4\<rparr>\<rparr>\<rparr>)\<rparr>"

lemma sched_inv_new_thread:
  assumes "sched_inv s" "\<not> queued (threads s t)" "\<not> queued th" "t_priority th < 32" "\<forall>c<4. idle_thread s c \<noteq> t"
  shows "sched_inv (s\<lparr>threads := (threads s)(t := th), vcpus := vs\<rparr>)"
  using assms unfolding sched_inv_def queues_ok_def cpus_ok_def get_current_thread_def
  by (auto simp: thread_is_idle_def)

lemma cpu_thread_256: "c < 4 \<Longrightarrow> (of_nat c :: ptr) + 1 \<noteq> 0x100"
proof
  assume "c < 4" "(of_nat c :: ptr) + 1 = 0x100"
  then have "unat ((of_nat c :: ptr) + 1) = 256" by simp
  with \<open>c < 4\<close> show False by (simp add: unat_word_ariths unat_of_nat)
qed

lemma vcpu_ex_inv: "sched_inv (vcpu_ex st ts)" "vq_inv (vcpu_ex st ts)"
proof -
  show "sched_inv (vcpu_ex st ts)"
    unfolding vcpu_ex_def
    by (rule sched_inv_new_thread [OF idle_state_inv]) (use cpu_thread_256 in \<open>simp_all add: idle_state_def zero_thread_def\<close>)
  show "vq_inv (vcpu_ex st ts)"
    by (auto simp: vq_inv_def vcpu_ex_def idle_state_def redist_def zero_defs)
qed

lemma vcpu_ex_simps [simp]:
  "vcpus (vcpu_ex st ts) 0x200 = zero_vcpu\<lparr>status := st, vcpu_thread := 0x100, arch := (arch zero_vcpu)\<lparr>av_vgic := zero_redist\<lparr>rd_lr_nr := 4\<rparr>\<rparr>\<rparr>"
  "threads (vcpu_ex st ts) 0x100 = zero_thread\<lparr>t_state := ts, t_vcpu := 0x200\<rparr>" "ints_off (vcpu_ex st ts)"
  "\<forall>c<4. current_thread (vcpu_ex st ts) c \<noteq> 0x100" "curr_cpu (vcpu_ex st ts) = 0"
  "run_queue (vcpu_ex st ts) = (\<lambda>_. [])" "hv_vcpu_cpu_id (vcpu_ex st ts) 0x200 = 0" "redist (vcpu_ex st ts) 0x200 = zero_redist\<lparr>rd_lr_nr := 4\<rparr>"
  using cpu_thread_256
  by (simp_all add: vcpu_ex_def idle_state_def state0_def zero_state_def hv_vcpu_cpu_id_def redist_def zero_thread_def)

lemma vcpu_ex_thread [simp]: "t_priority (zero_thread\<lparr>t_state := ts, t_vcpu := v\<rparr>) = 0" "\<not> queued (zero_thread\<lparr>t_state := ts, t_vcpu := v\<rparr>)" "\<not> thread_is_idle (zero_thread\<lparr>t_state := ts, t_vcpu := v\<rparr>)"
  by (simp_all add: zero_thread_def thread_is_idle_def)

text \<open>
  Starting a virtual CPU that was created, or powered off, with interrupts masked: it becomes ready, its
  thread goes to the head of the run queue of its priority, the scheduler stays well formed and no other
  thread or virtual CPU changes. Started again, it reports \<^verbatim>\<open>ERR_BUSY\<close> and changes nothing, so it runs once.
\<close>

theorem hv_vcpu_start_correct:
  fixes s v
  defines "t \<equiv> vcpu_thread (vcpus s v)"
  assumes "sched_inv s"
    and "status (vcpus s v) = VCPU_SHUTDOWN \<or> status (vcpus s v) = VCPU_CREATED \<and> t_state (threads s t) = THREAD_SUSPENDED"
    and "\<not> thread_is_idle (threads s t)" "\<not> queued (threads s t)" "\<forall>c<4. current_thread s c \<noteq> t" "ints_off s"
  shows "\<exists>s'. hv_vcpu_start v s = (s', 0) \<and> status (vcpus s' v) = VCPU_READY \<and> sched_inv s' \<and>
     threads s' = (threads s)(t := (threads s t)\<lparr>t_state := THREAD_READY, queued := True\<rparr>) \<and>
     run_queue s' = (run_queue s)(t_priority (threads s t) := t # run_queue s (t_priority (threads s t))) \<and>
     (\<forall>w. w \<noteq> v \<longrightarrow> vcpus s' w = vcpus s w) \<and> hv_vcpu_start v s' = (s', ERR_BUSY)"
proof -
  from hv_vcpu_start_effect [OF assms(2) assms(3-) [unfolded t_def]] obtain s'
    where s': "hv_vcpu_start v s = (s', 0)" "status (vcpus s' v) = VCPU_READY" "sched_inv s'"
    "threads s' = (threads s)(t := (threads s t)\<lparr>t_state := THREAD_READY, queued := True\<rparr>)"
    "run_queue s' = (run_queue s)(t_priority (threads s t) := t # run_queue s (t_priority (threads s t)))"
    "\<And>w. w \<noteq> v \<Longrightarrow> vcpus s' w = vcpus s w" unfolding t_def by metis
  moreover from s'(2) have "hv_vcpu_start v s' = (s', ERR_BUSY)" by (simp add: hv_vcpu_start_def)
  ultimately show ?thesis by blast
qed

theorem hv_vcpu_start_correct_witness:
  "\<exists>s'. hv_vcpu_start 0x200 (vcpu_ex VCPU_SHUTDOWN THREAD_BLOCKED) = (s', 0) \<and> run_queue s' 0 = [0x100]"
  using hv_vcpu_start_correct [OF vcpu_ex_inv(1), of VCPU_SHUTDOWN THREAD_BLOCKED "0x200"]
  by auto

text \<open>
  C29. Powering off a virtual CPU on the physical CPU it is bound to succeeds: it is shut down, its thread is
  blocked and off the run queue, its pending list and list registers are empty, and the scheduler
  and the interrupt lists stay well formed. The caller is told to reschedule exactly when the thread was
  the running one.
\<close>

theorem hv_vcpu_poweroff_correct:
  fixes s v
  defines "t \<equiv> vcpu_thread (vcpus s v)"
  assumes "sched_inv s" "vq_inv s" "status (vcpus s v) \<notin> {VCPU_SHUTDOWN, VCPU_CREATED}"
    and "hv_vcpu_cpu_id s v = int (curr_cpu s)" "t_state (threads s t) = THREAD_READY \<longrightarrow> queued (threads s t)"
    and "unat (rd_lr_nr (redist s v)) \<le> 16"
  shows "\<exists>s'. hv_vcpu_poweroff v s = Some (s', if t_state (threads s t) = THREAD_RUNNING then VCPU_RESCHED_EXIT else 0) \<and>
     status (vcpus s' v) = VCPU_SHUTDOWN \<and> sched_inv s' \<and> vq_inv s' \<and>
     threads s' = (threads s)(t := (threads s t)\<lparr>t_state := THREAD_BLOCKED, queued := False\<rparr>) \<and>
     pd_head (redist s' v) = [] \<and> lr_head (redist s' v) = [] \<and> (\<forall>i<unat (rd_lr_nr (redist s v)). lr_read i s' = 0)"
proof -
  from hv_vcpu_poweroff_effect [OF assms(2-4) assms(5,6) [unfolded t_def]] obtain s' where
    s': "hv_vcpu_poweroff v s = Some (s', if t_state (threads s t) = THREAD_RUNNING then VCPU_RESCHED_EXIT else 0)"
    "status (vcpus s' v) = VCPU_SHUTDOWN" "sched_inv s'" "vq_inv s'"
    "threads s' = (threads s)(t := (threads s t)\<lparr>t_state := THREAD_BLOCKED, queued := False\<rparr>)"
    "pd_head (redist s' v) = []" "lr_head (redist s' v) = []" "\<And>j. lr_read j s' = lr_read j (hv_vcpu_irq_cleanup v s)"
    unfolding t_def by metis
  then show ?thesis using cleanup_lrs [OF _ assms(7)] by (intro exI [of _ s']) simp
qed

theorem hv_vcpu_poweroff_correct_witness:
  "\<exists>s'. hv_vcpu_poweroff 0x200 (vcpu_ex VCPU_READY THREAD_RUNNING) = Some (s', VCPU_RESCHED_EXIT) \<and>
     status (vcpus s' 0x200) = VCPU_SHUTDOWN"
  using hv_vcpu_poweroff_correct [OF vcpu_ex_inv, of VCPU_READY THREAD_RUNNING "0x200"] by auto

text \<open>
  Resuming a blocked virtual CPU marks its thread ready without queueing it: \<^verbatim>\<open>hv_vcpu_resume\<close> sets the
  state to \<^verbatim>\<open>THREAD_READY\<close> itself, and \<^verbatim>\<open>thread_resume\<close> queues only a suspended thread. The thread is on no
  run queue and never runs again, and stopping the virtual CPU on its CPU then unlinks a node that is
  not linked.
\<close>

theorem hv_vcpu_resume_not_queued:
  fixes s v
  defines "t \<equiv> vcpu_thread (vcpus s v)"
  assumes "status (vcpus s v) = VCPU_BLOCKED" "\<not> queued (threads s t)" "hv_vcpu_cpu_id s v = int (curr_cpu s)"
  shows "\<exists>s'. hv_vcpu_resume v s = (s', 0) \<and> status (vcpus s' v) = VCPU_READY \<and> run_queue s' = run_queue s \<and>
     t_state (threads s' t) = THREAD_READY \<and> \<not> queued (threads s' t) \<and> hv_vcpu_stop v s' = None"
proof -
  let ?r = "upd_thread t (\<lambda>th. th\<lparr>t_state := THREAD_READY\<rparr>) (set_status v VCPU_READY s)"
  let ?s' = "wakeup_cpu_for_thread t ?r"
  have r: "hv_vcpu_resume v s = (?s', 0)"
    using assms(2) by (simp add: hv_vcpu_resume_def thread_resume_def upd_thread_threads Let_def flip: t_def)
  have p: "sched_part ?s' = sched_part ?r" by simp
  have th: "threads ?s' = (threads s)(t := (threads s t)\<lparr>t_state := THREAD_READY\<rparr>)" "run_queue ?s' = run_queue s" "curr_cpu ?s' = curr_cpu s"
    using threads_part [OF p] threads_part [OF set_status_frame(2), of v VCPU_READY s] by (simp_all add: upd_thread_def)
  have st: "status (vcpus ?s' v) = VCPU_READY" "vcpu_thread (vcpus ?s' v) = t" by (simp_all add: t_def)
  have "hv_vcpu_cpu_id ?s' v = int (curr_cpu s)" using assms(4) th(1) st(2) by (auto simp: hv_vcpu_cpu_id_def Let_def t_def split: if_splits)
  then have "hv_vcpu_stop v ?s' = None"
    using assms(3) st th
    by (simp add: hv_vcpu_stop_def stop_current_cpu_thread_def remove_task_from_rqueue_def upd_thread_threads Let_def)
  with r st th assms(3) show ?thesis by (intro exI [of _ ?s']) simp
qed

theorem hv_vcpu_resume_not_queued_witness:
  "\<exists>s'. hv_vcpu_resume 0x200 (vcpu_ex VCPU_BLOCKED THREAD_BLOCKED) = (s', 0) \<and> hv_vcpu_stop 0x200 s' = None"
  using hv_vcpu_resume_not_queued [of "vcpu_ex VCPU_BLOCKED THREAD_BLOCKED" "0x200"] by auto

end
