(* ===== verification/Kernel_Boot.thy ===== *)
theory Kernel_Boot
  imports Wait_Queue Vcpu Timer
begin

text \<open>
  How the kernel starts: the part of \<^verbatim>\<open>lk_main\<close> and of the start of the other CPUs (\<^verbatim>\<open>top/main.c\<close>) that makes threads, and what \<^verbatim>\<open>kernel/thread.c\<close>
  does for it. The CPU that starts runs as its own idle thread, whose structure is static. The hooks that \<^verbatim>\<open>lk_main\<close> runs between its stages are not modelled.

  The steps of the scheduler from there on, on all CPUs and in any order, keep the invariant \<open>kernel_inv\<close>.
\<close>

section \<open>The first CPU\<close>

definition set_current :: "ptr \<Rightarrow> hv_state \<Rightarrow> hv_state" where
  "set_current t h = h\<lparr>current_thread := (current_thread h)(curr_cpu h := t)\<rparr>"

definition thread_init_early :: "ksync \<Rightarrow> ksync" where
  "thread_init_early s =
     (let s = on_hv (\<lambda>h. h\<lparr>run_queue := (\<lambda>p. if p < 32 then [] else run_queue h p)\<rparr>) s;
          s = s\<lparr>thread_list := []\<rparr>;
          t = idle_thread (hv s) 0;
          s = on_hv (init_thread_struct t) s;
          s = on_hv (upd_thread t (\<lambda>th. th\<lparr>t_priority := 31, t_state := THREAD_RUNNING, t_flags := THREAD_FLAG_DETACHED,
                t_curr_cpu := 0, pinned_cpu := 0\<rparr>)) s;
          s = wait_queue_init t s;
          s = s\<lparr>thread_list := t # thread_list s\<rparr>
      in on_hv (set_current t) s)"

definition thread_init :: "(nat \<Rightarrow> ptr) \<Rightarrow> 'k tstate \<Rightarrow> 'k tstate" where
  "thread_init pt s = fold (\<lambda>i. timer_initialize (pt i)) [0..<4] s"

definition mp_set_cpu_idle :: "nat \<Rightarrow> hv_state \<Rightarrow> hv_state" where
  "mp_set_cpu_idle cpu h = h\<lparr>idle_cpus := idle_cpus h OR push_bit cpu 1\<rparr>"

text \<open>The rest of a thread that becomes idle waits for interrupts for ever, and changes nothing.\<close>

definition thread_become_idle :: "ksync \<Rightarrow> ksync" where
  "thread_become_idle s =
     (let t = this_thread s; cpu = curr_cpu (hv s);
          s = on_hv (upd_thread t (\<lambda>th. th\<lparr>t_priority := 0, t_flags := t_flags th OR 16, pinned_cpu := int cpu\<rparr>)) s;
          s = on_hv mp_set_curr_cpu_active s;
          s = on_hv (mp_set_cpu_idle cpu) s;
          s = on_hv (\<lambda>h. h\<lparr>ints_off := False\<rparr>) s
      in on_hv thread_yield s)"

text \<open>
  The parts of \<^verbatim>\<open>thread_create\<close> that concern waiting and the list of threads. A caller that does not check the result writes through NULL when
  there is no memory.
\<close>

definition create_thread :: "ptr \<Rightarrow> ptr \<Rightarrow> nat \<Rightarrow> ksync \<Rightarrow> ksync \<times> ptr" where
  "create_thread thr stack prio s =
     (let (h, t) = thread_create thr stack prio (hv s); s = s\<lparr>hv := h\<rparr>
      in if thr = 0 then (s, 0)
         else
           let s = s\<lparr>blocking_wait_queue := (blocking_wait_queue s)(thr := 0), wait_queue_block_ret := (wait_queue_block_ret s)(thr := NO_ERROR),
                 retcode := (retcode s)(thr := 0)\<rparr>;
               s = wait_queue_init thr s
           in if t = 0 then (s, 0) else (s\<lparr>thread_list := t # thread_list s\<rparr>, t))"

definition pin :: "ptr \<Rightarrow> int \<Rightarrow> ksync \<Rightarrow> ksync" where
  "pin t cpu = on_hv (upd_thread t (\<lambda>th. th\<lparr>pinned_cpu := cpu\<rparr>))"

definition lk_main_threads :: "ptr \<Rightarrow> ptr \<Rightarrow> ksync \<Rightarrow> unit krun" where
  "lk_main_threads thr stack s =
     (let s = thread_init_early s; (s, t) = create_thread thr stack 16 s
      in if t = 0 then KPanic
         else
           kbind (thread_detach t (pin t 0 s)) (\<lambda>_ s.
             KDone () (thread_become_idle (on_hv (thread_resume t) s))))"

section \<open>The other CPUs\<close>

text \<open>\<open>ths\<close> are the threads made for them, \<open>blk i\<close> the memory for the thread and its stack.\<close>

primrec secondary_loop :: "(nat \<Rightarrow> ptr \<times> ptr) \<Rightarrow> nat list \<Rightarrow> ksync \<Rightarrow> ptr list krun" where
  "secondary_loop blk [] s = KDone [] s"
| "secondary_loop blk (i # is) s =
     (let (s, t) = create_thread (fst (blk i)) (snd (blk i)) 16 s
      in if t = 0 then KPanic
         else kbind (thread_detach t (pin t (int i + 1) s)) (\<lambda>_ s. kbind (secondary_loop blk is s) (\<lambda>ts. kreturn (t # ts))))"

definition lk_init_secondary_cpus :: "(nat \<Rightarrow> ptr \<times> ptr) \<Rightarrow> nat \<Rightarrow> ksync \<Rightarrow> ptr list krun" where
  "lk_init_secondary_cpus blk count s =
     (let count = (if count \<ge> SMP_MAX_CPUS then SMP_MAX_CPUS - 1 else count) in secondary_loop blk [0..<count] s)"

definition thread_secondary_cpu_init_early :: "ksync \<Rightarrow> ksync" where
  "thread_secondary_cpu_init_early s =
     (let cpu = curr_cpu (hv s); t = idle_thread (hv s) cpu;
          s = on_hv (init_thread_struct t) s;
          s = pin t (int cpu) s;
          s = on_hv (upd_thread t (\<lambda>th. th\<lparr>t_priority := 31, t_state := THREAD_RUNNING, t_flags := THREAD_FLAG_DETACHED OR 16,
                t_curr_cpu := int cpu, pinned_cpu := int cpu\<rparr>)) s;
          s = wait_queue_init t s;
          s = s\<lparr>thread_list := t # thread_list s\<rparr>
      in on_hv (set_current t) s)"

definition thread_secondary_cpu_entry :: "ksync \<Rightarrow> ksync" where
  "thread_secondary_cpu_entry s =
     (let cpu = curr_cpu (hv s); t = this_thread s;
          s = on_hv (upd_thread t (\<lambda>th. th\<lparr>t_priority := 0\<rparr>)) s;
          s = on_hv mp_set_curr_cpu_active s;
          s = on_hv (mp_set_cpu_idle cpu) s;
          s = on_hv (\<lambda>h. h\<lparr>ints_off := False\<rparr>) s
      in on_hv thread_yield s)"

definition lk_secondary_cpu_entry :: "ptr list \<Rightarrow> ksync \<Rightarrow> ksync" where
  "lk_secondary_cpu_entry ths s =
     (let cpu = curr_cpu (hv s)
      in if cpu > length ths then s
         else
           let s = thread_secondary_cpu_init_early s;
               s = on_hv (thread_resume (ths ! (cpu - 1))) s
           in thread_secondary_cpu_entry s)"

section \<open>Steps of the scheduler on all CPUs\<close>

text \<open>
  The operations that a thread or an interrupt runs, on the CPUs \<open>N\<close> that have come up. A thread stops by setting its state and rescheduling, as
  \<^verbatim>\<open>thread_block\<close>, \<^verbatim>\<open>thread_sleep\<close> and \<^verbatim>\<open>thread_exit\<close> do. New threads and the threads that are resumed, woken and pinned are not the static idle threads.
\<close>

definition not_idle :: "ptr \<Rightarrow> hv_state \<Rightarrow> bool" where
  "not_idle t h \<longleftrightarrow> (\<forall>c<4. t \<noteq> idle_thread h c)"

definition stopped :: "thread_state set" where
  "stopped = {THREAD_BLOCKED, THREAD_SLEEPING, THREAD_DEATH}"

inductive kernel_step :: "nat set \<times> ksync \<Rightarrow> nat set \<times> ksync \<Rightarrow> bool" where
  yield: "kernel_step (N, s) (N, on_hv thread_yield s)"
| preempt: "kernel_step (N, s) (N, on_hv thread_preempt s)"
| tick: "kernel_step (N, s) (N, on_hv (\<lambda>h. fst (thread_timer_tick h)) s)"
| create: "not_idle thr (hv s) \<Longrightarrow> \<not> queued (threads (hv s) thr) \<Longrightarrow> \<forall>c\<in>N. thr \<noteq> current_thread (hv s) c \<Longrightarrow> prio < 32 \<Longrightarrow>
    kernel_step (N, s) (N, fst (create_thread thr stack prio s))"
| pin: "not_idle t (hv s) \<Longrightarrow> \<forall>c\<in>N. t \<noteq> current_thread (hv s) c \<Longrightarrow> kernel_step (N, s) (N, pin t cpu s)"
| resume: "not_idle t (hv s) \<Longrightarrow> kernel_step (N, s) (N, on_hv (thread_resume t) s)"
| stop: "st \<in> stopped \<Longrightarrow> not_idle (this_thread s) (hv s) \<Longrightarrow>
    kernel_step (N, s) (N, on_hv (\<lambda>h. thread_resched (upd_thread (get_current_thread h) (\<lambda>th. th\<lparr>t_state := st\<rparr>) h)) s)"
| wake: "t_state (threads (hv s) t) \<in> {THREAD_BLOCKED, THREAD_SLEEPING} \<Longrightarrow> not_idle t (hv s) \<Longrightarrow>
    kernel_step (N, s) (N, on_hv (thread_unblock t resched) s)"
| detach: "kernel_step (N, s) (N, on_hv (upd_thread t (\<lambda>th. th\<lparr>t_flags := t_flags th OR THREAD_FLAG_DETACHED\<rparr>)) s)"
| set_real_time: "kernel_step (N, s) (N, fst (thread_set_real_time t s))"
| set_priority: "not_idle (this_thread s) (hv s) \<Longrightarrow> thread_set_priority prio s = KSwitch s' k \<Longrightarrow> kernel_step (N, s) (N, s')"
| run_on: "c \<in> N \<Longrightarrow> kernel_step (N, s) (N, on_hv (\<lambda>h. h\<lparr>curr_cpu := c, ints_off := b\<rparr>) s)"
| come_up: "c < 4 \<Longrightarrow> c \<notin> N \<Longrightarrow>
    kernel_step (N, s) (insert c N, thread_secondary_cpu_init_early (on_hv (\<lambda>h. h\<lparr>curr_cpu := c, ints_off := True\<rparr>) s))"
| enter: "this_thread s = idle_thread (hv s) (curr_cpu (hv s)) \<Longrightarrow> kernel_step (N, s) (N, thread_secondary_cpu_entry s)"

text \<open>
  The current thread of a CPU that is up is running, on this CPU, and may run there. The idle threads of the CPUs that are not up
  are in no queue and current on no CPU, and only idle threads have the flag.
\<close>

definition runs_ok :: "nat \<Rightarrow> thread \<Rightarrow> bool" where
  "runs_ok c th \<longleftrightarrow> t_state th = THREAD_RUNNING \<and> t_curr_cpu th = int c \<and> (pinned_cpu th < 0 \<or> pinned_cpu th = int c)"

definition static_ok :: "nat set \<Rightarrow> hv_state \<Rightarrow> bool" where
  "static_ok N h \<longleftrightarrow> N \<subseteq> {..<4} \<and> (\<forall>c<4. \<forall>c'<4. idle_thread h c = idle_thread h c' \<longrightarrow> c = c') \<and>
     (\<forall>c<4. \<not> queued (threads h (idle_thread h c))) \<and> (\<forall>c\<in>N. \<forall>c'<4. current_thread h c = idle_thread h c' \<longrightarrow> c = c') \<and>
     (\<forall>c\<in>N. pinned_cpu (threads h (idle_thread h c)) = int c) \<and> (\<forall>t. thread_is_idle (threads h t) \<longrightarrow> (\<exists>c<4. t = idle_thread h c))"

definition kernel_inv :: "nat set \<Rightarrow> hv_state \<Rightarrow> bool" where
  "kernel_inv N h \<longleftrightarrow> sched_up N h \<and> static_ok N h \<and> (\<forall>c\<in>N. runs_ok c (threads h (current_thread h c)))"

text \<open>What rescheduling does to all threads.\<close>

lemma get_top_thread_runnable:
  assumes "queues_ok s" "get_top_thread cpu s = (s', t)" "t \<noteq> idle_thread s cpu"
  shows "runnable_on (int cpu) s t"
proof (cases "top_scan (int cpu) s (run_queue_bitmap s)")
  case (Some qt)
  obtain p t' where qt: "qt = (p, t')" by (cases qt)
  with Some assms(2) have "t = t'" by (auto simp: get_top_thread_def Let_def)
  then show ?thesis using top_scan_some [of "int cpu" s "run_queue_bitmap s" p t] Some qt by (auto simp: find_Some_iff)
qed (use assms in \<open>auto simp: get_top_thread_def\<close>)

lemma thread_resched_effect:
  assumes "queues_ok s" "cpus_up N s"
  obtains new where "new = idle_thread s (curr_cpu s) \<or> queued (threads s new) \<and> runnable_on (int (curr_cpu s)) s new"
    "current_thread (thread_resched s) = (current_thread s)(curr_cpu s := new)" "idle_thread (thread_resched s) = idle_thread s"
    "curr_cpu (thread_resched s) = curr_cpu s"
    "\<And>u. t_flags (threads (thread_resched s) u) = t_flags (threads s u) \<and> pinned_cpu (threads (thread_resched s) u) = pinned_cpu (threads s u)"
    "\<And>u. t_state (threads (thread_resched s) u) = (if u = new then THREAD_RUNNING else t_state (threads s u))"
    "\<And>u. queued (threads (thread_resched s) u) \<longleftrightarrow> u \<noteq> new \<and> queued (threads s u)"
    "\<And>u. t_curr_cpu (threads (thread_resched s) u) = (if new = get_current_thread s then t_curr_cpu (threads s u)
       else if u = new then int (curr_cpu s) else if u = get_current_thread s then -1 else t_curr_cpu (threads s u))"
proof -
  obtain s1 t where g: "get_top_thread (curr_cpu s) s = (s1, t)" by fastforce
  have idle: "\<not> queued (threads s (idle_thread s (curr_cpu s)))"
    using assms by (auto simp: queues_ok_def cpus_up_def)
  from get_top_thread_ok [OF assms(1) g idle] have gt:
    "\<forall>u. threads s1 u = (if u = t then (threads s t)\<lparr>queued := False\<rparr> else threads s u)"
    "t = idle_thread s (curr_cpu s) \<or> queued (threads s t)"
    "current_thread s1 = current_thread s" "idle_thread s1 = idle_thread s" "curr_cpu s1 = curr_cpu s"
    by simp_all
  let ?s2 = "upd_thread t (\<lambda>th. th\<lparr>t_state := THREAD_RUNNING\<rparr>) s1"
  let ?n = "if t = get_current_thread s then ?s2 else note_switch (get_current_thread s) t ?s2"
  have "sched_part (thread_resched s) = sched_part ?n" using g by (simp add: thread_resched_def Let_def)
  then have th: "threads (thread_resched s) = threads ?n" "current_thread (thread_resched s) = current_thread ?n"
    "idle_thread (thread_resched s) = idle_thread ?n" "curr_cpu (thread_resched s) = curr_cpu ?n"
    by (simp_all add: sched_part_def)
  have r: "t = idle_thread s (curr_cpu s) \<or> queued (threads s t) \<and> runnable_on (int (curr_cpu s)) s t"
    using gt(2) get_top_thread_runnable [OF assms(1) g] by blast
  show thesis
    by (rule that [of t, OF r])
      (use gt(1,3-5) in \<open>auto simp: th get_current_thread_def note_switch_def Let_def upd_thread_def\<close>)
qed

text \<open>An operation prepares the state, in which the current thread may be queued or stopped, and reschedules.\<close>

definition ready_to_switch :: "nat set \<Rightarrow> hv_state \<Rightarrow> bool" where
  "ready_to_switch N h \<longleftrightarrow> queues_ok h \<and> cpus_up N h \<and> static_ok N h \<and> t_curr_cpu (threads h (get_current_thread h)) = int (curr_cpu h) \<and>
     (\<forall>c\<in>N. c \<noteq> curr_cpu h \<longrightarrow> runs_ok c (threads h (current_thread h c)))"

lemma resched_kernel_inv:
  assumes "ready_to_switch N h"
  shows "kernel_inv N (thread_resched h)"
proof -
  let ?h = "thread_resched h" and ?c = "curr_cpu h" and ?old = "get_current_thread h"
  have a: "queues_ok h" "cpus_up N h" "static_ok N h" "t_curr_cpu (threads h ?old) = int ?c"
    "\<forall>c\<in>N. c \<noteq> ?c \<longrightarrow> runs_ok c (threads h (current_thread h c))"
    using assms by (auto simp: ready_to_switch_def)
  obtain new where n: "new = idle_thread h ?c \<or> queued (threads h new) \<and> runnable_on (int ?c) h new"
    and f: "current_thread ?h = (current_thread h)(?c := new)" "idle_thread ?h = idle_thread h" "curr_cpu ?h = ?c"
    and th: "\<And>u. t_flags (threads ?h u) = t_flags (threads h u) \<and> pinned_cpu (threads ?h u) = pinned_cpu (threads h u)"
      "\<And>u. t_state (threads ?h u) = (if u = new then THREAD_RUNNING else t_state (threads h u))"
      "\<And>u. queued (threads ?h u) \<longleftrightarrow> u \<noteq> new \<and> queued (threads h u)"
      "\<And>u. t_curr_cpu (threads ?h u) = (if new = ?old then t_curr_cpu (threads h u)
         else if u = new then int ?c else if u = ?old then -1 else t_curr_cpu (threads h u))"
    by (rule thread_resched_effect [OF a(1,2)], rule that) assumption+
  note st = a(3) [unfolded static_ok_def]
  have up: "sched_up N ?h" using thread_resched_up [OF a(1,2)] .
  have c: "?c \<in> N" "?c < 4" using a(2) st by (auto simp: cpus_up_def)
  have new: "\<forall>c'<4. new = idle_thread h c' \<longrightarrow> ?c = c'" using n st c(2) by auto
  have idle: "thread_is_idle (threads ?h t) = thread_is_idle (threads h t)" for t using th(1) by (simp add: thread_is_idle_def)
  have "\<forall>d\<in>N. \<forall>c'<4. ((current_thread h)(?c := new)) d = idle_thread h c' \<longrightarrow> d = c'" using st new by simp
  then have "static_ok N ?h" using st by (simp add: static_ok_def f(1,2) th(1,3) idle del: fun_upd_apply)
  moreover have "runs_ok ?c (threads ?h new)"
    using n st c(1) a(4) by (auto simp: runs_ok_def th(1,2,4) runnable_on_def)
  moreover have "runs_ok c' (threads ?h (current_thread h c'))" if "c' \<in> N" "c' \<noteq> ?c" for c'
  proof -
    have "current_thread h c' \<noteq> ?old" using a(2) that c(1) by (auto simp: cpus_up_def get_current_thread_def)
    moreover have "current_thread ?h c' \<noteq> current_thread ?h ?c" using up that c(1) by (auto simp: sched_up_def cpus_up_def)
    ultimately show ?thesis using a(5) that by (auto simp: runs_ok_def th(1,2,4) f(1))
  qed
  ultimately show ?thesis using up by (simp add: kernel_inv_def f(1))
qed

text \<open>The idle threads and what runs on the other CPUs depend on fields that queueing a thread and setting its state leave alone.\<close>

lemma static_okI:
  assumes "static_ok N h" "idle_thread h' = idle_thread h" "current_thread h' = current_thread h"
    "\<And>u. t_flags (threads h' u) = t_flags (threads h u) \<and> pinned_cpu (threads h' u) = pinned_cpu (threads h u)"
    "\<And>u. queued (threads h' u) \<Longrightarrow> \<not> queued (threads h u) \<Longrightarrow> not_idle u h"
  shows "static_ok N h'"
proof -
  have "thread_is_idle (threads h' t) = thread_is_idle (threads h t)" for t using assms(4) by (simp add: thread_is_idle_def)
  moreover have "\<forall>c<4. \<not> queued (threads h' (idle_thread h c))" using assms(1,5) unfolding static_ok_def not_idle_def by blast
  ultimately show ?thesis using assms(1-4) by (simp add: static_ok_def)
qed

lemma kernel_inv_D:
  assumes "kernel_inv N h"
  shows "queues_ok h" "cpus_up N h" "static_ok N h" "sched_up N h" "\<not> queued (threads h (get_current_thread h))" "curr_cpu h \<in> N" "curr_cpu h < 4"
    "\<And>c. c \<in> N \<Longrightarrow> runs_ok c (threads h (current_thread h c))" "runs_ok (curr_cpu h) (threads h (get_current_thread h))"
  using assms by (auto simp: kernel_inv_def sched_up_def cpus_up_def static_ok_def get_current_thread_def)

lemma not_idle_current: "kernel_inv N h \<Longrightarrow> \<not> thread_is_idle (threads h (get_current_thread h)) \<Longrightarrow> not_idle (get_current_thread h) h"
  using kernel_inv_D(2,3,6) [of N h] unfolding not_idle_def static_ok_def cpus_up_def get_current_thread_def by metis


section \<open>Every step keeps the invariant\<close>

lemma kernel_inv_part: "sched_part h' = sched_part h \<Longrightarrow> kernel_inv N h' = kernel_inv N h"
  using sched_inv_part [of h' h N] by (simp add: kernel_inv_def static_ok_def) (simp add: sched_part_def)

lemma kernel_inv_ready: "kernel_inv N h \<Longrightarrow> ready_to_switch N h"
  using kernel_inv_D [of N h] by (simp add: ready_to_switch_def runs_ok_def)

lemma insert_threads [simp]:
  "threads (insert_in_run_queue_head t h) u = (if u = t then (threads h t)\<lparr>queued := True\<rparr> else threads h u)"
  "threads (insert_in_run_queue_tail t h) u = (if u = t then (threads h t)\<lparr>queued := True\<rparr> else threads h u)"
  "current_thread (insert_in_run_queue_head t h) = current_thread h" "current_thread (insert_in_run_queue_tail t h) = current_thread h"
  "idle_thread (insert_in_run_queue_head t h) = idle_thread h" "idle_thread (insert_in_run_queue_tail t h) = idle_thread h"
  "curr_cpu (insert_in_run_queue_head t h) = curr_cpu h" "curr_cpu (insert_in_run_queue_tail t h) = curr_cpu h"
  by (simp_all add: insert_in_run_queue_head_def insert_in_run_queue_tail_def upd_thread_def Let_def)

lemma upd_fields [simp]:
  "current_thread (upd_thread t f h) = current_thread h" "idle_thread (upd_thread t f h) = idle_thread h" "curr_cpu (upd_thread t f h) = curr_cpu h"
  by (simp_all add: upd_thread_def)

text \<open>The current thread is changed, but not where it is queued, pinned and runs.\<close>

lemma upd_current_ready:
  assumes "kernel_inv N h" "\<And>th. queued (f th) = queued th \<and> t_flags (f th) = t_flags th \<and> pinned_cpu (f th) = pinned_cpu th \<and> t_curr_cpu (f th) = t_curr_cpu th"
    "t_priority (f (threads h (get_current_thread h))) < 32"
  shows "ready_to_switch N (upd_thread (get_current_thread h) f h)"
proof -
  let ?t = "get_current_thread h" and ?h = "upd_thread (get_current_thread h) f h"
  note d = kernel_inv_D [OF assms(1)]
  have "queues_ok ?h" using d(1,5) assms(2,3) by (auto simp: queues_ok_def upd_thread_threads) (auto simp: upd_thread_def)
  moreover have "cpus_up N ?h" using d(2) assms(2) by (intro cpus_upd_current_up) simp_all
  moreover have "static_ok N ?h" using d(3) by (rule static_okI) (auto simp: upd_thread_threads assms(2) split: if_splits)
  moreover have "current_thread h c \<noteq> ?t" if "c \<in> N" "c \<noteq> curr_cpu h" for c
    using d(2) that by (auto simp: cpus_up_def get_current_thread_def)
  ultimately show ?thesis
    using d(8,9) assms(2) by (simp add: ready_to_switch_def get_current_thread_def upd_thread_threads runs_ok_def)
qed

lemma kernel_inv_priority: "kernel_inv N h \<Longrightarrow> t_priority (threads h t) < 32"
  using kernel_inv_D(1) by (auto simp: queues_ok_def)

lemma insert_current_ready:
  assumes "ready_to_switch N h" "t = get_current_thread h" "\<not> queued (threads h t)" "t_state (threads h t) = THREAD_READY" "\<not> thread_is_idle (threads h t)"
    "not_idle t h"
  shows "ready_to_switch N (insert_in_run_queue_head t h)" "ready_to_switch N (insert_in_run_queue_tail t h)"
proof -
  note a = assms(1) [unfolded ready_to_switch_def]
  have o: "\<forall>c\<in>N. c \<noteq> curr_cpu h \<longrightarrow> current_thread h c \<noteq> t"
    using a assms(2) by (auto simp: cpus_up_def get_current_thread_def)
  have s: "static_ok N (insert_in_run_queue_head t h)" "static_ok N (insert_in_run_queue_tail t h)"
    using a assms(6) by (auto intro!: static_okI [of N h] split: if_splits)
  show "ready_to_switch N (insert_in_run_queue_head t h)" "ready_to_switch N (insert_in_run_queue_tail t h)"
    using a o s assms(2) queues_insert_head [OF _ assms(3-5)] queues_insert_tail [OF _ assms(3-5)] cpus_insert_up [of N h t]
    by (simp_all add: ready_to_switch_def get_current_thread_def runs_ok_def)
qed

lemma yield_kernel_inv: "kernel_inv N (thread_yield h)" if inv: "kernel_inv N h"
proof -
  let ?t = "get_current_thread h"
  let ?h = "upd_thread ?t (\<lambda>th. th\<lparr>t_state := THREAD_READY, quantum := 0\<rparr>) h"
  have r: "ready_to_switch N ?h" by (rule upd_current_ready [OF inv]) (simp_all add: kernel_inv_priority [OF inv])
  have i: "thread_is_idle (threads ?h ?t) = thread_is_idle (threads h ?t)" by (simp add: upd_thread_threads thread_is_idle_def)
  have g: "get_current_thread ?h = ?t" by (simp add: get_current_thread_def)
  have "ready_to_switch N (insert_in_run_queue_tail ?t ?h)" if "\<not> thread_is_idle (threads h ?t)"
    by (rule insert_current_ready [OF r g [symmetric]])
      (use that i kernel_inv_D(5) [OF inv] not_idle_current [OF inv that] in \<open>auto simp: upd_thread_threads not_idle_def\<close>)
  then show ?thesis using r by (simp add: thread_yield_def Let_def i resched_kernel_inv)
qed

lemma preempt_kernel_inv: "kernel_inv N (thread_preempt h)" if inv: "kernel_inv N h"
proof -
  let ?t = "get_current_thread h"
  let ?h = "upd_thread ?t (\<lambda>th. th\<lparr>t_state := THREAD_READY\<rparr>) h"
  have r: "ready_to_switch N ?h" by (rule upd_current_ready [OF inv]) (simp_all add: kernel_inv_priority [OF inv])
  have i: "thread_is_idle (threads ?h ?t) = thread_is_idle (threads h ?t)" by (simp add: upd_thread_threads thread_is_idle_def)
  have g: "get_current_thread ?h = ?t" by (simp add: get_current_thread_def)
  have "ready_to_switch N (insert_in_run_queue_head ?t ?h) \<and> ready_to_switch N (insert_in_run_queue_tail ?t ?h)" if "\<not> thread_is_idle (threads h ?t)"
    by (intro conjI insert_current_ready [OF r g [symmetric]])
      (use that i kernel_inv_D(5) [OF inv] not_idle_current [OF inv that] in \<open>auto simp: upd_thread_threads not_idle_def\<close>)
  then show ?thesis using r by (simp add: thread_preempt_def Let_def i resched_kernel_inv)
qed

lemma not_running_elsewhere: "kernel_inv N h \<Longrightarrow> t_state (threads h t) \<noteq> THREAD_RUNNING \<Longrightarrow> c \<in> N \<Longrightarrow> current_thread h c \<noteq> t"
  using kernel_inv_D(8) [of N h c] by (auto simp: runs_ok_def)

lemma ready_kernel_inv:
  assumes inv: "kernel_inv N h" and t: "t_state (threads h t) \<notin> {THREAD_RUNNING, THREAD_READY}" "not_idle t h"
  shows "kernel_inv N (insert_in_run_queue_head t (upd_thread t (\<lambda>th. th\<lparr>t_state := THREAD_READY\<rparr>) h))"
proof -
  let ?h1 = "upd_thread t (\<lambda>th. th\<lparr>t_state := THREAD_READY\<rparr>) h"
  let ?h = "insert_in_run_queue_head t ?h1"
  note d = kernel_inv_D [OF inv]
  have n: "\<not> queued (threads h t)" "\<not> thread_is_idle (threads h t)" using d(1,3) t by (auto simp: queues_ok_def static_ok_def not_idle_def)
  have o: "\<forall>c\<in>N. current_thread h c \<noteq> t" using not_running_elsewhere [OF inv, of t] t(1) by blast
  have q1: "queues_ok ?h1" using d(1) n by (intro queues_upd) simp_all
  have c1: "cpus_up N ?h1" using d(2) by (intro cpus_upd_current_up) simp_all
  have "queues_ok ?h" using q1 n by (intro queues_insert_head) (simp_all add: upd_thread_threads thread_is_idle_def)
  moreover have "cpus_up N ?h" using c1 o by (intro cpus_insert_up(1)) simp_all
  moreover have "static_ok N ?h" using d(3) t(2) by (auto intro!: static_okI [of N h] simp: upd_thread_threads split: if_splits)
  moreover have "get_current_thread h \<noteq> t" using o d(6) by (simp add: get_current_thread_def)
  ultimately show ?thesis using d(5,8) o by (simp add: kernel_inv_def sched_up_def upd_thread_threads get_current_thread_def)
qed

lemma resume_kernel_inv: "kernel_inv N (thread_resume t h)" if "kernel_inv N h" "not_idle t h"
  using that ready_kernel_inv [OF that(1), of t]
  by (auto simp: thread_resume_def Let_def kernel_inv_part [OF sched_part_wakeup] yield_kernel_inv)

lemma unblock_kernel_inv: "kernel_inv N (thread_unblock t r h)" if "kernel_inv N h" "t_state (threads h t) \<in> {THREAD_BLOCKED, THREAD_SLEEPING}" "not_idle t h"
  using that ready_kernel_inv [OF that(1), of t]
  by (auto simp: thread_unblock_def Let_def kernel_inv_part [OF sched_part_wakeup] intro!: resched_kernel_inv kernel_inv_ready)


text \<open>A thread that is in no queue and current nowhere gets new fields.\<close>

lemma other_kernel_inv:
  assumes inv: "kernel_inv N h" and t: "not_idle t h" "\<forall>c\<in>N. t \<noteq> current_thread h c"
    and f: "queued (f (threads h t)) = queued (threads h t)" "t_priority (f (threads h t)) < 32" "\<not> thread_is_idle (f (threads h t))"
    "queued (threads h t) \<Longrightarrow> t_priority (f (threads h t)) = t_priority (threads h t) \<and> t_state (f (threads h t)) = t_state (threads h t)"
  shows "kernel_inv N (upd_thread t f h)"
proof -
  let ?h = "upd_thread t f h"
  note d = kernel_inv_D [OF inv]
  have "queues_ok ?h" using d(1) f by (auto simp: queues_ok_def upd_thread_threads) (auto simp: upd_thread_def)
  moreover have "cpus_up N ?h" using d(2,3,6) t f by (auto simp: cpus_up_def upd_thread_threads static_ok_def not_idle_def)
  moreover have "static_ok N ?h" using d(3) t f(1,3) by (auto simp: static_ok_def upd_thread_threads not_idle_def)
  moreover have "get_current_thread h \<noteq> t" using t(2) d(6) by (auto simp: get_current_thread_def)
  ultimately show ?thesis using d(5,8) t(2) by (auto simp: kernel_inv_def sched_up_def upd_thread_threads get_current_thread_def)
qed

lemma thread_create_upd:
  "fst (thread_create thr stack prio h) = (if thr = 0 then h else upd_thread thr (\<lambda>_. zero_thread\<lparr>pinned_cpu := -1, t_priority := prio,
     t_state := THREAD_SUSPENDED, t_curr_cpu := -1, t_flags := (if stack = 0 then 0 else 38)\<rparr>) h)"
  by (simp add: thread_create_def init_thread_struct_def Let_def upd_thread_def zero_thread_def)

lemma create_thread_hv: "hv (fst (create_thread thr stack prio s)) = fst (thread_create thr stack prio (hv s))"
  by (simp add: create_thread_def Let_def wait_queue_init_def upd_wait_def split: prod.split)

lemma create_kernel_inv:
  assumes "kernel_inv N h" "not_idle thr h" "\<not> queued (threads h thr)" "\<forall>c\<in>N. thr \<noteq> current_thread h c" "prio < 32"
  shows "kernel_inv N (fst (thread_create thr stack prio h))"
  using assms by (auto simp: thread_create_upd zero_thread_def thread_is_idle_def bit_simps intro!: other_kernel_inv)

lemma pin_kernel_inv:
  assumes "kernel_inv N h" "not_idle t h" "\<forall>c\<in>N. t \<noteq> current_thread h c"
  shows "kernel_inv N (upd_thread t (\<lambda>th. th\<lparr>pinned_cpu := cpu\<rparr>) h)"
  using assms kernel_inv_D(1,3) [OF assms(1)]
  by (intro other_kernel_inv) (auto simp: queues_ok_def static_ok_def not_idle_def thread_is_idle_def)

lemma current_kernel_inv:
  assumes inv: "kernel_inv N h" and f: "\<And>th. queued (f th) = queued th \<and> t_priority (f th) < 32 \<and> t_flags (f th) = t_flags th \<and> t_state (f th) = t_state th \<and>
    pinned_cpu (f th) = pinned_cpu th \<and> t_curr_cpu (f th) = t_curr_cpu th"
  shows "kernel_inv N (upd_thread (get_current_thread h) f h)"
proof -
  let ?t = "get_current_thread h" and ?h = "upd_thread (get_current_thread h) f h"
  note d = kernel_inv_D [OF inv]
  have "queues_ok ?h" using d(1,5) f by (auto simp: queues_ok_def upd_thread_threads thread_is_idle_def) (auto simp: upd_thread_def)
  moreover have "cpus_up N ?h" using d(2) f by (intro cpus_upd_current_up) simp_all
  moreover have "static_ok N ?h" using d(3) by (rule static_okI) (auto simp: upd_thread_threads f split: if_splits)
  moreover have "runs_ok c (f th) = runs_ok c th" for c th by (simp add: runs_ok_def f)
  moreover have "runs_ok c (threads ?h (current_thread h c))" if "c \<in> N" for c using d(8) [OF that]
    by (cases "current_thread h c = get_current_thread h") (simp_all add: upd_thread_threads calculation(4))
  ultimately show ?thesis using d(5) by (simp add: kernel_inv_def sched_up_def get_current_thread_def upd_thread_threads f)
qed

lemma tick_kernel_inv: "kernel_inv N (fst (thread_timer_tick h))" if "kernel_inv N h"
proof -
  have "kernel_inv N (upd_thread (get_current_thread h) (\<lambda>th. th\<lparr>quantum := quantum th - 1, t_priority := t_priority (threads h (get_current_thread h))\<rparr>) h)"
    using kernel_inv_D(1) [OF that] by (intro current_kernel_inv [OF that]) (auto simp: queues_ok_def)
  moreover have "upd_thread t (\<lambda>th. th\<lparr>quantum := quantum th - 1, t_priority := t_priority (threads h t)\<rparr>) h =
      upd_thread t (\<lambda>th. th\<lparr>quantum := quantum th - 1\<rparr>) h" for t by (simp add: upd_thread_def)
  ultimately show ?thesis using that by (simp add: thread_timer_tick_def Let_def)
qed

lemma run_on_kernel_inv: "kernel_inv N (h\<lparr>curr_cpu := c, ints_off := b\<rparr>)" if "kernel_inv N h" "c \<in> N"
proof -
  note d = kernel_inv_D [OF that(1)]
  have n: "\<not> queued (threads h (current_thread h c))" if "c \<in> N" for c using d(2,5) that by (cases "c = curr_cpu h") (auto simp: cpus_up_def get_current_thread_def)
  then show ?thesis
    using d(1-3,8) that(2) by (simp add: kernel_inv_def sched_up_def queues_ok_def cpus_up_def static_ok_def get_current_thread_def)
qed

lemma come_up_hv:
  "hv (thread_secondary_cpu_init_early s) = set_current (idle_thread (hv s) (curr_cpu (hv s))) (upd_thread (idle_thread (hv s) (curr_cpu (hv s)))
     (\<lambda>_. zero_thread\<lparr>t_priority := 31, t_state := THREAD_RUNNING, t_flags := 17, t_curr_cpu := int (curr_cpu (hv s)), pinned_cpu := int (curr_cpu (hv s))\<rparr>) (hv s))"
  by (simp add: thread_secondary_cpu_init_early_def init_thread_struct_def pin_def on_hv_def wait_queue_init_def upd_wait_def Let_def upd_thread_def zero_thread_def)

lemma come_up_kernel_inv:
  assumes inv: "kernel_inv N h" and c: "c < 4" "c \<notin> N"
    and X: "X = zero_thread\<lparr>t_priority := 31, t_state := THREAD_RUNNING, t_flags := 17, t_curr_cpu := int c, pinned_cpu := int c\<rparr>"
  shows "kernel_inv (insert c N) (set_current (idle_thread h c) (upd_thread (idle_thread h c) (\<lambda>_. X) (h\<lparr>curr_cpu := c, ints_off := b\<rparr>)))"
    (is "kernel_inv _ ?h")
proof -
  note d = kernel_inv_D [OF inv]
  let ?t = "idle_thread h c"
  note st = d(3) [unfolded static_ok_def]
  have th: "threads ?h = (threads h)(?t := X)" "current_thread ?h = (current_thread h)(c := ?t)" "idle_thread ?h = idle_thread h" "curr_cpu ?h = c"
    "run_queue ?h = run_queue h" "run_queue_bitmap ?h = run_queue_bitmap h"
    by (simp_all add: set_current_def upd_thread_def)
  have X': "\<not> queued X" "t_priority X < 32" "thread_is_idle X" "runs_ok c X" "pinned_cpu X = int c"
    by (simp_all add: X zero_thread_def thread_is_idle_def runs_ok_def)
  have t: "\<not> queued (threads h ?t)" "\<forall>c'\<in>N. current_thread h c' \<noteq> ?t" "\<forall>c'\<in>N. idle_thread h c' \<noteq> ?t" using st c by auto
  have n: "\<not> queued (threads h (current_thread h c'))" if "c' \<in> N" for c'
    using d(2,5) that by (cases "c' = curr_cpu h") (auto simp: cpus_up_def get_current_thread_def)
  have "queues_ok ?h" using d(1) t(1) X' by (auto simp: queues_ok_def th(1,5,6))
  moreover have "cpus_up (insert c N) ?h" using d(2) t n c(2) X' by (auto simp: cpus_up_def th(1-4))
  moreover have "static_ok (insert c N) ?h" using st t c X' by (auto simp: static_ok_def th(1-4))
  ultimately show ?thesis using d(8) t(2) X' by (auto simp: kernel_inv_def sched_up_def get_current_thread_def th(1,2,4))
qed


lemma hv_on_hv: "hv (on_hv f s) = f (hv s)" by (simp add: on_hv_def)

lemma entry_kernel_inv:
  assumes "kernel_inv N (hv s)"
  shows "kernel_inv N (hv (thread_secondary_cpu_entry s))"
proof -
  let ?h = "upd_thread (get_current_thread (hv s)) (\<lambda>th. th\<lparr>t_priority := 0\<rparr>) (hv s)"
  have "kernel_inv N ?h" by (rule current_kernel_inv [OF assms]) simp
  then have "kernel_inv N (h\<lparr>ints_off := False\<rparr>)" if "sched_part h = sched_part ?h" for h
    using that kernel_inv_part [of "h\<lparr>ints_off := False\<rparr>" ?h N] by (simp add: sched_part_def)
  moreover have "sched_part (mp_set_cpu_idle c (mp_set_curr_cpu_active ?h)) = sched_part ?h" for c
    by (simp add: mp_set_cpu_idle_def mp_set_curr_cpu_active_def sched_part_def)
  ultimately show ?thesis
    unfolding thread_secondary_cpu_entry_def Let_def hv_on_hv this_thread_def by (intro yield_kernel_inv) simp
qed

text \<open>Flags other than the one of idle threads play no role.\<close>

lemma flags_kernel_inv:
  assumes "kernel_inv N h" "\<not> bit m 4"
  shows "kernel_inv N (upd_thread t (\<lambda>th. th\<lparr>t_flags := t_flags th OR m\<rparr>) h)" (is "kernel_inv N ?h")
proof -
  have th: "queued (threads ?h u) = queued (threads h u)" "t_priority (threads ?h u) = t_priority (threads h u)" "t_state (threads ?h u) = t_state (threads h u)"
    "pinned_cpu (threads ?h u) = pinned_cpu (threads h u)" "t_curr_cpu (threads ?h u) = t_curr_cpu (threads h u)"
    "thread_is_idle (threads ?h u) = thread_is_idle (threads h u)" for u
    using assms(2) by (simp_all add: upd_thread_threads thread_is_idle_def bit_simps)
  have q: "run_queue ?h = run_queue h" "run_queue_bitmap ?h = run_queue_bitmap h" by (simp_all add: upd_thread_def)
  show ?thesis
    using assms(1) by (simp add: kernel_inv_def sched_up_def queues_ok_def cpus_up_def static_ok_def get_current_thread_def runs_ok_def th q)
qed

lemma set_priority_kernel_inv:
  assumes inv: "kernel_inv N (hv s)" and "not_idle (this_thread s) (hv s)" "thread_set_priority prio s = KSwitch s' k"
  shows "kernel_inv N (hv s')"
proof -
  let ?t = "get_current_thread (hv s)" and ?p = "if prio \<le> 0 then 1 else if prio > 31 then 31 else nat prio"
  let ?h = "upd_thread ?t (\<lambda>th. th\<lparr>t_priority := ?p, t_state := THREAD_READY\<rparr>) (hv s)"
  have r: "ready_to_switch N ?h" by (rule upd_current_ready [OF inv]) auto
  have "\<not> thread_is_idle (threads (hv s) ?t)"
    using kernel_inv_D(3) [OF inv] assms(2) by (auto simp: static_ok_def not_idle_def this_thread_def)
  then have "ready_to_switch N (insert_in_run_queue_head ?t ?h)"
    using kernel_inv_D(5) [OF inv] assms(2)
    by (intro insert_current_ready [OF r]) (auto simp: upd_thread_threads thread_is_idle_def not_idle_def this_thread_def get_current_thread_def)
  then have "kernel_inv N (thread_resched (insert_in_run_queue_head ?t ?h))" by (rule resched_kernel_inv)
  moreover have "hv s' = thread_resched (insert_in_run_queue_head ?t ?h)"
    using assms(3) by (auto simp: thread_set_priority_def Let_def hv_on_hv this_thread_def)
  ultimately show ?thesis by simp
qed

lemma kernel_step_inv:
  assumes "kernel_step x y" "kernel_inv (fst x) (hv (snd x))"
  shows "kernel_inv (fst y) (hv (snd y))"
  using assms
proof cases
  case (stop st s N)
  have "ready_to_switch N (upd_thread (get_current_thread (hv s)) (\<lambda>th. th\<lparr>t_state := st\<rparr>) (hv s))"
    by (rule upd_current_ready) (use assms(2) stop kernel_inv_priority in simp_all)
  then show ?thesis using stop by (simp add: hv_on_hv resched_kernel_inv)
next
  case (create thr s N prio stack)
  then show ?thesis using assms(2) by (simp add: create_thread_hv create_kernel_inv)
next
  case (pin t s N cpu)
  then show ?thesis using assms(2) by (simp add: pin_def hv_on_hv pin_kernel_inv)
next
  case (come_up c N s)
  then show ?thesis using assms(2) come_up_kernel_inv [OF _ _ _ refl, of N "hv s" c True]
    by (simp add: come_up_hv hv_on_hv)
next
  case (set_real_time N s t)
  have "\<not> bit (8 :: u32) 4" by simp
  then show ?thesis using set_real_time assms(2) flags_kernel_inv [of N "hv s" 8 t] by (simp add: thread_set_real_time_def hv_on_hv)
next
  case (detach N s t)
  have "\<not> bit (1 :: u32) 4" by simp
  then show ?thesis using detach assms(2) flags_kernel_inv [of N "hv s" 1 t] by (simp add: hv_on_hv)
next
  case (set_priority s prio s' k N)
  then show ?thesis using assms(2) set_priority_kernel_inv by simp
qed (use assms(2) in \<open>simp_all add: hv_on_hv yield_kernel_inv preempt_kernel_inv tick_kernel_inv resume_kernel_inv unblock_kernel_inv
      run_on_kernel_inv entry_kernel_inv\<close>)

section \<open>The start makes the invariant hold\<close>

text \<open>The memory of the kernel when it is entered: zero except for the static addresses.\<close>

definition at_reset :: "ksync \<Rightarrow> bool" where
  "at_reset s \<longleftrightarrow> threads (hv s) = (\<lambda>_. zero_thread) \<and> run_queue_bitmap (hv s) = 0 \<and> (\<forall>p\<ge>32. run_queue (hv s) p = []) \<and>
     curr_cpu (hv s) = 0 \<and> ints_off (hv s) \<and> (\<forall>c<4. \<forall>c'<4. idle_thread (hv s) c = idle_thread (hv s) c' \<longrightarrow> c = c')"

lemma wakeup_fields [simp]:
  "threads (wakeup_cpu_for_thread t h) = threads h" "run_queue (wakeup_cpu_for_thread t h) = run_queue h"
  "run_queue_bitmap (wakeup_cpu_for_thread t h) = run_queue_bitmap h" "current_thread (wakeup_cpu_for_thread t h) = current_thread h"
  "idle_thread (wakeup_cpu_for_thread t h) = idle_thread h" "curr_cpu (wakeup_cpu_for_thread t h) = curr_cpu h"
  using sched_part_wakeup [of t h] by (simp_all add: sched_part_def)

lemma detach_fresh:
  assumes "wq_list (waits s t) = []" "t_state (threads (hv s) t) \<noteq> THREAD_DEATH"
  shows "thread_detach t s = KDone NO_ERROR (on_hv (upd_thread t (\<lambda>th. th\<lparr>t_flags := t_flags th OR THREAD_FLAG_DETACHED\<rparr>)) s)"
  using assms by (simp add: thread_detach_def wait_queue_wake_all_def)

lemma create_ok:
  assumes "thr \<noteq> 0" "stack \<noteq> 0"
  shows "snd (create_thread thr stack prio s) = thr" "wq_list (waits (fst (create_thread thr stack prio s)) thr) = []"
  using assms by (simp_all add: create_thread_def thread_create_def Let_def wait_queue_init_def upd_wait_def split: prod.split)

lemma create_fails: "thr = 0 \<or> stack = 0 \<Longrightarrow> snd (create_thread thr stack prio s) = 0"
  by (auto simp: create_thread_def thread_create_def Let_def split: prod.split)

lemma start_kernel_inv:
  assumes "threads h = (\<lambda>_. zero_thread)(t0 := X0, thr := X1)" "run_queue h = (\<lambda>_. [])(16 := [thr])" "run_queue_bitmap h = 2 ^ 16"
    "current_thread h 0 = t0" "idle_thread h 0 = t0" "curr_cpu h = 0" "\<forall>c<4. \<forall>c'<4. idle_thread h c = idle_thread h c' \<longrightarrow> c = c'"
    "not_idle thr h"
    and X: "X0 = zero_thread\<lparr>t_state := THREAD_RUNNING, t_flags := 17\<rparr>"
      "X1 = zero_thread\<lparr>queued := True, t_priority := 16, t_state := THREAD_READY, t_curr_cpu := -1, t_flags := 39\<rparr>"
  shows "kernel_inv {0} h"
proof -
  have X': "\<not> queued X0" "t_priority X0 = 0" "thread_is_idle X0" "runs_ok 0 X0" "pinned_cpu X0 = 0" "queued X1" "t_priority X1 = 16"
    "t_state X1 = THREAD_READY" "\<not> thread_is_idle X1"
    "\<not> queued zero_thread" "t_priority zero_thread = 0" "\<not> thread_is_idle zero_thread"
    by (simp_all add: X zero_thread_def thread_is_idle_def runs_ok_def)
  have "\<forall>c<4. idle_thread h c \<noteq> thr" using assms(8) by (auto simp: not_idle_def)
  moreover from this have "thr \<noteq> t0" using assms(5) by force
  ultimately have ne: "thr \<noteq> t0" "\<forall>c<4. idle_thread h c \<noteq> thr" by simp_all
  have "\<exists>c<4. idle_thread h 0 = idle_thread h c" by (rule exI [of _ 0]) simp
  then have st: "static_ok {0} h" using X' ne assms(5,7) by (auto simp: static_ok_def assms(1,4))
  have "queues_ok h" using X' ne by (auto simp: queues_ok_def assms(1-3) bit_simps)
  then show ?thesis using X' ne st by (simp add: kernel_inv_def sched_up_def cpus_up_def get_current_thread_def assms(1,4-6))
qed

text \<open>The state of \<^verbatim>\<open>lk_main\<close> before it becomes the idle thread, and the memory it depends on.\<close>

lemma lk_main_run:
  assumes "at_reset s" "thr \<noteq> 0" "stack \<noteq> 0" "not_idle thr (hv s)"
  shows "\<exists>s1. lk_main_threads thr stack s = KDone () s1 \<and> kernel_inv {0} (hv s1)"
proof -
  let ?t0 = "idle_thread (hv s) 0"
  note r = assms(1) [unfolded at_reset_def]
  have ne: "thr \<noteq> ?t0" using assms(4) by (auto simp: not_idle_def)
  define s1 where "s1 = thread_init_early s"
  define s2 where "s2 = fst (create_thread thr stack 16 s1)"
  define s3 where "s3 = on_hv (upd_thread thr (\<lambda>th. th\<lparr>t_flags := t_flags th OR THREAD_FLAG_DETACHED\<rparr>)) (pin thr 0 s2)"
  define h4 where "h4 = thread_resume thr (hv s3)"
  have h1: "threads (hv s1) = (\<lambda>_. zero_thread)(?t0 := zero_thread\<lparr>t_priority := 31, t_state := THREAD_RUNNING, t_flags := 1\<rparr>)"
    "run_queue (hv s1) = (\<lambda>_. [])" "run_queue_bitmap (hv s1) = 0" "current_thread (hv s1) 0 = ?t0" "idle_thread (hv s1) = idle_thread (hv s)"
    "curr_cpu (hv s1) = 0" "ints_off (hv s1)"
    using r by (auto simp: s1_def thread_init_early_def Let_def hv_on_hv on_hv_def wait_queue_init_def upd_wait_def set_current_def init_thread_struct_def
        upd_thread_def zero_thread_def fun_eq_iff)
  have c: "create_thread thr stack 16 s1 = (s2, thr)" using create_ok(1) [OF assms(2,3)] by (simp add: s2_def prod_eq_iff)
  have h2: "hv s2 = upd_thread thr (\<lambda>_. zero_thread\<lparr>pinned_cpu := -1, t_priority := 16, t_curr_cpu := -1, t_flags := 38\<rparr>) (hv s1)"
    using assms(2,3) by (simp add: s2_def create_thread_hv thread_create_upd zero_thread_def)
  have d: "thread_detach thr (pin thr 0 s2) = KDone NO_ERROR s3" unfolding s3_def
    by (rule detach_fresh) (use create_ok(2) [OF assms(2,3), of 16 s1] in \<open>simp_all add: pin_def on_hv_def s2_def [symmetric] h2 upd_thread_threads zero_thread_def\<close>)
  have k: "lk_main_threads thr stack s = KDone () (thread_become_idle (on_hv (thread_resume thr) s3))"
    using assms(2) by (simp add: lk_main_threads_def s1_def [symmetric] c d)
  let ?X0 = "zero_thread\<lparr>t_state := THREAD_RUNNING, t_flags := 17\<rparr>"
  let ?X1 = "zero_thread\<lparr>queued := True, t_priority := 16, t_state := THREAD_READY, t_curr_cpu := -1, t_flags := 39\<rparr>"
  define h5 where "h5 = upd_thread ?t0 (\<lambda>th. th\<lparr>t_priority := 0, t_flags := t_flags th OR 16, pinned_cpu := 0\<rparr>) h4"
  have i: "t_state (threads (hv s3) thr) = THREAD_SUSPENDED" "ints_off (hv s3)"
    by (simp_all add: s3_def pin_def hv_on_hv h2 upd_thread_def zero_thread_def h1(7))
  have h4: "threads h4 = (\<lambda>_. zero_thread)(?t0 := zero_thread\<lparr>t_priority := 31, t_state := THREAD_RUNNING, t_flags := 1\<rparr>, thr := ?X1)"
    "run_queue h4 = (\<lambda>_. [])(16 := [thr])" "run_queue_bitmap h4 = 2 ^ 16" "current_thread h4 0 = ?t0" "idle_thread h4 = idle_thread (hv s)" "curr_cpu h4 = 0"
    using ne i by (auto simp: h4_def thread_resume_def Let_def s3_def pin_def hv_on_hv h2 upd_thread_def h1 insert_in_run_queue_head_def zero_thread_def fun_eq_iff)
  have "kernel_inv {0} h5"
    by (rule start_kernel_inv [OF _ _ _ _ _ _ _ _ refl refl])
      (use r ne assms(4) h4 in \<open>auto simp: h5_def upd_thread_def not_idle_def zero_thread_def fun_eq_iff\<close>)
  moreover have "hv (thread_become_idle (on_hv (thread_resume thr) s3)) =
      thread_yield ((mp_set_cpu_idle 0 (mp_set_curr_cpu_active h5))\<lparr>ints_off := False\<rparr>)"
    by (simp add: thread_become_idle_def Let_def hv_on_hv this_thread_def get_current_thread_def h4_def [symmetric] h4(4,6) h5_def)
  moreover have "sched_part ((mp_set_cpu_idle 0 (mp_set_curr_cpu_active h5))\<lparr>ints_off := False\<rparr>) = sched_part h5"
    by (simp add: mp_set_cpu_idle_def mp_set_curr_cpu_active_def sched_part_def)
  ultimately have "kernel_inv {0} (hv (thread_become_idle (on_hv (thread_resume thr) s3)))"
    using kernel_inv_part yield_kernel_inv by metis
  then show ?thesis using k by blast
qed

section \<open>The start of the other CPUs is made of steps\<close>

text \<open>Memory for threads that is in no use: not one of the static threads, in no queue and current nowhere.\<close>

definition unused :: "nat set \<Rightarrow> hv_state \<Rightarrow> ptr \<Rightarrow> bool" where
  "unused N h t \<longleftrightarrow> not_idle t h \<and> \<not> queued (threads h t) \<and> (\<forall>c\<in>N. t \<noteq> current_thread h c)"

lemma three_steps: "r a b \<Longrightarrow> r b c \<Longrightarrow> r c d \<Longrightarrow> r\<^sup>*\<^sup>* a d"
  by (meson converse_rtranclp_into_rtranclp r_into_rtranclp)

lemma create_steps:
  assumes "unused N (hv s) t" "t \<noteq> 0" "stack \<noteq> 0"
  obtains s1 s2 where "create_thread t stack 16 s = (s1, t)" "thread_detach t (pin t cpu s1) = KDone 0 s2" "kernel_step\<^sup>*\<^sup>* (N, s) (N, s2)"
    "idle_thread (hv s2) = idle_thread (hv s)" "current_thread (hv s2) = current_thread (hv s)" "t_state (threads (hv s2) t) = THREAD_SUSPENDED"
    "pinned_cpu (threads (hv s2) t) = cpu" "\<forall>u. u \<noteq> t \<longrightarrow> threads (hv s2) u = threads (hv s) u"
proof -
  define s1 where "s1 = fst (create_thread t stack 16 s)"
  define s2 where "s2 = on_hv (upd_thread t (\<lambda>th. th\<lparr>t_flags := t_flags th OR THREAD_FLAG_DETACHED\<rparr>)) (pin t cpu s1)"
  have c: "create_thread t stack 16 s = (s1, t)" using create_ok(1) [OF assms(2,3)] by (simp add: s1_def prod_eq_iff)
  have h1: "hv s1 = upd_thread t (\<lambda>_. zero_thread\<lparr>pinned_cpu := -1, t_priority := 16, t_curr_cpu := -1, t_flags := 38\<rparr>) (hv s)"
    using assms(2,3) by (simp add: s1_def create_thread_hv thread_create_upd zero_thread_def)
  have d: "thread_detach t (pin t cpu s1) = KDone 0 s2" unfolding s2_def
    by (rule detach_fresh) (use create_ok(2) [OF assms(2,3), of 16 s] in \<open>simp_all add: pin_def on_hv_def s1_def [symmetric] h1 upd_thread_threads zero_thread_def\<close>)
  have u: "not_idle t (hv s1)" "\<forall>c\<in>N. t \<noteq> current_thread (hv s1) c" using assms(1) by (auto simp: h1 unused_def not_idle_def)
  have "kernel_step (N, s) (N, s1)" unfolding s1_def using assms(1) by (intro kernel_step.create) (auto simp: unused_def)
  moreover have "kernel_step (N, s1) (N, pin t cpu s1)" using u by (rule kernel_step.pin)
  moreover have "kernel_step (N, pin t cpu s1) (N, s2)" unfolding s2_def by (rule kernel_step.detach)
  ultimately have "kernel_step\<^sup>*\<^sup>* (N, s) (N, s2)" by (rule three_steps)
  then show thesis by (rule that [OF c d]) (simp_all add: s2_def pin_def hv_on_hv h1 upd_thread_threads zero_thread_def)
qed

lemma secondary_loop_steps:
  assumes "\<forall>i\<in>set is. fst (blk i) \<noteq> 0 \<and> snd (blk i) \<noteq> 0 \<and> unused N (hv s) (fst (blk i))" "distinct (map (\<lambda>i. fst (blk i)) is)"
  shows "\<exists>s'. secondary_loop blk is s = KDone (map (\<lambda>i. fst (blk i)) is) s' \<and> kernel_step\<^sup>*\<^sup>* (N, s) (N, s')"
  using assms
proof (induction "is" arbitrary: s)
  case (Cons i "is")
  obtain s1 s2 where s: "create_thread (fst (blk i)) (snd (blk i)) 16 s = (s1, fst (blk i))"
    "thread_detach (fst (blk i)) (pin (fst (blk i)) (int i + 1) s1) = KDone 0 s2" "kernel_step\<^sup>*\<^sup>* (N, s) (N, s2)"
    "idle_thread (hv s2) = idle_thread (hv s)" "current_thread (hv s2) = current_thread (hv s)"
    "\<forall>u. u \<noteq> fst (blk i) \<longrightarrow> threads (hv s2) u = threads (hv s) u"
  proof (rule create_steps [of N s "fst (blk i)" "snd (blk i)" "int i + 1"])
  qed (use Cons.prems(1) that in auto)
  have "unused N (hv s2) (fst (blk j))" if "j \<in> set is" for j
  proof -
    have "fst (blk j) \<noteq> fst (blk i)" using Cons.prems(2) image_eqI [OF refl that, of "\<lambda>i. fst (blk i)"] by auto
    then show ?thesis using Cons.prems(1) that s(4-6) by (simp add: unused_def not_idle_def)
  qed
  then obtain s' where s': "secondary_loop blk is s2 = KDone (map (\<lambda>i. fst (blk i)) is) s'" "kernel_step\<^sup>*\<^sup>* (N, s2) (N, s')"
    using Cons.IH [of s2] Cons.prems by auto
  have "kernel_step\<^sup>*\<^sup>* (N, s) (N, s')" using s(3) s'(2) by (rule rtranclp_trans)
  then show ?case using Cons.prems(1) s(1,2) s'(1) by (simp add: kreturn_def)
qed simp

lemma secondary_entry_steps:
  assumes "c < 4" "c \<notin> N" "c \<le> length ths" "not_idle (ths ! (c - 1)) (hv s)"
  shows "kernel_step\<^sup>*\<^sup>* (N, s) (insert c N, lk_secondary_cpu_entry ths (on_hv (\<lambda>h. h\<lparr>curr_cpu := c, ints_off := True\<rparr>) s))"
proof -
  define s1 where "s1 = thread_secondary_cpu_init_early (on_hv (\<lambda>h. h\<lparr>curr_cpu := c, ints_off := True\<rparr>) s)"
  define s2 where "s2 = on_hv (thread_resume (ths ! (c - 1))) s1"
  have h1: "curr_cpu (hv s1) = c" "idle_thread (hv s1) = idle_thread (hv s)" "current_thread (hv s1) c = idle_thread (hv s) c" "ints_off (hv s1)"
    by (simp_all add: s1_def come_up_hv hv_on_hv set_current_def upd_thread_def)
  have "kernel_step (N, s) (insert c N, s1)" unfolding s1_def using assms(1,2) by (rule kernel_step.come_up)
  moreover have "kernel_step (insert c N, s1) (insert c N, s2)" unfolding s2_def
    using assms(4) by (intro kernel_step.resume) (simp add: not_idle_def h1)
  moreover have "kernel_step (insert c N, s2) (insert c N, thread_secondary_cpu_entry s2)"
    by (rule kernel_step.enter)
      (use h1 in \<open>simp add: s2_def hv_on_hv this_thread_def get_current_thread_def thread_resume_def Let_def insert_in_run_queue_head_def upd_thread_def\<close>)
  ultimately have "kernel_step\<^sup>*\<^sup>* (N, s) (insert c N, thread_secondary_cpu_entry s2)" by (rule three_steps)
  then show ?thesis using assms(3) by (simp add: lk_secondary_cpu_entry_def Let_def hv_on_hv s1_def s2_def)
qed

section \<open>Properties\<close>



definition boot0 :: ksync where
  "boot0 = \<lparr>hv = state0\<lparr>ints_off := True, idle_thread := (\<lambda>c. of_nat c + 1)\<rparr>, waits = (\<lambda>_. \<lparr>wq_list = [], wq_count = 0\<rparr>),
     blocking_wait_queue = (\<lambda>_. 0), wait_queue_block_ret = (\<lambda>_. 0), armed = (\<lambda>_. False), sleepers = (\<lambda>_. False), retcode = (\<lambda>_. 0),
     thread_list = [], mutexes = (\<lambda>_. \<lparr>holder = 0, m_count = 0\<rparr>), sems = (\<lambda>_. \<lparr>sem_count = 0\<rparr>), events = (\<lambda>_. \<lparr>signaled = False, e_flags = 0\<rparr>)\<rparr>"



end
