(* ===== verification/Vgic_Inject.thy ===== *)
theory Vgic_Inject
  imports Vcpu
begin

text \<open>
  Injection of a virtual interrupt and its migration to another virtual CPU (\<^verbatim>\<open>hv/arch/armv8a/hv_vgic.c\<close>), and what
  feeds it: the map from physical interrupts to guests of \<^verbatim>\<open>hv/hv_irq.c\<close> with its handler, and
  the handler of the virtual timer.
\<close>

section \<open>Injection\<close>

definition hv_vcpu_inject_virq :: "ptr \<Rightarrow> virq_ref \<Rightarrow> hv_state \<Rightarrow> hv_state \<times> int" where
  "hv_vcpu_inject_virq v r s =
     (if \<not> enable (virqs s r) then (s, -1)
      else if is_vcpu_poweroff s v then (s, -1)
      else if pdq (virqs s r) then (s, 0)
      else
        let s = insert_into_pdlist r v s
        in if is_vcpu_running s v \<and> v \<noteq> current_vcpu s then
             (let cpu_id = hv_vcpu_cpu_id s v
              in if cpu_id < 0 then (s, -1) else (hv_empty_event (nat cpu_id) s, 0))
           else if is_vcpu_lowpower s v then (fst (hv_vcpu_resume v s), 0)
           else (s, 0))"

definition hv_inject_virq :: "ptr \<Rightarrow> ptr \<Rightarrow> u32 \<Rightarrow> hv_state \<Rightarrow> hv_state \<times> int" where
  "hv_inject_virq vm v virq s =
     (case get_virq s vm v virq of
        None \<Rightarrow> (s, ERR_INVALID_ARGS)
      | Some r \<Rightarrow>
          let v = (if v = 0 then vq_vcpu (virqs s r) else v);
              (s, ret) = hv_vcpu_inject_virq v r s
          in (if ret < 0 \<and> hwintid (virqs s r) \<noteq> 0 then gic_set_icactiver (unat (hwintid (virqs s r))) s else s, ret))"

definition hv_migrate_virq :: "ptr \<Rightarrow> ptr \<Rightarrow> virq_ref \<Rightarrow> hv_state \<Rightarrow> hv_state \<times> int" where
  "hv_migrate_virq o_vcpu n_vcpu r s =
     (let cpu_id = nat (hv_vcpu_cpu_id s n_vcpu);
          set_vcpu = upd_virq r (\<lambda>q. q\<lparr>vq_vcpu := n_vcpu\<rparr>);
          affine = (\<lambda>s. gic_set_affinity (unat (hwintid (virqs s r))) cpu_id False s)
      in if hwintid (virqs s r) = 0 then (set_vcpu s, 0)
         else if migrate (virqs s r) then (s, -1)
         else if pd_node (virqs s r) = None then (set_vcpu (affine s), 0)
         else if lr_node (virqs s r) \<noteq> None then (upd_virq r (\<lambda>q. q\<lparr>migrate := True\<rparr>) (set_vcpu s), 0)
         else if pdq (virqs s r) then
           (let s = set_vcpu s;
                s = pd_unlink r s;
                s = upd_virq r (\<lambda>q. q\<lparr>pdq := False\<rparr>) s;
                s = affine s
            in (fst (hv_vcpu_inject_virq n_vcpu r s), 0))
         else (s, 0))"

section \<open>Physical interrupts of a guest\<close>

text \<open>\<open>got\<close> says whether \<^verbatim>\<open>malloc\<close> returned a block.\<close>

definition hv_init_virq_info :: "bool \<Rightarrow> hv_state \<Rightarrow> hv_state \<times> int" where
  "hv_init_virq_info got s =
     (if \<not> got then (s, ERR_NO_MEMORY)
      else (s\<lparr>irq2virq := (\<lambda>i. if i < unat (get_max_spi s) then \<lparr>vif_vm = 0, vif_virq = 0, vif_vcpu = 0\<rparr> else irq2virq s i)\<rparr>, 0))"

definition get_virq_info :: "u32 \<Rightarrow> nat option" where
  "get_virq_info irq = (if irq < 32 then None else Some (unat (irq - 32)))"

definition hv_int_handler :: "u64 \<Rightarrow> hv_state \<Rightarrow> hv_state \<times> int" where
  "hv_int_handler arg s =
     (case get_virq_info (ucast arg) of
        None \<Rightarrow> (s, 0)
      | Some i \<Rightarrow>
          let virq = irq2virq s i
          in (fst (hv_inject_virq (vif_vm virq) (vif_vcpu virq) (vif_virq virq) s), 0))"

text \<open>\<open>None\<close> is the panic of \<^verbatim>\<open>register_int_handler\<close> for a vector out of range.\<close>

definition hv_map_irq_to_guest :: "ptr \<Rightarrow> u32 \<Rightarrow> u32 \<Rightarrow> hv_state \<Rightarrow> (hv_state \<times> int) option" where
  "hv_map_irq_to_guest vm virq irq s =
     (case get_virq_info irq of
        None \<Rightarrow> Some (s, ERR_NOT_FOUND)
      | Some i \<Rightarrow>
          let s = s\<lparr>irq2virq := (irq2virq s)(i := (irq2virq s i)\<lparr>vif_vm := vm, vif_virq := virq\<rparr>)\<rparr>
          in map_option (\<lambda>s. (hv_vm_init_virq vm virq irq s, 0)) (register_int_handler (unat irq) Hv_int_handler INT_IRQ s))"

definition vtimer_irq_handler :: "hv_state \<Rightarrow> hv_state \<times> int" where
  "vtimer_irq_handler s =
     (let v = current_vcpu s
      in if v = 0 then (s, 0) else (fst (hv_inject_virq (vcpu_vm (vcpus s v)) v 27 s), 0))"

section \<open>Frames\<close>

definition vq_part :: "hv_state \<Rightarrow> (virq_ref \<Rightarrow> vgic_irq) \<times> (ptr \<Rightarrow> vgic_redist)" where
  "vq_part s = (virqs s, redist s)"

lemma vq_part_inv: "vq_part s' = vq_part s \<Longrightarrow> vq_inv s' \<longleftrightarrow> vq_inv s"
  by (simp add: vq_part_def vq_inv_def)

lemma vq_part_icc [simp]: "vq_part (ARM64_WRITE_ICC r x s) = vq_part s"
  by (simp add: vq_part_def ARM64_WRITE_ICC_def ARM64_WRITE_SYSREG_def redist_def fun_eq_iff)

lemma vq_part_sgi [simp]: "vq_part (arm_gic_sgi irq m s) = vq_part s"
proof -
  have "vq_part (fst (fold (sgi_step irq) xs (s, m))) = vq_part s" for xs
  proof (induction xs arbitrary: s m)
    case (Cons x xs)
    show ?case
      by (cases "sgi_step irq x (s, m)")
        (use Cons in \<open>auto simp: sgi_step_def Let_def split: if_splits prod.splits\<close>)
  qed simp
  then show ?thesis by (simp add: arm_gic_sgi_def)
qed

lemma vq_part_ipi [simp]: "vq_part (arch_mp_send_ipi m i s) = vq_part s"
  by (simp add: arch_mp_send_ipi_def Let_def)

lemma vq_part_wakeup [simp]: "vq_part (wakeup_cpu_for_thread t s) = vq_part s"
  by (simp add: wakeup_cpu_for_thread_def mp_reschedule_def Let_def)

lemma vq_part_thread [simp]: "vq_part (upd_thread t f s) = vq_part s" "vq_part (set_status v st s) = vq_part s"
  by (simp_all add: vq_part_def)

lemma vq_part_resume [simp]: "vq_part (fst (hv_vcpu_resume v s)) = vq_part s"
proof -
  have "thread_resume t s = wakeup_cpu_for_thread t s" if "t_state (threads s t) = THREAD_READY" for t s
    using that by (simp add: thread_resume_def Let_def)
  then show ?thesis by (simp add: hv_vcpu_resume_def Let_def upd_thread_threads)
qed

lemma vq_inject_vcpu: "vq_inv s \<Longrightarrow> vq_inv (fst (hv_vcpu_inject_virq v r s))"
proof -
  assume i: "vq_inv s"
  have "vq_inv (insert_into_pdlist r v s)" using i by (rule vq_insert)
  moreover have "vq_inv (fst (hv_vcpu_resume v s)) \<longleftrightarrow> vq_inv s" for s by (rule vq_part_inv) simp
  moreover have "vq_inv (hv_empty_event n s) \<longleftrightarrow> vq_inv s" for n s
    by (rule vq_part_inv) (simp add: hv_empty_event_def)
  ultimately show ?thesis using i by (simp add: hv_vcpu_inject_virq_def Let_def)
qed

lemma vq_gic: "vq_inv s \<Longrightarrow> vq_inv (gic_set_icactiver n s)" "vq_inv s \<Longrightarrow> vq_inv (gic_set_affinity n c b s)"
  by (erule vq_hw; simp)+

lemma vq_inject: "vq_inv s \<Longrightarrow> vq_inv (fst (hv_inject_virq vm v virq s))"
proof (cases "get_virq s vm v virq")
  case (Some r)
  assume "vq_inv s"
  obtain s1 ret where e: "hv_vcpu_inject_virq (if v = 0 then vq_vcpu (virqs s r) else v) r s = (s1, ret)" by fastforce
  have "vq_inv s1" using vq_inject_vcpu [OF \<open>vq_inv s\<close>, of "if v = 0 then vq_vcpu (virqs s r) else v" r] e by simp
  then show ?thesis using Some e by (simp add: hv_inject_virq_def Let_def vq_gic)
qed (simp add: hv_inject_virq_def)

lemma vq_migrate: "vq_inv s \<Longrightarrow> vq_inv (fst (hv_migrate_virq ov nv r s))"
proof -
  assume i: "vq_inv s"
  have u: "vq_inv (upd_virq r (\<lambda>q. q\<lparr>vq_vcpu := nv\<rparr>) s)" if "vq_inv s" for s using that by (rule vq_upd) simp_all
  have m: "vq_inv (upd_virq r (\<lambda>q. q\<lparr>migrate := True\<rparr>) s)" if "vq_inv s" for s using that by (rule vq_upd) simp_all
  have "vq_inv (upd_virq r (\<lambda>q. q\<lparr>pdq := False\<rparr>) (pd_unlink r (upd_virq r (\<lambda>q. q\<lparr>vq_vcpu := nv\<rparr>) s)))"
    using vq_pd_unlink [OF u [OF i]] by (rule vq_upd) (simp_all add: pd_unlink_virqs)
  then show ?thesis using i u m by (simp add: hv_migrate_virq_def Let_def vq_gic vq_inject_vcpu)
qed

section \<open>Steps of the virtual interrupt controller\<close>

text \<open>
  What can happen to the interrupt lists while the machines run, in any order: the operations of
  this component on any virtual CPU, and the guest, which acknowledges and ends interrupts in the
  list registers and so changes the registers.
\<close>

inductive vgic_step :: "hv_state \<Rightarrow> hv_state \<Rightarrow> bool" where
  Inject: "vgic_step s (fst (hv_inject_virq vm v virq s))"
| Migrate: "vgic_step s (fst (hv_migrate_virq ov nv r s))"
| Enable: "vgic_step s (hv_virq_enable r b s)"
| ClearPending: "vgic_step s (hv_virq_cpending r s)"
| Flush: "vgic_step s (hv_flush_queued_virqs v s)"
| Sync: "vgic_step s (hv_sync_irq_from_lrs v s)"
| Cleanup: "vgic_step s (hv_vcpu_irq_cleanup v s)"
| Guest: "vgic_step s (s\<lparr>regs := rg\<rparr>)"

lemma vgic_step_inv: "vgic_step s s' \<Longrightarrow> vq_inv s \<Longrightarrow> vq_inv s'"
proof (induction rule: vgic_step.induct)
  case (Flush s v)
  then show ?case by (simp add: hv_flush_queued_virqs_def vq_flush_loop)
next
  case (Guest s rg)
  then show ?case by (rule vq_hw) (simp_all add: redist_def fun_eq_iff)
qed (auto intro: vq_inject vq_migrate vq_enable vq_cpending vq_sync vq_cleanup)

section \<open>Properties\<close>

text \<open>
  C10. However the operations of the virtual interrupt controller and the guest interleave, the interrupt lists stay
  well formed: an interrupt is on the pending list of at most one virtual CPU and on the
  list-register list of at most one, once, its node says which, and one on a pending list is marked queued.
\<close>

theorem vgic_lists_invariant:
  assumes "vgic_step\<^sup>*\<^sup>* s s'" "vq_inv s"
  shows "vq_inv s'"
  using assms by (induction rule: rtranclp_induct) (auto intro: vgic_step_inv)

theorem vgic_lists_invariant_witness:
  "vq_inv (hv_sync_irq_from_lrs 1 (hv_flush_queued_virqs 1 queue_ex))"
proof (rule vgic_lists_invariant [OF _ queue_ex_inv])
  have "vgic_step queue_ex (hv_flush_queued_virqs 1 queue_ex)" by (rule Flush)
  moreover have "vgic_step (hv_flush_queued_virqs 1 queue_ex) (hv_sync_irq_from_lrs 1 (hv_flush_queued_virqs 1 queue_ex))"
    by (rule Sync)
  ultimately show "vgic_step\<^sup>*\<^sup>* queue_ex (hv_sync_irq_from_lrs 1 (hv_flush_queued_virqs 1 queue_ex))" by simp
qed

section \<open>From a physical interrupt to the guest\<close>

lemma insert_empty:
  assumes "pd_node (virqs s r) = None" "pd_head (redist s v) = []"
  shows "insert_into_pdlist r v s = upd_virq r (\<lambda>q. q\<lparr>pd_node := Some v\<rparr>)
     (upd_redist v (\<lambda>d. d\<lparr>pd_head := [r]\<rparr>) (upd_virq r (\<lambda>q. q\<lparr>pdq := True\<rparr>) s))"
  using assms by (simp add: insert_into_pdlist_def Let_def)

lemma upd_redist_vcpu [simp]:
  "status (vcpus (upd_redist v f s) w) = status (vcpus s w)" "vflags (vcpus (upd_redist v f s) w) = vflags (vcpus s w)"
  "is_inited (vcpus (upd_redist v f s) w) = is_inited (vcpus s w)" "vcpu_data (upd_redist v f s) = vcpu_data s"
  "curr_cpu (upd_redist v f s) = curr_cpu s"
  by (simp_all add: upd_redist_def upd_vcpu_def)

lemma upd_virq_current [simp]: "current_vcpu (upd_virq r f s) = current_vcpu s" "current_vcpu (upd_redist v g s) = current_vcpu s"
  by (simp_all add: current_vcpu_def upd_virq_def)

text \<open>An interrupt that a virtual CPU can take: enabled, backed by a physical interrupt, in no list.\<close>

definition idle_hw_irq :: "vgic_irq \<Rightarrow> bool" where
  "idle_hw_irq q \<longleftrightarrow> enable q \<and> hwintid q \<noteq> 0 \<and> \<not> pdq q \<and> pd_node q = None \<and> lr_node q = None"

definition vcpu_takes_irqs :: "hv_state \<Rightarrow> ptr \<Rightarrow> bool" where
  "vcpu_takes_irqs s v \<longleftrightarrow> v \<noteq> 0 \<and> current_vcpu s = v \<and> is_inited (vcpus s v) \<and> \<not> is_vcpu_poweroff s v \<and>
     \<not> is_vcpu_lowpower s v \<and> pd_head (redist s v) = []"

lemma inject_current_empty:
  assumes "idle_hw_irq (virqs s r)" "vcpu_takes_irqs s v"
  shows "hv_vcpu_inject_virq v r s = (insert_into_pdlist r v s, 0)"
  using assms
  by (auto simp: hv_vcpu_inject_virq_def idle_hw_irq_def vcpu_takes_irqs_def insert_empty is_vcpu_poweroff_def
      is_vcpu_running_def is_vcpu_lowpower_def Let_def)

lemma flush_single:
  assumes "pd_head (redist s v) = [r]" "hwintid (virqs s r) \<noteq> 0" "lr_node (virqs s r) = None"
    "pd_node (virqs s r) = Some v" "unat (vgic_get_lr s) < 16"
  shows "lrs (hv_flush_queued_virqs v s) = (lrs s)(unat (vgic_get_lr s) := lr_val (virqs s r)) \<and>
     pd_head (redist (hv_flush_queued_virqs v s) v) = [] \<and> lr_head (redist (hv_flush_queued_virqs v s) v) = lr_head (redist s v) @ [r]"
proof -
  from flush_hw_step [OF assms(2-5)] obtain s' where "flush_one v r s = (s', True)"
    "lrs s' = (lrs s)(unat (vgic_get_lr s) := lr_val (virqs s r))"
    "pd_head (redist s' v) = remove1 r (pd_head (redist s v))" "lr_head (redist s' v) = lr_head (redist s v) @ [r]" by metis
  with assms(1) show ?thesis by (simp add: hv_flush_queued_virqs_def)
qed

lemma get_lr_cong: "lrs s' = lrs s \<Longrightarrow> plat s' = plat s \<Longrightarrow> vinfo s' = vinfo s \<Longrightarrow> vgic_get_lr s' = vgic_get_lr s"
  by (simp add: vgic_get_lr_def read_elrsr_def)

lemma lr_val_unlinked [simp]: "lr_val (q\<lparr>pdq := b, pd_node := x\<rparr>) = lr_val q"
  by (simp add: lr_val_def)


definition deliver_ex :: hv_state where
  "deliver_ex = state0\<lparr>vinfo := \<lparr>vi_lr_nr = 4, vi_pribits = 5\<rparr>, vcpu_data := (\<lambda>_. 0x200),
     irq2virq := (\<lambda>_. \<lparr>vif_vm = 0x300, vif_virq = 40, vif_vcpu = 0\<rparr>),
     virqs := (\<lambda>_. zero_virq\<lparr>intid := 40, hwintid := 33, enable := True, lr := 0xff, vq_vcpu := 0x200\<rparr>),
     vcpus := (\<lambda>_. zero_vcpu\<lparr>is_inited := True, status := VCPU_READY, vcpu_vm := 0x300\<rparr>),
     vms := (\<lambda>_. zero_vm\<lparr>vm_vgic := zero_vgic\<lparr>vg_dist := zero_dist\<lparr>spi_num := 64\<rparr>\<rparr>\<rparr>)\<rparr>"


section \<open>Interrupts that get lost\<close>

text \<open>
  An interrupt can be lost. When the pending list is not empty and no queued interrupt has a smaller
  priority number, as is the case when all have the default, the injection reports success and marks
  the interrupt as queued, but it is on no list; every later injection finds the mark, reports success
  again and does nothing.
\<close>

theorem hv_inject_virq_loses:
  fixes s v r
  defines "s' \<equiv> fst (hv_vcpu_inject_virq v r s)"
  assumes "enable (virqs s r)" "\<not> is_vcpu_poweroff s v" "\<not> is_vcpu_running s v" "\<not> is_vcpu_lowpower s v" "\<not> pdq (virqs s r)"
    and "pd_node (virqs s r) = None" "pd_head (redist s v) \<noteq> []"
    and "\<forall>x\<in>set (pd_head (redist s v)). priority (virqs s r) \<le> priority (virqs s x)"
  shows "snd (hv_vcpu_inject_virq v r s) = 0 \<and> pd_node (virqs s' r) = None \<and> (\<forall>w. pd_head (redist s' w) = pd_head (redist s w)) \<and>
     lrs s' = lrs s \<and> hv_vcpu_inject_virq v r s' = (s', 0)"
proof -
  let ?s = "upd_virq r (\<lambda>q. q\<lparr>pdq := True\<rparr>) s"
  have "insert_before (\<lambda>x. priority (virqs ?s x)) r (pd_head (redist s v)) = None"
    using assms(9) by (intro insert_before_none) auto
  then have i: "insert_into_pdlist r v s = ?s"
    using assms(7,8) by (simp add: insert_into_pdlist_def Let_def del: upd_virq_frame(1))
  have s: "hv_vcpu_inject_virq v r s = (?s, 0)"
    using assms by (simp add: hv_vcpu_inject_virq_def i is_vcpu_running_def is_vcpu_lowpower_def)
  moreover have "hv_vcpu_inject_virq v r ?s = (?s, 0)"
    using assms by (simp add: hv_vcpu_inject_virq_def is_vcpu_poweroff_def)
  ultimately show ?thesis using assms(7) by (simp add: s'_def)
qed

text \<open>Two interrupts of the default priority for one virtual CPU, the first of them queued.\<close>

definition lost_ex :: hv_state where
  "lost_ex = deliver_ex\<lparr>virqs := (\<lambda>_. zero_virq\<lparr>enable := True, priority := 100\<rparr>)(Spi 0x300 8 := zero_virq\<lparr>enable := True, priority := 100, pdq := True, pd_node := Some 0x200\<rparr>),
     vcpus := (vcpus deliver_ex)(0x200 := (vcpus deliver_ex 0x200)\<lparr>arch := (arch zero_vcpu)\<lparr>av_vgic := zero_redist\<lparr>pd_head := [Spi 0x300 8]\<rparr>\<rparr>\<rparr>)\<rparr>"

theorem hv_inject_virq_loses_witness:
  "pd_head (redist (fst (hv_vcpu_inject_virq 0x200 (Spi 0x300 9) lost_ex)) 0x200) = [Spi 0x300 8] \<and>
     snd (hv_vcpu_inject_virq 0x200 (Spi 0x300 9) lost_ex) = 0"
  using hv_inject_virq_loses [of lost_ex "Spi 0x300 9" "0x200"]
  by (simp add: lost_ex_def deliver_ex_def redist_def is_vcpu_poweroff_def is_vcpu_running_def is_vcpu_lowpower_def)
     (simp add: zero_defs)

lemma lr_unlink_fold:
  "virqs (fold lr_unlink rs s) x = (if x \<in> set rs then (virqs s x)\<lparr>lr_node := None\<rparr> else virqs s x)"
  "pd_head (redist (fold lr_unlink rs s) v) = pd_head (redist s v)"
proof -
  have 1: "virqs (lr_unlink r s) x = (if x = r then (virqs s r)\<lparr>lr_node := None\<rparr> else virqs s x)" for r s
    by (auto simp: lr_unlink_def split: option.split)
  show "virqs (fold lr_unlink rs s) x = (if x \<in> set rs then (virqs s x)\<lparr>lr_node := None\<rparr> else virqs s x)"
    by (induction rs arbitrary: s) (auto simp: 1)
  have 2: "pd_head (redist (lr_unlink r s) v) = pd_head (redist s v)" for r s
    by (simp add: lr_unlink_def split: option.split)
  show "pd_head (redist (fold lr_unlink rs s) v) = pd_head (redist s v)"
    by (induction rs arbitrary: s) (simp_all add: 2)
qed

lemma pd_cleanup_fold:
  "virqs (fold pd_cleanup rs s) x = (if x \<in> set rs then (virqs s x)\<lparr>pd_node := None\<rparr> else virqs s x)"
proof -
  have "virqs (pd_cleanup r s) x = (if x = r then (virqs s r)\<lparr>pd_node := None\<rparr> else virqs s x)" for r s
    by (simp add: pd_cleanup_def Let_def pd_unlink_virqs)
  then show ?thesis by (induction rs arbitrary: s) auto
qed

lemma cleanup_virqs:
  "virqs (hv_vcpu_irq_cleanup v s) r =
     (let q = if r \<in> set (lr_head (redist s v)) then (virqs s r)\<lparr>lr_node := None\<rparr> else virqs s r
      in if r \<in> set (pd_head (redist s v)) then q\<lparr>pd_node := None\<rparr> else q)"
  by (simp add: hv_vcpu_irq_cleanup_def Let_def pd_cleanup_fold lr_unlink_fold)

text \<open>
  Powering off a virtual CPU empties its pending list but leaves the mark \<^verbatim>\<open>pdq\<close> on the interrupts that
  were queued: a shared interrupt that was pending then is, from then on, ignored by every injection,
  to whichever virtual CPU, as long as it is enabled.
\<close>

theorem cleanup_leaves_pdq:
  fixes s v
  defines "s' \<equiv> hv_vcpu_irq_cleanup v s"
  assumes "vq_inv s" "r \<in> set (pd_head (redist s v))" "enable (virqs s r)" "\<not> is_vcpu_poweroff s' w"
  shows "pd_node (virqs s' r) = None \<and> hv_vcpu_inject_virq w r s' = (s', 0)"
proof -
  have "pdq (virqs s r)" using assms unfolding vq_inv_def by blast
  moreover have "pd_node (virqs s' r) = None \<and> pdq (virqs s' r) = pdq (virqs s r) \<and> enable (virqs s' r) = enable (virqs s r)"
    using assms(3) by (simp add: s'_def cleanup_virqs)
  ultimately show ?thesis using assms(4,5) by (simp add: hv_vcpu_inject_virq_def)
qed

theorem cleanup_leaves_pdq_witness:
  "hv_vcpu_inject_virq 0x300 (Spi 1 0) (hv_vcpu_irq_cleanup 1 queue_ex) = (hv_vcpu_irq_cleanup 1 queue_ex, 0)"
proof -
  have "\<not> is_vcpu_poweroff (hv_vcpu_irq_cleanup 1 queue_ex) 0x300"
    by (simp add: is_vcpu_poweroff_def cleanup_vcpu_fields) (simp add: queue_ex_def zero_vcpu_def)
  then show ?thesis using cleanup_leaves_pdq [OF queue_ex_inv, of "Spi 1 0" 1 "0x300"] by simp
qed

text \<open>
  A hardware interrupt that is in a list register and not on a pending list is moved to another virtual
  CPU at once: its physical routing changes although the guest has not ended it, and no migration is
  recorded. The comment asks to wait for the end of the interrupt, but that branch is behind the test
  for a pending-list node, which such an interrupt does not have.
\<close>

theorem hv_migrate_virq_in_lr_at_once:
  assumes "hwintid (virqs s r) \<noteq> 0" "\<not> migrate (virqs s r)" "pd_node (virqs s r) = None" "lr_node (virqs s r) = Some ov"
  shows "\<exists>s'. hv_migrate_virq ov nv r s = (s', 0) \<and> \<not> migrate (virqs s' r) \<and> vq_vcpu (virqs s' r) = nv \<and>
     gic_log s' = gic_log s @ [W64 (GICD_IROUTER (unat (hwintid (virqs s r)))) (cpu_id_map s (nat (hv_vcpu_cpu_id s nv)))]"
proof -
  let ?s' = "upd_virq r (\<lambda>q. q\<lparr>vq_vcpu := nv\<rparr>) (gic_set_affinity (unat (hwintid (virqs s r))) (nat (hv_vcpu_cpu_id s nv)) False s)"
  have "hv_migrate_virq ov nv r s = (?s', 0)" using assms by (simp add: hv_migrate_virq_def)
  then show ?thesis using assms
    by (intro exI [of _ ?s'] conjI) (simp_all add: gic_set_affinity_def Let_def gic_put_def upd_virq_def)
qed

theorem hv_migrate_virq_in_lr_at_once_witness:
  "\<exists>s'. hv_migrate_virq 1 0x200 (Spi 1 3) queue_ex = (s', 0) \<and> gic_log s' = [W64 (GICD_IROUTER 35) 0]"
proof -
  have "gic_log queue_ex = []" "cpu_id_map queue_ex n = 0" for n by (simp_all add: queue_ex_def zero_defs)
  then show ?thesis using hv_migrate_virq_in_lr_at_once [of queue_ex "Spi 1 3" 1 "0x200"] by (auto simp: zero_virq_def)
qed

end
