(* ===== verification/Vgic_Mmio.thy ===== *)
theory Vgic_Mmio
  imports Vgic_Inject
begin

text \<open>
  The registers of the virtual distributor and redistributors as the guest sees them,
  \<^verbatim>\<open>hv/arch/armv8a/vgic_mmio.c\<close>: a register set is read or written through the descriptors of the
  interrupts it covers, one bit, two bits or a byte each. The software generated interrupts
  of a guest are here too. The switch over the offset of an access is a chain of tests in its order.
\<close>

section \<open>Groups of interrupts\<close>

definition get_irq_no :: "u32 \<Rightarrow> u32 \<Rightarrow> nat \<Rightarrow> u32" where
  "get_irq_no off base bits = push_bit (bits - 2) (off - base)"

definition vq :: "hv_state \<Rightarrow> ptr \<Rightarrow> u32 \<Rightarrow> virq_ref option" where
  "vq s v irq = get_virq s (vcpu_vm (vcpus s v)) v irq"

text \<open>The loop over the interrupts of a register: the value collected, or the state threaded through.\<close>

definition collect :: "nat \<Rightarrow> (nat \<Rightarrow> virq_ref \<Rightarrow> u32) \<Rightarrow> hv_state \<Rightarrow> ptr \<Rightarrow> u32 \<Rightarrow> u32" where
  "collect n f s v index =
     fold (\<lambda>i value. case vq s v (index + of_nat i) of None \<Rightarrow> value | Some r \<Rightarrow> value OR f i r) [0..<n] 0"

definition for_each :: "nat \<Rightarrow> (nat \<Rightarrow> virq_ref \<Rightarrow> hv_state \<Rightarrow> hv_state) \<Rightarrow> ptr \<Rightarrow> u32 \<Rightarrow> hv_state \<Rightarrow> hv_state" where
  "for_each n f v index s =
     fold (\<lambda>i s. case vq s v (index + of_nat i) of None \<Rightarrow> s | Some r \<Rightarrow> f i r s) [0..<n] s"

section \<open>Register sets\<close>

definition igroupr_read :: "hv_state \<Rightarrow> ptr \<Rightarrow> u32 \<Rightarrow> u32" where
  "igroupr_read s v index = collect 32 (\<lambda>i r. push_bit i (of_bool (group1 (virqs s r)))) s v index"

definition igroupr_write :: "ptr \<Rightarrow> u32 \<Rightarrow> u32 \<Rightarrow> hv_state \<Rightarrow> hv_state" where
  "igroupr_write v index value s =
     for_each 32 (\<lambda>i r s.
       let group = bit value i
       in if group1 (virqs s r) \<noteq> group then upd_virq r (\<lambda>q. q\<lparr>group1 := group\<rparr>) s else s) v index s"

definition isenabler_read :: "hv_state \<Rightarrow> ptr \<Rightarrow> u32 \<Rightarrow> u32" where
  "isenabler_read s v index = collect 32 (\<lambda>i r. push_bit i (of_bool (enable (virqs s r)))) s v index"

definition isenabler_write :: "ptr \<Rightarrow> u32 \<Rightarrow> u32 \<Rightarrow> hv_state \<Rightarrow> hv_state" where
  "isenabler_write v index value s =
     for_each 32 (\<lambda>i r s.
       if \<not> bit value i then s
       else if \<not> enable (virqs s r) then hv_virq_enable r True (upd_virq r (\<lambda>q. q\<lparr>enable := True\<rparr>) s)
       else s) v index s"

definition icenabler_read :: "hv_state \<Rightarrow> ptr \<Rightarrow> u32 \<Rightarrow> u32" where
  "icenabler_read s v index = collect 32 (\<lambda>i r. push_bit i (of_bool (\<not> enable (virqs s r)))) s v index"

definition icenabler_write :: "ptr \<Rightarrow> u32 \<Rightarrow> u32 \<Rightarrow> hv_state \<Rightarrow> hv_state" where
  "icenabler_write v index value s =
     for_each 32 (\<lambda>i r s.
       if \<not> bit value i then s
       else if enable (virqs s r) then hv_virq_enable r False (upd_virq r (\<lambda>q. q\<lparr>enable := False\<rparr>) s)
       else s) v index s"

definition ispendr_write :: "ptr \<Rightarrow> u32 \<Rightarrow> u32 \<Rightarrow> hv_state \<Rightarrow> hv_state" where
  "ispendr_write v index value s =
     for_each 32 (\<lambda>i r s.
       let irq = index + of_nat i
       in if \<not> bit value i \<or> irq < 16 then s
          else if \<not> enable (virqs s r) \<or> is_virq_pending s r then s
          else if hwintid (virqs s r) \<noteq> 0 then gic_trigger_interrupt (unat (hwintid (virqs s r))) s
          else fst (hv_inject_virq (vcpu_vm (vcpus s v)) v irq s)) v index s"

text \<open>
  The interrupt number of the list register is compared before it is read: \<open>junk i\<close> is what the
  uninitialised \<^verbatim>\<open>l_val.virq\<close> holds in iteration \<open>i\<close>.
\<close>

definition ispendr_read :: "(nat \<Rightarrow> u32) \<Rightarrow> hv_state \<Rightarrow> ptr \<Rightarrow> u32 \<Rightarrow> u32" where
  "ispendr_read junk s v index =
     collect 32 (\<lambda>i r.
       let q = virqs s r
       in push_bit i (of_bool (
            if hwintid q \<noteq> 0 then
              (if lr q \<noteq> LR_INDEX_INVALID \<and> intid q = junk i
               then gl_status (vgic_read_lr (unat (lr q)) s) AND 1 \<noteq> 0
               else pdq q \<or> gic_read_ispendr (unat (hwintid q)) s \<noteq> 0)
            else is_virq_pending s r))) s v index"

definition icpendr_write :: "ptr \<Rightarrow> u32 \<Rightarrow> u32 \<Rightarrow> hv_state \<Rightarrow> hv_state" where
  "icpendr_write v index value s =
     for_each 32 (\<lambda>i r s.
       if \<not> bit value i \<or> index + of_nat i < 16 then s
       else if \<not> enable (virqs s r) then s
       else
         let s = hv_virq_cpending r s
         in if hwintid (virqs s r) \<noteq> 0 then gic_clear_pending (unat (hwintid (virqs s r))) s else s) v index s"

definition icpendr_read :: "(nat \<Rightarrow> u32) \<Rightarrow> hv_state \<Rightarrow> ptr \<Rightarrow> u32 \<Rightarrow> u32" where
  "icpendr_read junk s v index = ispendr_read junk s v index"

definition ipriority_read :: "hv_state \<Rightarrow> ptr \<Rightarrow> u32 \<Rightarrow> int \<Rightarrow> u32" where
  "ipriority_read s v index len =
     (if len \<noteq> 1 \<and> len \<noteq> 4 then 0
      else collect (nat len) (\<lambda>i r. push_bit (8 * i) (ucast (priority (virqs s r)))) s v index)"

text \<open>\<^verbatim>\<open>pribits\<close> is 0 and stays 0; \<^verbatim>\<open>value\<close> moves on only past an interrupt that does not exist.\<close>

definition ipriority_one :: "ptr \<Rightarrow> u32 \<Rightarrow> nat \<Rightarrow> hv_state \<times> u32 \<Rightarrow> hv_state \<times> u32" where
  "ipriority_one v index i sv =
     (case sv of (s, value) \<Rightarrow>
        let pribits = (0 :: nat)
        in case vq s v (index + of_nat i) of
             None \<Rightarrow> (s, drop_bit 8 value)
           | Some r \<Rightarrow>
               let pri = ucast (value AND push_bit (8 - pribits) (push_bit pribits 1 - 1))
               in (upd_virq r (\<lambda>q. q\<lparr>priority := pri\<rparr>) s, value))"

definition ipriority_write :: "ptr \<Rightarrow> u32 \<Rightarrow> u32 \<Rightarrow> int \<Rightarrow> hv_state \<Rightarrow> hv_state" where
  "ipriority_write v index value len s = fst (fold (ipriority_one v index) [0..<nat len] (s, value))"

definition icfgr_read :: "hv_state \<Rightarrow> ptr \<Rightarrow> u32 \<Rightarrow> u32" where
  "icfgr_read s v index = collect 16 (\<lambda>i r. push_bit (2 * i + 1) (of_bool (vq_type (virqs s r)))) s v index"

definition icfgr_write :: "ptr \<Rightarrow> u32 \<Rightarrow> u32 \<Rightarrow> hv_state \<Rightarrow> hv_state" where
  "icfgr_write v index value s =
     for_each 16 (\<lambda>i r. upd_virq r (\<lambda>q. q\<lparr>vq_type := bit value (2 * i + 1)\<rparr>)) v index s"

definition irouter_read :: "hv_state \<Rightarrow> ptr \<Rightarrow> u32 \<Rightarrow> u32" where
  "irouter_read s v index = (case vq s v index of None \<Rightarrow> 0 | Some r \<Rightarrow> ucast (iroute (virqs s r)))"

definition irouter_write :: "ptr \<Rightarrow> u32 \<Rightarrow> u64 \<Rightarrow> hv_state \<Rightarrow> hv_state" where
  "irouter_write v index value s =
     (case vq s v index of
        None \<Rightarrow> s
      | Some r \<Rightarrow>
          if iroute (virqs s r) = value then s
          else
            let cpu_id = (if value AND scast (push_bit 31 1 :: u32) \<noteq> 0 then 0 else mpidr_to_cpu_id value);
                n_vcpu = hv_get_vcpu s (vcpu_vm (vcpus s v)) (int (unat cpu_id))
            in if n_vcpu = 0 then s
               else if n_vcpu \<noteq> vq_vcpu (virqs s r) then
                 (case hv_migrate_virq (vq_vcpu (virqs s r)) n_vcpu r s of (s, ret) \<Rightarrow>
                    if 0 > ret then upd_virq r (\<lambda>q. q\<lparr>iroute := value\<rparr>) s else s)
               else s)"

section \<open>The distributor\<close>

definition init_gicd_reg :: "ptr \<Rightarrow> hv_state \<Rightarrow> hv_state" where
  "init_gicd_reg vm s =
     upd_dist vm (\<lambda>d. d\<lparr>gicd_typer := drop_bit 5 (spi_num d + 1) OR of_int (inf_vcpu_num (info (vms s vm)) - 1),
       gicd_typer2 := 0, gicd_iidr := read_gicd_iidr s\<rparr>) s"

text \<open>Storing the low 1 or 4 bytes of \<open>value\<close> through the data pointer.\<close>

definition store_data :: "int \<Rightarrow> u64 \<Rightarrow> u64 \<Rightarrow> u64" where
  "store_data len data value =
     (if len = 4 then set_bitfield data 0 32 value else if len = 1 then set_bitfield data 0 8 value
      else if len = 8 then value else data)"

definition dist_mmio_read :: "(nat \<Rightarrow> u32) \<Rightarrow> ptr \<Rightarrow> ptr \<Rightarrow> paddr \<Rightarrow> int \<Rightarrow> u64 \<Rightarrow> hv_state \<Rightarrow> int \<times> u64" where
  "dist_mmio_read junk v vm gpa len data s =
     (let vdist = hv_get_dist s vm;
          off = ucast (gpa - dist_base vdist) :: u32;
          within = (\<lambda>a b. a \<le> off \<and> off \<le> b);
          value =
            (if off = 0 then gicd_ctrl vdist
             else if off = 4 then gicd_typer vdist
             else if off = 8 then gicd_iidr vdist
             else if off = 0xc then gicd_typer2 vdist
             else if within 0x80 0xfc then igroupr_read s v (get_irq_no off 0x80 5)
             else if within 0x100 0x17c then isenabler_read s v (get_irq_no off 0x100 5)
             else if within 0x180 0x1fc then icenabler_read s v (get_irq_no off 0x180 5)
             else if within 0x200 0x27c then ispendr_read junk s v (get_irq_no off 0x200 5)
             else if within 0x280 0x2fc then ispendr_read junk s v (get_irq_no off 0x280 5)
             else if within 0x400 0x7f8 then ipriority_read s v (get_irq_no off 0x280 2) len
             else if within 0xc00 0xcfc then icfgr_read s v (get_irq_no off 0xc00 4)
             else if within 0x6100 0x7fd8 then irouter_read s v (drop_bit 3 (off - 0x6100))
             else 0)
      in (1, if len = 4 \<or> len = 1 then store_data len data (ucast value) else data))"

definition dist_mmio_write :: "ptr \<Rightarrow> ptr \<Rightarrow> paddr \<Rightarrow> int \<Rightarrow> u64 \<Rightarrow> hv_state \<Rightarrow> hv_state \<times> int" where
  "dist_mmio_write v vm gpa len data s =
     (let vdist = hv_get_dist s vm;
          off = ucast (gpa - dist_base vdist) :: u32;
          within = (\<lambda>a b. a \<le> off \<and> off \<le> b);
          d = ucast data :: u32
      in (if off = 0 then upd_dist vm (\<lambda>x. x\<lparr>gicd_ctrl := d AND NOT 0x80000000\<rparr>) s
          else if off = 4 \<or> off = 8 \<or> off = 0xc \<or> off = 0x10 then s
          else if within 0x80 0xfc then igroupr_write v (get_irq_no off 0x80 5) d s
          else if within 0x100 0x17c then isenabler_write v (get_irq_no off 0x100 5) d s
          else if within 0x180 0x1fc then icenabler_write v (get_irq_no off 0x180 5) d s
          else if within 0x200 0x27c then ispendr_write v (get_irq_no off 0x200 5) d s
          else if within 0x280 0x2fc then icpendr_write v (get_irq_no off 0x280 5) d s
          else if within 0x400 0x7f8 then ipriority_write v (get_irq_no off 0x400 2) d len s
          else if within 0xc00 0xcfc then icfgr_write v (get_irq_no off 0xc00 4) d s
          else if within 0x6100 0x7fd8 then irouter_write v (drop_bit 3 (off - 0x6100)) data s
          else s, 1))"

section \<open>The redistributors\<close>

definition gicr_iidr_read :: "ptr \<Rightarrow> hv_state \<Rightarrow> u64" where
  "gicr_iidr_read v s =
     (let c = vcpus s v;
          iidr = set_bitfield 0 32 32 (ucast (cpu_id_to_mpidr (vcpu_id c)));
          iidr = set_bitfield iidr 27 5 0;
          iidr = set_bitfield iidr 8 16 (ucast (vcpu_id c))
      in if int (unat (vcpu_id c)) = vcpu_num (vms s (vcpu_vm c)) - 1 then set_bitfield iidr 4 1 1 else iidr)"

definition redist_rd_mmio_read :: "ptr \<Rightarrow> int \<Rightarrow> u64 \<Rightarrow> u32 \<Rightarrow> hv_state \<Rightarrow> int \<times> u64" where
  "redist_rd_mmio_read v len data off s =
     (let value = (if off = 4 then ucast (read_gicr_iidr s) else if off = 8 then gicr_iidr_read v s else 0)
      in if len = 4 \<or> len = 8 then (1, store_data len data value) else (0, data))"

definition redist_rd_mmio_write :: "ptr \<Rightarrow> int \<Rightarrow> u64 \<Rightarrow> u32 \<Rightarrow> hv_state \<Rightarrow> hv_state \<times> int" where
  "redist_rd_mmio_write v len data off s = (s, 1)"

definition redist_sgi_mmio_read :: "(nat \<Rightarrow> u32) \<Rightarrow> ptr \<Rightarrow> int \<Rightarrow> u64 \<Rightarrow> u32 \<Rightarrow> hv_state \<Rightarrow> int \<times> u64" where
  "redist_sgi_mmio_read junk v len data off s =
     (let value =
            (if off = 0x80 then igroupr_read s v 0
             else if off = 0x100 then isenabler_read s v 0
             else if off = 0x180 then icenabler_read s v 0
             else if off = 0x200 then ispendr_read junk s v 0
             else if off = 0x280 then icpendr_read junk s v 0
             else if 0x400 \<le> off \<and> off \<le> 0x41c then ipriority_read s v 0 len
             else if off = 0xc00 then icfgr_read s v 0
             else if off = 0xc04 then icfgr_read s v 16
             else 0)
      in if len = 4 \<or> len = 1 \<or> len = 8 then (1, store_data len data (ucast value)) else (0, data))"

definition redist_sgi_mmio_write :: "ptr \<Rightarrow> int \<Rightarrow> u64 \<Rightarrow> u32 \<Rightarrow> hv_state \<Rightarrow> hv_state \<times> int" where
  "redist_sgi_mmio_write v len data off s =
     (let d = ucast data :: u32
      in (if off = 0x80 then igroupr_write v 0 d s
          else if off = 0x100 then isenabler_write v 0 d s
          else if off = 0x180 then icenabler_write v 0 d s
          else if off = 0x200 then ispendr_write v 0 d s
          else if off = 0x280 then icpendr_write v 0 d s
          else if 0x400 \<le> off \<and> off \<le> 0x41c then ipriority_write v 0 d len s
          else if off = 0xc00 then icfgr_write v 0 d s
          else if off = 0xc04 then icfgr_write v 16 d s
          else s, 1))"

definition redist_mmio_read :: "(nat \<Rightarrow> u32) \<Rightarrow> ptr \<Rightarrow> paddr \<Rightarrow> int \<Rightarrow> u64 \<Rightarrow> hv_state \<Rightarrow> int \<times> u64" where
  "redist_mmio_read junk v gpa len data s =
     (let off = ucast (gpa - rd_base (redist s v)) :: u32
      in if off < 0x10000 then redist_rd_mmio_read v len data off s
         else redist_sgi_mmio_read junk v len data (off - 0x10000) s)"

definition redist_mmio_write :: "ptr \<Rightarrow> paddr \<Rightarrow> int \<Rightarrow> u64 \<Rightarrow> hv_state \<Rightarrow> hv_state \<times> int" where
  "redist_mmio_write v gpa len data s =
     (let off = ucast (gpa - rd_base (redist s v)) :: u32
      in if off < 0x10000 then redist_rd_mmio_write v len data off s
         else redist_sgi_mmio_write v len data (off - 0x10000) s)"

section \<open>Handlers of the MMIO space\<close>

text \<open>
  \<^verbatim>\<open>dist_mops\<close> and \<^verbatim>\<open>redist_mops\<close>, as the call through \<^verbatim>\<open>mmio->mops\<close> reaches them. The argument registered for the
  distributor is its address, which stands for the machine it belongs to.
\<close>

definition vgic_mmio_read :: "(nat \<Rightarrow> u32) \<Rightarrow> hv_state \<Rightarrow> mops \<Rightarrow> paddr \<Rightarrow> int \<Rightarrow> ptr \<Rightarrow> u64 \<Rightarrow> hv_state \<times> int \<times> u64" where
  "vgic_mmio_read junk s m gpa len arg data =
     (s, case m of Dist_mops \<Rightarrow> dist_mmio_read junk (current_vcpu s) arg gpa len data s
         | Redist_mops \<Rightarrow> redist_mmio_read junk arg gpa len data s)"

definition vgic_mmio_write :: "hv_state \<Rightarrow> mops \<Rightarrow> paddr \<Rightarrow> int \<Rightarrow> ptr \<Rightarrow> u64 \<Rightarrow> hv_state \<times> int" where
  "vgic_mmio_write s m gpa len arg data =
     (case m of Dist_mops \<Rightarrow> dist_mmio_write (current_vcpu s) arg gpa len data s
      | Redist_mops \<Rightarrow> redist_mmio_write arg gpa len data s)"

definition hv_dist_mmio_init :: "bool \<Rightarrow> ptr \<Rightarrow> hv_state \<Rightarrow> (hv_state \<times> int) option" where
  "hv_dist_mmio_init got vm s =
     map_option (\<lambda>(m, ret). (upd_vm vm (\<lambda>x. x\<lparr>vm_mmio := m\<rparr>) s, ret))
       (hv_mmio_register got (vm_mmio (vms s vm)) (dist_base (hv_get_dist s vm)) (GICR_FRAME * 2) Dist_mops vm)"

definition hv_redist_mmio_init :: "bool \<Rightarrow> ptr \<Rightarrow> hv_state \<Rightarrow> (hv_state \<times> int) option" where
  "hv_redist_mmio_init got v s =
     (let vm = vcpu_vm (vcpus s v)
      in map_option (\<lambda>(m, ret). (upd_vm vm (\<lambda>x. x\<lparr>vm_mmio := m\<rparr>) s, ret))
           (hv_mmio_register got (vm_mmio (vms s vm)) (rd_base (redist s v)) (ucast (rd_len (redist s v))) Redist_mops v))"

section \<open>Software generated interrupts\<close>

definition gic_sgi_emulation :: "u64 \<Rightarrow> hv_state \<Rightarrow> hv_state" where
  "gic_sgi_emulation value s =
     (let v = current_vcpu s
      in if v = 0 then s
         else
           let vm = vcpu_vm (vcpus s v);
               sgi = ucast (bitfield value 24 4) :: u32;
               mpidr = push_bit 8 (bitfield value 16 8)
           in if bit value 40 then
                fold (\<lambda>i s.
                  let t = hv_get_vcpu s vm (int i)
                  in if v = t then s else fst (hv_inject_virq vm t sgi s)) [0..<nat (vcpu_num (vms s vm))] s
              else
                fold (\<lambda>i s.
                  if \<not> bit value i then s
                  else
                    let t = hv_get_vcpu s vm (int (unat (mpidr_to_cpu_id (mpidr OR of_nat i))))
                    in if t = 0 then s else fst (hv_inject_virq vm t sgi s)) [0..<16] s)"

section \<open>Initialisation\<close>

text \<open>
  \<open>cfg\<close> is what \<^verbatim>\<open>hv_vm_irq_cfg_get\<close> read from the device tree, with its result; \<open>got\<close> and \<open>got'\<close> are
  the outcomes of \<^verbatim>\<open>malloc\<close>.
\<close>

definition hv_vm_irq_init :: "bool \<Rightarrow> bool \<Rightarrow> vgic_cfg \<Rightarrow> ptr \<Rightarrow> hv_state \<Rightarrow> (hv_state \<times> int) option" where
  "hv_vm_irq_init got got' cfg vm s =
     (let spi_nr = get_max_spi s
      in if \<not> got then Some (s, ERR_NO_MEMORY)
         else
           let s = fold (\<lambda>i. upd_virq (Spi vm i) (\<lambda>_. zero_virq)) [0..<unat spi_nr] s;
               s = upd_vm vm (\<lambda>m. m\<lparr>vm_vgic := zero_vgic\<lparr>vg_dist := zero_dist\<lparr>spi_num := spi_nr\<rparr>\<rparr>\<rparr>) s;
               s = upd_vm vm (\<lambda>m. m\<lparr>vm_vgic := (vm_vgic m)\<lparr>vg_cfg := cfg\<rparr>\<rparr>) s;
               s = upd_dist vm (\<lambda>d. d\<lparr>dist_base := d_base cfg, dist_len := d_len cfg\<rparr>) s;
               s = init_gicd_reg vm s
           in do {
                (s, ret) \<leftarrow> hv_dist_mmio_init got' vm s;
                Some (fold (\<lambda>i. init_virq (Spi vm i) 0 0) [0..<unat spi_nr] s, ret)
              })"

definition hv_vm_irq_deinit :: "ptr \<Rightarrow> hv_state \<Rightarrow> hv_state" where
  "hv_vm_irq_deinit vm s = upd_vm vm (\<lambda>m. m\<lparr>vm_vgic := zero_vgic\<rparr>) s"

definition hv_vcpu_irq_init :: "bool \<Rightarrow> ptr \<Rightarrow> hv_state \<Rightarrow> hv_state option" where
  "hv_vcpu_irq_init got v s =
     (let c = vcpus s v;
          cfg = vg_cfg (vm_vgic (vms s (vcpu_vm c)));
          pribits = unat (vgic_get_pribits s);
          s = upd_redist v (\<lambda>_. zero_redist\<lparr>ich_hcr := 1, ich_vmcr := 2,
                rd_base := r0_base cfg + ucast (vcpu_id c * 2 * 0x10000), rd_len := 0x10000 * 2,
                sgi_base := r0_base cfg + ucast ((vcpu_id c * 2 + 1) * 0x10000),
                ap_nr := (if pribits < 5 then 1 else push_bit (pribits - 5) 1),
                rd_lr_nr := vgic_get_lr_nr s\<rparr>) s
      in do {
           (s, _) \<leftarrow> hv_redist_mmio_init got v s;
           Some (fold (\<lambda>i. init_virq (Priv v i) (of_nat i) (of_nat i)) [0..<32] s)
         })"

section \<open>Loops over a register\<close>

lemma for_each_induct:
  assumes "P s" "\<And>i r s. P s \<Longrightarrow> vq s v (index + of_nat i) = Some r \<Longrightarrow> P (f i r s)"
  shows "P (for_each n f v index s)"
proof -
  have "P (fold (\<lambda>i s. case vq s v (index + of_nat i) of None \<Rightarrow> s | Some r \<Rightarrow> f i r s) xs s)" if "P s" for xs s
    using that
  proof (induction xs arbitrary: s)
    case (Cons i xs)
    then show ?case using assms(2) by (cases "vq s v (index + of_nat i)") simp_all
  qed simp
  then show ?thesis using assms(1) by (simp add: for_each_def)
qed

section \<open>The lists stay well formed\<close>

lemma gic_more_frame [simp]:
  "virqs (gic_trigger_interrupt n s) = virqs s" "redist (gic_trigger_interrupt n s) = redist s"
  by (simp_all add: gic_trigger_interrupt_def)

lemma vq_inv_gic2: "vq_inv s \<Longrightarrow> vq_inv (gic_trigger_interrupt n s)" "vq_inv s \<Longrightarrow> vq_inv (gic_clear_pending n s)"
  by (erule vq_hw; simp)+

lemma vq_inv_flag:
  "vq_inv s \<Longrightarrow> vq_inv (upd_virq r (\<lambda>q. q\<lparr>group1 := b\<rparr>) s)" "vq_inv s \<Longrightarrow> vq_inv (upd_virq r (\<lambda>q. q\<lparr>enable := b\<rparr>) s)"
  "vq_inv s \<Longrightarrow> vq_inv (upd_virq r (\<lambda>q. q\<lparr>vq_type := b\<rparr>) s)" "vq_inv s \<Longrightarrow> vq_inv (upd_virq r (\<lambda>q. q\<lparr>priority := p\<rparr>) s)"
  "vq_inv s \<Longrightarrow> vq_inv (upd_virq r (\<lambda>q. q\<lparr>iroute := a\<rparr>) s)"
  by (erule vq_upd; simp)+

lemma vq_inv_upd_dist: "vq_inv s \<Longrightarrow> vq_inv (upd_dist vm f s)"
  by (erule vq_hw) (simp_all add: upd_dist_def upd_vm_def redist_def fun_eq_iff)

lemma ipriority_one_eq:
  "ipriority_one v index i (s, x) = (case vq s v (index + of_nat i) of None \<Rightarrow> (s, drop_bit 8 x)
     | Some r \<Rightarrow> (upd_virq r (\<lambda>q. q\<lparr>priority := 0\<rparr>) s, x))"
  by (simp add: ipriority_one_def split: option.split)

lemma ipriority_write_induct:
  assumes "P s" "\<And>i r s. P s \<Longrightarrow> vq s v (index + of_nat i) = Some r \<Longrightarrow> P (upd_virq r (\<lambda>q. q\<lparr>priority := 0\<rparr>) s)"
  shows "P (ipriority_write v index d len s)"
proof -
  have "P (fst (fold (ipriority_one v index) xs (s, x)))" if "P s" for xs s x
    using that
  proof (induction xs arbitrary: s x)
    case (Cons i xs)
    then show ?case using assms(2) by (cases "vq s v (index + of_nat i)") (simp_all add: ipriority_one_eq)
  qed simp
  then show ?thesis using assms(1) by (simp add: ipriority_write_def)
qed

lemma vq_inv_priority: "vq_inv s \<Longrightarrow> vq_inv (ipriority_write v index d len s)"
  by (rule ipriority_write_induct) (simp_all add: vq_inv_flag)

lemma vq_inv_irouter: "vq_inv s \<Longrightarrow> vq_inv (irouter_write v index value s)"
proof -
  assume i: "vq_inv s"
  show ?thesis
  proof (cases "vq s v index")
    case (Some r)
    obtain s1 ret where m: "hv_migrate_virq (vq_vcpu (virqs s r))
        (hv_get_vcpu s (vcpu_vm (vcpus s v)) (int (unat (if value AND scast (push_bit 31 1 :: u32) \<noteq> 0 then 0 else mpidr_to_cpu_id value)))) r s = (s1, ret)"
      by fastforce
    with vq_migrate [OF i] have "vq_inv s1" by (metis fst_conv)
    with i Some m show ?thesis by (simp add: irouter_write_def Let_def vq_inv_flag)
  qed (simp add: irouter_write_def i)
qed

lemma vq_inv_writes:
  assumes "vq_inv s"
  shows "vq_inv (igroupr_write v index value s)" "vq_inv (isenabler_write v index value s)"
    "vq_inv (icenabler_write v index value s)" "vq_inv (ispendr_write v index value s)"
    "vq_inv (icpendr_write v index value s)" "vq_inv (icfgr_write v index value s)"
  unfolding igroupr_write_def isenabler_write_def icenabler_write_def ispendr_write_def icpendr_write_def icfgr_write_def
  by (rule for_each_induct [where P = vq_inv, OF assms],
      simp add: Let_def vq_inv_flag vq_enable vq_inv_gic2 vq_inject vq_cpending)+

lemma vq_inv_mmio_write: "vq_inv s \<Longrightarrow> vq_inv (fst (vgic_mmio_write s m gpa len arg data))"
  by (cases m)
     (simp_all add: vgic_mmio_write_def dist_mmio_write_def redist_mmio_write_def redist_sgi_mmio_write_def
       redist_rd_mmio_write_def Let_def vq_inv_writes vq_inv_priority vq_inv_irouter vq_inv_upd_dist)

section \<open>What a guest can reach\<close>

text \<open>The interrupts of virtual CPU \<open>v\<close> of machine \<open>vm\<close>: its private ones and the shared ones of the machine.\<close>

fun own :: "ptr \<Rightarrow> ptr \<Rightarrow> virq_ref \<Rightarrow> bool" where
  "own v vm (Priv w i) \<longleftrightarrow> w = v"
| "own v vm (Spi m i) \<longleftrightarrow> m = vm"

definition confined :: "ptr \<Rightarrow> hv_state \<Rightarrow> hv_state \<Rightarrow> bool" where
  "confined v s s' \<longleftrightarrow> (\<forall>r. \<not> own v (vcpu_vm (vcpus s v)) r \<longrightarrow> virqs s' r = virqs s r) \<and>
     vcpu_vm (vcpus s' v) = vcpu_vm (vcpus s v)"

lemma confined_refl: "confined v s s"
  by (simp add: confined_def)

lemma confined_trans: "confined v s s' \<Longrightarrow> confined v s' s'' \<Longrightarrow> confined v s s''"
  by (simp add: confined_def)

lemma vq_own: "vq s v irq = Some r \<Longrightarrow> own v (vcpu_vm (vcpus s v)) r"
  by (auto simp: vq_def get_virq_def Let_def split: if_splits)

lemma vcpu_vm_wakeup: "vcpu_vm (vcpus (fst (hv_vcpu_resume v s)) w) = vcpu_vm (vcpus s w)"
proof -
  have "vcpus (thread_resume t s) = vcpus s" if "t_state (threads s t) = THREAD_READY" for t s
    using that by (simp add: thread_resume_def Let_def)
  then show ?thesis by (simp add: hv_vcpu_resume_def Let_def upd_thread_threads set_status_def upd_vcpu_def)
qed

lemma empty_event_vcpus [simp]: "vcpus (hv_empty_event n s) = vcpus s"
  using wakeup_vcpus
proof -
  have "vcpus (fst (fold (sgi_step irq) xs (s, m))) = vcpus s" for xs irq m and s :: hv_state
  proof (induction xs arbitrary: s m)
    case (Cons x xs)
    show ?case
      by (cases "sgi_step irq x (s, m)")
        (use Cons in \<open>auto simp: sgi_step_def Let_def ARM64_WRITE_ICC_def ARM64_WRITE_SYSREG_def split: if_splits prod.splits\<close>)
  qed simp
  then show ?thesis by (simp add: hv_empty_event_def arch_mp_send_ipi_def arm_gic_sgi_def Let_def)
qed

lemma upd_redist_vm [simp]: "vcpu_vm (vcpus (upd_redist v f s) w) = vcpu_vm (vcpus s w)"
  by (simp add: upd_redist_def upd_vcpu_def)

lemma insert_confined:
  "x \<noteq> r \<Longrightarrow> virqs (insert_into_pdlist r v s) x = virqs s x"
  "vcpu_vm (vcpus (insert_into_pdlist r v s) w) = vcpu_vm (vcpus s w)"
  by (auto simp: insert_into_pdlist_def Let_def split: option.split)

lemma inject_vcpu_confined:
  "x \<noteq> r \<Longrightarrow> virqs (fst (hv_vcpu_inject_virq v r s)) x = virqs s x"
  "vcpu_vm (vcpus (fst (hv_vcpu_inject_virq v r s)) w) = vcpu_vm (vcpus s w)"
proof -
  have v: "virqs (fst (hv_vcpu_resume v s)) = virqs s" "virqs (hv_empty_event n s) = virqs s" for v n s
    using vq_part_resume [of v s] vq_part_ipi [of "push_bit n 1" MP_IPI_HV_EVENT1 s]
    by (simp_all add: vq_part_def hv_empty_event_def)
  show "x \<noteq> r \<Longrightarrow> virqs (fst (hv_vcpu_inject_virq v r s)) x = virqs s x"
    "vcpu_vm (vcpus (fst (hv_vcpu_inject_virq v r s)) w) = vcpu_vm (vcpus s w)"
    by (simp_all add: hv_vcpu_inject_virq_def Let_def v insert_confined vcpu_vm_wakeup)
qed

lemma gic_vcpus [simp]:
  "vcpus (gic_set_icactiver n s) = vcpus s" "vcpus (gic_clear_pending n s) = vcpus s" "vcpus (gic_trigger_interrupt n s) = vcpus s"
  "vcpus (gic_set_enable n b s) = vcpus s" "vcpus (gic_set_affinity n c b s) = vcpus s"
  by (simp_all add: gic_set_icactiver_def gic_clear_pending_def gic_trigger_interrupt_def gic_set_enable_def
      gic_set_affinity_def gic_put_def Let_def)

lemma pd_unlink_vm [simp]: "vcpu_vm (vcpus (pd_unlink r s) w) = vcpu_vm (vcpus s w)"
  by (simp add: pd_unlink_def split: option.split)

lemma confined_own:
  assumes "own v (vcpu_vm (vcpus s v)) r" "\<And>x. x \<noteq> r \<Longrightarrow> virqs s' x = virqs s x" "vcpu_vm (vcpus s' v) = vcpu_vm (vcpus s v)"
  shows "confined v s s'"
  unfolding confined_def using assms by metis

lemma op_confined:
  "x \<noteq> r \<Longrightarrow> virqs (hv_virq_cpending r s) x = virqs s x" "vcpu_vm (vcpus (hv_virq_cpending r s) w) = vcpu_vm (vcpus s w)"
  "x \<noteq> r \<Longrightarrow> virqs (hv_virq_enable r b s) x = virqs s x" "vcpu_vm (vcpus (hv_virq_enable r b s) w) = vcpu_vm (vcpus s w)"
  "x \<noteq> r \<Longrightarrow> virqs (fst (hv_migrate_virq ov nv r s)) x = virqs s x"
  "vcpu_vm (vcpus (fst (hv_migrate_virq ov nv r s)) w) = vcpu_vm (vcpus s w)"
  by (simp_all add: hv_virq_cpending_def hv_virq_enable_def hv_migrate_virq_def Let_def pd_unlink_virqs inject_vcpu_confined)

lemma inject_confined:
  assumes "vq s v irq = Some r" "v \<noteq> 0"
  shows "confined v s (fst (hv_inject_virq (vcpu_vm (vcpus s v)) v irq s))"
proof -
  obtain s1 ret where e: "hv_vcpu_inject_virq v r s = (s1, ret)" by fastforce
  have "x \<noteq> r \<Longrightarrow> virqs s1 x = virqs s x" "vcpu_vm (vcpus s1 w) = vcpu_vm (vcpus s w)" for x w
    using inject_vcpu_confined e by (metis fst_conv)+
  with assms e vq_own [OF assms(1)] show ?thesis
    by (intro confined_own [of v s r]) (auto simp: hv_inject_virq_def vq_def Let_def)
qed

lemma writes_confined:
  assumes "v \<noteq> 0"
  shows "confined v s (igroupr_write v index x s)" "confined v s (isenabler_write v index x s)"
    "confined v s (icenabler_write v index x s)" "confined v s (ispendr_write v index x s)"
    "confined v s (icpendr_write v index x s)" "confined v s (icfgr_write v index x s)"
    "confined v s (ipriority_write v index x len s)"
proof -
  have step: "confined v s (for_each n f v index s)"
    if "\<And>i r s. vq s v (index + of_nat i) = Some r \<Longrightarrow> confined v s (f i r s)" for n f
    by (rule for_each_induct [where P = "confined v s", OF confined_refl]) (blast intro: confined_trans that)
  show "confined v s (igroupr_write v index x s)" "confined v s (isenabler_write v index x s)"
    "confined v s (icenabler_write v index x s)" "confined v s (icpendr_write v index x s)" "confined v s (icfgr_write v index x s)"
    unfolding igroupr_write_def isenabler_write_def icenabler_write_def icpendr_write_def icfgr_write_def
    by (rule step, drule vq_own, erule confined_own; simp add: Let_def op_confined)+
  show "confined v s (ispendr_write v index x s)"
    unfolding ispendr_write_def
  proof (rule step)
    fix i r s assume q: "vq s v (index + of_nat i) = Some r"
    from inject_confined [OF q assms] confined_refl [of v s] confined_own [OF vq_own [OF q], of "gic_trigger_interrupt (unat (hwintid (virqs s r))) s"]
    show "confined v s (let irq = index + of_nat i
       in if \<not> bit x i \<or> irq < 16 then s
          else if \<not> enable (virqs s r) \<or> is_virq_pending s r then s
          else if hwintid (virqs s r) \<noteq> 0 then gic_trigger_interrupt (unat (hwintid (virqs s r))) s
          else fst (hv_inject_virq (vcpu_vm (vcpus s v)) v irq s))" by (simp add: Let_def)
  qed
  show "confined v s (ipriority_write v index x len s)"
  proof (rule ipriority_write_induct [where P = "confined v s", OF confined_refl])
    fix i r s' assume "confined v s s'" "vq s' v (index + of_nat i) = Some r"
    from this(2) have "confined v s' (upd_virq r (\<lambda>q. q\<lparr>priority := 0\<rparr>) s')"
      by (intro confined_own [OF vq_own]) auto
    with \<open>confined v s s'\<close> show "confined v s (upd_virq r (\<lambda>q. q\<lparr>priority := 0\<rparr>) s')" by (rule confined_trans)
  qed
qed

lemma irouter_confined: "confined v s (irouter_write v index x s)"
proof (cases "vq s v index")
  case (Some r)
  obtain s1 ret where m: "hv_migrate_virq (vq_vcpu (virqs s r))
      (hv_get_vcpu s (vcpu_vm (vcpus s v)) (int (unat (if x AND scast (push_bit 31 1 :: u32) \<noteq> 0 then 0 else mpidr_to_cpu_id x)))) r s = (s1, ret)"
    by fastforce
  then have "\<And>y. y \<noteq> r \<Longrightarrow> virqs s1 y = virqs s y" "vcpu_vm (vcpus s1 v) = vcpu_vm (vcpus s v)"
    using op_confined(5,6) by (metis fst_conv)+
  with vq_own [OF Some] Some m show ?thesis
    by (intro confined_own [OF vq_own [OF Some]]) (simp_all add: irouter_write_def Let_def)
qed (simp add: irouter_write_def confined_refl)

lemma upd_dist_confined: "confined v s (upd_dist vm f s)"
  by (simp add: confined_def upd_dist_def upd_vm_def)

section \<open>Enabling through the registers\<close>

lemma vq_inj: "vq s v x = Some r \<Longrightarrow> vq s v y = Some r \<Longrightarrow> x = y"
proof -
  have "a = b" if "a - 32 = b - 32" for a b :: u32 using that by (metis add_diff_cancel_right' diff_add_cancel)
  moreover have "a = b" if "unat a = unat b" for a b :: u32 using that by (simp add: word_unat_eq_iff)
  ultimately show "vq s v x = Some r \<Longrightarrow> vq s v y = Some r \<Longrightarrow> x = y"
    by (force simp: vq_def get_virq_def Let_def split: if_splits)
qed

lemma collect_bit:
  assumes "j < n" "n \<le> 32" "\<And>i r. bit (f i r) j \<Longrightarrow> i = j"
  shows "bit (collect n f s v index) j \<longleftrightarrow> (\<exists>r. vq s v (index + of_nat j) = Some r \<and> bit (f j r) j)"
proof -
  let ?g = "\<lambda>i x. case vq s v (index + of_nat i) of None \<Rightarrow> x | Some r \<Rightarrow> x OR f i r"
  have "bit (fold ?g xs x) j \<longleftrightarrow> bit x j \<or> j \<in> set xs \<and> (\<exists>r. vq s v (index + of_nat j) = Some r \<and> bit (f j r) j)" for xs x
  proof (induction xs arbitrary: x)
    case (Cons i xs)
    show ?case
      by (cases "vq s v (index + of_nat i)") (use Cons assms(3) [of i] in \<open>auto simp: bit_simps\<close>)
  qed simp
  then show ?thesis using assms(1) by (simp add: collect_def)
qed

definition enabled_bit :: "hv_state \<Rightarrow> ptr \<Rightarrow> u32 \<Rightarrow> bool" where
  "enabled_bit s v irq \<longleftrightarrow> (case vq s v irq of None \<Rightarrow> False | Some r \<Rightarrow> enable (virqs s r))"

lemma isenabler_read_bit: "j < 32 \<Longrightarrow> bit (isenabler_read s v index) j \<longleftrightarrow> enabled_bit s v (index + of_nat j)"
  unfolding isenabler_read_def enabled_bit_def
  by (subst collect_bit) (auto simp: bit_simps split: option.split)

lemma vq_cong: "vcpu_vm (vcpus s' v) = vcpu_vm (vcpus s v) \<Longrightarrow> vms s' = vms s \<Longrightarrow> vq s' v = vq s v"
  by (simp add: fun_eq_iff vq_def get_virq_def hv_get_dist_def Let_def)

lemma enable_vms [simp]: "vms (hv_virq_enable r b s) = vms s"
  by (simp add: hv_virq_enable_def hv_virq_cpending_def pd_unlink_def upd_redist_def upd_vcpu_def gic_set_enable_def gic_put_def Let_def
      split: option.split)

lemma enable_enable [simp]: "enable (virqs (hv_virq_enable r b s) x) = (if x = r then b else enable (virqs s x))"
  by (simp add: hv_virq_enable_def hv_virq_cpending_def Let_def pd_unlink_virqs)

lemma of_nat_inj32: "index + of_nat i = index + of_nat j \<Longrightarrow> i < 32 \<Longrightarrow> j < 32 \<Longrightarrow> i = j" for index :: u32
proof -
  assume "index + of_nat i = index + of_nat j" "i < 32" "j < 32"
  then have "unat (of_nat i :: u32) = unat (of_nat j :: u32)" by simp
  with \<open>i < 32\<close> \<open>j < 32\<close> show "i = j" by (simp add: unat_of_nat)
qed

text \<open>
  A loop whose body, at the interrupts selected by \<open>sel\<close>, sets \<^verbatim>\<open>enable\<close> to \<open>b\<close> and leaves the others and the
  machine alone.
\<close>

lemma for_each_enable:
  assumes f: "\<And>i r s x. enable (virqs (f i r s) x) = (if x = r \<and> sel i then b else enable (virqs s x))"
    and fr: "\<And>i r s. vcpu_vm (vcpus (f i r s) v) = vcpu_vm (vcpus s v) \<and> vms (f i r s) = vms s" and j: "j < 32"
  shows "enabled_bit (for_each 32 f v index s) v (index + of_nat j) \<longleftrightarrow>
     (if sel j \<and> vq s v (index + of_nat j) \<noteq> None then b else enabled_bit s v (index + of_nat j))"
proof -
  let ?g = "\<lambda>i s. case vq s v (index + of_nat i) of None \<Rightarrow> s | Some r \<Rightarrow> f i r s"
  have vq: "vq (f i r s) v = vq s v" for i r s using fr by (intro vq_cong) auto
  have step: "vq (?g i s) v = vq s v \<and> (enabled_bit (?g i s) v (index + of_nat j) \<longleftrightarrow>
      (if i = j \<and> sel j \<and> vq s v (index + of_nat j) \<noteq> None then b else enabled_bit s v (index + of_nat j)))" if "i < 32" for i s
  proof (cases "vq s v (index + of_nat i)")
    case (Some r)
    have "q \<noteq> r" if "vq s v (index + of_nat j) = Some q" "i \<noteq> j" for q
      using that Some vq_inj of_nat_inj32 \<open>i < 32\<close> j by blast
    with Some show ?thesis by (auto simp: vq f enabled_bit_def split: option.split)
  qed (auto simp: enabled_bit_def)
  have "distinct xs \<Longrightarrow> set xs \<subseteq> {..<32} \<Longrightarrow> vq (fold ?g xs s) v = vq s v \<and> (enabled_bit (fold ?g xs s) v (index + of_nat j) \<longleftrightarrow>
      (if j \<in> set xs \<and> sel j \<and> vq s v (index + of_nat j) \<noteq> None then b else enabled_bit s v (index + of_nat j)))" for xs
  proof (induction xs arbitrary: s)
    case (Cons i xs)
    then have "i < 32" by simp
    from step [OF this, of s] Cons.IH [of "?g i s"] Cons.prems show ?case by auto
  qed simp
  from this [of "[0..<32]"] j show ?thesis by (simp add: for_each_def lessThan_atLeast0)
qed

lemma isenabler_write_bit:
  "j < 32 \<Longrightarrow> enabled_bit (isenabler_write v index x s) v (index + of_nat j) \<longleftrightarrow>
     enabled_bit s v (index + of_nat j) \<or> bit x j \<and> vq s v (index + of_nat j) \<noteq> None"
  unfolding isenabler_write_def
  by (subst for_each_enable [where sel = "bit x" and b = True]) (auto simp: op_confined enabled_bit_def upd_virq_def split: option.split)

lemma icenabler_write_bit:
  "j < 32 \<Longrightarrow> enabled_bit (icenabler_write v index x s) v (index + of_nat j) \<longleftrightarrow>
     enabled_bit s v (index + of_nat j) \<and> \<not> bit x j"
  unfolding icenabler_write_def
  by (subst for_each_enable [where sel = "bit x" and b = False]) (auto simp: op_confined enabled_bit_def upd_virq_def split: option.split)

section \<open>Properties\<close>

text \<open>
  C24. Whatever a guest writes to the registers of its virtual interrupt controller, at any offset and width,
  only its own interrupts change: the private ones of the virtual CPU whose registers they are
  and the shared ones of its machine. And the interrupt lists stay well formed.
\<close>

theorem vgic_mmio_write_confined:
  fixes s m arg gpa len data
  defines "v \<equiv> (case m of Dist_mops \<Rightarrow> current_vcpu s | Redist_mops \<Rightarrow> arg)" and "s' \<equiv> fst (vgic_mmio_write s m gpa len arg data)"
  assumes "v \<noteq> 0" "vq_inv s"
  shows "(\<forall>r. \<not> own v (vcpu_vm (vcpus s v)) r \<longrightarrow> virqs s' r = virqs s r) \<and> vq_inv s'"
proof -
  have "confined v s s'"
    using assms(3) unfolding s'_def v_def
    by (cases m) (simp_all add: vgic_mmio_write_def dist_mmio_write_def redist_mmio_write_def redist_sgi_mmio_write_def
       redist_rd_mmio_write_def Let_def writes_confined irouter_confined upd_dist_confined confined_refl)
  moreover have "vq_inv s'" using assms(4) by (simp add: s'_def vq_inv_mmio_write)
  ultimately show ?thesis by (simp add: confined_def)
qed

theorem vgic_mmio_write_confined_witness:
  "virqs (fst (vgic_mmio_write queue_ex Redist_mops 0x10100 4 1 0xffffffff)) (Spi 7 0) = zero_virq"
proof -
  have "vcpu_vm (vcpus queue_ex 1) = 1" "virqs queue_ex (Spi 7 0) = zero_virq" by (simp_all add: queue_ex_def)
  then show ?thesis using vgic_mmio_write_confined [where m = Redist_mops and s = queue_ex and arg = 1 and gpa = "0x10100" and len = 4 and data = "0xffffffff"] queue_ex_inv by simp
qed

text \<open>
  The enable registers of the guest: a write to \<^verbatim>\<open>ISENABLER\<close> adds, and one to \<^verbatim>\<open>ICENABLER\<close> removes, exactly the
  interrupts of the bits written that exist, and a read of \<^verbatim>\<open>ISENABLER\<close> returns the result.
\<close>

theorem enabler_registers:
  assumes "j < 32"
  shows "(bit (isenabler_read (isenabler_write v index x s) v index) j \<longleftrightarrow>
       bit (isenabler_read s v index) j \<or> bit x j \<and> vq s v (index + of_nat j) \<noteq> None) \<and>
     (bit (isenabler_read (icenabler_write v index x s) v index) j \<longleftrightarrow> bit (isenabler_read s v index) j \<and> \<not> bit x j)"
  using assms by (simp add: isenabler_read_bit isenabler_write_bit icenabler_write_bit)

theorem enabler_registers_witness:
  "bit (isenabler_read (isenabler_write 1 0 0x30 queue_ex) 1 0) 5 \<and> \<not> bit (isenabler_read (icenabler_write 1 0 0x30 queue_ex) 1 0) 5"
proof -
  have "vq queue_ex 1 5 \<noteq> None" by (simp add: vq_def get_virq_def)
  then show ?thesis using enabler_registers [of 5 1 0 "0x30" queue_ex] by (simp add: bit_simps)
qed

lemma ipriority_fold_keep:
  "vq (fst (fold (ipriority_one v index) xs (s, x))) v = vq s v"
  "priority (virqs s r) = 0 \<Longrightarrow> priority (virqs (fst (fold (ipriority_one v index) xs (s, x))) r) = 0"
proof -
  have c: "vq (upd_virq r f s) v = vq s v" for r f s by (rule vq_cong) (simp_all add: upd_virq_def)
  show "vq (fst (fold (ipriority_one v index) xs (s, x))) v = vq s v"
    by (induction xs arbitrary: s x) (simp_all add: ipriority_one_eq c split: option.split)
  show "priority (virqs s r) = 0 \<Longrightarrow> priority (virqs (fst (fold (ipriority_one v index) xs (s, x))) r) = 0"
    by (induction xs arbitrary: s x) (simp_all add: ipriority_one_eq split: option.split)
qed

text \<open>
  The priority a guest writes is not kept: \<^verbatim>\<open>ipriority_write\<close> masks the value with a mask of 0 bits, so the
  interrupt gets priority 0 whatever was written.
\<close>

theorem ipriority_write_stores_zero:
  assumes "j < nat len" "vq s v (index + of_nat j) = Some r"
  shows "priority (virqs (ipriority_write v index x len s) r) = 0"
proof -
  obtain s1 x1 where e: "fold (ipriority_one v index) [0..<j] (s, x) = (s1, x1)" by fastforce
  have "[0..<nat len] = [0..<j] @ j # [Suc j..<nat len]" 
    using assms(1) upt_add_eq_append [of 0 j "nat len - j"] by (simp add: upt_conv_Cons)
  then have "ipriority_write v index x len s = fst (fold (ipriority_one v index) [Suc j..<nat len] (ipriority_one v index j (s1, x1)))"
    by (simp add: ipriority_write_def e)
  moreover have "vq s1 v (index + of_nat j) = Some r" using ipriority_fold_keep(1) [of v index "[0..<j]" s x] e assms(2) by simp
  ultimately show ?thesis by (simp add: ipriority_one_eq ipriority_fold_keep(2))
qed

theorem ipriority_write_stores_zero_witness: "priority (virqs (ipriority_write 1 5 0xa0 1 queue_ex) (Priv 1 5)) = 0"
  by (rule ipriority_write_stores_zero [of 0]) (simp_all add: vq_def get_virq_def)

text \<open>
  The routing registers are one register file off. The register at offset \<open>0x6100\<close> is that of shared interrupt 32, but the
  handler takes it for interrupt 0: a write to the registers of interrupts 32 to 63 changes no shared interrupt.
\<close>

theorem irouter_write_misses_spi:
  fixes s v vm gpa data
  defines "off \<equiv> ucast (gpa - dist_base (hv_get_dist s vm)) :: u32"
  assumes "0x6100 \<le> off" "off < 0x6200"
  shows "virqs (fst (dist_mmio_write v vm gpa len data s)) (Spi m i) = virqs s (Spi m i)"
proof -
  have "drop_bit 3 (off - 0x6100) < 32"
  proof -
    have "unat (off - 0x6100) < 256"
      using assms(2,3) by (simp add: word_less_nat_alt word_le_nat_alt unat_sub)
    then have "unat (drop_bit 3 (off - 0x6100)) < 32" by (simp add: drop_bit_eq_div unat_div)
    then show ?thesis by (simp add: word_less_nat_alt)
  qed
  then have q: "vq s v (drop_bit 3 (off - 0x6100)) \<in> {None, Some (Priv v (unat (drop_bit 3 (off - 0x6100))))}"
    by (auto simp: vq_def get_virq_def)
  have "virqs (irouter_write v (drop_bit 3 (off - 0x6100)) data s) (Spi m i) = virqs s (Spi m i)"
  proof (cases "vq s v (drop_bit 3 (off - 0x6100))")
    case (Some r)
    then have r: "Spi m i \<noteq> r" using q by auto
    obtain s1 ret where m: "hv_migrate_virq (vq_vcpu (virqs s r))
        (hv_get_vcpu s (vcpu_vm (vcpus s v)) (int (unat (if data AND scast (push_bit 31 1 :: u32) \<noteq> 0 then 0 else mpidr_to_cpu_id data)))) r s = (s1, ret)"
      by fastforce
    then have "virqs s1 (Spi m i) = virqs s (Spi m i)" using op_confined(5) [OF r] by (metis fst_conv)
    with Some m r show ?thesis by (simp add: irouter_write_def Let_def)
  qed (simp add: irouter_write_def)
  moreover have "off \<noteq> 0" "off \<noteq> 4" "off \<noteq> 8" "off \<noteq> 0xc" "off \<noteq> 0x10" "\<not> off \<le> 0xfc" "\<not> off \<le> 0x17c" "\<not> off \<le> 0x1fc" "\<not> off \<le> 0x27c"
    "\<not> off \<le> 0x2fc" "\<not> off \<le> 0x7f8" "\<not> off \<le> 0xcfc" "off \<le> 0x7fd8"
    using assms(2,3) by (auto simp: word_less_nat_alt word_le_nat_alt)
  ultimately show ?thesis using assms(2) unfolding dist_mmio_write_def Let_def off_def [symmetric] by simp
qed

theorem irouter_write_misses_spi_witness:
  "virqs (fst (dist_mmio_write 1 1 0x6100 8 5 queue_ex)) (Spi 1 0) = virqs queue_ex (Spi 1 0)"
  by (rule irouter_write_misses_spi) (simp_all add: queue_ex_def zero_defs hv_get_dist_def)

text \<open>
  A read of the distributor that is neither one nor four bytes wide, such as the 64-bit read of a routing register,
  reports success without storing a value: the guest gets what the stack of the hypervisor held.
\<close>

theorem dist_mmio_read_leaks_stack:
  assumes "len \<noteq> 1" "len \<noteq> 4"
  shows "dist_mmio_read junk v vm gpa len data s = (1, data)"
  using assms by (simp add: dist_mmio_read_def Let_def)

theorem dist_mmio_read_leaks_stack_witness: "dist_mmio_read (\<lambda>_. 0) 1 1 0x6100 8 0xdeadbeef queue_ex = (1, 0xdeadbeef)"
  by (rule dist_mmio_read_leaks_stack) simp_all

end
