(* ===== verification/Mmu.thy ===== *)
theory Mmu
  imports Stage2
begin

text \<open>
  Stage-1 translation tables, \<^verbatim>\<open>arch/arm64/mmu.c\<close>, and the lookups of \<^verbatim>\<open>kernel/vm/vm.c\<close> that use them. The tables are pages of the
  page allocator in the same kernel memory as the stage-2 tables (\<open>kmem\<close>). With the sizes of the build, kernel and user tables have the
  same shape: addresses of 48 bits, four levels and 4 KB pages. A table whose entries cover \<open>12 + 9 * n\<close> bits, which the code knows by \<^verbatim>\<open>index_shift\<close>, is
  at level \<open>n\<close> here. Virtual addresses and sizes are natural numbers; an address that enters the tables is below $2^{48}$.
  \<^const>\<open>None\<close> is a panic or a failed assertion. The TLB operations are recorded in the order they are issued.
\<close>

section \<open>State\<close>

record arch_aspace =
  tt_phys :: paddr
  tt_virt :: u64
  as_flags :: u32
  as_base :: nat
  as_size :: nat

datatype tlbi_op = Vaae1is u64 | Vae1is u64

record mmu_state =
  mm :: mm_state
  tlbi :: "tlbi_op list"

abbreviation (input) ARCH_ASPACE_FLAG_KERNEL :: nat where "ARCH_ASPACE_FLAG_KERNEL \<equiv> 0"
abbreviation (input) ERR_GENERIC :: int where "ERR_GENERIC \<equiv> - 1"
abbreviation (input) TOP_LEVEL :: nat where "TOP_LEVEL \<equiv> 3"

definition index_shift :: "nat \<Rightarrow> nat" where
  "index_shift n = 12 + 9 * n"

text \<open>As the code has it: an address in the range of the space.\<close>

definition is_valid_vaddr :: "arch_aspace \<Rightarrow> nat \<Rightarrow> bool" where
  "is_valid_vaddr aspace vaddr \<longleftrightarrow> as_base aspace \<le> vaddr \<and> vaddr \<le> as_base aspace + as_size aspace - 1"

section \<open>Attributes\<close>

abbreviation (input) MMU_PTE_OUTPUT_ADDR_MASK :: u64 where "MMU_PTE_OUTPUT_ADDR_MASK \<equiv> 0xFFFFFFFFF000"

definition mmu_flags_to_pte_attr :: "u32 \<Rightarrow> u64" where
  "mmu_flags_to_pte_attr flags =
     (let attr = BM 10 1 1; cache = flags AND 3
      in if cache = 3 then word_of_int ERR_INVALID_ARGS
         else
           let attr = attr OR (if cache = 0 then BM 2 3 2 OR BM 8 2 3 else if cache = 1 then BM 2 3 0 else BM 2 3 1);
               attr = attr OR (if flags AND 12 = 0 then BM 6 2 0 else if flags AND 12 = 8 then BM 6 2 2
                               else if flags AND 12 = 4 then BM 6 2 1 else BM 6 2 3);
               attr = attr OR (if bit flags 4 then BM 54 1 1 OR BM 53 1 1 else 0)
           in attr OR (if bit flags 5 then BM 5 1 1 else 0))"

text \<open>The flags that \<^verbatim>\<open>arch_mmu_query\<close> reads from an entry.\<close>

definition pte_to_mmu_flags :: "u64 \<Rightarrow> u32 option" where
  "pte_to_mmu_flags pte =
     (let flags = (if pte AND BM 5 1 1 \<noteq> 0 then 32 else 0); attr = pte AND BM 2 3 7; ap = pte AND BM 6 2 3
      in if attr \<noteq> BM 2 3 0 \<and> attr \<noteq> BM 2 3 1 \<and> attr \<noteq> BM 2 3 2 then None
         else
           let flags = flags OR (if attr = BM 2 3 0 then 1 else if attr = BM 2 3 1 then 2 else 0);
               flags = flags OR (if ap = BM 6 2 0 then 0 else if ap = BM 6 2 1 then 4 else if ap = BM 6 2 2 then 8 else 12)
           in Some (flags OR (if pte AND BM 54 1 1 \<noteq> 0 \<and> pte AND BM 53 1 1 \<noteq> 0 then 16 else 0)))"

section \<open>Lookup\<close>

definition entry :: "u64 \<Rightarrow> nat \<Rightarrow> u64" where
  "entry page_table index = page_table + 8 * of_nat index"

text \<open>The loop of \<^verbatim>\<open>arch_mmu_query\<close>; the result is the entry and the rest of the address, or the status.\<close>

fun query_loop :: "nat \<Rightarrow> u64 \<Rightarrow> nat \<Rightarrow> mm_state \<Rightarrow> (int + u64 \<times> nat) option" where
  "query_loop n page_table vaddr_rem s =
     (let index = vaddr_rem div 2 ^ index_shift n mod 2 ^ 32; vaddr_rem = vaddr_rem - index * 2 ^ index_shift n;
          pte = kmem s (entry page_table index); descriptor_type = pte AND 3
      in if descriptor_type = 0 then Some (Inl ERR_NOT_FOUND)
         else if descriptor_type = (if n > 0 then 1 else 3) then Some (Inr (pte, vaddr_rem))
         else if n = 0 \<or> descriptor_type \<noteq> 3 then None
         else query_loop (n - 1) (paddr_to_kvaddr s (pte AND MMU_PTE_OUTPUT_ADDR_MASK)) vaddr_rem s)"

declare query_loop.simps [simp del]

text \<open>
  \<open>want\<close> tells whether the caller wants the flags. An address that is not valid fails an assertion; for a user address above the tables another one fails, for a
  kernel address that one is commented out, and the entry is read behind the table.
\<close>

definition arch_mmu_query :: "arch_aspace \<Rightarrow> nat \<Rightarrow> bool \<Rightarrow> mm_state \<Rightarrow> (int + paddr \<times> u32) option" where
  "arch_mmu_query aspace vaddr want s =
     (if tt_virt aspace = 0 \<or> \<not> is_valid_vaddr aspace vaddr then None
      else if \<not> bit (as_flags aspace) ARCH_ASPACE_FLAG_KERNEL \<and> \<not> vaddr div 2 ^ index_shift TOP_LEVEL mod 2 ^ 32 < 512 then None
      else
        (case query_loop TOP_LEVEL (tt_virt aspace) vaddr s of
           None \<Rightarrow> None
         | Some (Inl err) \<Rightarrow> Some (Inl err)
         | Some (Inr (pte, vaddr_rem)) \<Rightarrow>
             (let paddr = (pte AND MMU_PTE_OUTPUT_ADDR_MASK) + of_nat vaddr_rem
              in if want then map_option (\<lambda>flags. Inr (paddr, flags)) (pte_to_mmu_flags pte) else Some (Inr (paddr, 0)))))"

text \<open>\<open>ks\<close> and \<open>us\<close> are base and size of the kernel's and of the user's space; \<open>cur\<close> is the space of the running thread.\<close>

record aspaces =
  kernel_aspace :: arch_aspace
  user_base :: nat
  user_size :: nat

definition vaddr_to_aspace :: "aspaces \<Rightarrow> arch_aspace option \<Rightarrow> nat \<Rightarrow> arch_aspace option" where
  "vaddr_to_aspace as cur ptr =
     (if is_valid_vaddr (kernel_aspace as) ptr then Some (kernel_aspace as)
      else if user_base as \<le> ptr \<and> ptr \<le> user_base as + (user_size as - 1) then cur
      else None)"

definition vaddr_to_paddr :: "aspaces \<Rightarrow> arch_aspace option \<Rightarrow> nat \<Rightarrow> mm_state \<Rightarrow> paddr option" where
  "vaddr_to_paddr as cur ptr s =
     (case vaddr_to_aspace as cur ptr of
        None \<Rightarrow> Some 0
      | Some aspace \<Rightarrow> map_option (\<lambda>r. case r of Inl rc \<Rightarrow> 0 | Inr (pa, _) \<Rightarrow> pa) (arch_mmu_query aspace ptr False s))"

section \<open>Tables\<close>

definition get_entry :: "u64 \<Rightarrow> nat \<Rightarrow> mmu_state \<Rightarrow> u64" where
  "get_entry page_table index s = kmem (mm s) (entry page_table index)"

definition set_entry :: "u64 \<Rightarrow> nat \<Rightarrow> u64 \<Rightarrow> mmu_state \<Rightarrow> mmu_state" where
  "set_entry page_table index v s = s\<lparr>mm := poke (entry page_table index) v (mm s)\<rparr>"

text \<open>With a table of the size of a page, the other branches of the code are not taken.\<close>

definition alloc_page_table :: "mmu_state \<Rightarrow> paddr option \<times> mmu_state" where
  "alloc_page_table s =
     (case pmm_alloc_page (arenas (mm s)) of
        (as, None) \<Rightarrow> (None, s\<lparr>mm := (mm s)\<lparr>arenas := as\<rparr>\<rparr>)
      | (as, Some p) \<Rightarrow> (let m = (mm s)\<lparr>arenas := as\<rparr> in (Some (page_paddr m p), s\<lparr>mm := m\<rparr>)))"

definition free_page_table :: "paddr \<Rightarrow> mmu_state \<Rightarrow> mmu_state option" where
  "free_page_table paddr s =
     (case paddr_to_vm_page (arenas (mm s)) (unat paddr) of
        None \<Rightarrow> None
      | Some page \<Rightarrow> Some (s\<lparr>mm := (mm s)\<lparr>arenas := fst (pmm_free_page page (arenas (mm s)))\<rparr>\<rparr>))"

text \<open>The table below an entry, or 0.\<close>

definition arm64_mmu_get_page_table :: "nat \<Rightarrow> u64 \<Rightarrow> mmu_state \<Rightarrow> (u64 \<times> mmu_state) option" where
  "arm64_mmu_get_page_table index page_table s =
     (let pte = get_entry page_table index s; ty = pte AND 3
      in if ty = 0 then
           (case alloc_page_table s of
              (None, s) \<Rightarrow> Some (0, s)
            | (Some paddr, s) \<Rightarrow>
                (let vaddr = paddr_to_kvaddr (mm s) paddr; s = s\<lparr>mm := memset_page vaddr (mm s)\<rparr>
                 in Some (vaddr, set_entry page_table index (paddr OR 3) s)))
         else if ty = 3 then Some (paddr_to_kvaddr (mm s) (pte AND MMU_PTE_OUTPUT_ADDR_MASK), s)
         else if ty = 1 then Some (0, s)
         else None)"

definition page_table_is_clear :: "u64 \<Rightarrow> mmu_state \<Rightarrow> bool" where
  "page_table_is_clear page_table s \<longleftrightarrow> (\<forall>i\<in>set [0..<512]. get_entry page_table i s = 0)"

section \<open>Unmapping and mapping\<close>

text \<open>\<open>global\<close> is \<^verbatim>\<open>asid == MMU_ARM64_GLOBAL_ASID\<close>; the user's number is 0.\<close>

definition ARM64_TLBI :: "bool \<Rightarrow> nat \<Rightarrow> mmu_state \<Rightarrow> mmu_state" where
  "ARM64_TLBI global vaddr s = s\<lparr>tlbi := tlbi s @ [if global then Vaae1is (of_nat (vaddr div 4096)) else Vae1is (of_nat (vaddr div 4096))]\<rparr>"

function arm64_mmu_unmap_pt :: "nat \<Rightarrow> nat \<Rightarrow> nat \<Rightarrow> nat \<Rightarrow> u64 \<Rightarrow> bool \<Rightarrow> mmu_state \<Rightarrow> mmu_state option" where
  "arm64_mmu_unmap_pt n vaddr vaddr_rel sz page_table global s =
     (if sz = 0 then Some s
      else
        let block_size = 2 ^ index_shift n; vaddr_rem = vaddr_rel mod block_size; chunk_size = min sz (block_size - vaddr_rem);
            index = vaddr_rel div block_size; pte = get_entry page_table index s
        in case (if n > 0 \<and> pte AND 3 = 3 then
                   let page_table_paddr = pte AND MMU_PTE_OUTPUT_ADDR_MASK; next_page_table = paddr_to_kvaddr (mm s) page_table_paddr
                   in case arm64_mmu_unmap_pt (n - 1) vaddr vaddr_rem chunk_size next_page_table global s of
                        None \<Rightarrow> None
                      | Some s \<Rightarrow>
                          if chunk_size = block_size \<or> page_table_is_clear next_page_table s
                          then free_page_table page_table_paddr (set_entry page_table index 0 s) else Some s
                 else if pte \<noteq> 0 then Some (ARM64_TLBI global vaddr (set_entry page_table index 0 s))
                 else Some s) of
             None \<Rightarrow> None
           | Some s \<Rightarrow> arm64_mmu_unmap_pt n (vaddr + chunk_size) (vaddr_rel + chunk_size) (sz - chunk_size) page_table global s)"
  by pat_completeness auto

termination
  by (relation "measures [\<lambda>(n, v, r, sz, t, g, s). n, \<lambda>(n, v, r, sz, t, g, s). sz]") (auto simp: min_def not_le)

declare arm64_mmu_unmap_pt.simps [simp del]

definition page_aligned :: "nat \<Rightarrow> paddr \<Rightarrow> nat \<Rightarrow> bool" where
  "page_aligned vaddr_rel paddr sz \<longleftrightarrow> vaddr_rel mod 4096 = 0 \<and> paddr AND 0xFFF = 0 \<and> sz mod 4096 = 0"

text \<open>
  The loop of \<^verbatim>\<open>arm64_mmu_map_pt\<close>, with what it has to undo from \<open>vaddr_in\<close> on \<^verbatim>\<open>goto err\<close>; the nested call starts with the test of the alignment. At level 0 there is no nested call, because
  addresses and sizes are aligned there.
\<close>

function arm64_mmu_map_loop ::
  "nat \<Rightarrow> nat \<Rightarrow> nat \<Rightarrow> nat \<Rightarrow> nat \<Rightarrow> nat \<Rightarrow> paddr \<Rightarrow> nat \<Rightarrow> u64 \<Rightarrow> u64 \<Rightarrow> bool \<Rightarrow> mmu_state \<Rightarrow> (int \<times> mmu_state) option" where
  "arm64_mmu_map_loop n vaddr_in vaddr_rel_in size_in vaddr vaddr_rel paddr sz attrs page_table global s =
     (if sz = 0 then Some (0, s)
      else
        let block_size = 2 ^ index_shift n; vaddr_rem = vaddr_rel mod block_size; chunk_size = min sz (block_size - vaddr_rem);
            index = vaddr_rel div block_size
        in case (if vaddr_rem \<noteq> 0 \<or> paddr AND mask (index_shift n) \<noteq> 0 \<or> chunk_size \<noteq> block_size \<or> index_shift n > 30
                 then if n = 0 then None
                      else
                        (case arm64_mmu_get_page_table index page_table s of
                           None \<Rightarrow> None
                         | Some (next_page_table, s) \<Rightarrow>
                             if next_page_table = 0 then Some (False, s)
                             else
                               map_option (\<lambda>(ret, s). (ret = 0, s))
                                 (if page_aligned vaddr_rem paddr chunk_size
                                  then arm64_mmu_map_loop (n - 1) vaddr vaddr_rem chunk_size vaddr vaddr_rem paddr chunk_size attrs next_page_table global s
                                  else Some (ERR_INVALID_ARGS, s)))
                 else if get_entry page_table index s \<noteq> 0 then Some (False, s)
                 else Some (True, set_entry page_table index (paddr OR attrs OR (if n > 0 then 1 else 3)) s)) of
             None \<Rightarrow> None
           | Some (False, s) \<Rightarrow> map_option (\<lambda>s. (ERR_GENERIC, s)) (arm64_mmu_unmap_pt n vaddr_in vaddr_rel_in (size_in - sz) page_table global s)
           | Some (True, s) \<Rightarrow>
               arm64_mmu_map_loop n vaddr_in vaddr_rel_in size_in (vaddr + chunk_size) (vaddr_rel + chunk_size) (paddr + of_nat chunk_size)
                 (sz - chunk_size) attrs page_table global s)"
  by pat_completeness auto

termination
  by (relation "measures [\<lambda>(n, a, b, c, v, r, p, sz, rest). n, \<lambda>(n, a, b, c, v, r, p, sz, rest). sz]") (auto simp: min_def not_le)

declare arm64_mmu_map_loop.simps [simp del]

definition arm64_mmu_map_pt :: "nat \<Rightarrow> nat \<Rightarrow> nat \<Rightarrow> paddr \<Rightarrow> nat \<Rightarrow> u64 \<Rightarrow> u64 \<Rightarrow> bool \<Rightarrow> mmu_state \<Rightarrow> (int \<times> mmu_state) option" where
  "arm64_mmu_map_pt n vaddr vaddr_rel paddr sz attrs page_table global s =
     (if page_aligned vaddr_rel paddr sz
      then arm64_mmu_map_loop n vaddr vaddr_rel sz vaddr vaddr_rel paddr sz attrs page_table global s else Some (ERR_INVALID_ARGS, s))"

definition out_of_tables :: "nat \<Rightarrow> nat \<Rightarrow> bool" where
  "out_of_tables vaddr_rel sz \<longleftrightarrow> vaddr_rel > (2 ^ 48 + 2 ^ 64 - sz) mod 2 ^ 64 \<or> sz > 2 ^ 48"

definition arm64_mmu_map :: "nat \<Rightarrow> paddr \<Rightarrow> nat \<Rightarrow> u64 \<Rightarrow> u64 \<Rightarrow> bool \<Rightarrow> mmu_state \<Rightarrow> (int \<times> mmu_state) option" where
  "arm64_mmu_map vaddr paddr sz attrs top_page_table global s =
     (if out_of_tables vaddr sz \<or> top_page_table = 0 then Some (ERR_INVALID_ARGS, s)
      else arm64_mmu_map_pt TOP_LEVEL vaddr vaddr paddr sz attrs top_page_table global s)"

definition arm64_mmu_unmap :: "nat \<Rightarrow> nat \<Rightarrow> u64 \<Rightarrow> bool \<Rightarrow> mmu_state \<Rightarrow> (int \<times> mmu_state) option" where
  "arm64_mmu_unmap vaddr sz top_page_table global s =
     (if out_of_tables vaddr sz \<or> top_page_table = 0 then Some (ERR_INVALID_ARGS, s)
      else map_option (\<lambda>s. (0, s)) (arm64_mmu_unmap_pt TOP_LEVEL vaddr vaddr sz top_page_table global s))"

definition arch_mmu_map :: "arch_aspace \<Rightarrow> nat \<Rightarrow> paddr \<Rightarrow> nat \<Rightarrow> u32 \<Rightarrow> mmu_state \<Rightarrow> (int \<times> mmu_state) option" where
  "arch_mmu_map aspace vaddr paddr count flags s =
     (if tt_virt aspace = 0 \<or> \<not> is_valid_vaddr aspace vaddr \<or> vaddr mod PAGE_SIZE \<noteq> 0 \<or> paddr AND 0xFFF \<noteq> 0 then None
      else if count = 0 then Some (NO_ERROR, s)
      else arm64_mmu_map vaddr paddr (count * PAGE_SIZE) (mmu_flags_to_pte_attr flags) (tt_virt aspace) (bit (as_flags aspace) ARCH_ASPACE_FLAG_KERNEL) s)"

definition arch_mmu_unmap :: "arch_aspace \<Rightarrow> nat \<Rightarrow> nat \<Rightarrow> mmu_state \<Rightarrow> (int \<times> mmu_state) option" where
  "arch_mmu_unmap aspace vaddr count s =
     (if tt_virt aspace = 0 \<or> \<not> is_valid_vaddr aspace vaddr \<or> vaddr mod PAGE_SIZE \<noteq> 0 then None
      else arm64_mmu_unmap vaddr (count * PAGE_SIZE) (tt_virt aspace) (bit (as_flags aspace) ARCH_ASPACE_FLAG_KERNEL) s)"

end
