(* ===== verification/Mmu_Map.thy ===== *)
theory Mmu_Map
  imports Mmu
begin

text \<open>
  What mapping and unmapping in the stage-1 tables do. The tables below an entry are a tree of pages, disjoint from each other and in use; a lookup is a function of the entry and the address. Unmapping
  removes the translations of the blocks it meets, mapping adds exactly the range or nothing, and both account for every page.
\<close>

section \<open>Trees of tables\<close>

abbreviation (input) out :: "u64 \<Rightarrow> u64" where
  "out e \<equiv> e AND 0xFFFFFFFFF000"

definition table_ok :: "(u64 \<Rightarrow> vm_page set \<Rightarrow> bool) \<Rightarrow> mm_state \<Rightarrow> vm_page \<Rightarrow> (nat \<Rightarrow> vm_page set) \<Rightarrow> bool" where
  "table_ok P m f R \<longleftrightarrow> f \<in> all_pages (arenas m) \<and> (\<forall>i<512. f \<notin> R i) \<and> (\<forall>i<512. \<forall>j<512. i \<noteq> j \<longrightarrow> R i \<inter> R j = {}) \<and>
     (\<forall>i<512. P (kmem m (entry (page_kva m f) i)) (R i))"

definition table_pages :: "vm_page \<Rightarrow> (nat \<Rightarrow> vm_page set) \<Rightarrow> vm_page set" where
  "table_pages f R = insert f (\<Union>i<512. R i)"

text \<open>An entry at level \<open>n\<close> and the pages of the tables below it.\<close>

primrec entry_ok :: "mm_state \<Rightarrow> nat \<Rightarrow> u64 \<Rightarrow> vm_page set \<Rightarrow> bool" where
  "entry_ok m 0 e Q \<longleftrightarrow> Q = {} \<and> (e = 0 \<or> e AND 3 = 3)"
| "entry_ok m (Suc n) e Q \<longleftrightarrow>
     (if e AND 3 = 3 then \<exists>f R. page_paddr m f = out e \<and> table_ok (entry_ok m n) m f R \<and> Q = table_pages f R
      else Q = {} \<and> (e = 0 \<or> e AND 3 = 1))"

definition slot_of :: "nat \<Rightarrow> nat \<Rightarrow> nat" where
  "slot_of n v = v div 2 ^ index_shift n mod 512"

text \<open>The leaf that translates an address, with its level.\<close>

primrec leaf :: "mm_state \<Rightarrow> nat \<Rightarrow> u64 \<Rightarrow> nat \<Rightarrow> (u64 \<times> nat) option" where
  "leaf m 0 e v = (if e AND 3 = 3 then Some (e, 0) else None)"
| "leaf m (Suc n) e v =
     (if e AND 3 = 3 then leaf m n (kmem m (entry (paddr_to_kvaddr m (out e)) (slot_of n v))) v
      else if e AND 3 = 1 then Some (e, Suc n) else None)"

definition table_leaf :: "mm_state \<Rightarrow> nat \<Rightarrow> u64 \<Rightarrow> nat \<Rightarrow> (u64 \<times> nat) option" where
  "table_leaf m n t v = leaf m n (kmem m (entry t (slot_of n v))) v"

lemma leaf_Suc_table: "e AND 3 = 3 \<Longrightarrow> leaf m (Suc n) e v = table_leaf m n (paddr_to_kvaddr m (out e)) v"
  by (simp add: table_leaf_def)

text \<open>What the entries do not change, and agreement of the memory in the pages of a set.\<close>

definition same_frame :: "mm_state \<Rightarrow> mm_state \<Rightarrow> bool" where
  "same_frame m m' \<longleftrightarrow> mmu_initial_mappings m' = mmu_initial_mappings m \<and> map geom (arenas m') = map geom (arenas m)"

definition agree :: "vm_page set \<Rightarrow> mm_state \<Rightarrow> mm_state \<Rightarrow> bool" where
  "agree Q m m' \<longleftrightarrow> (\<forall>f\<in>Q. \<forall>i<512. kmem m' (entry (page_kva m f) i) = kmem m (entry (page_kva m f) i))"

lemma same_frame_refl [simp]: "same_frame m m"
  by (simp add: same_frame_def)

lemma same_frame_trans: "same_frame m m' \<Longrightarrow> same_frame m' m'' \<Longrightarrow> same_frame m m''"
  by (simp add: same_frame_def)

lemma frame_eqs:
  assumes "same_frame m m'"
  shows "paddr_to_kvaddr m' = paddr_to_kvaddr m" "page_paddr m' = page_paddr m" "page_kva m' = page_kva m" "all_pages (arenas m') = all_pages (arenas m)"
    "kva_ok m' = kva_ok m"
proof -
  have g: "map geom (arenas m') = map geom (arenas m)" using assms by (simp add: same_frame_def)
  show k: "paddr_to_kvaddr m' = paddr_to_kvaddr m" using assms by (intro ext) (simp add: same_frame_def paddr_to_kvaddr_def)
  show p: "page_paddr m' = page_paddr m" by (intro ext) (simp add: page_paddr_def vm_page_to_paddr_geom [OF g])
  show v: "page_kva m' = page_kva m" by (intro ext) (simp add: page_kva_def p k)
  show a: "all_pages (arenas m') = all_pages (arenas m)" by (rule all_pages_cong [OF g])
  show "kva_ok m' = kva_ok m" unfolding kva_ok_def p v a ..
qed

lemma agree_mono: "agree Q m m' \<Longrightarrow> Q' \<subseteq> Q \<Longrightarrow> agree Q' m m'"
  by (auto simp: agree_def)

lemma slot_of_less [simp]: "slot_of n v < 512"
  by (simp add: slot_of_def)

lemma entry_ok_frame:
  assumes fr: "same_frame m m'"
  shows "entry_ok m n e Q \<Longrightarrow> agree Q m m' \<Longrightarrow> entry_ok m' n e Q"
proof (induction n arbitrary: e Q)
  case (Suc n)
  show ?case
  proof (cases "e AND 3 = 3")
    case True
    then obtain f R where t: "page_paddr m f = out e" "table_ok (entry_ok m n) m f R" "Q = table_pages f R" using Suc.prems(1) by auto
    have "entry_ok m' n (kmem m' (entry (page_kva m f) i)) (R i)" if "i < 512" for i
    proof -
      have "kmem m' (entry (page_kva m f) i) = kmem m (entry (page_kva m f) i)" using Suc.prems(2) that by (simp add: agree_def t(3) table_pages_def)
      moreover have "agree (R i) m m'" using agree_mono [OF Suc.prems(2)] that by (auto simp: t(3) table_pages_def)
      ultimately show ?thesis using Suc.IH t(2) that unfolding table_ok_def by simp
    qed
    then have "table_ok (entry_ok m' n) m' f R" using t(2) by (simp add: table_ok_def frame_eqs [OF fr])
    then have "page_paddr m' f = out e \<and> table_ok (entry_ok m' n) m' f R \<and> Q = table_pages f R" using t by (simp add: frame_eqs [OF fr])
    then have "\<exists>f R. page_paddr m' f = out e \<and> table_ok (entry_ok m' n) m' f R \<and> Q = table_pages f R" by blast
    then show ?thesis using True by simp
  qed (use Suc.prems in simp)
qed simp

lemma entry_pages: "entry_ok m n e Q \<Longrightarrow> Q \<subseteq> all_pages (arenas m)"
proof (induction n arbitrary: e Q)
  case (Suc n)
  then show ?case by (fastforce simp: table_ok_def table_pages_def split: if_splits)
qed simp

lemma leaf_frame:
  assumes fr: "same_frame m m'"
  shows "entry_ok m n e Q \<Longrightarrow> agree Q m m' \<Longrightarrow> leaf m' n e v = leaf m n e v"
proof (induction n arbitrary: e Q)
  case (Suc n)
  show ?case
  proof (cases "e AND 3 = 3")
    case True
    then obtain f R where t: "page_paddr m f = out e" "table_ok (entry_ok m n) m f R" "Q = table_pages f R" using Suc.prems(1) by auto
    let ?i = "slot_of n v"
    have k: "paddr_to_kvaddr m (out e) = page_kva m f" by (simp add: page_kva_def t(1))
    have "kmem m' (entry (page_kva m f) ?i) = kmem m (entry (page_kva m f) ?i)" using Suc.prems(2) by (simp add: agree_def t(3) table_pages_def)
    moreover have "agree (R ?i) m m'" by (rule agree_mono [OF Suc.prems(2)]) (use slot_of_less [of n v] in \<open>auto simp: t(3) table_pages_def\<close>)
    moreover have "entry_ok m n (kmem m (entry (page_kva m f) ?i)) (R ?i)" using t(2) by (simp add: table_ok_def)
    ultimately show ?thesis using Suc.IH True by (simp add: k frame_eqs [OF fr])
  qed simp
qed simp

lemma table_leaf_frame:
  assumes "same_frame m m'" "table_ok (entry_ok m n) m f R" "agree (table_pages f R) m m'"
  shows "table_leaf m' n (page_kva m f) v = table_leaf m n (page_kva m f) v"
proof -
  let ?i = "slot_of n v"
  have "kmem m' (entry (page_kva m f) ?i) = kmem m (entry (page_kva m f) ?i)" using assms(3) by (simp add: agree_def table_pages_def)
  moreover have "agree (R ?i) m m'" by (rule agree_mono [OF assms(3)]) (use slot_of_less [of n v] in \<open>auto simp: table_pages_def\<close>)
  moreover have "entry_ok m n (kmem m (entry (page_kva m f) ?i)) (R ?i)" using assms(2) by (simp add: table_ok_def)
  ultimately show ?thesis using leaf_frame [OF assms(1)] by (simp add: table_leaf_def)
qed


section \<open>Addresses and blocks\<close>

lemma index_shift_Suc: "2 ^ index_shift (Suc n) = 512 * (2 ^ index_shift n :: nat)"
  by (simp add: index_shift_def power_add)

lemma index_shift_dvd: "l \<le> n \<Longrightarrow> (2 ^ index_shift l :: nat) dvd 2 ^ index_shift n"
  by (simp add: index_shift_def le_imp_power_dvd)

text \<open>The addresses in the block of \<open>v\<close> at level \<open>l\<close>.\<close>

definition block :: "nat \<Rightarrow> nat \<Rightarrow> nat set" where
  "block l v = {x. x div 2 ^ index_shift l = v div 2 ^ index_shift l}"

lemma block_coarser:
  assumes "x \<in> block l v" "l \<le> n"
  shows "x div 2 ^ index_shift n = v div 2 ^ index_shift n"
proof -
  obtain k where "2 ^ index_shift n = 2 ^ index_shift l * (k :: nat)" using index_shift_dvd [OF assms(2)] by blast
  then show ?thesis using assms(1) by (simp add: block_def div_mult2_eq)
qed

lemma block_self [simp]: "v \<in> block l v"
  by (simp add: block_def)

lemma leaf_level: "leaf m n e v = Some (e', l) \<Longrightarrow> l \<le> n"
  by (induction n arbitrary: e) (auto split: if_splits intro: le_SucI)

lemma table_leaf_level: "table_leaf m n t v = Some (e', l) \<Longrightarrow> l \<le> n"
  by (auto simp: table_leaf_def dest: leaf_level)

text \<open>A leaf translates all addresses of its block.\<close>

lemma leaf_block: "leaf m n e v = Some (e', l) \<Longrightarrow> w \<in> block l v \<Longrightarrow> leaf m n e w = Some (e', l)"
proof (induction n arbitrary: e)
  case (Suc n)
  show ?case
  proof (cases "e AND 3 = 3")
    case True
    let ?t = "\<lambda>v. kmem m (entry (paddr_to_kvaddr m (out e)) (slot_of n v))"
    have l: "leaf m n (?t v) v = Some (e', l)" using Suc.prems(1) True by simp
    have "slot_of n w = slot_of n v" using block_coarser [OF Suc.prems(2) leaf_level [OF l]] by (simp add: slot_of_def)
    then show ?thesis using Suc.IH [OF l Suc.prems(2)] True by simp
  qed (use Suc.prems in auto)
qed simp

lemma table_leaf_block:
  assumes "table_leaf m n t v = Some (e', l)" "w \<in> block l v"
  shows "table_leaf m n t w = Some (e', l)"
proof -
  have "slot_of n w = slot_of n v" using block_coarser [OF assms(2) table_leaf_level [OF assms(1)]] by (simp add: slot_of_def)
  then show ?thesis using leaf_block [of m n _ v e' l w] assms unfolding table_leaf_def by metis
qed

text \<open>What is left of the translations \<open>L\<close> without the leaves that meet \<open>A\<close>.\<close>

definition removed :: "(nat \<Rightarrow> (u64 \<times> nat) option) \<Rightarrow> nat set \<Rightarrow> nat \<Rightarrow> (u64 \<times> nat) option" where
  "removed L A v = (case L v of None \<Rightarrow> None | Some (e, l) \<Rightarrow> if block l v \<inter> A = {} then Some (e, l) else None)"

lemma removed_Un: "removed (removed L A) B v = removed L (A \<union> B) v"
  by (auto simp: removed_def Int_Un_distrib split: option.splits)

lemma removed_cong: "L v = L' v \<Longrightarrow> removed L A v = removed L' A v"
  by (simp add: removed_def)

lemma removed_empty [simp]: "removed L {} v = L v"
  by (simp add: removed_def split: option.splits)

lemma removed_None: "L v = None \<Longrightarrow> removed L A v = None"
  by (simp add: removed_def)

text \<open>The part of the table's addresses an entry covers; \<open>b\<close> is the first address of the table.\<close>

definition cover :: "nat \<Rightarrow> nat \<Rightarrow> nat \<Rightarrow> nat set" where
  "cover n b i = {b + i * 2 ^ index_shift n..<b + i * 2 ^ index_shift n + 2 ^ index_shift n}"

lemma cover_slot:
  assumes b: "b mod 2 ^ index_shift (Suc n) = 0" and v: "v \<in> cover n b i" and i: "i < 512"
  shows "slot_of n v = i" "v div 2 ^ index_shift n = b div 2 ^ index_shift n + i"
proof -
  let ?B = "2 ^ index_shift n :: nat"
  obtain k where k: "b = 512 * ?B * k" using b by (auto simp: index_shift_Suc)
  define x where "x = v - (b + i * ?B)"
  have x: "v = x + (512 * k + i) * ?B" "x < ?B" using v by (auto simp: x_def cover_def k algebra_simps)
  have d: "v div ?B = 512 * k + i" using x by simp
  have "b div ?B = 512 * k" by (simp add: k)
  then show "v div ?B = b div ?B + i" using d by simp
  show "slot_of n v = i" using d i by (simp add: slot_of_def)
qed

lemma cover_iff:
  assumes "b mod 2 ^ index_shift (Suc n) = 0" "v \<in> {b..<b + 2 ^ index_shift (Suc n)}" "i < 512"
  shows "v \<in> cover n b i \<longleftrightarrow> slot_of n v = i"
proof -
  let ?B = "2 ^ index_shift n :: nat"
  have B: "0 < ?B" by simp
  define j where "j = (v - b) div ?B"
  have "v - b < 512 * ?B" using assms(2) by (auto simp: index_shift_Suc)
  then have j: "j < 512" unfolding j_def by (simp add: div_less_iff_less_mult mult.commute)
  have m: "j * ?B \<le> v - b" "v - b < j * ?B + ?B"
    using div_mult_mod_eq [of "v - b" ?B] mod_less_divisor [OF B, of "v - b"] unfolding j_def by linarith+
  have vj: "v \<in> cover n b j" using assms(2) m unfolding cover_def by auto
  show ?thesis using cover_slot(1) [OF assms(1) vj j] cover_slot(1) [OF assms(1) _ assms(3), of v] vj by auto
qed

lemma cover_block:
  assumes "b mod 2 ^ index_shift (Suc n) = 0" "v \<in> cover n b i" "i < 512" "l \<le> n" "x \<in> block l v"
  shows "x \<in> cover n b i"
proof -
  let ?B = "2 ^ index_shift n :: nat"
  have B: "0 < ?B" by simp
  have "x div ?B = b div ?B + i" using block_coarser [OF assms(5,4)] cover_slot(2) [OF assms(1-3)] by simp
  moreover have "b = b div ?B * ?B" using assms(1) index_shift_dvd [of n "Suc n"] by (metis dvd_div_mult_self dvd_trans le_SucI mod_0_imp_dvd order_refl)
  moreover have "x div ?B * ?B \<le> x" "x < x div ?B * ?B + ?B" using div_mult_mod_eq [of x ?B] mod_less_divisor [OF B, of x] by linarith+
  ultimately show ?thesis unfolding cover_def by (auto simp: algebra_simps)
qed

lemma removed_outside:
  assumes "b mod 2 ^ index_shift (Suc n) = 0" "v \<in> cover n b i" "i < 512" "A \<inter> cover n b i = {}"
  shows "removed (table_leaf m n t) A v = table_leaf m n t v"
proof (cases "table_leaf m n t v")
  case (Some r)
  obtain e l where r: "r = (e, l)" by (cases r)
  have "block l v \<subseteq> cover n b i" using cover_block [OF assms(1-3) table_leaf_level [OF Some [unfolded r]]] by blast
  then have "block l v \<inter> A = {}" using assms(4) by blast
  then show ?thesis using Some by (simp add: removed_def r)
qed (simp add: removed_def)

section \<open>Entries in memory\<close>

lemma entry_slot: "i < 512 \<Longrightarrow> entry k i = slot k (of_nat i)"
proof -
  assume i: "i < 512"
  have "unat (ucast (of_nat i :: u32) :: u64) = unat (of_nat i :: u64)"
    using i by (simp add: unsigned_ucast_eq unat_of_nat take_bit_nat_eq_self)
  then have "(ucast (of_nat i :: u32) :: u64) = of_nat i" by (simp only: unsigned_word_eqI)
  then show ?thesis by (simp add: entry_def slot_def)
qed

lemma entry_in_page: "i < 512 \<Longrightarrow> in_page k (entry k i)"
  using slot_in_page [of "of_nat i" k] by (simp add: entry_slot unat_of_nat)

lemma entry_inj: "i < 512 \<Longrightarrow> j < 512 \<Longrightarrow> entry k i = entry k j \<longleftrightarrow> i = j"
proof
  assume a: "i < 512" "j < 512" "entry k i = entry k j"
  have "slot k (of_nat i) = slot k (of_nat j)" using a by (simp only: entry_slot)
  then have "(of_nat i :: u32) = of_nat j" by (simp only: slot_inj)
  then have "unat (of_nat i :: u32) = unat (of_nat j :: u32)" by simp
  then show "i = j" using a(1,2) by (simp add: unat_of_nat)
qed simp

lemma entries_apart:
  assumes "kva_ok m" "f \<in> all_pages (arenas m)" "g \<in> all_pages (arenas m)" "f \<noteq> g" "i < 512" "j < 512"
  shows "entry (page_kva m f) i \<noteq> entry (page_kva m g) j"
  using assms(1) entry_in_page [OF assms(5), of "page_kva m f"] entry_in_page [OF assms(6), of "page_kva m g"] assms(2-4)
  unfolding kva_ok_def by metis


section \<open>The invariant and the steps of the tables\<close>

text \<open>The page structure of a table is found again from its address.\<close>

definition pages_found :: "mm_state \<Rightarrow> bool" where
  "pages_found m \<longleftrightarrow> (\<forall>f\<in>all_pages (arenas m). paddr_to_vm_page (arenas m) (unat (page_paddr m f)) = Some f)"

definition table_inv :: "nat \<Rightarrow> vm_page \<Rightarrow> mm_state \<Rightarrow> (nat \<Rightarrow> vm_page set) \<Rightarrow> bool" where
  "table_inv n f m R \<longleftrightarrow> pmm_inv (arenas m) \<and> kva_ok m \<and> pages_found m \<and> table_ok (entry_ok m n) m f R \<and>
     table_pages f R \<inter> free_pages (arenas m) = {}"

text \<open>What a step may change: the memory of the tables and of free pages. Every page is free or in the tables as before.\<close>

definition table_step :: "nat \<Rightarrow> vm_page \<Rightarrow> mm_state \<Rightarrow> mm_state \<Rightarrow> (nat \<Rightarrow> vm_page set) \<Rightarrow> (nat \<Rightarrow> vm_page set) \<Rightarrow> bool" where
  "table_step n f m m' R R' \<longleftrightarrow> same_frame m m' \<and> table_inv n f m' R' \<and>
     free_pages (arenas m') \<union> table_pages f R' = free_pages (arenas m) \<union> table_pages f R \<and>
     (\<forall>g\<in>all_pages (arenas m). g \<notin> table_pages f R \<longrightarrow> g \<notin> free_pages (arenas m) \<longrightarrow> agree {g} m m')"

lemma table_invD:
  assumes "table_inv n f m R"
  shows "pmm_inv (arenas m)" "kva_ok m" "pages_found m" "table_ok (entry_ok m n) m f R" "table_pages f R \<inter> free_pages (arenas m) = {}"
    "f \<in> all_pages (arenas m)" "\<And>i. i < 512 \<Longrightarrow> f \<notin> R i" "\<And>i j. i < 512 \<Longrightarrow> j < 512 \<Longrightarrow> i \<noteq> j \<Longrightarrow> R i \<inter> R j = {}"
    "\<And>i. i < 512 \<Longrightarrow> entry_ok m n (kmem m (entry (page_kva m f) i)) (R i)" "f \<notin> free_pages (arenas m)" "\<And>i. i < 512 \<Longrightarrow> R i \<inter> free_pages (arenas m) = {}"
  using assms by (auto simp: table_inv_def table_ok_def table_pages_def)

lemma frame_pages_found: "same_frame m m' \<Longrightarrow> pages_found m' = pages_found m"
proof -
  assume fr: "same_frame m m'"
  then have g: "map geom (arenas m') = map geom (arenas m)" by (simp add: same_frame_def)
  show ?thesis unfolding pages_found_def frame_eqs [OF fr] paddr_to_vm_page_geom [OF g] ..
qed

lemma agree_trans: "same_frame m m' \<Longrightarrow> agree Q m m' \<Longrightarrow> agree Q m' m'' \<Longrightarrow> agree Q m m''"
  by (simp add: agree_def frame_eqs)

lemma table_step_refl: "table_inv n f m R \<Longrightarrow> table_step n f m m R R"
  by (simp add: table_step_def agree_def)

lemma table_step_trans:
  assumes "table_step n f m m' R R'" "table_step n f m' m'' R' R''"
  shows "table_step n f m m'' R R''"
proof -
  have fr: "same_frame m m'" using assms(1) by (simp add: table_step_def)
  have "agree {g} m m''" if g: "g \<in> all_pages (arenas m)" "g \<notin> table_pages f R" "g \<notin> free_pages (arenas m)" for g
  proof -
    have "g \<notin> table_pages f R'" "g \<notin> free_pages (arenas m')" using assms(1) g(2,3) by (auto simp: table_step_def)
    then show ?thesis using assms g agree_trans [OF fr] by (simp add: table_step_def frame_eqs [OF fr])
  qed
  then show ?thesis using assms same_frame_trans [OF fr] by (simp add: table_step_def)
qed

lemma table_step_inv: "table_step n f m m' R R' \<Longrightarrow> table_inv n f m' R'"
  by (simp add: table_step_def)

text \<open>One entry changes, with the tables below it.\<close>

definition entry_step :: "nat \<Rightarrow> vm_page \<Rightarrow> nat \<Rightarrow> mm_state \<Rightarrow> mm_state \<Rightarrow> vm_page set \<Rightarrow> vm_page set \<Rightarrow> bool" where
  "entry_step n f i m m' Q Q' \<longleftrightarrow> same_frame m m' \<and> pmm_inv (arenas m') \<and> entry_ok m' n (kmem m' (entry (page_kva m f) i)) Q' \<and>
     (\<forall>j<512. j \<noteq> i \<longrightarrow> kmem m' (entry (page_kva m f) j) = kmem m (entry (page_kva m f) j)) \<and>
     Q' \<inter> free_pages (arenas m') = {} \<and> free_pages (arenas m') \<union> Q' = free_pages (arenas m) \<union> Q \<and>
     (\<forall>g\<in>all_pages (arenas m). g \<noteq> f \<longrightarrow> g \<notin> Q \<longrightarrow> g \<notin> free_pages (arenas m) \<longrightarrow> agree {g} m m')"

lemma entry_step_table:
  assumes inv: "table_inv n f m R" and i: "i < 512" and st: "entry_step n f i m m' (R i) Q'"
  shows "table_step n f m m' R (R(i := Q'))"
    "slot_of n v \<noteq> i \<Longrightarrow> table_leaf m' n (page_kva m f) v = table_leaf m n (page_kva m f) v"
    "slot_of n v = i \<Longrightarrow> table_leaf m' n (page_kva m f) v = leaf m' n (kmem m' (entry (page_kva m f) i)) v"
proof -
  note d = table_invD [OF inv]
  have s: "same_frame m m'" "pmm_inv (arenas m')" "entry_ok m' n (kmem m' (entry (page_kva m f) i)) Q'"
    "\<And>j. j < 512 \<Longrightarrow> j \<noteq> i \<Longrightarrow> kmem m' (entry (page_kva m f) j) = kmem m (entry (page_kva m f) j)"
    "Q' \<inter> free_pages (arenas m') = {}" "free_pages (arenas m') \<union> Q' = free_pages (arenas m) \<union> R i"
    "\<And>g. g \<in> all_pages (arenas m) \<Longrightarrow> g \<noteq> f \<Longrightarrow> g \<notin> R i \<Longrightarrow> g \<notin> free_pages (arenas m) \<Longrightarrow> agree {g} m m'"
    using st by (simp_all add: entry_step_def)
  note e = frame_eqs [OF s(1)]
  have ag: "agree (R j) m m'" if "j < 512" "j \<noteq> i" for j
  proof -
    have "agree {g} m m'" if g: "g \<in> R j" for g
    proof -
      have "g \<in> all_pages (arenas m)" using entry_pages [OF d(9) [OF \<open>j < 512\<close>]] g by blast
      moreover have "g \<noteq> f" "g \<notin> R i" "g \<notin> free_pages (arenas m)" using d(7,11) [OF \<open>j < 512\<close>] d(8) [OF \<open>j < 512\<close> i \<open>j \<noteq> i\<close>] g by blast+
      ultimately show ?thesis using s(7) by blast
    qed
    then show ?thesis by (auto simp: agree_def)
  qed
  have ok: "entry_ok m' n (kmem m' (entry (page_kva m f) j)) ((R(i := Q')) j)" if "j < 512" for j
    using s(3,4) that entry_ok_frame [OF s(1) d(9) [OF that]] ag [OF that] by (cases "j = i") simp_all
  have Q': "Q' \<subseteq> free_pages (arenas m) \<union> R i" using s(6) by blast
  have f: "f \<notin> Q'" "\<And>j. j < 512 \<Longrightarrow> j \<noteq> i \<Longrightarrow> R j \<inter> Q' = {}"
    using Q' d(7,10) i d(8,11) by blast+
  have dj: "(R(i := Q')) j \<inter> (R(i := Q')) k = {}" if "j < 512" "k < 512" "j \<noteq> k" for j k
    using d(8) [OF that] f(2) that by (cases "j = i"; cases "k = i") (simp_all add: Int_commute)
  have nf: "f \<notin> (R(i := Q')) j" if "j < 512" for j using d(7) [OF that] f(1) by simp
  have t: "table_ok (entry_ok m' n) m' f (R(i := Q'))" using ok d(6) dj nf unfolding table_ok_def e by blast
  have tp: "table_pages f (R(i := Q')) = insert f (\<Union>j\<in>{..<512} - {i}. R j) \<union> Q'" "table_pages f R = insert f (\<Union>j\<in>{..<512} - {i}. R j) \<union> R i"
    using i by (auto simp: table_pages_def)
  have "insert f (\<Union>j\<in>{..<512} - {i}. R j) \<inter> free_pages (arenas m') = {}"
  proof -
    have "free_pages (arenas m') \<subseteq> free_pages (arenas m) \<union> R i" using s(6) by blast
    moreover have "insert f (\<Union>j\<in>{..<512} - {i}. R j) \<inter> (free_pages (arenas m) \<union> R i) = {}" using d(7,8,10,11) i by blast
    ultimately show ?thesis by blast
  qed
  then have disj: "table_pages f (R(i := Q')) \<inter> free_pages (arenas m') = {}" unfolding tp(1) using s(5) by blast
  have "table_inv n f m' (R(i := Q'))" using s(2) d(2,3) t disj frame_pages_found [OF s(1)] by (simp add: table_inv_def e)
  moreover have "free_pages (arenas m') \<union> table_pages f (R(i := Q')) = free_pages (arenas m) \<union> table_pages f R" unfolding tp using s(6) by blast
  moreover have "agree {g} m m'" if "g \<in> all_pages (arenas m)" "g \<notin> table_pages f R" "g \<notin> free_pages (arenas m)" for g
    using s(7) [OF that(1) _ _ that(3)] that(2) i by (auto simp: table_pages_def)
  ultimately show "table_step n f m m' R (R(i := Q'))" using s(1) by (simp add: table_step_def)
  show "table_leaf m' n (page_kva m f) v = table_leaf m n (page_kva m f) v" if "slot_of n v \<noteq> i"
  proof -
    let ?j = "slot_of n v"
    have "kmem m' (entry (page_kva m f) ?j) = kmem m (entry (page_kva m f) ?j)" using s(4) that by simp
    then show ?thesis using leaf_frame [OF s(1) d(9) ag, of ?j v] that by (simp add: table_leaf_def)
  qed
  show "table_leaf m' n (page_kva m f) v = leaf m' n (kmem m' (entry (page_kva m f) i)) v" if "slot_of n v = i"
    using that by (simp add: table_leaf_def)
qed


section \<open>Unmapping\<close>

lemma poke_simps [simp]:
  "kmem (poke a w m) = (kmem m)(a := w)" "arenas (poke a w m) = arenas m" "same_frame m (poke a w m)" "paddr_to_kvaddr (poke a w m) = paddr_to_kvaddr m"
  by (simp_all add: poke_def same_frame_def paddr_to_kvaddr_def fun_eq_iff)

lemma entry_ok_leaf: "e = 0 \<or> e AND 3 = (if n = 0 then 3 else 1) \<Longrightarrow> entry_ok m n e {}"
  by (cases n) auto

lemma entry_no_table: "entry_ok m n e Q \<Longrightarrow> n = 0 \<or> e AND 3 \<noteq> 3 \<Longrightarrow> Q = {} \<and> (e = 0 \<or> e AND 3 = (if n = 0 then 3 else 1))"
  by (cases n) auto

lemma leaf_no_table: "n = 0 \<or> e AND 3 \<noteq> 3 \<Longrightarrow> entry_ok m n e Q \<Longrightarrow> leaf m' n e v = (if e = 0 then None else Some (e, n))"
  by (cases n) auto

text \<open>An entry without a table below it gets a value that is no table either.\<close>

lemma poke_entry_step:
  assumes inv: "table_inv n f m R" and i: "i < 512" and R: "R i = {}" and w: "w = 0 \<or> w AND 3 = (if n = 0 then 3 else 1)"
  shows "entry_step n f i m (poke (entry (page_kva m f) i) w m) (R i) {}"
proof -
  note d = table_invD [OF inv]
  have "agree {g} m (poke (entry (page_kva m f) i) w m)" if "g \<in> all_pages (arenas m)" "g \<noteq> f" for g
    using entries_apart [OF d(2) that(1) d(6) that(2)] i by (simp add: agree_def)
  then show ?thesis using d(1) entry_ok_leaf [OF w] entry_inj i by (simp add: entry_step_def R)
qed

text \<open>The table below an entry.\<close>

lemma nested_table:
  assumes inv: "table_inv (Suc n) f m R" and i: "i < 512" and e: "kmem m (entry (page_kva m f) i) = e" "e AND 3 = 3"
  obtains g Rg where "page_paddr m g = out e" "R i = table_pages g Rg" "table_inv n g m Rg"
proof -
  note d = table_invD [OF inv]
  obtain g Rg where g: "page_paddr m g = out e" "table_ok (entry_ok m n) m g Rg" "R i = table_pages g Rg" using d(9) [OF i] e by auto
  then have "table_inv n g m Rg" using d(1-3) d(11) [OF i] by (simp add: table_inv_def)
  then show thesis using that g by blast
qed

lemma nested_kept:
  assumes inv: "table_inv (Suc n) f m R" and i: "i < 512" and e: "kmem m (entry (page_kva m f) i) = e" "e AND 3 = 3"
    and g: "page_paddr m g = out e" "R i = table_pages g Rg" and st: "table_step n g m m1 Rg Rg'"
  shows "\<And>j. j < 512 \<Longrightarrow> kmem m1 (entry (page_kva m f) j) = kmem m (entry (page_kva m f) j)"
    "entry_step (Suc n) f i m m1 (R i) (table_pages g Rg')"
proof -
  note d = table_invD [OF inv]
  have fr: "same_frame m m1" and inv1: "table_inv n g m1 Rg'" and acc: "free_pages (arenas m1) \<union> table_pages g Rg' = free_pages (arenas m) \<union> table_pages g Rg"
    and ag: "\<And>g'. g' \<in> all_pages (arenas m) \<Longrightarrow> g' \<notin> table_pages g Rg \<Longrightarrow> g' \<notin> free_pages (arenas m) \<Longrightarrow> agree {g'} m m1"
    using st by (simp_all add: table_step_def)
  have "f \<notin> table_pages g Rg" using d(7) [OF i] g(2) by simp
  then have "agree {f} m m1" using ag d(6,10) by blast
  then show k: "kmem m1 (entry (page_kva m f) j) = kmem m (entry (page_kva m f) j)" if "j < 512" for j using that by (simp add: agree_def)
  note d1 = table_invD [OF inv1]
  have "page_paddr m1 g = out e \<and> table_ok (entry_ok m1 n) m1 g Rg' \<and> table_pages g Rg' = table_pages g Rg'" using d1(4) g(1) by (simp add: frame_eqs [OF fr])
  then have "\<exists>g' R'. page_paddr m1 g' = out e \<and> table_ok (entry_ok m1 n) m1 g' R' \<and> table_pages g Rg' = table_pages g' R'" by blast
  then have ok: "entry_ok m1 (Suc n) (kmem m1 (entry (page_kva m f) i)) (table_pages g Rg')" using k [OF i] e by simp
  show "entry_step (Suc n) f i m m1 (R i) (table_pages g Rg')"
    unfolding entry_step_def using fr d1(1,5) ok k acc ag g(2) by simp
qed

lemma nested_cleared:
  assumes inv: "table_inv (Suc n) f m R" and i: "i < 512" and e: "kmem m (entry (page_kva m f) i) = e" "e AND 3 = 3"
    and g: "page_paddr m g = out e" "R i = table_pages g Rg" and st: "table_step n g m m1 Rg Rg'"
    and z: "\<forall>j<512. kmem m1 (entry (page_kva m g) j) = 0"
  shows "entry_step (Suc n) f i m ((poke (entry (page_kva m f) i) 0 m1)\<lparr>arenas := fst (pmm_free_page g (arenas m1))\<rparr>) (R i) {}"
proof -
  let ?m = "(poke (entry (page_kva m f) i) 0 m1)\<lparr>arenas := fst (pmm_free_page g (arenas m1))\<rparr>"
  note d = table_invD [OF inv]
  have fr: "same_frame m m1" and inv1: "table_inv n g m1 Rg'" and acc: "free_pages (arenas m1) \<union> table_pages g Rg' = free_pages (arenas m) \<union> table_pages g Rg"
    and ag: "\<And>g'. g' \<in> all_pages (arenas m) \<Longrightarrow> g' \<notin> table_pages g Rg \<Longrightarrow> g' \<notin> free_pages (arenas m) \<Longrightarrow> agree {g'} m m1"
    using st by (simp_all add: table_step_def)
  note d1 = table_invD [OF inv1]
  have "Rg' j = {}" if "j < 512" for j
    using d1(9) [OF that] entry_no_table [of m1 n 0 "Rg' j"] z that by (simp add: frame_eqs [OF fr])
  then have tp: "table_pages g Rg' = {g}" by (simp add: table_pages_def)
  have fp: "pmm_inv (arenas ?m)" "free_pages (arenas ?m) = insert g (free_pages (arenas m1))"
    using pmm_free_page_effect [OF d1(1), of g] d1(6,10) by simp_all
  have "map geom (arenas ?m) = map geom (arenas m1)" by (simp add: pmm_free_page_def free_one_geom split_beta)
  then have fr': "same_frame m ?m" using fr by (simp add: same_frame_def poke_def)
  have k: "kmem ?m (entry (page_kva m f) j) = kmem m (entry (page_kva m f) j)" if "j < 512" "j \<noteq> i" for j
    using nested_kept(1) [OF inv i e g st that(1)] entry_inj [OF that(1) i] that(2) by simp
  have "agree {g'} m ?m" if g': "g' \<in> all_pages (arenas m)" "g' \<noteq> f" "g' \<notin> R i" "g' \<notin> free_pages (arenas m)" for g'
    using ag [OF g'(1)] g' g(2) entries_apart [OF d(2) g'(1) d(6) g'(2)] i by (simp add: agree_def)
  then show ?thesis
    unfolding entry_step_def using fr' fp k acc g(2) entry_ok_leaf [of 0 "Suc n" ?m] by (auto simp: tp)
qed

text \<open>What unmapping a range of a table does.\<close>

definition unmaps :: "nat \<Rightarrow> vm_page \<Rightarrow> mm_state \<Rightarrow> mm_state \<Rightarrow> (nat \<Rightarrow> vm_page set) \<Rightarrow> (nat \<Rightarrow> vm_page set) \<Rightarrow> nat \<Rightarrow> nat \<Rightarrow> bool" where
  "unmaps n f m m' R R' r sz \<longleftrightarrow> table_step n f m m' R R' \<and>
     (\<forall>b v. b mod 2 ^ index_shift (Suc n) = 0 \<longrightarrow> v \<in> {b..<b + 2 ^ index_shift (Suc n)} \<longrightarrow>
        table_leaf m' n (page_kva m f) v = removed (table_leaf m n (page_kva m f)) {b + r..<b + r + sz} v) \<and>
     (\<forall>i<512. cover n 0 i \<inter> {r..<r + sz} = {} \<longrightarrow> kmem m' (entry (page_kva m f) i) = kmem m (entry (page_kva m f) i)) \<and>
     (\<forall>i<512. cover n 0 i \<subseteq> {r..<r + sz} \<longrightarrow> kmem m' (entry (page_kva m f) i) = 0)"

lemma unmaps_leaf:
  "unmaps n f m m' R R' r sz \<Longrightarrow> b mod 2 ^ index_shift (Suc n) = 0 \<Longrightarrow> v \<in> {b..<b + 2 ^ index_shift (Suc n)} \<Longrightarrow>
     table_leaf m' n (page_kva m f) v = removed (table_leaf m n (page_kva m f)) {b + r..<b + r + sz} v"
  unfolding unmaps_def by simp

lemma unmaps_entries:
  assumes "unmaps n f m m' R R' r sz" "i < 512"
  shows "cover n 0 i \<inter> {r..<r + sz} = {} \<Longrightarrow> kmem m' (entry (page_kva m f) i) = kmem m (entry (page_kva m f) i)"
    "cover n 0 i \<subseteq> {r..<r + sz} \<Longrightarrow> kmem m' (entry (page_kva m f) i) = 0"
  using assms unfolding unmaps_def by simp_all

lemma cover_nonempty: "cover n b i \<noteq> {}"
  by (simp add: cover_def)

lemma unmaps_nothing: "table_inv n f m R \<Longrightarrow> unmaps n f m m R R r 0"
  by (simp add: unmaps_def table_step_refl cover_nonempty)

lemma unmaps_append:
  assumes u: "unmaps n f m m1 R R1 r c" "unmaps n f m1 m2 R1 R2 (r + c) d" and al: "d = 0 \<or> (r + c) mod 2 ^ index_shift n = 0"
  shows "unmaps n f m m2 R R2 r (c + d)"
proof -
  have fr: "same_frame m m1" using u(1) by (simp add: unmaps_def table_step_def)
  note e = frame_eqs [OF fr]
  have "table_step n f m m2 R R2" using u table_step_trans unfolding unmaps_def by blast
  moreover have "table_leaf m2 n (page_kva m f) v = removed (table_leaf m n (page_kva m f)) {b + r..<b + r + (c + d)} v"
    if b: "b mod 2 ^ index_shift (Suc n) = 0" "v \<in> {b..<b + 2 ^ index_shift (Suc n)}" for b v
  proof -
    have "table_leaf m2 n (page_kva m f) v = removed (table_leaf m1 n (page_kva m f)) {b + (r + c)..<b + (r + c) + d} v"
      using unmaps_leaf [OF u(2) b] unfolding e .
    also have "\<dots> = removed (removed (table_leaf m n (page_kva m f)) {b + r..<b + r + c}) {b + (r + c)..<b + (r + c) + d} v"
      by (rule removed_cong) (rule unmaps_leaf [OF u(1) b])
    also have "{b + r..<b + r + c} \<union> {b + (r + c)..<b + (r + c) + d} = {b + r..<b + r + (c + d)}" by auto
    then have "removed (removed (table_leaf m n (page_kva m f)) {b + r..<b + r + c}) {b + (r + c)..<b + (r + c) + d} v =
        removed (table_leaf m n (page_kva m f)) {b + r..<b + r + (c + d)} v" by (simp only: removed_Un)
    finally show ?thesis .
  qed
  moreover have sp: "{r..<r + (c + d)} = {r..<r + c} \<union> {r + c..<r + c + d}" by auto
  have "kmem m2 (entry (page_kva m f) i) = kmem m (entry (page_kva m f) i)" if "i < 512" "cover n 0 i \<inter> {r..<r + (c + d)} = {}" for i
  proof -
    have "cover n 0 i \<inter> {r..<r + c} = {}" "cover n 0 i \<inter> {r + c..<r + c + d} = {}" using that(2) unfolding sp by blast+
    then show ?thesis using unmaps_entries(1) [OF u(1) that(1)] unmaps_entries(1) [OF u(2) that(1)] unfolding e by simp
  qed
  moreover have "kmem m2 (entry (page_kva m f) i) = 0" if i: "i < 512" "cover n 0 i \<subseteq> {r..<r + (c + d)}" for i
  proof -
    let ?B = "2 ^ index_shift n :: nat"
    have cv: "cover n 0 i = {i * ?B..<i * ?B + ?B}" by (simp add: cover_def)
    consider "cover n 0 i \<subseteq> {r..<r + c}" "cover n 0 i \<inter> {r + c..<r + c + d} = {}" | "cover n 0 i \<subseteq> {r + c..<r + c + d}"
    proof (cases "d = 0")
      case True
      then show thesis using that(1) i(2) by simp
    next
      case False
      then obtain k where k: "r + c = ?B * k" using al by auto
      have b: "r \<le> i * ?B" "i * ?B + ?B \<le> r + (c + d)" using i(2) unfolding cv by (simp_all add: atLeastLessThan_subset_iff)
      have "i < k \<or> k \<le> i" by linarith
      then show thesis
      proof
        assume "i < k"
        then have "i * ?B + ?B \<le> r + c" unfolding k using mult_le_mono2 [of "Suc i" k ?B] by (simp add: algebra_simps)
        then show thesis using that(1) b unfolding cv by auto
      next
        assume "k \<le> i"
        then have "r + c \<le> i * ?B" unfolding k by (simp add: mult.commute)
        then show thesis using that(2) b unfolding cv by auto
      qed
    qed
    then show ?thesis
    proof cases
      case 1
      then show ?thesis using unmaps_entries(2) [OF u(1) i(1)] unmaps_entries(1) [OF u(2) i(1)] unfolding e by simp
    next
      case 2
      then show ?thesis using unmaps_entries(2) [OF u(2) i(1)] unfolding e by simp
    qed
  qed
  ultimately show ?thesis unfolding unmaps_def by blast
qed

text \<open>One entry is enough for a range inside it.\<close>

lemma unmaps_entry:
  assumes inv: "table_inv n f m R" and i: "i < 512" and st: "entry_step n f i m m1 (R i) Q'"
    and c: "0 < c" "{r..<r + c} \<subseteq> cover n 0 i"
    and l: "\<And>b v. b mod 2 ^ index_shift (Suc n) = 0 \<Longrightarrow> v \<in> cover n b i \<Longrightarrow>
        leaf m1 n (kmem m1 (entry (page_kva m f) i)) v = removed (table_leaf m n (page_kva m f)) {b + r..<b + r + c} v"
    and z: "c = 2 ^ index_shift n \<Longrightarrow> kmem m1 (entry (page_kva m f) i) = 0"
  shows "unmaps n f m m1 R (R(i := Q')) r c"
proof -
  let ?B = "2 ^ index_shift n :: nat"
  note s = entry_step_table [OF inv i st]
  have cr: "i * ?B \<le> r" "r + c \<le> i * ?B + ?B" using c by (auto simp: cover_def atLeastLessThan_subset_iff)
  have sub: "{b + r..<b + r + c} \<subseteq> cover n b i" for b using cr by (auto simp: cover_def)
  have leaf: "table_leaf m1 n (page_kva m f) v = removed (table_leaf m n (page_kva m f)) {b + r..<b + r + c} v"
    if b: "b mod 2 ^ index_shift (Suc n) = 0" "v \<in> {b..<b + 2 ^ index_shift (Suc n)}" for b v
  proof (cases "slot_of n v = i")
    case True
    then have "v \<in> cover n b i" using cover_iff [OF b i] by simp
    then show ?thesis using s(3) [OF True] l [OF b(1)] by simp
  next
    case False
    let ?j = "slot_of n v"
    have v: "v \<in> cover n b ?j" using cover_iff [OF b, of ?j] by simp
    have "cover n b i \<inter> cover n b ?j = {}" using cover_slot(1) [OF b(1) _ i] cover_slot(1) [OF b(1), of _ ?j] False by fastforce
    then have "{b + r..<b + r + c} \<inter> cover n b ?j = {}" using sub by blast
    from removed_outside [OF b(1) v _ this] show ?thesis using s(2) [OF False] by simp
  qed
  have other: "kmem m1 (entry (page_kva m f) j) = kmem m (entry (page_kva m f) j)" if "j < 512" "cover n 0 j \<inter> {r..<r + c} = {}" for j
  proof -
    have "j \<noteq> i" using that(2) c by fastforce
    then show ?thesis using st that(1) by (simp add: entry_step_def)
  qed
  have zero: "kmem m1 (entry (page_kva m f) j) = 0" if "j < 512" "cover n 0 j \<subseteq> {r..<r + c}" for j
  proof -
    have jr: "r \<le> j * ?B" "j * ?B + ?B \<le> r + c" using that(2) by (auto simp: cover_def atLeastLessThan_subset_iff)
    have "cover n 0 j \<subseteq> cover n 0 i" using that(2) c(2) by (rule subset_trans)
    then have "i * ?B \<le> j * ?B" "j * ?B + ?B \<le> i * ?B + ?B" by (simp_all add: cover_def atLeastLessThan_subset_iff)
    then have "j = i" by simp
    moreover have "c = ?B" using jr cr unfolding \<open>j = i\<close> by linarith
    ultimately show ?thesis using z by simp
  qed
  show ?thesis unfolding unmaps_def using s(1) leaf other zero by blast
qed


text \<open>One turn of the loop, with what the nested call does as a hypothesis.\<close>

definition unmap_chunk :: "nat \<Rightarrow> nat \<Rightarrow> nat \<Rightarrow> nat \<Rightarrow> u64 \<Rightarrow> bool \<Rightarrow> mmu_state \<Rightarrow> mmu_state option" where
  "unmap_chunk n vaddr r c t global s =
     (let pte = get_entry t (r div 2 ^ index_shift n) s
      in if n > 0 \<and> pte AND 3 = 3 then
           (let next = paddr_to_kvaddr (mm s) (out pte)
            in case arm64_mmu_unmap_pt (n - 1) vaddr (r mod 2 ^ index_shift n) c next global s of
                 None \<Rightarrow> None
               | Some s \<Rightarrow>
                   if c = 2 ^ index_shift n \<or> page_table_is_clear next s then free_page_table (out pte) (set_entry t (r div 2 ^ index_shift n) 0 s) else Some s)
         else if pte \<noteq> 0 then Some (ARM64_TLBI global vaddr (set_entry t (r div 2 ^ index_shift n) 0 s))
         else Some s)"

lemma unmap_pt_step:
  "sz \<noteq> 0 \<Longrightarrow> c = min sz (2 ^ index_shift n - r mod 2 ^ index_shift n) \<Longrightarrow>
     arm64_mmu_unmap_pt n vaddr r sz t global s =
       (case unmap_chunk n vaddr r c t global s of None \<Rightarrow> None
        | Some s \<Rightarrow> arm64_mmu_unmap_pt n (vaddr + c) (r + c) (sz - c) t global s)"
  unfolding arm64_mmu_unmap_pt.simps [of n vaddr r sz t global s] unmap_chunk_def by (simp only: Let_def if_False)

lemma cover_part:
  assumes "0 < c" "r mod 2 ^ index_shift n + c \<le> 2 ^ index_shift n"
  shows "{r..<r + c} \<subseteq> cover n 0 (r div 2 ^ index_shift n)"
proof -
  have "r = r div 2 ^ index_shift n * 2 ^ index_shift n + r mod 2 ^ index_shift n" by (rule div_mult_mod_eq [symmetric])
  then have "r div 2 ^ index_shift n * 2 ^ index_shift n \<le> r" "r + c \<le> r div 2 ^ index_shift n * 2 ^ index_shift n + 2 ^ index_shift n" using assms(2) by linarith+
  then show ?thesis unfolding cover_def by auto
qed

lemma unmap_chunk_nested:
  assumes inv: "table_inv (Suc k) f (mm s) R" and t: "t = page_kva (mm s) f" and c: "0 < c" "r mod 2 ^ index_shift (Suc k) + c \<le> 2 ^ index_shift (Suc k)"
    and i: "i = r div 2 ^ index_shift (Suc k)" "i < 512" and e: "kmem (mm s) (entry t i) = e" "e AND 3 = 3"
    and nested: "\<And>g Rg. table_inv k g (mm s) Rg \<Longrightarrow> \<exists>s1 Rg'. arm64_mmu_unmap_pt k vaddr (r mod 2 ^ index_shift (Suc k)) c (page_kva (mm s) g) global s = Some s1 \<and>
      unmaps k g (mm s) (mm s1) Rg Rg' (r mod 2 ^ index_shift (Suc k)) c"
  shows "\<exists>s1 R1. unmap_chunk (Suc k) vaddr r c t global s = Some s1 \<and> unmaps (Suc k) f (mm s) (mm s1) R R1 r c"
proof -
  let ?B = "2 ^ index_shift (Suc k) :: nat" and ?m = "mm s"
  note e' = e(1) [unfolded t] e(2)
  obtain g Rg where g: "page_paddr ?m g = out e" "R i = table_pages g Rg" "table_inv k g ?m Rg" using nested_table [OF inv i(2) e'] by blast
  obtain s1 Rg' where s1: "arm64_mmu_unmap_pt k vaddr (r mod ?B) c (page_kva ?m g) global s = Some s1" "unmaps k g ?m (mm s1) Rg Rg' (r mod ?B) c"
    using nested [OF g(3)] by blast
  have st: "table_step k g ?m (mm s1) Rg Rg'" using s1(2) by (simp add: unmaps_def)
  have fr: "same_frame ?m (mm s1)" using st by (simp add: table_step_def)
  note fe = frame_eqs [OF fr]
  have kv: "paddr_to_kvaddr ?m (out e) = page_kva ?m g" by (simp add: page_kva_def g(1))
  have part: "{r..<r + c} \<subseteq> cover (Suc k) 0 i" unfolding i(1) by (rule cover_part [OF c])
  have below: "table_leaf (mm s1) k (page_kva ?m g) v = removed (table_leaf ?m (Suc k) t) {b + r..<b + r + c} v"
    if b: "b mod 2 ^ index_shift (Suc (Suc k)) = 0" "v \<in> cover (Suc k) b i" for b v
  proof -
    let ?b = "b + i * ?B"
    have "?B dvd b" using b(1) index_shift_dvd [of "Suc k" "Suc (Suc k)"] by (meson dvd_trans le_SucI mod_0_imp_dvd order_refl)
    then have bm: "?b mod ?B = 0" by simp
    have vb: "v \<in> {?b..<?b + ?B}" using b(2) by (simp add: cover_def)
    have r: "?b + r mod ?B = b + r" using div_mult_mod_eq [of r ?B] i(1) by simp
    have "table_leaf ?m (Suc k) t v = table_leaf ?m k (page_kva ?m g) v"
      unfolding table_leaf_def [of _ "Suc k"] cover_slot(1) [OF b i(2)] e(1) leaf_Suc_table [OF e(2)] kv ..
    then show ?thesis using unmaps_leaf [OF s1(2) bm vb] unfolding r by (simp add: removed_def)
  qed
  let ?clear = "c = ?B \<or> page_table_is_clear (page_kva ?m g) s1"
  have run: "unmap_chunk (Suc k) vaddr r c t global s = (if ?clear then free_page_table (out e) (set_entry t i 0 s1) else Some s1)"
    using s1(1) unfolding unmap_chunk_def get_entry_def i(1) [symmetric] e(1) kv Let_def by (simp add: e(2) kv)
  show ?thesis
  proof (cases ?clear)
    case False
    have k: "kmem (mm s1) (entry t i) = e" using nested_kept(1) [OF inv i(2) e' g(1,2) st i(2)] e(1) by (simp add: t)
    have "unmaps (Suc k) f ?m (mm s1) R (R(i := table_pages g Rg')) r c"
    proof (rule unmaps_entry [OF inv i(2) nested_kept(2) [OF inv i(2) e' g(1,2) st] c(1) part])
      fix b v assume b: "b mod 2 ^ index_shift (Suc (Suc k)) = 0" "v \<in> cover (Suc k) b i"
      show "leaf (mm s1) (Suc k) (kmem (mm s1) (entry (page_kva ?m f) i)) v = removed (table_leaf ?m (Suc k) (page_kva ?m f)) {b + r..<b + r + c} v"
        using below [OF b] unfolding t k [unfolded t] leaf_Suc_table [OF e(2)] fe kv by simp
    qed (use False in simp)
    then show ?thesis using run False by auto
  next
    case True
    let ?t = "page_kva ?m g"
    have z: "\<forall>j<512. kmem (mm s1) (entry ?t j) = 0"
    proof (cases "c = ?B")
      case True
      then have r0: "r mod ?B = 0" using c(2) by simp
      show ?thesis
      proof (intro allI impI)
        fix j :: nat assume j: "j < 512"
        have "(j + 1) * 2 ^ index_shift k \<le> 512 * (2 ^ index_shift k :: nat)" using j by (intro mult_le_mono1) simp
        then have "j * 2 ^ index_shift k + 2 ^ index_shift k \<le> ?B" by (simp add: index_shift_Suc)
        then have "cover k 0 j \<subseteq> {0..<?B}" by (auto simp: cover_def)
        then have "cover k 0 j \<subseteq> {r mod ?B..<r mod ?B + c}" unfolding True r0 by simp
        then show "kmem (mm s1) (entry ?t j) = 0" by (rule unmaps_entries(2) [OF s1(2) j])
      qed
    qed (use True in \<open>simp add: page_table_is_clear_def get_entry_def\<close>)
    let ?m2 = "(poke (entry (page_kva ?m f) i) 0 (mm s1))\<lparr>arenas := fst (pmm_free_page g (arenas (mm s1)))\<rparr>"
    have es: "entry_step (Suc k) f i ?m ?m2 (R i) {}" by (rule nested_cleared [OF inv i(2) e' g(1,2) st z])
    have inv1: "table_inv k g (mm s1) Rg'" using st by (simp add: table_step_def)
    have "paddr_to_vm_page (arenas (mm s1)) (unat (out e)) = Some g"
      using table_invD(3,6) [OF inv1] g(1) unfolding pages_found_def by (metis fe(2))
    then have fp: "free_page_table (out e) (set_entry t i 0 s1) = Some (s1\<lparr>mm := ?m2\<rparr>)"
      by (simp add: free_page_table_def set_entry_def t)
    have "unmaps (Suc k) f ?m ?m2 R (R(i := {})) r c"
    proof (rule unmaps_entry [OF inv i(2) es c(1) part])
      fix b v assume b: "b mod 2 ^ index_shift (Suc (Suc k)) = 0" "v \<in> cover (Suc k) b i"
      have "leaf (mm s1) k 0 v = None" by (cases k) simp_all
      then have "table_leaf (mm s1) k ?t v = None" using z by (simp add: table_leaf_def)
      then show "leaf ?m2 (Suc k) (kmem ?m2 (entry (page_kva ?m f) i)) v = removed (table_leaf ?m (Suc k) (page_kva ?m f)) {b + r..<b + r + c} v"
        using below [OF b] by (simp add: t)
    qed simp
    then show ?thesis using run True fp by auto
  qed
qed

lemma unmap_chunk_leaf:
  assumes inv: "table_inv n f (mm s) R" and t: "t = page_kva (mm s) f" and c: "0 < c" "r mod 2 ^ index_shift n + c \<le> 2 ^ index_shift n"
    and i: "i = r div 2 ^ index_shift n" "i < 512" and e: "kmem (mm s) (entry t i) = e" "n = 0 \<or> e AND 3 \<noteq> 3"
  shows "\<exists>s1 R1. unmap_chunk n vaddr r c t global s = Some s1 \<and> unmaps n f (mm s) (mm s1) R R1 r c"
proof -
  let ?m = "mm s"
  have ok: "entry_ok ?m n e (R i)" using table_invD(9) [OF inv i(2)] e(1) by (simp add: t)
  have R: "R i = {}" using entry_no_table [OF ok e(2)] by simp
  have part: "{r..<r + c} \<subseteq> cover n 0 i" unfolding i(1) by (rule cover_part [OF c])
  have run: "unmap_chunk n vaddr r c t global s = (if e \<noteq> 0 then Some (ARM64_TLBI global vaddr (set_entry t i 0 s)) else Some s)"
    using e unfolding unmap_chunk_def get_entry_def i(1) [symmetric] Let_def by auto
  define s1 where "s1 = (if e \<noteq> 0 then ARM64_TLBI global vaddr (set_entry t i 0 s) else s)"
  have m1: "mm s1 = (if e \<noteq> 0 then poke (entry (page_kva ?m f) i) 0 ?m else ?m)" by (simp add: s1_def ARM64_TLBI_def set_entry_def t)
  have z: "kmem (mm s1) (entry (page_kva ?m f) i) = 0" using e(1) by (simp add: m1 t)
  have st: "entry_step n f i ?m (mm s1) (R i) {}"
  proof (cases "e = 0")
    case True
    then show ?thesis using table_invD(1) [OF inv] entry_ok_leaf [of 0 n ?m] e(1) by (simp add: m1 entry_step_def R agree_def t)
  next
    case False
    then show ?thesis unfolding m1 using poke_entry_step [OF inv i(2) R, of 0] by simp
  qed
  have "unmaps n f ?m (mm s1) R (R(i := {})) r c"
  proof (rule unmaps_entry [OF inv i(2) st c(1) part])
    fix b v assume b: "b mod 2 ^ index_shift (Suc n) = 0" "v \<in> cover n b i"
    have l: "table_leaf ?m n (page_kva ?m f) v = (if e = 0 then None else Some (e, n))"
      unfolding table_leaf_def cover_slot(1) [OF b i(2)] e(1) [unfolded t] by (rule leaf_no_table [OF e(2) ok])
    have "b + r \<in> cover n b i" using part c(1) by (auto simp: cover_def atLeastLessThan_subset_iff)
    then have "b + r \<in> block n v" using cover_slot(2) [OF b i(2)] cover_slot(2) [OF b(1) _ i(2), of "b + r"] by (simp add: block_def)
    then have "block n v \<inter> {b + r..<b + r + c} \<noteq> {}" using c(1) by fastforce
    then have "removed (table_leaf ?m n (page_kva ?m f)) {b + r..<b + r + c} v = None" using l by (simp add: removed_def)
    moreover have "leaf (mm s1) n 0 v = None" by (cases n) simp_all
    ultimately show "leaf (mm s1) n (kmem (mm s1) (entry (page_kva ?m f) i)) v = removed (table_leaf ?m n (page_kva ?m f)) {b + r..<b + r + c} v"
      unfolding z by simp
  qed (rule z)
  then show ?thesis using run s1_def by auto
qed



lemma unmap_rest:
  assumes chunk: "\<And>s R vaddr r c. table_inv n f (mm s) R \<Longrightarrow> t = page_kva (mm s) f \<Longrightarrow> 0 < c \<Longrightarrow> r mod 2 ^ index_shift n + c \<le> 2 ^ index_shift n \<Longrightarrow>
      r div 2 ^ index_shift n < 512 \<Longrightarrow> \<exists>s1 R1. unmap_chunk n vaddr r c t global s = Some s1 \<and> unmaps n f (mm s) (mm s1) R R1 r c"
  shows "table_inv n f (mm s) R \<Longrightarrow> t = page_kva (mm s) f \<Longrightarrow> r + sz \<le> 2 ^ index_shift (Suc n) \<Longrightarrow>
      \<exists>s1 R1. arm64_mmu_unmap_pt n vaddr r sz t global s = Some s1 \<and> unmaps n f (mm s) (mm s1) R R1 r sz"
proof (induction sz arbitrary: s R vaddr r rule: less_induct)
  case (less sz)
  let ?B = "2 ^ index_shift n :: nat"
  show ?case
  proof (cases "sz = 0")
    case True
    then show ?thesis using unmaps_nothing [OF less.prems(1)] arm64_mmu_unmap_pt.simps [of n vaddr r 0 t global s] by auto
  next
    case False
    have B: "r mod ?B < ?B" by simp
    define c where c: "c = min sz (?B - r mod ?B)"
    have c0: "0 < c" "c \<le> sz" "r mod ?B + c \<le> ?B" using False B unfolding c by linarith+
    have "r < 512 * ?B" using less.prems(3) False by (simp add: index_shift_Suc)
    then have i: "r div ?B < 512" by (simp add: div_less_iff_less_mult)
    obtain s1 R1 where s1: "unmap_chunk n vaddr r c t global s = Some s1" "unmaps n f (mm s) (mm s1) R R1 r c"
      using chunk [OF less.prems(1,2) c0(1,3) i] by blast
    have inv1: "table_inv n f (mm s1) R1" and fr: "same_frame (mm s) (mm s1)" using s1(2) by (simp_all add: unmaps_def table_step_def)
    have t1: "t = page_kva (mm s1) f" using less.prems(2) by (simp add: frame_eqs [OF fr])
    have "sz - c < sz" "r + c + (sz - c) \<le> 2 ^ index_shift (Suc n)" using c0 False less.prems(3) by simp_all
    from less.IH [OF this(1) inv1 t1 this(2)] obtain s2 R2 where
      s2: "arm64_mmu_unmap_pt n (vaddr + c) (r + c) (sz - c) t global s1 = Some s2" "unmaps n f (mm s1) (mm s2) R1 R2 (r + c) (sz - c)" by blast
    have al: "sz - c = 0 \<or> (r + c) mod ?B = 0"
    proof (cases "c = sz")
      case False
      then have "r mod ?B + c = ?B" using c B by auto
      then have "(r mod ?B + c) mod ?B = 0" by simp
      then show ?thesis by (simp add: mod_add_left_eq)
    qed simp
    have "unmaps n f (mm s) (mm s2) R R2 r sz" using unmaps_append [OF s1(2) s2(2) al] c0(2) by simp
    moreover have "arm64_mmu_unmap_pt n vaddr r sz t global s = Some s2" unfolding unmap_pt_step [OF False c] by (simp add: s1(1) s2(1))
    ultimately show ?thesis by blast
  qed
qed

text \<open>Unmapping returns, and the table has lost the leaves that meet the range and nothing else.\<close>

lemma unmap_pt_ok:
  "table_inv n f (mm s) R \<Longrightarrow> t = page_kva (mm s) f \<Longrightarrow> r + sz \<le> 2 ^ index_shift (Suc n) \<Longrightarrow>
      \<exists>s1 R1. arm64_mmu_unmap_pt n vaddr r sz t global s = Some s1 \<and> unmaps n f (mm s) (mm s1) R R1 r sz"
proof (induction n arbitrary: f s R t r sz vaddr)
  case 0
  show ?case by (rule unmap_rest [OF _ 0]) (rule unmap_chunk_leaf [OF _ _ _ _ refl _ refl], auto)
next
  case (Suc n)
  show ?case
  proof (rule unmap_rest [OF _ Suc.prems])
    fix s :: mmu_state and R vaddr r and c :: nat
    assume a: "table_inv (Suc n) f (mm s) R" "t = page_kva (mm s) f" "0 < c" "r mod 2 ^ index_shift (Suc n) + c \<le> 2 ^ index_shift (Suc n)"
      "r div 2 ^ index_shift (Suc n) < 512"
    let ?e = "kmem (mm s) (entry t (r div 2 ^ index_shift (Suc n)))"
    show "\<exists>s1 R1. unmap_chunk (Suc n) vaddr r c t global s = Some s1 \<and> unmaps (Suc n) f (mm s) (mm s1) R R1 r c"
    proof (cases "?e AND 3 = 3")
      case True
      show ?thesis by (rule unmap_chunk_nested [OF a(1-4) refl a(5) refl True]) (rule Suc.IH [OF _ refl a(4)])
    next
      case False
      then show ?thesis by (intro unmap_chunk_leaf [OF a(1-4) refl a(5) refl]) simp
    qed
  qed
qed


section \<open>Mapping\<close>

text \<open>The entry that translates the block at \<open>w\<close> when \<open>a\<close> is mapped to \<open>p\<close>, and the condition on the translation of \<open>v\<close>.\<close>

definition new_entry :: "paddr \<Rightarrow> u64 \<Rightarrow> nat \<Rightarrow> u64" where
  "new_entry p attrs l = p OR attrs OR (if l > 0 then 1 else 3)"

definition maps_to :: "paddr \<Rightarrow> u64 \<Rightarrow> nat \<Rightarrow> nat \<Rightarrow> (u64 \<times> nat) option \<Rightarrow> nat \<Rightarrow> bool" where
  "maps_to p attrs a sz r v \<longleftrightarrow>
     (\<exists>l w. w = v div 2 ^ index_shift l * 2 ^ index_shift l \<and> l \<le> 2 \<and> a \<le> w \<and> w + 2 ^ index_shift l \<le> a + sz \<and>
        (p + of_nat (w - a)) AND mask (index_shift l) = 0 \<and> r = Some (new_entry (p + of_nat (w - a)) attrs l, l))"

definition maps :: "nat \<Rightarrow> vm_page \<Rightarrow> mm_state \<Rightarrow> mm_state \<Rightarrow> (nat \<Rightarrow> vm_page set) \<Rightarrow> (nat \<Rightarrow> vm_page set) \<Rightarrow> paddr \<Rightarrow> u64 \<Rightarrow> nat \<Rightarrow> nat \<Rightarrow> bool" where
  "maps n f m m' R R' p attrs r sz \<longleftrightarrow> table_step n f m m' R R' \<and>
     (\<forall>b v. b mod 2 ^ index_shift (Suc n) = 0 \<longrightarrow> v \<in> {b..<b + 2 ^ index_shift (Suc n)} \<longrightarrow>
        (if v \<in> {b + r..<b + r + sz}
         then table_leaf m n (page_kva m f) v = None \<and> maps_to p attrs (b + r) sz (table_leaf m' n (page_kva m f) v) v
         else table_leaf m' n (page_kva m f) v = table_leaf m n (page_kva m f) v))"

definition keeps :: "nat \<Rightarrow> vm_page \<Rightarrow> mm_state \<Rightarrow> mm_state \<Rightarrow> (nat \<Rightarrow> vm_page set) \<Rightarrow> (nat \<Rightarrow> vm_page set) \<Rightarrow> bool" where
  "keeps n f m m' R R' \<longleftrightarrow> table_step n f m m' R R' \<and>
     (\<forall>b v. b mod 2 ^ index_shift (Suc n) = 0 \<longrightarrow> v \<in> {b..<b + 2 ^ index_shift (Suc n)} \<longrightarrow>
        table_leaf m' n (page_kva m f) v = table_leaf m n (page_kva m f) v)"

lemma keeps_refl: "table_inv n f m R \<Longrightarrow> keeps n f m m R R"
  by (simp add: keeps_def table_step_refl)

lemma maps_nothing: "table_inv n f m R \<Longrightarrow> maps n f m m R R p attrs r 0"
  by (simp add: maps_def table_step_refl)

lemma maps_step: "maps n f m m' R R' p attrs r sz \<Longrightarrow> table_step n f m m' R R'"
  by (simp add: maps_def)

lemma maps_leaf:
  assumes "maps n f m m' R R' p attrs r sz" "b mod 2 ^ index_shift (Suc n) = 0" "v \<in> {b..<b + 2 ^ index_shift (Suc n)}"
  shows "v \<in> {b + r..<b + r + sz} \<Longrightarrow> table_leaf m n (page_kva m f) v = None"
    "v \<in> {b + r..<b + r + sz} \<Longrightarrow> maps_to p attrs (b + r) sz (table_leaf m' n (page_kva m f) v) v"
    "v \<notin> {b + r..<b + r + sz} \<Longrightarrow> table_leaf m' n (page_kva m f) v = table_leaf m n (page_kva m f) v"
  using assms unfolding maps_def by metis+

lemma maps_to_left:
  assumes "maps_to p attrs a c r v"
  shows "maps_to p attrs a (c + d) r v"
proof -
  obtain l w where w: "w = v div 2 ^ index_shift l * 2 ^ index_shift l" "l \<le> 2" "a \<le> w" "w + 2 ^ index_shift l \<le> a + c"
    "(p + of_nat (w - a)) AND mask (index_shift l) = 0" "r = Some (new_entry (p + of_nat (w - a)) attrs l, l)"
    using assms unfolding maps_to_def by blast
  show ?thesis unfolding maps_to_def by (rule exI [of _ l], rule exI [of _ w]) (use w in simp)
qed

lemma maps_to_right:
  assumes "maps_to (p + of_nat c) attrs (a + c) d r v"
  shows "maps_to p attrs a (c + d) r v"
proof -
  obtain l w where w: "w = v div 2 ^ index_shift l * 2 ^ index_shift l" "l \<le> 2" "a + c \<le> w" "w + 2 ^ index_shift l \<le> a + c + d"
    "(p + of_nat c + of_nat (w - (a + c))) AND mask (index_shift l) = 0" "r = Some (new_entry (p + of_nat c + of_nat (w - (a + c))) attrs l, l)"
    using assms unfolding maps_to_def by blast
  have "c + (w - (a + c)) = w - a" using w(3) by simp
  then have p: "p + of_nat c + of_nat (w - (a + c)) = p + of_nat (w - a)" by (simp only: add.assoc of_nat_add [symmetric])
  show ?thesis unfolding maps_to_def by (rule exI [of _ l], rule exI [of _ w]) (use w [unfolded p] in simp)
qed

lemma maps_append:
  assumes u: "maps n f m m1 R R1 p attrs r c" "maps n f m1 m2 R1 R2 (p + of_nat c) attrs (r + c) d"
  shows "maps n f m m2 R R2 p attrs r (c + d)"
proof -
  have fr: "same_frame m m1" using maps_step [OF u(1)] by (simp add: table_step_def)
  note e = frame_eqs [OF fr]
  have "table_step n f m m2 R R2" by (rule table_step_trans [OF maps_step [OF u(1)] maps_step [OF u(2)]])
  moreover have "if v \<in> {b + r..<b + r + (c + d)}
         then table_leaf m n (page_kva m f) v = None \<and> maps_to p attrs (b + r) (c + d) (table_leaf m2 n (page_kva m f) v) v
         else table_leaf m2 n (page_kva m f) v = table_leaf m n (page_kva m f) v"
    if b: "b mod 2 ^ index_shift (Suc n) = 0" "v \<in> {b..<b + 2 ^ index_shift (Suc n)}" for b v
  proof -
    note l1 = maps_leaf [OF u(1) b] and l2 = maps_leaf [OF u(2) b, unfolded e]
    consider "v \<in> {b + r..<b + r + c}" | "v \<in> {b + (r + c)..<b + (r + c) + d}" | "v \<notin> {b + r..<b + r + (c + d)}" by fastforce
    then show ?thesis
    proof cases
      case 1
      then have "v \<notin> {b + (r + c)..<b + (r + c) + d}" "v \<in> {b + r..<b + r + (c + d)}" by simp_all
      then show ?thesis using l1(1) [OF 1] maps_to_left [OF l1(2) [OF 1]] l2(3) by simp
    next
      case 2
      then have v: "v \<notin> {b + r..<b + r + c}" "v \<in> {b + r..<b + r + (c + d)}" by simp_all
      have "maps_to p attrs (b + r) (c + d) (table_leaf m2 n (page_kva m f) v) v"
        by (rule maps_to_right) (use l2(2) [OF 2] in \<open>simp add: add.assoc\<close>)
      then show ?thesis using l2(1) [OF 2] l1(3) [OF v(1)] v(2) by simp
    next
      case 3
      then have "v \<notin> {b + r..<b + r + c}" "v \<notin> {b + (r + c)..<b + (r + c) + d}" by auto
      then have "table_leaf m2 n (page_kva m f) v = table_leaf m n (page_kva m f) v" using l1(3) l2(3) by simp
      then show ?thesis using 3 by (simp only: if_False)
    qed
  qed
  ultimately show ?thesis unfolding maps_def by blast
qed

text \<open>What was mapped and then unmapped leaves the translations as they were.\<close>

lemma maps_undo:
  assumes u: "maps n f m m1 R R1 p attrs r c" "unmaps n f m1 m2 R1 R2 r c" and r: "r + c \<le> 2 ^ index_shift (Suc n)"
  shows "keeps n f m m2 R R2"
proof -
  have fr: "same_frame m m1" using maps_step [OF u(1)] by (simp add: table_step_def)
  note e = frame_eqs [OF fr]
  have "table_step n f m1 m2 R1 R2" using u(2) by (simp add: unmaps_def)
  then have "table_step n f m m2 R R2" by (rule table_step_trans [OF maps_step [OF u(1)]])
  moreover have "table_leaf m2 n (page_kva m f) v = table_leaf m n (page_kva m f) v"
    if b: "b mod 2 ^ index_shift (Suc n) = 0" "v \<in> {b..<b + 2 ^ index_shift (Suc n)}" for b v
  proof -
    let ?A = "{b + r..<b + r + c}"
    note l1 = maps_leaf [OF u(1) b] and l2 = unmaps_leaf [OF u(2) b, unfolded e]
    show ?thesis
    proof (cases "v \<in> ?A")
      case True
      then have "block l v \<inter> ?A \<noteq> {}" for l using block_self [of v l] by blast
      then have "removed (table_leaf m1 n (page_kva m f)) ?A v = None" by (simp add: removed_def split: option.splits)
      then show ?thesis using l1(1) [OF True] l2 by simp
    next
      case False
      have "removed (table_leaf m1 n (page_kva m f)) ?A v = table_leaf m1 n (page_kva m f) v"
      proof (cases "table_leaf m1 n (page_kva m f) v")
        case (Some y)
        obtain e' l where y: "y = (e', l)" by (cases y)
        have "x \<notin> block l v" if x: "x \<in> ?A" for x
        proof
          assume xb: "x \<in> block l v"
          have "table_leaf m n (page_kva m f) v = Some (e', l)" using l1(3) [OF False] Some y by simp
          then have "table_leaf m n (page_kva m f) x = Some (e', l)" using xb by (rule table_leaf_block)
          moreover have "x \<in> {b..<b + 2 ^ index_shift (Suc n)}" using x r by auto
          ultimately show False using maps_leaf(1) [OF u(1) b(1) _ x] by simp
        qed
        then have "block l v \<inter> ?A = {}" by blast
        then show ?thesis using Some y by (simp add: removed_def)
      qed (simp add: removed_def)
      then show ?thesis using l1(3) [OF False] l2 by simp
    qed
  qed
  ultimately show ?thesis unfolding keeps_def by blast
qed


lemma entry_range_cover: "0 < c \<Longrightarrow> {r..<r + c} \<subseteq> cover n 0 i \<Longrightarrow> {b + r..<b + r + c} \<subseteq> cover n b i"
  by (auto simp: cover_def atLeastLessThan_subset_iff)

lemma maps_entry:
  assumes inv: "table_inv n f m R" and i: "i < 512" and st: "entry_step n f i m m1 (R i) Q'"
    and c: "0 < c" "{r..<r + c} \<subseteq> cover n 0 i"
    and l: "\<And>b v. b mod 2 ^ index_shift (Suc n) = 0 \<Longrightarrow> v \<in> cover n b i \<Longrightarrow>
        (if v \<in> {b + r..<b + r + c}
         then table_leaf m n (page_kva m f) v = None \<and> maps_to p attrs (b + r) c (leaf m1 n (kmem m1 (entry (page_kva m f) i)) v) v
         else leaf m1 n (kmem m1 (entry (page_kva m f) i)) v = table_leaf m n (page_kva m f) v)"
  shows "maps n f m m1 R (R(i := Q')) p attrs r c"
proof -
  note s = entry_step_table [OF inv i st]
  have "if v \<in> {b + r..<b + r + c} then table_leaf m n (page_kva m f) v = None \<and> maps_to p attrs (b + r) c (table_leaf m1 n (page_kva m f) v) v
      else table_leaf m1 n (page_kva m f) v = table_leaf m n (page_kva m f) v"
    if b: "b mod 2 ^ index_shift (Suc n) = 0" "v \<in> {b..<b + 2 ^ index_shift (Suc n)}" for b v
  proof (cases "slot_of n v = i")
    case True
    then have "v \<in> cover n b i" using cover_iff [OF b i] by simp
    then show ?thesis using l [OF b(1)] unfolding s(3) [OF True] by simp
  next
    case False
    then have "v \<notin> {b + r..<b + r + c}" using cover_iff [OF b i] entry_range_cover [OF c] by blast
    then show ?thesis using s(2) [OF False] by (simp only: if_False)
  qed
  then show ?thesis unfolding maps_def using s(1) by blast
qed

lemma keeps_entry:
  assumes inv: "table_inv n f m R" and i: "i < 512" and st: "entry_step n f i m m1 (R i) Q'"
    and l: "\<And>v. slot_of n v = i \<Longrightarrow> leaf m1 n (kmem m1 (entry (page_kva m f) i)) v = table_leaf m n (page_kva m f) v"
  shows "keeps n f m m1 R (R(i := Q'))"
proof -
  note s = entry_step_table [OF inv i st]
  have "table_leaf m1 n (page_kva m f) v = table_leaf m n (page_kva m f) v" for v
    using s(2,3) [of v] l by (cases "slot_of n v = i") simp_all
  then show ?thesis unfolding keeps_def using s(1) by blast
qed

lemma keeps_leaf:
  "keeps n f m m' R R' \<Longrightarrow> b mod 2 ^ index_shift (Suc n) = 0 \<Longrightarrow> v \<in> {b..<b + 2 ^ index_shift (Suc n)} \<Longrightarrow>
     table_leaf m' n (page_kva m f) v = table_leaf m n (page_kva m f) v"
  unfolding keeps_def by simp

lemma keeps_maps:
  assumes "keeps n f m m1 R R1" "maps n f m1 m2 R1 R2 p attrs r c"
  shows "maps n f m m2 R R2 p attrs r c"
proof -
  have st: "table_step n f m m1 R R1" using assms(1) by (simp add: keeps_def)
  then have fr: "same_frame m m1" by (simp add: table_step_def)
  note e = frame_eqs [OF fr]
  have "if v \<in> {b + r..<b + r + c} then table_leaf m n (page_kva m f) v = None \<and> maps_to p attrs (b + r) c (table_leaf m2 n (page_kva m f) v) v
      else table_leaf m2 n (page_kva m f) v = table_leaf m n (page_kva m f) v"
    if b: "b mod 2 ^ index_shift (Suc n) = 0" "v \<in> {b..<b + 2 ^ index_shift (Suc n)}" for b v
    using maps_leaf [OF assms(2) b] unfolding e keeps_leaf [OF assms(1) b] by metis
  then show ?thesis unfolding maps_def using table_step_trans [OF st maps_step [OF assms(2)]] by blast
qed

lemma keeps_trans:
  assumes "keeps n f m m1 R R1" "keeps n f m1 m2 R1 R2"
  shows "keeps n f m m2 R R2"
proof -
  have st: "table_step n f m m1 R R1" using assms(1) by (simp add: keeps_def)
  then have fr: "same_frame m m1" by (simp add: table_step_def)
  show ?thesis using assms table_step_trans [OF st] unfolding keeps_def frame_eqs [OF fr] by simp
qed

text \<open>A new table below an entry that was 0.\<close>

lemma out_page:
  assumes "p AND 0xFFF = 0" "p AND NOT MMU_OA_RANGE_MASK = 0"
  shows "out p = p"
proof -
  have m: "(0xFFF :: u64) = mask 12" "(0xFFFFFFFFFFFF :: u64) = mask 48" "(0xFFFFFFFFF000 :: u64) = mask 48 AND NOT (mask 12)"
    by (simp_all add: mask_eq_exp_minus_1)
  have b: "\<not> bit p n" if "n < 12 \<or> 48 \<le> n" for n
    using that arg_cong [OF assms(1), of "\<lambda>w. bit w n"] arg_cong [OF assms(2), of "\<lambda>w. bit w n"]
    unfolding m by (auto simp: bit_simps dest: bit_imp_le_length)
  show ?thesis unfolding m by (rule bit_word_eqI) (use b in \<open>auto simp: bit_simps not_less not_le intro: ccontr\<close>)
qed

lemma table_descriptor:
  assumes "pa AND 0xFFF = 0" "pa AND NOT MMU_OA_RANGE_MASK = 0"
  shows "(pa OR 3) AND 3 = 3" "out (pa OR 3) = (pa :: u64)"
  using out_page [OF assms] by (simp_all add: bit.conj_disj_distrib2)

lemma leaf_zero [simp]: "leaf m n 0 v = None"
  by (cases n) simp_all

lemma new_table_step:
  assumes inv: "table_inv (Suc n) f m R" and i: "i < 512" and z: "kmem m (entry (page_kva m f) i) = 0"
    and al: "pmm_alloc_page (arenas m) = (as, Some g)" and m1: "m1 = poke (entry (page_kva m f) i) (page_paddr m g OR 3) (memset_page (page_kva m g) (m\<lparr>arenas := as\<rparr>))"
  shows "entry_step (Suc n) f i m m1 (R i) {g}" "leaf m1 (Suc n) (page_paddr m g OR 3) v = None"
    "(page_paddr m g OR 3) AND 3 = 3" "out (page_paddr m g OR 3) = page_paddr m g"
proof -
  note d = table_invD [OF inv]
  note a = alloc_page_facts [OF d(1) al]
  have g: "g \<in> free_pages (arenas m)" "free_pages as = free_pages (arenas m) - {g}" using a(4) by simp_all
  have ga: "g \<in> all_pages (arenas m)" and gf: "g \<noteq> f" using g(1) d(10) free_pages_all by blast+
  have fr: "same_frame m m1" using a(2) by (simp add: m1 same_frame_def poke_def memset_page_def)
  note e = frame_eqs [OF fr]
  have pa: "page_paddr m g AND 0xFFF = 0" "page_paddr m g AND NOT MMU_OA_RANGE_MASK = 0" using d(2) ga by (auto simp: kva_ok_def)
  show td: "(page_paddr m g OR 3) AND 3 = 3" "out (page_paddr m g OR 3) = page_paddr m g" by (rule table_descriptor [OF pa])+
  have k: "kmem m1 = (\<lambda>x. if x = entry (page_kva m f) i then page_paddr m g OR 3 else if in_page (page_kva m g) x then 0 else kmem m x)"
    by (auto simp: m1 poke_def memset_page_def in_page_def fun_eq_iff)
  have kg: "kmem m1 (entry (page_kva m g) j) = 0" if "j < 512" for j
    unfolding k using entries_apart [OF d(2) ga d(6) gf that i] entry_in_page [OF that] by simp
  have other: "kmem m1 (entry (page_kva m h) j) = kmem m (entry (page_kva m h) j)"
    if "h \<in> all_pages (arenas m)" "h \<noteq> g" "j < 512" "entry (page_kva m h) j \<noteq> entry (page_kva m f) i" for h j
  proof -
    have "\<not> in_page (page_kva m g) (entry (page_kva m h) j)" using d(2) ga that(1,2) entry_in_page [OF that(3)] unfolding kva_ok_def by metis
    then show ?thesis unfolding k using that(4) by simp
  qed
  have kf: "kmem m1 (entry (page_kva m f) j) = kmem m (entry (page_kva m f) j)" if "j < 512" "j \<noteq> i" for j
    by (rule other [OF d(6) gf [symmetric] that(1)]) (use entry_inj [OF that(1) i] that(2) in simp)
  have t: "table_ok (entry_ok m1 n) m1 g (\<lambda>_. {})" unfolding table_ok_def e using ga kg entry_ok_leaf by simp
  have ok: "entry_ok m1 (Suc n) (page_paddr m g OR 3) {g}"
  proof -
    have "page_paddr m1 g = out (page_paddr m g OR 3) \<and> table_ok (entry_ok m1 n) m1 g (\<lambda>_. {}) \<and> {g} = table_pages g (\<lambda>_. {})"
      using t td by (simp add: e table_pages_def)
    then have "\<exists>h Rh. page_paddr m1 h = out (page_paddr m g OR 3) \<and> table_ok (entry_ok m1 n) m1 h Rh \<and> {g} = table_pages h Rh" by blast
    then show ?thesis using td(1) by simp
  qed
  have kv: "paddr_to_kvaddr m1 (out (page_paddr m g OR 3)) = page_kva m g" unfolding td(2) e by (simp add: page_kva_def)
  show "leaf m1 (Suc n) (page_paddr m g OR 3) v = None" unfolding leaf_Suc_table [OF td(1)] kv table_leaf_def using kg by simp
  have Ri: "R i = {}" using entry_no_table [OF d(9) [OF i]] z by simp
  have ag: "agree {h} m m1" if "h \<in> all_pages (arenas m)" "h \<noteq> f" "h \<notin> free_pages (arenas m)" for h
  proof -
    have "h \<noteq> g" using that(3) g(1) by blast
    then show ?thesis using other [OF that(1)] entries_apart [OF d(2) that(1) d(6) that(2) _ i] by (simp add: agree_def)
  qed
  have ar: "arenas m1 = as" by (simp add: m1 poke_def memset_page_def)
  have e1: "kmem m1 (entry (page_kva m f) i) = page_paddr m g OR 3" by (simp add: k)
  show "entry_step (Suc n) f i m m1 (R i) {g}"
    unfolding entry_step_def e1 ar Ri using fr a(1) ok kf g ag by (auto simp del: entry_ok.simps)
qed

lemma get_table_ok:
  assumes inv: "table_inv (Suc n) f (mm s) R" and t: "t = page_kva (mm s) f" and i: "i < 512"
  shows "\<exists>x s1 R1. arm64_mmu_get_page_table i t s = Some (x, s1) \<and> keeps (Suc n) f (mm s) (mm s1) R R1 \<and>
    (x = 0 \<or> kmem (mm s1) (entry t i) AND 3 = 3 \<and> x = paddr_to_kvaddr (mm s1) (out (kmem (mm s1) (entry t i))))"
proof -
  note d = table_invD [OF inv]
  let ?e = "kmem (mm s) (entry t i)"
  consider "?e AND 3 = 3" | "?e AND 3 = 1" | "?e = 0" "?e AND 3 = 0"
    using d(9) [OF i] by (cases "?e AND 3 = 3") (auto simp: t split: if_splits)
  then show ?thesis
  proof cases
    case 1
    then show ?thesis using keeps_refl [OF inv] by (simp add: arm64_mmu_get_page_table_def get_entry_def Let_def) blast
  next
    case 2
    then show ?thesis using keeps_refl [OF inv] by (simp add: arm64_mmu_get_page_table_def get_entry_def Let_def) blast
  next
    case 3
    obtain as res where al: "pmm_alloc_page (arenas (mm s)) = (as, res)" by (cases "pmm_alloc_page (arenas (mm s))")
    note a = alloc_page_facts [OF d(1) al]
    show ?thesis
    proof (cases res)
      case None
      let ?m1 = "(mm s)\<lparr>arenas := as\<rparr>"
      have fr: "same_frame (mm s) ?m1" using a(2) by (simp add: same_frame_def)
      have ag: "agree Q (mm s) ?m1" for Q by (simp add: agree_def)
      have fp: "free_pages as = free_pages (arenas (mm s))" using pmm_alloc_page_taken [OF d(1) al] by (simp add: None taken_def)
      have st: "entry_step (Suc n) f i (mm s) ?m1 (R i) (R i)"
        unfolding entry_step_def using fr a(1) d(11) [OF i] entry_ok_frame [OF fr d(9) [OF i] ag] ag fp by (simp del: entry_ok.simps)
      have "keeps (Suc n) f (mm s) ?m1 R (R(i := R i))"
        by (rule keeps_entry [OF inv i st]) (simp add: leaf_frame [OF fr d(9) [OF i] ag] table_leaf_def del: leaf.simps)
      moreover have "arm64_mmu_get_page_table i t s = Some (0, s\<lparr>mm := ?m1\<rparr>)"
        using 3 al by (simp add: arm64_mmu_get_page_table_def get_entry_def alloc_page_table_def None)
      ultimately show ?thesis by auto
    next
      case (Some g)
      define m1 where "m1 = poke (entry (page_kva (mm s) f) i) (page_paddr (mm s) g OR 3) (memset_page (page_kva (mm s) g) ((mm s)\<lparr>arenas := as\<rparr>))"
      have z: "kmem (mm s) (entry (page_kva (mm s) f) i) = 0" using 3(1) t by simp
      note n = new_table_step [OF inv i z al [unfolded Some] m1_def]
      have e1: "kmem m1 (entry t i) = page_paddr (mm s) g OR 3" by (simp add: m1_def t)
      have fr: "same_frame (mm s) m1" using n(1) by (simp add: entry_step_def)
      have ks: "keeps (Suc n) f (mm s) m1 R (R(i := {g}))"
      proof (rule keeps_entry [OF inv i n(1)])
        fix v assume "slot_of (Suc n) v = i"
        then show "leaf m1 (Suc n) (kmem m1 (entry (page_kva (mm s) f) i)) v = table_leaf (mm s) (Suc n) (page_kva (mm s) f) v"
          unfolding e1 [unfolded t] n(2) by (simp add: table_leaf_def z)
      qed
      let ?m0 = "(mm s)\<lparr>arenas := as\<rparr>"
      have fr0: "same_frame (mm s) ?m0" using a(2) by (simp add: same_frame_def)
      note e0 = frame_eqs [OF fr0]
      have "arm64_mmu_get_page_table i t s = Some (page_kva (mm s) g, s\<lparr>mm := m1\<rparr>)"
        using 3 al by (simp add: arm64_mmu_get_page_table_def get_entry_def alloc_page_table_def Some Let_def set_entry_def m1_def t e0 page_kva_def)
      moreover have "page_kva (mm s) g = paddr_to_kvaddr m1 (out (kmem m1 (entry t i)))" unfolding e1 n(4) frame_eqs [OF fr] by (simp add: page_kva_def)
      moreover have "kmem m1 (entry t i) AND 3 = 3" unfolding e1 by (rule n(3))
      ultimately have "arm64_mmu_get_page_table i t s = Some (page_kva (mm s) g, s\<lparr>mm := m1\<rparr>) \<and>
          keeps (Suc n) f (mm s) (mm (s\<lparr>mm := m1\<rparr>)) R (R(i := {g})) \<and>
          (page_kva (mm s) g = 0 \<or> kmem (mm (s\<lparr>mm := m1\<rparr>)) (entry t i) AND 3 = 3 \<and>
           page_kva (mm s) g = paddr_to_kvaddr (mm (s\<lparr>mm := m1\<rparr>)) (out (kmem (mm (s\<lparr>mm := m1\<rparr>)) (entry t i))))" using ks by simp
      then show ?thesis by (intro exI)
    qed
  qed
qed


text \<open>Alignment.\<close>

lemma page_dvd_block: "(4096 :: nat) dvd 2 ^ index_shift n"
proof -
  have "(2 ^ 12 :: nat) dvd 2 ^ index_shift n" by (rule le_imp_power_dvd) (simp add: index_shift_def)
  then show ?thesis by simp
qed

lemma page_aligned_add:
  assumes "p AND 0xFFF = (0 :: u64)" "c mod 4096 = (0 :: nat)"
  shows "(p + of_nat c) AND 0xFFF = 0"
proof -
  have m: "w AND 0xFFF = 0 \<longleftrightarrow> unat w mod 4096 = 0" for w :: u64
  proof -
    have "(0xFFF :: u64) = mask 12" by (simp add: mask_eq_exp_minus_1)
    then have "unat (w AND 0xFFF) = take_bit 12 (unat w)" by (simp only: take_bit_eq_mask [symmetric] unsigned_take_bit_eq)
    then have "unat (w AND 0xFFF) = unat w mod 4096" by (simp add: take_bit_eq_mod)
    then show ?thesis by (metis unat_eq_zero)
  qed
  have "unat (p + of_nat c) = (unat p + c) mod 2 ^ 64" by (simp add: unat_word_ariths unat_of_nat mod_simps)
  moreover have "(unat p + c) mod 2 ^ 64 mod 4096 = (unat p + c) mod 4096" by (rule mod_mod_cancel) simp
  moreover have "4096 dvd unat p + c" using assms unfolding m by auto
  ultimately show ?thesis unfolding m by simp
qed

lemma new_entry_type:
  assumes "p AND 0xFFF = 0" "attrs AND 3 = 0"
  shows "new_entry p attrs l AND 3 = (if l = 0 then 3 else 1)"
proof -
  have m: "(0xFFF :: u64) = mask 12" "(3 :: u64) = mask 2" by (simp_all add: mask_eq_exp_minus_1)
  have "p AND 3 = p AND (mask 12 AND mask 2)" unfolding m by (simp add: mask_eq_exp_minus_1)
  then have "p AND 3 = 0" using assms(1) unfolding m by (simp add: and.assoc [symmetric])
  then show ?thesis using assms(2) by (simp add: new_entry_def bit.conj_disj_distrib2)
qed

lemma chunk_aligned:
  assumes "page_aligned r p sz" "sz \<noteq> 0" "c = min sz (2 ^ index_shift n - r mod 2 ^ index_shift n)"
  shows "page_aligned (r mod 2 ^ index_shift n) p c" "page_aligned (r + c) (p + of_nat c) (sz - c)" "n = 0 \<Longrightarrow> r mod 4096 = 0 \<and> c = 4096"
proof -
  let ?B = "2 ^ index_shift n :: nat"
  have a: "4096 dvd r" "p AND 0xFFF = 0" "4096 dvd sz" using assms(1) by (auto simp: page_aligned_def)
  have m: "4096 dvd r mod ?B" using a(1) page_dvd_block by (simp add: dvd_mod)
  then have "4096 dvd ?B - r mod ?B" using page_dvd_block by (rule dvd_diff_nat [rotated])
  then have c: "4096 dvd c" using a(3) unfolding assms(3) min_def by simp
  then show "page_aligned (r mod ?B) p c" using m a(2) by (simp add: page_aligned_def)
  have "4096 dvd sz - c" using a(3) c by (rule dvd_diff_nat)
  then show "page_aligned (r + c) (p + of_nat c) (sz - c)" using a(1) c page_aligned_add [OF a(2)] by (simp add: page_aligned_def)
  assume "n = 0"
  then have "?B = 4096" by (simp add: index_shift_def)
  moreover have "4096 \<le> sz" using a(3) assms(2) by (simp add: dvd_imp_le)
  ultimately show "r mod 4096 = 0 \<and> c = 4096" using a(1) assms(3) by (auto simp: min_def)
qed

text \<open>One turn of the loop.\<close>

definition map_chunk :: "nat \<Rightarrow> nat \<Rightarrow> nat \<Rightarrow> nat \<Rightarrow> paddr \<Rightarrow> u64 \<Rightarrow> u64 \<Rightarrow> bool \<Rightarrow> mmu_state \<Rightarrow> (bool \<times> mmu_state) option" where
  "map_chunk n vaddr r c p attrs t global s =
     (let B = 2 ^ index_shift n
      in if r mod B \<noteq> 0 \<or> p AND mask (index_shift n) \<noteq> 0 \<or> c \<noteq> B \<or> index_shift n > 30
         then if n = 0 then None
              else
                (case arm64_mmu_get_page_table (r div B) t s of
                   None \<Rightarrow> None
                 | Some (next_page_table, s) \<Rightarrow>
                     if next_page_table = 0 then Some (False, s)
                     else
                       map_option (\<lambda>(ret, s). (ret = 0, s))
                         (if page_aligned (r mod B) p c
                          then arm64_mmu_map_loop (n - 1) vaddr (r mod B) c vaddr (r mod B) p c attrs next_page_table global s
                          else Some (ERR_INVALID_ARGS, s)))
         else if get_entry t (r div B) s \<noteq> 0 then Some (False, s)
         else Some (True, set_entry t (r div B) (p OR attrs OR (if n > 0 then 1 else 3)) s))"

lemma map_loop_step:
  "sz \<noteq> 0 \<Longrightarrow> c = min sz (2 ^ index_shift n - r mod 2 ^ index_shift n) \<Longrightarrow>
     arm64_mmu_map_loop n vin rin size_in vaddr r p sz attrs t global s =
       (case map_chunk n vaddr r c p attrs t global s of
          None \<Rightarrow> None
        | Some (False, s) \<Rightarrow> map_option (\<lambda>s. (ERR_GENERIC, s)) (arm64_mmu_unmap_pt n vin rin (size_in - sz) t global s)
        | Some (True, s) \<Rightarrow> arm64_mmu_map_loop n vin rin size_in (vaddr + c) (r + c) (p + of_nat c) (sz - c) attrs t global s)"
  unfolding arm64_mmu_map_loop.simps [of n vin rin size_in vaddr r p sz attrs t global s] map_chunk_def by (simp only: Let_def if_False)

text \<open>The outcome of mapping: everything, or nothing.\<close>

definition map_outcome :: "nat \<Rightarrow> vm_page \<Rightarrow> mm_state \<Rightarrow> mm_state \<Rightarrow> (nat \<Rightarrow> vm_page set) \<Rightarrow> paddr \<Rightarrow> u64 \<Rightarrow> nat \<Rightarrow> nat \<Rightarrow> bool \<Rightarrow> bool" where
  "map_outcome n f m m' R p attrs r sz done \<longleftrightarrow> (\<exists>R'. if done then maps n f m m' R R' p attrs r sz else keeps n f m m' R R')"

lemma map_chunk_leaf:
  assumes inv: "table_inv n f (mm s) R" and t: "t = page_kva (mm s) f" and i: "r div 2 ^ index_shift n < 512"
    and c: "r mod 2 ^ index_shift n = 0" "p AND mask (index_shift n) = 0" "c = 2 ^ index_shift n" "index_shift n \<le> 30"
    and p: "p AND 0xFFF = 0" "attrs AND 3 = 0"
  shows "\<exists>ok s1. map_chunk n vaddr r c p attrs t global s = Some (ok, s1) \<and> map_outcome n f (mm s) (mm s1) R p attrs r c ok"
proof -
  let ?B = "2 ^ index_shift n :: nat" and ?m = "mm s"
  let ?i = "r div ?B"
  have run: "map_chunk n vaddr r c p attrs t global s =
      (if get_entry t ?i s \<noteq> 0 then Some (False, s) else Some (True, set_entry t ?i (new_entry p attrs n) s))"
    using c by (simp add: map_chunk_def new_entry_def)
  show ?thesis
  proof (cases "kmem ?m (entry t ?i) = 0")
    case False
    then show ?thesis using run keeps_refl [OF inv] unfolding map_outcome_def get_entry_def by auto
  next
    case True
    let ?m1 = "poke (entry (page_kva ?m f) ?i) (new_entry p attrs n) ?m"
    have z: "kmem ?m (entry (page_kva ?m f) ?i) = 0" using True t by simp
    have Ri: "R ?i = {}" using entry_no_table [OF table_invD(9) [OF inv i]] z by simp
    have ty: "new_entry p attrs n AND 3 = (if n = 0 then 3 else 1)" by (rule new_entry_type [OF p])
    have st: "entry_step n f ?i ?m ?m1 (R ?i) {}" by (rule poke_entry_step [OF inv i Ri]) (simp add: ty)
    have n2: "n \<le> 2" using c(4) by (simp add: index_shift_def)
    have part: "{r..<r + c} \<subseteq> cover n 0 ?i" by (rule cover_part) (use c in simp_all)
    have ri: "r = ?i * ?B" using div_mult_mod_eq [of r ?B] c(1) by simp
    have "maps n f ?m ?m1 R (R(?i := {})) p attrs r c"
    proof (rule maps_entry [OF inv i st _ part])
      show "0 < c" using c(3) by simp
      fix b v assume b: "b mod 2 ^ index_shift (Suc n) = 0" "v \<in> cover n b ?i"
      have cv: "{b + r..<b + r + c} = cover n b ?i" unfolding cover_def c(3) using ri by simp
      have "?B dvd b" using b(1) index_shift_dvd [of n "Suc n"] by (meson dvd_trans le_SucI mod_0_imp_dvd order_refl)
      then have "b div ?B * ?B = b" by simp
      then have w: "v div ?B * ?B = b + r" unfolding cover_slot(2) [OF b i] distrib_right using ri by simp
      have "maps_to p attrs (b + r) c (Some (new_entry p attrs n, n)) v"
        unfolding maps_to_def by (rule exI [of _ n], rule exI [of _ "b + r"]) (use n2 c w in simp)
      moreover have "leaf ?m1 n (new_entry p attrs n) v = Some (new_entry p attrs n, n)" using ty by (cases n) simp_all
      moreover have "table_leaf ?m n (page_kva ?m f) v = None" unfolding table_leaf_def cover_slot(1) [OF b i] z by simp
      ultimately show "if v \<in> {b + r..<b + r + c}
         then table_leaf ?m n (page_kva ?m f) v = None \<and> maps_to p attrs (b + r) c (leaf ?m1 n (kmem ?m1 (entry (page_kva ?m f) ?i)) v) v
         else leaf ?m1 n (kmem ?m1 (entry (page_kva ?m f) ?i)) v = table_leaf ?m n (page_kva ?m f) v"
        using b(2) unfolding cv by simp
    qed
    then have "map_outcome n f ?m ?m1 R p attrs r c True" unfolding map_outcome_def by auto
    moreover have "map_chunk n vaddr r c p attrs t global s = Some (True, s\<lparr>mm := ?m1\<rparr>)" using run True by (simp add: get_entry_def set_entry_def t)
    ultimately show ?thesis by auto
  qed
qed


lemma map_outcome_step: "map_outcome n f m m' R p attrs r c ok \<Longrightarrow> \<exists>R'. table_step n f m m' R R'"
  by (auto simp: map_outcome_def maps_def keeps_def split: if_splits)

lemma keeps_outcome: "keeps n f m m1 R R1 \<Longrightarrow> map_outcome n f m1 m2 R1 p attrs r c ok \<Longrightarrow> map_outcome n f m m2 R p attrs r c ok"
proof (cases ok)
  case True
  assume "keeps n f m m1 R R1" "map_outcome n f m1 m2 R1 p attrs r c ok"
  then show ?thesis using True keeps_maps unfolding map_outcome_def by fastforce
next
  case False
  assume "keeps n f m m1 R R1" "map_outcome n f m1 m2 R1 p attrs r c ok"
  then show ?thesis using False keeps_trans unfolding map_outcome_def by fastforce
qed

lemma maps_keeps:
  assumes "maps n f m m1 R R1 p attrs r c" "keeps n f m1 m2 R1 R2"
  shows "maps n f m m2 R R2 p attrs r c"
proof -
  have st: "table_step n f m m1 R R1" by (rule maps_step [OF assms(1)])
  then have fr: "same_frame m m1" by (simp add: table_step_def)
  note e = frame_eqs [OF fr]
  have "if v \<in> {b + r..<b + r + c} then table_leaf m n (page_kva m f) v = None \<and> maps_to p attrs (b + r) c (table_leaf m2 n (page_kva m f) v) v
      else table_leaf m2 n (page_kva m f) v = table_leaf m n (page_kva m f) v"
    if b: "b mod 2 ^ index_shift (Suc n) = 0" "v \<in> {b..<b + 2 ^ index_shift (Suc n)}" for b v
    using maps_leaf [OF assms(1) b] unfolding keeps_leaf [OF assms(2) b, unfolded e] by metis
  moreover have "table_step n f m m2 R R2" using table_step_trans [OF st] assms(2) by (simp add: keeps_def)
  ultimately show ?thesis unfolding maps_def by blast
qed

lemma nested_outcome:
  assumes inv: "table_inv (Suc k) f m R" and i: "i < 512" and e: "kmem m (entry (page_kva m f) i) = e" "e AND 3 = 3"
    and g: "page_paddr m g = out e" "R i = table_pages g Rg" and o: "map_outcome k g m m1 Rg p attrs (r mod 2 ^ index_shift (Suc k)) c ok"
    and r: "i = r div 2 ^ index_shift (Suc k)" "0 < c" "r mod 2 ^ index_shift (Suc k) + c \<le> 2 ^ index_shift (Suc k)"
  shows "map_outcome (Suc k) f m m1 R p attrs r c ok"
proof -
  let ?B = "2 ^ index_shift (Suc k) :: nat"
  have B: "0 < ?B" by simp
  obtain Rg' where Rg': "table_step k g m m1 Rg Rg'" "if ok then maps k g m m1 Rg Rg' p attrs (r mod ?B) c else keeps k g m m1 Rg Rg'"
    using o by (cases ok) (auto simp: map_outcome_def maps_def keeps_def)
  have fr: "same_frame m m1" using Rg'(1) by (simp add: table_step_def)
  note n = nested_kept [OF inv i e g Rg'(1)]
  have kv: "paddr_to_kvaddr m (out e) = page_kva m g" by (simp add: page_kva_def g(1))
  have e1: "kmem m1 (entry (page_kva m f) i) = e" using n(1) [OF i] e(1) by simp
  have l1: "leaf m1 (Suc k) (kmem m1 (entry (page_kva m f) i)) v = table_leaf m1 k (page_kva m g) v" for v
    unfolding e1 leaf_Suc_table [OF e(2)] frame_eqs [OF fr] kv ..
  have l: "table_leaf m (Suc k) (page_kva m f) v = table_leaf m k (page_kva m g) v" if "slot_of (Suc k) v = i" for v
    unfolding table_leaf_def [of m "Suc k"] that e(1) leaf_Suc_table [OF e(2)] kv ..
  show ?thesis
  proof (cases ok)
    case False
    have "keeps (Suc k) f m m1 R (R(i := table_pages g Rg'))"
    proof (rule keeps_entry [OF inv i n(2)])
      fix v assume "slot_of (Suc k) v = i"
      moreover have "v \<in> {v div ?B * ?B..<v div ?B * ?B + ?B}" using div_mult_mod_eq [of v ?B] mod_less_divisor [OF B, of v]
        unfolding atLeastLessThan_iff by (intro conjI) linarith+
      ultimately show "leaf m1 (Suc k) (kmem m1 (entry (page_kva m f) i)) v = table_leaf m (Suc k) (page_kva m f) v"
        using keeps_leaf [of k g m m1 Rg Rg' "v div ?B * ?B" v] Rg'(2) False l1 l by simp
    qed
    then show ?thesis using False unfolding map_outcome_def by auto
  next
    case True
    then have mp: "maps k g m m1 Rg Rg' p attrs (r mod ?B) c" using Rg'(2) by simp
    have part: "{r..<r + c} \<subseteq> cover (Suc k) 0 i" unfolding r(1) by (rule cover_part [OF r(2,3)])
    have "maps (Suc k) f m m1 R (R(i := table_pages g Rg')) p attrs r c"
    proof (rule maps_entry [OF inv i n(2) r(2) part])
      fix b v assume b: "b mod 2 ^ index_shift (Suc (Suc k)) = 0" "v \<in> cover (Suc k) b i"
      let ?b = "b + i * ?B"
      have "?B dvd b" using b(1) index_shift_dvd [of "Suc k" "Suc (Suc k)"] by (meson dvd_trans le_SucI mod_0_imp_dvd order_refl)
      then have bm: "?b mod ?B = 0" by simp
      have vb: "v \<in> {?b..<?b + ?B}" using b(2) by (simp add: cover_def)
      have rb: "?b + r mod ?B = b + r" using div_mult_mod_eq [of r ?B] r(1) by simp
      note ml = maps_leaf [OF mp bm vb, unfolded rb]
      show "if v \<in> {b + r..<b + r + c}
         then table_leaf m (Suc k) (page_kva m f) v = None \<and> maps_to p attrs (b + r) c (leaf m1 (Suc k) (kmem m1 (entry (page_kva m f) i)) v) v
         else leaf m1 (Suc k) (kmem m1 (entry (page_kva m f) i)) v = table_leaf m (Suc k) (page_kva m f) v"
        unfolding l1 l [OF cover_slot(1) [OF b i]] using ml by metis
    qed
    then show ?thesis using True unfolding map_outcome_def by auto
  qed
qed

lemma map_chunk_nested:
  assumes inv: "table_inv (Suc k) f (mm s) R" and t: "t = page_kva (mm s) f" and i: "r div 2 ^ index_shift (Suc k) < 512"
    and c: "0 < c" "r mod 2 ^ index_shift (Suc k) + c \<le> 2 ^ index_shift (Suc k)"
    and cond: "r mod 2 ^ index_shift (Suc k) \<noteq> 0 \<or> p AND mask (index_shift (Suc k)) \<noteq> 0 \<or> c \<noteq> 2 ^ index_shift (Suc k) \<or> index_shift (Suc k) > 30"
    and al: "page_aligned (r mod 2 ^ index_shift (Suc k)) p c"
    and nested: "\<And>g s Rg. table_inv k g (mm s) Rg \<Longrightarrow>
      \<exists>ret s1. arm64_mmu_map_loop k vaddr (r mod 2 ^ index_shift (Suc k)) c vaddr (r mod 2 ^ index_shift (Suc k)) p c attrs (page_kva (mm s) g) global s = Some (ret, s1) \<and>
        map_outcome k g (mm s) (mm s1) Rg p attrs (r mod 2 ^ index_shift (Suc k)) c (ret = 0)"
  shows "\<exists>ok s1. map_chunk (Suc k) vaddr r c p attrs t global s = Some (ok, s1) \<and> map_outcome (Suc k) f (mm s) (mm s1) R p attrs r c ok"
proof -
  let ?B = "2 ^ index_shift (Suc k) :: nat"
  let ?i = "r div ?B"
  obtain x s1 R1 where x: "arm64_mmu_get_page_table ?i t s = Some (x, s1)" "keeps (Suc k) f (mm s) (mm s1) R R1"
    "x = 0 \<or> kmem (mm s1) (entry t ?i) AND 3 = 3 \<and> x = paddr_to_kvaddr (mm s1) (out (kmem (mm s1) (entry t ?i)))"
    using get_table_ok [OF inv t i] by blast
  have run: "map_chunk (Suc k) vaddr r c p attrs t global s =
      (if x = 0 then Some (False, s1)
       else map_option (\<lambda>(ret, s). (ret = 0, s)) (arm64_mmu_map_loop k vaddr (r mod ?B) c vaddr (r mod ?B) p c attrs x global s1))"
    using cond al x(1) by (simp add: map_chunk_def Let_def)
  show ?thesis
  proof (cases "x = 0")
    case True
    then show ?thesis using run x(2) unfolding map_outcome_def by auto
  next
    case False
    have st: "table_step (Suc k) f (mm s) (mm s1) R R1" using x(2) by (simp add: keeps_def)
    then have inv1: "table_inv (Suc k) f (mm s1) R1" and fr: "same_frame (mm s) (mm s1)" by (simp_all add: table_step_def)
    have t1: "t = page_kva (mm s1) f" using t by (simp add: frame_eqs [OF fr])
    let ?e = "kmem (mm s1) (entry t ?i)"
    have e: "kmem (mm s1) (entry (page_kva (mm s1) f) ?i) = ?e" "?e AND 3 = 3" using x(3) False t1 by simp_all
    obtain g Rg where g: "page_paddr (mm s1) g = out ?e" "R1 ?i = table_pages g Rg" "table_inv k g (mm s1) Rg" using nested_table [OF inv1 i e] by blast
    have xg: "x = page_kva (mm s1) g" using x(3) False by (simp add: page_kva_def g(1))
    obtain ret s2 where s2: "arm64_mmu_map_loop k vaddr (r mod ?B) c vaddr (r mod ?B) p c attrs x global s1 = Some (ret, s2)"
      "map_outcome k g (mm s1) (mm s2) Rg p attrs (r mod ?B) c (ret = 0)" using nested [OF g(3)] unfolding xg by blast
    have "map_outcome (Suc k) f (mm s1) (mm s2) R1 p attrs r c (ret = 0)" by (rule nested_outcome [OF inv1 i e g(1,2) s2(2) refl c])
    then have "map_outcome (Suc k) f (mm s) (mm s2) R p attrs r c (ret = 0)" by (rule keeps_outcome [OF x(2)])
    then show ?thesis using run False s2(1) by simp
  qed
qed

lemma map_rest:
  assumes chunk: "\<And>s R vaddr r c p. table_inv n f (mm s) R \<Longrightarrow> t = page_kva (mm s) f \<Longrightarrow> 0 < c \<Longrightarrow> r mod 2 ^ index_shift n + c \<le> 2 ^ index_shift n \<Longrightarrow>
      r div 2 ^ index_shift n < 512 \<Longrightarrow> page_aligned (r mod 2 ^ index_shift n) p c \<Longrightarrow> (n = 0 \<Longrightarrow> r mod 4096 = 0 \<and> c = 4096) \<Longrightarrow>
      \<exists>ok s1. map_chunk n vaddr r c p attrs t global s = Some (ok, s1) \<and> map_outcome n f (mm s) (mm s1) R p attrs r c ok"
    and t: "t = page_kva m0 f" and lim: "rin + size_in \<le> 2 ^ index_shift (Suc n)"
  shows "maps n f m0 (mm s) R0 R p0 attrs rin d \<Longrightarrow> r = rin + d \<Longrightarrow> p = p0 + of_nat d \<Longrightarrow> size_in = d + sz \<Longrightarrow> page_aligned r p sz \<Longrightarrow>
      \<exists>ret s1. arm64_mmu_map_loop n vin rin size_in vaddr r p sz attrs t global s = Some (ret, s1) \<and>
        map_outcome n f m0 (mm s1) R0 p0 attrs rin size_in (ret = 0)"
proof (induction sz arbitrary: d s R vaddr r p rule: less_induct)
  case (less sz)
  let ?B = "2 ^ index_shift n :: nat"
  note mp = less.prems(1)
  have fr: "same_frame m0 (mm s)" and inv: "table_inv n f (mm s) R" using maps_step [OF mp] by (simp_all add: table_step_def)
  have ts: "t = page_kva (mm s) f" using t by (simp add: frame_eqs [OF fr])
  show ?case
  proof (cases "sz = 0")
    case True
    have "map_outcome n f m0 (mm s) R0 p0 attrs rin size_in True" using mp less.prems(4) True unfolding map_outcome_def by auto
    then show ?thesis using arm64_mmu_map_loop.simps [of n vin rin size_in vaddr r p 0 attrs t global s] True by simp
  next
    case False
    have B: "r mod ?B < ?B" by simp
    define c where c: "c = min sz (?B - r mod ?B)"
    have c0: "0 < c" "c \<le> sz" "r mod ?B + c \<le> ?B" using False B unfolding c by linarith+
    note al = chunk_aligned [OF less.prems(5) False c]
    have "r < 512 * ?B" using lim less.prems(2,4) False by (simp add: index_shift_Suc)
    then have i: "r div ?B < 512" by (simp add: div_less_iff_less_mult)
    obtain ok s1 where s1: "map_chunk n vaddr r c p attrs t global s = Some (ok, s1)" "map_outcome n f (mm s) (mm s1) R p attrs r c ok"
      using chunk [OF inv ts c0(1,3) i al(1,3)] by blast
    note step = map_loop_step [OF False c, of vin rin size_in vaddr p attrs t global s]
    show ?thesis
    proof (cases ok)
      case True
      then obtain R1 where R1: "maps n f (mm s) (mm s1) R R1 p attrs r c" using s1(2) by (auto simp: map_outcome_def)
      have m: "maps n f m0 (mm s1) R0 R1 p0 attrs rin (d + c)"
        using maps_append [OF mp] R1 less.prems(2,3) by simp
      have "\<exists>ret s2. arm64_mmu_map_loop n vin rin size_in (vaddr + c) (r + c) (p + of_nat c) (sz - c) attrs t global s1 = Some (ret, s2) \<and>
          map_outcome n f m0 (mm s2) R0 p0 attrs rin size_in (ret = 0)"
        by (rule less.IH [OF _ m]) (use c0 less.prems(2-4) al(2) in simp_all)
      then show ?thesis unfolding step s1(1) using True by simp
    next
      case no: False
      then obtain R1 where R1: "keeps n f (mm s) (mm s1) R R1" using s1(2) by (auto simp: map_outcome_def)
      have e: "size_in - sz = d" using less.prems(4) by simp
      have st1: "table_step n f (mm s) (mm s1) R R1" using R1 by (simp add: keeps_def)
      then have inv1: "table_inv n f (mm s1) R1" and fr1: "same_frame (mm s) (mm s1)" by (simp_all add: table_step_def)
      have t1: "t = page_kva (mm s1) f" using ts by (simp add: frame_eqs [OF fr1])
      have lim': "rin + d \<le> 2 ^ index_shift (Suc n)" using lim less.prems(4) by simp
      obtain s2 R2 where s2: "arm64_mmu_unmap_pt n vin rin d t global s1 = Some s2" "unmaps n f (mm s1) (mm s2) R1 R2 rin d"
        using unmap_pt_ok [OF inv1 t1 lim'] by blast
      have "maps n f m0 (mm s1) R0 R1 p0 attrs rin d" by (rule maps_keeps [OF mp R1])
      then have "keeps n f m0 (mm s2) R0 R2" by (rule maps_undo [OF _ s2(2) lim'])
      then have "map_outcome n f m0 (mm s2) R0 p0 attrs rin size_in False" unfolding map_outcome_def by auto
      then show ?thesis unfolding step s1(1) using no s2(1) by (simp add: e)
    qed
  qed
qed

text \<open>Mapping returns, and the range has its new translation or nothing has changed.\<close>

lemma map_loop_ok:
  assumes "table_inv n f (mm s) R" "attrs AND 3 = 0" "r + sz \<le> 2 ^ index_shift (Suc n)" "page_aligned r p sz"
  shows "\<exists>ret s1. arm64_mmu_map_loop n vin r sz vaddr r p sz attrs (page_kva (mm s) f) global s = Some (ret, s1) \<and>
      map_outcome n f (mm s) (mm s1) R p attrs r sz (ret = 0)"
  using assms
proof (induction n arbitrary: f s R r sz vin vaddr p)
  case 0
  show ?case
  proof (rule map_rest [OF _ refl 0(3) maps_nothing [OF 0(1)]])
    fix s' :: mmu_state and R vaddr r and c :: nat and p
    assume a: "table_inv 0 f (mm s') R" "page_kva (mm s) f = page_kva (mm s') f" "0 < c" "r mod 2 ^ index_shift 0 + c \<le> 2 ^ index_shift 0"
      "r div 2 ^ index_shift 0 < 512" "page_aligned (r mod 2 ^ index_shift 0) p c" "(0 :: nat) = 0 \<Longrightarrow> r mod 4096 = 0 \<and> c = 4096"
    show "\<exists>ok s1. map_chunk 0 vaddr r c p attrs (page_kva (mm s) f) global s' = Some (ok, s1) \<and> map_outcome 0 f (mm s') (mm s1) R p attrs r c ok"
      by (rule map_chunk_leaf [OF a(1,2,5)]) (use a(6,7) 0(2) in \<open>simp_all add: index_shift_def page_aligned_def mask_eq_exp_minus_1\<close>)
  qed (use 0 in simp_all)
next
  case (Suc n)
  let ?B = "2 ^ index_shift (Suc n) :: nat"
  show ?case
  proof (rule map_rest [OF _ refl Suc.prems(3) maps_nothing [OF Suc.prems(1)]])
    fix s' :: mmu_state and R vaddr r and c :: nat and p
    assume a: "table_inv (Suc n) f (mm s') R" "page_kva (mm s) f = page_kva (mm s') f" "0 < c" "r mod ?B + c \<le> ?B"
      "r div ?B < 512" "page_aligned (r mod ?B) p c"
    show "\<exists>ok s1. map_chunk (Suc n) vaddr r c p attrs (page_kva (mm s) f) global s' = Some (ok, s1) \<and> map_outcome (Suc n) f (mm s') (mm s1) R p attrs r c ok"
    proof (cases "r mod ?B \<noteq> 0 \<or> p AND mask (index_shift (Suc n)) \<noteq> 0 \<or> c \<noteq> ?B \<or> index_shift (Suc n) > 30")
      case True
      show ?thesis by (rule map_chunk_nested [OF a(1,2,5,3,4) True a(6)]) (rule Suc.IH [OF _ Suc.prems(2) a(4,6)])
    next
      case False
      then show ?thesis by (intro map_chunk_leaf [OF a(1,2,5)]) (use a(6) Suc.prems(2) in \<open>simp_all add: page_aligned_def\<close>)
    qed
  qed (use Suc.prems in simp_all)
qed


section \<open>Lookups\<close>

lemma rem_slot:
  "v mod 2 ^ index_shift (Suc n) div 2 ^ index_shift n mod 2 ^ 32 = slot_of n v"
  "v mod 2 ^ index_shift (Suc n) - slot_of n v * 2 ^ index_shift n = v mod 2 ^ index_shift n"
proof -
  let ?B = "2 ^ index_shift n :: nat"
  have e: "v mod 2 ^ index_shift (Suc n) = ?B * slot_of n v + v mod ?B" using mod_mult2_eq [of v ?B 512] by (simp add: index_shift_Suc slot_of_def mult.commute)
  have "v mod 2 ^ index_shift (Suc n) div ?B = slot_of n v" unfolding e by simp
  moreover have "slot_of n v < 2 ^ 32" using slot_of_less [of n v] by (rule order_less_trans) simp
  ultimately show "v mod 2 ^ index_shift (Suc n) div ?B mod 2 ^ 32 = slot_of n v" by simp
  show "v mod 2 ^ index_shift (Suc n) - slot_of n v * ?B = v mod ?B" unfolding e by (simp add: mult.commute)
qed

lemma query_loop_leaf:
  "n \<le> 3 \<Longrightarrow> table_inv n f m R \<Longrightarrow>
     query_loop n (page_kva m f) (v mod 2 ^ index_shift (Suc n)) m =
       (case table_leaf m n (page_kva m f) v of None \<Rightarrow> Some (Inl ERR_NOT_FOUND) | Some (e, l) \<Rightarrow> Some (Inr (e, v mod 2 ^ index_shift l)))"
proof (induction n arbitrary: f R)
  case 0
  have i: "v mod 2 ^ index_shift (Suc 0) div 2 ^ index_shift 0 mod 2 ^ 32 = slot_of 0 v" "v mod 2 ^ index_shift (Suc 0) - slot_of 0 v * 2 ^ index_shift 0 = v mod 2 ^ index_shift 0"
    by (rule rem_slot)+
  have "entry_ok m 0 (kmem m (entry (page_kva m f) (slot_of 0 v))) (R (slot_of 0 v))" by (rule table_invD(9) [OF 0(2)]) simp
  then show ?case unfolding query_loop.simps [of 0] Let_def i table_leaf_def by auto
next
  case (Suc n)
  let ?e = "kmem m (entry (page_kva m f) (slot_of (Suc n) v))"
  have i: "v mod 2 ^ index_shift (Suc (Suc n)) div 2 ^ index_shift (Suc n) mod 2 ^ 32 = slot_of (Suc n) v"
    "v mod 2 ^ index_shift (Suc (Suc n)) - slot_of (Suc n) v * 2 ^ index_shift (Suc n) = v mod 2 ^ index_shift (Suc n)" by (rule rem_slot)+
  have ok: "entry_ok m (Suc n) ?e (R (slot_of (Suc n) v))" by (rule table_invD(9) [OF Suc.prems(2)]) simp
  show ?case
  proof (cases "?e AND 3 = 3")
    case False
    then show ?thesis using ok unfolding query_loop.simps [of "Suc n"] Let_def i table_leaf_def by auto
  next
    case True
    obtain g Rg where g: "page_paddr m g = out ?e" "table_inv n g m Rg" using nested_table [OF Suc.prems(2) slot_of_less refl True] by blast
    have kv: "paddr_to_kvaddr m (out ?e) = page_kva m g" by (simp add: page_kva_def g(1))
    have "table_leaf m (Suc n) (page_kva m f) v = table_leaf m n (page_kva m g) v"
      unfolding table_leaf_def [of m "Suc n"] leaf_Suc_table [OF True] kv ..
    then show ?thesis using Suc.IH [OF _ g(2)] Suc.prems(1) unfolding query_loop.simps [of "Suc n"] Let_def i by (simp add: True kv)
  qed
qed

section \<open>Attributes\<close>

lemma pte_attr_bits:
  assumes "flags AND 3 \<noteq> 3"
  shows "mmu_flags_to_pte_attr flags AND 3 = 0" "out (mmu_flags_to_pte_attr flags) = 0"
  using assms by (simp_all add: mmu_flags_to_pte_attr_def BM_def Let_def)

lemma new_entry_out: "p AND 0xFFF = 0 \<Longrightarrow> p AND NOT MMU_OA_RANGE_MASK = 0 \<Longrightarrow> out attrs = 0 \<Longrightarrow> out (new_entry p attrs l) = p"
  using out_page [of p] by (simp add: new_entry_def bit.conj_disj_distrib2)

lemma new_entry_flags:
  assumes "out p = p"
  shows "pte_to_mmu_flags (new_entry p attrs l) = pte_to_mmu_flags attrs"
proof -
  have m: "new_entry p attrs l AND x = attrs AND x" if "x AND 0xFFFFFFFFF000 = 0" "x AND 3 = 0" for x
  proof -
    have "p AND x = p AND (x AND 0xFFFFFFFFF000)" by (subst assms [symmetric]) (simp only: ac_simps)
    moreover have "3 AND x = 0" using that(2) by (simp add: and.commute)
    moreover have "1 AND x = 1 AND (3 AND x)" by (simp add: and.assoc [symmetric])
    ultimately show ?thesis using that by (simp add: new_entry_def bit.conj_disj_distrib2)
  qed
  have "new_entry p attrs l AND BM 5 1 1 = attrs AND BM 5 1 1" "new_entry p attrs l AND BM 2 3 7 = attrs AND BM 2 3 7" "new_entry p attrs l AND BM 6 2 3 = attrs AND BM 6 2 3"
    "new_entry p attrs l AND BM 54 1 1 = attrs AND BM 54 1 1" "new_entry p attrs l AND BM 53 1 1 = attrs AND BM 53 1 1"
    by (rule m; simp add: BM_def)+
  then show ?thesis by (simp only: pte_to_mmu_flags_def)
qed



lemma and_3_cases: "(w :: u32) AND 3 \<in> {0, 1, 2, 3}"
proof -
  have "(3 :: u32) = mask 2" by (simp add: mask_eq_exp_minus_1)
  then have "unat (w AND 3) = take_bit 2 (unat w)" by (simp only: take_bit_eq_mask [symmetric] unsigned_take_bit_eq)
  also have "\<dots> < 4" by (simp add: take_bit_eq_mod)
  finally have k: "unat (w AND 3) \<in> {0, 1, 2, 3}" by auto
  define k where "k = unat (w AND 3)"
  have "w AND 3 = of_nat k" by (simp add: k_def)
  then show ?thesis using k unfolding k_def [symmetric] by auto
qed

lemma and_12_cases: "(w :: u32) AND 12 \<in> {0, 4, 8, 12}"
proof -
  have m: "(12 :: u32) = push_bit 2 (mask 2)" "(3 :: u32) = mask 2" by (simp_all add: mask_eq_exp_minus_1)
  have "Suc (Suc (n - 2)) = n" if "2 \<le> n" for n using that by simp
  then have "w AND 12 = push_bit 2 (drop_bit 2 w AND 3)" unfolding m by (intro bit_word_eqI) (auto simp: bit_simps)
  moreover have "push_bit 2 x \<in> {0, 4, 8, 12}" if "x \<in> {0, 1, 2, 3}" for x :: u32 using that by auto
  ultimately show ?thesis using and_3_cases [of "drop_bit 2 w"] by metis
qed

lemma and_bit: "(w :: u32) AND push_bit k 1 = (if bit w k then push_bit k 1 else 0)"
  by (rule bit_word_eqI) (auto simp: bit_simps)

lemma flags_parts: "(w :: u32) AND 63 = (w AND 3) OR (w AND 12) OR (if bit w 4 then 16 else 0) OR (if bit w 5 then 32 else 0)"
proof -
  have "w AND 63 = w AND (3 OR 12 OR 16 OR 32)" by simp
  also have "\<dots> = (w AND 3) OR (w AND 12) OR (w AND 16) OR (w AND 32)" by (simp only: bit.conj_disj_distrib)
  finally show ?thesis using and_bit [of w 4] and_bit [of w 5] by simp
qed

text \<open>The flags are read back from the entry.\<close>

lemma flags_kept:
  assumes "flags AND 3 \<noteq> 3"
  shows "pte_to_mmu_flags (mmu_flags_to_pte_attr flags) = Some (flags AND 63)"
proof -
  consider "flags AND 3 = 0" | "flags AND 3 = 1" | "flags AND 3 = 2" using and_3_cases [of flags] assms by auto
  then show ?thesis
  proof cases
    case 1
    then show ?thesis using and_12_cases [of flags]
      by (cases "bit flags 4"; cases "bit flags 5") (auto simp: flags_parts mmu_flags_to_pte_attr_def pte_to_mmu_flags_def BM_def Let_def)
  next
    case 2
    then show ?thesis using and_12_cases [of flags]
      by (cases "bit flags 4"; cases "bit flags 5") (auto simp: flags_parts mmu_flags_to_pte_attr_def pte_to_mmu_flags_def BM_def Let_def)
  next
    case 3
    then show ?thesis using and_12_cases [of flags]
      by (cases "bit flags 4"; cases "bit flags 5") (auto simp: flags_parts mmu_flags_to_pte_attr_def pte_to_mmu_flags_def BM_def Let_def)
  qed
qed

end
