(* ===== verification/Heap.thy ===== *)
theory Heap
  imports Pmm
begin

text \<open>
  The heap of the kernel: \<^verbatim>\<open>lib/heap/miniheap/miniheap.c\<close> with the wrappers of \<^verbatim>\<open>lib/heap/heap_wrapper.c\<close>, as built with
  \<^verbatim>\<open>LK_DEBUGLEVEL\<close> 2, the default: assertions are checked and the structure in front of an allocation has 24 bytes, as many as a free chunk.

  Addresses and sizes are natural numbers; where the code may exceed the 64 bits of \<^verbatim>\<open>size_t\<close> the result is taken modulo $2^{64}$. The list of
  free chunks is a list of address and length; the structures in front of the allocations that are in use are a map from the pointer to the chunk and its
  length, so that freeing any other pointer is not modelled. The pages come from the page allocator, which is a parameter with the contract \<open>page_provider\<close>.
  \<^const>\<open>None\<close> is a failed assertion.
\<close>

section \<open>Data\<close>

type_synonym chunk = "nat \<times> nat"

text \<open>\<open>list_head\<close> is the address of the static list head, \<open>contents\<close> the bytes of memory as the users of the heap wrote them.\<close>

record 'p heap =
  h_base :: nat
  h_len :: nat
  remaining :: nat
  low_watermark :: nat
  chunks :: "chunk list"
  live :: "nat \<Rightarrow> chunk option"
  delayed :: "nat list"
  list_head :: nat
  contents :: "nat \<Rightarrow> u8"
  pages :: 'p

abbreviation (input) FREE_CHUNK_SIZE :: nat where "FREE_CHUNK_SIZE \<equiv> 24"
abbreviation (input) ALLOC_STRUCT_SIZE :: nat where "ALLOC_STRUCT_SIZE \<equiv> 24"

definition chunk_end :: "chunk \<Rightarrow> nat" where
  "chunk_end c = (fst c + snd c) mod 2 ^ 64"

section \<open>Free chunks\<close>

definition heap_create_free_chunk :: "nat \<Rightarrow> nat \<Rightarrow> chunk option" where
  "heap_create_free_chunk ptr len = (if len mod 8 = 0 \<and> len > FREE_CHUNK_SIZE then Some (ptr, len) else None)"

text \<open>The chunks before and after the place of a chunk in the list.\<close>

fun insert_walk :: "chunk \<Rightarrow> chunk list \<Rightarrow> (chunk list \<times> chunk list) option" where
  "insert_walk c [] = Some ([], [])"
| "insert_walk c (next_chunk # cs) =
     (if fst c < fst next_chunk
      then if chunk_end c \<le> fst next_chunk then Some ([], next_chunk # cs) else None
      else map_option (\<lambda>(before, after). (next_chunk # before, after)) (insert_walk c cs))"

text \<open>
  Behind the last chunk the variable of the loop is not NULL but the list head taken for a chunk, so that the code compares with
  its address; a chunk that ended there would be merged with it.
\<close>

definition heap_insert_free_chunk :: "chunk \<Rightarrow> 'p heap \<Rightarrow> 'p heap option" where
  "heap_insert_free_chunk c s =
     (case insert_walk c (chunks s) of
        None \<Rightarrow> None
      | Some (before, after) \<Rightarrow>
          let s = s\<lparr>remaining := (remaining s + snd c) mod 2 ^ 64\<rparr>;
              (before, c) = (if before \<noteq> [] \<and> chunk_end (last before) = fst c
                then (butlast before, (fst (last before), (snd (last before) + snd c) mod 2 ^ 64)) else (before, c))
          in case after of
               [] \<Rightarrow> if chunk_end c = list_head s then None else Some (s\<lparr>chunks := before @ [c]\<rparr>)
             | next_chunk # cs \<Rightarrow>
                 if chunk_end c = fst next_chunk then Some (s\<lparr>chunks := before @ (fst c, (snd c + snd next_chunk) mod 2 ^ 64) # cs\<rparr>)
                 else Some (s\<lparr>chunks := before @ c # next_chunk # cs\<rparr>))"

section \<open>Allocation\<close>

definition ROUNDUP64 :: "nat \<Rightarrow> nat \<Rightarrow> nat" where
  "ROUNDUP64 a b = (a + (b - 1)) mod 2 ^ 64 div b * b"

definition alloc_alignment :: "nat \<Rightarrow> nat" where
  "alloc_alignment alignment = (if alignment > 0 \<and> alignment < 16 then 16 else alignment)"

definition alloc_size :: "nat \<Rightarrow> nat \<Rightarrow> nat" where
  "alloc_size sz alignment =
     (let sz = (sz + ALLOC_STRUCT_SIZE) mod 2 ^ 64;
          sz = (if sz < FREE_CHUNK_SIZE then FREE_CHUNK_SIZE else sz);
          sz = ROUNDUP64 sz 8
      in if alignment > 0 then (sz + alignment) mod 2 ^ 64 else sz)"

text \<open>The first chunk that is big enough, with the chunks before and after it. The outer \<^const>\<open>None\<close> is the assertion.\<close>

fun first_fit :: "nat \<Rightarrow> chunk list \<Rightarrow> (chunk list \<times> chunk \<times> chunk list) option option" where
  "first_fit sz [] = Some None"
| "first_fit sz (c # cs) =
     (if snd c mod 8 \<noteq> 0 then None
      else if snd c \<ge> sz then Some (Some ([], c, cs))
      else map_option (map_option (\<lambda>(before, d, after). (c # before, d, after))) (first_fit sz cs))"

definition place :: "nat \<Rightarrow> nat \<Rightarrow> nat" where
  "place chunk alignment =
     (let ptr = (chunk + ALLOC_STRUCT_SIZE) mod 2 ^ 64
      in if alignment > 0 then ROUNDUP64 ptr alignment else ptr)"

definition take_chunk :: "nat \<Rightarrow> nat \<Rightarrow> chunk list \<times> chunk \<times> chunk list \<Rightarrow> 'p heap \<Rightarrow> (nat \<times> 'p heap) option" where
  "take_chunk sz alignment fit s =
     (case fit of (before, chunk, after) \<Rightarrow>
       case (if snd chunk > (sz + FREE_CHUNK_SIZE) mod 2 ^ 64
             then map_option (\<lambda>n. (sz, [n])) (heap_create_free_chunk ((fst chunk + sz) mod 2 ^ 64) (snd chunk - sz))
             else Some (snd chunk, [])) of
         None \<Rightarrow> None
       | Some (sz, newchunk) \<Rightarrow>
           let ptr = place (fst chunk) alignment;
               rem = (remaining s + 2 ^ 64 - sz) mod 2 ^ 64
           in Some (ptr, s\<lparr>chunks := before @ newchunk @ after, live := (live s)(ptr \<mapsto> (fst chunk, sz)), remaining := rem,
                low_watermark := (if rem < low_watermark s then rem else low_watermark s)\<rparr>))"

definition alloc_once :: "nat \<Rightarrow> nat \<Rightarrow> 'p heap \<Rightarrow> (nat \<times> 'p heap) option" where
  "alloc_once sz alignment s =
     (case first_fit sz (chunks s) of
        None \<Rightarrow> None
      | Some None \<Rightarrow> Some (0, s)
      | Some (Some fit) \<Rightarrow> take_chunk sz alignment fit s)"

type_synonym 'p page_alloc = "nat \<Rightarrow> 'p \<Rightarrow> nat \<times> 'p"

definition heap_grow :: "'p page_alloc \<Rightarrow> nat \<Rightarrow> 'p heap \<Rightarrow> ('p heap \<times> int) option" where
  "heap_grow page_alloc sz s =
     (let sz = ROUNDUP64 sz PAGE_SIZE; (ptr, p) = page_alloc (sz div PAGE_SIZE) (pages s); s = s\<lparr>pages := p\<rparr>
      in if ptr = 0 then Some (s, ERR_NO_MEMORY)
         else
           case heap_create_free_chunk ptr sz of
             None \<Rightarrow> None
           | Some c \<Rightarrow>
               (case heap_insert_free_chunk c s of
                  None \<Rightarrow> None
                | Some s \<Rightarrow>
                    let s = (if ptr < h_base s \<or> h_base s = 0 then s\<lparr>h_base := ptr\<rparr> else s);
                        endptr = (ptr + sz) mod 2 ^ 64;
                        s = (if endptr > (h_base s + h_len s) mod 2 ^ 64 then s\<lparr>h_len := (endptr + 2 ^ 64 - h_base s) mod 2 ^ 64\<rparr> else s)
                    in Some (s, if sz < 2 ^ 63 then int sz else int sz - 2 ^ 64)))"

definition miniheap_alloc :: "'p page_alloc \<Rightarrow> nat \<Rightarrow> nat \<Rightarrow> 'p heap \<Rightarrow> (nat \<times> 'p heap) option" where
  "miniheap_alloc page_alloc sz alignment s =
     (if alignment AND (alignment - 1) \<noteq> 0 then Some (0, s)
      else
        let alignment = alloc_alignment alignment; sz = alloc_size sz alignment
        in case alloc_once sz alignment s of
             None \<Rightarrow> None
           | Some (ptr, s) \<Rightarrow>
               if ptr \<noteq> 0 then Some (ptr, s)
               else
                 (case heap_grow page_alloc sz s of
                    None \<Rightarrow> None
                  | Some (s, err) \<Rightarrow> if err \<ge> 0 then alloc_once sz alignment s else Some (0, s)))"

section \<open>Freeing\<close>

definition miniheap_free :: "nat \<Rightarrow> 'p heap \<Rightarrow> 'p heap option" where
  "miniheap_free ptr s =
     (if ptr = 0 then Some s
      else
        case live s ptr of
          None \<Rightarrow> None
        | Some (as_ptr, as_size) \<Rightarrow>
            (case heap_create_free_chunk as_ptr as_size of
               None \<Rightarrow> None
             | Some c \<Rightarrow> heap_insert_free_chunk c (s\<lparr>live := (live s)(ptr := None)\<rparr>)))"

definition memcpy_bytes :: "nat \<Rightarrow> nat \<Rightarrow> nat \<Rightarrow> (nat \<Rightarrow> u8) \<Rightarrow> nat \<Rightarrow> u8" where
  "memcpy_bytes dst src n m = (\<lambda>a. if dst \<le> a \<and> a < dst + n then m (src + (a - dst)) else m a)"

definition miniheap_realloc :: "'p page_alloc \<Rightarrow> nat \<Rightarrow> nat \<Rightarrow> 'p heap \<Rightarrow> (nat \<times> 'p heap) option" where
  "miniheap_realloc page_alloc ptr sz s =
     (if ptr = 0 then miniheap_alloc page_alloc sz 0 s
      else if sz = 0 then map_option (\<lambda>s. (0, s)) (miniheap_free ptr s)
      else
        case miniheap_alloc page_alloc sz 0 s of
          None \<Rightarrow> None
        | Some (p, s) \<Rightarrow>
            if p = 0 then Some (0, s)
            else map_option (\<lambda>s. (p, s)) (miniheap_free ptr (s\<lparr>contents := memcpy_bytes p ptr sz (contents s)\<rparr>)))"

text \<open>
  The bounds of the pages that can be given back from a chunk from \<open>start\<close> to \<open>end\<close>: what is left before and behind them must hold a chunk.
\<close>

function trim_bounds :: "nat \<Rightarrow> nat \<Rightarrow> nat \<Rightarrow> nat \<Rightarrow> (nat \<times> nat) option" where
  "trim_bounds start fin start_page end_page =
     (if end_page > start_page then
        (if start_page \<noteq> start \<and> start_page - start < FREE_CHUNK_SIZE then trim_bounds start fin (start_page + PAGE_SIZE) end_page
         else if end_page < fin \<and> fin - end_page < FREE_CHUNK_SIZE then trim_bounds start fin start_page (end_page - PAGE_SIZE)
         else Some (start_page, end_page))
      else None)"
  by pat_completeness auto

termination
  by (relation "measure (\<lambda>(a, b, c, d). d - c)") auto

declare trim_bounds.simps [simp del]

type_synonym 'p page_free = "nat \<Rightarrow> nat \<Rightarrow> 'p \<Rightarrow> 'p option"

text \<open>One chunk of the walk over the list: the chunks that stay of it.\<close>

definition trim_chunk :: "'p page_free \<Rightarrow> chunk \<Rightarrow> 'p heap \<Rightarrow> (chunk list \<times> 'p heap) option" where
  "trim_chunk page_free c s =
     (let start = fst c; fin = chunk_end c; start_page = ROUNDUP64 start PAGE_SIZE; end_page = fin div PAGE_SIZE * PAGE_SIZE
      in if \<not> (fin > start \<and> end_page \<le> fin \<and> start_page \<ge> start) then None
         else
           case trim_bounds start fin start_page end_page of
             None \<Rightarrow> Some ([c], s)
           | Some (start_page, end_page) \<Rightarrow>
               (case (if end_page < fin then map_option (\<lambda>n. [n]) (heap_create_free_chunk end_page (fin - end_page)) else Some []) of
                  None \<Rightarrow> None
                | Some new_chunk \<Rightarrow>
                    map_option (\<lambda>p. ((if start_page = start then [] else [(start, start_page - start)]) @ new_chunk,
                      s\<lparr>pages := p, remaining := (remaining s + 2 ^ 64 - (end_page - start_page)) mod 2 ^ 64\<rparr>))
                      (page_free start_page ((end_page - start_page) div PAGE_SIZE) (pages s))))"

fun trim_loop :: "'p page_free \<Rightarrow> chunk list \<Rightarrow> 'p heap \<Rightarrow> (chunk list \<times> 'p heap) option" where
  "trim_loop page_free [] s = Some ([], s)"
| "trim_loop page_free (c # cs) s =
     (case trim_chunk page_free c s of
        None \<Rightarrow> None
      | Some (ds, s) \<Rightarrow> map_option (\<lambda>(es, s). (ds @ es, s)) (trim_loop page_free cs s))"

definition miniheap_trim :: "'p page_free \<Rightarrow> 'p heap \<Rightarrow> 'p heap option" where
  "miniheap_trim page_free s = map_option (\<lambda>(cs, s). s\<lparr>chunks := cs\<rparr>) (trim_loop page_free (chunks s) s)"

section \<open>Start and statistics\<close>

definition miniheap_init :: "nat \<Rightarrow> nat \<Rightarrow> 'p heap \<Rightarrow> 'p heap option" where
  "miniheap_init ptr len s =
     (let aligned_ptr = ROUNDUP64 ptr 8;
          (ok, ptr, len) = (if ptr mod 8 > 0 then (aligned_ptr - ptr < len, aligned_ptr, len - (aligned_ptr - ptr)) else (True, ptr, len));
          s = s\<lparr>chunks := [], h_base := ptr, h_len := len, remaining := 0, low_watermark := 0\<rparr>
      in if \<not> ok then None
         else if len > 0
         then (case heap_create_free_chunk ptr len of None \<Rightarrow> None | Some c \<Rightarrow> heap_insert_free_chunk c s)
         else Some s)"

record miniheap_stats =
  heap_start :: nat
  heap_len :: nat
  heap_free :: nat
  heap_max_chunk :: nat
  heap_low_watermark :: nat

definition miniheap_get_stats :: "'p heap \<Rightarrow> miniheap_stats" where
  "miniheap_get_stats s =
     \<lparr>heap_start = h_base s, heap_len = h_len s, heap_free = fold (\<lambda>c n. (n + snd c) mod 2 ^ 64) (chunks s) 0,
      heap_max_chunk = fold (\<lambda>c n. if snd c > n then snd c else n) (chunks s) 0, heap_low_watermark = low_watermark s\<rparr>"

section \<open>The functions of the kernel\<close>

definition HEAP_INIT :: "'p page_alloc \<Rightarrow> 'p heap \<Rightarrow> 'p heap option" where
  "HEAP_INIT page_alloc s = (let (ptr, p) = page_alloc 1 (pages s) in miniheap_init ptr PAGE_SIZE (s\<lparr>pages := p\<rparr>))"

primrec free_all :: "nat list \<Rightarrow> 'p heap \<Rightarrow> 'p heap option" where
  "free_all [] s = Some s"
| "free_all (p # ps) s = (case miniheap_free p s of None \<Rightarrow> None | Some s \<Rightarrow> free_all ps s)"

text \<open>The list is turned around on the way.\<close>

definition heap_free_delayed_list :: "'p heap \<Rightarrow> 'p heap option" where
  "heap_free_delayed_list s = free_all (rev (delayed s)) (s\<lparr>delayed := []\<rparr>)"

definition after_delayed :: "('p heap \<Rightarrow> 'a option) \<Rightarrow> 'p heap \<Rightarrow> 'a option" where
  "after_delayed f s = (case (if delayed s \<noteq> [] then heap_free_delayed_list s else Some s) of None \<Rightarrow> None | Some s \<Rightarrow> f s)"

definition heap_trim :: "'p page_free \<Rightarrow> 'p heap \<Rightarrow> 'p heap option" where
  "heap_trim page_free = after_delayed (miniheap_trim page_free)"

definition malloc :: "'p page_alloc \<Rightarrow> nat \<Rightarrow> 'p heap \<Rightarrow> (nat \<times> 'p heap) option" where
  "malloc page_alloc sz = after_delayed (miniheap_alloc page_alloc sz 0)"

definition memalign :: "'p page_alloc \<Rightarrow> nat \<Rightarrow> nat \<Rightarrow> 'p heap \<Rightarrow> (nat \<times> 'p heap) option" where
  "memalign page_alloc boundary sz = after_delayed (miniheap_alloc page_alloc sz (boundary mod 2 ^ 32))"

definition calloc :: "'p page_alloc \<Rightarrow> nat \<Rightarrow> nat \<Rightarrow> 'p heap \<Rightarrow> (nat \<times> 'p heap) option" where
  "calloc page_alloc count sz = after_delayed (\<lambda>s.
     let realsize = count * sz mod 2 ^ 64
     in map_option (\<lambda>(ptr, s). (ptr, if ptr \<noteq> 0 then s\<lparr>contents := (\<lambda>a. if ptr \<le> a \<and> a < ptr + realsize then 0 else contents s a)\<rparr> else s))
          (miniheap_alloc page_alloc realsize 0 s))"

definition realloc :: "'p page_alloc \<Rightarrow> nat \<Rightarrow> nat \<Rightarrow> 'p heap \<Rightarrow> (nat \<times> 'p heap) option" where
  "realloc page_alloc ptr sz = after_delayed (miniheap_realloc page_alloc ptr sz)"

definition free :: "nat \<Rightarrow> 'p heap \<Rightarrow> 'p heap option" where
  "free ptr = miniheap_free ptr"

definition heap_delayed_free :: "nat \<Rightarrow> 'p heap \<Rightarrow> 'p heap" where
  "heap_delayed_free ptr s = s\<lparr>delayed := ptr # delayed s\<rparr>"

section \<open>Chunks as sets of addresses\<close>

definition region :: "chunk \<Rightarrow> nat set" where
  "region c = {fst c..<fst c + snd c}"

definition covers :: "chunk list \<Rightarrow> nat set" where
  "covers cs = (\<Union>c\<in>set cs. region c)"

text \<open>In the order of addresses, and no two chunks touch.\<close>

definition coalesced :: "chunk list \<Rightarrow> bool" where
  "coalesced cs \<longleftrightarrow> sorted_wrt (\<lambda>c d. fst c + snd c < fst d) cs \<and> (\<forall>c\<in>set cs. 0 < snd c)"

definition chunk_ok :: "chunk \<Rightarrow> bool" where
  "chunk_ok c \<longleftrightarrow> 0 < fst c \<and> fst c mod 8 = 0 \<and> snd c mod 8 = 0 \<and> FREE_CHUNK_SIZE \<le> snd c \<and> fst c + snd c < 2 ^ 64"

abbreviation total :: "chunk list \<Rightarrow> nat" where
  "total cs \<equiv> sum_list (map snd cs)"

lemma covers_simps [simp]: "covers [] = {}" "covers (c # cs) = region c \<union> covers cs" "covers (cs @ ds) = covers cs \<union> covers ds"
  by (auto simp: covers_def)

lemma chunk_end_ok: "chunk_ok c \<Longrightarrow> chunk_end c = fst c + snd c"
  by (simp add: chunk_ok_def chunk_end_def)

lemma region_nonempty: "chunk_ok c \<Longrightarrow> region c \<noteq> {}"
  by (simp add: chunk_ok_def region_def)

lemma region_disjoint: "0 < snd c \<Longrightarrow> 0 < snd d \<Longrightarrow> region c \<inter> region d = {} \<longleftrightarrow> fst c + snd c \<le> fst d \<or> fst d + snd d \<le> fst c"
  by (auto simp: region_def)

lemma coalesced_append: "coalesced (cs @ ds) \<longleftrightarrow> coalesced cs \<and> coalesced ds \<and> (\<forall>c\<in>set cs. \<forall>d\<in>set ds. fst c + snd c < fst d)"
  by (auto simp: coalesced_def sorted_wrt_append)

lemma coalesced_Cons: "coalesced (c # cs) \<longleftrightarrow> 0 < snd c \<and> coalesced cs \<and> (\<forall>d\<in>set cs. fst c + snd c < fst d)"
  by (auto simp: coalesced_def)

lemma coalesced_Nil [simp]: "coalesced []" by (simp add: coalesced_def)

text \<open>There is one coalesced list for a set of addresses.\<close>

lemma covers_bounds: "x \<in> covers cs \<Longrightarrow> \<exists>c\<in>set cs. fst c \<le> x \<and> x < fst c + snd c"
  by (auto simp: covers_def region_def)

lemma coalesced_end: "coalesced (c # cs) \<Longrightarrow> fst c + snd c \<notin> covers (c # cs)"
  by (auto simp: coalesced_Cons region_def dest!: covers_bounds)

lemma coalesced_first: "coalesced (c # cs) \<Longrightarrow> x \<in> covers (c # cs) \<Longrightarrow> fst c \<le> x"
  by (auto simp: coalesced_Cons region_def dest!: covers_bounds)

lemma coalesced_rest: "coalesced (c # cs) \<Longrightarrow> covers cs = covers (c # cs) - region c"
proof -
  assume "coalesced (c # cs)"
  then have "fst c + snd c < fst d" if "d \<in> set cs" for d using that by (simp add: coalesced_Cons)
  then have "region c \<inter> covers cs = {}" by (fastforce simp: region_def dest!: covers_bounds)
  then show ?thesis by auto
qed

lemma coalesced_unique: "coalesced cs \<Longrightarrow> coalesced ds \<Longrightarrow> covers cs = covers ds \<Longrightarrow> cs = ds"
proof (induction cs arbitrary: ds)
  case Nil
  then show ?case by (cases ds) (auto simp: coalesced_Cons region_def)
next
  case (Cons c cs)
  have c: "fst c \<in> covers (c # cs)" using Cons.prems(1) by (simp add: coalesced_Cons region_def)
  then obtain d ds' where ds: "ds = d # ds'" using Cons.prems(3) by (cases ds) auto
  have d: "fst d \<in> covers (d # ds')" using Cons.prems(2) by (simp add: ds coalesced_Cons region_def)
  have f: "fst c = fst d"
    using coalesced_first [OF Cons.prems(1)] coalesced_first [of d ds'] c d Cons.prems(2,3) unfolding ds by (metis le_antisym)
  have "\<not> snd c < snd d" "\<not> snd d < snd c"
    using coalesced_end [OF Cons.prems(1)] coalesced_end [of d ds'] Cons.prems(2,3) f unfolding ds by (auto simp: region_def)
  then have e: "c = d" using f by (simp add: prod_eq_iff)
  have "covers cs = covers ds'"
    using coalesced_rest [OF Cons.prems(1)] coalesced_rest [of d ds'] Cons.prems(2,3) by (simp add: ds e)
  then show ?case using Cons by (simp add: ds e coalesced_Cons)
qed

lemma total_bound:
  "coalesced cs \<Longrightarrow> \<forall>c\<in>set cs. a \<le> fst c \<and> fst c + snd c \<le> b \<Longrightarrow> a \<le> b \<Longrightarrow> a + total cs \<le> b"
proof (induction cs arbitrary: a)
  case (Cons c cs)
  then have "fst c + snd c + total cs \<le> b" by (intro Cons.IH) (auto simp: coalesced_Cons intro: less_imp_le)
  then show ?case using Cons.prems(2) by auto
qed simp

lemma total_less: "coalesced cs \<Longrightarrow> \<forall>c\<in>set cs. chunk_ok c \<Longrightarrow> total cs < 2 ^ 64"
  using total_bound [of cs 0 "2 ^ 64 - 1"] by (fastforce simp: chunk_ok_def)

section \<open>Inserting a free chunk\<close>

lemma insert_walk_split:
  assumes "coalesced cs" "\<forall>d\<in>set cs. chunk_ok d" "chunk_ok c" "region c \<inter> covers cs = {}"
  shows "\<exists>before after. insert_walk c cs = Some (before, after) \<and> cs = before @ after \<and> (\<forall>d\<in>set before. fst d + snd d \<le> fst c) \<and>
    (\<forall>d\<in>set after. fst c + snd c \<le> fst d)"
  using assms
proof (induction cs)
  case (Cons n cs)
  have p: "0 < snd c" "0 < snd n" using Cons.prems by (auto simp: chunk_ok_def)
  have d: "fst c + snd c \<le> fst n \<or> fst n + snd n \<le> fst c" using Cons.prems(4) region_disjoint [OF p] by auto
  show ?case
  proof (cases "fst c < fst n")
    case True
    then have "fst c + snd c \<le> fst n" using d by linarith
    moreover have "\<forall>d\<in>set cs. fst n + snd n < fst d" using Cons.prems(1) by (simp add: coalesced_Cons)
    ultimately show ?thesis using True Cons.prems(3) by (fastforce simp: chunk_end_ok)
  next
    case False
    then have "fst n + snd n \<le> fst c" using d p by linarith
    moreover obtain before after where "insert_walk c cs = Some (before, after)" "cs = before @ after" "\<forall>d\<in>set before. fst d + snd d \<le> fst c"
      "\<forall>d\<in>set after. fst c + snd c \<le> fst d"
      using Cons.IH Cons.prems by (auto simp: coalesced_Cons)
    ultimately show ?thesis using False by simp
  qed
qed simp

lemma last_touches:
  assumes "coalesced cs" "\<forall>d\<in>set cs. fst d + snd d \<le> a" "cs = [] \<or> fst (last cs) + snd (last cs) \<noteq> a"
  shows "\<forall>d\<in>set cs. fst d + snd d < a"
proof
  fix d
  assume d: "d \<in> set cs"
  then have cs: "cs = butlast cs @ [last cs]" by (cases cs) auto
  show "fst d + snd d < a"
  proof (cases "d = last cs")
    case True
    then show ?thesis using assms d le_neq_implies_less by fastforce
  next
    case False
    have "set cs = insert (last cs) (set (butlast cs))" using arg_cong [OF cs, of set] by simp
    then have "d \<in> set (butlast cs)" using False d by simp
    then have "fst d + snd d < fst (last cs)" using assms(1) cs coalesced_append [of "butlast cs" "[last cs]"] by auto
    moreover have "fst (last cs) + snd (last cs) \<le> a" using assms(2) d cs by (metis last_in_set length_pos_if_in_set less_numeral_extra(3) list.size(3))
    ultimately show ?thesis by linarith
  qed
qed


text \<open>The two merges.\<close>

definition merge_before :: "chunk list \<Rightarrow> chunk \<Rightarrow> chunk list \<times> chunk" where
  "merge_before B c = (if B \<noteq> [] \<and> chunk_end (last B) = fst c then (butlast B, (fst (last B), (snd (last B) + snd c) mod 2 ^ 64)) else (B, c))"

definition merge_after :: "chunk \<Rightarrow> chunk list \<Rightarrow> chunk list" where
  "merge_after c A = (case A of [] \<Rightarrow> [c]
     | n # cs \<Rightarrow> if chunk_end c = fst n then (fst c, (snd c + snd n) mod 2 ^ 64) # cs else c # n # cs)"

lemma merge_before:
  assumes B: "coalesced B" "\<forall>d\<in>set B. chunk_ok d" "\<forall>d\<in>set B. fst d + snd d \<le> fst c" and c: "chunk_ok c"
    and m: "merge_before B c = (B', c')"
  shows "chunk_ok c' \<and> fst c' + snd c' = fst c + snd c \<and> covers B' \<union> region c' = covers B \<union> region c \<and>
    total B' + snd c' = total B + snd c \<and> (\<forall>d\<in>set B'. chunk_ok d \<and> fst d + snd d < fst c') \<and> coalesced B'"
proof (cases "B \<noteq> [] \<and> chunk_end (last B) = fst c")
  case True
  define b where "b = last B"
  have B': "B = B' @ [b]" "c' = (fst b, (snd b + snd c) mod 2 ^ 64)" "chunk_end b = fst c" using m True by (auto simp: merge_before_def b_def)
  have "chunk_ok b" using B(2) unfolding B'(1) by simp
  then have bo: "chunk_ok b" "fst b + snd b = fst c" using chunk_end_ok B'(3) by simp_all
  then have l: "c' = (fst b, snd b + snd c)" using B'(2) c by (simp add: chunk_ok_def)
  moreover have "region c' = region b \<union> region c" using bo by (auto simp: l region_def)
  moreover have "chunk_ok c'" using bo c by (auto simp: l chunk_ok_def mod_add_eq [symmetric])
  ultimately show ?thesis using B(1,2) bo by (auto simp: B'(1) coalesced_append)
next
  case False
  then have m': "B' = B" "c' = c" using m by (auto simp: merge_before_def)
  have "B = [] \<or> fst (last B) + snd (last B) \<noteq> fst c" using False B(2) by (auto simp: chunk_end_ok)
  then show ?thesis using last_touches [OF B(1,3)] B c by (simp add: m')
qed

lemma merge_after:
  assumes A: "coalesced A" "\<forall>d\<in>set A. chunk_ok d" "\<forall>d\<in>set A. fst c + snd c \<le> fst d" and c: "chunk_ok c"
  shows "coalesced (merge_after c A) \<and> (\<forall>d\<in>set (merge_after c A). chunk_ok d \<and> fst c \<le> fst d) \<and>
    covers (merge_after c A) = region c \<union> covers A \<and> total (merge_after c A) = snd c + total A"
proof (cases A)
  case Nil
  then show ?thesis using c by (simp add: merge_after_def coalesced_Cons chunk_ok_def)
next
  case (Cons n cs)
  have n: "chunk_ok n" "fst c + snd c \<le> fst n" "\<forall>d\<in>set cs. fst n + snd n < fst d" "coalesced cs"
    using A by (simp_all add: Cons coalesced_Cons)
  then have far: "\<forall>d\<in>set cs. fst c \<le> fst d" "\<forall>d\<in>set cs. fst c + snd c < fst d" by fastforce+
  show ?thesis
  proof (cases "fst c + snd c = fst n")
    case True
    have l: "snd c + snd n < 2 ^ 64" using n(1) True by (simp add: chunk_ok_def)
    have "chunk_ok (fst c, snd c + snd n)" using n(1) c True by (auto simp: chunk_ok_def mod_add_eq [symmetric])
    moreover have "region (fst c, snd c + snd n) = region c \<union> region n" using True by (auto simp: region_def)
    ultimately show ?thesis
      using A far n c l True by (auto simp: merge_after_def Cons chunk_end_ok coalesced_Cons add.assoc [symmetric])
  next
    case False
    then show ?thesis using A far n c by (auto simp: merge_after_def Cons chunk_end_ok coalesced_Cons chunk_ok_def)
  qed
qed

lemma heap_insert_merge:
  assumes "insert_walk c (chunks s) = Some (B, A)" "merge_before B c = (B', c')" "A = [] \<longrightarrow> chunk_end c' \<noteq> list_head s"
  shows "heap_insert_free_chunk c s = Some (s\<lparr>chunks := B' @ merge_after c' A, remaining := (remaining s + snd c) mod 2 ^ 64\<rparr>)"
  using assms by (auto simp: heap_insert_free_chunk_def merge_before_def merge_after_def Let_def split: list.splits if_splits)

lemma insert_free_chunk:
  assumes cs: "coalesced (chunks s)" "\<forall>d\<in>set (chunks s). chunk_ok d" and c: "chunk_ok c" "region c \<inter> covers (chunks s) = {}"
    and h: "list_head s - 1 \<notin> region c" and r: "remaining s = total (chunks s)"
  shows "\<exists>cs'. heap_insert_free_chunk c s = Some (s\<lparr>chunks := cs', remaining := total cs'\<rparr>) \<and> coalesced cs' \<and> (\<forall>d\<in>set cs'. chunk_ok d) \<and>
    covers cs' = covers (chunks s) \<union> region c \<and> total cs' = total (chunks s) + snd c"
proof -
  obtain B A where w: "insert_walk c (chunks s) = Some (B, A)" and BA: "chunks s = B @ A"
    and B: "\<forall>d\<in>set B. fst d + snd d \<le> fst c" and A: "\<forall>d\<in>set A. fst c + snd c \<le> fst d"
    using insert_walk_split [OF cs c] by blast
  obtain B' c' where m: "merge_before B c = (B', c')" by (cases "merge_before B c")
  have co: "coalesced B" "coalesced A" "\<forall>d\<in>set B. chunk_ok d" "\<forall>d\<in>set A. chunk_ok d" using cs by (simp_all add: BA coalesced_append)
  note b = merge_before [OF co(1,3) B c(1) m]
  have "chunk_end c' = fst c + snd c" "fst c + snd c \<noteq> list_head s" using b c(1) h by (auto simp: chunk_end_ok region_def chunk_ok_def)
  then have run: "heap_insert_free_chunk c s = Some (s\<lparr>chunks := B' @ merge_after c' A, remaining := (remaining s + snd c) mod 2 ^ 64\<rparr>)"
    by (intro heap_insert_merge [OF w m]) simp
  have a: "coalesced (merge_after c' A) \<and> (\<forall>d\<in>set (merge_after c' A). chunk_ok d \<and> fst c' \<le> fst d) \<and>
      covers (merge_after c' A) = region c' \<union> covers A \<and> total (merge_after c' A) = snd c' + total A"
    using b A by (intro merge_after [OF co(2,4)]) simp_all
  let ?cs = "B' @ merge_after c' A"
  have "coalesced ?cs" using a b by (fastforce simp: coalesced_append)
  moreover have "\<forall>d\<in>set ?cs. chunk_ok d" using a b by auto
  moreover have "covers ?cs = covers (chunks s) \<union> region c" using a b by (simp add: BA Un_assoc [symmetric]) blast
  moreover have "total ?cs = total (chunks s) + snd c" using a b by (simp add: BA)
  ultimately show ?thesis using run total_less [of ?cs] r by (intro exI [of _ ?cs]) simp
qed


section \<open>Sizes and alignment\<close>

lemma power_of_two:
  fixes n :: nat
  assumes "n AND (n - 1) = 0" "0 < n"
  obtains k where "n = 2 ^ k"
proof -
  obtain k where k: "2 ^ k \<le> n" "n < 2 ^ Suc k" using ex_power_ivl1 [of 2 n] assms(2) by auto
  have b: "bit m k" if "2 ^ k \<le> m" "m < 2 ^ Suc k" for m :: nat
  proof -
    have "m div 2 ^ k = 1" using that by (intro div_nat_eqI) simp_all
    then show ?thesis by (simp add: bit_iff_odd)
  qed
  have "\<not> 2 ^ k \<le> n - 1"
  proof
    assume "2 ^ k \<le> n - 1"
    then have "bit (n AND (n - 1)) k" using b k by (simp add: bit_and_iff)
    then show False using assms(1) by simp
  qed
  then have "n = 2 ^ k" using k(1) by linarith
  then show thesis by (rule that)
qed

lemma align_ok:
  assumes "alignment AND (alignment - 1) = (0 :: nat)"
  shows "alloc_alignment alignment mod 8 = 0"
proof (cases "alignment < 16")
  case False
  then obtain k where k: "alignment = 2 ^ k" using power_of_two [OF assms] by auto
  have "4 \<le> k"
  proof (rule ccontr)
    assume "\<not> 4 \<le> k"
    then have "(2 :: nat) ^ k < 2 ^ 4" by (intro power_strict_increasing) simp_all
    then show False using False k by simp
  qed
  then have "(2 :: nat) ^ 3 dvd 2 ^ k" by (intro le_imp_power_dvd) simp
  then show ?thesis using k False by (simp add: alloc_alignment_def)
qed (auto simp: alloc_alignment_def)

lemma ROUNDUP64_eq: "a + (b - 1) < 2 ^ 64 \<Longrightarrow> ROUNDUP64 a b = ROUNDUP a b"
  by (simp add: ROUNDUP64_def ROUNDUP_def)

lemma ROUNDUP_less: "0 < b \<Longrightarrow> ROUNDUP a b < a + b"
proof -
  assume "0 < b"
  have "(a + (b - 1)) div b * b \<le> a + (b - 1)" by simp
  then show ?thesis unfolding ROUNDUP_def using \<open>0 < b\<close> by linarith
qed

text \<open>The size that is looked for when the request does not overflow.\<close>

lemma alloc_size_ok:
  assumes "n + al + 64 < 2 ^ 64" "al mod 8 = 0"
  shows "alloc_size n al = ROUNDUP (n + 24) 8 + al" "alloc_size n al mod 8 = 0" "n + 24 + al \<le> alloc_size n al"
    "alloc_size n al < n + 32 + al" "alloc_size n al = 24 \<longleftrightarrow> n = 0 \<and> al = 0"
proof -
  have r: "ROUNDUP64 (n + 24) 8 = ROUNDUP (n + 24) 8" using assms(1) by (intro ROUNDUP64_eq) simp
  have b: "n + 24 \<le> ROUNDUP (n + 24) 8" "ROUNDUP (n + 24) 8 < n + 24 + 8" "ROUNDUP (n + 24) 8 mod 8 = 0"
    using ROUNDUP_less [of 8 "n + 24"] by (simp_all add: ROUNDUP_ge ROUNDUP_aligned)
  show s: "alloc_size n al = ROUNDUP (n + 24) 8 + al"
    using assms(1) b by (simp add: alloc_size_def Let_def r)
  show "alloc_size n al mod 8 = 0" using b(3) assms(2) by (simp add: s mod_add_eq [symmetric])
  show "n + 24 + al \<le> alloc_size n al" "alloc_size n al < n + 32 + al" using b by (simp_all add: s)
  have "ROUNDUP (0 + 24) 8 = 24" by (simp add: ROUNDUP_def)
  then show "alloc_size n al = 24 \<longleftrightarrow> n = 0 \<and> al = 0" using b(1) by (auto simp: s)
qed

lemma place_ok:
  assumes "chunk_ok (a, l)" "sz \<le> l" "n + 24 + al \<le> sz"
  shows "a + 24 \<le> place a al" "place a al + n \<le> a + sz" "0 < al \<Longrightarrow> place a al mod al = 0"
proof -
  have "a + l < 2 ^ 64" using assms(1) by (simp add: chunk_ok_def)
  then have w: "a + 24 + (al - 1) < 2 ^ 64" using assms(2,3) by linarith
  then have p: "place a al = (if al > 0 then ROUNDUP (a + 24) al else a + 24)" using ROUNDUP64_eq [of "a + 24" al] by (simp add: place_def)
  show "a + 24 \<le> place a al" using ROUNDUP_ge [of al "a + 24"] by (simp add: p)
  show "place a al + n \<le> a + sz" using ROUNDUP_less [of al "a + 24"] assms(3) unfolding p by (cases "al > 0") simp_all
  show "0 < al \<Longrightarrow> place a al mod al = 0" by (simp add: p ROUNDUP_aligned)
qed


section \<open>The invariant\<close>

text \<open>
  With \<open>U\<close> the addresses of the pages in use: the free chunks are in order, apart from each other and inside the pages, \<^verbatim>\<open>remaining\<close> is their
  total length, and the blocks in use are inside the pages, apart from each other and from the free chunks, with their pointers behind the structure in front.
\<close>

definition heap_inv :: "nat set \<Rightarrow> 'p heap \<Rightarrow> bool" where
  "heap_inv U s \<longleftrightarrow> coalesced (chunks s) \<and> (\<forall>c\<in>set (chunks s). chunk_ok c) \<and> covers (chunks s) \<subseteq> U \<and> remaining s = total (chunks s) \<and>
     list_head s - 1 \<notin> U \<and>
     (\<forall>p c. live s p = Some c \<longrightarrow> chunk_ok c \<and> region c \<subseteq> U \<and> region c \<inter> covers (chunks s) = {} \<and> fst c + 24 \<le> p \<and> p \<le> fst c + snd c) \<and>
     (\<forall>p q c d. live s p = Some c \<and> live s q = Some d \<and> p \<noteq> q \<longrightarrow> region c \<inter> region d = {})"

lemma heap_inv_D:
  assumes "heap_inv U s"
  shows "coalesced (chunks s)" "\<forall>c\<in>set (chunks s). chunk_ok c" "covers (chunks s) \<subseteq> U" "remaining s = total (chunks s)" "list_head s - 1 \<notin> U"
    "\<And>p c. live s p = Some c \<Longrightarrow> chunk_ok c \<and> region c \<subseteq> U \<and> region c \<inter> covers (chunks s) = {} \<and> fst c + 24 \<le> p \<and> p \<le> fst c + snd c"
    "\<And>p q c d. live s p = Some c \<Longrightarrow> live s q = Some d \<Longrightarrow> p \<noteq> q \<Longrightarrow> region c \<inter> region d = {}"
  using assms unfolding heap_inv_def by blast+

lemma first_fit_split:
  assumes "\<forall>c\<in>set cs. chunk_ok c"
  shows "(\<exists>B c A. first_fit sz cs = Some (Some (B, c, A)) \<and> cs = B @ c # A \<and> sz \<le> snd c \<and> (\<forall>d\<in>set B. snd d < sz)) \<or>
    first_fit sz cs = Some None \<and> (\<forall>d\<in>set cs. snd d < sz)"
  using assms
proof (induction cs)
  case (Cons c cs)
  then show ?case
  proof (cases "sz \<le> snd c")
    case False
    have "(\<exists>B c A. first_fit sz cs = Some (Some (B, c, A)) \<and> cs = B @ c # A \<and> sz \<le> snd c \<and> (\<forall>d\<in>set B. snd d < sz)) \<or>
      first_fit sz cs = Some None \<and> (\<forall>d\<in>set cs. snd d < sz)" using Cons by simp
    then show ?thesis
    proof (elim disjE exE conjE)
      fix B d A
      assume "first_fit sz cs = Some (Some (B, d, A))" "cs = B @ d # A" "sz \<le> snd d" "\<forall>d\<in>set B. snd d < sz"
      then show ?thesis using False Cons.prems by (intro disjI1 exI [of _ "c # B"] exI [of _ d] exI [of _ A]) (simp add: chunk_ok_def)
    qed (use False Cons.prems in \<open>simp add: chunk_ok_def\<close>)
  qed (auto simp: chunk_ok_def)
qed simp

text \<open>
  What an allocation from the free chunks does: a block \<open>c\<close> that was free is in use, with a pointer that was not in use and room for \<open>n\<close> bytes behind it.
\<close>

definition allocated :: "nat \<Rightarrow> nat \<Rightarrow> 'p heap \<Rightarrow> nat \<Rightarrow> 'p heap \<Rightarrow> bool" where
  "allocated n al s ptr s' \<longleftrightarrow> (\<exists>c. live s' = (live s)(ptr \<mapsto> c) \<and> live s ptr = None \<and> chunk_ok c \<and> region c \<subseteq> covers (chunks s) \<and>
     covers (chunks s') = covers (chunks s) - region c \<and> fst c + 24 \<le> ptr \<and> ptr + n \<le> fst c + snd c \<and> (0 < al \<longrightarrow> ptr mod al = 0) \<and>
     n + 24 + al \<le> snd c \<and> contents s' = contents s \<and> pages s' = pages s \<and> list_head s' = list_head s \<and> delayed s' = delayed s \<and>
     h_base s' = h_base s \<and> h_len s' = h_len s)"

lemma take_chunk_run:
  assumes inv: "heap_inv U s" and cs: "chunks s = B @ (a, l) # A" and sz: "sz \<le> l" "sz mod 8 = 0" "24 \<le> sz" "sz + 24 < 2 ^ 64"
  obtains l' N where "take_chunk sz al (B, (a, l), A) s = Some (place a al, s\<lparr>chunks := B @ N @ A, live := (live s)(place a al \<mapsto> (a, l')),
      remaining := total (B @ N @ A),
      low_watermark := (if total (B @ N @ A) < low_watermark s then total (B @ N @ A) else low_watermark s)\<rparr>)"
    "sz \<le> l'" "l' \<le> l" "l' \<le> sz + 24" "l' mod 8 = 0" "N = (if l' = l then [] else [(a + l', l - l')])" "\<forall>d\<in>set N. chunk_ok d"
proof -
  have c: "chunk_ok (a, l)" "remaining s = total B + l + total A" using heap_inv_D(2,4) [OF inv] by (simp_all add: cs)
  have t: "total B + l + total A < 2 ^ 64" using total_less [OF heap_inv_D(1,2) [OF inv]] by (simp add: cs)
  have c8: "l mod 8 = 0" "a mod 8 = 0" "a + l < 2 ^ 64" "0 < a" using c(1) by (auto simp: chunk_ok_def)
  have rem: "(total B + l + total A + 2 ^ 64 - x) mod 2 ^ 64 = total B + (l - x) + total A" if "x \<le> l" for x
  proof -
    define k where "k = total B + (l - x) + total A"
    have "k < 2 ^ 64" "total B + l + total A + 2 ^ 64 - x = k + 2 ^ 64" using t that by (simp_all add: k_def)
    then show ?thesis unfolding k_def [symmetric] by simp
  qed
  show thesis
  proof (cases "l > sz + 24")
    case True
    have d: "(l - sz) mod 8 = 0" using c8(1) sz(1,2) by (metis dvd_diff_nat mod_eq_0_iff_dvd)
    have "chunk_ok (a + sz, l - sz)" using True d c8 sz(2) by (simp add: chunk_ok_def mod_add_eq [symmetric])
    moreover have "take_chunk sz al (B, (a, l), A) s = Some (place a al, s\<lparr>chunks := B @ [(a + sz, l - sz)] @ A, live := (live s)(place a al \<mapsto> (a, sz)),
        remaining := total B + (l - sz) + total A,
        low_watermark := (if total B + (l - sz) + total A < low_watermark s then total B + (l - sz) + total A else low_watermark s)\<rparr>)"
      using True c8(3) sz(1,4) d rem [OF sz(1)] by (simp add: take_chunk_def heap_create_free_chunk_def Let_def c(2))
    ultimately show ?thesis using that [of "[(a + sz, l - sz)]" sz] sz True by (simp add: add.assoc)
  next
    case False
    have "take_chunk sz al (B, (a, l), A) s = Some (place a al, s\<lparr>chunks := B @ A, live := (live s)(place a al \<mapsto> (a, l)),
        remaining := total B + total A, low_watermark := (if total B + total A < low_watermark s then total B + total A else low_watermark s)\<rparr>)"
      using False c8(3) sz(1,4) rem [of l] by (simp add: take_chunk_def Let_def c(2))
    then show ?thesis using that [of "[]" l] sz False c8(1) by simp
  qed
qed


text \<open>Splitting a chunk of a list.\<close>

lemma coalesced_split:
  assumes cs: "coalesced (B @ (a, l) # A)" and l: "0 < l'" "l' \<le> l" and N: "N = (if l' = l then [] else [(a + l', l - l')])"
  shows "coalesced (B @ N @ A)" "covers (B @ N @ A) = covers (B @ (a, l) # A) - region (a, l')" "region (a, l') \<subseteq> covers (B @ (a, l) # A)"
proof -
  have c: "coalesced B" "coalesced A" "\<forall>d\<in>set B. fst d + snd d < a" "\<forall>d\<in>set A. a + l < fst d"
    "\<forall>d\<in>set B. \<forall>e\<in>set A. fst d + snd d < fst e"
    using cs by (auto simp: coalesced_append coalesced_Cons)
  show "coalesced (B @ N @ A)" using c l by (auto simp: N coalesced_append coalesced_Cons)
  have "region (a, l) = region (a, l') \<union> covers N" "region (a, l') \<inter> covers N = {}" using l by (auto simp: N region_def)
  moreover have "region (a, l) \<inter> covers B = {}" using c(3) by (fastforce simp: region_def dest!: covers_bounds)
  moreover have "region (a, l) \<inter> covers A = {}" using c(4) by (fastforce simp: region_def dest!: covers_bounds)
  ultimately show "covers (B @ N @ A) = covers (B @ (a, l) # A) - region (a, l')" "region (a, l') \<subseteq> covers (B @ (a, l) # A)" by auto
qed

lemma new_pointer:
  assumes inv: "heap_inv U s" and c: "region (a, l) \<subseteq> covers (chunks s)" "0 < l" "a + 24 \<le> ptr" "ptr \<le> a + l"
  shows "live s ptr = None"
proof (rule ccontr)
  assume "live s ptr \<noteq> None"
  then obtain d where d: "live s ptr = Some d" by blast
  then have i: "chunk_ok d" "region d \<inter> region (a, l) = {}" "fst d + 24 \<le> ptr" "ptr \<le> fst d + snd d"
    using heap_inv_D(6) [OF inv d] c(1) by auto
  then have "fst d + snd d \<le> a \<or> a + l \<le> fst d" using region_disjoint [of d "(a, l)"] c(2) by (simp add: chunk_ok_def)
  then show False using i(3,4) c(3,4) by linarith
qed

text \<open>A free block that gets into use.\<close>

lemma heap_inv_take:
  assumes inv: "heap_inv U s" and c: "chunk_ok c" "region c \<subseteq> covers (chunks s)" "fst c + 24 \<le> ptr" "ptr \<le> fst c + snd c"
    and cs: "coalesced cs" "\<forall>d\<in>set cs. chunk_ok d" "covers cs = covers (chunks s) - region c"
    and s': "live s' = (live s)(ptr \<mapsto> c)" "chunks s' = cs" "remaining s' = total cs" "list_head s' = list_head s"
  shows "heap_inv U s'"
proof -
  note i = heap_inv_D [OF inv]
  have l: "live s' p = Some d \<Longrightarrow> chunk_ok d \<and> region d \<subseteq> U \<and> region d \<inter> covers cs = {} \<and> fst d + 24 \<le> p \<and> p \<le> fst d + snd d" for p d
    using i(3) i(6) [of p d] c cs(3) by (auto simp: s'(1) split: if_splits)
  have o: "region d \<inter> region c = {}" "region c \<inter> region d = {}" if "live s p = Some d" for p d using i(6) [OF that] c(2) by auto
  have p: "live s' p = Some d \<Longrightarrow> live s' q = Some e \<Longrightarrow> p \<noteq> q \<Longrightarrow> region d \<inter> region e = {}" for p q d e
    using i(7) [of p d q e] o [of p d] o [of q e] unfolding s'(1) by (auto split: if_splits)
  have "covers cs \<subseteq> U" using i(3) cs(3) by auto
  then show ?thesis using cs(1,2) i(5) l p unfolding heap_inv_def s'(2-4) by blast
qed

lemma alloc_once_ok:
  assumes inv: "heap_inv U s" and n: "n + al + 128 < 2 ^ 64" "al mod 8 = 0" and sz: "sz = alloc_size n al"
  shows "\<exists>ptr s'. alloc_once sz al s = Some (ptr, s') \<and>
    (if ptr = 0 then s' = s \<and> (\<forall>c\<in>set (chunks s). snd c < sz) else heap_inv U s' \<and> allocated n al s ptr s')"
proof -
  note i = heap_inv_D [OF inv]
  have a: "sz mod 8 = 0" "n + 24 + al \<le> sz" "sz + 24 < 2 ^ 64" using alloc_size_ok [of n al] n by (simp_all add: sz)
  consider (fits) B c A where "first_fit sz (chunks s) = Some (Some (B, c, A))" "chunks s = B @ c # A" "sz \<le> snd c"
    | (none) "first_fit sz (chunks s) = Some None" "\<forall>c\<in>set (chunks s). snd c < sz"
    using first_fit_split [OF i(2), of sz] by blast
  then show ?thesis
  proof cases
    case fits
    obtain b l where c: "c = (b, l)" by (cases c)
    have cs: "chunks s = B @ (b, l) # A" and l: "sz \<le> l" using fits c by simp_all
    obtain l' N where run: "take_chunk sz al (B, (b, l), A) s = Some (place b al, s\<lparr>chunks := B @ N @ A, live := (live s)(place b al \<mapsto> (b, l')),
        remaining := total (B @ N @ A), low_watermark := (if total (B @ N @ A) < low_watermark s then total (B @ N @ A) else low_watermark s)\<rparr>)"
      and l': "sz \<le> l'" "l' \<le> l" "l' mod 8 = 0" and N: "N = (if l' = l then [] else [(b + l', l - l')])" "\<forall>d\<in>set N. chunk_ok d"
      by (rule take_chunk_run [OF inv cs l a(1) _ a(3), of al]) (use a(2) in auto)
    let ?s = "s\<lparr>chunks := B @ N @ A, live := (live s)(place b al \<mapsto> (b, l')), remaining := total (B @ N @ A),
      low_watermark := (if total (B @ N @ A) < low_watermark s then total (B @ N @ A) else low_watermark s)\<rparr>"
    have bl: "chunk_ok (b, l)" using i(2) by (simp add: cs)
    then have ok: "chunk_ok (b, l')" using l' a(2) by (simp add: chunk_ok_def)
    have p: "b + 24 \<le> place b al" "place b al + n \<le> b + sz" "0 < al \<Longrightarrow> place b al mod al = 0"
      by (rule place_ok [OF ok l'(1) a(2)])+
    have pos: "0 < l'" using ok by (simp add: chunk_ok_def)
    note sp = coalesced_split [OF i(1) [unfolded cs] pos l'(2) N(1), folded cs]
    have q: "place b al \<le> b + l'" using p(2) l'(1) by linarith
    have "heap_inv U ?s"
      by (rule heap_inv_take [OF inv ok sp(3), of "place b al" "B @ N @ A"]) (use p(1) q sp(1,2) i(2) N(2) in \<open>auto simp: cs\<close>)
    moreover have "allocated n al s (place b al) ?s" unfolding allocated_def
      using ok p q l' a(2) sp(2,3) new_pointer [OF inv sp(3) pos p(1) q] by (intro exI [of _ "(b, l')"]) auto
    moreover have "place b al \<noteq> 0" using p(1) by linarith
    ultimately show ?thesis using fits(1) run by (simp add: alloc_once_def c)
  next
    case none
    then show ?thesis by (simp add: alloc_once_def)
  qed
qed


section \<open>The contract with the page allocator\<close>

text \<open>
  \<open>owned p\<close> are the addresses of the pages that are handed out, and \<open>head p\<close> the address of the static list head, below which lies no such page. Requests
  are for less than $2^{32}$ pages, the range of the \<^verbatim>\<open>uint\<close> that the allocator counts them with.
\<close>

locale page_provider =
  fixes ok :: "'p \<Rightarrow> bool" and owned :: "'p \<Rightarrow> nat set" and head :: "'p \<Rightarrow> nat" and page_alloc :: "'p page_alloc" and page_free :: "'p page_free"
  assumes alloc_law: "ok p \<Longrightarrow> n < 2 ^ 32 \<Longrightarrow> page_alloc n p = (q, p') \<Longrightarrow> ok p' \<and> head p' = head p \<and>
      (if q = 0 then owned p' = owned p
       else q mod 4096 = 0 \<and> {q..<q + n * 4096} \<inter> owned p = {} \<and> owned p' = owned p \<union> {q..<q + n * 4096})"
    and free_law: "ok p \<Longrightarrow> q mod 4096 = 0 \<Longrightarrow> {q..<q + n * 4096} \<subseteq> owned p \<Longrightarrow>
      \<exists>p'. page_free q n p = Some p' \<and> ok p' \<and> head p' = head p \<and> owned p' = owned p - {q..<q + n * 4096}"
    and owned_law: "ok p \<Longrightarrow> owned p \<subseteq> {1..<2 ^ 64 - 4096} \<and> head p - 1 \<notin> owned p"

definition heap_ok :: "('p \<Rightarrow> bool) \<Rightarrow> ('p \<Rightarrow> nat set) \<Rightarrow> ('p \<Rightarrow> nat) \<Rightarrow> 'p heap \<Rightarrow> bool" where
  "heap_ok ok owned head s \<longleftrightarrow> ok (pages s) \<and> list_head s = head (pages s) \<and> heap_inv (owned (pages s)) s"

text \<open>A block that was got: no block that is in use starts there, and it is big enough and aligned.\<close>

definition got_block :: "nat \<Rightarrow> nat \<Rightarrow> 'p heap \<Rightarrow> nat \<Rightarrow> 'p heap \<Rightarrow> bool" where
  "got_block n al s ptr s' \<longleftrightarrow> (\<exists>c. live s' = (live s)(ptr \<mapsto> c) \<and> live s ptr = None \<and> chunk_ok c \<and> fst c + 24 \<le> ptr \<and> ptr + n \<le> fst c + snd c \<and>
     (0 < al \<longrightarrow> ptr mod al = 0) \<and> n + 24 + al \<le> snd c \<and> contents s' = contents s \<and> delayed s' = delayed s)"

lemma end_not_covered: "coalesced cs \<Longrightarrow> c \<in> set cs \<Longrightarrow> fst c + snd c \<notin> covers cs"
proof (induction cs)
  case (Cons d cs)
  show ?case
  proof (cases "c = d")
    case True
    then show ?thesis using coalesced_end [OF Cons.prems(1)] by simp
  next
    case False
    then have "c \<in> set cs" "fst d + snd d < fst c" using Cons.prems by (auto simp: coalesced_Cons)
    then show ?thesis using Cons by (auto simp: coalesced_Cons region_def)
  qed
qed simp

lemma interval_in_chunk:
  assumes "coalesced cs" "{a..<a + m} \<subseteq> covers cs" "0 < m"
  shows "\<exists>c\<in>set cs. {a..<a + m} \<subseteq> region c"
proof -
  have "a \<in> covers cs" using assms(2,3) by auto
  then obtain c where c: "c \<in> set cs" "fst c \<le> a" "a < fst c + snd c" by (auto dest: covers_bounds)
  have "fst c + snd c \<notin> {a..<a + m}" using end_not_covered [OF assms(1) c(1)] assms(2) by blast
  then have "\<not> fst c + snd c < a + m" using c(3) by simp
  then show ?thesis using c by (intro bexI [of _ c]) (auto simp: region_def)
qed

text \<open>Free memory that is added, and the rest as it was.\<close>

lemma heap_inv_add:
  assumes inv: "heap_inv U s" and c: "chunk_ok c" "region c \<inter> covers (chunks s) = {}" "\<forall>p d. live s p = Some d \<longrightarrow> region c \<inter> region d = {}"
    and U: "U \<subseteq> V" "region c \<subseteq> V" "list_head s - 1 \<notin> V"
  shows "\<exists>s'. heap_insert_free_chunk c s = Some s' \<and> heap_inv V s' \<and> covers (chunks s') = covers (chunks s) \<union> region c \<and> live s' = live s \<and>
    contents s' = contents s \<and> pages s' = pages s \<and> list_head s' = list_head s \<and> delayed s' = delayed s \<and> h_base s' = h_base s \<and> h_len s' = h_len s"
proof -
  note i = heap_inv_D [OF inv]
  have "list_head s - 1 \<notin> region c" using U(2,3) by auto
  from insert_free_chunk [OF i(1,2) c(1,2) this i(4)] obtain cs' where
    cs': "heap_insert_free_chunk c s = Some (s\<lparr>chunks := cs', remaining := total cs'\<rparr>)" "coalesced cs'" "\<forall>d\<in>set cs'. chunk_ok d"
      "covers cs' = covers (chunks s) \<union> region c" by blast
  have l: "chunk_ok d \<and> region d \<subseteq> V \<and> region d \<inter> covers cs' = {} \<and> fst d + 24 \<le> p \<and> p \<le> fst d + snd d" if "live s p = Some d" for p d
    using i(6) [OF that] c(3) U(1) that cs'(4) by blast
  have "covers cs' \<subseteq> V" using i(3) U cs'(4) by blast
  then have "heap_inv V (s\<lparr>chunks := cs', remaining := total cs'\<rparr>)"
    using cs'(2,3) U(3) l i(7) unfolding heap_inv_def by simp blast
  then show ?thesis using cs'(1,4) by simp
qed

lemma heap_inv_frame:
  "heap_inv U s \<Longrightarrow> chunks s' = chunks s \<Longrightarrow> live s' = live s \<Longrightarrow> remaining s' = remaining s \<Longrightarrow> list_head s' = list_head s \<Longrightarrow> heap_inv U s'"
  unfolding heap_inv_def by simp


lemma allocated_got:
  assumes "allocated n (alloc_alignment al) s1 ptr s'" "live s1 = live s" "contents s1 = contents s" "delayed s1 = delayed s" "al AND (al - 1) = 0"
  shows "got_block n al s ptr s'"
proof -
  have "ptr mod al = 0" if "0 < al" "0 < alloc_alignment al \<longrightarrow> ptr mod alloc_alignment al = 0"
  proof (cases "al < 16")
    case True
    note pos = that(1)
    obtain k where k: "al = 2 ^ k" using power_of_two [OF assms(5) pos] by blast
    have "k \<le> 4" using True k power_strict_increasing_iff [of "2 :: nat" k 4] by simp
    then have "al dvd 2 ^ 4" unfolding k by (rule le_imp_power_dvd)
    moreover have "16 dvd ptr" using that True by (auto simp: alloc_alignment_def)
    ultimately show ?thesis using dvd_trans [of al 16 ptr] by simp
  qed (use that in \<open>simp add: alloc_alignment_def\<close>)
  moreover have "al \<le> alloc_alignment al" by (simp add: alloc_alignment_def)
  ultimately show ?thesis using assms(1-4) unfolding allocated_def got_block_def by fastforce
qed

lemma mod_8: "a mod 4096 = 0 \<Longrightarrow> a mod 8 = 0" for a :: nat
  using dvd_trans [of 8 4096 a] by (simp add: mod_eq_0_iff_dvd)

context page_provider
begin

abbreviation (input) hok :: "'p heap \<Rightarrow> bool" where
  "hok \<equiv> heap_ok ok owned head"

lemma hok_D: "hok s \<Longrightarrow> ok (pages s)" "hok s \<Longrightarrow> list_head s = head (pages s)" "hok s \<Longrightarrow> heap_inv (owned (pages s)) s"
  by (simp_all add: heap_ok_def)

lemma heap_grow_ok:
  assumes h: "hok s" and sz: "24 \<le> sz" "sz + 4096 < 2 ^ 44"
  shows "\<exists>s' r. heap_grow page_alloc sz s = Some (s', r) \<and> hok s' \<and> live s' = live s \<and> contents s' = contents s \<and> delayed s' = delayed s \<and>
    (if r < 0 then chunks s' = chunks s \<and> fst (page_alloc (ROUNDUP sz 4096 div 4096) (pages s)) = 0 else \<exists>c\<in>set (chunks s'). sz \<le> snd c)"
proof -
  define m where "m = ROUNDUP sz 4096"
  have m: "sz \<le> m" "m < sz + 4096" "m mod 4096 = 0" using ROUNDUP_less [of 4096 sz] by (simp_all add: m_def ROUNDUP_ge ROUNDUP_aligned)
  have m64: "ROUNDUP64 sz 4096 = m" using sz(2) by (simp add: m_def ROUNDUP64_eq)
  have n: "m div 4096 < 2 ^ 32" "m div 4096 * 4096 = m" using m sz(2) by auto
  obtain q p where q: "page_alloc (m div 4096) (pages s) = (q, p)" by fastforce
  note law = alloc_law [OF hok_D(1) [OF h] n(1) q, unfolded n(2)]
  note i = heap_inv_D [OF hok_D(3) [OF h]]
  show ?thesis
  proof (cases "q = 0")
    case True
    have "hok (s\<lparr>pages := p\<rparr>)" using law True h by (auto simp: heap_ok_def intro: heap_inv_frame)
    then show ?thesis using True q by (auto simp: heap_grow_def m64 Let_def m_def [symmetric])
  next
    case False
    let ?c = "(q, m)"
    have r: "region ?c = {q..<q + m}" by (simp add: region_def)
    have own: "owned p = owned (pages s) \<union> region ?c" "region ?c \<inter> owned (pages s) = {}" "q mod 4096 = 0" "ok p" "head p = head (pages s)"
      using law False by (simp_all add: r)
    have "q + m - 1 \<in> owned p" using own(1) m(1) sz(1) by (auto simp: region_def)
    then have "q + m < 2 ^ 64" using owned_law [OF own(4)] m(1) sz(1) by fastforce
    moreover have "q mod 8 = 0" "m mod 8 = 0" using mod_8 [of q] mod_8 [of m] own(3) m(3) by simp_all
    ultimately have c: "chunk_ok ?c" using False m(1) sz(1) by (simp add: chunk_ok_def)
    have inv: "heap_inv (owned (pages s)) (s\<lparr>pages := p\<rparr>)" using hok_D(3) [OF h] by (rule heap_inv_frame) simp_all
    have l: "\<forall>p' d. live (s\<lparr>pages := p\<rparr>) p' = Some d \<longrightarrow> region ?c \<inter> region d = {}" using i(6) own(2) by fastforce
    have ch: "region ?c \<inter> covers (chunks (s\<lparr>pages := p\<rparr>)) = {}" using i(3) own(2) by auto
    have hd: "list_head (s\<lparr>pages := p\<rparr>) - 1 \<notin> owned p" using owned_law [OF own(4)] own(5) hok_D(2) [OF h] by simp
    obtain s1 where s1: "heap_insert_free_chunk ?c (s\<lparr>pages := p\<rparr>) = Some s1" "heap_inv (owned p) s1" "covers (chunks s1) = covers (chunks s) \<union> region ?c"
      "live s1 = live s" "contents s1 = contents s" "pages s1 = p" "list_head s1 = list_head s" "delayed s1 = delayed s"
      using heap_inv_add [OF inv c ch l _ _ hd] own(1) by auto
    have "{q..<q + m} \<subseteq> covers (chunks s1)" using s1(3) r by blast
    then obtain d where d: "d \<in> set (chunks s1)" "{q..<q + m} \<subseteq> region d"
      using interval_in_chunk [OF heap_inv_D(1) [OF s1(2)], of q m] m(1) sz(1) by auto
    have "m \<le> snd d" using card_mono [OF _ d(2)] by (simp add: region_def)
    then have big: "\<exists>c\<in>set (chunks s1). sz \<le> snd c" using d(1) m(1) by (meson le_trans)
    have "4096 \<le> m" using m(1,3) sz(1) by (intro dvd_imp_le) (simp_all add: mod_eq_0_iff_dvd)
    then have cr: "heap_create_free_chunk q m = Some ?c" using c by (auto simp: heap_create_free_chunk_def chunk_ok_def)
    define b where "b = (if q < h_base s1 \<or> h_base s1 = 0 then q else h_base s1)"
    define l where "l = (if (q + m) mod 2 ^ 64 > (b + h_len s1) mod 2 ^ 64 then ((q + m) mod 2 ^ 64 + 2 ^ 64 - b) mod 2 ^ 64 else h_len s1)"
    have "heap_grow page_alloc sz s = Some (s1\<lparr>h_base := b, h_len := l\<rparr>, int m)"
      using False q s1(1) cr m(2) sz(2) by (simp add: heap_grow_def m64 Let_def b_def l_def)
    moreover have "hok (s1\<lparr>h_base := b, h_len := l\<rparr>)"
      using s1(2,6,7) own(4,5) hok_D(2) [OF h] by (auto simp: heap_ok_def intro: heap_inv_frame)
    ultimately show ?thesis using s1(4,5,8) big by simp
  qed
qed

lemma miniheap_alloc_ok:
  assumes h: "hok s" and n: "n + al + 8192 < 2 ^ 44"
  shows "\<exists>ptr s'. miniheap_alloc page_alloc n al s = Some (ptr, s') \<and> hok s' \<and>
    (if ptr = 0 then live s' = live s \<and> chunks s' = chunks s \<and> contents s' = contents s \<and> delayed s' = delayed s \<and>
       (al AND (al - 1) \<noteq> 0 \<or> (\<forall>c\<in>set (chunks s). snd c < alloc_size n (alloc_alignment al)) \<and>
         fst (page_alloc (ROUNDUP (alloc_size n (alloc_alignment al)) 4096 div 4096) (pages s)) = 0)
     else got_block n al s ptr s')"
proof (cases "al AND (al - 1) = 0")
  case False
  then show ?thesis using h by (simp add: miniheap_alloc_def)
next
  case True
  define al' where "al' = alloc_alignment al"
  define sz where "sz = alloc_size n al'"
  have al: "al' mod 8 = 0" "al' \<le> al + 16" using align_ok [OF True] by (simp_all add: al'_def alloc_alignment_def)
  have b: "24 \<le> sz" "sz + 4096 < 2 ^ 44" using alloc_size_ok [of n al'] al n by (simp_all add: sz_def)
  have n': "n + al' + 128 < 2 ^ 64" using n al(2) by simp
  have run: "miniheap_alloc page_alloc n al s = (case alloc_once sz al' s of None \<Rightarrow> None
      | Some (ptr, s) \<Rightarrow> if ptr \<noteq> 0 then Some (ptr, s)
          else (case heap_grow page_alloc sz s of None \<Rightarrow> None
            | Some (s, err) \<Rightarrow> if err \<ge> 0 then alloc_once sz al' s else Some (0, s)))"
    using True unfolding miniheap_alloc_def Let_def sz_def al'_def by simp
  obtain ptr s1 where a: "alloc_once sz al' s = Some (ptr, s1)"
    "if ptr = 0 then s1 = s \<and> (\<forall>c\<in>set (chunks s). snd c < sz) else heap_inv (owned (pages s)) s1 \<and> allocated n al' s ptr s1"
    using alloc_once_ok [OF hok_D(3) [OF h] n' al(1) sz_def] by blast
  show ?thesis
  proof (cases "ptr = 0")
    case False
    then have "hok s1" using a(2) h by (auto simp: heap_ok_def allocated_def)
    moreover have "got_block n al s ptr s1" using False a(2) True by (intro allocated_got [of n al s]) (simp_all add: al'_def)
    ultimately show ?thesis using False a(1) run by simp
  next
    case z: True
    obtain s2 r where g: "heap_grow page_alloc sz s = Some (s2, r)" "hok s2" "live s2 = live s" "contents s2 = contents s" "delayed s2 = delayed s"
      "if r < 0 then chunks s2 = chunks s \<and> fst (page_alloc (ROUNDUP sz 4096 div 4096) (pages s)) = 0 else \<exists>c\<in>set (chunks s2). sz \<le> snd c"
      using heap_grow_ok [OF h b] by blast
    show ?thesis
    proof (cases "r < 0")
      case True
      then show ?thesis using z a g run by (simp add: sz_def al'_def)
    next
      case False
      obtain ptr2 s3 where c: "alloc_once sz al' s2 = Some (ptr2, s3)"
        "if ptr2 = 0 then s3 = s2 \<and> (\<forall>c\<in>set (chunks s2). snd c < sz) else heap_inv (owned (pages s2)) s3 \<and> allocated n al' s2 ptr2 s3"
        using alloc_once_ok [OF hok_D(3) [OF g(2)] n' al(1) sz_def] by blast
      have p: "ptr2 \<noteq> 0" using c(2) g(6) False by (auto split: if_splits)
      then have "hok s3" using c(2) g(2) by (auto simp: heap_ok_def allocated_def)
      moreover have "got_block n al s ptr2 s3"
        using p c(2) True g(3-5) by (intro allocated_got [of n al s2]) (simp_all add: al'_def)
      ultimately show ?thesis using z a(1,2) g(1) c(1) p False run by simp
    qed
  qed
qed

lemma miniheap_free_ok:
  assumes h: "hok s" and l: "live s ptr = Some c" "snd c \<noteq> 24"
  shows "\<exists>s'. miniheap_free ptr s = Some s' \<and> hok s' \<and> live s' = (live s)(ptr := None) \<and> covers (chunks s') = covers (chunks s) \<union> region c \<and>
    contents s' = contents s \<and> delayed s' = delayed s \<and> pages s' = pages s"
proof -
  obtain a n where c: "c = (a, n)" by (cases c)
  note i = heap_inv_D [OF hok_D(3) [OF h]]
  note lc = i(6) [OF l(1)]
  have cr: "heap_create_free_chunk a n = Some c" using lc l(2) by (auto simp: heap_create_free_chunk_def chunk_ok_def c)
  let ?s = "s\<lparr>live := (live s)(ptr := None)\<rparr>"
  have p: "region c \<inter> region d = {}" if "live ?s q = Some d" for q d
    using that i(7) [OF l(1), of q d] by (auto split: if_splits)
  have "heap_inv (owned (pages s)) ?s" using hok_D(3) [OF h] unfolding heap_inv_def by simp
  from heap_inv_add [OF this _ _ _ subset_refl _ _, of c] obtain s' where
    "heap_insert_free_chunk c ?s = Some s'" "heap_inv (owned (pages s)) s'" "covers (chunks s') = covers (chunks s) \<union> region c" "live s' = live ?s"
    "contents s' = contents s" "pages s' = pages s" "list_head s' = list_head s" "delayed s' = delayed s"
    using lc p i(5) by auto
  moreover have "ptr \<noteq> 0" using lc by auto
  ultimately show ?thesis using l(1) cr h by (simp add: miniheap_free_def c heap_ok_def)
qed

end

section \<open>Trimming\<close>

lemma trim_bounds_ok:
  assumes "trim_bounds start fin sp ep = Some (sp', ep')" "sp mod 4096 = 0" "ep mod 4096 = 0" "start \<le> sp" "ep \<le> fin"
  shows "sp' < ep' \<and> sp' mod 4096 = 0 \<and> ep' mod 4096 = 0 \<and> start \<le> sp' \<and> ep' \<le> fin \<and> (sp' \<noteq> start \<longrightarrow> 24 \<le> sp' - start) \<and>
    (ep' \<noteq> fin \<longrightarrow> 24 \<le> fin - ep') \<and> (fin - ep' = 24 \<longrightarrow> fin mod 4096 = 24)"
  using assms
proof (induction start fin sp ep rule: trim_bounds.induct)
  case (1 start fin sp ep)
  have e: "ep > sp" using "1.prems"(1) by (subst (asm) trim_bounds.simps) (auto split: if_splits)
  consider "sp \<noteq> start \<and> sp - start < 24" | "\<not> (sp \<noteq> start \<and> sp - start < 24)" "ep < fin \<and> fin - ep < 24"
    | "\<not> (sp \<noteq> start \<and> sp - start < 24)" "\<not> (ep < fin \<and> fin - ep < 24)" by blast
  then show ?case
  proof cases
    case 1
    then show ?thesis using "1.IH"(1) "1.prems" e by (subst (asm) (2) trim_bounds.simps) (auto simp: mod_add_eq [symmetric])
  next
    case 2
    have "(ep - 4096) mod 4096 = 0" using "1.prems"(3) by (simp add: mod_eq_0_iff_dvd dvd_diff_nat)
    then show ?thesis using 2 "1.IH"(2) "1.prems" e by (subst (asm) (2) trim_bounds.simps) auto
  next
    case 3
    then have s: "sp' = sp" "ep' = ep" using "1.prems"(1) e by (subst (asm) trim_bounds.simps; auto)+
    have "fin mod 4096 = 24" if "fin - ep = 24"
    proof -
      have "fin = ep + 24" using that "1.prems"(5) by linarith
      then show ?thesis using "1.prems"(3) by (simp add: mod_add_eq [symmetric])
    qed
    then show ?thesis using 3 e "1.prems" unfolding s by auto
  qed
qed

text \<open>The pieces that stay of a chunk.\<close>

lemma pieces:
  assumes c: "chunk_ok (a, l)" and b: "a \<le> sp" "sp < ep" "ep \<le> a + l" "sp mod 4096 = 0" "ep mod 4096 = 0" "sp \<noteq> a \<longrightarrow> 24 \<le> sp - a"
    "ep \<noteq> a + l \<longrightarrow> 24 < a + l - ep"
  defines "ds \<equiv> (if sp = a then [] else [(a, sp - a)]) @ (if ep < a + l then [(ep, a + l - ep)] else [])"
  shows "coalesced ds" "\<forall>d\<in>set ds. chunk_ok d \<and> a \<le> fst d \<and> fst d + snd d \<le> a + l" "covers ds = region (a, l) - {sp..<ep}"
    "total ds = l - (ep - sp)"
proof -
  have m: "(sp - a) mod 8 = 0" "(a + l - ep) mod 8 = 0"
    using c mod_8 [OF b(4)] mod_8 [OF b(5)] by (simp_all add: chunk_ok_def mod_eq_0_iff_dvd dvd_diff_nat)
  show "coalesced ds" using b by (auto simp: ds_def coalesced_Cons)
  show "\<forall>d\<in>set ds. chunk_ok d \<and> a \<le> fst d \<and> fst d + snd d \<le> a + l"
    using c b m mod_8 [OF b(5)] by (auto simp: ds_def chunk_ok_def)
  show "covers ds = region (a, l) - {sp..<ep}" using b by (auto simp: ds_def region_def)
  show "total ds = l - (ep - sp)" using b by (auto simp: ds_def)
qed

context page_provider
begin

lemma trim_chunk_ok:
  assumes h: "ok (pages s)" "region c \<subseteq> owned (pages s)" and c: "chunk_ok c" "(fst c + snd c) mod 4096 \<noteq> 24"
    and r: "snd c \<le> remaining s" "remaining s < 2 ^ 64"
  shows "\<exists>ds p. trim_chunk page_free c s = Some (ds, s\<lparr>pages := p, remaining := remaining s - (snd c - total ds)\<rparr>) \<and> ok p \<and> head p = head (pages s) \<and>
    coalesced ds \<and> (\<forall>d\<in>set ds. chunk_ok d \<and> fst c \<le> fst d \<and> fst d + snd d \<le> fst c + snd c) \<and> covers ds \<subseteq> region c \<and>
    owned p = owned (pages s) - (region c - covers ds) \<and> total ds \<le> snd c"
proof -
  obtain a l where cl: "c = (a, l)" by (cases c)
  note ok = c(1) [unfolded cl]
  have al: "0 < l" "a + l < 2 ^ 64" using ok by (simp_all add: chunk_ok_def)
  have "a + l - 1 \<in> owned (pages s)" using h(2) al by (auto simp: cl region_def)
  then have w: "a + l \<le> 2 ^ 64 - 4096" using owned_law [OF h(1)] al by fastforce
  have fin: "chunk_end (a, l) = a + l" using ok by (simp add: chunk_end_ok)
  have sp: "ROUNDUP64 a 4096 = ROUNDUP a 4096" using w by (intro ROUNDUP64_eq) simp
  have up: "a \<le> ROUNDUP a 4096" "ROUNDUP a 4096 mod 4096 = 0" by (simp_all add: ROUNDUP_ge ROUNDUP_aligned)
  have dn: "(a + l) div 4096 * 4096 \<le> a + l" "(a + l) div 4096 * 4096 mod 4096 = 0" by simp_all
  have run: "trim_chunk page_free c s = (case trim_bounds a (a + l) (ROUNDUP a 4096) ((a + l) div 4096 * 4096) of None \<Rightarrow> Some ([c], s)
      | Some (sp, ep) \<Rightarrow> (case (if ep < a + l then map_option (\<lambda>n. [n]) (heap_create_free_chunk ep (a + l - ep)) else Some []) of None \<Rightarrow> None
          | Some N \<Rightarrow> map_option (\<lambda>p. ((if sp = a then [] else [(a, sp - a)]) @ N,
              s\<lparr>pages := p, remaining := (remaining s + 2 ^ 64 - (ep - sp)) mod 2 ^ 64\<rparr>)) (page_free sp ((ep - sp) div 4096) (pages s))))"
    using al(1) up dn unfolding trim_chunk_def cl fst_conv snd_conv fin sp Let_def by simp
  show ?thesis
  proof (cases "trim_bounds a (a + l) (ROUNDUP a 4096) ((a + l) div 4096 * 4096)")
    case None
    then show ?thesis using run h c(1) al
      by (intro exI [of _ "[c]"] exI [of _ "pages s"]) (simp add: cl coalesced_Cons)
  next
    case (Some b)
    obtain sp ep where b: "b = (sp, ep)" by (cases b)
    note t = trim_bounds_ok [OF Some [unfolded b] up(2) dn(2) up(1) dn(1)]
    have ep24: "a + l - ep \<noteq> 24" using t c(2) by (auto simp: cl)
    then have big: "ep \<noteq> a + l \<longrightarrow> 24 < a + l - ep" using t by auto
    let ?N = "if ep < a + l then [(ep, a + l - ep)] else []"
    let ?ds = "(if sp = a then [] else [(a, sp - a)]) @ ?N"
    have pb: "a \<le> sp" "sp < ep" "ep \<le> a + l" "sp mod 4096 = 0" "ep mod 4096 = 0" "sp \<noteq> a \<longrightarrow> 24 \<le> sp - a" using t by auto
    note ps = pieces [OF ok pb big]
    have m8: "(a + l - ep) mod 8 = 0" using ok mod_8 [OF pb(5)] by (simp add: chunk_ok_def mod_eq_0_iff_dvd dvd_diff_nat)
    then have cr: "(if ep < a + l then map_option (\<lambda>n. [n]) (heap_create_free_chunk ep (a + l - ep)) else Some []) = Some ?N"
      using big pb(3) by (simp add: heap_create_free_chunk_def)
    have n: "(ep - sp) div 4096 * 4096 = ep - sp" "sp + (ep - sp) = ep" using pb(2,4,5) by (simp_all add: mod_eq_0_iff_dvd dvd_diff_nat)
    have sub: "{sp..<ep} \<subseteq> region c" using pb(1,3) by (auto simp: cl region_def)
    then have "{sp..<ep} \<subseteq> owned (pages s)" using h(2) by (rule subset_trans)
    then obtain p where fr: "page_free sp ((ep - sp) div 4096) (pages s) = Some p" "ok p" "head p = head (pages s)" "owned p = owned (pages s) - {sp..<ep}"
      using free_law [OF h(1) pb(4), of "(ep - sp) div 4096"] unfolding n by blast
    have rm: "(remaining s + 2 ^ 64 - (ep - sp)) mod 2 ^ 64 = remaining s - (l - total ?ds)"
    proof -
      have x: "ep - sp \<le> l" "l \<le> remaining s" using pb r(1) by (simp_all add: cl)
      then have "l - total ?ds = ep - sp" unfolding ps(4) by simp
      moreover have "remaining s + 2 ^ 64 - (ep - sp) = (remaining s - (ep - sp)) + 2 ^ 64" using x by linarith
      moreover have "(remaining s - (ep - sp) + 2 ^ 64) mod 2 ^ 64 = remaining s - (ep - sp)" using r(2) by simp
      ultimately show ?thesis by (simp only:)
    qed
    have tot: "total ?ds \<le> l" using ps(4) by simp
    have "region c - (region c - {sp..<ep}) = {sp..<ep}" using sub by blast
    then have own: "owned p = owned (pages s) - (region c - covers ?ds)" unfolding ps(3) fr(4) cl by simp
    have res: "trim_chunk page_free c s = Some (?ds, s\<lparr>pages := p, remaining := remaining s - (snd c - total ?ds)\<rparr>)"
      unfolding run Some b by (simp only: option.case prod.case cr rm cl snd_conv fr(1) option.map)
    show ?thesis using res fr(2,3) ps(1,2) tot own
      by (intro exI [of _ ?ds] exI [of _ p] conjI) (simp_all only: cl fst_conv snd_conv ps(3) Diff_subset)
  qed
qed

end


context page_provider
begin

lemma trim_loop_ok:
  assumes "ok (pages s)" "covers cs \<subseteq> owned (pages s)" "coalesced cs" "\<forall>c\<in>set cs. chunk_ok c \<and> (fst c + snd c) mod 4096 \<noteq> 24"
    "total cs \<le> remaining s" "remaining s < 2 ^ 64"
  shows "\<exists>ds p. trim_loop page_free cs s = Some (ds, s\<lparr>pages := p, remaining := remaining s - (total cs - total ds)\<rparr>) \<and> ok p \<and>
    head p = head (pages s) \<and> coalesced ds \<and> (\<forall>d\<in>set ds. chunk_ok d \<and> (\<exists>c\<in>set cs. fst c \<le> fst d \<and> fst d + snd d \<le> fst c + snd c)) \<and>
    covers ds \<subseteq> covers cs \<and> owned p = owned (pages s) - (covers cs - covers ds) \<and> total ds \<le> total cs"
  using assms
proof (induction cs arbitrary: s)
  case Nil
  then show ?case by (intro exI [of _ "[]"] exI [of _ "pages s"]) simp
next
  case (Cons c cs)
  have cc: "coalesced cs" "\<forall>d\<in>set cs. fst c + snd c < fst d" using Cons.prems(3) by (simp_all add: coalesced_Cons)
  obtain ds p where d: "trim_chunk page_free c s = Some (ds, s\<lparr>pages := p, remaining := remaining s - (snd c - total ds)\<rparr>)" "ok p"
    "head p = head (pages s)" "coalesced ds" "\<forall>d\<in>set ds. chunk_ok d \<and> fst c \<le> fst d \<and> fst d + snd d \<le> fst c + snd c" "covers ds \<subseteq> region c"
    "owned p = owned (pages s) - (region c - covers ds)" "total ds \<le> snd c"
  proof -
    have "region c \<subseteq> owned (pages s)" "chunk_ok c" "(fst c + snd c) mod 4096 \<noteq> 24" "snd c \<le> remaining s" using Cons.prems by simp_all
    from trim_chunk_ok [OF Cons.prems(1) this Cons.prems(6)] that show ?thesis by blast
  qed
  let ?s = "s\<lparr>pages := p, remaining := remaining s - (snd c - total ds)\<rparr>"
  have dis: "region c \<inter> covers cs = {}" using coalesced_rest [OF Cons.prems(3)] by auto
  have "\<exists>es p'. trim_loop page_free cs ?s = Some (es, ?s\<lparr>pages := p', remaining := remaining ?s - (total cs - total es)\<rparr>) \<and> ok p' \<and>
    head p' = head (pages ?s) \<and> coalesced es \<and> (\<forall>d\<in>set es. chunk_ok d \<and> (\<exists>c\<in>set cs. fst c \<le> fst d \<and> fst d + snd d \<le> fst c + snd c)) \<and>
    covers es \<subseteq> covers cs \<and> owned p' = owned (pages ?s) - (covers cs - covers es) \<and> total es \<le> total cs"
  proof (rule Cons.IH)
    show "covers cs \<subseteq> owned (pages ?s)" using Cons.prems(2) d(7) dis by auto
    show "total cs \<le> remaining ?s" "remaining ?s < 2 ^ 64" using Cons.prems(5,6) by simp_all
  qed (use Cons.prems(4) cc(1) d(2) in simp_all)
  then obtain es p' where e': "trim_loop page_free cs ?s = Some (es, ?s\<lparr>pages := p', remaining := remaining ?s - (total cs - total es)\<rparr>)" "ok p'"
    "head p' = head (pages ?s)" "coalesced es" "\<forall>d\<in>set es. chunk_ok d \<and> (\<exists>c\<in>set cs. fst c \<le> fst d \<and> fst d + snd d \<le> fst c + snd c)"
    "covers es \<subseteq> covers cs" "owned p' = owned (pages ?s) - (covers cs - covers es)" "total es \<le> total cs" by blast
  have "pages ?s = p" by simp
  note e = e' [unfolded this]
  have "fst d + snd d < fst e'" if "d \<in> set ds" "e' \<in> set es" for d e' using that d(5) e(5) cc(2) by fastforce
  then have "coalesced (ds @ es)" using d(4) e(4) by (simp add: coalesced_append)
  moreover have "owned p' = owned (pages s) - (covers (c # cs) - covers (ds @ es))" using d(6,7) e(6,7) dis by auto
  moreover have "remaining s - (snd c - total ds) - (total cs - total es) = remaining s - (total (c # cs) - total (ds @ es))"
    using d(8) e(8) by simp
  moreover have "covers (ds @ es) \<subseteq> covers (c # cs)" "total (ds @ es) \<le> total (c # cs)" using d(6,8) e(6,8) by auto
  moreover have "\<forall>d\<in>set (ds @ es). chunk_ok d \<and> (\<exists>c'\<in>set (c # cs). fst c' \<le> fst d \<and> fst d + snd d \<le> fst c' + snd c')"
    using d(5) e(5) by auto
  ultimately show ?case using d(1,3) e(1-3) by (intro exI [of _ "ds @ es"] exI [of _ p']) (simp add: add.commute)
qed

text \<open>Trimming gives pages of free chunks back and touches nothing else.\<close>

lemma miniheap_trim_ok:
  assumes h: "hok s" and e: "\<forall>c\<in>set (chunks s). (fst c + snd c) mod 4096 \<noteq> 24"
  shows "\<exists>s'. miniheap_trim page_free s = Some s' \<and> hok s' \<and> live s' = live s \<and> contents s' = contents s \<and> delayed s' = delayed s \<and>
    covers (chunks s') \<subseteq> covers (chunks s) \<and> owned (pages s') = owned (pages s) - (covers (chunks s) - covers (chunks s'))"
proof -
  note i = heap_inv_D [OF hok_D(3) [OF h]]
  obtain ds p where d: "trim_loop page_free (chunks s) s = Some (ds, s\<lparr>pages := p, remaining := remaining s - (total (chunks s) - total ds)\<rparr>)" "ok p"
    "head p = head (pages s)" "coalesced ds" "\<forall>d\<in>set ds. chunk_ok d" "covers ds \<subseteq> covers (chunks s)"
    "owned p = owned (pages s) - (covers (chunks s) - covers ds)" "total ds \<le> total (chunks s)"
  proof -
    have "\<forall>c\<in>set (chunks s). chunk_ok c \<and> (fst c + snd c) mod 4096 \<noteq> 24" "total (chunks s) \<le> remaining s" "remaining s < 2 ^ 64"
      using i(2,4) e total_less [OF i(1,2)] by simp_all
    from trim_loop_ok [OF hok_D(1) [OF h] i(3,1) this] that show ?thesis by blast
  qed
  let ?s = "s\<lparr>pages := p, remaining := remaining s - (total (chunks s) - total ds), chunks := ds\<rparr>"
  have l: "chunk_ok c \<and> region c \<subseteq> owned p \<and> region c \<inter> covers ds = {} \<and> fst c + 24 \<le> q \<and> q \<le> fst c + snd c" if "live s q = Some c" for q c
    using i(6) [OF that] d(6,7) by blast
  have "covers ds \<subseteq> owned p" "list_head s - 1 \<notin> owned p" using d(6,7) i(3,5) by auto
  moreover have "remaining s - (total (chunks s) - total ds) = total ds" using i(4) d(8) by simp
  ultimately have "heap_inv (owned p) ?s" using d(4,5) l i(7) unfolding heap_inv_def by simp blast
  then have "hok ?s" using d(2,3) hok_D(2) [OF h] by (simp add: heap_ok_def)
  moreover have "miniheap_trim page_free s = Some ?s" unfolding miniheap_trim_def d(1) by simp
  ultimately show ?thesis using d(6,7) by (intro exI [of _ ?s]) simp
qed

end


section \<open>The functions of the kernel keep the invariant\<close>

text \<open>
  What the users of the heap do. A block that is freed, or put on the list for later, is in use; it has more than 24 bytes, and no free chunk ends 24 bytes behind
  the start of a page when the heap is trimmed: otherwise an assertion fails.
\<close>

inductive heap_step :: "'p page_alloc \<Rightarrow> 'p page_free \<Rightarrow> 'p heap \<Rightarrow> 'p heap \<Rightarrow> bool" for pa pf where
  malloc: "n + 8192 < 2 ^ 44 \<Longrightarrow> malloc pa n s = Some (ptr, s') \<Longrightarrow> heap_step pa pf s s'"
| memalign: "n + al + 8192 < 2 ^ 44 \<Longrightarrow> memalign pa al n s = Some (ptr, s') \<Longrightarrow> heap_step pa pf s s'"
| calloc: "k * n + 8192 < 2 ^ 44 \<Longrightarrow> calloc pa k n s = Some (ptr, s') \<Longrightarrow> heap_step pa pf s s'"
| realloc: "n + 8192 < 2 ^ 44 \<Longrightarrow> realloc pa ptr n s = Some (ptr', s') \<Longrightarrow> heap_step pa pf s s'"
| free: "free ptr s = Some s' \<Longrightarrow> heap_step pa pf s s'"
| free_later: "heap_step pa pf s (heap_delayed_free ptr s)"
| trim: "delayed s = [] \<Longrightarrow> \<forall>c\<in>set (chunks s). (fst c + snd c) mod 4096 \<noteq> 24 \<Longrightarrow> heap_trim pf s = Some s' \<Longrightarrow> heap_step pa pf s s'"
| store: "heap_step pa pf s (s\<lparr>contents := m\<rparr>)"

context page_provider
begin

lemma hok_contents: "hok s \<Longrightarrow> hok (s\<lparr>contents := m\<rparr>)" "hok s \<Longrightarrow> hok (s\<lparr>delayed := d\<rparr>)"
  by (auto simp: heap_ok_def intro: heap_inv_frame)

lemma free_hok: "hok s \<Longrightarrow> miniheap_free ptr s = Some s' \<Longrightarrow> hok s'"
proof -
  assume h: "hok s" and f: "miniheap_free ptr s = Some s'"
  show "hok s'"
  proof (cases "ptr = 0")
    case False
    then obtain c where c: "live s ptr = Some c" "snd c \<noteq> 24"
      using f by (auto simp: miniheap_free_def heap_create_free_chunk_def split: option.splits if_splits)
    then show ?thesis using miniheap_free_ok [OF h c] f by auto
  qed (use h f in \<open>simp add: miniheap_free_def\<close>)
qed

lemma alloc_hok: "hok s \<Longrightarrow> n + al + 8192 < 2 ^ 44 \<Longrightarrow> miniheap_alloc page_alloc n al s = Some (ptr, s') \<Longrightarrow> hok s'"
  using miniheap_alloc_ok [of s n al] by auto

lemma free_all_hok: "hok s \<Longrightarrow> free_all ps s = Some s' \<Longrightarrow> hok s'"
proof (induction ps arbitrary: s)
  case (Cons p ps)
  then obtain s1 where "miniheap_free p s = Some s1" "free_all ps s1 = Some s'" by (auto split: option.splits)
  then show ?case using Cons free_hok by blast
qed simp

text \<open>The blocks on the list for later are freed first.\<close>

lemma after_delayed_hok:
  assumes "hok s" "after_delayed f s = Some r"
  obtains s1 where "hok s1" "f s1 = Some r"
proof (cases "delayed s = []")
  case True
  then show thesis using assms that by (simp add: after_delayed_def)
next
  case False
  then obtain s1 where s1: "heap_free_delayed_list s = Some s1" "f s1 = Some r"
    using assms(2) by (auto simp: after_delayed_def split: option.splits)
  have "free_all (rev (delayed s)) (s\<lparr>delayed := []\<rparr>) = Some s1" using s1(1) by (simp add: heap_free_delayed_list_def)
  from free_all_hok [OF hok_contents(2) [OF assms(1)] this] show thesis using s1(2) by (rule that)
qed

lemma realloc_hok:
  assumes "hok s" "n + 8192 < 2 ^ 44" "miniheap_realloc page_alloc ptr n s = Some (p, s')"
  shows "hok s'"
proof -
  consider "ptr = 0" | "ptr \<noteq> 0" "n = 0" | "ptr \<noteq> 0" "n \<noteq> 0" by blast
  then show ?thesis
  proof cases
    case 1
    then show ?thesis using assms alloc_hok [of s n 0] by (simp add: miniheap_realloc_def)
  next
    case 2
    then show ?thesis using assms free_hok by (auto simp: miniheap_realloc_def)
  next
    case 3
    then obtain q s1 where a: "miniheap_alloc page_alloc n 0 s = Some (q, s1)"
      "if q = 0 then s' = s1 else miniheap_free ptr (s1\<lparr>contents := memcpy_bytes q ptr n (contents s1)\<rparr>) = Some s'"
      using assms(3) by (auto simp: miniheap_realloc_def split: option.splits if_splits)
    have "hok s1" using alloc_hok [OF assms(1) _ a(1)] assms(2) by simp
    then show ?thesis using a(2) free_hok [OF hok_contents(1)] by (auto split: if_splits)
  qed
qed

lemma heap_step_hok:
  assumes "heap_step page_alloc page_free s s'" "hok s"
  shows "hok s'"
  using assms
proof (induction rule: heap_step.induct)
  case (malloc n s ptr s')
  obtain s1 where "hok s1" "miniheap_alloc page_alloc n 0 s1 = Some (ptr, s')"
    using after_delayed_hok [OF malloc(3) malloc(2) [unfolded malloc_def]] by blast
  then show ?case using alloc_hok [of s1 n 0] malloc(1) by simp
next
  case (memalign n al s ptr s')
  obtain s1 where "hok s1" "miniheap_alloc page_alloc n (al mod 2 ^ 32) s1 = Some (ptr, s')"
    using after_delayed_hok [OF memalign(3) memalign(2) [unfolded memalign_def]] by blast
  moreover have "n + al mod 2 ^ 32 + 8192 < 2 ^ 44" using memalign(1) mod_less_eq_dividend [of al "2 ^ 32"] by linarith
  ultimately show ?case using alloc_hok by blast
next
  case (calloc k n s ptr s')
  have m: "k * n mod 2 ^ 64 = k * n" using calloc(1) by simp
  obtain s1 where s1: "hok s1" "map_option (\<lambda>(ptr, s). (ptr, if ptr \<noteq> 0 then s\<lparr>contents := (\<lambda>a. if ptr \<le> a \<and> a < ptr + k * n then 0 else contents s a)\<rparr> else s))
      (miniheap_alloc page_alloc (k * n) 0 s1) = Some (ptr, s')"
    using after_delayed_hok [OF calloc(3) calloc(2) [unfolded calloc_def Let_def m]] by blast
  then obtain s2 where s2: "miniheap_alloc page_alloc (k * n) 0 s1 = Some (ptr, s2)"
    "s' = (if ptr \<noteq> 0 then s2\<lparr>contents := (\<lambda>a. if ptr \<le> a \<and> a < ptr + k * n then 0 else contents s2 a)\<rparr> else s2)" by auto
  have "hok s2" using alloc_hok [OF s1(1) _ s2(1)] calloc(1) by simp
  then show ?case using s2(2) hok_contents(1) by simp
next
  case (realloc n ptr s ptr' s')
  obtain s1 where "hok s1" "miniheap_realloc page_alloc ptr n s1 = Some (ptr', s')"
    using after_delayed_hok [OF realloc(3) realloc(2) [unfolded realloc_def]] by blast
  then show ?case using realloc_hok realloc(1) by blast
next
  case (free ptr s s')
  then show ?case using free_hok by (simp add: free_def)
next
  case (free_later s ptr)
  then show ?case using hok_contents(2) by (simp add: heap_delayed_free_def)
next
  case (trim s s')
  then show ?case using miniheap_trim_ok [of s] by (auto simp: heap_trim_def after_delayed_def)
next
  case (store s m)
  then show ?case using hok_contents(1) by simp
qed

text \<open>Freeing a block right after it was got gives back the list of free chunks, if the heap did not have to grow.\<close>

lemma free_after_alloc:
  assumes h: "hok s" and n: "n + al + 8192 < 2 ^ 44" and a: "alloc_once (alloc_size n (alloc_alignment al)) (alloc_alignment al) s = Some (ptr, s1)"
    and al: "al AND (al - 1) = 0" and p: "ptr \<noteq> 0" "n \<noteq> 0 \<or> al \<noteq> 0"
  shows "\<exists>s2. miniheap_free ptr s1 = Some s2 \<and> chunks s2 = chunks s \<and> live s2 = live s \<and> remaining s2 = remaining s"
proof -
  let ?al = "alloc_alignment al"
  have n': "n + ?al + 128 < 2 ^ 64" "?al mod 8 = 0" using n align_ok [OF al] by (simp_all add: alloc_alignment_def)
  have al1: "heap_inv (owned (pages s)) s1" "allocated n ?al s ptr s1"
    using alloc_once_ok [OF hok_D(3) [OF h] n' refl] a p(1) by auto
  then obtain c where c: "live s1 = (live s)(ptr \<mapsto> c)" "live s ptr = None" "region c \<subseteq> covers (chunks s)" "covers (chunks s1) = covers (chunks s) - region c"
    "n + 24 + ?al \<le> snd c" "pages s1 = pages s" "list_head s1 = list_head s" by (auto simp: allocated_def)
  have h1: "hok s1" using al1(1) c(6,7) h by (simp add: heap_ok_def)
  have "snd c \<noteq> 24" using c(5) p(2) by (auto simp: alloc_alignment_def split: if_splits)
  then obtain s2 where s2: "miniheap_free ptr s1 = Some s2" "hok s2" "live s2 = (live s1)(ptr := None)" "covers (chunks s2) = covers (chunks s1) \<union> region c"
    using miniheap_free_ok [OF h1, of ptr c] c(1) by auto
  have "covers (chunks s2) = covers (chunks s)" using s2(4) c(3,4) by blast
  then have "chunks s2 = chunks s" using coalesced_unique heap_inv_D(1) hok_D(3) h s2(2) by blast
  moreover have "live s2 = live s" using s2(3) c(1,2) by (auto simp: fun_eq_iff)
  ultimately show ?thesis using s2(1) heap_inv_D(4) [OF hok_D(3) [OF s2(2)]] heap_inv_D(4) [OF hok_D(3) [OF h]] by simp
qed

end



section \<open>A new heap, and what its users see\<close>

lemma live_ok: "heap_inv U s \<Longrightarrow> live s p = Some c \<Longrightarrow> region c \<inter> covers (chunks s) = {} \<and> region c \<subseteq> U"
  using heap_inv_D(6) by blast

lemma bytes_in_region: "fst c + 24 \<le> p \<Longrightarrow> p + n \<le> fst c + snd c \<Longrightarrow> {p..<p + n} \<subseteq> region c"
  by (auto simp: region_def)

lemma empty_heap_inv: "list_head s - 1 \<notin> U \<Longrightarrow> live s = Map.empty \<Longrightarrow> chunks s = [] \<Longrightarrow> remaining s = 0 \<Longrightarrow> heap_inv U s"
  unfolding heap_inv_def by simp

context page_provider
begin

lemma init_hok:
  assumes k: "ok (pages s)" "list_head s = head (pages s)" "live s = Map.empty" and p: "fst (page_alloc 1 (pages s)) \<noteq> 0"
  shows "\<exists>s'. HEAP_INIT page_alloc s = Some s' \<and> hok s' \<and> live s' = Map.empty \<and> delayed s' = delayed s"
proof -
  obtain q p' where q: "page_alloc 1 (pages s) = (q, p')" by fastforce
  have q0: "q \<noteq> 0" using p q by simp
  note law = alloc_law [OF k(1) _ q, simplified] 
  have own: "owned p' = owned (pages s) \<union> {q..<q + 4096}" "q mod 4096 = 0" "ok p'" "head p' = head (pages s)" "{q..<q + 4096} \<inter> owned (pages s) = {}"
    using law q0 by simp_all
  have "q + 4095 \<in> owned p'" unfolding own(1) by simp
  then have "q + 4095 < 2 ^ 64 - 4096" using owned_law [OF own(3)] by fastforce
  moreover have m: "q mod 8 = 0" using mod_8 [OF own(2)] .
  ultimately have c: "chunk_ok (q, 4096)" using q0 by (simp add: chunk_ok_def)
  let ?s = "s\<lparr>pages := p', chunks := [], h_base := q, h_len := 4096, remaining := 0, low_watermark := 0\<rparr>"
  have r: "region (q, 4096) = {q..<q + 4096}" by (simp add: region_def)
  have hd: "list_head ?s - 1 \<notin> owned p'" using owned_law [OF own(3)] own(4) k(2) by simp
  have inv: "heap_inv (owned (pages s)) ?s" using hd k(3) own(1) by (intro empty_heap_inv) simp_all
  have "\<exists>s'. heap_insert_free_chunk (q, 4096) ?s = Some s' \<and> heap_inv (owned p') s' \<and> covers (chunks s') = covers (chunks ?s) \<union> region (q, 4096) \<and>
      live s' = live ?s \<and> contents s' = contents ?s \<and> pages s' = pages ?s \<and> list_head s' = list_head ?s \<and> delayed s' = delayed ?s \<and> h_base s' = h_base ?s \<and>
      h_len s' = h_len ?s"
    by (rule heap_inv_add [OF inv c _ _ _ _ hd]) (use k(3) own(1) r in simp_all)
  then obtain s' where s': "heap_insert_free_chunk (q, 4096) ?s = Some s'" "heap_inv (owned p') s'" "live s' = live s" "pages s' = p'" "list_head s' = list_head s"
    "delayed s' = delayed s" by auto
  have "HEAP_INIT page_alloc s = Some s'"
    using s'(1) m unfolding HEAP_INIT_def q miniheap_init_def Let_def heap_create_free_chunk_def by simp
  moreover have "hok s'" using s' own(3,4) k(2) by (simp add: heap_ok_def)
  ultimately show ?thesis using s'(3,6) k(3) by auto
qed

lemma heap_steps_hok: "(heap_step page_alloc page_free)\<^sup>*\<^sup>* s s' \<Longrightarrow> hok s \<Longrightarrow> hok s'"
  by (induction rule: rtranclp_induct) (blast intro: heap_step_hok)+

lemma got_block_apart:
  assumes h: "hok s'" and g: "got_block n al s ptr s'"
  shows "\<exists>c. live s' = (live s)(ptr \<mapsto> c) \<and> live s ptr = None \<and> {ptr..<ptr + n} \<subseteq> region c \<and> {ptr..<ptr + n} \<inter> covers (chunks s') = {} \<and>
    (\<forall>p d. live s p = Some d \<longrightarrow> region c \<inter> region d = {}) \<and> (0 < al \<longrightarrow> ptr mod al = 0) \<and> n + 24 \<le> snd c"
proof -
  obtain c where c: "live s' = (live s)(ptr \<mapsto> c)" "live s ptr = None" "fst c + 24 \<le> ptr" "ptr + n \<le> fst c + snd c" "0 < al \<longrightarrow> ptr mod al = 0"
    "n + 24 + al \<le> snd c" using g unfolding got_block_def by (elim exE conjE) (rule that)
  note i = heap_inv_D [OF hok_D(3) [OF h]]
  have l: "live s' ptr = Some c" by (simp add: c(1))
  have sub: "{ptr..<ptr + n} \<subseteq> region c" using bytes_in_region [OF c(3,4)] .
  have a1: "\<forall>p d. live s p = Some d \<longrightarrow> region c \<inter> region d = {}"
  proof (intro allI impI)
    fix p d assume d: "live s p = Some d"
    have "p \<noteq> ptr" using d c(2) by auto
    then have "live s' p = Some d" using d by (simp add: c(1))
    then show "region c \<inter> region d = {}" using i(7) [OF l] \<open>p \<noteq> ptr\<close> by blast
  qed
  have "region c \<inter> covers (chunks s') = {}" using i(6) [OF l] by blast
  then have a2: "{ptr..<ptr + n} \<inter> covers (chunks s') = {}" using sub by blast
  have "n + 24 \<le> snd c" using c(6) by simp
  then show ?thesis using c(1,2,5) sub a1 a2 by (intro exI [of _ c]) (simp only: simp_thms)
qed

lemma malloc_ok:
  assumes "hok s" "delayed s = []" "n + 8192 < 2 ^ 44"
  shows "\<exists>ptr s'. malloc page_alloc n s = Some (ptr, s') \<and> hok s' \<and>
    (if ptr = 0 then live s' = live s \<and> chunks s' = chunks s \<and> contents s' = contents s \<and> delayed s' = delayed s \<and>
       (\<forall>c\<in>set (chunks s). snd c < ROUNDUP (n + 24) 8) \<and> fst (page_alloc (ROUNDUP (ROUNDUP (n + 24) 8) 4096 div 4096) (pages s)) = 0
     else got_block n 0 s ptr s')"
proof -
  have z: "alloc_size n (alloc_alignment 0) = ROUNDUP (n + 24) 8" using alloc_size_ok(1) [of n 0] assms(3) by (simp add: alloc_alignment_def)
  have al: "\<not> (0 AND 0 - 1 \<noteq> (0 :: nat))" "n + 0 + 8192 < 2 ^ 44" using assms(3) by simp_all
  have run: "malloc page_alloc n s = miniheap_alloc page_alloc n 0 s" using assms(2) by (simp add: malloc_def after_delayed_def)
  show ?thesis unfolding run using miniheap_alloc_ok [OF assms(1) al(2), unfolded z] al(1) by (simp only: simp_thms)
qed

lemma realloc_ok:
  assumes h: "hok s" and d: "delayed s = []" and n: "0 < n" "n + 8192 < 2 ^ 44" and l: "live s ptr = Some c" "snd c \<noteq> 24"
  shows "\<exists>ptr' s'. realloc page_alloc ptr n s = Some (ptr', s') \<and> hok s' \<and>
    (if ptr' = 0 then live s' = live s \<and> contents s' = contents s
     else \<exists>c'. live s' = ((live s)(ptr := None))(ptr' \<mapsto> c') \<and> live s ptr' = None \<and> {ptr'..<ptr' + n} \<subseteq> region c' \<and>
       (\<forall>p e. live s p = Some e \<longrightarrow> region c' \<inter> region e = {}) \<and>
       contents s' = memcpy_bytes ptr' ptr n (contents s))"
proof -
  have p0: "ptr \<noteq> 0" using heap_inv_D(6) [OF hok_D(3) [OF h] l(1)] by auto
  have run: "realloc page_alloc ptr n s = (case miniheap_alloc page_alloc n 0 s of None \<Rightarrow> None
      | Some (p, s) \<Rightarrow> if p = 0 then Some (0, s)
          else map_option (\<lambda>s. (p, s)) (miniheap_free ptr (s\<lparr>contents := memcpy_bytes p ptr n (contents s)\<rparr>)))"
    using d p0 n(1) by (simp add: realloc_def after_delayed_def miniheap_realloc_def)
  obtain q s1 where a: "miniheap_alloc page_alloc n 0 s = Some (q, s1)" "hok s1"
    "if q = 0 then live s1 = live s \<and> contents s1 = contents s else got_block n 0 s q s1"
    using miniheap_alloc_ok [OF h, of n 0] n(2) by (auto split: if_splits)
  show ?thesis
  proof (cases "q = 0")
    case True
    then show ?thesis using run a by simp
  next
    case False
    then obtain c' where c': "live s1 = (live s)(q \<mapsto> c')" "live s q = None" "{q..<q + n} \<subseteq> region c'" "\<forall>p e. live s p = Some e \<longrightarrow> region c' \<inter> region e = {}"
      using got_block_apart [OF a(2), of n 0 s q] a(3) by auto
    have ct: "contents s1 = contents s" using a(3) False unfolding got_block_def by auto
    let ?s = "s1\<lparr>contents := memcpy_bytes q ptr n (contents s1)\<rparr>"
    have "live ?s ptr = Some c" using l(1) c'(1,2) by auto
    then obtain s2 where s2: "miniheap_free ptr ?s = Some s2" "hok s2" "live s2 = (live ?s)(ptr := None)" "contents s2 = contents ?s"
      using miniheap_free_ok [OF hok_contents(1) [OF a(2)] _ l(2)] by blast
    have "q \<noteq> ptr" using l(1) c'(2) by auto
    then have "live s2 = ((live s)(ptr := None))(q \<mapsto> c')" unfolding s2(3) c'(1) by (auto simp: c'(1) fun_upd_twist)
    moreover have "realloc page_alloc ptr n s = Some (q, s2)" using run a(1) False s2(1) by simp
    moreover have "contents s2 = memcpy_bytes q ptr n (contents s)" using s2(4) ct by simp
    ultimately show ?thesis using False s2(2) c'(2-4) by (intro exI [of _ q] exI [of _ s2] conjI) (simp_all only: if_False, blast)
  qed
qed

end

end
