(* ===== verification/Kpages.thy ===== *)
theory Kpages
  imports Heap Mmu
begin

text \<open>
  Pages for the kernel: \<^verbatim>\<open>pmm_alloc_kpages\<close> and \<^verbatim>\<open>pmm_free_kpages\<close> of \<^verbatim>\<open>kernel/vm/pmm.c\<close>, and the page allocator of the heap,
  \<^verbatim>\<open>lib/heap/page_alloc.c\<close>, which is the \<open>page_provider\<close> of \<open>Heap\<close>. A page is given out by the address at which the boot mappings show it, and is found
  again from that address through the kernel's translation tables.
\<close>

section \<open>Operations\<close>

text \<open>The list of the pages that a caller may ask for is not in the result.\<close>

definition pmm_alloc_kpages :: "nat \<Rightarrow> mm_state \<Rightarrow> nat \<times> mm_state" where
  "pmm_alloc_kpages count s =
     (if count = 1
      then (case pmm_alloc_page (arenas s) of
              (as, None) \<Rightarrow> (0, s\<lparr>arenas := as\<rparr>)
            | (as, Some p) \<Rightarrow> (let s = s\<lparr>arenas := as\<rparr> in (unat (paddr_to_kvaddr s (page_paddr s p)), s)))
      else
        (case pmm_alloc_contiguous count PAGE_SIZE_SHIFT (arenas s) of
           None \<Rightarrow> (0, s)
         | Some (as, pa, _) \<Rightarrow> (let s = s\<lparr>arenas := as\<rparr> in (unat (paddr_to_kvaddr s (of_nat pa)), s))))"

text \<open>The state of the kernel's memory. \<open>image_start\<close> and \<open>image_end\<close> are the ends of the kernel image, \<open>list_head_addr\<close> the address of the heap's list head.\<close>

record kpages =
  kp_mm :: mm_state
  spaces :: aspaces
  cur_aspace :: "arch_aspace option"
  image_start :: nat
  image_end :: nat
  list_head_addr :: nat

text \<open>The loop of \<^verbatim>\<open>pmm_free_kpages\<close>: the pages at \<open>count\<close> addresses.\<close>

fun kpage_list :: "nat \<Rightarrow> nat \<Rightarrow> kpages \<Rightarrow> vm_page list option" where
  "kpage_list ptr 0 s = Some []"
| "kpage_list ptr (Suc count) s =
     (case vaddr_to_paddr (spaces s) (cur_aspace s) ptr (kp_mm s) of
        None \<Rightarrow> None
      | Some pa \<Rightarrow> map_option (\<lambda>l. (case paddr_to_vm_page (arenas (kp_mm s)) (unat pa) of None \<Rightarrow> l | Some p \<Rightarrow> p # l))
          (kpage_list ((ptr + PAGE_SIZE) mod 2 ^ 64) count s))"

definition pmm_free_kpages :: "nat \<Rightarrow> nat \<Rightarrow> kpages \<Rightarrow> (nat \<times> kpages) option" where
  "pmm_free_kpages ptr count s =
     map_option (\<lambda>l. case pmm_free l (arenas (kp_mm s)) of (as, n) \<Rightarrow> (n, s\<lparr>kp_mm := (kp_mm s)\<lparr>arenas := as\<rparr>\<rparr>)) (kpage_list ptr count s)"

text \<open>The number of pages becomes a 32-bit integer on the way.\<close>

definition page_alloc :: "nat \<Rightarrow> kpages \<Rightarrow> nat \<times> kpages" where
  "page_alloc count s = (case pmm_alloc_kpages (count mod 2 ^ 32) (kp_mm s) of (result, m) \<Rightarrow> (result, s\<lparr>kp_mm := m\<rparr>))"

definition page_free :: "nat \<Rightarrow> nat \<Rightarrow> kpages \<Rightarrow> kpages option" where
  "page_free ptr count s = (if ptr mod PAGE_SIZE = 0 then map_option snd (pmm_free_kpages ptr (count mod 2 ^ 32) s) else None)"

definition page_first_alloc :: "kpages \<Rightarrow> (nat \<times> nat) \<times> kpages" where
  "page_first_alloc s = (case page_alloc 1 s of (ptr, s) \<Rightarrow> ((ptr, PAGE_SIZE), s))"

section \<open>The pages the kernel sees\<close>

abbreviation kva :: "kpages \<Rightarrow> vm_page \<Rightarrow> nat" where
  "kva s pg \<equiv> unat (page_kva (kp_mm s) pg)"

abbreviation kp_arenas :: "kpages \<Rightarrow> pmm_arena list" where
  "kp_arenas s \<equiv> arenas (kp_mm s)"

definition in_image :: "kpages \<Rightarrow> vm_page \<Rightarrow> bool" where
  "in_image s pg \<longleftrightarrow> image_start s \<le> kva s pg \<and> kva s pg < image_end s"

definition page_bytes :: "kpages \<Rightarrow> vm_page \<Rightarrow> nat set" where
  "page_bytes s pg = {kva s pg..<kva s pg + PAGE_SIZE}"

text \<open>The mapped pages outside of the image, and the bytes of those that are in use.\<close>

definition heap_pages :: "kpages \<Rightarrow> vm_page set" where
  "heap_pages s = {pg \<in> all_pages (kp_arenas s). kva s pg \<noteq> 0 \<and> \<not> in_image s pg}"

definition kp_owned :: "kpages \<Rightarrow> nat set" where
  "kp_owned s = (\<Union>pg\<in>heap_pages s - free_pages (kp_arenas s). page_bytes s pg)"

text \<open>
  The boot mappings show a page at the start of a page, the kernel's tables translate that address back, an arena marked as mapped is shown in one piece, and
  the pages of the image are in use.
\<close>

definition page_seen :: "kpages \<Rightarrow> vm_page \<Rightarrow> bool" where
  "page_seen s pg \<longleftrightarrow> kva s pg mod PAGE_SIZE = 0 \<and> kva s pg + 2 * PAGE_SIZE < 2 ^ 64 \<and>
     vaddr_to_paddr (spaces s) (cur_aspace s) (kva s pg) (kp_mm s) = Some (page_paddr (kp_mm s) pg) \<and>
     paddr_to_vm_page (kp_arenas s) (unat (page_paddr (kp_mm s) pg)) = Some pg"

definition in_one_piece :: "kpages \<Rightarrow> pmm_arena \<Rightarrow> bool" where
  "in_one_piece s a \<longleftrightarrow> (\<forall>i<page_count a. kva s (page_array a, i) = kva s (page_array a, 0) + i * PAGE_SIZE) \<and> kva s (page_array a, 0) \<noteq> 0"

definition kp_ok :: "kpages \<Rightarrow> bool" where
  "kp_ok s \<longleftrightarrow> pmm_inv (kp_arenas s) \<and> finite (all_pages (kp_arenas s)) \<and> card (all_pages (kp_arenas s)) < 2 ^ 32 \<and>
     (\<forall>pg\<in>all_pages (kp_arenas s). kva s pg \<noteq> 0 \<longrightarrow> page_seen s pg) \<and>
     (\<forall>a\<in>set (kp_arenas s). bit (ar_flags a) 0 \<longrightarrow> in_one_piece s a) \<and>
     image_start s mod PAGE_SIZE = 0 \<and> image_start s < list_head_addr s \<and> list_head_addr s \<le> image_end s \<and>
     (\<forall>pg\<in>free_pages (kp_arenas s). \<not> in_image s pg)"

lemma kp_ok_D:
  assumes "kp_ok s"
  shows "pmm_inv (kp_arenas s)" "finite (all_pages (kp_arenas s))" "card (all_pages (kp_arenas s)) < 2 ^ 32"
    "\<And>pg. pg \<in> all_pages (kp_arenas s) \<Longrightarrow> kva s pg \<noteq> 0 \<Longrightarrow> page_seen s pg"
    "\<And>a. a \<in> set (kp_arenas s) \<Longrightarrow> bit (ar_flags a) 0 \<Longrightarrow> in_one_piece s a"
    "image_start s mod PAGE_SIZE = 0" "image_start s < list_head_addr s" "list_head_addr s \<le> image_end s"
    "\<And>pg. pg \<in> free_pages (kp_arenas s) \<Longrightarrow> \<not> in_image s pg"
  using assms unfolding kp_ok_def by simp_all

lemma page_seen_D:
  assumes "page_seen s pg"
  shows "kva s pg mod 4096 = 0" "kva s pg + 2 * 4096 < 2 ^ 64"
    "vaddr_to_paddr (spaces s) (cur_aspace s) (kva s pg) (kp_mm s) = Some (page_paddr (kp_mm s) pg)"
    "paddr_to_vm_page (kp_arenas s) (unat (page_paddr (kp_mm s) pg)) = Some pg"
  using assms unfolding page_seen_def by simp_all

lemma kva_inj:
  assumes "kp_ok s" "pg \<in> all_pages (kp_arenas s)" "pg' \<in> all_pages (kp_arenas s)" "kva s pg \<noteq> 0" "kva s pg = kva s pg'"
  shows "pg = pg'"
proof -
  have s: "page_seen s pg" "page_seen s pg'" using kp_ok_D(4) [OF assms(1)] assms(2-5) by metis+
  have "page_paddr (kp_mm s) pg = page_paddr (kp_mm s) pg'" using page_seen_D(3) [OF s(1)] page_seen_D(3) [OF s(2)] unfolding assms(5) by simp
  then show ?thesis using page_seen_D(4) [OF s(1)] page_seen_D(4) [OF s(2)] by (metis option.inject)
qed

text \<open>Aligned pages that share a byte are the same.\<close>

lemma aligned_pages: "a mod 4096 = 0 \<Longrightarrow> b mod 4096 = 0 \<Longrightarrow> a \<le> x \<Longrightarrow> x < a + 4096 \<Longrightarrow> b \<le> x \<Longrightarrow> x < b + 4096 \<Longrightarrow> a = (b :: nat)"
proof -
  have "c = x div 4096 * 4096" if "c mod 4096 = 0" "c \<le> x" "x < c + 4096" for c :: nat
    using that div_nat_eqI [of 4096 "c div 4096" x] by (auto simp: mod_eq_0_iff_dvd)
  then show "a mod 4096 = 0 \<Longrightarrow> b mod 4096 = 0 \<Longrightarrow> a \<le> x \<Longrightarrow> x < a + 4096 \<Longrightarrow> b \<le> x \<Longrightarrow> x < b + 4096 \<Longrightarrow> a = b" by metis
qed

lemma page_bytes_disjoint:
  assumes "kp_ok s" "pg \<in> heap_pages s" "pg' \<in> heap_pages s" "x \<in> page_bytes s pg" "x \<in> page_bytes s pg'"
  shows "pg = pg'"
proof -
  have p: "pg \<in> all_pages (kp_arenas s)" "pg' \<in> all_pages (kp_arenas s)" "kva s pg \<noteq> 0" "kva s pg' \<noteq> 0"
    using assms(2,3) by (simp_all add: heap_pages_def)
  have "page_seen s pg" "page_seen s pg'" using kp_ok_D(4) [OF assms(1)] p by metis+
  then have a: "kva s pg mod 4096 = 0" "kva s pg' mod 4096 = 0" by (blast dest: page_seen_D(1))+
  have "kva s pg = kva s pg'" using assms(4,5) by (intro aligned_pages [OF a, of x]) (simp_all add: page_bytes_def)
  then show ?thesis by (rule kva_inj [OF assms(1) p(1-3)])
qed

section \<open>The arenas change\<close>

lemma query_arenas [simp]: "query_loop n t v (m\<lparr>arenas := as\<rparr>) = query_loop n t v m"
proof (induction n arbitrary: t v)
  case 0
  show ?case unfolding query_loop.simps [of 0 _ _ "m\<lparr>arenas := as\<rparr>"] query_loop.simps [of 0 _ _ m] Let_def by simp
next
  case (Suc n)
  then show ?case
    unfolding query_loop.simps [of "Suc n" _ _ "m\<lparr>arenas := as\<rparr>"] query_loop.simps [of "Suc n" _ _ m] Let_def
    by (simp add: paddr_to_kvaddr_def)
qed

lemma vaddr_to_paddr_arenas [simp]: "vaddr_to_paddr sp cur v (m\<lparr>arenas := as\<rparr>) = vaddr_to_paddr sp cur v m"
proof -
  have "arch_mmu_query a v w (m\<lparr>arenas := as\<rparr>) = arch_mmu_query a v w m" for a w unfolding arch_mmu_query_def by simp
  then show ?thesis unfolding vaddr_to_paddr_def by (simp cong: option.case_cong)
qed

definition with_arenas :: "pmm_arena list \<Rightarrow> kpages \<Rightarrow> kpages" where
  "with_arenas as s = s\<lparr>kp_mm := (kp_mm s)\<lparr>arenas := as\<rparr>\<rparr>"

lemma with_arenas_simps [simp]: "kp_arenas (with_arenas as s) = as" "list_head_addr (with_arenas as s) = list_head_addr s"
  by (simp_all add: with_arenas_def)

lemma with_arenas_geom:
  assumes g: "map geom as = map geom (kp_arenas s)"
  shows "page_paddr (kp_mm (with_arenas as s)) = page_paddr (kp_mm s)" "page_kva (kp_mm (with_arenas as s)) = page_kva (kp_mm s)"
    "all_pages as = all_pages (kp_arenas s)" "in_image (with_arenas as s) = in_image s" "page_bytes (with_arenas as s) = page_bytes s"
    "heap_pages (with_arenas as s) = heap_pages s"
proof -
  show p: "page_paddr (kp_mm (with_arenas as s)) = page_paddr (kp_mm s)"
    by (intro ext) (simp add: with_arenas_def page_paddr_def vm_page_to_paddr_geom [OF g])
  show k: "page_kva (kp_mm (with_arenas as s)) = page_kva (kp_mm s)"
    by (intro ext) (simp only: page_kva_def p, simp add: with_arenas_def paddr_to_kvaddr_def)
  show a: "all_pages as = all_pages (kp_arenas s)" by (rule all_pages_cong [OF g])
  show i: "in_image (with_arenas as s) = in_image s" unfolding in_image_def k fun_eq_iff by (simp add: with_arenas_def)
  show "page_bytes (with_arenas as s) = page_bytes s" unfolding page_bytes_def k fun_eq_iff by simp
  show "heap_pages (with_arenas as s) = heap_pages s" unfolding heap_pages_def with_arenas_simps a k i ..
qed

lemma kp_ok_with_arenas:
  assumes ok: "kp_ok s" and g: "map geom as = map geom (kp_arenas s)" and inv: "pmm_inv as" and im: "\<forall>pg\<in>free_pages as. \<not> in_image s pg"
  shows "kp_ok (with_arenas as s)"
proof -
  note e = with_arenas_geom [OF g]
  have sp: "spaces (with_arenas as s) = spaces s" "cur_aspace (with_arenas as s) = cur_aspace s"
    "image_start (with_arenas as s) = image_start s" "image_end (with_arenas as s) = image_end s"
    "\<And>x y v. vaddr_to_paddr x y v (kp_mm (with_arenas as s)) = vaddr_to_paddr x y v (kp_mm s)" by (simp_all add: with_arenas_def)
  have kmap: "in_one_piece (with_arenas as s) a" if a: "a \<in> set as" "bit (ar_flags a) 0" for a
  proof -
    have "geom a \<in> set (map geom as)" using a(1) by simp
    then obtain b where b: "b \<in> set (kp_arenas s)" "geom a = geom b" unfolding g by auto
    have f: "page_array a = page_array b" "ar_flags a = ar_flags b" "page_count a = page_count b" using b(2) by (simp_all add: geom_def page_count_def)
    then have "in_one_piece s b" using kp_ok_D(5) [OF ok b(1)] a(2) by simp
    then show ?thesis unfolding in_one_piece_def e f .
  qed
  have seen: "page_seen (with_arenas as s) pg = page_seen s pg" for pg
    unfolding page_seen_def with_arenas_simps e sp paddr_to_vm_page_geom [OF g] ..
  show ?thesis
    unfolding kp_ok_def with_arenas_simps e sp seen using inv kp_ok_D(2-4,6-8) [OF ok] kmap im by simp
qed


section \<open>Taking pages\<close>

lemma pages_union: "(\<Union>i<n. {q + i * 4096..<q + i * 4096 + 4096}) = {q..<q + n * 4096 :: nat}"
proof (induction n)
  case (Suc n)
  have "{q..<q + Suc n * 4096} = {q..<q + n * 4096} \<union> {q + n * 4096..<q + n * 4096 + 4096}" by auto
  with Suc show ?case by (simp add: lessThan_Suc Un_commute)
qed simp

text \<open>Free pages are taken: the mapped ones of them become owned, and none was.\<close>

lemma kp_taken:
  assumes ok: "kp_ok s" and t: "taken (kp_arenas s) ps as"
  shows "kp_ok (with_arenas as s)" "kp_owned (with_arenas as s) = kp_owned s \<union> (\<Union>pg\<in>{pg \<in> set ps. kva s pg \<noteq> 0}. page_bytes s pg)"
    "kp_owned s \<inter> (\<Union>pg\<in>{pg \<in> set ps. kva s pg \<noteq> 0}. page_bytes s pg) = {}"
proof -
  have g: "map geom as = map geom (kp_arenas s)" "set ps \<subseteq> free_pages (kp_arenas s)" "free_pages as = free_pages (kp_arenas s) - set ps" "pmm_inv as"
    using t by (simp_all add: taken_def)
  show "kp_ok (with_arenas as s)" using g kp_ok_D(9) [OF ok] by (intro kp_ok_with_arenas ok) auto
  have hp: "{pg \<in> set ps. kva s pg \<noteq> 0} \<subseteq> heap_pages s"
    using g(2) free_pages_all [of "kp_arenas s"] kp_ok_D(9) [OF ok] by (auto simp: heap_pages_def)
  have "heap_pages s - free_pages as = (heap_pages s - free_pages (kp_arenas s)) \<union> {pg \<in> set ps. kva s pg \<noteq> 0}"
    using g(2,3) hp by (auto simp: heap_pages_def)
  then show "kp_owned (with_arenas as s) = kp_owned s \<union> (\<Union>pg\<in>{pg \<in> set ps. kva s pg \<noteq> 0}. page_bytes s pg)"
    unfolding kp_owned_def with_arenas_simps with_arenas_geom [OF g(1)] by (simp only: UN_Un)
  show "kp_owned s \<inter> (\<Union>pg\<in>{pg \<in> set ps. kva s pg \<noteq> 0}. page_bytes s pg) = {}"
  proof (rule ccontr)
    assume "kp_owned s \<inter> (\<Union>pg\<in>{pg \<in> set ps. kva s pg \<noteq> 0}. page_bytes s pg) \<noteq> {}"
    then obtain x pg pg' where x: "pg \<in> heap_pages s" "pg \<notin> free_pages (kp_arenas s)" "x \<in> page_bytes s pg" "pg' \<in> set ps" "kva s pg' \<noteq> 0" "x \<in> page_bytes s pg'"
      unfolding kp_owned_def by blast
    then have "pg = pg'" using page_bytes_disjoint [OF ok x(1) _ x(3,6)] hp by blast
    then show False using x(2,4) g(2) by blast
  qed
qed

lemma page_paddr_arena:
  assumes "pmm_inv (arenas m)" "a \<in> set (arenas m)" "i < page_count a"
  shows "page_paddr m (page_array a, i) = of_nat (ar_base a + i * 4096)"
  using vm_page_to_paddr_arena [OF assms(1,2), of "(page_array a, i)"] assms(3)
  by (simp add: page_paddr_def PAGE_BELONGS_TO_ARENA_def PAGE_ADDRESS_FROM_ARENA_def add.commute)

lemma kp_alloc:
  assumes ok: "kp_ok s" and n: "n < 2 ^ 32" and run: "page_alloc n s = (q, s')"
  shows "kp_ok s' \<and> list_head_addr s' = list_head_addr s \<and>
      (if q = 0 then kp_owned s' = kp_owned s
       else q mod 4096 = 0 \<and> {q..<q + n * 4096} \<inter> kp_owned s = {} \<and> kp_owned s' = kp_owned s \<union> {q..<q + n * 4096})"
proof (cases "n = 1")
  case True
  obtain as r where r: "pmm_alloc_page (kp_arenas s) = (as, r)" by fastforce
  note t = pmm_alloc_page_taken [OF kp_ok_D(1) [OF ok] r]
  have g: "map geom as = map geom (kp_arenas s)" using t by (simp add: taken_def)
  have s': "s' = with_arenas as s" "q = (case r of None \<Rightarrow> 0 | Some pg \<Rightarrow> kva (with_arenas as s) pg)"
    using run True r by (auto simp: page_alloc_def pmm_alloc_kpages_def with_arenas_def page_kva_def Let_def split: option.splits)
  show ?thesis
  proof (cases r)
    case None
    then show ?thesis using kp_taken [OF ok t] by (simp add: s')
  next
    case (Some pg)
    have q: "q = kva s pg" by (simp add: s'(2) Some with_arenas_geom [OF g])
    have pg: "pg \<in> all_pages (kp_arenas s)" using t free_pages_all [of "kp_arenas s"] by (auto simp: taken_def Some)
    note k = kp_taken [OF ok t, unfolded Some]
    show ?thesis
    proof (cases "q = 0")
      case True
      then have e: "{pg' \<in> set [pg]. kva s pg' \<noteq> 0} = {}" using q by auto
      show ?thesis using k(1,2) True unfolding s'(1) e option.case by simp
    next
      case False
      then have e: "{pg' \<in> set [pg]. kva s pg' \<noteq> 0} = {pg}" using q by auto
      have b: "page_bytes s pg = {q..<q + n * 4096}" using True by (simp add: page_bytes_def q)
      have "q mod 4096 = 0" using page_seen_D(1) [OF kp_ok_D(4) [OF ok pg]] False q by simp
      then show ?thesis using k False unfolding s'(1) option.case e b [symmetric] by auto
    qed
  qed
next
  case False
  have nm: "n mod 2 ^ 32 = n" using n by simp
  show ?thesis
  proof (cases "pmm_alloc_contiguous n 12 (kp_arenas s)")
    case None
    then have "q = 0" "s' = s" using run False unfolding page_alloc_def nm pmm_alloc_kpages_def by auto
    then show ?thesis using ok by simp
  next
    case (Some res)
    obtain as pa ps where res: "res = (as, pa, ps)" by (cases res)
    have pos: "0 < n" using Some by (auto simp: pmm_alloc_contiguous_def split: if_splits)
    then have ca: "contig_arenas n 12 (kp_arenas s) = Some (as, pa, ps)" using Some res by (simp add: pmm_alloc_contiguous_def)
    then have t: "taken (kp_arenas s) ps as" and "\<exists>a\<in>set (kp_arenas s). bit (ar_flags a) 0 \<and> run_of n 12 a (pa, ps)"
      using contig_arenas_correct [OF kp_ok_D(1) [OF ok], of 12 n] pos by auto
    then obtain a st where a: "a \<in> set (kp_arenas s)" "bit (ar_flags a) 0" "run_free a st n" "pa = ar_base a + st * 4096"
      "ps = map (Pair (page_array a)) [st..<st + n]" by (auto simp: run_of_def aligned_run_def)
    have g: "map geom as = map geom (kp_arenas s)" using t by (simp add: taken_def)
    have st: "st + n \<le> page_count a" using a(3) by (simp add: run_free_def)
    have s': "s' = with_arenas as s" and q0: "q = unat (paddr_to_kvaddr (kp_mm s) (of_nat pa))"
      using run False Some res unfolding page_alloc_def nm pmm_alloc_kpages_def
      by (auto simp: with_arenas_def paddr_to_kvaddr_def Let_def)
    have one: "in_one_piece s a" by (rule kp_ok_D(5) [OF ok a(1,2)])
    have q: "q = kva s (page_array a, st)"
      using page_paddr_arena [OF kp_ok_D(1) [OF ok] a(1), of st] st pos by (simp add: q0 a(4) page_kva_def)
    have kv: "kva s (page_array a, st + i) = q + i * 4096" "kva s (page_array a, st + i) \<noteq> 0" if "i < n" for i
    proof -
      have i: "st + i < page_count a" "st < page_count a" using that st by simp_all
      have o1: "kva s (page_array a, st + i) = kva s (page_array a, 0) + (st + i) * 4096" "kva s (page_array a, st) = kva s (page_array a, 0) + st * 4096"
        "kva s (page_array a, 0) \<noteq> 0" using one i unfolding in_one_piece_def by blast+
      show "kva s (page_array a, st + i) = q + i * 4096" unfolding q o1(1,2) by simp
      show "kva s (page_array a, st + i) \<noteq> 0" unfolding o1(1) using o1(3) by linarith
    qed
    have q1: "q \<noteq> 0" using kv(2) [of 0] pos by (simp add: q)
    have set_ps: "{pg \<in> set ps. kva s pg \<noteq> 0} = (\<lambda>i. (page_array a, st + i)) ` {..<n}"
    proof -
      have "set ps = (\<lambda>i. (page_array a, st + i)) ` {..<n}"
        unfolding a(5) list.set_map set_upt image_add_atLeastLessThan [of st 0 n, symmetric, simplified add_0 add.commute [of n]]
        by (simp add: image_image atLeast0LessThan)
      then show ?thesis using kv(2) by auto
    qed
    have b: "(\<Union>pg\<in>{pg \<in> set ps. kva s pg \<noteq> 0}. page_bytes s pg) = {q..<q + n * 4096}"
    proof -
      have "page_bytes s (page_array a, st + i) = {q + i * 4096..<q + i * 4096 + 4096}" if "i < n" for i
        unfolding page_bytes_def kv(1) [OF that] ..
      then show ?thesis unfolding set_ps pages_union [symmetric] image_image UN_simps(10) by (intro SUP_cong) auto
    qed
    have "(page_array a, st) \<in> all_pages (kp_arenas s)" using a(1) st pos by (auto simp: all_pages_def PAGE_BELONGS_TO_ARENA_def)
    then have "q mod 4096 = 0" using page_seen_D(1) [OF kp_ok_D(4) [OF ok]] q1 unfolding q by blast
    then show ?thesis using kp_taken [OF ok t, unfolded b] q1 unfolding s' by (simp add: Int_commute)
  qed
qed


section \<open>Returning pages\<close>

lemma owned_page:
  assumes "kp_ok s" "q \<in> kp_owned s" "q mod 4096 = 0"
  obtains pg where "pg \<in> heap_pages s" "pg \<notin> free_pages (kp_arenas s)" "kva s pg = q"
proof -
  obtain pg where pg: "pg \<in> heap_pages s" "pg \<notin> free_pages (kp_arenas s)" "q \<in> page_bytes s pg" using assms(2) unfolding kp_owned_def by blast
  have "page_seen s pg" using kp_ok_D(4) [OF assms(1)] pg(1) by (simp add: heap_pages_def)
  then have "kva s pg mod 4096 = 0" by (rule page_seen_D)
  then have "kva s pg = q" using aligned_pages [of "kva s pg" q q] pg(3) assms(3) by (simp add: page_bytes_def)
  then show thesis using that pg by blast
qed

lemma kpage_list_owned:
  assumes ok: "kp_ok s"
  shows "q mod 4096 = 0 \<Longrightarrow> {q..<q + n * 4096} \<subseteq> kp_owned s \<Longrightarrow> \<exists>ps. kpage_list q n s = Some ps \<and> length ps = n \<and>
    (\<forall>i<n. ps ! i \<in> heap_pages s - free_pages (kp_arenas s) \<and> kva s (ps ! i) = q + i * 4096)"
proof (induction n arbitrary: q)
  case (Suc n)
  have "q \<in> kp_owned s" using Suc.prems(2) by auto
  then obtain pg where pg: "pg \<in> heap_pages s" "pg \<notin> free_pages (kp_arenas s)" "kva s pg = q" using owned_page [OF ok _ Suc.prems(1)] by blast
  have seen: "page_seen s pg" using kp_ok_D(4) [OF ok] pg(1) by (simp add: heap_pages_def)
  have "q + 4096 < 2 ^ 64" using page_seen_D(2) [OF seen] unfolding pg(3) by linarith
  then have w: "(q + 4096) mod 2 ^ 64 = q + 4096" by simp
  have r: "(q + 4096) mod 4096 = 0" "{q + 4096..<q + 4096 + n * 4096} \<subseteq> kp_owned s" using Suc.prems by auto
  from Suc.IH [OF r] obtain ps where ps: "kpage_list (q + 4096) n s = Some ps" "length ps = n"
    "\<forall>i<n. ps ! i \<in> heap_pages s - free_pages (kp_arenas s) \<and> kva s (ps ! i) = q + 4096 + i * 4096" by (elim exE conjE)
  have "kpage_list q (Suc n) s = Some (pg # ps)"
    using page_seen_D(3,4) [OF seen] unfolding pg(3) kpage_list.simps w ps(1) by simp
  moreover have "\<forall>i<Suc n. (pg # ps) ! i \<in> heap_pages s - free_pages (kp_arenas s) \<and> kva s ((pg # ps) ! i) = q + i * 4096"
  proof (intro allI impI)
    fix i assume "i < Suc n"
    then show "(pg # ps) ! i \<in> heap_pages s - free_pages (kp_arenas s) \<and> kva s ((pg # ps) ! i) = q + i * 4096"
      using ps(3) pg by (cases i) simp_all
  qed
  ultimately show ?case using ps(2) by (intro exI [of _ "pg # ps"]) simp
qed simp

lemma kp_free:
  assumes ok: "kp_ok s" and q: "q mod 4096 = 0" "{q..<q + n * 4096} \<subseteq> kp_owned s"
  shows "\<exists>s'. page_free q n s = Some s' \<and> kp_ok s' \<and> list_head_addr s' = list_head_addr s \<and> kp_owned s' = kp_owned s - {q..<q + n * 4096}"
proof -
  obtain ps where ps: "kpage_list q n s = Some ps" "length ps = n"
    "\<And>i. i < n \<Longrightarrow> ps ! i \<in> heap_pages s - free_pages (kp_arenas s) \<and> kva s (ps ! i) = q + i * 4096"
    using kpage_list_owned [OF ok q] by blast
  have sub: "set ps \<subseteq> heap_pages s - free_pages (kp_arenas s)"
  proof
    fix x assume "x \<in> set ps"
    then obtain i where "i < n" "x = ps ! i" using ps(2) by (metis in_set_conv_nth)
    then show "x \<in> heap_pages s - free_pages (kp_arenas s)" using ps(3) by blast
  qed
  have dist: "distinct ps"
  proof (unfold distinct_conv_nth, intro allI impI)
    fix i j assume "i < length ps" "j < length ps" "i \<noteq> j"
    then show "ps ! i \<noteq> ps ! j" using ps(2,3) by (metis add_left_cancel mult_cancel2 zero_neq_numeral)
  qed
  have all: "set ps \<subseteq> all_pages (kp_arenas s)" using sub by (auto simp: heap_pages_def)
  have "n = card (set ps)" using dist ps(2) by (simp add: distinct_card)
  also have "\<dots> \<le> card (all_pages (kp_arenas s))" by (rule card_mono [OF kp_ok_D(2) [OF ok] all])
  finally have n: "n mod 2 ^ 32 = n" using kp_ok_D(3) [OF ok] by simp
  define as where "as = fst (pmm_free ps (kp_arenas s))"
  have run: "page_free q n s = Some (with_arenas as s)"
    unfolding page_free_def pmm_free_kpages_def n ps(1) using q(1) by (simp add: as_def with_arenas_def split_beta)
  have g: "map geom as = map geom (kp_arenas s)" unfolding as_def by (rule pmm_free_geom)
  have e: "pmm_inv as" "free_pages as = free_pages (kp_arenas s) \<union> set ps"
    using pmm_free_effect [OF kp_ok_D(1) [OF ok] dist] all sub unfolding as_def by blast+
  have b: "(\<Union>pg\<in>set ps. page_bytes s pg) = {q..<q + n * 4096}"
  proof -
    have "page_bytes s (ps ! i) = {q + i * 4096..<q + i * 4096 + 4096}" if "i < n" for i using ps(3) [OF that] by (simp add: page_bytes_def)
    moreover have "set ps = (!) ps ` {..<n}" unfolding ps(2) [symmetric] set_conv_nth by blast
    ultimately show ?thesis unfolding pages_union [symmetric] by (simp add: image_image)
  qed
  have "kp_owned (with_arenas as s) = kp_owned s - (\<Union>pg\<in>set ps. page_bytes s pg)"
  proof -
    have "page_bytes s pg \<inter> page_bytes s pg' = {}" if "pg \<in> heap_pages s" "pg \<notin> set ps" "pg' \<in> set ps" for pg pg'
      using page_bytes_disjoint [OF ok that(1), of pg'] that sub by blast
    then show ?thesis unfolding kp_owned_def with_arenas_simps with_arenas_geom [OF g] e(2) using sub by blast
  qed
  moreover have "kp_ok (with_arenas as s)" using e sub kp_ok_D(9) [OF ok] by (intro kp_ok_with_arenas ok g) (auto simp: heap_pages_def)
  ultimately show ?thesis unfolding run b by simp
qed

lemma kp_owned_bounds:
  assumes ok: "kp_ok s"
  shows "kp_owned s \<subseteq> {1..<2 ^ 64 - 4096} \<and> list_head_addr s - 1 \<notin> kp_owned s"
proof
  show "kp_owned s \<subseteq> {1..<2 ^ 64 - 4096}"
  proof
    fix x assume "x \<in> kp_owned s"
    then obtain pg where pg: "pg \<in> heap_pages s" "x \<in> page_bytes s pg" unfolding kp_owned_def by blast
    have "page_seen s pg" "kva s pg \<noteq> 0" using kp_ok_D(4) [OF ok] pg(1) by (simp_all add: heap_pages_def)
    then show "x \<in> {1..<2 ^ 64 - 4096}" using page_seen_D(2) [of s pg] pg(2) unfolding page_bytes_def by simp
  qed
  show "list_head_addr s - 1 \<notin> kp_owned s"
  proof
    assume "list_head_addr s - 1 \<in> kp_owned s"
    then obtain pg where pg: "pg \<in> heap_pages s" "list_head_addr s - 1 \<in> page_bytes s pg" unfolding kp_owned_def by blast
    have "page_seen s pg" using kp_ok_D(4) [OF ok] pg(1) by (simp add: heap_pages_def)
    then have m: "kva s pg mod 4096 = 0" by (rule page_seen_D)
    have k: "kva s pg \<le> list_head_addr s - 1" "list_head_addr s - 1 < kva s pg + 4096" using pg(2) by (simp_all add: page_bytes_def)
    have "image_start s \<le> kva s pg"
    proof (rule ccontr)
      assume "\<not> image_start s \<le> kva s pg"
      moreover have "image_start s < kva s pg + 4096" using k(2) kp_ok_D(7) [OF ok] by linarith
      ultimately have "kva s pg = image_start s"
        using kp_ok_D(6) [OF ok] m aligned_pages [of "kva s pg" "image_start s" "image_start s"] by simp
      then show False using \<open>\<not> image_start s \<le> kva s pg\<close> by simp
    qed
    moreover have "kva s pg < image_end s" using k(1) kp_ok_D(7,8) [OF ok] by linarith
    ultimately show False using pg(1) by (simp add: heap_pages_def in_image_def)
  qed
qed

interpretation kh: page_provider kp_ok kp_owned list_head_addr page_alloc page_free
proof (unfold_locales, goal_cases)
  case (1 p n q p')
  then show ?case by (rule kp_alloc)
next
  case (2 p q n)
  then show ?case by (rule kp_free)
next
  case (3 p)
  then show ?case by (rule kp_owned_bounds)
qed

end
