(* ===== verification/Kheap.thy ===== *)
theory Kheap
  imports Kpages
begin

text \<open>
  The heap of the kernel on the kernel's pages: the laws of \<open>Heap\<close> for the page allocator of \<open>Kpages\<close>. The examples use eight pages, the first two of which are
  the image of the kernel with its translation tables.
\<close>

section \<open>An example\<close>

definition kmm_ex :: mm_state where
  "kmm_ex = \<lparr>arenas = [\<lparr>ar_flags = 1, ar_priority = 0, ar_base = 0x10000, ar_size = 0x8000, free_count = 6, page_array = 1,
       page_flags = [1, 1, 0, 0, 0, 0, 0, 0], free_list = [2, 3, 4, 5, 6, 7]\<rparr>],
     mmu_initial_mappings = [\<lparr>phys = 0x10000, virt = 0x10000, map_size = 0x8000, map_flags = 0\<rparr>],
     kmem = (\<lambda>_. 0)(0x11000 := 0x10003, 0x10000 := 0x401), base_vmid = 1, vmid_bits = 8, root_order = 0, root_level = 0, st2_log = []\<rparr>"

definition kp_ex :: kpages where
  "kp_ex = \<lparr>kp_mm = kmm_ex, spaces = \<lparr>kernel_aspace = \<lparr>tt_phys = 0x11000, tt_virt = 0x11000, as_flags = 1, as_base = 0x10000, as_size = 2 ^ 48\<rparr>,
       user_base = 0x1000000, user_size = 0xefffffe000000\<rparr>, cur_aspace = None, image_start = 0x10000, image_end = 0x12000, list_head_addr = 0x11ff8\<rparr>"

definition heap_ex :: "kpages heap" where
  "heap_ex = \<lparr>h_base = 0, h_len = 0, remaining = 0, low_watermark = 0, chunks = [], live = Map.empty, delayed = [], list_head = 0x11ff8,
     contents = (\<lambda>_. 0), pages = kp_ex\<rparr>"

lemma kmm_ex_simps:
  "kmem kmm_ex 0x11000 = 0x10003" "kmem kmm_ex 0x10000 = 0x401" "paddr_to_kvaddr kmm_ex 0x10000 = 0x10000"
  by (simp_all add: kmm_ex_def paddr_to_kvaddr_def)

lemma kmm_ex_query:
  assumes "v < 2 ^ 30"
  shows "query_loop 3 0x11000 v kmm_ex = Some (Inr (0x401, v))"
proof -
  have d: "v div 549755813888 = 0" "v div 1073741824 = 0" using assms by simp_all
  have "query_loop 2 0x10000 v kmm_ex = Some (Inr (0x401, v))"
    by (subst query_loop.simps) (simp add: index_shift_def d entry_def kmm_ex_simps)
  then show ?thesis by (subst query_loop.simps) (simp add: index_shift_def d entry_def kmm_ex_simps)
qed

lemma below_8: "i < 8 \<Longrightarrow> i \<in> {0, 1, 2, 3, 4, 5, 6, 7 :: nat}"
  by auto

lemma kmm_ex_kva: "i < 8 \<Longrightarrow> page_paddr kmm_ex (1, i) = of_nat (0x10000 + i * 0x1000) \<and> page_kva kmm_ex (1, i) = of_nat (0x10000 + i * 0x1000)"
  using below_8 [of i]
  by (auto simp: page_kva_def page_paddr_def vm_page_to_paddr_def kmm_ex_def PAGE_BELONGS_TO_ARENA_def PAGE_ADDRESS_FROM_ARENA_def page_count_def
      paddr_to_kvaddr_def)

lemma kmm_ex_pages: "all_pages (arenas kmm_ex) = Pair 1 ` {..<8}" "free_pages (arenas kmm_ex) = Pair 1 ` {2..<8}"
proof -
  show "all_pages (arenas kmm_ex) = Pair 1 ` {..<8}"
    by (auto simp: all_pages_def kmm_ex_def PAGE_BELONGS_TO_ARENA_def page_count_def)
  have "i < 8 \<and> page_is_free (hd (arenas kmm_ex)) i \<longleftrightarrow> 2 \<le> i \<and> i < 8" for i
    using below_8 [of i] by (auto simp: kmm_ex_def page_is_free_def)
  then show "free_pages (arenas kmm_ex) = Pair 1 ` {2..<8}"
    by (auto simp: free_pages_def kmm_ex_def page_count_def)
qed

lemma kmm_ex_pmm_inv: "pmm_inv (arenas kmm_ex)"
proof -
  have "i < 8 \<and> page_is_free (hd (arenas kmm_ex)) i \<longleftrightarrow> i \<in> {2, 3, 4, 5, 6, 7}" for i
    using below_8 [of i] by (auto simp: kmm_ex_def page_is_free_def)
  then have "set (free_list (hd (arenas kmm_ex))) = {i. i < 8 \<and> page_is_free (hd (arenas kmm_ex)) i}" by (auto simp: kmm_ex_def)
  then show ?thesis by (simp add: pmm_inv_def arena_ok_def kmm_ex_def page_count_def)
qed

lemma kp_ex_seen: "i < 8 \<Longrightarrow> page_seen kp_ex (1, i) \<and> kva kp_ex (1, i) = 0x10000 + i * 0x1000"
proof -
  assume i: "i < 8"
  have u: "unat (of_nat (0x10000 + i * 0x1000) :: u64) = 0x10000 + i * 0x1000" using i below_8 [of i] by auto
  have m: "kp_mm kp_ex = kmm_ex" by (simp add: kp_ex_def)
  have k: "kva kp_ex (1, i) = 0x10000 + i * 0x1000" unfolding m conjunct2 [OF kmm_ex_kva [OF i]] by (rule u)
  have v: "vaddr_to_paddr (spaces kp_ex) (cur_aspace kp_ex) (0x10000 + i * 0x1000) (kp_mm kp_ex) = Some (of_nat (0x10000 + i * 0x1000))"
    using i by (simp add: vaddr_to_paddr_def vaddr_to_aspace_def is_valid_vaddr_def arch_mmu_query_def kp_ex_def kmm_ex_query)
  have "paddr_to_vm_page (arenas kmm_ex) (0x10000 + i * 0x1000) = Some (1, i)"
    using i by (simp add: paddr_to_vm_page_def kmm_ex_def ADDRESS_IN_ARENA_def)
  then have "page_seen kp_ex (1, i)"
    using v i unfolding page_seen_def k unfolding m conjunct1 [OF kmm_ex_kva [OF i]] u by (simp del: of_nat_add of_nat_mult)
  then show ?thesis using k by simp
qed

lemma kp_ex_ok: "kp_ok kp_ex"
proof -
  have a: "kp_arenas kp_ex = arenas kmm_ex" by (simp add: kp_ex_def)
  have "in_one_piece kp_ex (hd (arenas kmm_ex))"
    using kp_ex_seen unfolding in_one_piece_def by (simp add: kmm_ex_def page_count_def)
  moreover have "\<forall>pg\<in>Pair 1 ` {2..<8}. \<not> in_image kp_ex pg" using kp_ex_seen by (auto simp: in_image_def kp_ex_def)
  ultimately show ?thesis
    unfolding kp_ok_def a kmm_ex_pages using kmm_ex_pmm_inv kp_ex_seen by (auto simp: kp_ex_def card_image inj_on_def kmm_ex_def)
qed


lemma kp_ex_page_alloc: "page_alloc 1 kp_ex = (0x12000, with_arenas (fst (pmm_alloc_page (arenas kmm_ex))) kp_ex)"
proof -
  have p: "pmm_alloc_page (arenas kmm_ex) = (fst (pmm_alloc_page (arenas kmm_ex)), Some (1, 2))"
    by (simp add: kmm_ex_def pmm_alloc_page_def pmm_alloc_pages_eq)
  have g: "map geom (fst (pmm_alloc_page (arenas kmm_ex))) = map geom (arenas kmm_ex)"
    using pmm_alloc_page_taken [OF kmm_ex_pmm_inv p] by (simp add: taken_def)
  have m: "kp_mm kp_ex = kmm_ex" by (simp add: kp_ex_def)
  note w = with_arenas_geom [of _ kp_ex, unfolded m, OF g]
  have "unat (page_kva kmm_ex (1, 2)) = 0x12000" using kp_ex_seen [of 2] by (simp add: m)
  then have k: "unat (page_kva (kp_mm (with_arenas (fst (pmm_alloc_page (arenas kmm_ex))) kp_ex)) (1, 2)) = 0x12000" unfolding w(2) .
  have "page_alloc 1 kp_ex = (unat (page_kva (kp_mm (with_arenas (fst (pmm_alloc_page (arenas kmm_ex))) kp_ex)) (1, 2)),
      with_arenas (fst (pmm_alloc_page (arenas kmm_ex))) kp_ex)"
    unfolding page_alloc_def pmm_alloc_kpages_def m by (subst p) (simp add: with_arenas_def page_kva_def m paddr_to_kvaddr_def Let_def)
  then show ?thesis unfolding k .
qed

definition heap_ex1 :: "kpages heap" where
  "heap_ex1 = heap_ex\<lparr>h_base := 0x12000, h_len := 4096, remaining := 4096, chunks := [(0x12000, 4096)], pages := snd (page_alloc 1 kp_ex)\<rparr>"

lemma heap_ex_init: "HEAP_INIT page_alloc heap_ex = Some heap_ex1"
proof -
  have "pages heap_ex = kp_ex" by (simp add: heap_ex_def)
  then show ?thesis
    unfolding HEAP_INIT_def heap_ex1_def
    by (simp only: kp_ex_page_alloc)
      (simp add: miniheap_init_def heap_create_free_chunk_def heap_insert_free_chunk_def heap_ex_def chunk_end_def)
qed

definition heap_ex2 :: "kpages heap" where
  "heap_ex2 = heap_ex1\<lparr>chunks := [(0x12080, 3968)], remaining := 3968, live := [0x12018 \<mapsto> (0x12000, 128)]\<rparr>"

definition heap_ex3 :: "kpages heap" where
  "heap_ex3 = heap_ex1\<lparr>chunks := [(0x12100, 3840)], remaining := 3840, live := [0x12018 \<mapsto> (0x12000, 128), 0x12098 \<mapsto> (0x12080, 128)]\<rparr>"

lemma heap_ex_malloc: "malloc page_alloc 100 heap_ex1 = Some (0x12018, heap_ex2)" "malloc page_alloc 100 heap_ex2 = Some (0x12098, heap_ex3)"
  by (simp_all add: malloc_def after_delayed_def heap_ex1_def heap_ex2_def heap_ex3_def heap_ex_def miniheap_alloc_def alloc_alignment_def alloc_size_def
      ROUNDUP64_def alloc_once_def take_chunk_def place_def heap_create_free_chunk_def)

lemma heap_ex_ok: "heap_ok kp_ok kp_owned list_head_addr heap_ex1"
proof -
  have "pages heap_ex = kp_ex" "list_head heap_ex = list_head_addr kp_ex" "live heap_ex = Map.empty" by (simp_all add: heap_ex_def kp_ex_def)
  then show ?thesis using kh.init_hok [of heap_ex] kp_ex_ok kp_ex_page_alloc heap_ex_init by simp
qed

section \<open>Properties\<close>



text \<open>C14. A request of less than 16 TB is answered: either the block is inside a chunk that shares no byte with any block in use or with the free list, and nothing else changes; or the result is NULL
  and nothing changes, and then no free chunk is big enough and the page allocator has no run of pages for the request.\<close>

theorem malloc_correct:
  assumes "heap_ok kp_ok kp_owned list_head_addr s" "delayed s = []" "n + 8192 < 2 ^ 44"
  shows "\<exists>ptr s'. malloc page_alloc n s = Some (ptr, s') \<and> heap_ok kp_ok kp_owned list_head_addr s' \<and> contents s' = contents s \<and>
    (if ptr = 0
     then live s' = live s \<and> chunks s' = chunks s \<and> (\<forall>c\<in>set (chunks s). snd c < ROUNDUP (n + 24) 8) \<and>
       fst (page_alloc (ROUNDUP (ROUNDUP (n + 24) 8) 4096 div 4096) (pages s)) = 0
     else \<exists>c. live s' = (live s)(ptr \<mapsto> c) \<and> live s ptr = None \<and> {ptr..<ptr + n} \<subseteq> region c \<and> {ptr..<ptr + n} \<inter> covers (chunks s') = {} \<and>
       (\<forall>p d. live s p = Some d \<longrightarrow> region c \<inter> region d = {}))"
proof -
  obtain ptr s' where r: "malloc page_alloc n s = Some (ptr, s')" "heap_ok kp_ok kp_owned list_head_addr s'"
    "if ptr = 0 then live s' = live s \<and> chunks s' = chunks s \<and> contents s' = contents s \<and> delayed s' = delayed s \<and>
       (\<forall>c\<in>set (chunks s). snd c < ROUNDUP (n + 24) 8) \<and> fst (page_alloc (ROUNDUP (ROUNDUP (n + 24) 8) 4096 div 4096) (pages s)) = 0
     else got_block n 0 s ptr s'" using kh.malloc_ok [OF assms] by (elim exE conjE) (rule that)
  show ?thesis
  proof (cases "ptr = 0")
    case True
    then show ?thesis using r by (intro exI [of _ ptr] exI [of _ s']) simp
  next
    case False
    then have g: "got_block n 0 s ptr s'" using r(3) by simp
    then have "contents s' = contents s" unfolding got_block_def by (elim exE conjE)
    then show ?thesis using False r(1,2) kh.got_block_apart [OF r(2) g] by (intro exI [of _ ptr] exI [of _ s']) (simp, blast)
  qed
qed

lemma malloc_correct_witness:
  "\<exists>ptr s'. malloc page_alloc 100 heap_ex1 = Some (ptr, s') \<and> contents s' = contents heap_ex1 \<and> ptr = 0x12018 \<and> (\<exists>c. live s' = (live heap_ex1)(ptr \<mapsto> c))"
proof -
  have "delayed heap_ex1 = []" "100 + 8192 < (2 :: nat) ^ 44" by (simp_all add: heap_ex1_def heap_ex_def)
  from malloc_correct [OF heap_ex_ok this] show ?thesis unfolding heap_ex_malloc(1) by auto
qed



lemma heap_ex_ok2: "heap_ok kp_ok kp_owned list_head_addr heap_ex2"
proof -
  have "delayed heap_ex1 = []" "100 + 8192 < (2 :: nat) ^ 44" by (simp_all add: heap_ex1_def heap_ex_def)
  from kh.malloc_ok [OF heap_ex_ok this] show ?thesis unfolding heap_ex_malloc(1) by auto
qed




text \<open>A request of no bytes, or of so many that the size of the structure in front wraps the sum around, gets a block with a chunk of 24 bytes, which holds the structure and no byte more. Freeing that
  block fails the assertion that a free chunk is longer than 24 bytes, also when the freeing is delayed.\<close>

theorem tiny_block_not_freed:
  assumes h: "heap_ok kp_ok kp_owned list_head_addr s" and d: "delayed s = []" and n: "n = 0 \<or> 2 ^ 64 - 24 \<le> n \<and> n < 2 ^ 64"
    and c: "chunks s = c # cs" "48 < snd c"
  shows "\<exists>s'. malloc page_alloc n s = Some (fst c + 24, s') \<and> live s' (fst c + 24) = Some (fst c, 24) \<and> free (fst c + 24) s' = None \<and>
    after_delayed (\<lambda>s. Some s) (heap_delayed_free (fst c + 24) s') = None"
proof -
  obtain a l where al: "c = (a, l)" by (cases c)
  have ck: "chunk_ok (a, l)" using h c(1) unfolding heap_ok_def heap_inv_def al by simp
  have sz: "alloc_size n 0 = 24"
  proof -
    have "(n + 24) mod 2 ^ 64 \<le> 24"
    proof (cases "n = 0")
      case False
      then have "n + 24 = (n + 24 - 2 ^ 64) + 2 ^ 64" "n + 24 - 2 ^ 64 < 24" using n by auto
      then have "(n + 24) mod 2 ^ 64 = (n + 24 - 2 ^ 64) mod 2 ^ 64" by (metis mod_add_self2)
      also have "\<dots> \<le> n + 24 - 2 ^ 64" by (rule mod_less_eq_dividend)
      finally show ?thesis using \<open>n + 24 - 2 ^ 64 < 24\<close> by simp
    qed simp
    then have "(if (n + 24) mod 2 ^ 64 < 24 then 24 else (n + 24) mod 2 ^ 64) = 24" by simp
    then show ?thesis unfolding alloc_size_def Let_def by (simp add: ROUNDUP64_def)
  qed
  have b: "a + 24 < 2 ^ 64" "l mod 8 = 0" "(l - 24) mod 8 = 0" using ck c(2) by (auto simp: chunk_ok_def al mod_eq_0_iff_dvd dvd_diff_nat)
  have fit: "first_fit 24 (chunks s) = Some (Some ([], (a, l), cs))" using b(2) c by (simp add: al)
  have new: "heap_create_free_chunk (a + 24) (l - 24) = Some (a + 24, l - 24)" using b(3) c by (simp add: heap_create_free_chunk_def al)
  have w: "(a + 24) mod 2 ^ 64 = a + 24" "24 + 24 < l" using b(1) c by (simp_all add: al)
  let ?rem = "(remaining s + 2 ^ 64 - 24) mod 2 ^ 64"
  define s' where "s' = s\<lparr>chunks := (a + 24, l - 24) # cs, live := (live s)(a + 24 \<mapsto> (a, 24)), remaining := ?rem,
    low_watermark := (if ?rem < low_watermark s then ?rem else low_watermark s)\<rparr>"
  have "take_chunk 24 0 ([], (a, l), cs) s = Some (a + 24, s')"
    using w(2) unfolding take_chunk_def prod.case fst_conv snd_conv w(1) new place_def Let_def s'_def by simp
  then have s': "alloc_once 24 0 s = Some (a + 24, s')" "live s' = (live s)(a + 24 \<mapsto> (a, 24))" "delayed s' = delayed s"
    unfolding alloc_once_def fit s'_def by simp_all
  have m: "malloc page_alloc n s = Some (a + 24, s')"
    using s'(1) d sz by (simp add: malloc_def after_delayed_def miniheap_alloc_def alloc_alignment_def)
  have f: "free (a + 24) t = None" if "live t = live s'" for t :: "kpages heap"
    using s'(2) that by (simp add: free_def miniheap_free_def heap_create_free_chunk_def)
  have dl: "after_delayed (\<lambda>s. Some s) (heap_delayed_free (a + 24) s') = None"
  proof -
    have "delayed s' = []" using s'(3) d by simp
    then show ?thesis
      using f [of "(heap_delayed_free (a + 24) s')\<lparr>delayed := []\<rparr>"]
      by (simp add: after_delayed_def heap_delayed_free_def heap_free_delayed_list_def free_def)
  qed
  show ?thesis using m s'(2) f [of s'] dl by (simp add: al)
qed

lemma tiny_block_not_freed_witness: "\<exists>s'. malloc page_alloc 0xfffffffffffffff0 heap_ex1 = Some (0x12018, s') \<and> free 0x12018 s' = None"
proof -
  have h: "delayed heap_ex1 = []" "(0xfffffffffffffff0 :: nat) = 0 \<or> 2 ^ 64 - 24 \<le> (0xfffffffffffffff0 :: nat) \<and> (0xfffffffffffffff0 :: nat) < 2 ^ 64"
    "chunks heap_ex1 = [(0x12000, 4096)]" "48 < snd (0x12000 :: nat, 4096 :: nat)" by (simp_all add: heap_ex1_def heap_ex_def)
  from tiny_block_not_freed [OF heap_ex_ok h] show ?thesis by auto
qed

end
