(* ===== verification/Mmu_Correct.thy ===== *)
theory Mmu_Correct
  imports Mmu_Map Kheap
begin

text \<open>
  What \<^verbatim>\<open>arch_mmu_map\<close> and \<^verbatim>\<open>arch_mmu_unmap\<close> do, as \<^verbatim>\<open>arch_mmu_query\<close> sees it.
\<close>

section \<open>Queries\<close>

lemma query_leaf:
  assumes "table_inv 3 f m R" "tt_virt aspace = page_kva m f" "tt_virt aspace \<noteq> 0" "is_valid_vaddr aspace v" "v < 2 ^ 48"
  shows "arch_mmu_query aspace v want m =
    (case table_leaf m 3 (page_kva m f) v of
       None \<Rightarrow> Some (Inl ERR_NOT_FOUND)
     | Some (e, l) \<Rightarrow>
         if want then map_option (\<lambda>flags. Inr (out e + of_nat (v mod 2 ^ index_shift l), flags)) (pte_to_mmu_flags e)
         else Some (Inr (out e + of_nat (v mod 2 ^ index_shift l), 0)))"
proof -
  have "v mod 2 ^ index_shift (Suc 3) = v" using assms(5) by (simp add: index_shift_def)
  then have "query_loop 3 (page_kva m f) v m =
      (case table_leaf m 3 (page_kva m f) v of None \<Rightarrow> Some (Inl ERR_NOT_FOUND) | Some (e, l) \<Rightarrow> Some (Inr (e, v mod 2 ^ index_shift l)))"
    using query_loop_leaf [OF _ assms(1), of v] by simp
  moreover have "v div 2 ^ index_shift 3 mod 2 ^ 32 < 512" using assms(5) by (simp add: index_shift_def div_less_iff_less_mult)
  ultimately show ?thesis using assms(2-4) by (auto simp: arch_mmu_query_def Let_def split: option.splits)
qed

lemma and_mask_12:
  assumes "p AND mask (index_shift l) = (0 :: u64)"
  shows "p AND 0xFFF = 0"
proof -
  have "mask (index_shift l) AND mask 12 = (mask 12 :: u64)" by (rule bit_word_eqI) (auto simp: bit_simps index_shift_def)
  moreover have "(0xFFF :: u64) = mask 12" by (simp add: mask_eq_exp_minus_1)
  ultimately have "(0xFFF :: u64) = mask (index_shift l) AND mask 12" by simp
  then have "p AND 0xFFF = (p AND mask (index_shift l)) AND mask 12" by (simp only: and.assoc)
  then show ?thesis using assms by simp
qed

lemma below_48: "unat p < 2 ^ 48 \<Longrightarrow> p AND NOT MMU_OA_RANGE_MASK = (0 :: u64)"
proof -
  assume "unat p < 2 ^ 48"
  then have "take_bit 48 (unat p) = unat p" by (simp add: take_bit_nat_eq_self)
  then have "unat (take_bit 48 p) = unat p" by (simp only: unsigned_take_bit_eq)
  then have "take_bit 48 p = p" by (rule unsigned_word_eqI)
  then have "p AND mask 48 = p" by (simp only: take_bit_eq_mask)
  moreover have "(0xFFFFFFFFFFFF :: u64) = mask 48" by (simp add: mask_eq_exp_minus_1)
  ultimately show ?thesis by (metis and.assoc bit.conj_cancel_right and_zero_eq)
qed

text \<open>A leaf of the new mapping gives the physical address and the flags.\<close>

lemma maps_to_query:
  assumes m: "maps_to p attrs a sz r v" and v: "a \<le> v" "v < a + sz" and p: "unat p + sz \<le> 2 ^ 48" and at: "out attrs = 0"
  obtains e l where "r = Some (e, l)" "out e + of_nat (v mod 2 ^ index_shift l) = p + of_nat (v - a)" "pte_to_mmu_flags e = pte_to_mmu_flags attrs"
proof -
  obtain l w where w: "w = v div 2 ^ index_shift l * 2 ^ index_shift l" "l \<le> 2" "a \<le> w" "w + 2 ^ index_shift l \<le> a + sz"
    "(p + of_nat (w - a)) AND mask (index_shift l) = 0" "r = Some (new_entry (p + of_nat (w - a)) attrs l, l)" using m unfolding maps_to_def by blast
  let ?q = "p + of_nat (w - a)"
  have wv: "w + v mod 2 ^ index_shift l = v" unfolding w(1) by (rule div_mult_mod_eq)
  have "unat p + (w - a) < 2 ^ 48" using p w(3) v wv by linarith
  moreover have "unat ?q = (unat p + (w - a)) mod 2 ^ 64" by (simp add: unat_word_ariths unat_of_nat mod_simps)
  ultimately have "unat ?q < 2 ^ 48" by simp
  then have q: "?q AND 0xFFF = 0" "?q AND NOT MMU_OA_RANGE_MASK = 0" using and_mask_12 [OF w(5)] below_48 by blast+
  have o: "out (new_entry ?q attrs l) = ?q" by (rule new_entry_out [OF q at])
  have "(w - a) + v mod 2 ^ index_shift l = v - a" using wv w(3) by linarith
  then have "?q + of_nat (v mod 2 ^ index_shift l) = p + of_nat (v - a)" by (simp only: add.assoc of_nat_add [symmetric])
  moreover have "out ?q = ?q" by (rule out_page [OF q])
  ultimately show thesis using that [OF w(6)] o new_entry_flags [of ?q attrs l] by simp
qed

section \<open>Mapping\<close>

lemma out_of_tables_iff: "out_of_tables v sz \<longleftrightarrow> v + sz > 2 ^ 48"
proof (cases "sz \<le> 2 ^ 48")
  case True
  then have "(2 ^ 48 + 2 ^ 64 - sz) mod 2 ^ 64 = (2 ^ 48 - sz) mod 2 ^ 64" using mod_add_self2 [of "2 ^ 48 - sz" "2 ^ 64 :: nat"] by simp
  moreover have "(2 ^ 48 - sz) mod 2 ^ 64 = 2 ^ 48 - sz" by (rule mod_less) (rule le_less_trans [OF diff_le_self], simp)
  ultimately show ?thesis using True by (auto simp: out_of_tables_def)
qed (auto simp: out_of_tables_def)

lemma map_pt_outcome:
  assumes "table_inv 3 f (mm s) R" "flags AND 3 \<noteq> 3" "vaddr mod 4096 = 0" "paddr AND 0xFFF = 0" "vaddr + count * 4096 \<le> 2 ^ 48"
  shows "\<exists>ret s1. arm64_mmu_map_pt 3 vaddr vaddr paddr (count * 4096) (mmu_flags_to_pte_attr flags) (page_kva (mm s) f) global s = Some (ret, s1) \<and>
    map_outcome 3 f (mm s) (mm s1) R paddr (mmu_flags_to_pte_attr flags) vaddr (count * 4096) (ret = 0)"
proof -
  have al: "page_aligned vaddr paddr (count * 4096)" using assms by (simp add: page_aligned_def)
  then show ?thesis
    using map_loop_ok [OF assms(1) pte_attr_bits(1) [OF assms(2)], of vaddr "count * 4096" paddr] assms(5)
    by (simp add: arm64_mmu_map_pt_def index_shift_def)
qed

lemma table_step_query:
  assumes "table_step 3 f m m' R R'" "tt_virt aspace = page_kva m f" "tt_virt aspace \<noteq> 0" "is_valid_vaddr aspace v" "v < 2 ^ 48"
  shows "arch_mmu_query aspace v want m' =
    (case table_leaf m' 3 (page_kva m f) v of
       None \<Rightarrow> Some (Inl ERR_NOT_FOUND)
     | Some (e, l) \<Rightarrow>
         if want then map_option (\<lambda>flags. Inr (out e + of_nat (v mod 2 ^ index_shift l), flags)) (pte_to_mmu_flags e)
         else Some (Inr (out e + of_nat (v mod 2 ^ index_shift l), 0)))"
proof -
  have "table_inv 3 f m' R'" and fr: "same_frame m m'" using assms(1) by (simp_all add: table_step_def)
  then show ?thesis using query_leaf [of f m' R' aspace v want] assms(2-5) by (simp add: frame_eqs [OF fr])
qed

text \<open>
  C3. Mapping is all or nothing: on success every address of the range, which was not mapped before, translates to the physical memory asked for, with the flags asked for, and every other
  address as before; on any failure all addresses translate as before. The tables stay well formed, no page of another owner is written, and every page is free or one of the tables, as before.
\<close>

theorem arch_mmu_map_correct:
  assumes "table_inv 3 f (mm s) R" "tt_virt aspace = page_kva (mm s) f" "is_valid_vaddr aspace vaddr" "vaddr mod 4096 = 0" "paddr AND 0xFFF = 0"
    "unat paddr + count * 4096 \<le> 2 ^ 48" "flags AND 3 \<noteq> 3"
  shows "\<exists>ret s' R'. arch_mmu_map aspace vaddr paddr count flags s = Some (ret, s') \<and> table_step 3 f (mm s) (mm s') R R' \<and>
    (\<forall>v want. v < 2 ^ 48 \<longrightarrow> is_valid_vaddr aspace v \<longrightarrow>
       (if ret = 0 \<and> v \<in> {vaddr..<vaddr + count * 4096}
        then arch_mmu_query aspace v want (mm s) = Some (Inl ERR_NOT_FOUND) \<and>
             arch_mmu_query aspace v want (mm s') = Some (Inr (paddr + of_nat (v - vaddr), if want then flags AND 63 else 0))
        else arch_mmu_query aspace v want (mm s') = arch_mmu_query aspace v want (mm s)))"
proof -
  let ?sz = "count * 4096" and ?attrs = "mmu_flags_to_pte_attr flags"
  have kv: "page_kva (mm s) f \<noteq> 0" using table_invD(2,6) [OF assms(1)] by (auto simp: kva_ok_def)
  have t0: "tt_virt aspace \<noteq> 0" using kv assms(2) by simp
  note refl = table_step_refl [OF assms(1)]
  consider "count = 0" | "count \<noteq> 0" "vaddr + ?sz > 2 ^ 48" | "count \<noteq> 0" "vaddr + ?sz \<le> 2 ^ 48" by linarith
  then show ?thesis
  proof cases
    case 1
    then have "arch_mmu_map aspace vaddr paddr count flags s = Some (0, s)" using kv assms(2-5) by (simp add: arch_mmu_map_def)
    then show ?thesis using refl 1 by (intro exI [of _ 0] exI [of _ s] exI [of _ R]) simp
  next
    case 2
    then have "arch_mmu_map aspace vaddr paddr count flags s = Some (ERR_INVALID_ARGS, s)"
      using kv assms(2-5) by (simp add: arch_mmu_map_def arm64_mmu_map_def out_of_tables_iff)
    then show ?thesis using refl by (intro exI [of _ ERR_INVALID_ARGS] exI [of _ s] exI [of _ R]) simp
  next
    case 3
    obtain ret s1 where s1: "arm64_mmu_map_pt 3 vaddr vaddr paddr ?sz ?attrs (page_kva (mm s) f) (bit (as_flags aspace) ARCH_ASPACE_FLAG_KERNEL) s = Some (ret, s1)"
      "map_outcome 3 f (mm s) (mm s1) R paddr ?attrs vaddr ?sz (ret = 0)" using map_pt_outcome [OF assms(1,7,4,5) 3(2)] by blast
    have run: "arch_mmu_map aspace vaddr paddr count flags s = Some (ret, s1)"
      using 3 kv assms(2-5) s1(1) by (simp add: arch_mmu_map_def arm64_mmu_map_def out_of_tables_iff)
    obtain R1 where R1: "if ret = 0 then maps 3 f (mm s) (mm s1) R R1 paddr ?attrs vaddr ?sz else keeps 3 f (mm s) (mm s1) R R1"
      using s1(2) unfolding map_outcome_def by blast
    have st: "table_step 3 f (mm s) (mm s1) R R1" using R1 by (auto simp: maps_def keeps_def split: if_splits)
    have "if ret = 0 \<and> v \<in> {vaddr..<vaddr + ?sz}
        then arch_mmu_query aspace v want (mm s) = Some (Inl ERR_NOT_FOUND) \<and>
             arch_mmu_query aspace v want (mm s1) = Some (Inr (paddr + of_nat (v - vaddr), if want then flags AND 63 else 0))
        else arch_mmu_query aspace v want (mm s1) = arch_mmu_query aspace v want (mm s)"
      if v: "v < 2 ^ 48" "is_valid_vaddr aspace v" for v want
    proof -
      have b: "(0 :: nat) mod 2 ^ index_shift (Suc 3) = 0" "v \<in> {0..<0 + 2 ^ index_shift (Suc 3)}" using v(1) by (simp_all add: index_shift_def)
      note q = table_step_query [OF refl assms(2) t0 v(2,1), of want] and q1 = table_step_query [OF st assms(2) t0 v(2,1), of want]
      show ?thesis
      proof (cases "ret = 0 \<and> v \<in> {vaddr..<vaddr + ?sz}")
        case True
        then have mp: "maps 3 f (mm s) (mm s1) R R1 paddr ?attrs vaddr ?sz" and range: "v \<in> {0 + vaddr..<0 + vaddr + ?sz}" using R1 by simp_all
        note l = maps_leaf(1,2) [OF mp b range]
        have "vaddr \<le> v" "v < vaddr + ?sz" using range by simp_all
        from maps_to_query [OF l(2) [unfolded add_0] this assms(6) pte_attr_bits(2) [OF assms(7)]]
        obtain e l' where e: "table_leaf (mm s1) 3 (page_kva (mm s) f) v = Some (e, l')" "out e + of_nat (v mod 2 ^ index_shift l') = paddr + of_nat (v - vaddr)"
          "pte_to_mmu_flags e = pte_to_mmu_flags ?attrs" .
        have "arch_mmu_query aspace v want (mm s1) = Some (Inr (paddr + of_nat (v - vaddr), if want then flags AND 63 else 0))"
          unfolding q1 e(1) by (simp add: e(2,3) flags_kept [OF assms(7)])
        moreover have "arch_mmu_query aspace v want (mm s) = Some (Inl ERR_NOT_FOUND)" unfolding q l(1) by simp
        ultimately show ?thesis unfolding if_P [OF True] by blast
      next
        case False
        have "table_leaf (mm s1) 3 (page_kva (mm s) f) v = table_leaf (mm s) 3 (page_kva (mm s) f) v"
        proof (cases "ret = 0")
          case True
          then show ?thesis using maps_leaf(3) [of 3 f "mm s" "mm s1" R R1, OF _ b] R1 False by simp
        next
          case False
          then show ?thesis using keeps_leaf [of 3 f "mm s" "mm s1" R R1, OF _ b] R1 by simp
        qed
        then have "arch_mmu_query aspace v want (mm s1) = arch_mmu_query aspace v want (mm s)" unfolding q q1 by simp
        then show ?thesis using False by (simp only: if_False)
      qed
    qed
    then show ?thesis using run st by blast
  qed
qed

section \<open>Unmapping\<close>



section \<open>An example\<close>

lemma kmm_ex_found: "pages_found kmm_ex"
proof -
  have "paddr_to_vm_page (arenas kmm_ex) (unat (page_paddr kmm_ex (1, i))) = Some (1, i)" if i: "i < 8" for i
    using below_8 [OF i] unfolding conjunct1 [OF kmm_ex_kva [OF i]] by (auto simp: paddr_to_vm_page_def kmm_ex_def ADDRESS_IN_ARENA_def)
  then show ?thesis by (auto simp: pages_found_def kmm_ex_pages)
qed

lemma kmm_ex_kva_ok: "kva_ok kmm_ex"
proof -
  have a: "\<not> (in_page (page_kva kmm_ex (1, i)) x \<and> in_page (page_kva kmm_ex (1, j)) x)" if "i < 8" "j < 8" "i \<noteq> j" for i j x
  proof
    assume p: "in_page (page_kva kmm_ex (1, i)) x \<and> in_page (page_kva kmm_ex (1, j)) x"
    have k: "unat (page_kva kmm_ex (1, i)) = 0x10000 + i * 0x1000" if "i < 8" for i
      using conjunct2 [OF kmm_ex_kva [OF that]] below_8 [OF that] by auto
    have in_iff: "unat (page_kva kmm_ex (1, i)) \<le> unat x \<and> unat x < unat (page_kva kmm_ex (1, i)) + 0x1000" if "i < 8" "in_page (page_kva kmm_ex (1, i)) x" for i
      using that(2) k [OF that(1)] that(1) by (auto simp: in_page_def word_less_nat_alt unat_sub_if_size word_size split: if_splits)
    show False using in_iff [OF that(1)] in_iff [OF that(2)] p k [OF that(1)] k [OF that(2)] that(3) by auto
  qed
  have "page_paddr kmm_ex (1, i) AND 0xFFF = 0 \<and> page_paddr kmm_ex (1, i) AND NOT MMU_OA_RANGE_MASK = 0 \<and> page_paddr kmm_ex (1, i) \<noteq> 0 \<and> page_kva kmm_ex (1, i) \<noteq> 0"
    if i: "i < 8" for i
    using kmm_ex_kva [OF i] below_8 [OF i] by auto
  then show ?thesis using a by (auto simp: kva_ok_def kmm_ex_pages)
qed

definition tables_ex :: "nat \<Rightarrow> vm_page set" where
  "tables_ex i = (if i = 0 then {(1, 0)} else {})"

lemma kmm_ex_table: "table_inv 3 (1, 1) kmm_ex tables_ex"
proof -
  have p: "page_kva kmm_ex (1, 0) = 0x10000" "page_kva kmm_ex (1, 1) = 0x11000" "page_paddr kmm_ex (1, 0) = 0x10000" using kmm_ex_kva [of 0] kmm_ex_kva [of 1] by simp_all
  have k: "kmem kmm_ex x = (if unat x = 0x11000 then 0x10003 else if unat x = 0x10000 then 0x401 else 0)" for x
    using word_unat_eq_iff [of x "0x11000"] word_unat_eq_iff [of x "0x10000"] by (simp add: kmm_ex_def)
  have u: "unat (entry w i) = unat w + 8 * i" if "i < 512" "unat w < 0x20000" for w i
    using that by (simp add: entry_def unat_word_ariths unat_of_nat)
  have k0: "kmem kmm_ex (entry 0x10000 i) = (if i = 0 then 0x401 else 0)" if "i < 512" for i unfolding k using that u [of i "0x10000"] by simp
  have k1: "kmem kmm_ex (entry 0x11000 i) = (if i = 0 then 0x10003 else 0)" if "i < 512" for i unfolding k using that u [of i "0x11000"] by simp
  have "table_ok (entry_ok kmm_ex 2) kmm_ex (1, 0) (\<lambda>_. {})"
    using k0 entry_ok_leaf [of _ 2] by (simp add: table_ok_def p kmm_ex_pages)
  then have "\<exists>f R. page_paddr kmm_ex f = out 0x10003 \<and> table_ok (entry_ok kmm_ex 2) kmm_ex f R \<and> {(1, 0)} = table_pages f R"
    by (intro exI [of _ "(1, 0)"] exI [of _ "\<lambda>_. {}"]) (simp add: p table_pages_def)
  then have "entry_ok kmm_ex (Suc 2) 0x10003 {(1, 0)}" by (simp only: entry_ok.simps) simp
  then have e: "entry_ok kmm_ex 3 0x10003 {(1, 0)}" by (simp add: numeral_3_eq_3)
  have "table_ok (entry_ok kmm_ex 3) kmm_ex (1, 1) tables_ex"
    using k1 e entry_ok_leaf [of 0 3] by (auto simp: table_ok_def p [unfolded One_nat_def] p kmm_ex_pages tables_ex_def)
  moreover have "table_pages (1, 1) tables_ex \<inter> free_pages (arenas kmm_ex) = {}" by (auto simp: table_pages_def tables_ex_def kmm_ex_pages)
  ultimately show ?thesis using kmm_ex_pmm_inv kmm_ex_kva_ok kmm_ex_found by (simp add: table_inv_def)
qed

definition kspace_ex :: arch_aspace where
  "kspace_ex = kernel_aspace (spaces kp_ex)"

definition mmu_ex :: mmu_state where
  "mmu_ex = \<lparr>mm = kmm_ex, tlbi = []\<rparr>"

lemma kspace_ex_simps: "tt_virt kspace_ex = page_kva kmm_ex (1, 1)" "as_flags kspace_ex = 1" "is_valid_vaddr kspace_ex v \<longleftrightarrow> 0x10000 \<le> v \<and> v \<le> 0x10000 + 2 ^ 48 - 1"
  using kmm_ex_kva [of 1] by (simp_all add: kspace_ex_def kp_ex_def is_valid_vaddr_def)

lemma mmu_ex_leaf:
  assumes "v < 2 ^ 30"
  shows "table_leaf kmm_ex 3 (page_kva kmm_ex (1, 1)) v = Some (0x401, 2)"
proof -
  have k: "page_kva kmm_ex (1, 1) = 0x11000" using kmm_ex_kva [of 1] by simp
  have s: "slot_of 3 v = 0" "slot_of 2 v = 0" using assms by (simp_all add: slot_of_def index_shift_def)
  have "leaf kmm_ex 2 0x401 v = Some (0x401, 2)" by (simp add: numeral_2_eq_2)
  then have "table_leaf kmm_ex 2 0x10000 v = Some (0x401, 2)" by (simp add: table_leaf_def s entry_def kmm_ex_simps)
  then have "leaf kmm_ex (Suc 2) 0x10003 v = Some (0x401, 2)" using leaf_Suc_table [of "0x10003" kmm_ex 2 v] by (simp add: kmm_ex_simps)
  then show ?thesis unfolding table_leaf_def k s by (simp add: entry_def kmm_ex_simps numeral_3_eq_3)
qed


lemma mmu_ex_map: "\<exists>s1. arch_mmu_map kspace_ex 0x40000000 0x40000000 0x40000 4 mmu_ex = Some (0, s1)"
proof -
  define at where "at = mmu_flags_to_pte_attr 4"
  define s1 where s1: "s1 = set_entry 0x10000 (Suc 0) (0x40000000 OR at OR 1) mmu_ex"
  have k: "page_kva kmm_ex (1, 1) = 0x11000" using kmm_ex_kva [of 1] by simp
  have g: "arm64_mmu_get_page_table 0 0x11000 mmu_ex = Some (0x10000, mmu_ex)"
    by (simp add: arm64_mmu_get_page_table_def get_entry_def entry_def mmu_ex_def kmm_ex_simps Let_def)
  have e: "get_entry 0x10000 1 mmu_ex = 0" by (simp add: get_entry_def entry_def mmu_ex_def kmm_ex_def)
  have m: "(mask 30 :: u64) = 0x3FFFFFFF" "(mask 39 :: u64) = 0x7FFFFFFFFF" by (simp_all add: mask_eq_exp_minus_1)
  have z: "arm64_mmu_map_loop n a b c d e f 0 h i j l = Some (0, l)" for n a b c d e f h i j l by (subst arm64_mmu_map_loop.simps) simp
  have "map_chunk 2 v 0x40000000 0x40000000 0x40000000 at 0x10000 gl mmu_ex = Some (True, s1)" for v gl
    by (simp add: map_chunk_def index_shift_def m e [unfolded One_nat_def] s1)
  then have 2: "arm64_mmu_map_loop 2 v a b w 0x40000000 0x40000000 0x40000000 at 0x10000 gl mmu_ex = Some (0, s1)" for v a b w gl
    using map_loop_step [of "0x40000000" "0x40000000" 2 "0x40000000" v a b w "0x40000000" at "0x10000" gl mmu_ex] by (simp add: index_shift_def z)
  have "map_chunk 3 v 0x40000000 0x40000000 0x40000000 at 0x11000 gl mmu_ex = Some (True, s1)" for v gl
    by (simp add: map_chunk_def index_shift_def m g page_aligned_def 2)
  then have "arm64_mmu_map_loop 3 v a b 0x40000000 0x40000000 0x40000000 0x40000000 at 0x11000 gl mmu_ex = Some (0, s1)" for v a b gl
    using map_loop_step [of "0x40000000" "0x40000000" 3 "0x40000000" v a b "0x40000000" "0x40000000" at "0x11000" gl mmu_ex] by (simp add: index_shift_def z)
  then show ?thesis
    by (simp add: arch_mmu_map_def kspace_ex_simps k [unfolded One_nat_def] arm64_mmu_map_def out_of_tables_def arm64_mmu_map_pt_def page_aligned_def at_def)
qed

lemma arch_mmu_map_witness:
  "\<exists>s'. arch_mmu_map kspace_ex 0x40000000 0x40000000 0x40000 4 mmu_ex = Some (0, s') \<and> arch_mmu_query kspace_ex 0x40001234 True (mm s') = Some (Inr (0x40001234, 4))"
proof -
  have v: "is_valid_vaddr kspace_ex 0x40000000" "is_valid_vaddr kspace_ex 0x40001234" by (simp_all add: kspace_ex_simps)
  have inv: "table_inv 3 (1, 1) (mm mmu_ex) tables_ex" "tt_virt kspace_ex = page_kva (mm mmu_ex) (1, 1)" using kmm_ex_table by (simp_all add: mmu_ex_def kspace_ex_simps)
  obtain ret s' R' where s': "arch_mmu_map kspace_ex 0x40000000 0x40000000 0x40000 4 mmu_ex = Some (ret, s')"
    "\<forall>v want. v < 2 ^ 48 \<longrightarrow> is_valid_vaddr kspace_ex v \<longrightarrow>
       (if ret = 0 \<and> v \<in> {0x40000000..<0x40000000 + 0x40000 * 4096}
        then arch_mmu_query kspace_ex v want (mm mmu_ex) = Some (Inl ERR_NOT_FOUND) \<and>
             arch_mmu_query kspace_ex v want (mm s') = Some (Inr (0x40000000 + of_nat (v - 0x40000000), if want then 4 AND 63 else 0))
        else arch_mmu_query kspace_ex v want (mm s') = arch_mmu_query kspace_ex v want (mm mmu_ex))"
    using arch_mmu_map_correct [OF inv v(1), of "0x40000000" "0x40000" 4] by auto
  have "ret = 0" using mmu_ex_map s'(1) by auto
  then show ?thesis using s' v(2) by (intro exI [of _ s']) simp
qed

end
