(* ===== verification/Hv_Mem.thy ===== *)
theory Hv_Mem
  imports Hv_State
begin

text \<open>
  The memory of a machine, \<^verbatim>\<open>hv/hv_mem.c\<close>: blocks of 2 MB taken from the page allocator and mapped one after the other into the
  stage-2 tables from the machine's first address, and the flush of the TLB when the lock is released.
\<close>

section \<open>Allocation\<close>

definition mem_seg_counts :: "vm_info \<Rightarrow> int" where
  "mem_seg_counts vinf =
     (let phy_size = inf_ram_size vinf
      in if phy_size AND VM_MEM_BLOCK_MASK \<noteq> 0 then ERR_INVALID_ARGS else signed_take_bit 31 (drop_bit 21 (sint phy_size)))"

text \<open>
  The loop over the blocks: \<open>junk\<close> is what the array holds when \<^verbatim>\<open>malloc\<close> returns it. At the first block that cannot be had its
  page list is empty and the rest of the array is as it was.
\<close>

fun alloc_segs :: "paddr \<Rightarrow> phy_mem_seg list \<Rightarrow> mm_state \<Rightarrow> bool \<times> phy_mem_seg list \<times> mm_state" where
  "alloc_segs ipa [] s = (True, [], s)"
| "alloc_segs ipa (j # junk) s =
     (case pmm_alloc_contiguous (2 ^ (21 - 12)) 21 (arenas s) of
        None \<Rightarrow> (False, j\<lparr>pgs := []\<rparr> # junk, s)
      | Some (as, pa, ln) \<Rightarrow>
          (case alloc_segs (ipa + 0x200000) junk (s\<lparr>arenas := as\<rparr>) of
             (ok, segs, s) \<Rightarrow> (ok, \<lparr>seg_pa = of_nat pa, seg_ipa = ipa, pgs = ln\<rparr> # segs, s)))"

fun free_segs :: "phy_mem_seg list \<Rightarrow> mm_state \<Rightarrow> mm_state" where
  "free_segs [] s = s"
| "free_segs (seg # segs) s =
     (if seg_pa seg \<noteq> 0 then free_segs segs (s\<lparr>arenas := fst (pmm_free (pgs seg) (arenas s))\<rparr>) else s)"

text \<open>
  \<open>junk\<close> is \<open>None\<close> when \<^verbatim>\<open>malloc\<close> fails. On the failure path the code frees the array and then still walks it; the model reads what
  the array held, and the pointer stays in place.
\<close>

definition alloc_mem :: "phy_mem_seg list option \<Rightarrow> vm_info \<Rightarrow> vm_mem \<Rightarrow> mm_state \<Rightarrow> int \<times> vm_mem \<times> mm_state" where
  "alloc_mem junk vinf m s =
     (let n = mem_seg_counts vinf
      in if n < 0 then (ERR_INVALID_ARGS, m, s)
         else
           let m = m\<lparr>seg_num := n, mem_seg := junk\<rparr>
           in case junk of
                None \<Rightarrow> (ERR_NO_MEMORY, m, s)
              | Some js \<Rightarrow>
                  (case alloc_segs (inf_ipa_start vinf) (take (nat n) js) s of
                     (ok, segs, s) \<Rightarrow>
                       if ok then (0, m\<lparr>mem_seg := Some segs\<rparr>, s)
                       else (ERR_NO_MEMORY, m\<lparr>mem_seg := Some segs\<rparr>, free_segs segs s)))"

text \<open>An operation on the memory of a machine as an operation on the state.\<close>

definition with_mem :: "ptr \<Rightarrow> (vm_mem \<Rightarrow> mm_state \<Rightarrow> 'r \<times> vm_mem \<times> mm_state) \<Rightarrow> hv_state \<Rightarrow> 'r \<times> hv_state" where
  "with_mem vm f s = (case f (mem (vms s vm)) (mm s) of (r, m, k) \<Rightarrow> (r, upd_mem vm (\<lambda>_. m) (s\<lparr>mm := k\<rparr>)))"

definition lkhv_alloc_mem :: "phy_mem_seg list option \<Rightarrow> ptr \<Rightarrow> hv_state \<Rightarrow> int \<times> hv_state" where
  "lkhv_alloc_mem junk vm s = with_mem vm (alloc_mem junk (info (vms s vm))) s"

definition lkhv_mem_init :: "bool \<Rightarrow> u64 \<Rightarrow> u64 \<Rightarrow> hv_state \<Rightarrow> hv_state" where
  "lkhv_mem_init first mmfr0 mmfr1 s =
     (case arch_mem_init first mmfr0 mmfr1 (mm s) of (vtcr, k) \<Rightarrow> ARM64_WRITE_SYSREG VTCR_EL2 vtcr (s\<lparr>mm := k\<rparr>))"

section \<open>Flushing\<close>

definition tlb_flush :: "hv_state \<Rightarrow> hv_state" where
  "tlb_flush s = s\<lparr>mm := (mm s)\<lparr>st2_log := st2_log (mm s) @ [Tlb_flush (ARM64_READ_SYSREG VTTBR_EL2 s)]\<rparr>\<rparr>"

definition arch_tlb_flush :: "vm_mem \<Rightarrow> hv_state \<Rightarrow> hv_state" where
  "arch_tlb_flush m s =
     (let old = ARM64_READ_SYSREG VTTBR_EL2 s; own = vttbr (arch_mem m);
          s = (if old \<noteq> own then ARM64_WRITE_SYSREG VTTBR_EL2 own s else s);
          s = tlb_flush s
      in if old \<noteq> own then ARM64_WRITE_SYSREG VTTBR_EL2 old s else s)"

text \<open>Taking the lock changes nothing in the model; giving it back flushes first when an operation asked for it.\<close>

definition mem_unlock :: "ptr \<Rightarrow> hv_state \<Rightarrow> hv_state" where
  "mem_unlock vm s =
     (if need_flush (mem (vms s vm)) then
        upd_mem vm (\<lambda>m. m\<lparr>need_flush := False\<rparr>) (arch_tlb_flush (mem (vms s vm)) s)
      else s)"

section \<open>Mapping\<close>

definition segs_of :: "vm_mem \<Rightarrow> phy_mem_seg list" where
  "segs_of m = (case mem_seg m of None \<Rightarrow> [] | Some segs \<Rightarrow> take (nat (seg_num m)) segs)"

fun unmap_segs :: "phy_mem_seg list \<Rightarrow> vm_mem \<Rightarrow> mm_state \<Rightarrow> unit \<times> vm_mem \<times> mm_state" where
  "unmap_segs [] m s = ((), m, s)"
| "unmap_segs (seg # segs) m s = (case arch_mem_unmap m (seg_ipa seg) (2 ^ 21) s of (_, m, s) \<Rightarrow> unmap_segs segs m s)"

definition lkhv_unmap_ram :: "ptr \<Rightarrow> hv_state \<Rightarrow> hv_state" where
  "lkhv_unmap_ram vm s = mem_unlock vm (snd (with_mem vm (\<lambda>m. unmap_segs (segs_of m) m) s))"

fun map_segs :: "phy_mem_seg list \<Rightarrow> vm_mem \<Rightarrow> mm_state \<Rightarrow> int \<times> vm_mem \<times> mm_state" where
  "map_segs [] m s = (0, m, s)"
| "map_segs (seg # segs) m s =
     (case arch_mem_map m (seg_pa seg) (seg_ipa seg) (2 ^ 21) s of
        (ret, m, s) \<Rightarrow> if ret < 0 then (ret, m, s) else map_segs segs m s)"

definition lkhv_map_ram :: "ptr \<Rightarrow> hv_state \<Rightarrow> int \<times> hv_state" where
  "lkhv_map_ram vm s =
     (case with_mem vm (\<lambda>m. map_segs (segs_of m) m) s of
        (ret, s) \<Rightarrow>
          (let s = mem_unlock vm s
           in if ret < 0 then (ret, lkhv_unmap_ram vm s) else (0, s)))"

definition lkhv_map_test_serial :: "ptr \<Rightarrow> hv_state \<Rightarrow> int \<times> hv_state" where
  "lkhv_map_test_serial vm s = with_mem vm (\<lambda>m. arch_mem_map m 0x9000000 0x9000000 0x1000) s"

definition lkhv_vm_free_mem :: "ptr \<Rightarrow> hv_state \<Rightarrow> hv_state" where
  "lkhv_vm_free_mem vm s =
     snd (with_mem vm (\<lambda>m k. ((), m\<lparr>mem_seg := None\<rparr>, free_segs (segs_of m) k)) s)"


section \<open>A block of memory\<close>

lemma oa_bound: "(x :: u64) AND NOT MMU_OA_RANGE_MASK = 0 \<Longrightarrow> uint x < 2 ^ 48"
proof -
  assume a: "x AND NOT MMU_OA_RANGE_MASK = 0"
  have m: "(0xFFFFFFFFFFFF :: u64) = mask 48" by (simp add: mask_eq_exp_minus_1)
  have "x = take_bit 48 x"
  proof (rule bit_word_eqI)
    fix n
    show "bit x n = bit (take_bit 48 x) n" using arg_cong [OF a [unfolded m], of "\<lambda>w. bit w n"]
      by (auto simp: bit_simps dest: bit_imp_le_length)
  qed
  then have "uint x = take_bit 48 (uint x)" by (metis unsigned_take_bit_eq)
  then show ?thesis by (metis take_bit_int_less_exp)
qed

lemma alloc_block:
  assumes inv: "pmm_inv (arenas s)" "kva_ok s" and alloc: "pmm_alloc_contiguous 512 21 (arenas s) = Some (as, pa, ln)"
  shows "taken (arenas s) ln as" "length ln = 512" "pa mod 2 ^ 21 = 0" "pa + 2 ^ 21 \<le> 2 ^ 48" "0 < pa"
    "\<And>i. i < 512 \<Longrightarrow> page_paddr s (ln ! i) = of_nat (pa + i * 4096)"
proof -
  have c: "contig_arenas 512 21 (arenas s) = Some (as, pa, ln)" using alloc by (simp add: pmm_alloc_contiguous_def)
  obtain a where t: "taken (arenas s) ln as" and a: "a \<in> set (arenas s)" "run_of 512 21 a (pa, ln)"
    using contig_arenas_correct [OF inv(1), of 21 512] unfolding c by auto
  then obtain st where st: "aligned_run 512 21 a st" "pa = ar_base a + st * 4096" "ln = map (Pair (page_array a)) [st..<st + 512]"
    by (auto simp: run_of_def)
  show "taken (arenas s) ln as" by (rule t)
  show len: "length ln = 512" by (simp add: st(3))
  show al: "pa mod 2 ^ 21 = 0" using st(1,2) by (simp add: aligned_run_def)
  have pc: "st + 512 \<le> page_count a" using st(1) by (simp add: aligned_run_def run_free_def)
  show pp: "page_paddr s (ln ! i) = of_nat (pa + i * 4096)" if "i < 512" for i
    using vm_page_to_paddr_arena [OF inv(1) a(1), of "ln ! i"] pc that st(2,3)
    by (simp add: page_paddr_def PAGE_BELONGS_TO_ARENA_def PAGE_ADDRESS_FROM_ARENA_def algebra_simps)
  have in_all: "ln ! i \<in> all_pages (arenas s)" if "i < 512" for i
    using t free_pages_all [of "arenas s"] that len unfolding taken_def by (metis nth_mem subsetD)
  have "ar_base a + page_count a * 4096 \<le> 2 ^ 64"
    using inv(1) a(1) by (auto simp: pmm_inv_def arena_ok_def page_count_def)
  then have small: "pa + 512 * 4096 \<le> 2 ^ 64" using pc st(2) by linarith
  have "page_paddr s (ln ! 511) AND NOT MMU_OA_RANGE_MASK = 0" "page_paddr s (ln ! 0) \<noteq> 0"
    using inv(2) in_all [of 511] in_all [of 0] by (auto simp: kva_ok_def)
  then have "uint (of_nat (pa + 511 * 4096) :: u64) < 2 ^ 48" "(of_nat pa :: u64) \<noteq> 0" using oa_bound pp [of 511] pp [of 0] by auto
  moreover have "unat (of_nat (pa + 511 * 4096) :: u64) = pa + 511 * 4096"
    unfolding unat_of_nat using small by (intro mod_less) simp
  ultimately have "pa + 511 * 4096 < 2 ^ 48" "0 < pa" by (simp_all only: uint_nat) (simp, cases pa, simp_all)
  moreover obtain q where "pa = 0x200000 * q" using al by (auto simp: mod_eq_0_iff_dvd elim: dvdE)
  ultimately show "0 < pa" "pa + 2 ^ 21 \<le> 2 ^ 48" by simp_all
qed


definition seg_ok :: "mm_state \<Rightarrow> phy_mem_seg \<Rightarrow> bool" where
  "seg_ok s seg \<longleftrightarrow> uint (seg_pa seg) mod 2 ^ 21 = 0 \<and> uint (seg_pa seg) + 2 ^ 21 \<le> 2 ^ 48 \<and> seg_pa seg \<noteq> 0 \<and>
     length (pgs seg) = 512 \<and> (\<forall>i<512. page_paddr s (pgs seg ! i) = seg_pa seg + of_nat (i * 4096))"

definition seg_pages :: "phy_mem_seg list \<Rightarrow> vm_page list" where
  "seg_pages segs = concat (map pgs segs)"

lemma seg_pages_simps [simp]: "seg_pages [] = []" "seg_pages (seg # segs) = pgs seg @ seg_pages segs"
  by (simp_all add: seg_pages_def)

lemma seg_ok_static: "same_static s s' \<Longrightarrow> seg_ok s' = seg_ok s"
  by (auto simp: seg_ok_def static_pages fun_eq_iff)

lemma block_seg_ok:
  assumes "pmm_inv (arenas s)" "kva_ok s" "pmm_alloc_contiguous 512 21 (arenas s) = Some (as, pa, ln)"
  shows "seg_ok s \<lparr>seg_pa = of_nat pa, seg_ipa = ipa, pgs = ln\<rparr>"
proof -
  note b = alloc_block [OF assms]
  have u: "unat (of_nat pa :: u64) = pa" unfolding unat_of_nat using b(4) by (intro mod_less) simp
  have "uint (of_nat pa :: u64) mod 2 ^ 21 = 0" "uint (of_nat pa :: u64) + 2 ^ 21 \<le> 2 ^ 48"
    unfolding uint_nat u using b(3,4) zmod_int [of pa "2 ^ 21"] by simp_all
  moreover have "(of_nat pa :: u64) \<noteq> 0" using u b(5) by auto
  ultimately show ?thesis using b(2,6) by (simp add: seg_ok_def)
qed

lemma alloc_segs_correct:
  "st2_inv s R \<Longrightarrow> alloc_segs ipa junk s = (True, segs, s') \<Longrightarrow>
   st2_inv s' R \<and> same_static s s' \<and> (\<forall>r y. st2_translate r y s' = st2_translate r y s) \<and> length segs = length junk \<and>
   (\<forall>i<length segs. seg_ipa (segs ! i) = ipa + of_nat i * 0x200000 \<and> seg_ok s (segs ! i)) \<and>
   distinct (seg_pages segs) \<and> set (seg_pages segs) \<subseteq> free_pages (arenas s) \<and>
   free_pages (arenas s') = free_pages (arenas s) - set (seg_pages segs)"
proof (induction junk arbitrary: ipa s segs)
  case (Cons j junk)
  have inv: "pmm_inv (arenas s)" "kva_ok s" using Cons.prems(1) by (simp_all add: st2_inv_def)
  obtain as pa ln where alloc: "pmm_alloc_contiguous 512 21 (arenas s) = Some (as, pa, ln)"
    using Cons.prems(2) by (cases "pmm_alloc_contiguous 512 21 (arenas s)") auto
  let ?s = "s\<lparr>arenas := as\<rparr>"
  obtain segs' where rest: "alloc_segs (ipa + 0x200000) junk ?s = (True, segs', s')"
    and segs: "segs = \<lparr>seg_pa = of_nat pa, seg_ipa = ipa, pgs = ln\<rparr> # segs'"
    using Cons.prems(2) alloc by (auto split: prod.splits)
  note t = alloc_block(1) [OF inv alloc, unfolded taken_def]
  have st: "same_static s ?s" using t by (auto simp: same_static_def)
  have "st2_inv ?s R" using st2_inv_arenas [OF Cons.prems(1)] t by auto
  note ih = Cons.IH [OF this rest]
  have tr: "st2_translate r y ?s = st2_translate r y s" for r y by (simp add: st2_translate_def translate_arenas)
  have "seg_ipa (segs ! i) = ipa + of_nat i * 0x200000 \<and> seg_ok s (segs ! i)" if "i < length segs" for i
    using that ih block_seg_ok [OF inv alloc] unfolding segs seg_ok_static [OF st]
    by (cases i) (auto simp: algebra_simps)
  moreover have "st2_inv s' R \<and> same_static s s' \<and> (\<forall>r y. st2_translate r y s' = st2_translate r y s) \<and> length segs = length (j # junk)"
    using ih tr same_static_trans [OF st] by (simp add: segs)
  moreover have "distinct (seg_pages segs) \<and> set (seg_pages segs) \<subseteq> free_pages (arenas s) \<and>
      free_pages (arenas s') = free_pages (arenas s) - set (seg_pages segs)"
    using ih t by (auto simp: segs)
  ultimately show ?case by blast
qed simp

section \<open>Mapping the blocks\<close>

definition seg_range :: "phy_mem_seg \<Rightarrow> paddr \<Rightarrow> bool" where
  "seg_range seg y \<longleftrightarrow> in_range (seg_ipa seg) (2 ^ 21) y"

definition seg_mappable :: "mm_state \<Rightarrow> phy_mem_seg \<Rightarrow> bool" where
  "seg_mappable s seg \<longleftrightarrow> uint (seg_pa seg) mod 0x1000 = 0 \<and> uint (seg_ipa seg) mod 0x1000 = 0 \<and>
     uint (seg_ipa seg) + 2 ^ 21 \<le> 2 ^ min 48 (ipa_bits s) \<and> uint (seg_pa seg) + 2 ^ 21 \<le> 2 ^ 48"

fun apart :: "phy_mem_seg list \<Rightarrow> bool" where
  "apart [] = True"
| "apart (seg # segs) = ((\<forall>t\<in>set segs. \<forall>y. \<not> (seg_range seg y \<and> seg_range t y)) \<and> apart segs)"

lemma arch_mem_map_ranged:
  assumes "st2_inv s R" "st2_root_kva (arch_mem m) \<in> R" "st2_table (arch_mem m) \<noteq> 0" "seg_mappable s seg"
    "arch_mem_map m (seg_pa seg) (seg_ipa seg) (2 ^ 21) s = (ret, m', s')"
  shows "ranged R (st2_root_kva (arch_mem m)) (linear (seg_pa seg) (seg_ipa seg)) (seg_ipa seg) (2 ^ 21) ERR_NO_MEMORY ret s s'"
    "arch_mem m' = arch_mem m" "seg_num m' = seg_num m" "mem_seg m' = mem_seg m"
proof -
  note a = assms(4) [unfolded seg_mappable_def]
  have "(2::int) ^ min 48 (ipa_bits s) \<le> 2 ^ ipa_bits s" "(2::int) ^ min 48 (ipa_bits s) \<le> 2 ^ 48" by (rule power_increasing; simp)+
  then have small: "uint (seg_ipa seg) + 2 ^ 21 \<le> 2 ^ ipa_bits s" "uint (seg_ipa seg) + 2 ^ 21 \<le> 2 ^ 48" using a by linarith+
  have "map_loop m (seg_pa seg) (seg_ipa seg) (2 ^ 21) s = (ret, m', s')"
    using assms(5) range_in_oa [of "seg_pa seg" "2 ^ 21"] range_in_oa [OF small(2)] a by (simp add: arch_mem_map_def IS_PAGE_ALIGN_any)
  from map_loop_correct [OF assms(1-3) _ _ _ small(1) _ this] a
  show "ranged R (st2_root_kva (arch_mem m)) (linear (seg_pa seg) (seg_ipa seg)) (seg_ipa seg) (2 ^ 21) ERR_NO_MEMORY ret s s'"
    "arch_mem m' = arch_mem m" "seg_num m' = seg_num m" "mem_seg m' = mem_seg m" by auto
qed

text \<open>All blocks at once, for a machine that has its root.\<close>

definition segs_mapped :: "u64 set \<Rightarrow> u64 \<Rightarrow> phy_mem_seg list \<Rightarrow> mm_state \<Rightarrow> mm_state \<Rightarrow> bool" where
  "segs_mapped R root segs s s' \<longleftrightarrow> st2_inv s' R \<and> same_static s s' \<and>
     (\<forall>seg\<in>set segs. \<forall>y. seg_range seg y \<longrightarrow> st2_translate root y s' = linear (seg_pa seg) (seg_ipa seg) y) \<and>
     (\<forall>r\<in>R. \<forall>y<2 ^ ipa_bits s. r \<noteq> root \<or> (\<forall>seg\<in>set segs. \<not> seg_range seg y) \<longrightarrow> st2_translate r y s' = st2_translate r y s)"

lemma map_segs_ready:
  "st2_inv s R \<Longrightarrow> st2_root_kva (arch_mem m) \<in> R \<Longrightarrow> st2_table (arch_mem m) \<noteq> 0 \<Longrightarrow> (\<forall>seg\<in>set segs. seg_mappable s seg) \<Longrightarrow> apart segs \<Longrightarrow>
   map_segs segs m s = (0, m', s') \<Longrightarrow>
   segs_mapped R (st2_root_kva (arch_mem m)) segs s s' \<and> arch_mem m' = arch_mem m \<and> seg_num m' = seg_num m \<and> mem_seg m' = mem_seg m"
proof (induction segs arbitrary: m s)
  case Nil
  then show ?case by (simp add: segs_mapped_def)
next
  case (Cons seg segs)
  let ?root = "st2_root_kva (arch_mem m)"
  obtain ret m1 s1 where one: "arch_mem_map m (seg_pa seg) (seg_ipa seg) (2 ^ 21) s = (ret, m1, s1)"
    by (cases "arch_mem_map m (seg_pa seg) (seg_ipa seg) (2 ^ 21) s")
  have map1: "seg_mappable s seg" using Cons.prems(4) by simp
  note r = arch_mem_map_ranged [OF Cons.prems(1-3) map1 one]
  have ret: "ret = 0" and rest: "map_segs segs m1 s1 = (0, m', s')"
    using Cons.prems(6) one r(1) by (auto simp: ranged_def split: if_splits)
  have st: "same_static s s1" and inv1: "st2_inv s1 R" using r(1) by (simp_all add: ranged_def)
  have "\<forall>seg\<in>set segs. seg_mappable s1 seg" using Cons.prems(4) by (simp add: seg_mappable_def static_eqs [OF st])
  then have ih: "segs_mapped R ?root segs s1 s'" "arch_mem m' = arch_mem m" "seg_num m' = seg_num m" "mem_seg m' = mem_seg m"
    using Cons.IH [OF inv1, of m1] Cons.prems(2,3,5) rest r(2-4) by auto
  have g: "geom_ok s" using Cons.prems(1) by (simp add: st2_inv_def)
  have "st2_translate ?root y s' = linear (seg_pa seg) (seg_ipa seg) y" if "seg_range seg y" for y
  proof -
    have "(2::int) ^ min 48 (ipa_bits s) \<le> 2 ^ ipa_bits s" by (rule power_increasing) auto
    moreover have "uint y < uint (seg_ipa seg) + 2 ^ 21" "uint (seg_ipa seg) + 2 ^ 21 \<le> 2 ^ min 48 (ipa_bits s)"
      using that map1 by (simp_all add: seg_range_def seg_mappable_def in_range_def)
    ultimately have "uint y < 2 ^ ipa_bits s" by linarith
    then have "y < 2 ^ ipa_bits s" by (rule ipa_less [OF g])
    moreover have "\<forall>t\<in>set segs. \<not> seg_range t y" using Cons.prems(5) that by auto
    ultimately have "st2_translate ?root y s' = st2_translate ?root y s1"
      using ih(1) Cons.prems(2) by (simp add: segs_mapped_def static_eqs [OF st])
    then show ?thesis using r(1) ret that by (simp add: ranged_def seg_range_def)
  qed
  moreover have "st2_translate r y s' = st2_translate r y s"
    if "r \<in> R" "y < 2 ^ ipa_bits s" "r \<noteq> ?root \<or> (\<forall>t\<in>set (seg # segs). \<not> seg_range t y)" for r y
    using ih(1) r(1) that by (auto simp: segs_mapped_def ranged_def seg_range_def static_eqs [OF st])
  ultimately show ?case using ih same_static_trans [OF st] by (simp add: segs_mapped_def)
qed


section \<open>The memory of a new machine\<close>

lemma node_cong: "same_static s s' \<Longrightarrow> kmem s' = kmem s \<Longrightarrow> st2_node s r p k \<Longrightarrow> st2_node s' r p k"
proof (rotate_tac 2, induction rule: st2_node.induct)
  case root
  show ?case by (rule st2_node.root)
next
  case (step p k i)
  with st2_node.step [of s' r p k i] show ?case by (simp add: static_eqs)
qed

lemma log_upd:
  "st2_inv (k\<lparr>st2_log := l\<rparr>) R = st2_inv k R" "st2_translate r y (k\<lparr>st2_log := l\<rparr>) = st2_translate r y k"
  "ipa_bits (k\<lparr>st2_log := l\<rparr>) = ipa_bits k" "arenas (k\<lparr>st2_log := l\<rparr>) = arenas k"
proof -
  have st: "same_static k (k\<lparr>st2_log := l\<rparr>)" "same_static (k\<lparr>st2_log := l\<rparr>) k" by (simp_all add: same_static_def)
  have "st2_node (k\<lparr>st2_log := l\<rparr>) = st2_node k"
    using node_cong [OF st(1)] node_cong [OF st(2)] by (intro ext) (metis mm_state.select_convs(3) mm_state.surjective mm_state.update_convs(8))
  then have "slot_at (k\<lparr>st2_log := l\<rparr>) = slot_at k" by (simp add: fun_eq_iff slot_at_def static_eqs [OF st(1)])
  then show "st2_inv (k\<lparr>st2_log := l\<rparr>) R = st2_inv k R"
    unfolding st2_inv_def static_pages [OF st(1)] static_eqs [OF st(1)] by simp
  have "st2_walk n a y (k\<lparr>st2_log := l\<rparr>) = st2_walk n a y k" for n a
    by (induction n arbitrary: a) (simp_all add: static_eqs [OF st(1)] Let_def)
  then show "st2_translate r y (k\<lparr>st2_log := l\<rparr>) = st2_translate r y k" by (simp add: st2_translate_def)
qed (simp_all add: ipa_bits_def)

lemma arch_tlb_flush_effect:
  "mm (arch_tlb_flush m s) = (mm s)\<lparr>st2_log := st2_log (mm s) @ [Tlb_flush (vttbr (arch_mem m))]\<rparr>"
  "vms (arch_tlb_flush m s) = vms s" "ARM64_READ_SYSREG r (arch_tlb_flush m s) = ARM64_READ_SYSREG r s"
  by (simp_all add: arch_tlb_flush_def tlb_flush_def ARM64_WRITE_SYSREG_def ARM64_READ_SYSREG_def Let_def)

lemma mem_unlock_mm: "\<exists>l. mm (mem_unlock vm s) = (mm s)\<lparr>st2_log := l\<rparr>"
proof (cases "need_flush (mem (vms s vm))")
  case True
  then show ?thesis by (auto simp: mem_unlock_def upd_mem_def upd_vm_def arch_tlb_flush_effect)
next
  case False
  have "mm s = (mm s)\<lparr>st2_log := st2_log (mm s)\<rparr>" by (cases "mm s") simp
  then show ?thesis using False unfolding mem_unlock_def by (metis (full_types))
qed

lemma mem_unlock_mem: "arch_mem (mem (vms (mem_unlock vm s) vm)) = arch_mem (mem (vms s vm))"
  "segs_of (mem (vms (mem_unlock vm s) vm)) = segs_of (mem (vms s vm))"
proof -
  have f: "seg_num (mem (vms (mem_unlock vm s) vm)) = seg_num (mem (vms s vm))" "mem_seg (mem (vms (mem_unlock vm s) vm)) = mem_seg (mem (vms s vm))"
    by (simp_all add: mem_unlock_def upd_mem_def upd_vm_def arch_tlb_flush_effect)
  then show "segs_of (mem (vms (mem_unlock vm s) vm)) = segs_of (mem (vms s vm))" by (simp only: segs_of_def)
  show "arch_mem (mem (vms (mem_unlock vm s) vm)) = arch_mem (mem (vms s vm))"
    by (simp add: mem_unlock_def upd_mem_def upd_vm_def arch_tlb_flush_effect)
qed

lemma arch_mem_map_first_eq:
  assumes "st2_table (arch_mem m) = 0" "0x1000 \<le> len" "arch_mem_map m pa ipa len s = (0, m', s')" "st2_inv s R" "root_order s = 0"
  obtains am s1 where "init_st2_root (arch_mem m) s = (0, am, s1)" "arch_mem_map (m\<lparr>arch_mem := am\<rparr>) pa ipa len s1 = (0, m', s')"
proof -
  obtain ret am s1 where i: "init_st2_root (arch_mem m) s = (ret, am, s1)" by (cases "init_st2_root (arch_mem m) s")
  have loop: "map_loop m pa ipa len s = (0, m', s')" using assms(3) by (auto simp: arch_mem_map_def split: if_splits)
  then have ret: "ret = 0" using assms(1,2) i by (auto simp: map_loop.simps [of m] pte_get_def split: if_splits)
  note r = init_st2_root_correct [OF i [unfolded ret] assms(5,4)]
  have "map_loop (m\<lparr>arch_mem := am\<rparr>) pa ipa len s1 = (0, m', s')"
    using map_loop_first [OF assms(1) i [unfolded ret] r(4)] assms(2) loop by simp
  then have "arch_mem_map (m\<lparr>arch_mem := am\<rparr>) pa ipa len s1 = (0, m', s')"
    using assms(2,3) by (auto simp: arch_mem_map_def split: if_splits)
  with that i ret show thesis by simp
qed

lemma map_loop_ret: "fst (map_loop m pa ipa len s) \<in> {0, ERR_NO_MEMORY}"
proof (induction m pa ipa len s rule: map_loop.induct)
  case (1 m pa ipa len s)
  then show ?case by (subst map_loop.simps) (auto split: prod.split option.split)
qed

lemma map_segs_first:
  assumes inv: "st2_inv s R" "root_order s = 0" "st2_table (arch_mem m) = 0" and segs: "segs \<noteq> []" "\<forall>seg\<in>set segs. seg_mappable s seg" "apart segs"
    and m: "map_segs segs m s = (0, m', s')"
  defines "root \<equiv> st2_root_kva (arch_mem m')"
  shows "root \<notin> R" "st2_inv s' (insert root R)" "same_static s s'" "seg_num m' = seg_num m" "mem_seg m' = mem_seg m"
    "seg \<in> set segs \<Longrightarrow> seg_range seg y \<Longrightarrow> st2_translate root y s' = linear (seg_pa seg) (seg_ipa seg) y"
    "y < 2 ^ ipa_bits s \<Longrightarrow> \<forall>seg\<in>set segs. \<not> seg_range seg y \<Longrightarrow> st2_translate root y s' = None"
    "r \<in> R \<Longrightarrow> y < 2 ^ ipa_bits s \<Longrightarrow> st2_translate r y s' = st2_translate r y s"
proof -
  obtain seg0 segs' where s0: "segs = seg0 # segs'" using segs(1) by (cases segs) auto
  obtain ret m1 s1 where one: "arch_mem_map m (seg_pa seg0) (seg_ipa seg0) (2 ^ 21) s = (ret, m1, s1)"
    by (cases "arch_mem_map m (seg_pa seg0) (seg_ipa seg0) (2 ^ 21) s")
  have ret: "\<not> ret < 0" using m one by (auto simp: s0 split: if_splits)
  have "ret = 0" using one ret
  proof -
    have "ret \<in> {0, ERR_NO_MEMORY, ERR_INVALID_ARGS}"
      using one map_loop_ret [of m "seg_pa seg0" "seg_ipa seg0" "2 ^ 21" s] by (auto simp: arch_mem_map_def split: if_splits)
    with ret show ?thesis by auto
  qed
  obtain am k where i: "init_st2_root (arch_mem m) s = (0, am, k)"
    and one': "arch_mem_map (m\<lparr>arch_mem := am\<rparr>) (seg_pa seg0) (seg_ipa seg0) (2 ^ 21) k = (0, m1, s1)"
    using arch_mem_map_first_eq [OF inv(3) _ one [unfolded \<open>ret = 0\<close>] inv(1,2)] by auto
  note r = init_st2_root_correct [OF i inv(2,1)]
  have m': "map_segs segs (m\<lparr>arch_mem := am\<rparr>) k = (0, m', s')" using m one one' \<open>ret = 0\<close> by (simp add: s0)
  have "\<forall>seg\<in>set segs. seg_mappable k seg" using segs(2) by (simp add: seg_mappable_def static_eqs [OF r(2)])
  from map_segs_ready [OF r(1) _ _ this segs(3) m'] r(4)
  have q: "segs_mapped (insert (st2_root_kva am) R) (st2_root_kva am) segs k s'" "arch_mem m' = am" "seg_num m' = seg_num m" "mem_seg m' = mem_seg m"
    by auto
  have root: "root = st2_root_kva am" by (simp add: root_def q(2))
  show "root \<notin> R" "st2_inv s' (insert root R)" "same_static s s'" "seg_num m' = seg_num m" "mem_seg m' = mem_seg m"
    using r(3) q same_static_trans [OF r(2)] by (auto simp: root segs_mapped_def)
  show "seg \<in> set segs \<Longrightarrow> seg_range seg y \<Longrightarrow> st2_translate root y s' = linear (seg_pa seg) (seg_ipa seg) y"
    using q(1) by (simp add: root segs_mapped_def)
  show "y < 2 ^ ipa_bits s \<Longrightarrow> \<forall>seg\<in>set segs. \<not> seg_range seg y \<Longrightarrow> st2_translate root y s' = None"
    using q(1) r(7) by (simp add: root segs_mapped_def static_eqs [OF r(2)])
  show "r \<in> R \<Longrightarrow> y < 2 ^ ipa_bits s \<Longrightarrow> st2_translate r y s' = st2_translate r y s"
    using q(1) r(6) [of r y] r(3) unfolding segs_mapped_def static_eqs [OF r(2)] by (metis insertI2)
qed

section \<open>Properties\<close>

lemma segs_apart:
  assumes "\<forall>i<length segs. uint (seg_ipa (segs ! i)) = b + int i * 2 ^ 21"
  shows "apart segs"
  using assms
proof (induction segs arbitrary: b)
  case (Cons seg segs)
  have ip: "uint (seg_ipa (segs ! i)) = b + 2 ^ 21 + int i * 2 ^ 21" if "i < length segs" for i
    using Cons.prems [rule_format, of "Suc i"] that by (simp add: algebra_simps)
  have "uint (seg_ipa seg) = b" using Cons.prems by auto
  then have "\<forall>t\<in>set segs. \<forall>y. \<not> (seg_range seg y \<and> seg_range t y)"
    using ip by (auto simp: in_set_conv_nth seg_range_def in_range_def)
  with Cons.IH [of "b + 2 ^ 21"] ip show ?case by simp
qed simp

lemma mem_seg_counts_blocks:
  assumes "inf_ram_size vinf = of_nat (n * 2 ^ 21)" "n < 2 ^ 27"
  shows "mem_seg_counts vinf = int n"
proof -
  have u: "unat (of_nat (n * 2 ^ 21) :: u64) = n * 2 ^ 21" unfolding unat_of_nat using assms(2) by (intro mod_less) simp
  then have z: "uint (of_nat (n * 2 ^ 21) :: u64) = int n * 2 ^ 21" by (simp add: uint_nat)
  have "uint (of_nat (n * 2 ^ 21) :: u64) mod 2 ^ 21 = 0" unfolding z by simp
  then have al: "(of_nat (n * 2 ^ 21) :: u64) AND VM_MEM_BLOCK_MASK = 0" by (simp only: and_mask_zero)
  have "sint (of_nat (n * 2 ^ 21) :: u64) = int n * 2 ^ 21"
    using z assms(2) by (simp only: sint_uint) (simp add: signed_take_bit_int_eq_self)
  then have "drop_bit 21 (sint (of_nat (n * 2 ^ 21) :: u64)) = int n" by (simp add: drop_bit_eq_div)
  moreover have "signed_take_bit 31 (int n) = int n" using assms(2) by (intro signed_take_bit_int_eq_self) auto
  ultimately show ?thesis using al by (simp only: mem_seg_counts_def assms(1) Let_def) simp
qed

lemma map_segs_ret: "fst (map_segs segs m s) \<le> 0"
proof (induction segs arbitrary: m s)
  case (Cons seg segs)
  then show ?case by (auto split: prod.split)
qed simp

text \<open>The two operations as operations on the memory management.\<close>

lemma lkhv_alloc_mem_ok:
  assumes "lkhv_alloc_mem (Some junk) vm s = (0, s1)" "mem_seg_counts (info (vms s vm)) = int (length junk)"
  obtains segs k where "alloc_segs (inf_ipa_start (info (vms s vm))) junk (mm s) = (True, segs, k)" "mm s1 = k"
    "mem (vms s1 vm) = (mem (vms s vm))\<lparr>seg_num := int (length junk), mem_seg := Some segs\<rparr>"
  using assms by (auto simp: lkhv_alloc_mem_def with_mem_def alloc_mem_def upd_mem_def upd_vm_def Let_def split: prod.splits if_splits)

lemma lkhv_map_ram_ok:
  assumes "lkhv_map_ram vm s = (0, s')"
  obtains m' k l where "map_segs (segs_of (mem (vms s vm))) (mem (vms s vm)) (mm s) = (0, m', k)" "mm s' = k\<lparr>st2_log := l\<rparr>"
    "arch_mem (mem (vms s' vm)) = arch_mem m'" "segs_of (mem (vms s' vm)) = segs_of m'"
proof -
  obtain ret m' k where m: "map_segs (segs_of (mem (vms s vm))) (mem (vms s vm)) (mm s) = (ret, m', k)"
    by (cases "map_segs (segs_of (mem (vms s vm))) (mem (vms s vm)) (mm s)")
  let ?t = "upd_mem vm (\<lambda>_. m') (s\<lparr>mm := k\<rparr>)"
  have w: "with_mem vm (\<lambda>m. map_segs (segs_of m) m) s = (ret, ?t)" by (simp add: with_mem_def m)
  have ret: "ret = 0" using map_segs_ret [of "segs_of (mem (vms s vm))" "mem (vms s vm)" "mm s"] m assms w
    by (auto simp: lkhv_map_ram_def Let_def split: if_splits)
  then have s': "s' = mem_unlock vm ?t" using assms w by (simp add: lkhv_map_ram_def Let_def)
  obtain l where l: "mm s' = (mm ?t)\<lparr>st2_log := l\<rparr>" using mem_unlock_mm s' by metis
  have "mm ?t = k" "mem (vms ?t vm) = m'" by (simp_all add: upd_mem_def upd_vm_def)
  with that [OF m [unfolded ret], of l] l mem_unlock_mem [of vm ?t] s' show thesis by simp
qed



section \<open>An instance\<close>

text \<open>Memory of 514 pages, the last 512 of them one aligned block.\<close>

definition ram_arena :: pmm_arena where
  "ram_arena = \<lparr>ar_flags = 1, ar_priority = 0, ar_base = 0x1FE000, ar_size = 0x202000, free_count = 514, page_array = 1,
     page_flags = replicate 514 0, free_list = [0..<514]\<rparr>"

definition ram_mm :: mm_state where
  "ram_mm = mm_ex\<lparr>arenas := [ram_arena]\<rparr>"

lemma ram_inv: "pmm_inv [ram_arena]"
proof -
  have "[ram_arena] = pmm_add_arena 1 \<lparr>ar_flags = 1, ar_priority = 0, ar_base = 0x1FE000, ar_size = 0x202000, free_count = 0,
     page_array = 0, page_flags = [], free_list = []\<rparr> []"
    by (simp add: ram_arena_def pmm_add_arena_def page_count_def del: upt_rec_numeral)
  then show ?thesis by (simp only:) (rule pmm_add_arena_inv; simp add: pmm_inv_def)
qed

lemma ram_pages: "f \<in> all_pages [ram_arena] \<longleftrightarrow> fst f = 1 \<and> snd f < 514"
  by (auto simp: all_pages_def PAGE_BELONGS_TO_ARENA_def page_count_def ram_arena_def)

lemma ram_paddr: "f \<in> all_pages [ram_arena] \<Longrightarrow> page_paddr ram_mm f = of_nat (snd f * 0x1000 + 0x1FE000)"
  unfolding ram_pages
  by (cases f) (simp add: page_paddr_def ram_mm_def vm_page_to_paddr_def PAGE_BELONGS_TO_ARENA_def PAGE_ADDRESS_FROM_ARENA_def
      page_count_def ram_arena_def)

lemma ram_kva: "paddr_to_kvaddr ram_mm pa = (if pa \<le> 0xFFFFFFF then 0xFFFF000000000000 + pa else 0)"
  using mm_ex_kva [of pa] by (simp add: ram_mm_def)

lemma ram_st2_inv: "st2_inv ram_mm {}"
proof -
  have u: "unat (page_paddr ram_mm f) = snd f * 0x1000 + 0x1FE000" if "f \<in> all_pages [ram_arena]" for f
    unfolding ram_paddr [OF that] unat_of_nat using that ram_pages by (intro mod_less) auto
  have "kva_ok ram_mm"
  proof (rule kva_ok_linear [of _ "0xFFFF000000000000"])
    fix f assume "f \<in> all_pages (arenas ram_mm)"
    then have f: "f \<in> all_pages [ram_arena]" by (simp add: ram_mm_def)
    have b: "snd f < 514" using f ram_pages by blast
    have al: "uint (page_paddr ram_mm f) mod 2 ^ 12 = 0" unfolding uint_nat u [OF f] by (simp add: zmod_int [symmetric])
    have "uint (page_paddr ram_mm f) + 0x1000 \<le> 2 ^ 48" unfolding uint_nat u [OF f] using b by simp
    then have oa: "page_paddr ram_mm f AND NOT MMU_OA_RANGE_MASK = 0" by (rule range_in_oa) simp
    have "page_paddr ram_mm f \<noteq> 0" using u [OF f] by auto
    moreover have le: "page_paddr ram_mm f \<le> 0xFFFFFFF" using u [OF f] b by (simp add: word_le_nat_alt)
    moreover have "uint (page_paddr ram_mm f + 0xFFFF000000000000) \<noteq> 0"
    proof -
      have lt: "uint (page_paddr ram_mm f) < 2 ^ 28" unfolding uint_nat u [OF f] using b by simp
      have "uint (page_paddr ram_mm f + word_of_int 0xFFFF000000000000) = uint (page_paddr ram_mm f) + 0xFFFF000000000000"
        by (rule uint_add_small) (use lt in simp_all)
      then have "uint (page_paddr ram_mm f + 0xFFFF000000000000) = uint (page_paddr ram_mm f) + 0xFFFF000000000000" by simp
      then show ?thesis using uint_ge_0 [of "page_paddr ram_mm f"] by linarith
    qed
    ultimately show "uint (page_paddr ram_mm f) mod 2 ^ 12 = 0 \<and> page_paddr ram_mm f AND NOT MMU_OA_RANGE_MASK = 0 \<and> page_paddr ram_mm f \<noteq> 0 \<and>
        page_kva ram_mm f = page_paddr ram_mm f + 0xFFFF000000000000 \<and> page_kva ram_mm f \<noteq> 0"
      using al oa by (auto simp: page_kva_def ram_kva add.commute)
  next
    show "inj_on (page_paddr ram_mm) (all_pages (arenas ram_mm))"
    proof (rule inj_onI)
      fix f g assume "f \<in> all_pages (arenas ram_mm)" "g \<in> all_pages (arenas ram_mm)" "page_paddr ram_mm f = page_paddr ram_mm g"
      then show "f = g" using u [of f] u [of g] ram_pages by (auto simp: ram_mm_def prod_eq_iff)
    qed
  qed simp
  then show ?thesis using ram_inv by (simp add: st2_inv_def geom_ok_def ram_mm_def)
qed

text \<open>There is enough memory.\<close>

lemma alloc_contiguous_some:
  assumes "pmm_inv as" "a \<in> set as" "bit (ar_flags a) 0" "aligned_run n al a st" "12 \<le> al" "al < 64" "0 < n"
  shows "pmm_alloc_contiguous n al as \<noteq> None"
proof
  assume "pmm_alloc_contiguous n al as = None"
  then have "contig_arenas n al as = None" using assms(5,7) by (simp add: pmm_alloc_contiguous_def)
  with contig_arenas_correct [OF assms(1,5,6,7)] assms(2-4) show False by auto
qed

lemma alloc_page_some:
  assumes "pmm_inv (a # as)" "i < page_count a" "page_is_free a i"
  shows "\<exists>pg. snd (pmm_alloc_page (a # as)) = Some pg"
proof -
  have "i \<in> set (free_list a)" using assms by (simp add: pmm_inv_Cons arena_ok_def)
  then obtain p ps where "free_list a = p # ps" by (cases "free_list a") auto
  then show ?thesis by (simp add: pmm_alloc_page_def pmm_alloc_pages_eq)
qed

lemma init_st2_root_succeeds:
  assumes "st2_inv s R" "root_order s = 0" "pmm_alloc_contiguous 1 12 (arenas s) \<noteq> None"
  shows "fst (init_st2_root am s) = 0"
proof -
  have inv: "pmm_inv (arenas s)" "kva_ok s" using assms(1) by (simp_all add: st2_inv_def)
  obtain as pa ln where alloc: "pmm_alloc_contiguous 1 12 (arenas s) = Some (as, pa, ln)" using assms(3) by auto
  obtain pg where pg: "pg \<in> free_pages (arenas s)" "page_paddr s pg = of_nat pa" by (rule alloc_root_page [OF inv(1) alloc])
  have p: "page_paddr s pg AND NOT MMU_OA_RANGE_MASK = 0" "page_kva s pg \<noteq> 0"
    using inv(2) pg(1) free_pages_all [of "arenas s"] by (auto simp: kva_ok_def)
  then have "(of_nat pa :: u64) \<noteq> -1" "paddr_to_kvaddr (s\<lparr>arenas := as\<rparr>) (of_nat pa) \<noteq> 0"
    using pg(2) by (auto simp: page_kva_def)
  with alloc assms(2) show ?thesis by (simp add: init_st2_root_def Let_def get_vmid_def)
qed

text \<open>One block is mapped into empty tables when a page is left for the second level.\<close>

lemma map_block_succeeds:
  assumes "st2_table (arch_mem m) \<noteq> 0" "root_level s = 1" "kmem s (slot (st2_root_kva (arch_mem m)) (pte_index s ipa 1)) = 0"
    "pmm_inv (arenas s)" "kva_ok s" "snd (pmm_alloc_page (arenas s)) = Some pg"
    "uint pa mod 2 ^ 21 = 0" "uint ipa mod 2 ^ 21 = 0" "uint pa + 2 ^ 21 \<le> 2 ^ 48" "uint ipa + 2 ^ 21 \<le> 2 ^ 48"
  shows "fst (arch_mem_map m pa ipa (2 ^ 21) s) = 0"
proof -
  obtain as where alloc: "pmm_alloc_page (arenas s) = (as, Some pg)" using assms(6) by (cases "pmm_alloc_page (arenas s)") simp
  note f = alloc_page_facts [OF assms(4) alloc]
  have st: "same_static s (s\<lparr>arenas := as\<rparr>)" using f(2,3) by (simp add: same_static_def)
  have "page_paddr s pg AND NOT MMU_OA_RANGE_MASK = 0" using f(4) free_pages_all [of "arenas s"] assms(5) by (auto simp: kva_ok_def)
  then have "page_paddr (s\<lparr>arenas := as\<rparr>) pg \<noteq> -1" by (auto simp: static_pages [OF st])
  then have "\<exists>s' dst. pte_get (arch_mem m) ipa 2 s = (arch_mem m, s', Some dst)"
    using assms(1-3) alloc by (simp add: pte_get_def Let_def)
  then obtain s' dst where get: "pte_get (arch_mem m) ipa 2 s = (arch_mem m, s', Some dst)" by blast
  have "map_loop mem' pa' ipa' 0 k = (0, mem', k)" for mem' pa' ipa' k by (simp add: map_loop.simps)
  then have "fst (map_loop m pa ipa (2 ^ 21) s) = 0"
    using map_loop_turn [of "2 ^ 21" True pa ipa m s] assms(7,8) get by (simp add: piece_def split_beta)
  then show ?thesis using range_in_oa [OF assms(9)] range_in_oa [OF assms(10)] by (simp add: arch_mem_map_def IS_PAGE_ALIGN_any)
qed


definition ram_hv :: hv_state where
  "ram_hv = state0\<lparr>mm := ram_mm, vms := (\<lambda>_. zero_vm\<lparr>info := zero_info\<lparr>inf_ipa_start := 0x80000000, inf_ram_size := 0x200000\<rparr>\<rparr>)\<rparr>"

definition seg0 :: phy_mem_seg where
  "seg0 = \<lparr>seg_pa = 0, seg_ipa = 0, pgs = []\<rparr>"

lemma ram_free: "free_pages [ram_arena] = Pair 1 ` {..<514}" "card (free_pages [ram_arena]) = 514"
proof -
  show e: "free_pages [ram_arena] = Pair 1 ` {..<514}"
    by (auto simp: free_pages_def ram_arena_def page_count_def page_is_free_def image_iff simp del: upt_rec_numeral)
  show "card (free_pages [ram_arena]) = 514" unfolding e by (subst card_image) (auto simp: inj_on_def)
qed

text \<open>A single arena with a free page serves one page, in both ways.\<close>

lemma one_arena:
  assumes "pmm_inv as" "map geom as = [geom ram_arena]" "free_pages as \<noteq> {}"
  shows "pmm_alloc_contiguous 1 12 as \<noteq> None" "\<exists>pg. snd (pmm_alloc_page as) = Some pg"
proof -
  obtain b where b: "as = [b]" "geom b = geom ram_arena" using assms(2) by auto
  obtain i where i: "i < page_count b" "page_is_free b i" using assms(3) by (auto simp: b(1) free_pages_def)
  show "\<exists>pg. snd (pmm_alloc_page as) = Some pg" using alloc_page_some [of b "[]" i] assms(1) i by (simp add: b(1))
  have "ar_base b = 0x1FE000" "ar_flags b = 1" using b(2) by (simp_all add: geom_def ram_arena_def)
  then have "aligned_run 1 12 b i" "bit (ar_flags b) 0"
    using i by (simp_all add: aligned_run_def run_free_def mod_add_eq [symmetric])
  with alloc_contiguous_some [OF assms(1), of b 1 12 i] show "pmm_alloc_contiguous 1 12 as \<noteq> None" by (simp add: b(1))
qed

lemma ram_ok: "fst (lkhv_alloc_mem (Some [seg0]) 1 ram_hv) = 0" "fst (lkhv_map_ram 1 (snd (lkhv_alloc_mem (Some [seg0]) 1 ram_hv))) = 0"
proof -
  let ?i = "info (vms ram_hv 1)" and ?m = "mem (vms ram_hv 1)"
  have n: "mem_seg_counts ?i = 1" using mem_seg_counts_blocks [of ?i 1] by (simp add: ram_hv_def)
  have "aligned_run 512 21 ram_arena 2"
    by (auto simp: aligned_run_def run_free_def ram_arena_def page_count_def page_is_free_def simp del: upt_rec_numeral)
  then obtain as pa ln where a: "pmm_alloc_contiguous 512 21 [ram_arena] = Some (as, pa, ln)"
    using alloc_contiguous_some [OF ram_inv, of ram_arena 512 21 2] by (auto simp: ram_arena_def simp del: upt_rec_numeral)
  let ?seg = "\<lparr>seg_pa = of_nat pa, seg_ipa = 0x80000000, pgs = ln\<rparr>"
  let ?k = "ram_mm\<lparr>arenas := as\<rparr>" and ?m1 = "?m\<lparr>seg_num := 1, mem_seg := Some [?seg]\<rparr>"
  let ?s1 = "upd_mem 1 (\<lambda>_. ?m1) (ram_hv\<lparr>mm := ?k\<rparr>)"
  have mmr: "mm ram_hv = ram_mm" "inf_ipa_start ?i = 0x80000000" "arenas ram_mm = [ram_arena]" by (simp_all add: ram_hv_def ram_mm_def)
  have "alloc_segs 0x80000000 [seg0] ram_mm = (True, [?seg], ?k)" using a mmr(3) by simp
  then have alloc: "lkhv_alloc_mem (Some [seg0]) 1 ram_hv = (0, ?s1)"
    by (simp add: lkhv_alloc_mem_def with_mem_def alloc_mem_def n mmr Let_def)
  then show "fst (lkhv_alloc_mem (Some [seg0]) 1 ram_hv) = 0" by simp
  have inv: "pmm_inv (arenas ram_mm)" "kva_ok ram_mm" using ram_st2_inv by (simp_all add: st2_inv_def)
  note b = alloc_block [OF inv a [folded mmr(3)]]
  have t: "pmm_inv as" "map geom as = [geom ram_arena]" "free_pages as = free_pages [ram_arena] - set ln" "set ln \<subseteq> free_pages [ram_arena]" "distinct ln"
    using b(1) by (auto simp: taken_def mmr(3))
  have c: "card (free_pages as) = 2"
    using t(3-5) b(2) ram_free by (simp add: card_Diff_subset distinct_card)
  have st: "same_static ram_mm ?k" using t by (auto simp: same_static_def mmr(3))
  have kinv: "st2_inv ?k {}" using st2_inv_arenas [OF ram_st2_inv t(1)] t by (auto simp: mmr(3))
  have ro: "root_order ?k = 0" "root_level ?k = 1" by (simp_all add: ram_mm_def)
  have am: "st2_table (arch_mem ?m) = 0" by (simp add: ram_hv_def zero_defs)
  have "free_pages as \<noteq> {}" using c by auto
  from init_st2_root_succeeds [OF kinv ro(1)] one_arena(1) [OF t(1,2) this]
  have "fst (init_st2_root (arch_mem ?m) ?k) = 0" by simp
  then obtain am' k' where i: "init_st2_root (arch_mem ?m) ?k = (0, am', k')" by (metis prod.collapse)
  obtain pg where pg: "pg \<in> free_pages as" "free_pages (arenas k') = free_pages as - {pg}" "pmm_inv (arenas k')" "same_static ?k k'"
    "st2_root_kva am' = page_kva ?k pg" "kmem k' = (\<lambda>x. if in_page (page_kva ?k pg) x then 0 else kmem ?k x)"
    by (rule init_root_success [OF i ro(1) kinv]) (use that in simp)
  note r = init_st2_root_correct [OF i ro(1) kinv]
  have gk: "map geom (arenas k') = [geom ram_arena]" using pg(4) t(2) by (simp add: same_static_def)
  have "card (free_pages (arenas k')) = 1" using pg(1,2) c by (simp add: card_Diff_singleton)
  then have "free_pages (arenas k') \<noteq> {}" by auto
  from one_arena(2) [OF pg(3) gk this] obtain pg' where pg': "snd (pmm_alloc_page (arenas k')) = Some pg'" ..
  have seg: "seg_ok ram_mm ?seg" using block_seg_ok [OF inv a [folded mmr(3)]] .
  have kz: "kmem k' x = 0" for x by (simp add: pg(6) ram_mm_def)
  have "fst (arch_mem_map (?m1\<lparr>arch_mem := am'\<rparr>) (of_nat pa) 0x80000000 (2 ^ 21) k') = 0"
    by (rule map_block_succeeds [where pg = pg']) (use r(4) pg(3,4) pg' kz ro seg inv(2) static_pages(4) [OF st] static_pages(4) [OF pg(4)] in \<open>simp_all add: static_eqs seg_ok_def\<close>)
  then have "fst (arch_mem_map ?m1 (of_nat pa) 0x80000000 (2 ^ 21) ?k) = 0"
    using map_loop_first [of ?m1 ?k am' k' "2 ^ 21"] am i r(4) by (auto simp: arch_mem_map_def IS_PAGE_ALIGN_any split: if_splits)
  then have "fst (map_segs (segs_of ?m1) ?m1 ?k) = 0" by (simp add: segs_of_def split_beta)
  moreover have "mem (vms ?s1 1) = ?m1" "mm ?s1 = ?k" by (simp_all add: upd_mem_def upd_vm_def)
  ultimately show "fst (lkhv_map_ram 1 (snd (lkhv_alloc_mem (Some [seg0]) 1 ram_hv))) = 0"
    by (simp add: alloc lkhv_map_ram_def with_mem_def Let_def split_beta)
qed


end
