(* ===== verification/Vm_Image.thy ===== *)
theory Vm_Image
  imports Hv_Mem
begin

text \<open>
  Loading the image of a machine, \<^verbatim>\<open>hv/hv_image.c\<close>: the ELF file is read segment by segment into the RAM of the machine, at the
  physical address the software translation gives for the first byte of the segment, and the device tree
  into one of its blocks. The file system is a parameter: the result of opening a file, its size, and what a read returns and
  stores. An operation is \<open>None\<close> where the code writes through a NULL pointer or reads outside an array.
\<close>

section \<open>Bytes of memory\<close>

text \<open>A byte of kernel memory: byte \<open>a mod 8\<close> of the word at the multiple of 8 below \<open>a\<close>, little endian.\<close>

definition peek :: "mm_state \<Rightarrow> u64 \<Rightarrow> u8" where
  "peek s a = ucast (drop_bit (8 * unat (a AND 7)) (kmem s (a AND NOT 7)))"

definition poke_byte :: "u64 \<Rightarrow> u8 \<Rightarrow> mm_state \<Rightarrow> mm_state" where
  "poke_byte a b s =
     (let w = a AND NOT 7; sh = 8 * unat (a AND 7)
      in s\<lparr>kmem := (kmem s)(w := (kmem s w AND NOT (push_bit sh 0xFF)) OR push_bit sh (ucast b))\<rparr>)"

fun store_bytes :: "u64 \<Rightarrow> u8 list \<Rightarrow> mm_state \<Rightarrow> mm_state" where
  "store_bytes a [] s = s"
| "store_bytes a (b # bs) s = store_bytes (a + 1) bs (poke_byte a b s)"

definition write_to :: "u64 \<Rightarrow> u8 list \<Rightarrow> mm_state \<Rightarrow> mm_state option" where
  "write_to kva bs s = (if kva = 0 \<and> bs \<noteq> [] then None else Some (store_bytes kva bs s))"

section \<open>Files and headers\<close>

record filesys =
  fs_open_file :: "string \<Rightarrow> int"
  fs_stat_file :: "string \<Rightarrow> int \<times> u64"
  fs_read_file :: "string \<Rightarrow> u64 \<Rightarrow> u64 \<Rightarrow> int \<times> u8 list"

text \<open>What a file system documents of a read: the value returned, when not an error, is the number of bytes stored.\<close>

definition fs_ok :: "filesys \<Rightarrow> bool" where
  "fs_ok fs \<longleftrightarrow> (\<forall>f off n r bs. fs_read_file fs f off n = (r, bs) \<longrightarrow> 0 \<le> r \<longrightarrow> r = int (length bs) \<and> length bs \<le> unat n)"

record eheader =
  e_ident :: "u8 list"
  e_type :: u16
  e_machine :: u16
  e_version :: u32
  e_entry :: u64
  e_phoff :: u64
  e_shoff :: u64
  e_flags :: u32
  e_ehsize :: u16
  e_phentsize :: u16
  e_phnum :: u16
  e_shentsize :: u16
  e_shnum :: u16
  e_shstrndx :: u16

record pheader =
  p_type :: u32
  p_flags :: u32
  p_offset :: u64
  p_vaddr :: u64
  p_paddr :: u64
  p_filesz :: u64
  p_memsz :: u64
  p_align :: u64

definition field :: "u8 list \<Rightarrow> nat \<Rightarrow> nat \<Rightarrow> u64" where
  "field bs off n = of_le_bytes (take n (drop off bs))"

definition eheader_of :: "u8 list \<Rightarrow> eheader" where
  "eheader_of bs = \<lparr>e_ident = take 16 bs, e_type = ucast (field bs 16 2), e_machine = ucast (field bs 18 2),
     e_version = ucast (field bs 20 4), e_entry = field bs 24 8, e_phoff = field bs 32 8, e_shoff = field bs 40 8,
     e_flags = ucast (field bs 48 4), e_ehsize = ucast (field bs 52 2), e_phentsize = ucast (field bs 54 2),
     e_phnum = ucast (field bs 56 2), e_shentsize = ucast (field bs 58 2), e_shnum = ucast (field bs 60 2),
     e_shstrndx = ucast (field bs 62 2)\<rparr>"

definition pheader_of :: "u8 list \<Rightarrow> pheader" where
  "pheader_of bs = \<lparr>p_type = ucast (field bs 0 4), p_flags = ucast (field bs 4 4), p_offset = field bs 8 8,
     p_vaddr = field bs 16 8, p_paddr = field bs 24 8, p_filesz = field bs 32 8, p_memsz = field bs 40 8,
     p_align = field bs 48 8\<rparr>"

definition verify_eheader :: "eheader \<Rightarrow> int" where
  "verify_eheader h =
     (if take 4 (e_ident h) \<noteq> [0x7F, 0x45, 0x4C, 0x46] then ERR_NOT_FOUND
      else if e_ident h ! 4 \<noteq> 2 then ERR_NOT_FOUND
      else if e_ident h ! 5 \<noteq> 1 then ERR_NOT_FOUND
      else if e_ident h ! 6 \<noteq> 1 then ERR_NOT_FOUND
      else if e_phoff h = 0 then ERR_NOT_FOUND
      else if e_phentsize h < 56 then ERR_NOT_FOUND
      else if e_machine h \<noteq> 183 then ERR_NOT_FOUND
      else NO_ERROR)"

section \<open>Loading\<close>

definition vm_load_fit :: "ptr \<Rightarrow> hv_state \<Rightarrow> int" where
  "vm_load_fit vm s = 0"

definition load_pl :: "filesys \<Rightarrow> string \<Rightarrow> arch_vm_mem \<Rightarrow> pheader \<Rightarrow> mm_state \<Rightarrow> (int \<times> mm_state) option" where
  "load_pl fs im_file am pl_hdr s =
     (if p_type pl_hdr \<noteq> 1 then Some (0, s)
      else
        let f_size = sint (p_filesz pl_hdr); m_size = sint (p_memsz pl_hdr);
            ld_paddr = ipa_to_pa am (p_paddr pl_hdr) s
        in if ld_paddr = 0 then Some (ERR_NOT_FOUND, s)
           else
             let kvaddr = paddr_to_kvaddr s ld_paddr;
                 (ret, bs) = fs_read_file fs im_file (p_offset pl_hdr) (of_int f_size)
             in do {
                  s \<leftarrow> write_to kvaddr bs s;
                  if ret \<noteq> f_size then Some (ERR_IO, s)
                  else
                    let m_zero = m_size - f_size
                    in if 0 < m_zero
                       then map_option (Pair 0) (write_to (kvaddr + of_int f_size) (replicate (nat m_zero) 0) s)
                       else Some (0, s)
                })"

fun load_pls :: "filesys \<Rightarrow> string \<Rightarrow> arch_vm_mem \<Rightarrow> pheader list \<Rightarrow> mm_state \<Rightarrow> (int \<times> mm_state) option" where
  "load_pls fs im_file am [] s = Some (0, s)"
| "load_pls fs im_file am (h # hs) s =
     do {
       (ret, s) \<leftarrow> load_pl fs im_file am h s;
       if ret \<noteq> NO_ERROR then Some (ERR_IO, s) else load_pls fs im_file am hs s
     }"

text \<open>
  \<open>got\<close> is the outcome of \<^verbatim>\<open>malloc\<close> for the program headers; when it fails the code leaves with the value of the
  last check, which is \<^verbatim>\<open>NO_ERROR\<close>.
\<close>

definition vm_load_elf :: "filesys \<Rightarrow> bool \<Rightarrow> ptr \<Rightarrow> hv_state \<Rightarrow> (int \<times> hv_state) option" where
  "vm_load_elf fs got vm s =
     (let im_file = CHR ''/'' # inf_image (info (vms s vm)); ret = fs_open_file fs im_file
      in if ret \<noteq> NO_ERROR then Some (ret, s)
         else
           let (ret, bs) = fs_read_file fs im_file 0 64
           in if ret \<noteq> 64 then Some (ERR_IO, s)
              else
                let elf_hdr = eheader_of bs; ret = verify_eheader elf_hdr
                in if ret \<noteq> NO_ERROR then Some (ret, s)
                   else if \<not> got then Some (ret, s)
                   else
                     let phdr_num = unat (e_phnum elf_hdr);
                         (ret, bs) = fs_read_file fs im_file (e_phoff elf_hdr) (of_nat (phdr_num * 56))
                     in if ret \<noteq> int (phdr_num * 56) then Some (ERR_IO, s)
                        else do {
                          (ret, k) \<leftarrow> load_pls fs im_file (arch_mem (mem (vms s vm)))
                             (map (\<lambda>i. pheader_of (drop (56 * i) bs)) [0..<phdr_num]) (mm s);
                          let s = s\<lparr>mm := k\<rparr>
                          in Some (if ret \<noteq> NO_ERROR then (ret, s)
                               else (0, upd_vm vm (\<lambda>m. m\<lparr>info := (info m)\<lparr>inf_entry := e_entry elf_hdr\<rparr>\<rparr>) s))
                        })"

definition calc_fdt_pos :: "lk_vm \<Rightarrow> int option" where
  "calc_fdt_pos vm =
     (case mem_seg (mem vm) of
        None \<Rightarrow> None
      | Some [] \<Rightarrow> None
      | Some (seg # _) \<Rightarrow>
          Some (if seg_ipa seg \<le> inf_entry (info vm) \<and> inf_entry (info vm) \<le> seg_ipa seg + VM_MEM_BLOCK_2M
                then seg_num (mem vm) - 1 else 0))"

definition vm_load_fdt :: "filesys \<Rightarrow> ptr \<Rightarrow> hv_state \<Rightarrow> (int \<times> hv_state) option" where
  "vm_load_fdt fs vm s =
     (let fdt = inf_fdt (info (vms s vm)); dtb_file = CHR ''/'' # fdt
      in if fdt = [] then Some (0, s)
         else
           let ret = fs_open_file fs dtb_file
           in if ret \<noteq> NO_ERROR then Some (ret, s)
              else do {
                index \<leftarrow> calc_fdt_pos (vms s vm);
                segs \<leftarrow> mem_seg (mem (vms s vm));
                if index < 0 \<or> int (length segs) \<le> index then None
                else
                  let seg = segs ! nat index;
                      kva = paddr_to_kvaddr (mm s) (seg_pa seg);
                      (ret, size) = fs_stat_file fs dtb_file
                  in if ret \<noteq> NO_ERROR then Some (ret, s)
                     else
                       let (ret, bs) = fs_read_file fs dtb_file 0 size
                       in do {
                            k \<leftarrow> write_to kva bs (mm s);
                            let s = s\<lparr>mm := k\<rparr>
                            in Some (if ret \<noteq> sint size then (ERR_IO, s)
                                 else (0, upd_vm vm (\<lambda>m. m\<lparr>info := (info m)\<lparr>inf_args := seg_ipa seg\<rparr>\<rparr>) s))
                          }
              })"

section \<open>Bytes and blocks\<close>

lemma word_and_7_eqI: "x AND NOT 7 = y AND NOT 7 \<Longrightarrow> x AND 7 = y AND 7 \<Longrightarrow> x = (y :: u64)"
proof -
  assume "x AND NOT 7 = y AND NOT 7" "x AND 7 = y AND 7"
  moreover have "z = (z AND NOT 7) OR (z AND 7)" for z :: u64 by (rule bit_word_eqI) (auto simp: bit_simps)
  ultimately show "x = y" by metis
qed

lemma and_7_lt: "unat (a AND 7 :: u64) < 8"
proof -
  have "a AND 7 \<le> 7" by (rule word_and_le1)
  then show ?thesis by (simp add: word_le_nat_alt)
qed

lemma insert_byte:
  fixes w :: u64 and b :: u8
  assumes "i < 8" "j < 8"
  shows "(ucast (drop_bit (8 * j) ((w AND NOT (push_bit (8 * i) 0xFF)) OR push_bit (8 * i) (ucast b))) :: u8) =
    (if j = i then b else ucast (drop_bit (8 * j) w))"
proof -
  have m: "(0xFF :: u64) = mask 8" by (simp add: mask_eq_exp_minus_1)
  have "8 * j + n - 8 * i < 8 \<longleftrightarrow> j = i" if "8 * i \<le> 8 * j + n" "n < 8" for n using that by linarith
  moreover have "\<not> bit b n" if "\<not> n < 8" for n using bit_imp_le_length [of b n] that by auto
  ultimately show ?thesis unfolding m using assms by (intro bit_word_eqI) (auto simp: bit_simps)
qed

lemma peek_poke_byte: "peek (poke_byte a b s) x = (if x = a then b else peek s x)"
proof (cases "x AND NOT 7 = a AND NOT 7")
  case True
  have "x = a \<longleftrightarrow> unat (x AND 7) = unat (a AND 7)" using word_and_7_eqI [OF True] by (metis word_unat_eq_iff)
  then show ?thesis using True insert_byte [OF and_7_lt and_7_lt] by (simp add: peek_def poke_byte_def Let_def)
next
  case False
  then show ?thesis by (auto simp: peek_def poke_byte_def Let_def)
qed

lemma poke_byte_static: "same_static s (poke_byte a b s)" "arenas (poke_byte a b s) = arenas s"
  by (simp_all add: poke_byte_def Let_def same_static_def)

lemma store_bytes_static: "same_static s (store_bytes a bs s) \<and> arenas (store_bytes a bs s) = arenas s"
  by (induction bs arbitrary: a s) (auto simp: poke_byte_static intro: same_static_trans [OF poke_byte_static(1)])

lemma store_bytes_append: "store_bytes a (xs @ ys) s = store_bytes (a + of_nat (length xs)) ys (store_bytes a xs s)"
  by (induction xs arbitrary: a s) (simp_all add: add.assoc)

lemma unat_diff_Suc: "x \<noteq> a \<Longrightarrow> unat (x - a) = Suc (unat (x - (a + 1)))" for x a :: u64
proof -
  assume "x \<noteq> a"
  then have "x - a \<noteq> 0" by simp
  then have "unat (x - a - 1) = unat (x - a) - 1" "0 < unat (x - a)" by (rule unat_minus_one, rule unat_gt_0 [THEN iffD2])
  then have "Suc (unat (x - a - 1)) = unat (x - a)" by linarith
  then show ?thesis by (simp add: algebra_simps)
qed

lemma peek_store_bytes:
  "length bs \<le> 2 ^ 64 \<Longrightarrow> peek (store_bytes a bs s) x = (if unat (x - a) < length bs then bs ! unat (x - a) else peek s x)"
proof (induction bs arbitrary: a s)
  case (Cons b bs)
  then have *: "peek (store_bytes a (b # bs) s) x =
      (if unat (x - (a + 1)) < length bs then bs ! unat (x - (a + 1)) else if x = a then b else peek s x)"
    by (simp add: peek_poke_byte)
  show ?case
  proof (cases "x = a")
    case True
    have "a - (a + 1) = 0xFFFFFFFFFFFFFFFF" by simp
    then have "unat (a - (a + 1)) = 2 ^ 64 - 1" by (simp only:) simp
    then show ?thesis unfolding * using True Cons.prems by auto
  next
    case False
    then show ?thesis unfolding * unat_diff_Suc [OF False] by simp
  qed
qed simp

lemma kmem_store_bytes:
  "(\<And>i. i < length bs \<Longrightarrow> c \<noteq> (a + of_nat i) AND NOT 7) \<Longrightarrow> kmem (store_bytes a bs s) c = kmem s c"
proof (induction bs arbitrary: a s)
  case (Cons b bs)
  have "c \<noteq> (a + 1 + of_nat i) AND NOT 7" if "i < length bs" for i using Cons.prems [of "Suc i"] that by (simp add: algebra_simps)
  moreover have "c \<noteq> a AND NOT 7" using Cons.prems [of 0] by simp
  ultimately show ?case using Cons.IH by (simp add: poke_byte_def Let_def)
qed simp

lemma in_block:
  fixes ipa :: u64
  assumes "unat (take_bit 21 ipa) + j < 2 ^ 21"
  shows "drop_bit 21 (ipa + of_nat j) = drop_bit 21 ipa" "take_bit 21 (ipa + of_nat j) = take_bit 21 ipa + of_nat j"
proof -
  let ?t = "take_bit 21 ipa + of_nat j"
  have "unat ?t = unat (take_bit 21 ipa) + j"
  proof -
    have "unat (of_nat j :: u64) = j" using assms by (simp add: unat_of_nat take_bit_eq_mod)
    moreover from this have "unat (take_bit 21 ipa) + unat (of_nat j :: u64) < 2 ^ LENGTH(64)" using assms by simp
    ultimately show ?thesis using unat_add_lem [of "take_bit 21 ipa" "of_nat j"] by simp
  qed
  then have "?t < 2 ^ 21" using assms by (simp add: word_less_nat_alt)
  then have t: "take_bit 21 ?t = ?t" by (simp add: less_mask_eq take_bit_eq_mask)
  have "ipa + of_nat j = push_bit 21 (drop_bit 21 ipa) + ?t" using bits_ident [of 21 ipa] by (simp add: algebra_simps)
  moreover have "push_bit 21 (drop_bit 21 ipa) AND take_bit 21 ?t = 0" by (rule bit_word_eqI) (simp add: bit_simps)
  ultimately have "ipa + of_nat j = push_bit 21 (drop_bit 21 ipa) OR ?t" unfolding t by (simp only: disjunctive_add_eq_or)
  then have e: "ipa + of_nat j = push_bit 21 (drop_bit 21 ipa) OR take_bit 21 ?t" unfolding t .
  show "drop_bit 21 (ipa + of_nat j) = drop_bit 21 ipa" unfolding e
    by (rule bit_word_eqI) (auto simp: bit_simps dest: bit_imp_le_length)
  show "take_bit 21 (ipa + of_nat j) = ?t" unfolding e
    by (subst (2) t [symmetric], rule bit_word_eqI) (auto simp: bit_simps)
qed

lemma same_block_index:
  assumes "geom_ok s" "drop_bit 21 x = (drop_bit 21 y :: u64)"
  shows "pte_index s x 2 = pte_index s y 2" "path s x 2 = path s y 2"
proof -
  have b: "bit x n = bit y n" if "21 \<le> n" for n
    using arg_cong [OF assms(2), of "\<lambda>w. bit w (n - 21)"] that by (simp add: bit_simps)
  have i: "pte_index s x l = pte_index s y l" if "l \<le> 2" for l
    using that b by (intro bit_word_eqI) (auto simp: bit_pte_index [OF assms(1)] level_shift_def)
  from i [of 2] show "pte_index s x 2 = pte_index s y 2" by simp
  show "path s x 2 = path s y 2" using i by (simp add: path_def)
qed

lemma leaf_out_add:
  assumes "unat (take_bit 21 ipa) + j < 2 ^ 21"
  shows "leaf_out e (ipa + of_nat j) 21 = leaf_out e ipa 21 + of_nat j"
proof -
  have "leaf_out e x 21 = (e AND MMU_OA_RANGE_MASK AND NOT (mask 21)) + take_bit 21 x" for x
    unfolding leaf_out_def take_bit_eq_mask
    by (rule disjunctive_add_eq_or [symmetric]) (rule bit_word_eqI, auto simp: bit_simps)
  then show ?thesis using in_block(2) [OF assms] by simp
qed

lemma sint_small: "unat (w :: u64) < 2 ^ 63 \<Longrightarrow> sint w = int (unat w)"
proof -
  assume "unat w < 2 ^ 63"
  then have "int (unat w) < int (2 ^ 63)" by (rule of_nat_less_iff [THEN iffD2])
  then have "int (unat w) < 2 ^ 63" unfolding of_nat_power of_nat_numeral .
  moreover have "- (2 ^ 63) \<le> int (unat w)" by (rule order_trans [of _ 0]) simp_all
  ultimately have "signed_take_bit 63 (int (unat w)) = int (unat w)" using signed_take_bit_int_eq_self by blast
  then show ?thesis by (simp add: sint_uint)
qed

lemma load_pl_stores:
  assumes "fs_ok fs" "p_type h = 1" "p_filesz h \<le> p_memsz h" "unat (p_memsz h) < 2 ^ 63"
    and "fs_read_file fs f (p_offset h) (p_filesz h) = (sint (p_filesz h), bs)"
    and "ipa_to_pa am (p_paddr h) s = pa" "pa \<noteq> 0" "paddr_to_kvaddr s pa \<noteq> 0" "unat (paddr_to_kvaddr s pa) + unat (p_memsz h) \<le> 2 ^ 64"
    and zs: "zs = bs @ replicate (unat (p_memsz h) - unat (p_filesz h)) 0"
  shows "length bs = unat (p_filesz h)" "length zs = unat (p_memsz h)"
    "load_pl fs f am h s = Some (0, store_bytes (paddr_to_kvaddr s pa) zs s)"
proof -
  have le: "unat (p_filesz h) \<le> unat (p_memsz h)" using assms(3) by (simp add: word_le_nat_alt)
  have si: "sint (p_filesz h) = int (unat (p_filesz h))" "sint (p_memsz h) = int (unat (p_memsz h))"
    using sint_small assms(4) le_less_trans [OF le assms(4)] by blast+
  show l: "length bs = unat (p_filesz h)" 
    using assms(1) assms(5) [unfolded si] unfolding fs_ok_def by (metis nat_int of_nat_0_le_iff)
  then show "length zs = unat (p_memsz h)" using le zs by simp
  have "nat (sint (p_memsz h) - sint (p_filesz h)) = unat (p_memsz h) - unat (p_filesz h)" unfolding si by linarith
  moreover have "paddr_to_kvaddr s pa + p_filesz h \<noteq> 0" if "unat (p_filesz h) < unat (p_memsz h)"
  proof -
    have "unat (paddr_to_kvaddr s pa) + unat (p_filesz h) < 2 ^ LENGTH(64)" using that assms(9) by simp
    then have "unat (paddr_to_kvaddr s pa + p_filesz h) = unat (paddr_to_kvaddr s pa) + unat (p_filesz h)" by (simp only: unat_add_lem)
    then show ?thesis using assms(8) by (metis add_is_0 unat_0 unat_eq_zero)
  qed
  moreover have "unat (p_memsz h) - unat (p_filesz h) = 0" if "\<not> p_filesz h < p_memsz h" using that by (simp add: word_less_nat_alt)
  ultimately show "load_pl fs f am h s = Some (0, store_bytes (paddr_to_kvaddr s pa) zs s)"
    using assms(2,5-8) l le si by (auto simp: word_less_nat_alt [symmetric] word_less_def [symmetric] load_pl_def write_to_def Let_def zs store_bytes_append)
qed

text \<open>
  C12. Loading a segment puts the file where the guest sees it. For a loadable segment that lies inside one 2 MB block mapped for the machine, with
  the block linearly mapped for the hypervisor and no stage-2 table inside it, \<^verbatim>\<open>load_pl\<close> returns success; a guest that reads
  through its stage-2 tables finds the bytes of the file from \<^verbatim>\<open>p_paddr\<close> on and zeros from the end of the file data to \<^verbatim>\<open>p_memsz\<close>; the tables translate every
  address as before, and no other byte of memory changes.
\<close>

theorem load_pl_correct:
  fixes s :: mm_state and am :: arch_vm_mem and h :: pheader and k :: u64
  defines "r \<equiv> st2_root_kva am" and "ipa \<equiv> p_paddr h" and "len \<equiv> unat (p_memsz h)"
  defines "e \<equiv> kmem s (slot k (pte_index s ipa 2))"
  defines "pa \<equiv> leaf_out e ipa (level_shift 2)"
  defines "kv \<equiv> paddr_to_kvaddr s pa"
  assumes fs: "fs_ok fs" "fs_read_file fs f (p_offset h) (p_filesz h) = (sint (p_filesz h), bs)"
    and seg: "p_type h = 1" "p_filesz h \<le> p_memsz h" "unat (take_bit 21 ipa) + len \<le> 2 ^ 21"
    and blk: "geom_ok s" "r \<noteq> 0" "ipa AND NOT MMU_OA_RANGE_MASK = 0" "st2_node s r (path s ipa 2) k" "bit e 0" "\<not> bit e 1" "pa \<noteq> 0" "kv \<noteq> 0" "unat kv + len \<le> 2 ^ 64"
    and lin: "\<forall>j<len. paddr_to_kvaddr s (pa + of_nat j) = kv + of_nat j"
    and sep: "\<forall>p k i j. st2_node s r p k \<longrightarrow> unat i < lim s p \<longrightarrow> j < len \<longrightarrow> slot k i \<noteq> (kv + of_nat j) AND NOT 7"
  shows "\<exists>s'. load_pl fs f am h s = Some (0, s') \<and>
    (\<forall>j<len. map_option (\<lambda>a. peek s' (paddr_to_kvaddr s' a)) (st2_translate r (ipa + of_nat j) s') =
       Some (if j < length bs then bs ! j else 0)) \<and>
    (\<forall>x. st2_translate r x s' = st2_translate r x s) \<and> (\<forall>a. len \<le> unat (a - kv) \<longrightarrow> peek s' a = peek s a) \<and> arenas s' = arenas s"
proof -
  define zs where "zs = bs @ replicate (unat (p_memsz h) - unat (p_filesz h)) 0"
  have lt: "unat (p_memsz h) < 2 ^ 63" using seg(3) unfolding len_def by simp
  have "ipa_to_pa am (p_paddr h) s = pa"
    using ipa_to_pa_block(1) [OF blk(1) _ blk(3), of am k e] blk(2,4-6) by (simp add: r_def pa_def e_def ipa_def)
  note ld = load_pl_stores [OF fs(1) seg(1,2) lt fs(2) this blk(7) blk(8) [unfolded kv_def] blk(9) [unfolded kv_def len_def] zs_def, folded kv_def len_def]
  let ?s = "store_bytes kv zs s"
  have st: "same_static s ?s" "arenas ?s = arenas s" using store_bytes_static by simp_all
  have tr: "st2_translate r x ?s = st2_translate r x s" for x
    using sep ld(2) by (intro translate_same [OF st(1) blk(1)] kmem_store_bytes) (auto simp: slot_at_def)
  have len: "length zs \<le> 2 ^ 64" unfolding ld(2) using lt unfolding len_def by simp
  have "map_option (\<lambda>a. peek ?s (paddr_to_kvaddr ?s a)) (st2_translate r (ipa + of_nat j) ?s) = Some (if j < length bs then bs ! j else 0)"
    if j: "j < len" for j
  proof -
    have b: "unat (take_bit 21 ipa) + j < 2 ^ 21" using j seg(3) by linarith
    note eqs = same_block_index [OF blk(1) in_block(1) [OF b]]
    have "st2_translate r (ipa + of_nat j) s = Some (leaf_out e (ipa + of_nat j) (level_shift 2))"
      using walk_descend [of s r "ipa + of_nat j" 2 k] blk(1,4-6) unfolding eqs geom_ok_def
      by (simp add: eqs e_def [symmetric] Let_def del: One_nat_def)
    also have "leaf_out e (ipa + of_nat j) (level_shift 2) = pa + of_nat j"
      using leaf_out_add [OF b] by (simp add: level_shift_def pa_def)
    finally have "st2_translate r (ipa + of_nat j) ?s = Some (pa + of_nat j)" unfolding tr .
    moreover have "unat (of_nat j :: u64) = j" using j lt by (simp add: unat_of_nat take_bit_eq_mod len_def)
    then have "peek ?s (kv + of_nat j) = zs ! j" using peek_store_bytes [OF len] j ld(2) by simp
    moreover have "zs ! j = (if j < length bs then bs ! j else 0)" using j ld(1,2) by (auto simp: zs_def nth_append)
    ultimately show ?thesis using lin j static_eqs [OF st(1)] by simp
  qed
  moreover have "peek ?s a = peek s a" if "len \<le> unat (a - kv)" for a using peek_store_bytes [OF len] ld(2) that by simp
  ultimately show ?thesis using ld(3) tr st(2) by blast
qed

definition mm_block_ex :: mm_state where
  "mm_block_ex = mm_ex1\<lparr>kmem := (\<lambda>_. 0)(0xFFFF000000001010 := 0x2003, 0xFFFF000000002000 := 0x8000001)\<rparr>"

definition fs_ex :: filesys where
  "fs_ex = \<lparr>fs_open_file = \<lambda>_. 0, fs_stat_file = \<lambda>_. (0, 3), fs_read_file = \<lambda>_ off n. let bs = take (unat n) (drop (unat off) [1, 2, 3]) in (int (length bs), bs)\<rparr>"

definition ph_ex :: pheader where
  "ph_ex = \<lparr>p_type = 1, p_flags = 5, p_offset = 0, p_vaddr = 0x80000010, p_paddr = 0x80000010, p_filesz = 3, p_memsz = 5, p_align = 0\<rparr>"

lemma fs_ex_ok: "fs_ok fs_ex" "fs_read_file fs_ex f 0 3 = (sint (3 :: u64), [1, 2, 3])"
  by (simp_all add: fs_ok_def fs_ex_def Let_def)

lemma block_ex:
  "geom_ok mm_block_ex" "root_level mm_block_ex = 1" "pte_index mm_block_ex 0x80000010 2 = 0" "pte_index mm_block_ex 0x80000010 (Suc 0) = 2"
  "kmem mm_block_ex = (\<lambda>_. 0)(0xFFFF000000001010 := 0x2003, 0xFFFF000000002000 := 0x8000001)"
  "paddr_to_kvaddr mm_block_ex pa = (if pa \<le> 0xFFFFFFF then 0xFFFF000000000000 + pa else 0)"
  "lim mm_block_ex p = 512"
  using mm_ex_kva by (simp_all add: geom_ok_def lim_def pte_index_def mm_block_ex_def mm_ex1_def paddr_to_kvaddr_def)

lemma block_ex_nodes: "st2_node mm_block_ex 0xFFFF000000001000 p k \<Longrightarrow> k \<in> {0xFFFF000000001000, 0xFFFF000000002000}"
  by (induction rule: st2_node.induct) (auto simp: block_ex pte_table_address_def split: if_splits)

lemma block_ex_node: "st2_node mm_block_ex 0xFFFF000000001000 (path mm_block_ex 0x80000010 2) 0xFFFF000000002000"
  using st2_node.step [OF st2_node.root [of mm_block_ex "0xFFFF000000001000"], of 2]
  by (simp add: path_def block_ex upt_rec slot_def pte_table_address_def)

theorem load_pl_witness:
  "\<exists>s'. load_pl fs_ex ''/vm'' am_ex ph_ex mm_block_ex = Some (0, s') \<and>
     map_option (\<lambda>a. peek s' (paddr_to_kvaddr s' a)) (st2_translate 0xFFFF000000001000 0x80000012 s') = Some 3"
proof -
  have r: "st2_root_kva am_ex = 0xFFFF000000001000" by (simp add: am_ex_def)
  have h: "p_type ph_ex = 1" "p_paddr ph_ex = 0x80000010" "p_filesz ph_ex = 3" "p_memsz ph_ex = 5" "p_offset ph_ex = 0" by (simp_all add: ph_ex_def)
  have e: "kmem mm_block_ex (slot 0xFFFF000000002000 0) = 0x8000001" by (simp add: block_ex slot_def)
  have pa: "leaf_out 0x8000001 0x80000010 (level_shift 2) = 0x8000010" by (simp add: leaf_out_def level_shift_def mask_eq_exp_minus_1)
  have kv: "paddr_to_kvaddr mm_block_ex 0x8000010 = 0xFFFF000008000010" by (simp add: block_ex)
  have j: "j \<in> {0, 1, 2, 3, 4}" if "j < 5" for j :: nat using that by auto
  have sep: "slot k i \<noteq> (0xFFFF000008000010 + of_nat j) AND NOT 7"
    if "st2_node mm_block_ex 0xFFFF000000001000 p k" "unat i < lim mm_block_ex p" "j < 5" for p k i j
  proof -
    have "in_page k (slot k i)" using that(2) by (intro slot_in_page) (simp add: block_ex)
    moreover have "\<not> in_page k ((0xFFFF000008000010 + of_nat j) AND NOT 7)"
      using block_ex_nodes [OF that(1)] j [OF that(3)] by (auto simp: in_page_def)
    ultimately show ?thesis by metis
  qed
  have lin: "\<forall>j<5. paddr_to_kvaddr mm_block_ex (0x8000010 + of_nat j) = 0xFFFF000008000010 + of_nat j"
    by (auto simp: block_ex(6) dest!: j)
  have len: "unat (p_memsz ph_ex) = 5" "take_bit 21 (0x80000010 :: u64) = 0x10" by (simp_all add: h)
  obtain s' where "load_pl fs_ex ''/vm'' am_ex ph_ex mm_block_ex = Some (0, s')"
    "\<forall>j<5. map_option (\<lambda>a. peek s' (paddr_to_kvaddr s' a)) (st2_translate 0xFFFF000000001000 (0x80000010 + of_nat j) s') =
       Some (if j < length [1, 2, 3 :: u8] then [1, 2, 3] ! j else 0)"
    using load_pl_correct [of fs_ex "''/vm''" ph_ex "[1, 2, 3]" mm_block_ex am_ex "0xFFFF000000002000"] fs_ex_ok block_ex_node sep lin block_ex(1)
    unfolding len unfolding h r block_ex(3) e pa kv len by auto
  then show ?thesis by (auto dest!: spec [of _ 2])
qed

end
