(* ===== verification/Vm.thy ===== *)
theory Vm
  imports Vm_Image Vgic_Mmio
begin

text \<open>
  Virtual machines, \<^verbatim>\<open>hv/hv_vm.c\<close>: the list of machines, their resources, start and shutdown; the entry
  points of the threads of virtual CPUs (\<^verbatim>\<open>hv/hv_vcpu.c\<close>, lines 76 to 143), which end in the guest; and the handler of the
  events between CPUs (\<^verbatim>\<open>hv/hv_event.c\<close>).

  A function that gives up its CPU for another thread does not go on until its thread is scheduled again. Its result is a
  \<open>run\<close>: it is done, or the CPU has switched to another thread and the rest of the function waits for a later state, or
  it has crashed.
\<close>

section \<open>Functions that may give up the CPU\<close>

datatype 'a run = Done 'a hv_state | Switch hv_state "hv_state \<Rightarrow> 'a run" | Crash

primrec bind_run :: "'a run \<Rightarrow> ('a \<Rightarrow> hv_state \<Rightarrow> 'b run) \<Rightarrow> 'b run" where
  "bind_run (Done a s) f = f a s"
| "bind_run (Switch s k) f = Switch s (\<lambda>s. bind_run (k s) f)"
| "bind_run Crash f = Crash"

definition run_of_option :: "(hv_state \<times> 'a) option \<Rightarrow> 'a run" where
  "run_of_option r = (case r of None \<Rightarrow> Crash | Some (s, a) \<Rightarrow> Done a s)"

section \<open>The list of machines\<close>

definition lkhv_alloc_vm :: "ptr \<Rightarrow> hv_state \<Rightarrow> hv_state \<times> ptr" where
  "lkhv_alloc_vm block s = (if block = 0 then (s, 0) else (upd_vm block (\<lambda>_. zero_vm) s, block))"

definition hv_vm_init :: "hv_state \<Rightarrow> hv_state" where
  "hv_vm_init s = s\<lparr>vm_list := []\<rparr>"

definition vm_add :: "ptr \<Rightarrow> hv_state \<Rightarrow> hv_state" where
  "vm_add vm s = s\<lparr>vm_list := vm_list s @ [vm]\<rparr>"

definition lkhv_mv_get :: "string \<Rightarrow> hv_state \<Rightarrow> ptr" where
  "lkhv_mv_get name s =
     (case find (\<lambda>vm. inf_name (info (vms s vm)) = name) (vm_list s) of None \<Rightarrow> 0 | Some vm \<Rightarrow> vm)"

text \<open>\<open>arr\<close> and \<open>blocks\<close> are the pointers \<^verbatim>\<open>malloc\<close> returned for the virtual CPUs.\<close>

definition lkhv_init_vm :: "ptr \<Rightarrow> (nat \<Rightarrow> ptr \<times> ptr \<times> ptr) \<Rightarrow> ptr \<Rightarrow> hv_state \<Rightarrow> hv_state \<times> int" where
  "lkhv_init_vm arr blocks vm s =
     (case hv_vm_init_vcpu arr blocks vm s of
        (s, ret) \<Rightarrow> if ret < 0 then (s, -1) else (vm_add vm s, 0))"

section \<open>Resources of a machine\<close>

text \<open>
  What the environment supplies: the file system, the outcomes of \<^verbatim>\<open>malloc\<close> for the program headers, the array of memory
  blocks, the interrupt controller and its two MMIO ranges, and what the device tree says about the interrupt controller.
\<close>

record vm_env =
  env_fs :: filesys
  got_phdrs :: bool
  got_segs :: "phy_mem_seg list option"
  got_vgic :: bool
  got_dist :: bool
  got_redist :: bool
  irq_cfg :: vgic_cfg

abbreviation (input) IMAGE_ELF :: int where "IMAGE_ELF \<equiv> 1"
abbreviation (input) IMAGE_FIT :: int where "IMAGE_FIT \<equiv> 2"

definition lkhv_vm_load :: "vm_env \<Rightarrow> ptr \<Rightarrow> hv_state \<Rightarrow> (int \<times> hv_state) option" where
  "lkhv_vm_load env vm s =
     (if is_load (vms s vm) then Some (0, s)
      else do {
        (ret, s) \<leftarrow>
          (if inf_image_type (info (vms s vm)) = IMAGE_ELF then
             do {
               (ret, s) \<leftarrow> vm_load_elf (env_fs env) (got_phdrs env) vm s;
               if ret \<noteq> NO_ERROR then Some (ret, s) else vm_load_fdt (env_fs env) vm s
             }
           else if inf_image_type (info (vms s vm)) = IMAGE_FIT then Some (vm_load_fit vm s, s)
           else Some (ERR_NOT_SUPPORTED, s));
        Some (ret, if ret = 0 then upd_vm vm (\<lambda>m. m\<lparr>is_load := True\<rparr>) s else s)
      })"

definition lkhv_vm_init :: "vm_env \<Rightarrow> ptr \<Rightarrow> hv_state \<Rightarrow> (int \<times> hv_state) option" where
  "lkhv_vm_init env vm s =
     (case lkhv_alloc_mem (got_segs env) vm s of
        (ret, s) \<Rightarrow>
          if ret < 0 then Some (ERR_NO_MEMORY, s)
          else (case lkhv_map_ram vm s of
            (ret, s) \<Rightarrow>
              if ret < 0 then Some (ret, lkhv_vm_free_mem vm s)
              else
                let s = snd (lkhv_map_test_serial vm s)
                in do {
                     (ret, s) \<leftarrow> lkhv_vm_load env vm s;
                     if ret < 0 then Some (ret, lkhv_vm_free_mem vm (lkhv_unmap_ram vm s))
                     else do {
                       (s, ret) \<leftarrow> hv_vm_irq_init (got_vgic env) (got_dist env) (irq_cfg env) vm
                          (upd_vm vm (\<lambda>m. m\<lparr>vm_mmio := hv_vm_mmio_init\<rparr>) s);
                       if ret < 0 then Some (ret, lkhv_vm_free_mem vm (lkhv_unmap_ram vm s))
                       else Some (0, s)
                     }
                   }))"

definition lkhv_vm_deinit :: "ptr \<Rightarrow> hv_state \<Rightarrow> hv_state" where
  "lkhv_vm_deinit vm s = lkhv_vm_free_mem vm (lkhv_unmap_ram vm s)"

section \<open>Start and shutdown\<close>

definition lkhv_vm_start :: "ptr \<Rightarrow> hv_state \<Rightarrow> hv_state \<times> int" where
  "lkhv_vm_start vm s = hv_vcpu_start (vm_vcpu (vms s vm) (nat (primary_cpu (vms s vm)))) s"

definition lkhv_start_vm :: "string \<Rightarrow> hv_state \<Rightarrow> hv_state \<times> int" where
  "lkhv_start_vm name s =
     (let vm = lkhv_mv_get name s in if vm = 0 then (s, ERR_NOT_FOUND) else lkhv_vm_start vm s)"

text \<open>The loop over the other virtual CPUs, with the flag \<^verbatim>\<open>sched\<close>.\<close>

fun poweroff_others :: "ptr \<Rightarrow> ptr list \<Rightarrow> bool \<Rightarrow> hv_state \<Rightarrow> (hv_state \<times> int \<times> bool) option" where
  "poweroff_others v [] sched s = Some (s, 0, sched)"
| "poweroff_others v (o_vcpu # vs) sched s =
     (if o_vcpu = v then poweroff_others v vs sched s
      else do {
        (s, ret) \<leftarrow> hv_vcpu_poweroff o_vcpu s;
        if ret < 0 then Some (s, ret, sched) else poweroff_others v vs (sched \<or> ret = VCPU_RESCHED_EXIT) s
      })"

definition vcpus_of :: "hv_state \<Rightarrow> ptr \<Rightarrow> ptr list" where
  "vcpus_of s vm = map (vm_vcpu (vms s vm)) [0..<nat (vcpu_num (vms s vm))]"

definition lkhv_shutdown_vm :: "ptr \<Rightarrow> hv_state \<Rightarrow> int run" where
  "lkhv_shutdown_vm vm s =
     (let v = current_vcpu s
      in if v = 0 then Done ERR_NOT_FOUND s
         else if status (vcpus s v) = VCPU_SHUTDOWN then Done 0 s
         else (case poweroff_others v (vcpus_of s vm) False s of
           None \<Rightarrow> Crash
         | Some (s, ret, sched) \<Rightarrow>
             if ret < 0 then Done ret s
             else (case hv_vcpu_poweroff v s of
               None \<Rightarrow> Crash
             | Some (s, ret) \<Rightarrow>
                 if ret < 0 then Done ret s
                 else
                   let sched = (sched \<or> ret = VCPU_RESCHED_EXIT);
                       s = lkhv_vm_free_mem vm s
                   in if sched then Switch (thread_block s) (Done 0) else Done 0 s)))"

section \<open>The threads of virtual CPUs\<close>

text \<open>
  \<^verbatim>\<open>hv_arch_vcpu_launch\<close> leaves for the guest with \<^verbatim>\<open>eret\<close> and does not return: the program counter is in \<^verbatim>\<open>elr_el2\<close> and the
  argument in \<^verbatim>\<open>x0\<close>. A thread that returns instead has the value.
\<close>

datatype launch = Entered u64 hv_state | Returned int hv_state

definition hv_arch_vcpu_launch :: "u64 \<Rightarrow> u64 \<Rightarrow> hv_state \<Rightarrow> launch" where
  "hv_arch_vcpu_launch entry arg s =
     (let s = ARM64_WRITE_SYSREG (EL1 SCTLR_EL1) 0xc50838 s;
          s = ARM64_WRITE_SYSREG SPSR_EL2 0xc5 s;
          s = ARM64_WRITE_SYSREG ELR_EL2 entry s;
          s = ARM64_WRITE_SYSREG VPIDR_EL2 (ARM64_READ_SYSREG MIDR_EL1 s) s
      in Entered arg s)"

definition vcpu_start_common :: "vm_env \<Rightarrow> ptr \<Rightarrow> hv_state \<Rightarrow> launch option" where
  "vcpu_start_common env v s =
     do {
       s \<leftarrow> hv_vcpu_irq_init (got_redist env) v (hv_vcpu_arch_init v s);
       let s = hv_vcpu_vtimer_init v s;
           s = upd_vcpu v (\<lambda>c. c\<lparr>is_inited := True\<rparr>) s;
           s = vcpu_switch_to v s
       in Some (hv_arch_vcpu_launch (vcpu_entry (vcpus s v)) (vcpu_args (vcpus s v)) s)
     }"

definition vcpu_entry_primary :: "vm_env \<Rightarrow> ptr \<Rightarrow> hv_state \<Rightarrow> launch option" where
  "vcpu_entry_primary env v s =
     (let vm = vcpu_vm (vcpus s v)
      in do {
           (ret, s) \<leftarrow> lkhv_vm_init env vm s;
           if ret < 0 then Some (Returned (-1) s)
           else vcpu_start_common env v
             (upd_vcpu v (\<lambda>c. c\<lparr>vcpu_entry := inf_entry (info (vms s vm)), vcpu_args := inf_args (info (vms s vm))\<rparr>) s)
         })"

definition vcpu_entry_secondary :: "vm_env \<Rightarrow> ptr \<Rightarrow> hv_state \<Rightarrow> launch option" where
  "vcpu_entry_secondary env v s = vcpu_start_common env v s"

section \<open>Events\<close>

text \<open>The table \<^verbatim>\<open>e_cb\<close>; an identifier outside it is read from beyond the array.\<close>

definition e_cb :: "u16 \<Rightarrow> ptr \<Rightarrow> hv_state \<Rightarrow> int run" where
  "e_cb i v s =
     (if i = 0 then Done 0 s
      else if i = HV_EVENT_VCPU_STOP then run_of_option (hv_vcpu_stop v s)
      else if i = HV_EVENT_VCPU_START \<or> i = HV_EVENT_VCPU_POWERON then run_of_option (Some (hv_vcpu_start v s))
      else if i = HV_EVENT_VCPU_POWEROFF then run_of_option (hv_vcpu_poweroff v s)
      else if i = HV_EVENT_VM_POWEROFF then lkhv_shutdown_vm (vcpu_vm (vcpus s v)) s
      else Crash)"

definition hv_event_handler :: "hv_state \<Rightarrow> int run" where
  "hv_event_handler s =
     (case recv_event s of
        None \<Rightarrow> Crash
      | Some (s, None) \<Rightarrow> Done INT_NO_RESCHEDULE s
      | Some (s, Some e) \<Rightarrow> e_cb (e_id e) (event_vcpu e) s)"

section \<open>What scheduling and power management leave alone\<close>

definition res_part :: "hv_state \<Rightarrow> mm_state \<times> (ptr \<Rightarrow> lk_vm) \<times> ptr list" where
  "res_part s = (mm s, vms s, vm_list s)"

lemma res_part_upd [simp]:
  "res_part (ARM64_WRITE_SYSREG r x s) = res_part s" "res_part (ARM64_WRITE_ICC i x s) = res_part s"
  "res_part (upd_vcpu v f s) = res_part s" "res_part (upd_virq q g s) = res_part s" "res_part (gic_put w s) = res_part s"
  "res_part (upd_thread t h s) = res_part s" "res_part (set_status v st s) = res_part s"
  "res_part (s\<lparr>vcpu_data := d\<rparr>) = res_part s" "res_part (s\<lparr>cpu_event := ev\<rparr>) = res_part s" "res_part (s\<lparr>run_queue := rq\<rparr>) = res_part s"
  "res_part (s\<lparr>run_queue_bitmap := bm\<rparr>) = res_part s" "res_part (s\<lparr>current_thread := ct\<rparr>) = res_part s"
  "res_part (s\<lparr>idle_cpus := ic\<rparr>) = res_part s" "res_part (s\<lparr>realtime_cpus := rc\<rparr>) = res_part s"
  by (simp_all add: res_part_def ARM64_WRITE_SYSREG_def ARM64_WRITE_ICC_def upd_vcpu_def upd_virq_def gic_put_def upd_thread_def set_status_def)

lemma fold_res: "(\<And>x s. res_part (f x s) = res_part s) \<Longrightarrow> res_part (fold f xs s) = res_part s"
  by (induction xs arbitrary: s) auto

lemma res_part_switch [simp]: "res_part (vcpu_switch_to v s) = res_part s"
proof -
  have "res_part (hv_vcpu_irq_restore v s) = res_part s" for v s
    by (simp add: hv_vcpu_irq_restore_def vcpu_move_irqs_def move_irq_def aprn_restore_def lr_write_def
      vgic_write_aprn_reg_def gic_set_affinity_def Let_def fold_res)
  moreover have "res_part (hv_arch_vcpu_context_restore v s) = res_part s" for v s
    by (simp add: hv_arch_vcpu_context_restore_def) (rule fold_res, auto)
  ultimately have "res_part (context_out v s) = res_part s" "res_part (context_in v s) = res_part s" for v s
    by (simp_all add: context_out_def context_in_def hv_vtimer_context_save_def hv_vcpu_irq_save_def
      hv_arch_vcpu_context_save_def hv_vtimer_context_restore_def upd_vtimer_def upd_redist_def Let_def)
  then show ?thesis by (simp add: vcpu_switch_to_def hv_vcpu_arch_contex_switch_def Let_def)
qed

lemma res_part_resched [simp]: "res_part (thread_resched s) = res_part s"
proof -
  have "res_part (fst (get_top_thread c s)) = res_part s" for c
    by (simp add: get_top_thread_def Let_def split: option.split)
  moreover have "res_part (note_switch a b s) = res_part s" for a b s by (simp add: note_switch_def Let_def)
  ultimately show ?thesis by (simp add: thread_resched_def Let_def split_beta)
qed

lemma res_part_cleanup [simp]: "res_part (hv_vcpu_irq_cleanup v s) = res_part s"
proof -
  have "res_part (lr_unlink r s) = res_part s" "res_part (pd_unlink r s) = res_part s" for r s
    by (simp_all add: pd_unlink_def lr_unlink_def upd_redist_def split: option.split)
  then show ?thesis
    by (simp add: hv_vcpu_irq_cleanup_def Let_def upd_redist_def fold_res lr_cleanup_def pd_cleanup_def lr_write_def
      gic_clear_pending_def gic_set_icactiver_def)
qed

lemma res_part_ipi [simp]: "res_part (arch_mp_send_ipi m i s) = res_part s"
proof -
  have "res_part (fst (fold (sgi_step irq) xs (s, m))) = res_part s" for irq xs m and s :: hv_state
  proof (induction xs arbitrary: s m)
    case (Cons x xs)
    show ?case by (cases "sgi_step irq x (s, m)") (use Cons in \<open>auto simp: sgi_step_def Let_def split: if_splits prod.splits\<close>)
  qed simp
  then show ?thesis by (simp add: arch_mp_send_ipi_def arm_gic_sgi_def Let_def)
qed

lemma res_part_send [simp]: "res_part (fst (hv_send_event c e s)) = res_part s"
  by (simp add: hv_send_event_def Let_def split_beta)

lemma res_part_start [simp]: "res_part (fst (hv_vcpu_start v s)) = res_part s"
proof -
  have "res_part (thread_yield s) = res_part s" for s
    by (simp add: thread_yield_def insert_in_run_queue_tail_def Let_def)
  then show ?thesis
    by (simp add: hv_vcpu_start_def thread_reset_def thread_resume_def wakeup_cpu_for_thread_def mp_reschedule_def
        insert_in_run_queue_head_def Let_def)
qed

lemma res_part_poweroff: "hv_vcpu_poweroff v s = Some (s', r) \<Longrightarrow> res_part s' = res_part s"
proof -
  have "res_part s' = res_part s" if "stop_current_cpu_thread t s = Some (s', r)" for t s s' r
    using that by (auto simp: stop_current_cpu_thread_def remove_task_from_rqueue_def Let_def split: thread_state.splits if_splits)
  then show "hv_vcpu_poweroff v s = Some (s', r) \<Longrightarrow> res_part s' = res_part s"
    by (fastforce simp: hv_vcpu_poweroff_def hv_poweroff_current_def Let_def split: if_splits Option.bind_splits)
qed

lemma res_part_others: "poweroff_others v vs b s = Some (s', r, b') \<Longrightarrow> res_part s' = res_part s"
  by (induction v vs b s arbitrary: s' rule: poweroff_others.induct)
    (auto dest: res_part_poweroff split: if_splits Option.bind_splits)

section \<open>Freeing the memory of a machine\<close>

lemma free_segs_arenas: "\<exists>as. free_segs segs k = k\<lparr>arenas := as\<rparr>"
proof (induction segs k rule: free_segs.induct)
  case (1 k)
  show ?case by (intro exI [of _ "arenas k"]) simp
next
  case (2 seg segs k)
  then show ?case by (cases "seg_pa seg = 0") (auto intro!: exI [of _ "arenas k"])
qed

lemma free_segs_effect:
  assumes "pmm_inv (arenas k)" "distinct (seg_pages segs)" "set (seg_pages segs) \<subseteq> all_pages (arenas k) - free_pages (arenas k)"
    "\<forall>seg\<in>set segs. seg_pa seg \<noteq> 0"
  shows "pmm_inv (arenas (free_segs segs k)) \<and> free_pages (arenas (free_segs segs k)) = free_pages (arenas k) \<union> set (seg_pages segs)"
  using assms
proof (induction segs arbitrary: k)
  case (Cons seg segs)
  let ?as = "fst (pmm_free (pgs seg) (arenas k))"
  have s: "set (pgs seg) \<subseteq> all_pages (arenas k) - free_pages (arenas k)" "distinct (pgs seg)" using Cons.prems(2,3) by auto
  note e = pmm_free_effect [OF Cons.prems(1) s(2,1)] and g = pmm_free_geom [of "pgs seg" "arenas k"]
  have "all_pages ?as = all_pages (arenas k)" using g by (rule all_pages_cong)
  then have h: "set (seg_pages segs) \<subseteq> all_pages ?as - free_pages ?as" using Cons.prems(2,3) e by auto
  show ?case using Cons.IH [of "k\<lparr>arenas := ?as\<rparr>"] e h Cons.prems(2,4) by auto
qed simp

lemma free_mem_frame:
  "\<exists>as. mm (lkhv_vm_free_mem vm s) = (mm s)\<lparr>arenas := as\<rparr>" "arenas (mm (lkhv_vm_free_mem vm s)) = arenas (free_segs (segs_of (mem (vms s vm))) (mm s))"
  "arch_mem (mem (vms (lkhv_vm_free_mem vm s) vm)) = arch_mem (mem (vms s vm))" "is_load (vms (lkhv_vm_free_mem vm s) vm) = is_load (vms s vm)"
  "sched_part (lkhv_vm_free_mem vm s) = sched_part s" "vcpus (lkhv_vm_free_mem vm s) = vcpus s"
  using free_segs_arenas [of "segs_of (mem (vms s vm))" "mm s"]
  by (auto simp: lkhv_vm_free_mem_def with_mem_def upd_mem_def upd_vm_def sched_part_def)

lemma shutdown_switch:
  assumes "lkhv_shutdown_vm vm s = Switch s' k"
  obtains s1 where "res_part s1 = res_part s" "s' = thread_resched (lkhv_vm_free_mem vm s1)"
  using assms that res_part_others res_part_poweroff
  by (auto simp: lkhv_shutdown_vm_def thread_block_def Let_def split: if_splits option.splits) (metis res_part_others res_part_poweroff)+

section \<open>Properties\<close>

text \<open>
  C5. Shutting down a machine gives its memory back while its stage-2 tables still map it. When the CPU that called
  \<^verbatim>\<open>lkhv_shutdown_vm\<close> has switched away, every page of the RAM of the machine is free, to be allocated by anyone, and every address of
  the guest translates to where it did before. The image stays marked as loaded, so a machine that is started again gets
  new memory and no image.
\<close>

theorem lkhv_shutdown_vm_frees_mapped_ram:
  assumes "lkhv_shutdown_vm vm s = Switch s' k"
    and "pmm_inv (arenas (mm s))" "segs = segs_of (mem (vms s vm))" "distinct (seg_pages segs)"
    and "set (seg_pages segs) \<subseteq> all_pages (arenas (mm s)) - free_pages (arenas (mm s))" "\<forall>seg\<in>set segs. seg_pa seg \<noteq> 0"
  shows "pmm_inv (arenas (mm s')) \<and> set (seg_pages segs) \<subseteq> free_pages (arenas (mm s')) \<and>
    arch_mem (mem (vms s' vm)) = arch_mem (mem (vms s vm)) \<and> st2_translate root y (mm s') = st2_translate root y (mm s) \<and>
    (is_load (vms s vm) \<longrightarrow> lkhv_vm_load env vm s' = Some (0, s'))"
proof -
  obtain s1 where s1: "res_part s1 = res_part s" "s' = thread_resched (lkhv_vm_free_mem vm s1)"
    using shutdown_switch [OF assms(1)] .
  have m: "mm s1 = mm s" "vms s1 = vms s" using s1(1) by (simp_all add: res_part_def)
  have m': "mm s' = mm (lkhv_vm_free_mem vm s1)" "vms s' = vms (lkhv_vm_free_mem vm s1)"
    using res_part_resched [of "lkhv_vm_free_mem vm s1"] by (simp_all add: res_part_def s1(2))
  note f = free_mem_frame [of vm s1, unfolded m]
  have "pmm_inv (arenas (mm s'))" "free_pages (arenas (mm s')) = free_pages (arenas (mm s)) \<union> set (seg_pages segs)"
    using free_segs_effect [OF assms(2,4,5,6)] f(2) m' assms(3) by simp_all
  moreover have "st2_translate root y (mm s') = st2_translate root y (mm s)"
    using f(1) by (auto simp: m' st2_translate_def translate_arenas)
  ultimately show ?thesis using f(3,4) m' by (simp add: lkhv_vm_load_def)
qed

text \<open>A machine with one virtual CPU, which runs on physical CPU 0, and one page of RAM.\<close>

definition run_mem :: vm_mem where
  "run_mem = \<lparr>arch_mem = am_ex, seg_num = 1, mem_seg = Some [\<lparr>seg_pa = 0x2000, seg_ipa = 0x40000000, pgs = [(1, 1)]\<rparr>], need_flush = False\<rparr>"

definition run_ex :: hv_state where
  "run_ex = (let s = vcpu_ex VCPU_READY THREAD_RUNNING in
     s\<lparr>current_thread := (current_thread s)(0 := 0x100), vcpu_data := (\<lambda>_. 0)(0 := 0x200),
       vcpus := (vcpus s)(0x200 := (vcpus s 0x200)\<lparr>vcpu_vm := 0x300\<rparr>),
       vms := (\<lambda>_. zero_vm)(0x300 := zero_vm\<lparr>mem := run_mem, vcpu_num := 1, vm_vcpu := (\<lambda>_. 0x200), is_load := True\<rparr>),
       mm := mm_ex\<lparr>arenas := [arena_ex 4 [1, 1, 0, 0, 0, 0] [2, 3, 4, 5]]\<rparr>\<rparr>)"

lemma sched_inv_run:
  assumes "sched_inv s" "curr_cpu s = 0" "\<not> queued (threads s t)" "\<forall>c<4. current_thread s c \<noteq> t \<and> idle_thread s c \<noteq> t"
    "sched_part s' = sched_part (s\<lparr>current_thread := (current_thread s)(0 := t)\<rparr>)"
  shows "sched_inv s'"
proof -
  have "sched_inv (s\<lparr>current_thread := (current_thread s)(0 := t)\<rparr>)"
    using assms(1-4) unfolding sched_inv_def queues_ok_def cpus_ok_def get_current_thread_def by auto
  then show ?thesis by (rule iffD2 [OF sched_inv_part [OF assms(5)]])
qed

lemma idle_ex: "idle_thread (vcpu_ex st ts) c = of_nat c + 1"
  by (simp add: vcpu_ex_def idle_state_def)

lemma run_ex_inv: "sched_inv run_ex" "vq_inv run_ex"
proof -
  show "sched_inv run_ex"
    by (rule sched_inv_run [OF vcpu_ex_inv(1), of VCPU_READY THREAD_RUNNING "0x100"])
      (use cpu_thread_256 in \<open>auto simp: run_ex_def idle_ex sched_part_def Let_def\<close>)
  show "vq_inv run_ex"
    by (rule vq_hw [OF vcpu_ex_inv(2), of _ VCPU_READY THREAD_RUNNING]) (auto simp: run_ex_def redist_def fun_eq_iff Let_def)
qed

lemma run_ex_simps [simp]:
  "current_vcpu run_ex = 0x200" "status (vcpus run_ex 0x200) = VCPU_READY" "vcpu_thread (vcpus run_ex 0x200) = 0x100" "vcpu_vm (vcpus run_ex 0x200) = 0x300"
  "vms run_ex 0x300 = zero_vm\<lparr>mem := run_mem, vcpu_num := 1, vm_vcpu := (\<lambda>_. 0x200), is_load := True\<rparr>" "curr_cpu run_ex = 0"
  "threads run_ex 0x100 = zero_thread\<lparr>t_state := THREAD_RUNNING, t_vcpu := 0x200\<rparr>" "hv_vcpu_cpu_id run_ex 0x200 = 0" "get_current_thread run_ex = 0x100"
  "vcpus_of run_ex 0x300 = [0x200]" "mm run_ex = mm_ex\<lparr>arenas := [arena_ex 4 [1, 1, 0, 0, 0, 0] [2, 3, 4, 5]]\<rparr>" "ints_off run_ex"
  by (simp_all add: run_ex_def Let_def current_vcpu_def hv_vcpu_cpu_id_def get_current_thread_def vcpus_of_def zero_thread_def)

lemma run_ex_pmm: "pmm_inv [arena_ex 4 [1, 1, 0, 0, 0, 0] [2, 3, 4, 5]]"
proof -
  have "fst (pmm_alloc_pages 2 pmm_ex) = [arena_ex 4 [1, 1, 0, 0, 0, 0] [2, 3, 4, 5]]"
    by (simp add: pmm_ex_eq pmm_alloc_pages_eq numeral_2_eq_2 arena_ex_def take_page_def)
  then show ?thesis using pmm_alloc_pages_taken [OF pmm_ex_inv, of 2] by (simp add: taken_def)
qed

lemma run_ex_shutdown: "\<exists>s' k. lkhv_shutdown_vm 0x300 run_ex = Switch s' k"
proof -
  obtain s' where "hv_vcpu_poweroff 0x200 run_ex = Some (s', VCPU_RESCHED_EXIT)"
    by (rule hv_vcpu_poweroff_effect [OF run_ex_inv, of "0x200"]) simp_all
  then show ?thesis by (simp add: lkhv_shutdown_vm_def Let_def)
qed

theorem lkhv_shutdown_vm_witness:
  "\<exists>s' k. lkhv_shutdown_vm 0x300 run_ex = Switch s' k \<and> (1, 1) \<in> free_pages (arenas (mm s')) \<and>
     lkhv_vm_load undefined 0x300 s' = Some (0, s')"
proof -
  obtain s' k where k: "lkhv_shutdown_vm 0x300 run_ex = Switch s' k" using run_ex_shutdown by blast
  have segs: "segs_of (mem (vms run_ex 0x300)) = [\<lparr>seg_pa = 0x2000, seg_ipa = 0x40000000, pgs = [(1, 1)]\<rparr>]"
    by (simp add: segs_of_def run_mem_def)
  have "(1, 1) \<in> all_pages [arena_ex 4 [1, 1, 0, 0, 0, 0] [2, 3, 4, 5]]" "(1, 1) \<notin> free_pages [arena_ex 4 [1, 1, 0, 0, 0, 0] [2, 3, 4, 5]]"
    by (auto simp: all_pages_def free_pages_def PAGE_BELONGS_TO_ARENA_def arena_ex_def page_count_def page_is_free_def)
  with lkhv_shutdown_vm_frees_mapped_ram [OF k _ segs [symmetric]] run_ex_pmm k show ?thesis by (auto simp: seg_pages_def)
qed

section \<open>Power off on another CPU\<close>

lemma send_frame:
  "sched_part (fst (hv_send_event c e s)) = sched_part s" "vcpus (fst (hv_send_event c e s)) = vcpus s" "virqs (fst (hv_send_event c e s)) = virqs s"
proof -
  define P where "P s = (sched_part s, vcpus s, virqs s)" for s :: hv_state
  have u: "P (s\<lparr>cpu_event := x\<rparr>) = P s" "P (ARM64_WRITE_ICC i y s) = P s" for x i y s
    by (simp_all add: P_def sched_part_def ARM64_WRITE_ICC_def ARM64_WRITE_SYSREG_def)
  have "P (fst (fold (sgi_step irq) xs (s, m))) = P s" for irq xs m and s :: hv_state
  proof (induction xs arbitrary: s m)
    case (Cons x xs)
    show ?case by (cases "sgi_step irq x (s, m)") (use Cons u in \<open>auto simp: sgi_step_def Let_def split: if_splits prod.splits\<close>)
  qed simp
  then have "P (fst (hv_send_event c e s)) = P s" by (simp add: hv_send_event_def arch_mp_send_ipi_def arm_gic_sgi_def Let_def split_beta u)
  then show "sched_part (fst (hv_send_event c e s)) = sched_part s" "vcpus (fst (hv_send_event c e s)) = vcpus s" "virqs (fst (hv_send_event c e s)) = virqs s"
    by (simp_all add: P_def)
qed

text \<open>The invariant of the scheduler is the same seen from every CPU.\<close>

lemma sched_inv_other_cpu: "sched_inv s \<Longrightarrow> d < 4 \<Longrightarrow> sched_inv (s\<lparr>curr_cpu := d\<rparr>)"
  unfolding sched_inv_def queues_ok_def cpus_ok_def get_current_thread_def by auto



end
