(* ===== verification/Vm_Config.thy ===== *)
theory Vm_Config
  imports Vm
begin

text \<open>
  The configuration of machines, \<^verbatim>\<open>hv/vm_config.c\<close> and \<^verbatim>\<open>hv/arch/armv8a/hv_arch_cfg.c\<close>, read from a device tree in the root file system, and the
  boot of the hypervisor, \<^verbatim>\<open>hv/hv_boot.c\<close>.

  The library for flattened device trees is a parameter: a record of what it answers for a tree. A property is given by the bytes of the blob from its
  value to the end of the blob, together with its length, because the code reads through the pointer without regard to
  the length; a read past the end of the blob is \<open>None\<close>.
\<close>

section \<open>Device trees\<close>

record fdt =
  fdt_path_offset :: "string \<Rightarrow> int"
  fdt_getprop :: "int \<Rightarrow> string \<Rightarrow> (u8 list \<times> int) option"
  fdt_subnode_offset :: "int \<Rightarrow> string \<Rightarrow> int"
  fdt_address_cells :: "int \<Rightarrow> int"
  fdt_size_cells :: "int \<Rightarrow> int"

definition fdt32_at :: "u8 list \<Rightarrow> u32 option" where
  "fdt32_at p = (if length p < 4 then None else Some (ucast (of_le_bytes (rev (take 4 p)))))"

text \<open>The outer \<open>None\<close> is a read outside the blob, the inner one the result -1.\<close>

definition fdt_get_int_value :: "fdt \<Rightarrow> int \<Rightarrow> string \<Rightarrow> int option option" where
  "fdt_get_int_value t offset prop =
     (case fdt_getprop t offset prop of
        None \<Rightarrow> Some None
      | Some (p, len) \<Rightarrow> map_option (\<lambda>v. Some (sint v)) (fdt32_at p))"

definition fdt_get_str :: "fdt \<Rightarrow> int \<Rightarrow> string \<Rightarrow> u8 list option" where
  "fdt_get_str t offset prop = map_option fst (fdt_getprop t offset prop)"

text \<open>\<^verbatim>\<open>strncpy\<close> into a zeroed buffer, as the string that ends up in it; \<open>n\<close> is at most the size of the buffer less one.\<close>

definition strncpy_from :: "nat \<Rightarrow> u8 list \<Rightarrow> string option" where
  "strncpy_from n p =
     (let str = takeWhile (\<lambda>b. b \<noteq> 0) (take n p)
      in if length p < n \<and> 0 \<notin> set p then None else Some (map (\<lambda>b. char_of (unat b)) str))"

fun read_number :: "nat \<Rightarrow> u64 \<Rightarrow> u8 list \<Rightarrow> u64 option" where
  "read_number 0 r cell = Some r"
| "read_number (Suc n) r cell = (case fdt32_at cell of None \<Rightarrow> None | Some c \<Rightarrow> read_number n (push_bit 32 r OR ucast c) (drop 4 cell))"

text \<open>With a negative size the loop runs on until the size wraps around, far outside the blob.\<close>

definition fdt_read_number :: "u8 list \<Rightarrow> int \<Rightarrow> u64 option" where
  "fdt_read_number cell sz = (if sz < 0 then None else read_number (nat sz) 0 cell)"

definition fdt_next_cell :: "int \<Rightarrow> u8 list \<Rightarrow> (u64 \<times> u8 list) option" where
  "fdt_next_cell s p = map_option (\<lambda>v. (v, drop (4 * nat s) p)) (fdt_read_number p s)"

fun dec :: "nat \<Rightarrow> string" where
  "dec n = (if n < 10 then [char_of (48 + n)] else dec (n div 10) @ [char_of (48 + n mod 10)])"

declare dec.simps [simp del]

definition get_node_offset :: "fdt \<Rightarrow> string \<Rightarrow> string \<Rightarrow> int" where
  "get_node_offset t pa nd_name = fdt_path_offset t (take 126 (pa @ ''/'' @ nd_name))"

section \<open>Parsing a machine\<close>

text \<open>
  A parser is a sequence of steps, each of which may leave with a result; a function that goes through returns 0.
\<close>

type_synonym 's cfg_step = "'s \<Rightarrow> ('s \<times> int option) option"

fun run_steps :: "'s cfg_step list \<Rightarrow> 's \<Rightarrow> ('s \<times> int) option" where
  "run_steps [] x = Some (x, 0)"
| "run_steps (f # fs) x =
     (case f x of
        None \<Rightarrow> None
      | Some (x, Some ret) \<Rightarrow> Some (x, ret)
      | Some (x, None) \<Rightarrow> run_steps fs x)"

definition int_step :: "fdt \<Rightarrow> int \<Rightarrow> string \<Rightarrow> (int \<Rightarrow> 's \<Rightarrow> 's) \<Rightarrow> 's cfg_step" where
  "int_step t offset prop set_it x =
     (case fdt_get_int_value t offset prop of
        None \<Rightarrow> None
      | Some None \<Rightarrow> Some (x, Some (-1))
      | Some (Some val) \<Rightarrow> Some (set_it val x, None))"

definition str_step :: "fdt \<Rightarrow> int \<Rightarrow> string \<Rightarrow> bool \<Rightarrow> (string \<Rightarrow> 's \<Rightarrow> 's) \<Rightarrow> 's cfg_step" where
  "str_step t offset prop must set_it x =
     (case fdt_get_str t offset prop of
        None \<Rightarrow> Some (x, if must then Some (-1) else None)
      | Some p \<Rightarrow> map_option (\<lambda>str. (set_it str x, None)) (strncpy_from 31 p))"

fun read_cells :: "nat \<Rightarrow> u8 list \<Rightarrow> int list option" where
  "read_cells 0 p = Some []"
| "read_cells (Suc n) p =
     do {
       (v, p) \<leftarrow> fdt_next_cell 1 p;
       vs \<leftarrow> read_cells n p;
       Some (sint (ucast v :: u32) # vs)
     }"

text \<open>\<open>got\<close> is the outcome of \<^verbatim>\<open>malloc\<close> for the affinities.\<close>

definition affinity_step :: "fdt \<Rightarrow> int \<Rightarrow> bool \<Rightarrow> vm_info cfg_step" where
  "affinity_step t offset got vi =
     (let n = inf_vcpu_num vi
      in if \<not> got then Some (vi, Some ERR_NO_MEMORY)
         else
           let vi = vi\<lparr>inf_vcpu_affinity := replicate (nat n) 0\<rparr>
           in case fdt_getprop t offset ''affinity'' of
                None \<Rightarrow> Some (vi, Some (-1))
              | Some (p, len) \<Rightarrow>
                  if len \<noteq> signed_take_bit 31 (4 * n) then Some (vi, Some (-1))
                  else map_option (\<lambda>vs. (vi\<lparr>inf_vcpu_affinity := vs\<rparr>, None)) (read_cells (nat n) p))"

definition parse_vcpu_cfg :: "fdt \<Rightarrow> bool \<Rightarrow> int \<Rightarrow> vm_info \<Rightarrow> (vm_info \<times> int) option" where
  "parse_vcpu_cfg t got offset =
     run_steps
       [int_step t offset ''cpu_num'' (\<lambda>v vi. vi\<lparr>inf_vcpu_num := v\<rparr>),
        int_step t offset ''mode'' (\<lambda>v vi. vi\<lparr>inf_vcpu_mode := v\<rparr>),
        affinity_step t offset got]"

abbreviation (input) HIGHEST_PRIORITY :: int where "HIGHEST_PRIORITY \<equiv> 31"

definition priority_step :: "fdt \<Rightarrow> int \<Rightarrow> vm_info cfg_step" where
  "priority_step t offset vi =
     (case fdt_get_int_value t offset ''priority'' of
        None \<Rightarrow> None
      | Some None \<Rightarrow> Some (vi, Some (-1))
      | Some (Some val) \<Rightarrow>
          if val > HIGHEST_PRIORITY then Some (vi, Some ERR_INVALID_ARGS)
          else Some (vi\<lparr>inf_priority := val\<rparr>, None))"

definition auto_boot_step :: "fdt \<Rightarrow> int \<Rightarrow> vm_info cfg_step" where
  "auto_boot_step t offset vi =
     (case fdt_get_int_value t offset ''auto_boot'' of
        None \<Rightarrow> None
      | Some None \<Rightarrow> Some (vi\<lparr>inf_auto_boot := 0\<rparr>, None)
      | Some (Some val) \<Rightarrow> Some (vi\<lparr>inf_auto_boot := val\<rparr>, None))"

definition ram_step :: "fdt \<Rightarrow> int \<Rightarrow> int \<Rightarrow> int \<Rightarrow> vm_info cfg_step" where
  "ram_step t offset address_cell cell_size vi =
     (case fdt_getprop t offset ''ram_reg'' of
        None \<Rightarrow> Some (vi, Some (-1))
      | Some (p, len) \<Rightarrow>
          if len < signed_take_bit 31 ((address_cell + cell_size) * 4) then Some (vi, Some (-1))
          else do {
            (start, p) \<leftarrow> fdt_next_cell address_cell p;
            (size, p) \<leftarrow> fdt_next_cell cell_size p;
            Some (vi\<lparr>inf_ipa_start := start, inf_ram_size := push_bit 20 size\<rparr>, None)
          })"

definition cpus_step :: "fdt \<Rightarrow> bool \<Rightarrow> int \<Rightarrow> vm_info cfg_step" where
  "cpus_step t got offset vi =
     (let child_offset = fdt_subnode_offset t offset ''cpus''
      in if child_offset < 0 then Some (vi, Some (-1))
         else (case parse_vcpu_cfg t got child_offset vi of
           None \<Rightarrow> None
         | Some (vi, ret) \<Rightarrow> Some (vi, if ret < 0 then Some (-1) else None)))"

definition parse_vm_cfg :: "fdt \<Rightarrow> u8 list \<Rightarrow> bool \<Rightarrow> int \<Rightarrow> int \<Rightarrow> nat \<Rightarrow> vm_info \<Rightarrow> (vm_info \<times> int) option" where
  "parse_vm_cfg t dtb got address_cell cell_size i vi =
     (let offset = fdt_path_offset t (''/vm@'' @ dec (i + 1))
      in if offset < 0 then Some (vi, -1)
         else
           run_steps
             [str_step t offset ''image'' True (\<lambda>v vi. vi\<lparr>inf_image := v\<rparr>),
              str_step t offset ''fdt'' False (\<lambda>v vi. vi\<lparr>inf_fdt := v\<rparr>),
              str_step t offset ''lable'' True (\<lambda>v vi. vi\<lparr>inf_name := v\<rparr>),
              int_step t offset ''os_typs'' (\<lambda>v vi. vi\<lparr>inf_os_type := v\<rparr>),
              priority_step t offset,
              int_step t offset ''timeslice'' (\<lambda>v vi. vi\<lparr>inf_timeslice := v\<rparr>),
              int_step t offset ''image_type'' (\<lambda>v vi. vi\<lparr>inf_image_type := v\<rparr>),
              auto_boot_step t offset,
              ram_step t offset address_cell cell_size,
              cpus_step t got offset,
              \<lambda>vi. Some (vi\<lparr>inf_vm_cfg := dtb, inf_cfg_offset := of_int offset\<rparr>, None)] vi)"
section \<open>The configuration file\<close>

text \<open>
  What the environment supplies: the file system, the device tree library as a function of the blob, and the results of \<^verbatim>\<open>malloc\<close>: for
  the blob, and for the machine of each index its structure, its affinities and its virtual CPUs.
\<close>

record cfg_env =
  cfg_fs :: filesys
  fdt_of :: "u8 list \<Rightarrow> fdt"
  got_dtb :: bool
  vm_block :: "nat \<Rightarrow> ptr"
  got_affinity :: "nat \<Rightarrow> bool"
  vcpu_arr :: "nat \<Rightarrow> ptr"
  vcpu_blocks :: "nat \<Rightarrow> nat \<Rightarrow> ptr \<times> ptr \<times> ptr"

text \<open>The outer \<open>None\<close> is a read into the NULL that \<^verbatim>\<open>malloc\<close> returned, which is not checked.\<close>

definition get_vmcfg_dtb :: "filesys \<Rightarrow> bool \<Rightarrow> string \<Rightarrow> u8 list option option" where
  "get_vmcfg_dtb fs got vmcfg_path =
     (if fs_open_file fs vmcfg_path \<noteq> NO_ERROR then Some None
      else
        let (ret, size) = fs_stat_file fs vmcfg_path
        in if ret \<noteq> NO_ERROR then Some None
           else
             let (ret, bs) = fs_read_file fs vmcfg_path 0 size
             in if \<not> got \<and> bs \<noteq> [] then None
                else if ret \<noteq> sint size then Some None
                else Some (Some bs))"

text \<open>
  The loop over the machines. A failure ends it; the structure of a machine whose configuration is wrong is not freed, that of a
  machine whose virtual CPUs can not be created is.
\<close>

fun parse_vms :: "cfg_env \<Rightarrow> u8 list \<Rightarrow> int \<Rightarrow> int \<Rightarrow> nat list \<Rightarrow> hv_state \<Rightarrow> hv_state option" where
  "parse_vms env dtb address_cell cell_size [] s = Some s"
| "parse_vms env dtb address_cell cell_size (i # is) s =
     (case lkhv_alloc_vm (vm_block env i) s of
        (s, vm) \<Rightarrow>
          if vm = 0 then Some s
          else do {
            (vi, ret) \<leftarrow> parse_vm_cfg (fdt_of env dtb) dtb (got_affinity env i) address_cell cell_size i (info (vms s vm));
            let s = upd_vm vm (\<lambda>m. m\<lparr>info := vi\<rparr>) s
            in if ret < 0 then Some s
               else (case lkhv_init_vm (vcpu_arr env i) (vcpu_blocks env i) vm s of
                 (s, ret) \<Rightarrow> if ret < 0 then Some s else parse_vms env dtb address_cell cell_size is s)
          })"

definition lkhv_parse_vmcfg :: "cfg_env \<Rightarrow> string \<Rightarrow> hv_state \<Rightarrow> (hv_state \<times> int) option" where
  "lkhv_parse_vmcfg env vmcfg s =
     do {
       r \<leftarrow> get_vmcfg_dtb (cfg_fs env) (got_dtb env) vmcfg;
       case r of
         None \<Rightarrow> Some (s, ERR_NO_MEMORY)
       | Some dtb \<Rightarrow>
           let t = fdt_of env dtb; offset = fdt_path_offset t ''/''
           in if offset < 0 then Some (s, -1)
              else do {
                vm_num \<leftarrow> fdt_get_int_value t offset ''num-vms'';
                case vm_num of
                  None \<Rightarrow> Some (s, -2)
                | Some vm_num \<Rightarrow>
                    map_option (\<lambda>s. (s, 0))
                      (parse_vms env dtb (fdt_address_cells t offset) (fdt_size_cells t offset) [0..<nat vm_num] s)
              }
     }"

section \<open>The interrupt controller of a machine\<close>

text \<open>
  \<^verbatim>\<open>hv_vm_irq_cfg_get\<close> stores into the configuration of the interrupt controller and returns the result.
\<close>

definition hv_vm_irq_cfg_get :: "fdt \<Rightarrow> u32 \<Rightarrow> vgic_cfg \<Rightarrow> (vgic_cfg \<times> int) option" where
  "hv_vm_irq_cfg_get t cfg_offset cfg =
     (let gic_offset = fdt_subnode_offset t (sint cfg_offset) ''intc''
      in if gic_offset < 0 then Some (cfg, ERR_NOT_FOUND)
         else
           let address_cell = fdt_address_cells t gic_offset; cell_size = fdt_size_cells t gic_offset
           in do {
                num \<leftarrow> fdt_get_int_value t gic_offset ''#redistributor-regions'';
                case num of
                  None \<Rightarrow> Some (cfg, ERR_NOT_FOUND)
                | Some val \<Rightarrow>
                    let cfg = cfg\<lparr>redist_num := val\<rparr>
                    in case fdt_getprop t gic_offset ''reg'' of
                         None \<Rightarrow> Some (cfg, ERR_NOT_FOUND)
                       | Some (p, len) \<Rightarrow>
                           do {
                             (db, p) \<leftarrow> fdt_next_cell address_cell p;
                             (dl, p) \<leftarrow> fdt_next_cell cell_size p;
                             (rb, p) \<leftarrow> fdt_next_cell address_cell p;
                             (rl, p) \<leftarrow> fdt_next_cell cell_size p;
                             let cfg = cfg\<lparr>d_base := db, d_len := ucast dl, r0_base := rb, r0_len := ucast rl\<rparr>
                             in if redist_num cfg = 2 then
                                  do {
                                    (rb, p) \<leftarrow> fdt_next_cell address_cell p;
                                    (rl, p) \<leftarrow> fdt_next_cell cell_size p;
                                    Some (cfg\<lparr>r1_base := rb, r1_len := ucast rl\<rparr>, 0)
                                  }
                                else Some (cfg, 0)
                           }
              })"

section \<open>Boot\<close>

text \<open>
  The boot arguments name the device and the file system of the root: \<^verbatim>\<open>root=device,fs\<close>. The structure they are copied to is two buffers of
  32 characters, one behind the other, zeroed; the copy of the device name is bounded by its own length only. \<open>None\<close> is a write behind the structure.
\<close>

fun strstr :: "string \<Rightarrow> string \<Rightarrow> string option" where
  "strstr [] pat = (if pat = [] then Some [] else None)"
| "strstr (c # cs) pat = (if take (length pat) (c # cs) = pat then Some (c # cs) else strstr cs pat)"

definition strchr :: "string \<Rightarrow> char \<Rightarrow> string option" where
  "strchr str c = (case dropWhile (\<lambda>d. d \<noteq> c) str of [] \<Rightarrow> None | rest \<Rightarrow> Some rest)"

type_synonym hv_bootarg = string

definition nul :: char where
  "nul = char_of (0 :: nat)"

definition strncpy_at :: "nat \<Rightarrow> string \<Rightarrow> nat \<Rightarrow> hv_bootarg \<Rightarrow> hv_bootarg option" where
  "strncpy_at dst src n ba =
     (if length ba < dst + n then None
      else Some (take dst ba @ take n src @ replicate (n - length src) nul @ drop (dst + n) ba))"

definition cstr_at :: "hv_bootarg \<Rightarrow> nat \<Rightarrow> string" where
  "cstr_at ba off = takeWhile (\<lambda>c. c \<noteq> nul) (drop off ba)"

abbreviation (input) ba_bio :: nat where "ba_bio \<equiv> 0"
abbreviation (input) ba_fs :: nat where "ba_fs \<equiv> 32"

definition parse_bootargs :: "string \<Rightarrow> hv_bootarg \<Rightarrow> (hv_bootarg \<times> int) option" where
  "parse_bootargs bootarg ba =
     (case strstr bootarg ''root='' of
        None \<Rightarrow> Some (ba, -1)
      | Some tmp \<Rightarrow>
          let tmp = drop 5 tmp
          in case strchr tmp (CHR '','') of
               None \<Rightarrow> Some (ba, -2)
             | Some tmp1 \<Rightarrow>
                 do {
                   ba \<leftarrow> strncpy_at ba_bio tmp (length tmp - length tmp1) ba;
                   ba \<leftarrow> strncpy_at ba_fs (drop 1 tmp1) 31 ba;
                   Some (ba, 0)
                 })"

text \<open>The device tree the kernel was started with, as what it answers.\<close>

definition get_root_config :: "fdt \<Rightarrow> string option" where
  "get_root_config t =
     (let offset = fdt_path_offset t ''/chosen''
      in if offset < 0 then None
         else map_option (\<lambda>(p, len). map (\<lambda>b. char_of (unat b)) (takeWhile (\<lambda>b. b \<noteq> 0) p)) (fdt_getprop t offset ''bootargs''))"

definition hv_rootdev_init :: "fdt \<Rightarrow> (string \<Rightarrow> string \<Rightarrow> string \<Rightarrow> int) \<Rightarrow> int option" where
  "hv_rootdev_init t fs_mount =
     (case get_root_config t of
        None \<Rightarrow> Some (-1)
      | Some bootarg \<Rightarrow>
          (case parse_bootargs bootarg (replicate 64 nul) of
             None \<Rightarrow> None
           | Some (ba, ret) \<Rightarrow>
               Some (if ret < 0 then ret else fs_mount ''/'' (cstr_at ba ba_fs) (cstr_at ba ba_bio))))"

text \<open>\<open>evt\<close> are the blocks of the event buffers and \<open>got\<close> the outcome of \<^verbatim>\<open>malloc\<close> for the interrupt mapping.\<close>

definition hv_boot_init ::
    "fdt \<Rightarrow> (string \<Rightarrow> string \<Rightarrow> string \<Rightarrow> int) \<Rightarrow> (nat \<Rightarrow> u8 list) \<Rightarrow> cfg_env \<Rightarrow> bool \<Rightarrow> hv_state \<Rightarrow> hv_state option" where
  "hv_boot_init t fs_mount evt env got s =
     do {
       ret \<leftarrow> hv_rootdev_init t fs_mount;
       if ret < 0 then Some s
       else do {
         (s, ret) \<leftarrow> lkhv_parse_vmcfg env ''/vmcfg.dtb'' (hv_vm_init (hv_event_init evt s));
         Some (fst (hv_init_virq_info got (hv_vcpu_init s)))
       }
     }"

definition hv_boot_init_percpu :: "hv_state \<Rightarrow> hv_state option" where
  "hv_boot_init_percpu s = hv_vtimer_init s"

section \<open>Boot arguments\<close>

lemma strchr_split: "c \<notin> set xs \<Longrightarrow> strchr (xs @ c # ys) c = Some (c # ys)"
  unfolding strchr_def by (induction xs) auto

lemma takeWhile_nul: "nul \<notin> set xs \<Longrightarrow> takeWhile (\<lambda>c. c \<noteq> nul) (xs @ ys) = xs @ takeWhile (\<lambda>c. c \<noteq> nul) ys"
  by (induction xs) auto

lemma takeWhile_nul' [simp]: "takeWhile (\<lambda>c. c \<noteq> nul) (replicate n nul @ ys) = (if n = 0 then takeWhile (\<lambda>c. c \<noteq> nul) ys else [])"
  by (cases n) auto

text \<open>
  C31. What the boot arguments are parsed to. The names of the device and the file system come out as given, the latter cut to 31 characters,
  when the device name is shorter than its buffer; a device name of 32 to 63 characters runs into the buffer of
  the file system, and is mounted as its first 32 characters followed by the name of the file system; a name longer than 64
  characters is written behind the structure, on the stack.
\<close>

theorem parse_bootargs_bounds:
  assumes "strstr b ''root='' = Some (''root='' @ bio @ CHR '','' # fs)" "CHR '','' \<notin> set bio" "nul \<notin> set bio \<union> set fs" "fs \<noteq> []"
  shows "case parse_bootargs b (replicate 64 nul) of
      None \<Rightarrow> 64 < length bio
    | Some (ba, ret) \<Rightarrow> length bio \<le> 64 \<and> ret = 0 \<and> cstr_at ba ba_fs = take 31 fs @ (if length bio = 64 \<and> 31 \<le> length fs then [bio ! 63] else []) \<and>
        (length bio < 32 \<longrightarrow> cstr_at ba ba_bio = bio) \<and>
        (32 \<le> length bio \<and> length bio < 64 \<longrightarrow> cstr_at ba ba_bio = take 32 bio @ take 31 fs)"
proof -
  let ?ba = "bio @ replicate (64 - length bio) nul"
  let ?ba' = "take 32 ?ba @ take 31 fs @ replicate (31 - length fs) nul @ drop 63 ?ba"
  have p: "parse_bootargs b (replicate 64 nul) = (if length bio \<le> 64 then Some (?ba', 0) else None)"
    using assms(1,2) by (simp add: parse_bootargs_def strchr_split strncpy_at_def Let_def)
  have n: "nul \<notin> set (take 31 fs)" "nul \<notin> set (take 32 bio)" "nul \<notin> set bio" using assms(3) by (auto dest: in_set_takeD)
  have d: "drop 63 ?ba = (if length bio = 64 then [bio ! 63] else [nul])" if "length bio \<le> 64"
  proof -
    have "drop 63 ?ba = [?ba ! 63]" using that by (subst Cons_nth_drop_Suc [symmetric]) auto
    then show ?thesis using that by (auto simp: nth_append)
  qed
  have fs: "cstr_at ?ba' 32 = take 31 fs @ (if length bio = 64 \<and> 31 \<le> length fs then [bio ! 63] else [])" if "length bio \<le> 64"
  proof -
    have "bio ! 63 \<in> set bio" if "length bio = 64" using that by simp
    then have "bio ! 63 \<noteq> nul" if "length bio = 64" using that n(3) by metis
    then show ?thesis using that d by (auto simp: cstr_at_def takeWhile_nul n)
  qed
  have bio: "cstr_at ?ba' 0 = bio" if "length bio < 32"
  proof -
    have "take 32 ?ba = bio @ replicate (32 - length bio) nul" using that by simp
    then show ?thesis using that by (simp add: cstr_at_def takeWhile_nul n)
  qed
  have "cstr_at ?ba' 0 = take 32 bio @ take 31 fs" if "32 \<le> length bio" "length bio < 64"
  proof -
    have "take 32 ?ba = take 32 bio" using that by simp
    then show ?thesis using that d by (simp add: cstr_at_def takeWhile_nul n)
  qed
  then show ?thesis unfolding p using fs bio by simp
qed

theorem parse_bootargs_witness:
  "\<exists>ba. parse_bootargs ''quiet root=virtio0,fat'' (replicate 64 nul) = Some (ba, 0) \<and> cstr_at ba ba_bio = ''virtio0'' \<and> cstr_at ba ba_fs = ''fat''"
  using parse_bootargs_bounds [of "''quiet root=virtio0,fat''" "''virtio0''" "''fat''"] by (simp add: nul_def char_of_def split: option.splits prod.splits)

section \<open>What the parser stores\<close>

definition vm_info_ok :: "vm_info \<Rightarrow> bool" where
  "vm_info_ok vi \<longleftrightarrow> (\<forall>str\<in>{inf_name vi, inf_image vi, inf_fdt vi}. length str < 32 \<and> nul \<notin> set str) \<and>
     inf_priority vi \<le> HIGHEST_PRIORITY \<and> length (inf_vcpu_affinity vi) = nat (inf_vcpu_num vi) \<and> take_bit 20 (inf_ram_size vi) = 0"

text \<open>A step keeps \<open>P\<close> when it goes on, and does not leave with success.\<close>

definition keeps :: "('s \<Rightarrow> bool) \<Rightarrow> 's cfg_step \<Rightarrow> bool" where
  "keeps P f \<longleftrightarrow> (\<forall>x x' r. P x \<longrightarrow> f x = Some (x', r) \<longrightarrow> r = None \<and> P x' \<or> r \<noteq> None \<and> r \<noteq> Some 0)"

lemma run_steps_inv: "run_steps fs x = Some (y, 0) \<Longrightarrow> P x \<Longrightarrow> list_all (keeps P) fs \<Longrightarrow> P y"
proof (induction fs arbitrary: x)
  case (Cons f fs)
  show ?case
  proof (cases "f x")
    case (Some xr)
    obtain x' r where xr: "xr = (x', r)" by fastforce
    have "r = None \<and> P x' \<or> r \<noteq> None \<and> r \<noteq> Some 0" using Cons.prems(2,3) Some xr by (simp add: keeps_def)
    then show ?thesis using Cons Some xr by (auto split: option.splits)
  qed (use Cons.prems in simp)
qed simp

lemma strncpy_from_ok: "strncpy_from n p = Some str \<Longrightarrow> length str \<le> n \<and> nul \<notin> set str"
proof -
  assume a: "strncpy_from n p = Some str"
  have z: "b = 0" if "256 dvd unat b" for b :: u8
  proof -
    have "unat b < 256" using unsigned_less [of b, where ?'a = nat] by simp
    then have "unat b = 0" using that by auto
    then show "b = 0" by (simp only: unat_eq_zero)
  qed
  from a have s: "str = map (\<lambda>b. char_of (unat b)) (takeWhile (\<lambda>b. b \<noteq> 0) (take n p))" by (auto simp: strncpy_from_def Let_def split: if_splits)
  have "length (takeWhile (\<lambda>b. b \<noteq> 0) (take n p)) \<le> length (take n p)" by (rule length_takeWhile_le)
  then show ?thesis using s by (auto simp: nul_def dest!: set_takeWhileD z)
qed

lemma read_cells_length: "read_cells n p = Some vs \<Longrightarrow> length vs = n"
  by (induction n arbitrary: p vs) (auto simp: bind_eq_Some_conv)

lemma vm_info_ok_upd:
  assumes "vm_info_ok vi"
  shows "length str < 32 \<Longrightarrow> nul \<notin> set str \<Longrightarrow> vm_info_ok (vi\<lparr>inf_image := str\<rparr>)"
    "length str < 32 \<Longrightarrow> nul \<notin> set str \<Longrightarrow> vm_info_ok (vi\<lparr>inf_fdt := str\<rparr>)"
    "length str < 32 \<Longrightarrow> nul \<notin> set str \<Longrightarrow> vm_info_ok (vi\<lparr>inf_name := str\<rparr>)"
    "vm_info_ok (vi\<lparr>inf_os_type := v\<rparr>)" "v \<le> HIGHEST_PRIORITY \<Longrightarrow> vm_info_ok (vi\<lparr>inf_priority := v\<rparr>)"
    "vm_info_ok (vi\<lparr>inf_timeslice := v\<rparr>)" "vm_info_ok (vi\<lparr>inf_image_type := v\<rparr>)" "vm_info_ok (vi\<lparr>inf_auto_boot := v\<rparr>)"
    "vm_info_ok (vi\<lparr>inf_ipa_start := w, inf_ram_size := push_bit 20 w'\<rparr>)" "vm_info_ok (vi\<lparr>inf_vm_cfg := bs, inf_cfg_offset := u\<rparr>)"
proof -
  have "take_bit 20 (push_bit 20 w) = 0" for w :: u64 by (rule bit_word_eqI) (simp add: bit_simps)
  then show "vm_info_ok (vi\<lparr>inf_ipa_start := w, inf_ram_size := push_bit 20 w'\<rparr>)" using assms by (simp add: vm_info_ok_def)
qed (use assms in \<open>simp_all add: vm_info_ok_def\<close>)

lemma parse_vcpu_cfg_ok: "parse_vcpu_cfg t got off vi = Some (vi', 0) \<Longrightarrow> vm_info_ok (vi\<lparr>inf_vcpu_num := 0, inf_vcpu_affinity := []\<rparr>) \<Longrightarrow> vm_info_ok vi'"
  by (auto simp: parse_vcpu_cfg_def int_step_def affinity_step_def vm_info_ok_def Let_def read_cells_length split: option.splits if_splits)

lemma parse_vcpu_cfg_ret: "parse_vcpu_cfg t got off vi = Some (vi', r) \<Longrightarrow> r = 0 \<or> r < 0"
  by (auto simp: parse_vcpu_cfg_def int_step_def affinity_step_def Let_def split: option.splits if_splits)

lemma int_step_keeps: "(\<And>v x. P x \<Longrightarrow> P (set_it v x)) \<Longrightarrow> keeps P (int_step t off prop set_it)"
  by (auto simp: keeps_def int_step_def split: option.splits)

lemma str_step_keeps:
  "(\<And>v x. P x \<Longrightarrow> length v < 32 \<Longrightarrow> nul \<notin> set v \<Longrightarrow> P (set_it v x)) \<Longrightarrow> keeps P (str_step t off prop must set_it)"
  by (auto simp: keeps_def str_step_def dest!: strncpy_from_ok split: option.splits if_splits)

lemma other_steps_keep:
  "keeps vm_info_ok (priority_step t off)" "keeps vm_info_ok (auto_boot_step t off)" "keeps vm_info_ok (ram_step t off a c)"
  by (auto simp: keeps_def priority_step_def auto_boot_step_def ram_step_def vm_info_ok_upd bind_eq_Some_conv split: option.splits if_splits)

lemma cpus_step_keeps: "keeps vm_info_ok (cpus_step t got off)"
  unfolding keeps_def
proof (intro allI impI)
  fix x x' r
  assume "vm_info_ok x" and cpus: "cpus_step t got off x = Some (x', r)"
  then have x: "vm_info_ok (x\<lparr>inf_vcpu_num := 0, inf_vcpu_affinity := []\<rparr>)" by (simp add: vm_info_ok_def)
  from cpus consider "r = Some (-1)" | ret where "parse_vcpu_cfg t got (fdt_subnode_offset t off ''cpus'') x = Some (x', ret)" "\<not> ret < 0" "r = None"
    by (auto simp: cpus_step_def Let_def split: option.splits if_splits)
  then show "r = None \<and> vm_info_ok x' \<or> r \<noteq> None \<and> r \<noteq> Some 0"
  proof cases
    case 2
    then have "ret = 0" using parse_vcpu_cfg_ret by blast
    then show ?thesis using parse_vcpu_cfg_ok [OF _ x] 2 by blast
  qed simp
qed

text \<open>
  C30. Whatever the device tree holds, what the parser of a machine's configuration accepts is well formed: the names fit into their
  buffers and end there, the priority is not above the highest one, there is one affinity for each virtual CPU, and the size of the RAM is whole megabytes.
  (Nothing bounds the priority or the number of virtual CPUs from below, and the RAM need not be a multiple of the 2 MB blocks it is mapped by.)
\<close>

theorem parse_vm_cfg_ok:
  assumes "parse_vm_cfg t dtb got a c i zero_info = Some (vi, 0)"
  shows "vm_info_ok vi"
proof -
  have z: "vm_info_ok zero_info" by (simp add: vm_info_ok_def zero_info_def)
  have "keeps vm_info_ok (\<lambda>vi. Some (vi\<lparr>inf_vm_cfg := dtb, inf_cfg_offset := u\<rparr>, None))" for u by (simp add: keeps_def vm_info_ok_upd)
  then show ?thesis
    using assms unfolding parse_vm_cfg_def Let_def
    by (auto split: if_splits elim!: run_steps_inv [where P = vm_info_ok, OF _ z] simp del: run_steps.simps
        simp: int_step_keeps str_step_keeps other_steps_keep cpus_step_keeps vm_info_ok_upd)
qed

section \<open>Writing a configuration\<close>

text \<open>
  The device tree that says what a list of machines is to be: the machines are the nodes 1, 3, 5 and so on, each followed by
  the node of its virtual CPUs. Parsing is the inverse of it.
\<close>

definition str_bytes :: "string \<Rightarrow> u8 list" where
  "str_bytes str = map (\<lambda>c. of_nat (of_char c)) str @ [0]"

definition be32 :: "u32 \<Rightarrow> u8 list" where
  "be32 w = rev (le_bytes 4 (ucast w))"

definition be64 :: "u64 \<Rightarrow> u8 list" where
  "be64 w = be32 (ucast (drop_bit 32 w)) @ be32 (ucast w)"

definition vm_props :: "vm_info \<Rightarrow> (string \<times> u8 list) list" where
  "vm_props vi =
     [(''image'', str_bytes (inf_image vi)), (''fdt'', str_bytes (inf_fdt vi)), (''lable'', str_bytes (inf_name vi)),
      (''os_typs'', be32 (of_int (inf_os_type vi))), (''priority'', be32 (of_int (inf_priority vi))),
      (''timeslice'', be32 (of_int (inf_timeslice vi))), (''image_type'', be32 (of_int (inf_image_type vi))),
      (''auto_boot'', be32 (of_int (inf_auto_boot vi))), (''ram_reg'', be64 (inf_ipa_start vi) @ be64 (drop_bit 20 (inf_ram_size vi)))]"

definition cpu_props :: "vm_info \<Rightarrow> (string \<times> u8 list) list" where
  "cpu_props vi =
     [(''cpu_num'', be32 (of_int (inf_vcpu_num vi))), (''mode'', be32 (of_int (inf_vcpu_mode vi))),
      (''affinity'', concat (map (be32 \<circ> of_int) (inf_vcpu_affinity vi)))]"

definition node_props :: "vm_info list \<Rightarrow> nat \<Rightarrow> (string \<times> u8 list) list" where
  "node_props vs n =
     (if n = 0 then [(''num-vms'', be32 (of_nat (length vs)))]
      else if odd n then vm_props (vs ! (n div 2)) else cpu_props (vs ! (n div 2 - 1)))"

definition vm_tree :: "vm_info list \<Rightarrow> fdt" where
  "vm_tree vs = \<lparr>
     fdt_path_offset = \<lambda>pa. if pa = ''/'' then 0
       else (case find (\<lambda>i. pa = ''/vm@'' @ dec (i + 1)) [0..<length vs] of None \<Rightarrow> -1 | Some i \<Rightarrow> 2 * int i + 1),
     fdt_getprop = \<lambda>off name. map_option (\<lambda>bs. (bs, int (length bs))) (map_of (node_props vs (nat off)) name),
     fdt_subnode_offset = \<lambda>off name. if name = ''cpus'' then off + 1 else -1,
     fdt_address_cells = \<lambda>_. 2, fdt_size_cells = \<lambda>_. 2\<rparr>"

lemma length_be32 [simp]: "length (be32 w) = 4"
  by (simp add: be32_def)

lemma fdt32_at_be32 [simp]: "fdt32_at (be32 w @ p) = Some w"
proof -
  have "ucast (take_bit 32 (ucast w :: u64)) = w" by (rule bit_word_eqI) (auto simp: bit_simps)
  then show ?thesis by (simp add: fdt32_at_def be32_def of_le_bytes_le_bytes)
qed

lemma drop_be32 [simp]: "drop 4 (be32 w @ p) = p"
  by simp

lemma read_be64: "fdt_next_cell 2 (be64 w @ p) = Some (w, p)"
proof -
  have "push_bit 32 (push_bit 32 0 OR ucast (ucast (drop_bit 32 w) :: u32)) OR ucast (ucast w :: u32) = w"
    by (rule bit_word_eqI) (auto simp: bit_simps)
  then have "read_number (Suc (Suc 0)) 0 (be64 w @ p) = Some w" by (simp add: be64_def)
  moreover have "drop 8 (be64 w @ p) = p" by (simp add: be64_def)
  ultimately show ?thesis by (simp add: fdt_next_cell_def fdt_read_number_def numeral_2_eq_2)
qed

lemma read_be32: "fdt_next_cell 1 (be32 w @ p) = Some (ucast w, p)"
  by (simp add: fdt_next_cell_def fdt_read_number_def)

abbreviation (input) s32 :: "int \<Rightarrow> bool" where
  "s32 v \<equiv> - (2 ^ 31) \<le> v \<and> v < 2 ^ 31"

lemma sint_of_s32: "s32 v \<Longrightarrow> sint (of_int v :: u32) = v"
  using signed_take_bit_int_eq_self [of 31 v] by (simp add: sint_sbintrunc')

lemma read_affinities: "\<forall>v\<in>set vs. s32 v \<Longrightarrow> read_cells (length vs) (concat (map (be32 \<circ> of_int) vs)) = Some vs"
proof (induction vs)
  case (Cons v vs)
  have "ucast (ucast (of_int v :: u32) :: u64) = (of_int v :: u32)" by (rule bit_word_eqI) (auto simp: bit_simps)
  then show ?case using Cons sint_of_s32 [of v] by (simp add: read_be32)
qed simp

lemma strncpy_str_bytes: "length str < 32 \<Longrightarrow> nul \<notin> set str \<Longrightarrow> strncpy_from 31 (str_bytes str) = Some str"
proof -
  assume a: "length str < 32" "nul \<notin> set str"
  have u: "unat (of_nat (of_char c) :: u8) = of_char c" for c by (simp add: unat_of_nat take_bit_eq_mod)
  have nz: "(of_nat (of_char c) :: u8) \<noteq> 0" if "c \<in> set str" for c
  proof
    assume "(of_nat (of_char c) :: u8) = 0"
    then have "(of_char c :: nat) = 0" using u [of c] by simp
    then have "char_of (of_char c :: nat) = nul" unfolding nul_def by simp
    then show False using that a(2) by simp
  qed
  let ?m = "map (\<lambda>c. of_nat (of_char c)) str :: u8 list"
  have "take 31 (str_bytes str) = ?m @ take (31 - length str) [0]" using a(1) by (simp add: str_bytes_def)
  moreover have "takeWhile (\<lambda>b. b \<noteq> 0) (?m @ take k [0]) = ?m" for k using nz by (cases k) (auto simp: takeWhile_append)
  moreover have "map (\<lambda>b. char_of (unat b)) ?m = str" by (simp add: u o_def)
  ultimately show ?thesis by (simp add: strncpy_from_def str_bytes_def)
qed

lemma dec_inj: "dec m = dec n \<longleftrightarrow> m = n"
proof
  have d: "(of_char (char_of (48 + k) :: char) :: nat) = 48 + k" if "k < 10" for k :: nat using that by simp
  show "dec m = dec n \<Longrightarrow> m = n"
  proof (induction m arbitrary: n rule: less_induct)
    case (less m)
    have e: "last (dec k) = char_of (48 + k mod 10)" "butlast (dec k) = (if k < 10 then [] else dec (k div 10))" for k :: nat
      by (simp_all add: dec.simps [of k])
    have "(char_of (48 + m mod 10) :: char) = char_of (48 + n mod 10)" using less.prems e(1) by metis
    then have m: "m mod 10 = n mod 10" using d [of "m mod 10"] d [of "n mod 10"] by (metis add_left_cancel mod_less_divisor zero_less_numeral)
    have b: "(if m < 10 then [] else dec (m div 10)) = (if n < 10 then [] else dec (n div 10))" using less.prems e(2) by metis
    have ne: "dec k \<noteq> []" "[] \<noteq> dec k" for k by (simp_all add: dec.simps [of k])
    show ?case
    proof (cases "m < 10")
      case True
      then show ?thesis using b ne m by (auto split: if_splits)
    next
      case False
      then have "dec (m div 10) = dec (n div 10)" using b ne by (auto split: if_splits)
      then have "m div 10 = n div 10" using less.IH [of "m div 10"] False by simp
      then show ?thesis using m by (metis div_mult_mod_eq)
    qed
  qed
qed simp

definition vm_spec_ok :: "vm_info \<Rightarrow> bool" where
  "vm_spec_ok vi \<longleftrightarrow> vm_info_ok vi \<and> 0 \<le> inf_vcpu_num vi \<and> inf_vcpu_num vi < 2 ^ 29 \<and>
     (\<forall>v\<in>{inf_os_type vi, inf_priority vi, inf_timeslice vi, inf_image_type vi, inf_auto_boot vi, inf_vcpu_mode vi} \<union> set (inf_vcpu_affinity vi).
        - (2 ^ 31) \<le> v \<and> v < 2 ^ 31) \<and>
     inf_entry vi = 0 \<and> inf_args vi = 0"

lemma int_step_tree:
  assumes "map_of (node_props vs (nat off)) prop = Some (be32 (of_int v))" "s32 v"
  shows "int_step (vm_tree vs) off prop set_it x = Some (set_it v x, None)"
    "fdt_get_int_value (vm_tree vs) off prop = Some (Some v)"
proof -
  show g: "fdt_get_int_value (vm_tree vs) off prop = Some (Some v)"
    using assms sint_of_s32 [of v] fdt32_at_be32 [of "of_int v" "[]"] by (simp add: fdt_get_int_value_def vm_tree_def)
  show "int_step (vm_tree vs) off prop set_it x = Some (set_it v x, None)" by (simp add: int_step_def g)
qed

lemma str_step_tree:
  assumes "map_of (node_props vs (nat off)) prop = Some (str_bytes str)" "length str < 32" "nul \<notin> set str"
  shows "str_step (vm_tree vs) off prop must set_it x = Some (set_it str x, None)"
  using assms strncpy_str_bytes by (simp add: str_step_def fdt_get_str_def vm_tree_def)

lemma find_upt: "i < n \<Longrightarrow> P i \<Longrightarrow> (\<And>j. j < n \<Longrightarrow> P j \<Longrightarrow> j = i) \<Longrightarrow> find P [0..<n] = Some i"
proof -
  assume a: "i < n" "P i" "\<And>j. j < n \<Longrightarrow> P j \<Longrightarrow> j = i"
  have "\<not> P ([0..<n] ! j)" if "j < i" for j
  proof -
    have "[0..<n] ! j = j" using that a(1) by simp
    moreover have "\<not> P j" using that a(1) a(3) [of j] by (metis less_trans less_irrefl)
    ultimately show ?thesis by simp
  qed
  then show ?thesis unfolding find_Some_iff using a(1,2) by (intro exI [of _ i]) simp
qed

lemma vm_tree_path:
  assumes "i < length vs"
  shows "fdt_path_offset (vm_tree vs) (''/vm@'' @ dec (i + 1)) = 2 * int i + 1"
proof -
  have "find (\<lambda>j. ''/vm@'' @ dec (i + 1) = ''/vm@'' @ dec (j + 1)) [0..<length vs] = Some i"
  proof (rule find_upt [OF assms])
    fix j assume "''/vm@'' @ dec (i + 1) = ''/vm@'' @ dec (j + 1)"
    then show "j = i" unfolding same_append_eq dec_inj by simp
  qed simp
  moreover have "''/vm@'' @ dec (i + 1) \<noteq> ''/''" by simp
  ultimately show ?thesis unfolding vm_tree_def fdt.select_convs by (simp only: if_False option.case)
qed

lemma parse_vcpu_cfg_tree:
  assumes "i < length vs" "vi = vs ! i" "vm_spec_ok vi"
  shows "parse_vcpu_cfg (vm_tree vs) True (2 * int i + 2) x =
    Some (x\<lparr>inf_vcpu_num := inf_vcpu_num vi, inf_vcpu_mode := inf_vcpu_mode vi, inf_vcpu_affinity := inf_vcpu_affinity vi\<rparr>, 0)"
proof -
  have np: "node_props vs (nat (2 * int i + 2)) = cpu_props vi"
    using assms(2) by (simp add: node_props_def nat_add_distrib nat_mult_distrib)
  have r: "s32 (inf_vcpu_num vi)" "s32 (inf_vcpu_mode vi)" "\<forall>v\<in>set (inf_vcpu_affinity vi). s32 v" "0 \<le> inf_vcpu_num vi" "inf_vcpu_num vi < 2 ^ 29"
    "length (inf_vcpu_affinity vi) = nat (inf_vcpu_num vi)"
    using assms(3) by (auto simp: vm_spec_ok_def vm_info_ok_def)
  have "length (concat (map (be32 \<circ> of_int) xs)) = 4 * length xs" for xs :: "int list" by (induction xs) simp_all
  moreover have "signed_take_bit 31 (4 * inf_vcpu_num vi) = 4 * inf_vcpu_num vi" using r(4,5) by (intro signed_take_bit_int_eq_self) simp_all
  ultimately have aff: "affinity_step (vm_tree vs) (2 * int i + 2) True y = Some (y\<lparr>inf_vcpu_affinity := inf_vcpu_affinity vi\<rparr>, None)"
    if "inf_vcpu_num y = inf_vcpu_num vi" for y
    using that r(4,6) read_affinities [OF r(3)] np by (simp add: affinity_step_def vm_tree_def cpu_props_def Let_def)
  show ?thesis
    using r(1,2) by (simp add: parse_vcpu_cfg_def aff int_step_tree(1) [of vs "2 * int i + 2", unfolded np cpu_props_def])
qed

text \<open>
  Parsing inverts writing. For every list of machines whose values fit the types of the configuration, the parser reads the
  configuration of each machine from the device tree of the list exactly as it was given, together with the tree and the place of the machine in it.
\<close>

lemma parse_vm_cfg_roundtrip:
  assumes "i < length vs" "vm_spec_ok (vs ! i)"
  shows "parse_vm_cfg (vm_tree vs) dtb True 2 2 i zero_info =
    Some ((vs ! i)\<lparr>inf_vm_cfg := dtb, inf_cfg_offset := of_nat (2 * i + 1)\<rparr>, 0)"
proof -
  let ?off = "2 * int i + 1" and ?vi = "vs ! i"
  have np: "node_props vs (nat ?off) = vm_props ?vi"
    by (simp add: node_props_def nat_add_distrib nat_mult_distrib)
  note int = int_step_tree [of vs ?off, unfolded np vm_props_def] and str = str_step_tree [of vs ?off, unfolded np vm_props_def]
  have ok: "vm_info_ok ?vi" "\<forall>v\<in>{inf_os_type ?vi, inf_priority ?vi, inf_timeslice ?vi, inf_image_type ?vi, inf_auto_boot ?vi}. s32 v"
    "inf_entry ?vi = 0" "inf_args ?vi = 0" "inf_priority ?vi \<le> 31"
    using assms(2) by (auto simp: vm_spec_ok_def vm_info_ok_def)
  have strs: "length str < 32" "nul \<notin> set str" if "str \<in> {inf_name ?vi, inf_image ?vi, inf_fdt ?vi}" for str
    using ok(1) that unfolding vm_info_ok_def by blast+
  have prio: "priority_step (vm_tree vs) ?off x = Some (x\<lparr>inf_priority := inf_priority ?vi\<rparr>, None)" for x
    using int(2) [of "''priority''" "inf_priority ?vi"] ok(2,5) by (simp add: priority_step_def)
  have boot: "auto_boot_step (vm_tree vs) ?off x = Some (x\<lparr>inf_auto_boot := inf_auto_boot ?vi\<rparr>, None)" for x
    using int(2) [of "''auto_boot''" "inf_auto_boot ?vi"] ok(2) by (simp add: auto_boot_step_def)
  have "push_bit 20 (drop_bit 20 (inf_ram_size ?vi)) = inf_ram_size ?vi"
    using bits_ident [of 20 "inf_ram_size ?vi"] ok(1) by (simp add: vm_info_ok_def)
  then have ram: "ram_step (vm_tree vs) ?off 2 2 x = Some (x\<lparr>inf_ipa_start := inf_ipa_start ?vi, inf_ram_size := inf_ram_size ?vi\<rparr>, None)" for x
    using read_be64 [of "inf_ipa_start ?vi" "be64 (drop_bit 20 (inf_ram_size ?vi))"] read_be64 [of "drop_bit 20 (inf_ram_size ?vi)" "[]"]
    by (simp add: ram_step_def vm_tree_def np vm_props_def be64_def)
  have cpus: "cpus_step (vm_tree vs) True ?off x = Some (x\<lparr>inf_vcpu_num := inf_vcpu_num ?vi, inf_vcpu_mode := inf_vcpu_mode ?vi,
      inf_vcpu_affinity := inf_vcpu_affinity ?vi\<rparr>, None)" for x
  proof -
    have "fdt_subnode_offset (vm_tree vs) ?off ''cpus'' = 2 * int i + 2" by (simp add: vm_tree_def)
    then show ?thesis using parse_vcpu_cfg_tree [OF assms(1) refl assms(2)] by (simp add: cpus_step_def Let_def)
  qed
  have strs: "str_step (vm_tree vs) ?off ''image'' b f x = Some (f (inf_image ?vi) x, None)"
    "str_step (vm_tree vs) ?off ''fdt'' b f x = Some (f (inf_fdt ?vi) x, None)"
    "str_step (vm_tree vs) ?off ''lable'' b f x = Some (f (inf_name ?vi) x, None)" for b f and x :: vm_info
    by (rule str; simp add: strs)+
  have ints: "int_step (vm_tree vs) ?off ''os_typs'' f x = Some (f (inf_os_type ?vi) x, None)"
    "int_step (vm_tree vs) ?off ''timeslice'' f x = Some (f (inf_timeslice ?vi) x, None)"
    "int_step (vm_tree vs) ?off ''image_type'' f x = Some (f (inf_image_type ?vi) x, None)" for f and x :: vm_info
    using ok(2) by (intro int(1); simp)+
  have "parse_vm_cfg (vm_tree vs) dtb True 2 2 i zero_info = Some (y, 0) \<longleftrightarrow>
      y = (vs ! i)\<lparr>inf_vm_cfg := dtb, inf_cfg_offset := of_nat (2 * i + 1)\<rparr>" for y
    unfolding parse_vm_cfg_def vm_tree_path [OF assms(1)] Let_def run_steps.simps strs ints prio boot ram cpus
    using ok(3,4) by (cases "vs ! i") (auto simp: zero_info_def)
  then show ?thesis by blast
qed

section \<open>The machines of a configuration\<close>

lemma res_part_vm: "res_part (upd_vm vm f s) = map_prod id (map_prod (\<lambda>vs. vs(vm := f (vs vm))) id) (res_part s)"
  by (simp add: res_part_def upd_vm_def)

lemma hv_vcpu_create_ok:
  assumes "v \<noteq> 0" "t \<noteq> 0" "stack \<noteq> 0"
  shows "\<exists>s'. hv_vcpu_create v t stack vm i s = (s', 0) \<and> vm_list s' = vm_list s \<and>
    (\<exists>m. vms s' = (vms s)(vm := m) \<and> info m = info (vms s vm) \<and> vm_vcpu m = (vm_vcpu (vms s vm))(i := v))"
proof -
  obtain s' where s': "hv_vcpu_create v t stack vm i s = (s', 0)"
    "res_part s' = map_prod id (map_prod (\<lambda>vs. vs(vm := (vs vm)\<lparr>vm_vcpu := (vm_vcpu (vs vm))(i := v)\<rparr>)) id)
      (if i = 0 then map_prod id (map_prod (\<lambda>vs. vs(vm := (vs vm)\<lparr>primary_cpu := int i\<rparr>)) id) (res_part s) else res_part s)"
    using assms by (simp add: hv_vcpu_create_def thread_create_def init_thread_struct_def hv_vcpu_arch_init_def Let_def res_part_vm
        if_distrib [of res_part] cong: if_cong)
  then show ?thesis by (auto simp: res_part_def split: if_splits)
qed

definition got_blocks :: "ptr \<times> ptr \<times> ptr \<Rightarrow> bool" where
  "got_blocks b \<longleftrightarrow> (case b of (v, t, stack) \<Rightarrow> v \<noteq> 0 \<and> t \<noteq> 0 \<and> stack \<noteq> 0)"

lemma create_loop_ok:
  assumes "\<forall>i\<in>set is. got_blocks (blocks i)"
  shows "\<exists>s'. create_loop blocks vm is s = (s', 0) \<and> vm_list s' = vm_list s \<and>
    (\<exists>m. vms s' = (vms s)(vm := m) \<and> info m = info (vms s vm) \<and>
       vm_vcpu m = (\<lambda>k. if k \<in> set is then fst (blocks k) else vm_vcpu (vms s vm) k))"
  using assms
proof (induction "is" arbitrary: s)
  case Nil
  show ?case by (auto intro!: exI [of _ "vms s vm"])
next
  case (Cons i "is")
  obtain v t stack where b: "blocks i = (v, t, stack)" by (metis prod_cases3)
  have "v \<noteq> 0 \<and> t \<noteq> 0 \<and> stack \<noteq> 0" using Cons.prems b by (simp add: got_blocks_def)
  then obtain s1 m1 where s1: "hv_vcpu_create v t stack vm i s = (s1, 0)" "vm_list s1 = vm_list s" "vms s1 = (vms s)(vm := m1)"
    "info m1 = info (vms s vm)" "vm_vcpu m1 = (vm_vcpu (vms s vm))(i := v)"
    using hv_vcpu_create_ok [of v t stack vm i s] by blast
  have "\<forall>j\<in>set is. got_blocks (blocks j)" using Cons.prems by simp
  from Cons.IH [OF this, of s1] obtain s' m where s': "create_loop blocks vm is s1 = (s', 0)" "vm_list s' = vm_list s1" "vms s' = (vms s1)(vm := m)" "info m = info (vms s1 vm)"
    "vm_vcpu m = (\<lambda>k. if k \<in> set is then fst (blocks k) else vm_vcpu (vms s1 vm) k)"
    by blast
  have "create_loop blocks vm (i # is) s = (s', 0)" using b s1(1) s'(1) by simp
  moreover have "vms s' = (vms s)(vm := m)" using s'(3) s1(3) by simp
  moreover have "info m = info (vms s vm)" using s'(4) s1(3,4) by simp
  moreover have "vm_vcpu m = (\<lambda>k. if k \<in> set (i # is) then fst (blocks k) else vm_vcpu (vms s vm) k)"
    using s'(5) s1(3,5) b by (auto simp: fun_eq_iff)
  moreover have "vm_list s' = vm_list s" using s'(2) s1(2) by simp
  ultimately show ?case by blast
qed

lemma lkhv_init_vm_ok:
  assumes "arr \<noteq> 0" "\<forall>i<nat (inf_vcpu_num (info (vms s vm))). got_blocks (blocks i)"
  shows "\<exists>s' m. lkhv_init_vm arr blocks vm s = (s', 0) \<and> vm_list s' = vm_list s @ [vm] \<and> vms s' = (vms s)(vm := m) \<and>
    info m = info (vms s vm) \<and> vcpu_num m = inf_vcpu_num (info m) \<and> (\<forall>k<nat (vcpu_num m). vm_vcpu m k = fst (blocks k))"
proof -
  let ?u = "upd_vm vm (\<lambda>m. m\<lparr>vm_vcpu := (\<lambda>_. 0)\<rparr>) s" and ?n = "inf_vcpu_num (info (vms s vm))"
  have u: "vm_list ?u = vm_list s" "vms ?u = (vms s)(vm := (vms s vm)\<lparr>vm_vcpu := (\<lambda>_. 0)\<rparr>)" by (simp_all add: upd_vm_def)
  have "\<forall>j\<in>set [0..<nat ?n]. got_blocks (blocks j)" using assms(2) by simp
  from create_loop_ok [OF this, where vm = vm and s = ?u] obtain s1 m where s1: "create_loop blocks vm [0..<nat ?n] ?u = (s1, 0)" "vm_list s1 = vm_list ?u" "vms s1 = (vms ?u)(vm := m)"
    "info m = info (vms ?u vm)" "vm_vcpu m = (\<lambda>k. if k \<in> set [0..<nat ?n] then fst (blocks k) else vm_vcpu (vms ?u vm) k)"
    by blast
  have "lkhv_init_vm arr blocks vm s = (vm_add vm (upd_vm vm (\<lambda>m. m\<lparr>vcpu_num := ?n\<rparr>) s1), 0)"
    using s1(1) assms(1) by (simp add: lkhv_init_vm_def hv_vm_init_vcpu_def Let_def)
  then show ?thesis
    by (rule_tac x = "vm_add vm (upd_vm vm (\<lambda>m. m\<lparr>vcpu_num := ?n\<rparr>) s1)" in exI, rule_tac x = "m\<lparr>vcpu_num := ?n\<rparr>" in exI)
      (use s1(2-5) u in \<open>simp add: vm_add_def upd_vm_def\<close>)
qed

lemma parse_vms_ok:
  assumes "fdt_of env dtb = vm_tree vs" "set is \<subseteq> {..<length vs}" "distinct (map (vm_block env) is)"
    and "\<forall>i\<in>set is. vm_spec_ok (vs ! i) \<and> vm_block env i \<noteq> 0 \<and> got_affinity env i \<and> vcpu_arr env i \<noteq> 0 \<and>
      (\<forall>k<nat (inf_vcpu_num (vs ! i)). got_blocks (vcpu_blocks env i k))"
  shows "\<exists>s'. parse_vms env dtb 2 2 is s = Some s' \<and> vm_list s' = vm_list s @ map (vm_block env) is \<and>
    (\<forall>w. w \<notin> vm_block env ` set is \<longrightarrow> vms s' w = vms s w) \<and>
    (\<forall>i\<in>set is. let m = vms s' (vm_block env i) in
       info m = (vs ! i)\<lparr>inf_vm_cfg := dtb, inf_cfg_offset := of_nat (2 * i + 1)\<rparr> \<and> vcpu_num m = inf_vcpu_num (vs ! i) \<and>
       (\<forall>k<nat (inf_vcpu_num (vs ! i)). vm_vcpu m k = fst (vcpu_blocks env i k)))"
  using assms(2-4)
proof (induction "is" arbitrary: s)
  case (Cons i "is")
  let ?b = "vm_block env i" and ?vi = "(vs ! i)\<lparr>inf_vm_cfg := dtb, inf_cfg_offset := of_nat (2 * i + 1)\<rparr>"
  have i: "i < length vs" "vm_spec_ok (vs ! i)" "?b \<noteq> 0" "got_affinity env i" "vcpu_arr env i \<noteq> 0"
    "\<forall>k<nat (inf_vcpu_num (vs ! i)). got_blocks (vcpu_blocks env i k)"
    using Cons.prems(1,3) by auto
  let ?s1 = "upd_vm ?b (\<lambda>m. m\<lparr>info := ?vi\<rparr>) (upd_vm ?b (\<lambda>_. zero_vm) s)"
  have v1: "vms ?s1 ?b = zero_vm\<lparr>info := ?vi\<rparr>" "vm_list ?s1 = vm_list s" "\<And>w. w \<noteq> ?b \<Longrightarrow> vms ?s1 w = vms s w" by (simp_all add: upd_vm_def)
  obtain s2 m where s2: "lkhv_init_vm (vcpu_arr env i) (vcpu_blocks env i) ?b ?s1 = (s2, 0)" "vm_list s2 = vm_list ?s1 @ [?b]"
    "vms s2 = (vms ?s1)(?b := m)" "info m = info (vms ?s1 ?b)" "vcpu_num m = inf_vcpu_num (info m)"
    "\<forall>k<nat (vcpu_num m). vm_vcpu m k = fst (vcpu_blocks env i k)"
    using lkhv_init_vm_ok [OF i(5), of ?s1 ?b "vcpu_blocks env i"] i(6) v1(1) by auto
  have "parse_vms env dtb 2 2 (i # is) s = parse_vms env dtb 2 2 is s2"
    using parse_vm_cfg_roundtrip [OF i(1,2), of dtb] i(3,4) s2(1) assms(1) by (simp add: lkhv_alloc_vm_def zero_vm_def upd_vm_def)
  moreover obtain s' where s': "parse_vms env dtb 2 2 is s2 = Some s'" "vm_list s' = vm_list s2 @ map (vm_block env) is"
    "\<forall>w. w \<notin> vm_block env ` set is \<longrightarrow> vms s' w = vms s2 w"
    "\<forall>i\<in>set is. let m = vms s' (vm_block env i) in
       info m = (vs ! i)\<lparr>inf_vm_cfg := dtb, inf_cfg_offset := of_nat (2 * i + 1)\<rparr> \<and> vcpu_num m = inf_vcpu_num (vs ! i) \<and>
       (\<forall>k<nat (inf_vcpu_num (vs ! i)). vm_vcpu m k = fst (vcpu_blocks env i k))"
    using Cons.IH [of s2] Cons.prems by auto
  moreover have "vms s' ?b = m" using s'(3) s2(3) Cons.prems(2) by auto
  moreover have "info m = ?vi" "vcpu_num m = inf_vcpu_num (vs ! i)" using s2(4,5) v1(1) by simp_all
  ultimately show ?case using s2 v1 by (simp add: Let_def)
qed simp


definition vm_ex :: vm_info where
  "vm_ex = zero_info\<lparr>inf_name := ''linux'', inf_image := ''vm.elf'', inf_image_type := 1, inf_priority := 16, inf_ipa_start := 0x80000000,
     inf_ram_size := 0x4000000, inf_vcpu_num := 2, inf_vcpu_mode := 64, inf_vcpu_affinity := [-1, 1]\<rparr>"

definition env_ex :: cfg_env where
  "env_ex = \<lparr>cfg_fs = fs_ex, fdt_of = \<lambda>_. vm_tree [vm_ex], got_dtb = True, vm_block = \<lambda>i. 0x1000 + of_nat i, got_affinity = \<lambda>_. True,
     vcpu_arr = \<lambda>_. 0x2000, vcpu_blocks = \<lambda>i k. (0x3000 + of_nat k, 0x4000 + of_nat k, 0x5000)\<rparr>"

lemma vm_ex_ok: "vm_spec_ok vm_ex"
  by (simp add: vm_spec_ok_def vm_info_ok_def vm_ex_def zero_info_def nul_def char_of_def take_bit_eq_mask mask_eq_exp_minus_1)


theorem parse_vm_cfg_witness: "vm_info_ok (vm_ex\<lparr>inf_vm_cfg := [], inf_cfg_offset := of_nat (2 * 0 + 1)\<rparr>)"
  using parse_vm_cfg_ok [of "vm_tree [vm_ex]" "[]" True 2 2 0] parse_vm_cfg_roundtrip [of 0 "[vm_ex]" "[]"] vm_ex_ok by simp

text \<open>
  The last steps of the boot clear the virtual CPU of every physical CPU, also where one that boots automatically is already running.
\<close>

lemma hv_boot_init_clears_current:
  assumes "hv_boot_init t mnt evt env got s = Some s'" "hv_rootdev_init t mnt = Some r" "0 \<le> r" "c < SMP_MAX_CPUS"
  shows "vcpu_data s' c = 0"
proof -
  have "vcpu_data (fst (hv_init_virq_info got s)) = vcpu_data s" for s by (simp add: hv_init_virq_info_def)
  then show ?thesis using assms by (auto simp: hv_boot_init_def hv_vcpu_init_def bind_eq_Some_conv)
qed

end
