(* ===== verification/Psci.thy ===== *)
theory Psci
  imports Vm
begin

text \<open>
  The power state coordination interface a guest calls, \<^verbatim>\<open>hv/arch/armv8a/hv_psci_emulation.c\<close>.
\<close>

section \<open>Calls\<close>

abbreviation (input) SMC_SUCCESS :: int where "SMC_SUCCESS \<equiv> 0"
abbreviation (input) SMC_NOT_SUPPORTED :: int where "SMC_NOT_SUPPORTED \<equiv> -1"
abbreviation (input) SMC_INVALID_PARAMETERS :: int where "SMC_INVALID_PARAMETERS \<equiv> -2"
abbreviation (input) SMC_DENIED :: int where "SMC_DENIED \<equiv> -3"
abbreviation (input) SMC_ALREADY_ON :: int where "SMC_ALREADY_ON \<equiv> -4"

datatype psci_fn =
    PSCI_VERSION | CPU_SUSPEND | CPU_OFF | CPU_ON | AFFINITY_INFO | MIGRATE | MIGRATE_INFO_TYPE | MIGRATE_INFO_UP_CPU
  | SYSTEM_OFF | SYSTEM_RESET | PSCI_FEATURES | CPU_FREEZE | CPU_DEFAULT_SUSPEND | NODE_HW_STATE | SYSTEM_SUSPEND
  | PSCI_SET_SUSPEND_MODE | PSCI_STAT_RESIDENCY | PSCI_STAT_COUNT

definition psci_fns :: "psci_fn list" where
  "psci_fns = [PSCI_VERSION, CPU_SUSPEND, CPU_OFF, CPU_ON, AFFINITY_INFO, MIGRATE, MIGRATE_INFO_TYPE, MIGRATE_INFO_UP_CPU,
     SYSTEM_OFF, SYSTEM_RESET, PSCI_FEATURES, CPU_FREEZE, CPU_DEFAULT_SUSPEND, NODE_HW_STATE, SYSTEM_SUSPEND,
     PSCI_SET_SUSPEND_MODE, PSCI_STAT_RESIDENCY, PSCI_STAT_COUNT]"

text \<open>The function a number stands for; \<open>None\<close> falls through the \<^verbatim>\<open>switch\<close>.\<close>

definition psci_fn_of :: "u64 \<Rightarrow> psci_fn option" where
  "psci_fn_of x = (let i = unat (x AND 0xFFFF) in if i < 18 then Some (psci_fns ! i) else None)"

definition psci_status :: "int \<Rightarrow> int" where
  "psci_status ret = (if ret \<ge> 0 then SMC_SUCCESS else SMC_DENIED)"

text \<open>
  In the first branch of \<^verbatim>\<open>psci_vcpu_suspend\<close> the thread gives up the CPU inside \<^verbatim>\<open>hv_vcpu_block\<close> exactly when that returns
  \<^verbatim>\<open>VCPU_RESCHED_EXIT\<close>, so the flag is set when the thread runs again.
\<close>

definition psci_vcpu_suspend :: "u32 \<Rightarrow> hv_state \<Rightarrow> int run" where
  "psci_vcpu_suspend power_state s =
     (let v = current_vcpu s
      in if bit power_state 16 then
           (case hv_vcpu_block v s of
              None \<Rightarrow> Crash
            | Some (s, ret) \<Rightarrow>
                let rest = (\<lambda>s. Done (psci_status ret) (VCPU_FLAGS_SET v 1 s))
                in if ret = VCPU_RESCHED_EXIT then Switch s rest else rest s)
         else bind_run (run_of_option (hv_vcpu_poweroff v s)) (\<lambda>ret. Done (psci_status ret)))"

definition psci_vcpu_off :: "hv_state \<Rightarrow> int run" where
  "psci_vcpu_off s = bind_run (run_of_option (hv_vcpu_poweroff (current_vcpu s) s)) (\<lambda>ret. Done (psci_status ret))"

definition psci_vcpu_on :: "u64 \<Rightarrow> u64 \<Rightarrow> u64 \<Rightarrow> hv_state \<Rightarrow> int run" where
  "psci_vcpu_on target_vcpu entry ctx_id s =
     (let vm = vcpu_vm (vcpus s (current_vcpu s));
          tgt_id = sint (mpidr_to_cpu_id target_vcpu)
      in if tgt_id \<ge> vcpu_num (vms s vm) then Done SMC_INVALID_PARAMETERS s
         else if tgt_id < 0 then Crash
         else
           let tgt = vm_vcpu (vms s vm) (nat tgt_id);
               (s, ret) = hv_vcpu_start tgt (upd_vcpu tgt (\<lambda>c. c\<lparr>vcpu_entry := entry, vcpu_args := ctx_id\<rparr>) s)
           in Done (if ret = 0 then SMC_SUCCESS else if ret = ERR_BUSY then SMC_ALREADY_ON else SMC_DENIED) s)"

definition psci_sys_off :: "hv_state \<Rightarrow> int run" where
  "psci_sys_off s = bind_run (lkhv_shutdown_vm (vcpu_vm (vcpus s (current_vcpu s))) s) (\<lambda>ret. Done (psci_status ret))"

definition psci_sys_reset :: "hv_state \<Rightarrow> int run" where
  "psci_sys_reset s =
     (let vm = vcpu_vm (vcpus s (current_vcpu s))
      in bind_run (lkhv_shutdown_vm vm s) (\<lambda>ret s.
           if ret \<noteq> 0 then Done SMC_DENIED s
           else case lkhv_vm_start vm s of (s, ret) \<Rightarrow> Done (psci_status ret) s))"

definition psci_features :: "u32 \<Rightarrow> int" where
  "psci_features fun_id =
     (case psci_fn_of (ucast fun_id) of
        Some f \<Rightarrow> if f \<in> {PSCI_VERSION, CPU_SUSPEND, CPU_OFF, CPU_ON, SYSTEM_OFF, SYSTEM_RESET, PSCI_FEATURES}
                  then 0 else SMC_NOT_SUPPORTED
      | None \<Rightarrow> SMC_NOT_SUPPORTED)"

text \<open>\<open>r\<close> are the general registers of the trapped guest.\<close>

definition hv_psci_call :: "u64 list \<Rightarrow> hv_state \<Rightarrow> int run" where
  "hv_psci_call r s =
     (case psci_fn_of (r ! 0) of
        None \<Rightarrow> Done 0 s
      | Some PSCI_VERSION \<Rightarrow> Done 0x10000 s
      | Some CPU_SUSPEND \<Rightarrow> psci_vcpu_suspend (ucast (r ! 1)) s
      | Some CPU_OFF \<Rightarrow> psci_vcpu_off s
      | Some CPU_ON \<Rightarrow> psci_vcpu_on (r ! 1) (r ! 2) (r ! 3) s
      | Some SYSTEM_OFF \<Rightarrow> psci_sys_off s
      | Some SYSTEM_RESET \<Rightarrow> psci_sys_reset s
      | Some PSCI_FEATURES \<Rightarrow> Done (psci_features (ucast (r ! 1))) s
      | Some _ \<Rightarrow> Done SMC_NOT_SUPPORTED s)"

section \<open>Powering off and on\<close>

lemma psci_fn_of_low: "unat (x AND 0xFFFF) = i \<Longrightarrow> i < 18 \<Longrightarrow> psci_fn_of x = Some (psci_fns ! i)"
  by (simp add: psci_fn_of_def)

text \<open>A virtual CPU that calls from the guest: its thread is the current one and runs.\<close>

definition calling :: "ptr \<Rightarrow> hv_state \<Rightarrow> bool" where
  "calling v s \<longleftrightarrow> current_vcpu s = v \<and> v \<noteq> 0 \<and> sched_inv s \<and> vq_inv s \<and> status (vcpus s v) \<notin> {VCPU_SHUTDOWN, VCPU_CREATED} \<and>
     hv_vcpu_cpu_id s v = int (curr_cpu s) \<and> vcpu_thread (vcpus s v) = get_current_thread s \<and>
     t_state (threads s (get_current_thread s)) = THREAD_RUNNING \<and> \<not> thread_is_idle (threads s (get_current_thread s))"

lemma calling_poweroff:
  assumes c: "calling v s" and t: "t = get_current_thread s"
  obtains s' where "hv_vcpu_poweroff v s = Some (s', VCPU_RESCHED_EXIT)" "status (vcpus s' v) = VCPU_SHUTDOWN" "sched_inv s'" "vq_inv s'"
    "threads s' = (threads s)(t := (threads s t)\<lparr>t_state := THREAD_BLOCKED, queued := False\<rparr>)" "get_current_thread s' = t"
    "\<And>w. w \<noteq> v \<Longrightarrow> status (vcpus s' w) = status (vcpus s w)" "curr_cpu s' = curr_cpu s"
proof -
  have h: "sched_inv s" "vq_inv s" "status (vcpus s v) \<notin> {VCPU_SHUTDOWN, VCPU_CREATED}" "hv_vcpu_cpu_id s v = int (curr_cpu s)"
    "t_state (threads s (vcpu_thread (vcpus s v))) = THREAD_READY \<longrightarrow> queued (threads s (vcpu_thread (vcpus s v)))"
    "vcpu_thread (vcpus s v) = t" "t_state (threads s t) = THREAD_RUNNING"
    using c t by (auto simp: calling_def)
  show thesis
  proof (rule hv_vcpu_poweroff_effect [OF h(1-5)])
    fix s'
    assume "hv_vcpu_poweroff v s = Some (s', if t_state (threads s (vcpu_thread (vcpus s v))) = THREAD_RUNNING then VCPU_RESCHED_EXIT else 0)"
      "status (vcpus s' v) = VCPU_SHUTDOWN" "sched_inv s'" "vq_inv s'" "current_thread s' = current_thread s" "curr_cpu s' = curr_cpu s"
      "threads s' = (threads s)(vcpu_thread (vcpus s v) := (threads s (vcpu_thread (vcpus s v)))\<lparr>t_state := THREAD_BLOCKED, queued := False\<rparr>)"
      "\<And>w. w \<noteq> v \<Longrightarrow> status (vcpus s' w) = status (vcpus s w)"
    with h(6,7) t show thesis by (intro that [of s']) (simp_all add: get_current_thread_def)
  qed
qed

text \<open>A preempted thread that is not idle is running again or waits on a run queue.\<close>

lemma thread_preempt_keeps:
  assumes inv: "sched_inv s" and t: "t = get_current_thread s" "\<not> thread_is_idle (threads s t)"
  shows "let s' = thread_preempt s in get_current_thread s' = t \<and> t_state (threads s' t) = THREAD_RUNNING \<or>
    queued (threads s' t) \<and> t_state (threads s' t) = THREAD_READY"
proof -
  let ?r = "upd_thread t (\<lambda>th. th\<lparr>t_state := THREAD_READY\<rparr>) s"
  let ?i = "if quantum (threads ?r t) > 0 then insert_in_run_queue_head t ?r else insert_in_run_queue_tail t ?r"
  have ni: "\<not> thread_is_idle (threads ?r t)" using t(2) by (simp add: upd_thread_def thread_is_idle_def)
  have p: "thread_preempt s = thread_resched ?i" using ni t by (simp add: thread_preempt_def Let_def)
  have nq: "\<not> queued (threads s t)" using inv t by (simp add: sched_inv_def)
  have q: "queues_ok ?r" using inv nq by (intro queues_upd) (auto simp: sched_inv_def)
  have qr: "\<not> queued (threads ?r t)" "t_state (threads ?r t) = THREAD_READY" using nq by (simp_all add: upd_thread_def)
  have c: "cpus_ok ?r" using inv t by (intro cpus_upd_current) (auto simp: sched_inv_def)
  have o: "\<forall>c<4. c \<noteq> curr_cpu ?r \<longrightarrow> current_thread ?r c \<noteq> t"
    using inv t by (auto simp: sched_inv_def cpus_ok_def get_current_thread_def upd_thread_def)
  have i: "queues_ok ?i" "cpus_ok ?i" "queued (threads ?i t)" "t_state (threads ?i t) = THREAD_READY"
    using queues_insert_head [OF q qr ni] queues_insert_tail [OF q qr ni] cpus_insert [OF c o]
    by (auto simp: insert_in_run_queue_head_def insert_in_run_queue_tail_def upd_thread_def Let_def)
  from thread_resched_threads [OF i(1,2)] obtain new where "get_current_thread (thread_resched ?i) = new" "t_state (threads (thread_resched ?i) new) = THREAD_RUNNING"
    "\<And>u. u \<noteq> new \<Longrightarrow> t_state (threads (thread_resched ?i) u) = t_state (threads ?i u) \<and> queued (threads (thread_resched ?i) u) = queued (threads ?i u)"
    by metis
  then show ?thesis unfolding p Let_def using i(3,4) by (cases "new = t") auto
qed

section \<open>Properties\<close>


lemma calling_ex: "calling 0x200 run_ex"
  using run_ex_inv by (simp add: calling_def)


section \<open>Reset\<close>

definition st_part :: "hv_state \<Rightarrow> ptr \<Rightarrow> vcpu_status" where
  "st_part s w = status (vcpus s w)"

lemma st_part_upd [simp]:
  "st_part (ARM64_WRITE_SYSREG r x s) = st_part s" "st_part (ARM64_WRITE_ICC i x s) = st_part s" "st_part (upd_virq q g s) = st_part s"
  "st_part (gic_put w s) = st_part s" "st_part (upd_thread t h s) = st_part s" "st_part (s\<lparr>vcpu_data := d\<rparr>) = st_part s"
  "st_part (s\<lparr>run_queue := rq\<rparr>) = st_part s" "st_part (s\<lparr>run_queue_bitmap := bm\<rparr>) = st_part s" "st_part (s\<lparr>current_thread := ct\<rparr>) = st_part s"
  "st_part (s\<lparr>idle_cpus := ic\<rparr>) = st_part s" "st_part (s\<lparr>realtime_cpus := rc\<rparr>) = st_part s"
  by (simp_all add: st_part_def fun_eq_iff ARM64_WRITE_SYSREG_def ARM64_WRITE_ICC_def upd_virq_def gic_put_def upd_thread_def)

lemma st_part_vcpu: "(\<And>c. status (f c) = status c) \<Longrightarrow> st_part (upd_vcpu v f s) = st_part s"
  by (simp add: st_part_def fun_eq_iff upd_vcpu_def)

lemma fold_st: "(\<And>x s. st_part (f x s) = st_part s) \<Longrightarrow> st_part (fold f xs s) = st_part s"
  by (induction xs arbitrary: s) auto

lemma st_part_switch [simp]: "st_part (vcpu_switch_to v s) = st_part s"
proof -
  have "st_part (hv_vcpu_irq_restore v s) = st_part s" for v s
    by (simp add: hv_vcpu_irq_restore_def vcpu_move_irqs_def move_irq_def aprn_restore_def lr_write_def
      vgic_write_aprn_reg_def gic_set_affinity_def Let_def fold_st st_part_vcpu)
  moreover have "st_part (hv_arch_vcpu_context_restore v s) = st_part s" for v s
    by (simp add: hv_arch_vcpu_context_restore_def) (rule fold_st, auto)
  ultimately have "st_part (context_out v s) = st_part s" "st_part (context_in v s) = st_part s" for v s
    by (simp_all add: context_out_def context_in_def hv_vtimer_context_save_def hv_vcpu_irq_save_def
      hv_arch_vcpu_context_save_def hv_vtimer_context_restore_def upd_vtimer_def upd_redist_def Let_def st_part_vcpu)
  then show ?thesis by (simp add: vcpu_switch_to_def hv_vcpu_arch_contex_switch_def Let_def)
qed

lemma st_part_resched [simp]: "st_part (thread_resched s) = st_part s"
proof -
  have "st_part (fst (get_top_thread c s)) = st_part s" for c
    by (simp add: get_top_thread_def Let_def split: option.split)
  moreover have "st_part (note_switch a b s) = st_part s" for a b s by (simp add: note_switch_def Let_def)
  ultimately show ?thesis by (simp add: thread_resched_def Let_def split_beta)
qed

lemma poweroff_others_off:
  "\<forall>w\<in>set vs. w \<noteq> v \<longrightarrow> status (vcpus s w) \<in> {VCPU_SHUTDOWN, VCPU_CREATED} \<Longrightarrow> poweroff_others v vs b s = Some (s, 0, b)"
  by (induction v vs b s rule: poweroff_others.induct) (auto simp: hv_vcpu_poweroff_def)

text \<open>A blocked thread that is not idle loses the CPU and does not get it back by itself.\<close>

lemma blocked_thread_leaves:
  assumes "sched_inv s" "t = get_current_thread s" "t_state (threads s t) = THREAD_BLOCKED" "\<not> thread_is_idle (threads s t)"
  shows "get_current_thread (thread_resched s) \<noteq> t \<and> t_state (threads (thread_resched s) t) = THREAD_BLOCKED \<and> \<not> queued (threads (thread_resched s) t)"
proof -
  have q: "queues_ok s" "cpus_ok s" "\<not> queued (threads s t)" using assms(1,2) by (auto simp: sched_inv_def)
  have "idle_thread s (curr_cpu s) \<noteq> t" using q(2) assms(4) by (auto simp: cpus_ok_def)
  moreover from thread_resched_threads [OF q(1,2)] obtain new where
    "get_current_thread (thread_resched s) = new" "new = idle_thread s (curr_cpu s) \<or> queued (threads s new)"
    "\<And>u. u \<noteq> new \<Longrightarrow> t_state (threads (thread_resched s) u) = t_state (threads s u) \<and> queued (threads (thread_resched s) u) = queued (threads s u)"
    by metis
  ultimately show ?thesis using q(3) assms(3) by metis
qed

text \<open>
  C37. A guest that resets its machine never comes back. When the last running virtual CPU of a machine calls
  \<^verbatim>\<open>SYSTEM_RESET\<close>, \<^verbatim>\<open>lkhv_shutdown_vm\<close> blocks the calling thread before it returns, so that \<^verbatim>\<open>lkhv_vm_start\<close> after it does not run: the CPU
  has switched to another thread, the caller is blocked and on no run queue, every virtual CPU of the machine is off, and its memory is free.
\<close>

theorem psci_sys_reset_never_starts:
  assumes "calling v s" "t = get_current_thread s" "vm = vcpu_vm (vcpus s v)" "r ! 0 AND 0xFFFF = 9"
    and "\<forall>w\<in>set (vcpus_of s vm). w \<noteq> v \<longrightarrow> status (vcpus s w) \<in> {VCPU_SHUTDOWN, VCPU_CREATED}"
  shows "\<exists>s' k. hv_psci_call r s = Switch s' k \<and> get_current_thread s' \<noteq> t \<and> t_state (threads s' t) = THREAD_BLOCKED \<and>
    \<not> queued (threads s' t) \<and> (\<forall>w\<in>set (vcpus_of s vm). status (vcpus s' w) \<in> {VCPU_SHUTDOWN, VCPU_CREATED}) \<and>
    mem_seg (mem (vms s' vm)) = None"
proof -
  obtain s1 where s1: "hv_vcpu_poweroff v s = Some (s1, VCPU_RESCHED_EXIT)" "status (vcpus s1 v) = VCPU_SHUTDOWN" "sched_inv s1"
    "threads s1 = (threads s)(t := (threads s t)\<lparr>t_state := THREAD_BLOCKED, queued := False\<rparr>)" "get_current_thread s1 = t"
    "\<And>w. w \<noteq> v \<Longrightarrow> status (vcpus s1 w) = status (vcpus s w)"
    using calling_poweroff [OF assms(1,2)] by metis
  let ?f = "lkhv_vm_free_mem vm s1"
  have v: "current_vcpu s = v" "v \<noteq> 0" "status (vcpus s v) \<noteq> VCPU_SHUTDOWN" "\<not> thread_is_idle (threads s t)"
    using assms(1,2) by (auto simp: calling_def)
  have "psci_fn_of (r ! 0) = Some SYSTEM_RESET" using assms(4) by (simp add: psci_fn_of_def psci_fns_def)
  moreover have "lkhv_shutdown_vm vm s = Switch (thread_resched ?f) (Done 0)"
    using v(1-3) poweroff_others_off [OF assms(5), of False] s1(1) by (simp add: lkhv_shutdown_vm_def thread_block_def Let_def)
  ultimately have "hv_psci_call r s = bind_run (Switch (thread_resched ?f) (Done (0 :: int))) (\<lambda>ret s.
      if ret \<noteq> 0 then Done SMC_DENIED s else case lkhv_vm_start vm s of (s, ret) \<Rightarrow> Done (psci_status ret) s)"
    using v(1) assms(3) by (simp only: hv_psci_call_def psci_sys_reset_def Let_def option.case psci_fn.case)
  then obtain k where call: "hv_psci_call r s = Switch (thread_resched ?f) k" by (simp only: bind_run.simps)
  have f: "sched_inv ?f" "threads ?f = threads s1" "get_current_thread ?f = t"
    using s1(3,5) free_mem_frame(5) [of vm s1] sched_inv_part [OF free_mem_frame(5)] by (simp_all add: sched_part_def get_current_thread_def)
  have "\<not> thread_is_idle (threads ?f t)" "t_state (threads ?f t) = THREAD_BLOCKED"
    using v(4) unfolding f(2) s1(4) by (simp_all add: thread_is_idle_def)
  note b = blocked_thread_leaves [OF f(1) f(3) [symmetric] this(2,1)]
  have "status (vcpus (thread_resched ?f) w) = status (vcpus s1 w)" for w
    using fun_cong [OF st_part_resched [of ?f], of w] unfolding st_part_def free_mem_frame(6) .
  then have off: "\<forall>w\<in>set (vcpus_of s vm). status (vcpus (thread_resched ?f) w) \<in> {VCPU_SHUTDOWN, VCPU_CREATED}"
    using s1(2,6) assms(5) by (metis insertI1)
  have "vms (thread_resched ?f) = vms ?f" using res_part_resched [of ?f] by (simp add: res_part_def)
  then have "mem_seg (mem (vms (thread_resched ?f) vm)) = None"
    by (simp add: lkhv_vm_free_mem_def with_mem_def upd_mem_def upd_vm_def)
  with call b off show ?thesis by (intro exI [of _ "thread_resched ?f"] exI [of _ k]) simp
qed

theorem psci_sys_reset_witness:
  "\<exists>s' k. hv_psci_call [0x84000009] run_ex = Switch s' k \<and> get_current_thread s' \<noteq> 0x100 \<and> mem_seg (mem (vms s' 0x300)) = None"
  using psci_sys_reset_never_starts [OF calling_ex, of "0x100" "0x300" "[0x84000009]"] by auto

section \<open>Turning a CPU on\<close>

lemma mpidr_to_cpu_id_nonneg: "0 \<le> sint (mpidr_to_cpu_id m)"
proof -
  have "mpidr_to_cpu_id m = take_bit 12 (mpidr_to_cpu_id m)"
    by (rule bit_word_eqI) (auto simp: mpidr_to_cpu_id_def Let_def bit_simps)
  then have "uint (mpidr_to_cpu_id m) = take_bit 12 (uint (mpidr_to_cpu_id m))" by (metis unsigned_take_bit_eq)
  then have "uint (mpidr_to_cpu_id m) < 2 ^ 12" by (metis take_bit_int_less_exp)
  then have "signed_take_bit 31 (uint (mpidr_to_cpu_id m)) = uint (mpidr_to_cpu_id m)"
    by (intro signed_take_bit_int_eq_self order_trans [OF _ uint_ge_0]) simp_all
  then show ?thesis by (simp add: sint_uint del: signed_take_bit_nonnegative_iff)
qed


definition on_ex :: hv_state where
  "on_ex = (let s = vcpu_ex VCPU_CREATED THREAD_SUSPENDED in
     s\<lparr>vcpu_data := (\<lambda>_. 0x600), vcpus := (vcpus s)(0x600 := zero_vcpu\<lparr>vcpu_vm := 0x300\<rparr>),
       vms := (\<lambda>_. zero_vm)(0x300 := zero_vm\<lparr>vcpu_num := 2, vm_vcpu := (\<lambda>i. if i = 1 then 0x200 else 0x600)\<rparr>)\<rparr>)"

lemma on_ex_simps:
  "current_vcpu on_ex = 0x600" "vcpu_vm (vcpus on_ex 0x600) = 0x300" "vcpu_num (vms on_ex 0x300) = 2" "vm_vcpu (vms on_ex 0x300) 1 = 0x200"
  "status (vcpus on_ex 0x200) = VCPU_CREATED" "vcpu_thread (vcpus on_ex 0x200) = 0x100" "ints_off on_ex"
  "threads on_ex 0x100 = zero_thread\<lparr>t_state := THREAD_SUSPENDED, t_vcpu := 0x200\<rparr>" "\<forall>c<4. current_thread on_ex c \<noteq> 0x100"
  using vcpu_ex_simps(4) [of VCPU_CREATED THREAD_SUSPENDED] by (simp_all add: on_ex_def Let_def current_vcpu_def)


end
