(* ===== verification/Traps.thy ===== *)
theory Traps
  imports Psci
begin

text \<open>
  Exceptions and interrupts: what a guest traps into (\<^verbatim>\<open>hv/arch/armv8a/hv_arch_traps.c\<close>, called from
  \<^verbatim>\<open>arch/arm64/exceptions_c.c\<close>), and the path of an interrupt through \<^verbatim>\<open>platform_irq\<close> (\<^verbatim>\<open>dev/interrupt/gic_v3/gic_v3.c\<close>)
  and the exit code of \<^verbatim>\<open>arch/arm64/exceptions.S\<close>.
\<close>

section \<open>The frame of a trap\<close>

record arm64_iframe_long =
  if_r :: "u64 list"
  if_lr :: u64
  if_usp :: u64
  if_elr :: u64
  if_spsr :: u64

text \<open>
  \<^verbatim>\<open>iframe->r[n]\<close>: the array has 30 words, and the link register and the stack pointer follow it in the structure.
\<close>

definition reg_at :: "arm64_iframe_long \<Rightarrow> nat \<Rightarrow> u64" where
  "reg_at f n = (if n < 30 then if_r f ! n else if n = 30 then if_lr f else if_usp f)"

section \<open>Calls\<close>

definition smc_type :: "u64 \<Rightarrow> u32" where
  "smc_type x0 = ucast (0x3F000000 AND x0)"

definition set_r0 :: "arm64_iframe_long \<Rightarrow> int \<Rightarrow> arm64_iframe_long" where
  "set_r0 f ret = f\<lparr>if_r := (if_r f)[0 := word_of_int ret]\<rparr>"

definition hv_traps_smc :: "arm64_iframe_long \<Rightarrow> hv_state \<Rightarrow> arm64_iframe_long run" where
  "hv_traps_smc f s =
     bind_run (if smc_type (if_r f ! 0) = 0x04000000 then hv_psci_call (if_r f) s else Done SMC_NOT_SUPPORTED s)
       (\<lambda>ret. Done (set_r0 f ret))"

definition hv_traps_hypercall :: "arm64_iframe_long \<Rightarrow> hv_state \<Rightarrow> arm64_iframe_long run" where
  "hv_traps_hypercall f s =
     bind_run
       (if smc_type (if_r f ! 0) = 0x04000000 then hv_psci_call (if_r f) s
        else if smc_type (if_r f ! 0) = 0x05000000 then Done 0 s
        else Done SMC_NOT_SUPPORTED s)
       (\<lambda>ret. Done (set_r0 f ret))"

section \<open>Data aborts\<close>

text \<open>
  \<open>junk\<close> and \<open>stack\<close> are what uninitialised variables of the register handlers and of \<^verbatim>\<open>hv_mmio_handler\<close> hold. A read stores
  into the word of the frame for its register; registers 30 and 31 get the address 0.
\<close>

definition fault_ipa :: "hv_state \<Rightarrow> paddr" where
  "fault_ipa s =
     (let gva = ARM64_READ_SYSREG FAR_EL2 s AND 0xFFF
      in push_bit 8 (ARM64_READ_SYSREG HPFAR_EL2 s AND NOT 0xF) OR gva)"

definition hv_data_abort ::
    "(nat \<Rightarrow> u32) \<Rightarrow> u64 \<Rightarrow> arm64_iframe_long \<Rightarrow> u32 \<Rightarrow> hv_state \<Rightarrow> (hv_state \<times> arm64_iframe_long \<times> int) option" where
  "hv_data_abort junk stack f esr s =
     (if \<not> bit esr 24 then Some (s, f, 0)
      else
        let ipa = fault_ipa s;
            is_write = bit esr 6;
            data_len = 2 ^ unat (bitfield esr 22 2);
            reg_num = unat (bitfield esr 16 5);
            is_signed = bit esr 21;
            data = (if reg_num = 31 then 0 else reg_at f reg_num)
        in if bit esr 2 then
             (case hv_mmio_handler (vgic_mmio_read junk) vgic_mmio_write (vm_mmio (vms s (vcpu_vm (vcpus s (current_vcpu s)))))
                stack s ipa data_len is_write data is_signed of
                None \<Rightarrow> None
              | Some (s, ret, None) \<Rightarrow> Some (s, f, ret)
              | Some (s, ret, Some v) \<Rightarrow>
                  if reg_num < 30 then Some (s, f\<lparr>if_r := (if_r f)[reg_num := v]\<rparr>, ret) else None)
           else Some (s, f, 0))"

section \<open>System registers\<close>

definition hv_io_emulation :: "arm64_iframe_long \<Rightarrow> u32 \<Rightarrow> hv_state \<Rightarrow> hv_state \<times> int" where
  "hv_io_emulation f esr s =
     (let is_r = bit esr 0;
          value = (if is_r then 0 else reg_at f (unat (bitfield esr 5 5)))
      in if esr AND 0x3FFC1E = 0x3A3016 then (gic_sgi_emulation value s, 1) else (s, 0))"

section \<open>Exceptions given to the guest\<close>

definition is_el_el0 :: "u64 \<Rightarrow> bool" where
  "is_el_el0 el \<longleftrightarrow> el = 0"

definition is_el_el1 :: "u64 \<Rightarrow> bool" where
  "is_el_el1 el \<longleftrightarrow> el = 4 \<or> el = 5"

definition get_el1_excep_entry :: "hv_state \<Rightarrow> u64" where
  "get_el1_excep_entry s =
     (let el = ARM64_READ_SYSREG SPSR_EL2 s AND 0xf; vbar = ARM64_READ_SYSREG (EL1 VBAR_EL1) s
      in if is_el_el0 el then vbar + 0x400 else if is_el_el1 el then vbar + 0x200 else -1)"

datatype esr_reason = ESR_DABT | ESR_IABT | ESR_UNKOWN

definition calc_esr_ec :: "esr_reason \<Rightarrow> hv_state \<Rightarrow> u64" where
  "calc_esr_ec reason s =
     (let el = ARM64_READ_SYSREG SPSR_EL2 s AND 0xf
      in case reason of
           ESR_DABT \<Rightarrow> if is_el_el0 el then 0x24 else if is_el_el1 el then 0x25 else 0
         | ESR_IABT \<Rightarrow> if is_el_el0 el then 0x20 else if is_el_el1 el then 0x21 else 0
         | ESR_UNKOWN \<Rightarrow> 0)"

definition hv_excep_to_el1 :: "arm64_iframe_long \<Rightarrow> esr_reason \<Rightarrow> hv_state \<Rightarrow> hv_state \<times> arm64_iframe_long" where
  "hv_excep_to_el1 f reason s =
     (let esr = ARM64_READ_SYSREG ESR_EL2 s;
          s = ARM64_WRITE_SYSREG (EL1 SPSR_EL1) (if_spsr f) s;
          s = ARM64_WRITE_SYSREG (EL1 ELR_EL1) (if_elr f) s;
          f = f\<lparr>if_spsr := if_spsr f OR push_bit 6 1 OR push_bit 7 1 OR push_bit 8 1, if_elr := get_el1_excep_entry s\<rparr>;
          esr = set_bitfield esr 26 6 (calc_esr_ec reason s)
      in (ARM64_WRITE_SYSREG (EL1 ESR_EL1) esr s, f))"

section \<open>The dispatch\<close>

definition skip_instr :: "arm64_iframe_long \<Rightarrow> arm64_iframe_long" where
  "skip_instr f = f\<lparr>if_elr := if_elr f + 4\<rparr>"

definition esr_ec :: "u32 \<Rightarrow> u32" where
  "esr_ec esr = drop_bit 26 esr AND 0x3F"

text \<open>The \<^verbatim>\<open>switch\<close> of \<^verbatim>\<open>hyper_sync_exception\<close>.\<close>

definition hyper_switch ::
    "(nat \<Rightarrow> u32) \<Rightarrow> u64 \<Rightarrow> arm64_iframe_long \<Rightarrow> u32 \<Rightarrow> hv_state \<Rightarrow> (int \<times> arm64_iframe_long) run" where
  "hyper_switch junk stack f esr s =
     (let ec = esr_ec esr
      in if ec = 0x24 then
           (case hv_data_abort junk stack f esr s of
              None \<Rightarrow> Crash
            | Some (s, f, ret) \<Rightarrow>
                if ret \<noteq> 0 then Done (ret, skip_instr f) s
                else (case hv_excep_to_el1 f ESR_DABT s of (s, f) \<Rightarrow> Done (1, f) s))
         else if ec = 0x20 then Done (0, f) s
         else if ec = 0x16 then bind_run (hv_traps_hypercall f s) (\<lambda>f. Done (1, f))
         else if ec = 0x17 then bind_run (hv_traps_smc f s) (\<lambda>f. Done (1, f))
         else if ec = 0x18 then
           (case hv_io_emulation f esr s of
              (s, ret) \<Rightarrow>
                if ret \<noteq> 0 then Done (ret, skip_instr f) s
                else (case hv_excep_to_el1 f ESR_UNKOWN s of (s, f) \<Rightarrow> Done (1, f) s))
         else if ec = 0x01 then Done (1, f) s
         else Done (0, f) s)"

definition hyper_sync_exception ::
    "(nat \<Rightarrow> u32) \<Rightarrow> u64 \<Rightarrow> arm64_iframe_long \<Rightarrow> u32 \<Rightarrow> hv_state \<Rightarrow> (int \<times> arm64_iframe_long) run" where
  "hyper_sync_exception junk stack f esr s =
     (let el = ARM64_READ_SYSREG SPSR_EL2 s AND 0xf
      in if el = 8 \<or> el = 9 then Done (0, f) s
         else bind_run (hyper_switch junk stack f esr (hv_virq_from_lrs s)) (\<lambda>r s. Done r (hv_virq_to_lrs s)))"

text \<open>
  \<^verbatim>\<open>arm64_sync_exception\<close>: the frame to return to, or \<open>None\<close> when the hypervisor panics. The handlers of floating point
  traps and of system calls are parameters; \<open>table\<close> is the fault handler table of the linker script.
\<close>

definition arm64_sync_exception ::
    "(nat \<Rightarrow> u32) \<Rightarrow> u64 \<Rightarrow> (arm64_iframe_long \<Rightarrow> hv_state \<Rightarrow> arm64_iframe_long run) \<Rightarrow>
     (arm64_iframe_long \<Rightarrow> hv_state \<Rightarrow> arm64_iframe_long run) \<Rightarrow> (u64 \<times> u64) list \<Rightarrow>
     arm64_iframe_long \<Rightarrow> hv_state \<Rightarrow> arm64_iframe_long option run" where
  "arm64_sync_exception junk stack fpu syscall table f s =
     (let esr = ucast (ARM64_READ_SYSREG ESR_EL2 s); ec = esr_ec esr
      in if ec = 0x07 then bind_run (fpu f s) (\<lambda>f. Done (Some f))
         else if ec = 0x11 \<or> ec = 0x15 then bind_run (syscall f s) (\<lambda>f. Done (Some f))
         else if ec = 0x20 \<or> ec = 0x21 then Done None s
         else if ec = 0x25 then
           (case map_of table (if_elr f) of
              Some h \<Rightarrow> Done (Some (f\<lparr>if_elr := h\<rparr>)) s
            | None \<Rightarrow> Done None s)
         else if ec = 0x3C then Done None s
         else bind_run (hyper_sync_exception junk stack f esr s) (\<lambda>(ret, f). Done (if ret \<noteq> 0 then Some f else None)))"

section \<open>Interrupts\<close>

definition call_handler :: "handler \<Rightarrow> u64 \<Rightarrow> hv_state \<Rightarrow> int run" where
  "call_handler h arg s =
     (case h of
        Hv_int_handler \<Rightarrow> run_of_option (Some (hv_int_handler arg s))
      | Vtimer_irq_handler \<Rightarrow> run_of_option (Some (vtimer_irq_handler s))
      | Vgic_maintenance_inter \<Rightarrow> Done INT_NO_RESCHEDULE s
      | Hv_event_handler \<Rightarrow> hv_event_handler s
      | Hv_event_empty_handler \<Rightarrow> Done INT_NO_RESCHEDULE s
      | Ipi_generic_handler \<Rightarrow> Done INT_NO_RESCHEDULE s
      | Ipi_reschedule_handler \<Rightarrow> Done (mp_mbx_reschedule_irq s) s)"

text \<open>A table entry without a handler has the argument 0.\<close>

definition handler_arg :: "(handler \<times> u64) option \<Rightarrow> u64" where
  "handler_arg h = (case h of None \<Rightarrow> 0 | Some (_, arg) \<Rightarrow> arg)"

definition platform_irq_inner :: "hv_state \<Rightarrow> int run" where
  "platform_irq_inner s =
     (let iar = ucast (ARM64_READ_SYSREG (ICC ICC_IAR1_EL1) s) :: u32;
          vector = unat (iar AND 0x3ff)
      in if vector \<ge> 0x3fe then Done INT_NO_RESCHEDULE s
         else
           let cpu = curr_cpu s;
               finish = (\<lambda>ret s.
                 let s = ARM64_WRITE_ICC ICC_EOIR1_EL1 (ucast iar) s
                 in Done ret (if handler_arg (get_int_handler vector cpu s) \<noteq> INT_IRQ
                      then ARM64_WRITE_ICC ICC_DIR_EL1 (ucast iar) s else s))
           in case get_int_handler vector cpu s of
                None \<Rightarrow> finish INT_NO_RESCHEDULE s
              | Some (h, arg) \<Rightarrow>
                  bind_run (call_handler h (if arg = INT_IRQ then of_nat vector else arg) s) finish)"

definition platform_irq :: "hv_state \<Rightarrow> int run" where
  "platform_irq s = platform_irq_inner (hv_virq_from_lrs s)"

text \<open>
  The macro \<^verbatim>\<open>irq_exception\<close>. \<^verbatim>\<open>thread_vcpu_sched\<close> may switch to another thread, and then the rest runs when this one is
  back.
\<close>

definition irq_exception :: "hv_state \<Rightarrow> unit run" where
  "irq_exception s =
     bind_run (platform_irq s) (\<lambda>ret s.
       let rest = (\<lambda>s. Done () (hv_virq_to_lrs s))
       in if ret = 0 then rest s
          else
            let s' = thread_vcpu_sched ret s
            in if get_current_thread s' = get_current_thread s then rest s' else Switch s' rest)"

section \<open>Results of a run\<close>

text \<open>The values a function may end with, over all states it may be resumed in.\<close>

primrec results :: "'a run \<Rightarrow> 'a set" where
  "results (Done a s) = {a}"
| "results (Switch s k) = (\<Union>s. results (k s))"
| "results Crash = {}"

lemma results_bind: "b \<in> results (bind_run r f) \<Longrightarrow> \<exists>a\<in>results r. \<exists>s. b \<in> results (f a s)"
  by (induction r) (auto, blast)

lemma results_bind_Done: "b \<in> results (bind_run r (\<lambda>a s. Done (g a) (h a s))) \<longleftrightarrow> b \<in> g ` results r"
  by (induction r) auto

section \<open>Properties\<close>

definition emulated :: "u32 set" where
  "emulated = {0x01, 0x16, 0x17, 0x18, 0x24}"

lemma hyper_switch_results:
  assumes "x \<in> results (hyper_switch junk stack f esr s)"
  shows "fst x \<noteq> 0 \<longleftrightarrow> esr_ec esr \<in> emulated"
proof -
  have t: "fst x = 1" if "x \<in> results (bind_run r (\<lambda>f. Done (1, f)))" for r :: "arm64_iframe_long run" and x :: "int \<times> arm64_iframe_long"
    using results_bind [OF that] by auto
  show ?thesis using assms t
    by (auto simp: hyper_switch_def emulated_def Let_def split_beta split: if_splits option.splits prod.splits)
qed

lemma hyper_switch_some: "esr_ec esr \<notin> emulated \<Longrightarrow> hyper_switch junk stack f esr s = Done (0, f) s"
  by (simp add: hyper_switch_def emulated_def Let_def)


text \<open>A guest at EL1h that takes an exception with the syndrome \<open>esr\<close>.\<close>

definition trap_ex :: "u64 \<Rightarrow> hv_state" where
  "trap_ex esr = ARM64_WRITE_SYSREG SPSR_EL2 5 (ARM64_WRITE_SYSREG ESR_EL2 esr run_ex)"

definition frame_ex :: arm64_iframe_long where
  "frame_ex = \<lparr>if_r = replicate 30 0, if_lr = 0, if_usp = 0, if_elr = 0x40080000, if_spsr = 5\<rparr>"


text \<open>
  C38. A data abort of a guest at an address no device is emulated at is handed to the guest: the saved state of the exception registers of EL1
  is that of the fault, the syndrome names a data abort from the level the guest was at, no general register changes, and
  the guest resumes at the entry of its vector table for that level with interrupts masked. But the level it resumes at is the one
  it was at: the mode bits of the saved program status are kept, so that a fault of user code runs the vector of the guest's kernel at EL0.
\<close>

theorem unhandled_abort_reaches_guest:
  fixes s esr
  defines "el \<equiv> ARM64_READ_SYSREG SPSR_EL2 s AND 0xf"
  assumes "esr_ec esr = 0x24" "el \<in> {0, 4, 5}"
    and none: "mmio_space_find (vm_mmio (vms s (vcpu_vm (vcpus s (current_vcpu s))))) (fault_ipa s) (2 ^ unat (bitfield esr 22 2)) = None"
  shows "\<exists>s' f'. hyper_switch junk stack f esr s = Done (1, f') s' \<and> if_r f' = if_r f \<and>
    if_elr f' = ARM64_READ_SYSREG (EL1 VBAR_EL1) s + (if el = 0 then 0x400 else 0x200) \<and>
    ARM64_READ_SYSREG (EL1 ELR_EL1) s' = if_elr f \<and> ARM64_READ_SYSREG (EL1 SPSR_EL1) s' = if_spsr f \<and>
    bitfield (ARM64_READ_SYSREG (EL1 ESR_EL1) s') 26 6 = (if el = 0 then 0x24 else 0x25) \<and>
    bitfield (ARM64_READ_SYSREG (EL1 ESR_EL1) s') 0 26 = bitfield (ARM64_READ_SYSREG ESR_EL2 s) 0 26 \<and>
    bit (if_spsr f') 6 \<and> bit (if_spsr f') 7 \<and> bit (if_spsr f') 8 \<and> bitfield (if_spsr f') 0 4 = bitfield (if_spsr f) 0 4"
proof -
  have "hv_data_abort junk stack f esr s = Some (s, f, 0)"
    using none by (simp add: hv_data_abort_def Let_def hv_mmio_handler_def)
  then have h: "hyper_switch junk stack f esr s = (case hv_excep_to_el1 f ESR_DABT s of (s, f) \<Rightarrow> Done (1, f) s)"
    using assms(2) by (simp add: hyper_switch_def Let_def)
  have b: "bitfield (set_bitfield w 26 6 x) 26 6 = take_bit 6 x" "bitfield (set_bitfield w 26 6 x) 0 26 = bitfield w 0 26" for w x :: u64
    by (rule bit_word_eqI; auto simp: bitfield_def set_bitfield_def bit_simps)+
  have m: "bit (w OR push_bit 6 1 OR push_bit 7 1 OR push_bit 8 1 :: u64) n \<longleftrightarrow> bit w n \<or> n \<in> {6, 7, 8}" for w n
    unfolding bit_or_iff bit_push_bit_iff bit_1_iff by auto
  have m0: "bitfield (w OR push_bit 6 1 OR push_bit 7 1 OR push_bit 8 1 :: u64) 0 4 = bitfield w 0 4" for w
    by (rule bit_word_eqI) (auto simp: bitfield_def bit_take_bit_iff m)
  have e: "push_bit 6 1 OR push_bit 7 1 OR push_bit 8 1 = (448 :: u64)" by simp
  show ?thesis using assms(3) unfolding h
    by (auto simp: hv_excep_to_el1_def Let_def get_el1_excep_entry_def calc_esr_ec_def is_el_el0_def is_el_el1_def el_def b m [unfolded e] m0 [unfolded e])
qed

theorem unhandled_abort_witness:
  "\<exists>s' f'. hyper_switch (\<lambda>_. 0) 0 frame_ex 0x93C08007 (trap_ex 0x93C08007) = Done (1, f') s' \<and>
     ARM64_READ_SYSREG (EL1 ELR_EL1) s' = 0x40080000"
proof -
  have c: "current_vcpu (trap_ex e) = 0x200" "vcpus (trap_ex e) = vcpus run_ex" "vms (trap_ex e) = vms run_ex"
      "ARM64_READ_SYSREG SPSR_EL2 (trap_ex e) = 5" for e
    by (simp_all add: trap_ex_def) (simp_all add: current_vcpu_def ARM64_WRITE_SYSREG_def run_ex_def Let_def)
  have "mmio_space_find (vm_mmio (vms (trap_ex 0x93C08007) (vcpu_vm (vcpus (trap_ex 0x93C08007) (current_vcpu (trap_ex 0x93C08007)))))) a n = None" for a n
    unfolding c by (simp add: zero_vm_def hv_vm_mmio_init_def mmio_space_find_def)
  with unhandled_abort_reaches_guest [of "0x93C08007" "trap_ex 0x93C08007" "\<lambda>_. 0" 0 frame_ex] show ?thesis
    by (auto simp: c esr_ec_def frame_ex_def)
qed

end
