(* ===== verification/Spec2Isabelle.thy ===== *)
theory Spec2Isabelle
  imports HV_Prelude Cbuf Rbtree Rb_Erase Mmio Hv_State Gic_V3 Vgic_Lr Vcpu_Context Sched Timer Wait_Queue Mutex Event Vgic_Queue Vcpu Kernel_Boot
    Vgic_Inject Vgic_Mmio Pmm Stage2 Mmu Mmu_Map Heap Kpages Kheap Mmu_Correct Hv_Mem Vm_Image Vm Vm_Config Psci Traps
begin

text \<open>
  A verification development of lk_hv, a type 1 hypervisor for Armv8-A built into the LK kernel. The sources are under
  \<^verbatim>\<open>src/\<close>; the hypervisor is \<^verbatim>\<open>src/hv\<close>, and it relies on the kernel's threads (\<^verbatim>\<open>src/kernel\<close>), the page allocator
  (\<^verbatim>\<open>src/kernel/vm\<close>), the driver of the interrupt controller (\<^verbatim>\<open>src/dev/interrupt/gic_v3\<close>) and the exception entry (\<^verbatim>\<open>src/arch/arm64\<close>).

  \<^bold>\<open>The program.\<close> A machine (\<^verbatim>\<open>struct lk_vm\<close>) has virtual CPUs, guest memory translated by stage-2 tables, a space of
  emulated devices and a distributor of virtual interrupts. A virtual CPU (\<^verbatim>\<open>struct lk_vcpu\<close>) is run by an LK thread: when the
  scheduler switches to the thread, \<^verbatim>\<open>vcpu_switch_to\<close> saves the registers, interrupt state and timer of the old virtual CPU and
  loads those of the new one. A guest leaves through an exception: \<^verbatim>\<open>arm64_sync_exception\<close> dispatches calls, data aborts
  (emulated devices) and trapped registers; an interrupt goes through \<^verbatim>\<open>irq_exception\<close> to its handler and, if it is mapped to a
  guest, is queued on the virtual CPU and written to a list register on the way back. CPUs send each other events through ring buffers.

  \<^bold>\<open>Theories, in the order of the calls, and the code they model.\<close>
  \<^item> \<open>HV_Prelude\<close>: machine types, error codes, bit fields, bytes of words, and the lemmas the components share.
  \<^item> \<open>Cbuf\<close>: \<^verbatim>\<open>lib/cbuf/cbuf.c\<close>, the byte ring buffer with its two-segment copies; abstraction \<open>contents\<close> to a list of bytes; the locale
    \<open>byte_fifo\<close> is the contract, with the buffer as its interpretation.
  \<^item> \<open>Rbtree\<close>: \<^verbatim>\<open>hv/utils/rbtree.c\<close>, insertion with rotations on a zipper (the path of parents a node has in the code); locale
    \<open>ordered_index\<close>.
  \<^item> \<open>Rb_Erase\<close>: removal from that tree with its repair, and the hooks of augmented trees.
  \<^item> \<open>Mmio\<close>: \<^verbatim>\<open>hv/hv_mmio.c\<close>, the emulated ranges of a machine in that tree; the locale \<open>range_map\<close> states the contract of such a space, and
    the tree is its interpretation.
  \<^item> \<open>Hv_State\<close>: the data of the hypervisor as one record: CPUs, threads, virtual CPUs, machines, interrupts, system registers.
  \<^item> \<open>Gic_V3\<close>: the driver of the physical interrupt controller and the software generated interrupts.
  \<^item> \<open>Vgic_Lr\<close>: \<^verbatim>\<open>vgic_gic.c\<close>, the list registers.
  \<^item> \<open>Vcpu_Context\<close>: the context of a virtual CPU, its save and restore in assembly, the timer, and the switch; the locale
    \<open>switched_unit\<close> is what each of the three parts promises.
  \<^item> \<open>Sched\<close>: the scheduler of \<^verbatim>\<open>kernel/thread.c\<close>; \<open>sched_inv\<close> ties run queues, bitmap and current threads together.
  \<^item> \<open>Timer\<close>: \<^verbatim>\<open>kernel/timer.c\<close> with the wrap-around clock, and the preemption timers of \<^verbatim>\<open>kernel/thread.c\<close>; \<open>clock_step\<close> are its steps on all CPUs.
  \<^item> \<open>Wait_Queue\<close>: waiting, joining and sleeping in \<^verbatim>\<open>kernel/thread.c\<close>, and \<^verbatim>\<open>kernel/mutex.c\<close>, \<^verbatim>\<open>semaphore.c\<close> and \<^verbatim>\<open>event.c\<close>; an operation that
    reschedules in its middle is a \<open>krun\<close>, the state at that point with the rest of the operation.
  \<^item> \<open>Mutex\<close>: the steps of threads that use a mutex on all CPUs (\<open>mutex_step\<close>), their invariant \<open>mutex_inv\<close> and what follows from it;
    its parameter \<open>late\<close> allows the callbacks of finished waits to run late.
  \<^item> \<open>Event\<close>: \<^verbatim>\<open>hv_event.c\<close>, events between CPUs as messages of fixed length in a ring buffer, through the laws of \<open>byte_fifo\<close>.
  \<^item> \<open>Vgic_Queue\<close>: the pending list and the list registers' list of a virtual CPU in \<^verbatim>\<open>hv_vgic.c\<close>, with the invariant \<open>vq_inv\<close>.
  \<^item> \<open>Vcpu\<close>: \<^verbatim>\<open>hv_vcpu.c\<close>, start, stop, resume, power off.
  \<^item> \<open>Kernel_Boot\<close>: the start of the kernel on all CPUs (\<^verbatim>\<open>top/main.c\<close>); \<open>kernel_step\<close> are the steps of the scheduler from there, \<open>kernel_inv\<close> their invariant.
  \<^item> \<open>Vgic_Inject\<close>: injection, enabling, migration and the handler of mapped interrupts; the steps of the whole interrupt system.
  \<^item> \<open>Vgic_Mmio\<close>: \<^verbatim>\<open>vgic_mmio.c\<close>, the registers of the virtual distributor and redistributors.
  \<^item> \<open>Pmm\<close>: \<^verbatim>\<open>kernel/vm/pmm.c\<close>, arenas of physical pages with the allocators; locale \<open>page_source\<close>.
  \<^item> \<open>Stage2\<close>: \<^verbatim>\<open>hv_arch_mem.c\<close>, the tables in memory; \<open>st2_translate\<close> is the walk the hardware does and the specification.
  \<^item> \<open>Mmu\<close>: \<^verbatim>\<open>arch/arm64/mmu.c\<close>, the tables of the kernel's own addresses, with the lookups of \<^verbatim>\<open>kernel/vm/vm.c\<close>.
  \<^item> \<open>Mmu_Map\<close>: the tables as a tree of pages (\<open>table_inv\<close>), the leaf that translates an address (\<open>table_leaf\<close>), and what the loops of mapping and
    unmapping do to both, by induction on the level.
  \<^item> \<open>Mmu_Correct\<close>: what \<^verbatim>\<open>arch_mmu_map\<close> and \<^verbatim>\<open>arch_mmu_unmap\<close> do, as \<^verbatim>\<open>arch_mmu_query\<close> sees it.
  \<^item> \<open>Heap\<close>: \<^verbatim>\<open>lib/heap\<close>, the kernel's heap on a page allocator that is a parameter; locale \<open>page_provider\<close>.
  \<^item> \<open>Kpages\<close>: that allocator, on the arenas and the translation tables, as the locale's interpretation.
  \<^item> \<open>Kheap\<close>: the properties of the heap on the kernel's pages.
  \<^item> \<open>Hv_Mem\<close>: \<^verbatim>\<open>hv_mem.c\<close>, the RAM of a machine.
  \<^item> \<open>Vm_Image\<close>: \<^verbatim>\<open>hv_image.c\<close>, loading the ELF image and the device tree.
  \<^item> \<open>Vm\<close>: \<^verbatim>\<open>hv_vm.c\<close>, creation, start and shutdown of machines, and the event handlers that call them.
  \<^item> \<open>Vm_Config\<close>: \<^verbatim>\<open>vm_config.c\<close>, \<^verbatim>\<open>hv_arch_cfg.c\<close> and \<^verbatim>\<open>hv_boot.c\<close>, the configuration of machines from a device tree and the boot;
    \<open>vm_tree\<close> writes the tree that the parser reads.
  \<^item> \<open>Psci\<close>: \<^verbatim>\<open>hv_psci_emulation.c\<close>, the power calls of guests.
  \<^item> \<open>Traps\<close>: \<^verbatim>\<open>hv_arch_traps.c\<close> and the exception and interrupt entry.

  \<^bold>\<open>How code becomes definitions.\<close> A C function is a function on the record of the state it changes; its result is paired with
  the new state. An operation that may write through NULL, read outside an array or not return from an assertion is an option or
  a \<open>run\<close>, whose values are \<open>Done\<close>, \<open>Switch\<close> (the thread gave up the CPU, with what it does when it is scheduled again) and \<open>Crash\<close>. Integers have
  their width in C; a value the C code computes in \<^verbatim>\<open>int\<close> without a possible overflow is an \<open>int\<close>. Linked lists are lists
  of the objects, with the flag for an empty node where the code tests it. Locks are not modelled as waiting: the operations they protect are single
  steps, and the steps of different CPUs interleave in \<open>Vgic_Inject\<close> and \<open>Mutex\<close>. The file system, memory returned by \<^verbatim>\<open>malloc\<close> and the content of uninitialised
  variables are arguments.

  \<^bold>\<open>What the lemmas show.\<close> Memory: a new machine gets RAM of its own, mapping and unmapping change exactly the translations asked
  for, for this and every other machine, and break-before-make is kept; mapping in the kernel's own tables is all or nothing; no two blocks of the heap share a byte; a loaded segment is where the guest reads it. Interrupts: a mapped interrupt
  is delivered once, the lists stay well formed in every interleaving, a guest's writes to its interrupt controller stay in its machine. Virtual
  CPUs: a switch gives back the registers, starting and stopping act on one thread and keep the scheduler's invariant, a remote power off completes. Kernel: a mutex has one holder, and no wake-up is
  lost as long as no wait has a limit; timers run when they are due. Configuration: parsing inverts writing. The
  remaining properties prove where the code does not do what it means to.

  \<^bold>\<open>Loops.\<close> Loops over lists and levels are structural; \<open>find_run\<close>, \<open>top_scan\<close>, \<open>map_loop\<close>, \<open>unmap_loop\<close> and the write loop of the ring buffer have
  termination proofs. The read loop of the ring buffer has fuel, one more than the bytes asked for: under the invariant every pass reads at least one byte,
  and the property of the read says that the fuel is enough. The walk of the tables is bounded by the number of levels. The
  loop of the timer interrupt is a partial function: its properties say when it ends and give a case in which it does not.

  \<^bold>\<open>Not modelled.\<close> The console commands and tests (printing only), the library for device trees (third-party code, a parameter),
  file systems and drivers other than the interrupt controller and the timer, regions of virtual memory (\<^verbatim>\<open>vmm.c\<close>), ports, creating and switching address spaces, the boot assembly, and the other architectures and applications of LK.
\<close>

end
